(* ===== verification/Prelude.thy ===== *)
theory Prelude
  imports Main "HOL-Library.Word"
begin

text \<open>
  Shared vocabulary of the development: the machine integer types of the C++ sources as words,
  the search loop that the sources write again and again (\<open>for (i = 0; i < n; ++i) if (...)
  return i\<close>), and the facts about masks, alignment and addition without wrap-around that the
  component theories use.  The collection \<open>unat_simps\<close> moves word goals to natural numbers.
\<close>

unbundle bit_operations_syntax

named_theorems unat_simps \<open>word operations read as natural numbers\<close>

type_synonym u8 = "8 word"
type_synonym u16 = "16 word"
type_synonym u32 = "32 word"
type_synonym u64 = "64 word"
type_synonym addr = "64 word"

section \<open>The search loop\<close>

fun find_index :: "('a \<Rightarrow> bool) \<Rightarrow> 'a list \<Rightarrow> nat option" where
  "find_index P [] = None"
| "find_index P (x # xs) = (if P x then Some 0 else map_option Suc (find_index P xs))"

lemma find_index_None_iff: "find_index P xs = None \<longleftrightarrow> (\<forall>x \<in> set xs. \<not> P x)"
  by (induction xs) auto

lemma find_index_SomeD:
  "find_index P xs = Some i \<Longrightarrow> i < length xs \<and> P (xs ! i) \<and> (\<forall>j < i. \<not> P (xs ! j))"
proof (induction xs arbitrary: i)
  case Nil
  then show ?case by simp
next
  case (Cons x xs)
  show ?case
  proof (cases "P x")
    case True
    with Cons.prems show ?thesis by simp
  next
    case False
    with Cons.prems obtain k where k: "find_index P xs = Some k" and i: "i = Suc k"
      by auto
    from Cons.IH [OF k] False show ?thesis
      unfolding i by (auto simp: less_Suc_eq_0_disj)
  qed
qed

lemma find_index_SomeI:
  "i < length xs \<Longrightarrow> P (xs ! i) \<Longrightarrow> (\<forall>j < i. \<not> P (xs ! j)) \<Longrightarrow> find_index P xs = Some i"
proof (induction xs arbitrary: i)
  case Nil
  then show ?case by simp
next
  case (Cons x xs)
  show ?case
  proof (cases i)
    case 0
    with Cons.prems show ?thesis by simp
  next
    case (Suc k)
    have "find_index P xs = Some k"
      using Cons.prems Suc by (intro Cons.IH) auto
    moreover have "\<not> P x"
      using Cons.prems Suc by (metis nth_Cons_0 zero_less_Suc)
    ultimately show ?thesis using Suc by simp
  qed
qed

lemma find_index_append:
  "find_index P (xs @ ys) =
     (case find_index P xs of Some i \<Rightarrow> Some i
      | None \<Rightarrow> map_option ((+) (length xs)) (find_index P ys))"
proof (induction xs)
  case Nil
  then show ?case by (cases "find_index P ys") auto
next
  case (Cons x xs)
  then show ?case
    by (cases "find_index P ys") (auto split: option.splits)
qed

lemma find_index_map: "find_index P (map f xs) = find_index (P \<circ> f) xs"
  by (induction xs) auto

section \<open>Addition without wrap-around\<close>

lemma unat_plus_no_wrap [unat_simps]:
  "unat a + unat b < 2 ^ LENGTH('a) \<Longrightarrow> unat (a + b) = unat a + unat b"
  for a b :: "'a::len word"
  by (simp add: unat_word_ariths)

lemma unat_minus_no_wrap [unat_simps]: "b \<le> a \<Longrightarrow> unat (a - b) = unat a - unat b"
  for a b :: "'a::len word"
  by (rule unat_sub)

lemma unat_Suc_no_wrap [unat_simps]: "unat a + 1 < 2 ^ LENGTH('a) \<Longrightarrow> unat (a + 1) = unat a + 1"
  for a :: "'a::len word"
  by (simp add: unat_word_ariths)

lemma unat_power2 [unat_simps]:
  assumes "k < LENGTH('a)"
  shows "unat (2 ^ k :: 'a::len word) = 2 ^ k"
proof -
  have "(2::nat) ^ k < 2 ^ LENGTH('a)"
    using assms by (rule power_strict_increasing) simp
  then have "unat (of_nat (2 ^ k) :: 'a word) = 2 ^ k"
    by (simp only: unat_of_nat mod_less)
  then show ?thesis by simp
qed

section \<open>Masks and alignment\<close>

lemma unat_and_mask [unat_simps]: "unat (x AND mask n) = unat x mod 2 ^ n"
  for x :: "'a::len word"
  by (simp flip: take_bit_eq_mask take_bit_eq_mod add: unsigned_take_bit_eq)

lemma and_not_mask_eq_push_drop: "x AND NOT (mask n) = push_bit n (drop_bit n x)"
  for x :: "'a::len word"
  by (rule bit_word_eqI) (auto simp: bit_simps)

lemma unat_and_not_mask [unat_simps]:
  "unat (x AND NOT (mask n)) = unat x div 2 ^ n * 2 ^ n" for x :: "'a::len word"
proof -
  have "push_bit n (drop_bit n x) = x - (x AND mask n)"
    using bits_ident [of n x] by (simp add: take_bit_eq_mask algebra_simps)
  moreover have "x AND mask n \<le> x"
    by (simp add: word_le_nat_alt unat_and_mask)
  ultimately have "unat (x AND NOT (mask n)) = unat x - unat x mod 2 ^ n"
    by (simp add: and_not_mask_eq_push_drop unat_sub unat_and_mask)
  then show ?thesis by (simp add: minus_mod_eq_div_mult)
qed

lemma unat_drop_bit [unat_simps]: "unat (drop_bit n x) = unat x div 2 ^ n"
  for x :: "'a::len word"
proof -
  have "unat (drop_bit n x) = drop_bit n (unat x)"
    by (simp add: unsigned_drop_bit_eq take_bit_nat_eq_self)
  then show ?thesis by (simp only: drop_bit_eq_div)
qed

lemma unat_ucast_up [unat_simps]:
  fixes w :: "'a::len word"
  assumes "LENGTH('a) \<le> LENGTH('b::len)"
  shows "unat (ucast w :: 'b word) = unat w"
proof -
  have "unat w < 2 ^ LENGTH('a)" by (rule unsigned_less)
  also have "\<dots> \<le> 2 ^ LENGTH('b)" using assms by (rule power_increasing) simp
  finally show ?thesis by (simp add: unsigned_ucast_eq take_bit_nat_eq_self)
qed

lemma unat_mask_word:
  assumes "k \<le> LENGTH('a)"
  shows "unat (mask k :: 'a::len word) = 2 ^ k - 1"
proof -
  have "uint (mask k :: 'a word) = mask k"
    using assms by (simp only: uint_mask_eq min.absorb2)
  then have "int (unat (mask k :: 'a word)) = 2 ^ k - 1"
    by (simp only: uint_nat [symmetric] mask_eq_exp_minus_1)
  also have "\<dots> = int (2 ^ k - 1)"
    by (simp add: of_nat_diff)
  finally show ?thesis by linarith
qed

text \<open>Rounding up to a power of two, as \<open>(cur + align - 1) & ~(align - 1)\<close> computes it.\<close>

lemma unat_align_up:
  fixes x :: "'a::len word"
  assumes "unat x + 2 ^ k \<le> 2 ^ LENGTH('a)"
  shows "unat ((x + mask k) AND NOT (mask k)) = (unat x + 2 ^ k - 1) div 2 ^ k * 2 ^ k"
proof -
  have le: "(2::nat) ^ k \<le> 2 ^ LENGTH('a)" using assms by linarith
  then have "k \<le> LENGTH('a)" by (rule power_le_imp_le_exp [rotated]) simp
  then have m: "unat (mask k :: 'a word) = 2 ^ k - 1"
    by (rule unat_mask_word)
  have pos: "(0::nat) < 2 ^ k" by simp
  have "unat (x + mask k) = unat x + (2 ^ k - 1)"
    using assms m pos by (subst unat_plus_no_wrap) linarith+
  then show ?thesis
    using pos by (simp add: unat_and_not_mask)
qed

lemma align_up_bounds:
  fixes n d :: nat
  assumes "0 < d"
  shows "n \<le> (n + d - 1) div d * d" and "(n + d - 1) div d * d < n + d"
    and "(n + d - 1) div d * d mod d = 0"
proof -
  let ?q = "(n + d - 1) div d"
  have split: "?q * d + (n + d - 1) mod d = n + d - 1"
    by simp
  have "(n + d - 1) mod d < d" using assms by simp
  with split assms show "n \<le> ?q * d" and "?q * d < n + d"
    by linarith+
  show "?q * d mod d = 0" by simp
qed

end
