(* ===== verification/X86.thy ===== *)
theory X86
  imports Prelude
begin

text \<open>
  The part of the x86-64 instruction set that the code generator emits: byte encodings, a
  decoder, and the effect of each instruction on registers, flags and byte memory.  This is the
  meaning of the bytes that \<open>src/src/codegen/emitter.cpp\<close> writes.  Functions outside the
  emitted page are a parameter \<open>ext\<close>; a call or tail call whose stack pointer breaks the
  System V alignment rule is stuck, so a theorem that a routine finishes includes that it keeps
  the rule.  What a callee owes its caller is the locale \<open>sysv_callee\<close>.
\<close>

section \<open>Bytes\<close>

definition le32 :: "u32 \<Rightarrow> u8 list" where
  "le32 v = [ucast v, ucast (drop_bit 8 v), ucast (drop_bit 16 v), ucast (drop_bit 24 v)]"

definition le64 :: "u64 \<Rightarrow> u8 list" where
  "le64 v = [ucast v, ucast (drop_bit 8 v), ucast (drop_bit 16 v), ucast (drop_bit 24 v),
             ucast (drop_bit 32 v), ucast (drop_bit 40 v), ucast (drop_bit 48 v),
             ucast (drop_bit 56 v)]"

definition get32 :: "u8 \<Rightarrow> u8 \<Rightarrow> u8 \<Rightarrow> u8 \<Rightarrow> u32" where
  "get32 b0 b1 b2 b3 =
     ucast b0 OR push_bit 8 (ucast b1) OR push_bit 16 (ucast b2) OR push_bit 24 (ucast b3)"

definition get64 :: "u8 \<Rightarrow> u8 \<Rightarrow> u8 \<Rightarrow> u8 \<Rightarrow> u8 \<Rightarrow> u8 \<Rightarrow> u8 \<Rightarrow> u8 \<Rightarrow> u64" where
  "get64 b0 b1 b2 b3 b4 b5 b6 b7 =
     ucast b0 OR push_bit 8 (ucast b1) OR push_bit 16 (ucast b2) OR push_bit 24 (ucast b3) OR
     push_bit 32 (ucast b4) OR push_bit 40 (ucast b5) OR push_bit 48 (ucast b6) OR
     push_bit 56 (ucast b7)"

text \<open>Sign extension of 8- and 32-bit immediates to 64 bits.\<close>

definition sx8 :: "u8 \<Rightarrow> u64" where
  "sx8 b = (if b < 128 then ucast b else ucast b - 256)"

definition sx32 :: "u32 \<Rightarrow> u64" where
  "sx32 v = (if v < 0x80000000 then ucast v else ucast v - 0x100000000)"

type_synonym memory = "addr \<Rightarrow> u8"

definition rd64 :: "memory \<Rightarrow> addr \<Rightarrow> u64" where
  "rd64 m a = get64 (m a) (m (a + 1)) (m (a + 2)) (m (a + 3)) (m (a + 4)) (m (a + 5)) (m (a + 6))
                (m (a + 7))"

definition wr64 :: "memory \<Rightarrow> addr \<Rightarrow> u64 \<Rightarrow> memory" where
  "wr64 m a v = (\<lambda>x. if x - a < 8 then le64 v ! unat (x - a) else m x)"

section \<open>Instructions\<close>

datatype instr =
    CmpRdi u32           \<comment> \<open>cmp rdi, imm32\<close>
  | Jne u8
  | Jae u8
  | Jz u8
  | MovRaxFs u32         \<comment> \<open>mov rax, fs:[disp32]\<close>
  | MovFsRcx u32         \<comment> \<open>mov fs:[disp32], rcx\<close>
  | CmpRcxFs u32         \<comment> \<open>cmp rcx, fs:[disp32]\<close>
  | LeaRcx8 u8           \<comment> \<open>lea rcx, [rax + disp8]\<close>
  | LeaRcx32 u32         \<comment> \<open>lea rcx, [rax + disp32]\<close>
  | MovRcxRax            \<comment> \<open>mov rcx, [rax]\<close>
  | TestRax
  | CmpRax8 u8           \<comment> \<open>cmp rax, imm8\<close>
  | SubRsp u8
  | AddRsp u8
  | MovEdi u32
  | MovEsi u32
  | MovEdx u32
  | MovabsRax u64
  | MovabsRsi u64
  | PushRdi
  | PopRdi
  | CallRax
  | JmpRax
  | Ret

primrec encode :: "instr \<Rightarrow> u8 list" where
  "encode (CmpRdi v) = [0x48, 0x81, 0xFF] @ le32 v"
| "encode (Jne d) = [0x75, d]"
| "encode (Jae d) = [0x73, d]"
| "encode (Jz d) = [0x74, d]"
| "encode (MovRaxFs v) = [0x64, 0x48, 0x8B, 0x04, 0x25] @ le32 v"
| "encode (MovFsRcx v) = [0x64, 0x48, 0x89, 0x0C, 0x25] @ le32 v"
| "encode (CmpRcxFs v) = [0x64, 0x48, 0x3B, 0x0C, 0x25] @ le32 v"
| "encode (LeaRcx8 d) = [0x48, 0x8D, 0x48, d]"
| "encode (LeaRcx32 v) = [0x48, 0x8D, 0x88] @ le32 v"
| "encode MovRcxRax = [0x48, 0x8B, 0x08]"
| "encode TestRax = [0x48, 0x85, 0xC0]"
| "encode (CmpRax8 d) = [0x48, 0x83, 0xF8, d]"
| "encode (SubRsp d) = [0x48, 0x83, 0xEC, d]"
| "encode (AddRsp d) = [0x48, 0x83, 0xC4, d]"
| "encode (MovEdi v) = 0xBF # le32 v"
| "encode (MovEsi v) = 0xBE # le32 v"
| "encode (MovEdx v) = 0xBA # le32 v"
| "encode (MovabsRax v) = [0x48, 0xB8] @ le64 v"
| "encode (MovabsRsi v) = [0x48, 0xBE] @ le64 v"
| "encode PushRdi = [0x57]"
| "encode PopRdi = [0x5F]"
| "encode CallRax = [0xFF, 0xD0]"
| "encode JmpRax = [0xFF, 0xE0]"
| "encode Ret = [0xC3]"

primrec ilen :: "instr \<Rightarrow> nat" where
  "ilen (CmpRdi v) = 7"
| "ilen (Jne d) = 2"
| "ilen (Jae d) = 2"
| "ilen (Jz d) = 2"
| "ilen (MovRaxFs v) = 9"
| "ilen (MovFsRcx v) = 9"
| "ilen (CmpRcxFs v) = 9"
| "ilen (LeaRcx8 d) = 4"
| "ilen (LeaRcx32 v) = 7"
| "ilen MovRcxRax = 3"
| "ilen TestRax = 3"
| "ilen (CmpRax8 d) = 4"
| "ilen (SubRsp d) = 4"
| "ilen (AddRsp d) = 4"
| "ilen (MovEdi v) = 5"
| "ilen (MovEsi v) = 5"
| "ilen (MovEdx v) = 5"
| "ilen (MovabsRax v) = 10"
| "ilen (MovabsRsi v) = 10"
| "ilen PushRdi = 1"
| "ilen PopRdi = 1"
| "ilen CallRax = 2"
| "ilen JmpRax = 2"
| "ilen Ret = 1"

definition imm32_of :: "(u32 \<Rightarrow> instr) \<Rightarrow> u8 list \<Rightarrow> instr option" where
  "imm32_of f bs =
     (case bs of b0 # b1 # b2 # b3 # _ \<Rightarrow> Some (f (get32 b0 b1 b2 b3)) | _ \<Rightarrow> None)"

definition imm64_of :: "(u64 \<Rightarrow> instr) \<Rightarrow> u8 list \<Rightarrow> instr option" where
  "imm64_of f bs =
     (case bs of b0 # b1 # b2 # b3 # b4 # b5 # b6 # b7 # _ \<Rightarrow>
        Some (f (get64 b0 b1 b2 b3 b4 b5 b6 b7)) | _ \<Rightarrow> None)"

definition imm8_of :: "(u8 \<Rightarrow> instr) \<Rightarrow> u8 list \<Rightarrow> instr option" where
  "imm8_of f bs = (case bs of b # _ \<Rightarrow> Some (f b) | _ \<Rightarrow> None)"

text \<open>Opcodes after a REX.W prefix (48).\<close>

definition decode_rexw :: "u8 list \<Rightarrow> instr option" where
  "decode_rexw bs =
     (case bs of
        op # m # r \<Rightarrow>
          (if op = 0xB8 then imm64_of MovabsRax (m # r)
           else if op = 0xBE then imm64_of MovabsRsi (m # r)
           else if op = 0x81 \<and> m = 0xFF then imm32_of CmpRdi r
           else if op = 0x8D \<and> m = 0x48 then imm8_of LeaRcx8 r
           else if op = 0x8D \<and> m = 0x88 then imm32_of LeaRcx32 r
           else if op = 0x8B \<and> m = 0x08 then Some MovRcxRax
           else if op = 0x85 \<and> m = 0xC0 then Some TestRax
           else if op = 0x83 \<and> m = 0xF8 then imm8_of CmpRax8 r
           else if op = 0x83 \<and> m = 0xEC then imm8_of SubRsp r
           else if op = 0x83 \<and> m = 0xC4 then imm8_of AddRsp r
           else None)
      | _ \<Rightarrow> None)"

text \<open>Opcodes after the FS segment override and REX.W (64 48).\<close>

definition decode_fs :: "u8 list \<Rightarrow> instr option" where
  "decode_fs bs =
     (case bs of
        rex # op # m # sib # r \<Rightarrow>
          (if rex = 0x48 \<and> op = 0x8B \<and> m = 0x04 \<and> sib = 0x25 then imm32_of MovRaxFs r
           else if rex = 0x48 \<and> op = 0x89 \<and> m = 0x0C \<and> sib = 0x25 then imm32_of MovFsRcx r
           else if rex = 0x48 \<and> op = 0x3B \<and> m = 0x0C \<and> sib = 0x25 then imm32_of CmpRcxFs r
           else None)
      | _ \<Rightarrow> None)"

definition decode_one :: "u8 list \<Rightarrow> instr option" where
  "decode_one bs =
     (case bs of
        [] \<Rightarrow> None
      | b # r \<Rightarrow>
          (if b = 0x48 then decode_rexw r
           else if b = 0x64 then decode_fs r
           else if b = 0x75 then imm8_of Jne r
           else if b = 0x73 then imm8_of Jae r
           else if b = 0x74 then imm8_of Jz r
           else if b = 0xBF then imm32_of MovEdi r
           else if b = 0xBE then imm32_of MovEsi r
           else if b = 0xBA then imm32_of MovEdx r
           else if b = 0x57 then Some PushRdi
           else if b = 0x5F then Some PopRdi
           else if b = 0xC3 then Some Ret
           else if b = 0xFF \<and> r \<noteq> [] \<and> hd r = 0xD0 then Some CallRax
           else if b = 0xFF \<and> r \<noteq> [] \<and> hd r = 0xE0 then Some JmpRax
           else None))"

section \<open>The machine\<close>

record x86 =
  rax :: u64
  rcx :: u64
  rdx :: u64
  rdi :: u64
  rsi :: u64
  rsp :: u64
  rip :: u64
  zf :: bool
  cf :: bool
  fsbase :: u64
  mem :: memory

datatype 's outcome =
    Next 's              \<comment> \<open>still inside the page\<close>
  | Returned 's          \<comment> \<open>executed \<open>ret\<close>\<close>
  | TailCall addr 's     \<comment> \<open>jumped to a function outside the page\<close>
  | Stuck

definition fs_at :: "u32 \<Rightarrow> 'e x86_scheme \<Rightarrow> addr" where
  "fs_at off s = fsbase s + sx32 off"

definition set_cmp :: "u64 \<Rightarrow> u64 \<Rightarrow> 'e x86_scheme \<Rightarrow> 'e x86_scheme" where
  "set_cmp a b s = s\<lparr>zf := (a = b), cf := (a < b)\<rparr>"

definition jump_if :: "bool \<Rightarrow> u8 \<Rightarrow> 'e x86_scheme \<Rightarrow> 'e x86_scheme" where
  "jump_if c d s = (if c then s\<lparr>rip := rip s + sx8 d\<rparr> else s)"

definition push64 :: "u64 \<Rightarrow> 'e x86_scheme \<Rightarrow> 'e x86_scheme" where
  "push64 v s = s\<lparr>rsp := rsp s - 8, mem := wr64 (mem s) (rsp s - 8) v\<rparr>"

text \<open>
  \<open>exec\<close> runs an instruction whose successor address is already in \<open>rip\<close>.  A call enters the
  callee with the return address pushed; \<open>ext f\<close> is the whole execution of the function at
  \<open>f\<close> up to and including its \<open>ret\<close>.
\<close>

type_synonym 'e callee = "addr \<Rightarrow> 'e x86_scheme \<Rightarrow> 'e x86_scheme"

primrec exec :: "'e callee \<Rightarrow> instr \<Rightarrow> 'e x86_scheme \<Rightarrow> 'e x86_scheme outcome" where
  "exec ext (CmpRdi v) s = Next (set_cmp (rdi s) (sx32 v) s)"
| "exec ext (Jne d) s = Next (jump_if (\<not> zf s) d s)"
| "exec ext (Jae d) s = Next (jump_if (\<not> cf s) d s)"
| "exec ext (Jz d) s = Next (jump_if (zf s) d s)"
| "exec ext (MovRaxFs v) s = Next (s\<lparr>rax := rd64 (mem s) (fs_at v s)\<rparr>)"
| "exec ext (MovFsRcx v) s = Next (s\<lparr>mem := wr64 (mem s) (fs_at v s) (rcx s)\<rparr>)"
| "exec ext (CmpRcxFs v) s = Next (set_cmp (rcx s) (rd64 (mem s) (fs_at v s)) s)"
| "exec ext (LeaRcx8 d) s = Next (s\<lparr>rcx := rax s + sx8 d\<rparr>)"
| "exec ext (LeaRcx32 v) s = Next (s\<lparr>rcx := rax s + sx32 v\<rparr>)"
| "exec ext MovRcxRax s = Next (s\<lparr>rcx := rd64 (mem s) (rax s)\<rparr>)"
| "exec ext TestRax s = Next (s\<lparr>zf := (rax s = 0), cf := False\<rparr>)"
| "exec ext (CmpRax8 d) s = Next (set_cmp (rax s) (sx8 d) s)"
| "exec ext (SubRsp d) s =
     Next (s\<lparr>rsp := rsp s - sx8 d, zf := (rsp s = sx8 d), cf := (rsp s < sx8 d)\<rparr>)"
| "exec ext (AddRsp d) s =
     Next (s\<lparr>rsp := rsp s + sx8 d, zf := (rsp s + sx8 d = 0), cf := (rsp s + sx8 d < rsp s)\<rparr>)"
| "exec ext (MovEdi v) s = Next (s\<lparr>rdi := ucast v\<rparr>)"
| "exec ext (MovEsi v) s = Next (s\<lparr>rsi := ucast v\<rparr>)"
| "exec ext (MovEdx v) s = Next (s\<lparr>rdx := ucast v\<rparr>)"
| "exec ext (MovabsRax v) s = Next (s\<lparr>rax := v\<rparr>)"
| "exec ext (MovabsRsi v) s = Next (s\<lparr>rsi := v\<rparr>)"
| "exec ext PushRdi s = Next (push64 (rdi s) s)"
| "exec ext PopRdi s = Next (s\<lparr>rdi := rd64 (mem s) (rsp s), rsp := rsp s + 8\<rparr>)"
| "exec ext CallRax s =
     (if rsp s AND 15 = 0 then Next (ext (rax s) ((push64 (rip s) s)\<lparr>rip := rax s\<rparr>)) else Stuck)"
| "exec ext JmpRax s =
     (if rsp s AND 15 = 8 then TailCall (rax s) (s\<lparr>rip := rax s\<rparr>) else Stuck)"
| "exec ext Ret s = Returned (s\<lparr>rip := rd64 (mem s) (rsp s), rsp := rsp s + 8\<rparr>)"

text \<open>Fetch, decode, execute over a page of code at \<open>base\<close>; \<open>None\<close> is out of fuel.\<close>

definition step :: "'e callee \<Rightarrow> addr \<Rightarrow> u8 list \<Rightarrow> 'e x86_scheme \<Rightarrow> 'e x86_scheme outcome" where
  "step ext base code s =
     (if length code \<le> unat (rip s - base) then Stuck
      else case decode_one (drop (unat (rip s - base)) code) of
             None \<Rightarrow> Stuck
           | Some i \<Rightarrow> exec ext i (s\<lparr>rip := rip s + of_nat (ilen i)\<rparr>))"

fun run :: "nat \<Rightarrow> 'e callee \<Rightarrow> addr \<Rightarrow> u8 list \<Rightarrow> 'e x86_scheme \<Rightarrow> 'e x86_scheme outcome option" where
  "run 0 ext base code s = None"
| "run (Suc n) ext base code s =
     (case step ext base code s of Next s' \<Rightarrow> run n ext base code s' | r \<Rightarrow> Some r)"

section \<open>Encoding and memory\<close>

lemma bit_byte32:
  "bit (push_bit k (ucast (ucast (drop_bit k v) :: u8)) :: u32) n \<longleftrightarrow> k \<le> n \<and> n < k + 8 \<and> n < 32 \<and> bit v n"
  for v :: u32
  by (auto simp: bit_simps)

lemma bit_byte64:
  "bit (push_bit k (ucast (ucast (drop_bit k v) :: u8)) :: u64) n \<longleftrightarrow> k \<le> n \<and> n < k + 8 \<and> n < 64 \<and> bit v n"
  for v :: u64
  by (auto simp: bit_simps)

lemma get32_le32 [simp]:
  "get32 (ucast v) (ucast (drop_bit 8 v)) (ucast (drop_bit 16 v)) (ucast (drop_bit 24 v)) = v"
proof (rule bit_word_eqI)
  fix n assume "n < LENGTH(32)"
  then show "bit (get32 (ucast v) (ucast (drop_bit 8 v)) (ucast (drop_bit 16 v))
                    (ucast (drop_bit 24 v))) n = bit v n"
    using bit_byte32 [of 0 v n]
    by (simp only: get32_def bit_or_iff bit_byte32 push_bit_0_id drop_bit_0 id_apply
      ) (simp, linarith)
qed

lemma get64_le64 [simp]:
  "get64 (ucast v) (ucast (drop_bit 8 v)) (ucast (drop_bit 16 v)) (ucast (drop_bit 24 v))
     (ucast (drop_bit 32 v)) (ucast (drop_bit 40 v)) (ucast (drop_bit 48 v)) (ucast (drop_bit 56 v)) = v"
proof (rule bit_word_eqI)
  fix n assume "n < LENGTH(64)"
  then show "bit (get64 (ucast v) (ucast (drop_bit 8 v)) (ucast (drop_bit 16 v)) (ucast (drop_bit 24 v))
     (ucast (drop_bit 32 v)) (ucast (drop_bit 40 v)) (ucast (drop_bit 48 v)) (ucast (drop_bit 56 v))) n = bit v n"
    using bit_byte64 [of 0 v n]
    by (simp only: get64_def bit_or_iff bit_byte64 push_bit_0_id drop_bit_0 id_apply) (simp, linarith)
qed

lemma length_encode: "length (encode i) = ilen i"
  by (cases i) (simp_all add: le32_def le64_def)

lemma decode_one_encode: "decode_one (encode i @ r) = Some i"
  by (cases i) (simp_all add: decode_one_def decode_rexw_def decode_fs_def imm8_of_def imm32_of_def
      imm64_of_def le32_def le64_def get32_le32 get64_le64)

lemma rd64_wr64_same: "rd64 (wr64 m a v) a = v"
  by (simp add: rd64_def wr64_def le64_def get64_le64)

lemma rd64_cong: "(\<And>k. k < 8 \<Longrightarrow> m (a + k) = m' (a + k)) \<Longrightarrow> rd64 m a = rd64 m' a"
proof -
  assume *: "\<And>k. k < 8 \<Longrightarrow> m (a + k) = m' (a + k)"
  from *[of 0] *[of 1] *[of 2] *[of 3] *[of 4] *[of 5] *[of 6] *[of 7]
  show ?thesis by (simp add: rd64_def)
qed

lemma wr64_other: "8 \<le> x - a \<Longrightarrow> wr64 m a v x = m x"
  by (simp add: wr64_def not_less [symmetric])

lemma rd64_wr64_disjoint:
  assumes "8 \<le> b - a" "8 \<le> a - b"
  shows "rd64 (wr64 m a v) b = rd64 m b"
proof (rule rd64_cong)
  fix k :: u64
  assume k: "k < 8"
  have "8 \<le> (b + k) - a"
  proof (rule ccontr)
    assume "\<not> 8 \<le> (b + k) - a"
    then have l: "(b + k) - a < 8" by simp
    define d where "d = (b + k) - a"
    have "a - b = k - d" "b - a = d - k" by (simp_all add: d_def)
    moreover have "d < 8" using l d_def by simp
    ultimately show False
      using assms k
      by (cases "d \<le> k") (auto simp: word_le_nat_alt word_less_nat_alt unat_sub not_le)
  qed
  then show "wr64 m a v (b + k) = m (b + k)" by (rule wr64_other)
qed

section \<open>Assembled programs\<close>

definition assemble :: "instr list \<Rightarrow> u8 list" where
  "assemble is = concat (map encode is)"

fun instr_at :: "instr list \<Rightarrow> nat \<Rightarrow> instr option" where
  "instr_at [] k = None"
| "instr_at (i # is) k =
     (if k = 0 then Some i else if k < ilen i then None else instr_at is (k - ilen i))"

fun code_at :: "instr list \<Rightarrow> nat \<Rightarrow> instr list \<Rightarrow> bool" where
  "code_at is k [] = True"
| "code_at is k (i # js) \<longleftrightarrow> instr_at is k = Some i \<and> code_at is (k + ilen i) js"

lemma ilen_pos: "0 < ilen i"
  by (cases i) auto

lemma decode_at:
  "instr_at is k = Some i \<Longrightarrow>
     k < length (assemble is) \<and> decode_one (drop k (assemble is)) = Some i"
proof (induction "is" k rule: instr_at.induct)
  case (1 k)
  then show ?case by simp
next
  case (2 j "is" k)
  then show ?case
    by (auto simp: assemble_def decode_one_encode length_encode ilen_pos split: if_splits)
qed

lemma instr_at_append: "instr_at (xs @ ys) (length (assemble xs) + k) = instr_at ys k"
proof (induction xs)
  case Nil
  then show ?case by (simp add: assemble_def)
next
  case (Cons x xs)
  then show ?case using ilen_pos [of x] by (simp add: assemble_def length_encode add.assoc)
qed

lemma step_at:
  assumes "rip s = base + of_nat k" and "instr_at is k = Some i" and "length (assemble is) < 2 ^ 64"
  shows "step ext base (assemble is) s = exec ext i (s\<lparr>rip := base + of_nat (k + ilen i)\<rparr>)"
proof -
  have *: "k < length (assemble is)" "decode_one (drop k (assemble is)) = Some i"
    using decode_at assms(2) by auto
  then have "unat (rip s - base) = k"
    using assms(1,3) by (simp add: unat_of_nat)
  then show ?thesis
    using * assms(1) by (simp add: step_def add.assoc)
qed

lemma run_Next:
  assumes "rip s = base + of_nat k" "instr_at is k = Some i" "length (assemble is) < 2 ^ 64"
    and "exec ext i (s\<lparr>rip := base + of_nat (k + ilen i)\<rparr>) = Next s'"
  shows "run (Suc n) ext base (assemble is) s = run n ext base (assemble is) s'"
  using step_at [OF assms(1-3), of ext] assms(4) by simp

section \<open>The calling convention\<close>

text \<open>
  What the emitted code needs from the functions it calls: they return to the pushed address
  with the stack pointer popped, keep the thread pointer, and leave the frame of their caller
  (16 bytes above the return address are enough here) as it was.
\<close>

locale sysv_callee =
  fixes ext :: "'e callee"
  assumes ret_rsp: "rsp (ext f s) = rsp s + 8"
    and ret_rip: "rip (ext f s) = rd64 (mem s) (rsp s)"
    and ret_fsbase: "fsbase (ext f s) = fsbase s"
    and ret_frame: "k < 16 \<Longrightarrow> mem (ext f s) (rsp s + 8 + k) = mem s (rsp s + 8 + k)"

text \<open>The state \<open>c\<close> in which a function called from \<open>s\<close> is entered.\<close>

definition entered :: "addr \<Rightarrow> 'e x86_scheme \<Rightarrow> 'e x86_scheme \<Rightarrow> bool" where
  "entered f s c \<longleftrightarrow> rip c = f \<and> rsp c = rsp s - 16 \<and> rsp c AND 15 = 8 \<and> fsbase c = fsbase s \<and>
     (\<forall>x. 16 \<le> x - (rsp s - 16) \<longrightarrow> mem c x = mem s x)"

definition returned_to_caller :: "'e x86_scheme \<Rightarrow> 'e x86_scheme \<Rightarrow> bool" where
  "returned_to_caller s s' \<longleftrightarrow>
     rip s' = rd64 (mem s) (rsp s) \<and> rsp s' = rsp s + 8 \<and> fsbase s' = fsbase s"

definition call_block :: "u32 \<Rightarrow> u32 \<Rightarrow> u32 option \<Rightarrow> addr \<Rightarrow> instr list" where
  "call_block a b c f =
     [SubRsp 8, MovEdi a, MovEsi b] @ (case c of None \<Rightarrow> [] | Some v \<Rightarrow> [MovEdx v]) @
     [MovabsRax f, CallRax, AddRsp 8, Ret]"

definition deopt_block :: "u32 \<Rightarrow> addr \<Rightarrow> u32 \<Rightarrow> addr \<Rightarrow> addr \<Rightarrow> instr list" where
  "deopt_block site buf reason handler fallback =
     [PushRdi, MovEdi site, MovabsRsi buf, MovEdx reason, MovabsRax handler, CallRax, PopRdi,
      MovabsRax fallback, JmpRax]"

lemma rsp_align:
  fixes x :: u64
  assumes "x AND 15 = 8"
  shows "(x - 8) AND 15 = 0" and "(x - 16) AND 15 = 8"
proof -
  have m: "uint (y AND 15) = uint y mod 16" for y :: u64
  proof -
    have 15: "(15 :: u64) = mask 4" by (simp add: mask_eq_exp_minus_1)
    have "unat (y AND 15) = unat y mod 16"
      unfolding 15 unat_and_mask by simp
    then have "int (unat (y AND 15)) = int (unat y) mod 16"
      by (simp only: zmod_int) simp
    then show ?thesis by (simp only: uint_nat)
  qed
  have d: "uint (y - z) mod 16 = (uint y - uint z) mod 16" for y z :: u64
    by (simp add: uint_word_ariths mod_mod_cancel)
  have x: "uint x mod 16 = 8" using assms m [of x] by simp
  have "(uint x - 8) mod 16 = 0" "(uint x - 16) mod 16 = 8"
    using x by presburger+
  then have "uint ((x - 8) AND 15) = 0" "uint ((x - 16) AND 15) = 8"
    by (simp_all add: m d)
  then show "(x - 8) AND 15 = 0" and "(x - 16) AND 15 = 8"
    by (simp_all add: word_uint_eq_iff)
qed

context sysv_callee
begin

lemma rd64_frame:
  assumes "d = rsp s + 8 \<or> d = rsp s + 16"
  shows "rd64 (mem (ext f s)) d = rd64 (mem s) d"
proof (rule rd64_cong)
  fix k :: u64
  assume k: "k < 8"
  then have "8 + k < 16" "k < 16" by (simp_all add: word_less_nat_alt unat_word_ariths)
  then show "mem (ext f s) (d + k) = mem s (d + k)"
    using assms ret_frame [of k f s] ret_frame [of "8 + k" f s]
    by (auto simp: ac_simps)
qed

end

text \<open>
  Straight-line execution of the instructions at offset \<open>k\<close>: every instruction but the last has
  to fall through.
\<close>

fun block :: "'e callee \<Rightarrow> addr \<Rightarrow> nat \<Rightarrow> instr list \<Rightarrow> 'e x86_scheme \<Rightarrow> 'e x86_scheme outcome" where
  "block ext base k [] s = Next s"
| "block ext base k (i # js) s =
     (case exec ext i (s\<lparr>rip := base + of_nat (k + ilen i)\<rparr>) of
        Next s' \<Rightarrow> if js = [] \<or> rip s' = base + of_nat (k + ilen i)
                    then block ext base (k + ilen i) js s' else Stuck
      | r \<Rightarrow> r)"

lemma run_block:
  assumes "code_at is k js" and "rip s = base + of_nat k" and "length (assemble is) < 2 ^ 64"
    and "block ext base k js s \<noteq> Stuck"
  shows "run (length js + n) ext base (assemble is) s =
    (case block ext base k js s of Next s' \<Rightarrow> run n ext base (assemble is) s' | r \<Rightarrow> Some r)"
  using assms
proof (induction js arbitrary: k s)
  case Nil
  then show ?case by simp
next
  case (Cons i js)
  let ?e = "exec ext i (s\<lparr>rip := base + of_nat (k + ilen i)\<rparr>)"
  have st: "step ext base (assemble is) s = ?e"
    using Cons.prems by (intro step_at) auto
  show ?case
  proof (cases "?e")
    case (Next s')
    show ?thesis
    proof (cases "js = []")
      case True
      then show ?thesis using st Next by simp
    next
      case False
      with Cons.prems(4) Next have r: "rip s' = base + of_nat (k + ilen i)" by (auto split: if_splits)
      then show ?thesis
        using Cons.IH [of "k + ilen i" s'] Cons.prems st Next by simp
    qed
  qed (use st in simp_all)
qed

text \<open>A call made from \<open>s\<close> that returns to the caller of \<open>s\<close> with the callee's result.\<close>

definition call_returns ::
    "'e callee \<Rightarrow> addr \<Rightarrow> ('e x86_scheme \<Rightarrow> bool) \<Rightarrow> 'e x86_scheme \<Rightarrow> 'e x86_scheme \<Rightarrow> bool" where
  "call_returns ext f args s s' \<longleftrightarrow>
     (\<exists>e. entered f s e \<and> args e \<and> rax s' = rax (ext f e) \<and> mem s' = mem (ext f e)) \<and>
     returned_to_caller s s'"

text \<open>
  A call of \<open>handler\<close> from \<open>s\<close>, after which the original argument and the caller's frame are
  back in place for the function jumped to.
\<close>

definition call_resumes ::
    "'e callee \<Rightarrow> addr \<Rightarrow> ('e x86_scheme \<Rightarrow> bool) \<Rightarrow> 'e x86_scheme \<Rightarrow> 'e x86_scheme \<Rightarrow> bool" where
  "call_resumes ext handler args s t \<longleftrightarrow>
     (\<exists>e. entered handler s e \<and> args e \<and> mem t = mem (ext handler e)) \<and>
     rdi t = rdi s \<and> rsp t = rsp s \<and> fsbase t = fsbase s \<and>
     rd64 (mem t) (rsp t) = rd64 (mem s) (rsp s)"

lemma wr64_frame:
  fixes x r :: addr
  assumes "16 \<le> x - (r - 16)"
  shows "wr64 m (r - 16) v x = m x" and "wr64 m (r - 8) v x = m x"
proof -
  define d where "d = x - (r - 16)"
  have "16 \<le> d" using assms by (simp add: d_def)
  then have "8 \<le> d" and "8 \<le> d - 8" by (simp_all add: word_le_nat_alt unat_sub)
  moreover have "d - 8 = x - (r - 8)" by (simp add: d_def)
  ultimately show "wr64 m (r - 16) v x = m x" and "wr64 m (r - 8) v x = m x"
    unfolding d_def by (auto intro: wr64_other simp only:)
qed

context sysv_callee
begin

lemma rd64_caller:
  "rsp e = r - 16 \<Longrightarrow> rd64 (mem (ext f e)) r = rd64 (mem e) r"
  "rsp e = r - 16 \<Longrightarrow> rd64 (mem (ext f e)) (r - 8) = rd64 (mem e) (r - 8)"
  by (rule rd64_frame; simp)+

lemmas callee_simps = ret_rip ret_rsp ret_fsbase rd64_caller rd64_wr64_same rd64_wr64_disjoint
  push64_def sx8_def

lemma block_call_block:
  assumes "rsp s AND 15 = 8"
  shows "\<exists>s'. block ext base k (call_block a b c f) s = Returned s' \<and>
    call_returns ext f (\<lambda>e. rdi e = ucast a \<and> rsi e = ucast b \<and>
      rdx e = (case c of None \<Rightarrow> rdx s | Some v \<Rightarrow> ucast v)) s s'"
proof -
  let ?n = "case c of None \<Rightarrow> 26 | Some v \<Rightarrow> 31"
  let ?e = "s\<lparr>zf := rsp s = 8, cf := rsp s < 8, rdi := ucast a, rsi := ucast b,
    rdx := (case c of None \<Rightarrow> rdx s | Some v \<Rightarrow> ucast v), rax := f, rsp := rsp s - 16,
    mem := wr64 (mem s) (rsp s - 16) (base + (?n + word_of_nat k)), rip := f\<rparr>"
  have "entered f s ?e"
    using rsp_align [OF assms] by (simp add: entered_def wr64_frame)
  moreover obtain s' where "block ext base k (call_block a b c f) s = Returned s'"
      "rax s' = rax (ext f ?e)" "mem s' = mem (ext f ?e)" "returned_to_caller s s'"
    using rsp_align [OF assms] assms
    by (cases c) (simp_all add: call_block_def callee_simps returned_to_caller_def)
  ultimately show ?thesis
    unfolding call_returns_def by (intro exI [of _ s'] conjI exI [of _ ?e]) simp_all
qed

lemma block_deopt_block:
  assumes "rsp s AND 15 = 8"
  shows "\<exists>t. block ext base k (deopt_block site buf reason handler fallback) s = TailCall fallback t \<and>
    call_resumes ext handler (\<lambda>e. rdi e = ucast site \<and> rsi e = buf \<and> rdx e = ucast reason) s t"
proof -
  let ?e = "s\<lparr>rdi := ucast site, rsi := buf, rdx := ucast reason, rax := handler,
    rsp := rsp s - 16, mem := wr64 (wr64 (mem s) (rsp s - 8) (rdi s)) (rsp s - 16)
      (base + (33 + word_of_nat k)), rip := handler\<rparr>"
  have "entered handler s ?e"
    using rsp_align [OF assms] by (simp add: entered_def wr64_frame)
  then show ?thesis
    using rsp_align [OF assms] assms unfolding call_resumes_def
    by (auto simp: deopt_block_def callee_simps intro!: exI [of _ ?e])
qed

end

lemma run_mono: "run n ext base code s = Some r \<Longrightarrow> run (n + m) ext base code s = Some r"
  by (induction n ext base code s rule: run.induct) (auto split: outcome.splits)

lemma run_mono_le: "run n ext base code s = Some r \<Longrightarrow> n \<le> m \<Longrightarrow> run m ext base code s = Some r"
  using run_mono [of n ext base code s r "m - n"] by simp

text \<open>
  A C++ function as a callee: \<open>h f\<close> maps the three argument registers and the memory to the
  returned value and the memory it leaves, and the compiled code around it keeps the frame of
  the caller.
\<close>

definition host_call ::
    "(addr \<Rightarrow> u64 \<Rightarrow> u64 \<Rightarrow> u64 \<Rightarrow> memory \<Rightarrow> u64 \<times> memory) \<Rightarrow> 'e callee" where
  "host_call h f s =
     (let (v, m) = h f (rdi s) (rsi s) (rdx s) (mem s)
      in s\<lparr>rax := v, mem := (\<lambda>x. if x - (rsp s + 8) < 16 then mem s x else m x),
            rip := rd64 (mem s) (rsp s), rsp := rsp s + 8\<rparr>)"

interpretation host: sysv_callee "host_call h"
  by unfold_locales (simp_all add: host_call_def split_beta Let_def)

end
