(* ===== verification/Common.thy ===== *)
theory Common
  imports Prelude
begin

text \<open>
  \<open>src/src/common.h\<close>: the call-site identifier and its hash, the strategies the code
  generator knows, the reasons for giving a routine up, and the event that the trampoline
  records.
\<close>

type_synonym CallSiteID = u32

text \<open>\<open>uintptr_t\<close> arithmetic wraps at 64 bits; the cast to \<open>CallSiteID\<close> keeps the low 32.\<close>

definition hash_return_addr :: "addr \<Rightarrow> CallSiteID" where
  "hash_return_addr ra =
     (let v = ra;
          v = v XOR drop_bit 16 v;
          v = v * 0x45d9f3b;
          v = v XOR drop_bit 16 v
      in ucast v)"

datatype Strategy =
    Generic
  | BumpAlloc
  | ThreadLocalFreeList
  | EpochArena
  | PairedStack
  | ProducerConsumer
  | MultiSizeFreeList

text \<open>Why a routine gave up (\<open>analysis.h\<close>); the enumerators are numbered from 0.\<close>

datatype DeoptReason =
    ReasonNone
  | SizeDrift
  | RegionExhaust
  | ThreadShift
  | LifoViolation
  | Other

primrec reason_code :: "DeoptReason \<Rightarrow> u32" where
  "reason_code ReasonNone = 0"
| "reason_code SizeDrift = 1"
| "reason_code RegionExhaust = 2"
| "reason_code ThreadShift = 3"
| "reason_code LifoViolation = 4"
| "reason_code Other = 5"

record AllocEvent =
  ev_call_site :: CallSiteID
  ev_size :: u32
  ev_timestamp_ns :: u64
  ev_thread_id :: u32
  ev_ptr :: addr

end
