(* ===== verification/Emitter.thy ===== *)
theory Emitter
  imports Common X86
begin

text \<open>
  \<open>src/src/codegen/emitter.cpp\<close>: the byte writers and the five routine emitters, each as the
  sequence of writes and patches of the source, and what the emitted bytes do when they are
  executed by the machine of \<open>X86\<close>.  The buffer is the list of bytes written so far, so the
  source's \<open>p - buf\<close> is its length; \<open>None\<close> is the return value 0, and on success the return
  value is the length of the list.
\<close>

section \<open>Writers\<close>

definition w8 :: "u8 list \<Rightarrow> u8 \<Rightarrow> u8 list" where
  "w8 p v = p @ [v]"

definition w32 :: "u8 list \<Rightarrow> u32 \<Rightarrow> u8 list" where
  "w32 p v = p @ le32 v"

definition w64 :: "u8 list \<Rightarrow> u64 \<Rightarrow> u8 list" where
  "w64 p v = p @ le64 v"

definition w_reason :: "u8 list \<Rightarrow> DeoptReason \<Rightarrow> u8 list" where
  "w_reason p r = w32 (w8 p 0xBA) (reason_code r)"

text \<open>Consecutive \<open>w8\<close> calls, and the patch of a rel8 byte to the current position.\<close>

definition w8s :: "u8 list \<Rightarrow> u8 list \<Rightarrow> u8 list" where
  "w8s p vs = foldl w8 p vs"

definition patch :: "u8 list \<Rightarrow> nat \<Rightarrow> u8 list" where
  "patch p off = p[off := of_nat (length p - (off + 1))]"

section \<open>Emitters\<close>

definition emit_bump_alloc ::
    "addr \<Rightarrow> nat \<Rightarrow> u32 \<Rightarrow> u32 \<Rightarrow> u32 \<Rightarrow> u32 \<Rightarrow> u32 \<Rightarrow> addr \<Rightarrow> addr \<Rightarrow> addr \<Rightarrow> u8 list option" where
  "emit_bump_alloc buf buf_size tls_ptr_offset tls_end_offset slot_index dominant_size
     call_site_id deopt_handler slow_init_fn real_malloc =
     (if buf = 0 \<or> buf_size < 200 then None
      else
        let p = [];
            p = w8 p 0x48; p = w8 p 0x81; p = w8 p 0xFF; p = w32 p dominant_size;
            p = w8 p 0x75; jne_deopt1_offset = length p; p = w8 p 0x00;
            p = w8 p 0x64; p = w8 p 0x48; p = w8 p 0x8B; p = w8 p 0x04; p = w8 p 0x25;
            p = w32 p tls_ptr_offset;
            p = (if dominant_size < 128
                 then w8 (w8s p [0x48, 0x8D, 0x48]) (ucast dominant_size)
                 else w32 (w8s p [0x48, 0x8D, 0x88]) dominant_size);
            p = w8 p 0x64; p = w8 p 0x48; p = w8 p 0x3B; p = w8 p 0x0C; p = w8 p 0x25;
            p = w32 p tls_end_offset;
            p = w8 p 0x73; jae_slow_offset = length p; p = w8 p 0x00;
            p = w8 p 0x64; p = w8 p 0x48; p = w8 p 0x89; p = w8 p 0x0C; p = w8 p 0x25;
            p = w32 p tls_ptr_offset;
            p = w8 p 0xC3;
            p = patch p jae_slow_offset;
            p = w8 p 0x48; p = w8 p 0x83; p = w8 p 0xF8; p = w8 p 0x00;
            p = w8 p 0x75; jne_deopt2_offset = length p; p = w8 p 0x00;
            p = w8 p 0x48; p = w8 p 0x83; p = w8 p 0xEC; p = w8 p 0x08;
            p = w8 p 0xBF; p = w32 p slot_index;
            p = w8 p 0xBE; p = w32 p dominant_size;
            p = w8 p 0x48; p = w8 p 0xB8; p = w64 p slow_init_fn;
            p = w8 p 0xFF; p = w8 p 0xD0;
            p = w8 p 0x48; p = w8 p 0x83; p = w8 p 0xC4; p = w8 p 0x08;
            p = w8 p 0xC3;
            p = patch p jne_deopt1_offset;
            p = patch p jne_deopt2_offset;
            p = w8 p 0x57;
            p = w8 p 0xBF; p = w32 p call_site_id;
            p = w8 p 0x48; p = w8 p 0xBE; p = w64 p buf;
            p = w_reason p RegionExhaust;
            p = w8 p 0x48; p = w8 p 0xB8; p = w64 p deopt_handler;
            p = w8 p 0xFF; p = w8 p 0xD0;
            p = w8 p 0x5F;
            p = w8 p 0x48; p = w8 p 0xB8; p = w64 p real_malloc;
            p = w8 p 0xFF; p = w8 p 0xE0
        in Some p)"

definition emit_freelist_alloc ::
    "addr \<Rightarrow> nat \<Rightarrow> u32 \<Rightarrow> u32 \<Rightarrow> u32 \<Rightarrow> u32 \<Rightarrow> addr \<Rightarrow> addr \<Rightarrow> addr \<Rightarrow> u8 list option" where
  "emit_freelist_alloc buf buf_size tls_head_offset slot_index dominant_size call_site_id
     deopt_handler refill_fn real_malloc =
     (if buf = 0 \<or> buf_size < 200 then None
      else
        let p = [];
            p = w8s p [0x48, 0x81, 0xFF]; p = w32 p dominant_size;
            p = w8 p 0x75; jne_deopt_off = length p; p = w8 p 0x00;
            p = w8s p [0x64, 0x48, 0x8B]; p = w8s p [0x04, 0x25]; p = w32 p tls_head_offset;
            p = w8s p [0x48, 0x85, 0xC0];
            p = w8 p 0x74; jz_refill_off = length p; p = w8 p 0x00;
            p = w8s p [0x48, 0x8B, 0x08];
            p = w8s p [0x64, 0x48, 0x89]; p = w8s p [0x0C, 0x25]; p = w32 p tls_head_offset;
            p = w8 p 0xC3;
            p = patch p jz_refill_off;
            p = w8s p [0x48, 0x83, 0xEC, 0x08];
            p = w8 p 0xBF; p = w32 p slot_index;
            p = w8 p 0xBE; p = w32 p dominant_size;
            p = w8s p [0x48, 0xB8]; p = w64 p refill_fn;
            p = w8s p [0xFF, 0xD0];
            p = w8s p [0x48, 0x83, 0xC4, 0x08];
            p = w8 p 0xC3;
            p = patch p jne_deopt_off;
            p = w8 p 0x57;
            p = w8 p 0xBF; p = w32 p call_site_id;
            p = w8s p [0x48, 0xBE]; p = w64 p buf;
            p = w_reason p SizeDrift;
            p = w8s p [0x48, 0xB8]; p = w64 p deopt_handler;
            p = w8s p [0xFF, 0xD0];
            p = w8 p 0x5F;
            p = w8s p [0x48, 0xB8]; p = w64 p real_malloc;
            p = w8s p [0xFF, 0xE0]
        in Some p)"

definition emit_epoch_arena ::
    "addr \<Rightarrow> nat \<Rightarrow> u32 \<Rightarrow> u32 \<Rightarrow> u32 \<Rightarrow> u32 \<Rightarrow> u32 \<Rightarrow> addr \<Rightarrow> addr \<Rightarrow> addr \<Rightarrow> u8 list option" where
  "emit_epoch_arena buf buf_size tls_ptr_offset tls_end_offset slot_index dominant_size
     call_site_id deopt_handler reset_alloc_fn real_malloc =
     (if buf = 0 \<or> buf_size < 200 then None
      else
        let p = [];
            p = w8s p [0x48, 0x81, 0xFF]; p = w32 p dominant_size;
            p = w8 p 0x75; jne_deopt_off = length p; p = w8 p 0x00;
            p = w8s p [0x64, 0x48, 0x8B]; p = w8s p [0x04, 0x25]; p = w32 p tls_ptr_offset;
            p = (if dominant_size < 128
                 then w8 (w8s p [0x48, 0x8D, 0x48]) (ucast dominant_size)
                 else w32 (w8s p [0x48, 0x8D, 0x88]) dominant_size);
            p = w8s p [0x64, 0x48, 0x3B]; p = w8s p [0x0C, 0x25]; p = w32 p tls_end_offset;
            p = w8 p 0x73; jae_reset_off = length p; p = w8 p 0x00;
            p = w8s p [0x64, 0x48, 0x89]; p = w8s p [0x0C, 0x25]; p = w32 p tls_ptr_offset;
            p = w8 p 0xC3;
            p = patch p jae_reset_off;
            p = w8s p [0x48, 0x83, 0xEC, 0x08];
            p = w8 p 0xBF; p = w32 p slot_index;
            p = w8 p 0xBE; p = w32 p dominant_size;
            p = w8s p [0x48, 0xB8]; p = w64 p reset_alloc_fn;
            p = w8s p [0xFF, 0xD0];
            p = w8s p [0x48, 0x83, 0xC4, 0x08];
            p = w8 p 0xC3;
            p = patch p jne_deopt_off;
            p = w8 p 0x57;
            p = w8 p 0xBF; p = w32 p call_site_id;
            p = w8s p [0x48, 0xBE]; p = w64 p buf;
            p = w_reason p SizeDrift;
            p = w8s p [0x48, 0xB8]; p = w64 p deopt_handler;
            p = w8s p [0xFF, 0xD0];
            p = w8 p 0x5F;
            p = w8s p [0x48, 0xB8]; p = w64 p real_malloc;
            p = w8s p [0xFF, 0xE0]
        in Some p)"

text \<open>
  One iteration of the loop over the size classes, and the loop.  The rel8 check makes the
  whole emitter return 0.
\<close>

definition emit_class :: "u32 \<Rightarrow> u32 \<Rightarrow> addr \<Rightarrow> nat \<Rightarrow> u32 \<Rightarrow> u8 list \<Rightarrow> u8 list option" where
  "emit_class tls_heads_base_offset slot_index refill_fn i class_size p =
     (let head_off = tls_heads_base_offset + of_nat (i * 8);
          p = w8s p [0x48, 0x81, 0xFF]; p = w32 p class_size;
          p = w8 p 0x75; jne_skip = length p; p = w8 p 0x00;
          p = w8s p [0x64, 0x48, 0x8B]; p = w8s p [0x04, 0x25]; p = w32 p head_off;
          p = w8s p [0x48, 0x85, 0xC0];
          p = w8 p 0x74; jz_refill = length p; p = w8 p 0x00;
          p = w8s p [0x48, 0x8B, 0x08];
          p = w8s p [0x64, 0x48, 0x89]; p = w8s p [0x0C, 0x25]; p = w32 p head_off;
          p = w8 p 0xC3;
          p = patch p jz_refill;
          p = w8s p [0x48, 0x83, 0xEC, 0x08];
          p = w8 p 0xBF; p = w32 p slot_index;
          p = w8 p 0xBE; p = w32 p class_size;
          p = w8 p 0xBA; p = w32 p (of_nat i);
          p = w8s p [0x48, 0xB8]; p = w64 p refill_fn;
          p = w8s p [0xFF, 0xD0];
          p = w8s p [0x48, 0x83, 0xC4, 0x08];
          p = w8 p 0xC3;
          disp = length p - (jne_skip + 1)
      in if 127 < disp then None else Some (patch p jne_skip))"

fun emit_classes :: "u32 \<Rightarrow> u32 \<Rightarrow> addr \<Rightarrow> nat \<Rightarrow> u32 list \<Rightarrow> u8 list \<Rightarrow> u8 list option" where
  "emit_classes base slot refill i [] p = Some p"
| "emit_classes base slot refill i (sz # szs) p =
     (case emit_class base slot refill i sz p of
        None \<Rightarrow> None
      | Some p' \<Rightarrow> emit_classes base slot refill (Suc i) szs p')"

definition emit_multi_freelist_alloc ::
    "addr \<Rightarrow> nat \<Rightarrow> u32 \<Rightarrow> u32 \<Rightarrow> u32 list \<Rightarrow> u32 \<Rightarrow> addr \<Rightarrow> addr \<Rightarrow> addr \<Rightarrow> u8 list option" where
  "emit_multi_freelist_alloc buf buf_size tls_heads_base_offset slot_index class_sizes
     call_site_id deopt_handler refill_fn real_malloc =
     (if buf = 0 \<or> buf_size < 512 then None
      else if length class_sizes = 0 \<or> length class_sizes > 4 then None
      else
        case emit_classes tls_heads_base_offset slot_index refill_fn 0 class_sizes [] of
          None \<Rightarrow> None
        | Some p \<Rightarrow>
            let p = w8 p 0x57;
                p = w8 p 0xBF; p = w32 p call_site_id;
                p = w8s p [0x48, 0xBE]; p = w64 p buf;
                p = w_reason p SizeDrift;
                p = w8s p [0x48, 0xB8]; p = w64 p deopt_handler;
                p = w8s p [0xFF, 0xD0];
                p = w8 p 0x5F;
                p = w8s p [0x48, 0xB8]; p = w64 p real_malloc;
                p = w8s p [0xFF, 0xE0]
            in Some p)"

definition emit_pc_alloc ::
    "addr \<Rightarrow> nat \<Rightarrow> u32 \<Rightarrow> u32 \<Rightarrow> u32 \<Rightarrow> u32 \<Rightarrow> u32 \<Rightarrow> addr \<Rightarrow> addr \<Rightarrow> addr \<Rightarrow> u8 list option" where
  "emit_pc_alloc buf buf_size tls_ptr_offset tls_end_offset slot_index dominant_size
     call_site_id deopt_handler refill_fn real_malloc =
     (if buf = 0 \<or> buf_size < 200 then None
      else
        let p = [];
            p = w8s p [0x48, 0x81, 0xFF]; p = w32 p dominant_size;
            p = w8 p 0x75; jne_deopt = length p; p = w8 p 0x00;
            p = w8s p [0x64, 0x48, 0x8B]; p = w8s p [0x04, 0x25]; p = w32 p tls_ptr_offset;
            p = (if dominant_size < 128
                 then w8 (w8s p [0x48, 0x8D, 0x48]) (ucast dominant_size)
                 else w32 (w8s p [0x48, 0x8D, 0x88]) dominant_size);
            p = w8s p [0x64, 0x48, 0x3B]; p = w8s p [0x0C, 0x25]; p = w32 p tls_end_offset;
            p = w8 p 0x73; jae_refill = length p; p = w8 p 0x00;
            p = w8s p [0x64, 0x48, 0x89]; p = w8s p [0x0C, 0x25]; p = w32 p tls_ptr_offset;
            p = w8 p 0xC3;
            p = patch p jae_refill;
            p = w8s p [0x48, 0x83, 0xEC, 0x08];
            p = w8 p 0xBF; p = w32 p slot_index;
            p = w8 p 0xBE; p = w32 p dominant_size;
            p = w8s p [0x48, 0xB8]; p = w64 p refill_fn;
            p = w8s p [0xFF, 0xD0];
            p = w8s p [0x48, 0x83, 0xC4, 0x08];
            p = w8 p 0xC3;
            p = patch p jne_deopt;
            p = w8 p 0x57;
            p = w8 p 0xBF; p = w32 p call_site_id;
            p = w8s p [0x48, 0xBE]; p = w64 p buf;
            p = w_reason p SizeDrift;
            p = w8s p [0x48, 0xB8]; p = w64 p deopt_handler;
            p = w8s p [0xFF, 0xD0];
            p = w8 p 0x5F;
            p = w8s p [0x48, 0xB8]; p = w64 p real_malloc;
            p = w8s p [0xFF, 0xE0]
        in Some p)"

section \<open>The routines as assembly\<close>

definition lea_rcx :: "u32 \<Rightarrow> instr" where
  "lea_rcx sz = (if sz < 128 then LeaRcx8 (ucast sz) else LeaRcx32 sz)"

definition bump_code :: "addr \<Rightarrow> u32 \<Rightarrow> u32 \<Rightarrow> u32 \<Rightarrow> u32 \<Rightarrow> u32 \<Rightarrow> addr \<Rightarrow> addr \<Rightarrow> addr \<Rightarrow> instr list" where
  "bump_code buf ptr_off end_off slot sz site handler init fallback =
     [CmpRdi sz, Jne (if sz < 128 then 71 else 74), MovRaxFs ptr_off, lea_rcx sz,
      CmpRcxFs end_off, Jae 10, MovFsRcx ptr_off, Ret, CmpRax8 0, Jne 31] @
     call_block slot sz None init @
     deopt_block site buf (reason_code RegionExhaust) handler fallback"

definition refill_code ::
    "addr \<Rightarrow> u32 \<Rightarrow> u32 \<Rightarrow> u32 \<Rightarrow> u32 \<Rightarrow> u32 \<Rightarrow> addr \<Rightarrow> addr \<Rightarrow> addr \<Rightarrow> instr list" where
  "refill_code buf ptr_off end_off slot sz site handler refill fallback =
     [CmpRdi sz, Jne (if sz < 128 then 65 else 68), MovRaxFs ptr_off, lea_rcx sz,
      CmpRcxFs end_off, Jae 10, MovFsRcx ptr_off, Ret] @
     call_block slot sz None refill @
     deopt_block site buf (reason_code SizeDrift) handler fallback"

definition freelist_code :: "addr \<Rightarrow> u32 \<Rightarrow> u32 \<Rightarrow> u32 \<Rightarrow> u32 \<Rightarrow> addr \<Rightarrow> addr \<Rightarrow> addr \<Rightarrow> instr list" where
  "freelist_code buf head_off slot sz site handler refill fallback =
     [CmpRdi sz, Jne 58, MovRaxFs head_off, TestRax, Jz 13, MovRcxRax, MovFsRcx head_off, Ret] @
     call_block slot sz None refill @
     deopt_block site buf (reason_code SizeDrift) handler fallback"

definition class_code :: "u32 \<Rightarrow> u32 \<Rightarrow> addr \<Rightarrow> nat \<Rightarrow> u32 \<Rightarrow> instr list" where
  "class_code heads slot refill i sz =
     [CmpRdi sz, Jne 63, MovRaxFs (heads + of_nat (i * 8)), TestRax, Jz 13, MovRcxRax,
      MovFsRcx (heads + of_nat (i * 8)), Ret] @
     call_block slot sz (Some (of_nat i)) refill"

fun classes_code :: "u32 \<Rightarrow> u32 \<Rightarrow> addr \<Rightarrow> nat \<Rightarrow> u32 list \<Rightarrow> instr list" where
  "classes_code heads slot refill i [] = []"
| "classes_code heads slot refill i (sz # szs) =
     class_code heads slot refill i sz @ classes_code heads slot refill (Suc i) szs"

definition multi_code :: "addr \<Rightarrow> u32 \<Rightarrow> u32 \<Rightarrow> u32 list \<Rightarrow> u32 \<Rightarrow> addr \<Rightarrow> addr \<Rightarrow> addr \<Rightarrow> instr list" where
  "multi_code buf heads slot szs site handler refill fallback =
     classes_code heads slot refill 0 szs @
     deopt_block site buf (reason_code SizeDrift) handler fallback"

lemmas writer_defs = w8_def w32_def w64_def w_reason_def w8s_def patch_def

lemmas block_defs = call_block_def deopt_block_def lea_rcx_def assemble_def le32_def le64_def

lemma emit_bump_alloc_assembles:
  "emit_bump_alloc buf n ptr_off end_off slot sz site handler init fallback =
     (if buf = 0 \<or> n < 200 then None
      else Some (assemble (bump_code buf ptr_off end_off slot sz site handler init fallback)))"
  by (cases "sz < 128")
    (simp_all add: emit_bump_alloc_def bump_code_def writer_defs block_defs Let_def)

lemma emit_freelist_alloc_assembles:
  "emit_freelist_alloc buf n head_off slot sz site handler refill fallback =
     (if buf = 0 \<or> n < 200 then None
      else Some (assemble (freelist_code buf head_off slot sz site handler refill fallback)))"
  by (simp add: emit_freelist_alloc_def freelist_code_def writer_defs block_defs Let_def)

lemma emit_epoch_arena_assembles:
  "emit_epoch_arena buf n ptr_off end_off slot sz site handler reset fallback =
     (if buf = 0 \<or> n < 200 then None
      else Some (assemble (refill_code buf ptr_off end_off slot sz site handler reset fallback)))"
  by (cases "sz < 128")
    (simp_all add: emit_epoch_arena_def refill_code_def writer_defs block_defs Let_def)

lemma emit_pc_alloc_assembles:
  "emit_pc_alloc buf n ptr_off end_off slot sz site handler refill fallback =
     (if buf = 0 \<or> n < 200 then None
      else Some (assemble (refill_code buf ptr_off end_off slot sz site handler refill fallback)))"
  by (cases "sz < 128")
    (simp_all add: emit_pc_alloc_def refill_code_def writer_defs block_defs Let_def)

lemma assemble_append: "assemble (xs @ ys) = assemble xs @ assemble ys"
  by (simp add: assemble_def)

lemma assemble_Nil [simp]: "assemble [] = []"
  by (simp add: assemble_def)

lemma length_class_code: "length (assemble (class_code heads slot refill i sz)) = 72"
  by (simp add: class_code_def block_defs)

lemma emit_class_assembles:
  "emit_class heads slot refill i sz p = Some (p @ assemble (class_code heads slot refill i sz))"
  by (simp add: emit_class_def class_code_def writer_defs block_defs Let_def list_update_append
      nth_append)

lemma emit_classes_assembles:
  "emit_classes heads slot refill i szs p =
     Some (p @ assemble (classes_code heads slot refill i szs))"
  by (induction szs arbitrary: i p) (simp_all add: emit_class_assembles assemble_append)

lemma emit_multi_freelist_alloc_assembles:
  "emit_multi_freelist_alloc buf n heads slot szs site handler refill fallback =
     (if buf = 0 \<or> n < 512 \<or> szs = [] \<or> 4 < length szs then None
      else Some (assemble (multi_code buf heads slot szs site handler refill fallback)))"
  by (simp add: emit_multi_freelist_alloc_def emit_classes_assembles multi_code_def assemble_append
      writer_defs Let_def)
    (simp add: block_defs)

lemma length_classes_code:
  "length (assemble (classes_code heads slot refill i szs)) = 72 * length szs"
  by (induction szs arbitrary: i) (simp_all add: assemble_append length_class_code)

lemma length_routines:
  "length (assemble (bump_code buf ptr_off end_off slot sz site handler init fallback)) \<le> 129"
  "length (assemble (refill_code buf ptr_off end_off slot sz site handler refill fallback)) \<le> 123"
  "length (assemble (freelist_code buf head_off slot sz site handler refill fallback)) = 113"
  "length (assemble (multi_code buf heads slot szs site handler refill fallback)) =
     72 * length szs + 46"
  by (simp_all add: bump_code_def refill_code_def freelist_code_def multi_code_def assemble_append
      length_classes_code) (simp_all add: block_defs)

section \<open>What the routines do\<close>

text \<open>The three ways a routine ends: pop, call out and return, or report and fall back.\<close>

definition pops :: "addr \<Rightarrow> u64 \<Rightarrow> u64 \<Rightarrow> 'e x86_scheme \<Rightarrow> 'e x86_scheme outcome \<Rightarrow> bool" where
  "pops slot_addr result new_slot s r \<longleftrightarrow>
     (\<exists>s'. r = Returned s' \<and> rax s' = result \<and> mem s' = wr64 (mem s) slot_addr new_slot \<and>
       returned_to_caller s s')"

definition refills ::
    "'e callee \<Rightarrow> addr \<Rightarrow> u32 \<Rightarrow> u32 \<Rightarrow> u32 option \<Rightarrow> 'e x86_scheme \<Rightarrow> 'e x86_scheme outcome \<Rightarrow> bool" where
  "refills ext fn slot sz cls s r \<longleftrightarrow>
     (\<exists>s'. r = Returned s' \<and>
       call_returns ext fn (\<lambda>e. rdi e = ucast slot \<and> rsi e = ucast sz \<and>
         (\<forall>v. cls = Some v \<longrightarrow> rdx e = ucast v)) s s')"

definition deopts ::
    "'e callee \<Rightarrow> addr \<Rightarrow> u32 \<Rightarrow> addr \<Rightarrow> DeoptReason \<Rightarrow> addr \<Rightarrow> 'e x86_scheme \<Rightarrow> 'e x86_scheme outcome
      \<Rightarrow> bool" where
  "deopts ext handler site buf reason fallback s r \<longleftrightarrow>
     (\<exists>t. r = TailCall fallback t \<and>
       call_resumes ext handler
         (\<lambda>e. rdi e = ucast site \<and> rsi e = buf \<and> rdx e = ucast (reason_code reason)) s t)"

text \<open>
  A routine is entered by a call: the stack pointer is 8 modulo 16, and the thread-local word
  the routine updates is not the return address.
\<close>

definition entry_ok :: "addr \<Rightarrow> addr \<Rightarrow> 'e x86_scheme \<Rightarrow> bool" where
  "entry_ok buf slot_addr s \<longleftrightarrow>
     rip s = buf \<and> rsp s AND 15 = 8 \<and> 8 \<le> rsp s - slot_addr \<and> 8 \<le> slot_addr - rsp s"

lemma sx32_small: "sz < 0x80000000 \<Longrightarrow> sx32 sz = ucast sz"
  by (simp add: sx32_def)

definition same_frame :: "'e x86_scheme \<Rightarrow> 'e x86_scheme \<Rightarrow> bool" where
  "same_frame s s1 \<longleftrightarrow> rdi s1 = rdi s \<and> rsp s1 = rsp s \<and> fsbase s1 = fsbase s \<and> mem s1 = mem s"

lemma same_frame_transfer:
  assumes "same_frame s s1"
  shows "entered f s1 = entered f s" and "returned_to_caller s1 = returned_to_caller s"
    and "call_returns ext f args s1 = call_returns ext f args s"
    and "call_resumes ext f args s1 = call_resumes ext f args s"
proof -
  show e: "entered f s1 = entered f s"
    using assms by (intro HOL.ext) (simp add: same_frame_def entered_def)
  show r: "returned_to_caller s1 = returned_to_caller s"
    using assms by (intro HOL.ext) (simp add: same_frame_def returned_to_caller_def)
  show "call_returns ext f args s1 = call_returns ext f args s"
    by (intro HOL.ext) (simp add: call_returns_def e r)
  show "call_resumes ext f args s1 = call_resumes ext f args s"
    using assms by (intro HOL.ext) (simp add: call_resumes_def e same_frame_def)
qed

lemma call_returns_mono:
  "call_returns ext f A s s' \<Longrightarrow> (\<And>e. A e \<Longrightarrow> B e) \<Longrightarrow> call_returns ext f B s s'"
  unfolding call_returns_def by blast

context sysv_callee
begin

lemma run_deopt:
  assumes "code_at is k (deopt_block site buf (reason_code reason) handler fallback)"
    and "rip s1 = base + of_nat k" and "length (assemble is) < 2 ^ 64"
    and "same_frame s s1" and "rsp s AND 15 = 8"
  shows "\<exists>r. run (9 + n) ext base (assemble is) s1 = Some r \<and>
    deopts ext handler site buf reason fallback s r"
proof -
  have "rsp s1 AND 15 = 8" using assms(4,5) by (simp add: same_frame_def)
  from block_deopt_block [OF this, of base k site buf "reason_code reason" handler fallback]
  obtain t where
    b: "block ext base k (deopt_block site buf (reason_code reason) handler fallback) s1 =
          TailCall fallback t"
    and c: "call_resumes ext handler
          (\<lambda>e. rdi e = ucast site \<and> rsi e = buf \<and> rdx e = ucast (reason_code reason)) s1 t"
    by blast
  have "length (deopt_block site buf (reason_code reason) handler fallback) = 9"
    by (simp add: deopt_block_def)
  then have "run (9 + n) ext base (assemble is) s1 = Some (TailCall fallback t)"
    using run_block [OF assms(1-3), of ext n] b by simp
  then show ?thesis
    using c same_frame_transfer [OF assms(4)] by (simp add: deopts_def)
qed

lemma run_refill:
  assumes "code_at is k (call_block slot sz c fn)"
    and "rip s1 = base + of_nat k" and "length (assemble is) < 2 ^ 64"
    and "same_frame s s1" and "rsp s AND 15 = 8"
  shows "\<exists>r. run (8 + n) ext base (assemble is) s1 = Some r \<and> refills ext fn slot sz c s r"
proof -
  have "rsp s1 AND 15 = 8" using assms(4,5) by (simp add: same_frame_def)
  from block_call_block [OF this, of base k slot sz c fn] obtain s' where
    b: "block ext base k (call_block slot sz c fn) s1 = Returned s'"
    and r: "call_returns ext fn (\<lambda>e. rdi e = ucast slot \<and> rsi e = ucast sz \<and>
      rdx e = (case c of None \<Rightarrow> rdx s1 | Some v \<Rightarrow> ucast v)) s1 s'"
    by blast
  have "length (call_block slot sz c fn) \<le> 8"
    by (simp add: call_block_def split: option.split)
  then have "run (8 + n) ext base (assemble is) s1 = Some (Returned s')"
    using run_block [OF assms(1-3), of ext "8 + n - length (call_block slot sz c fn)"] b by simp
  then show ?thesis
    using call_returns_mono [OF r] same_frame_transfer [OF assms(4)]
    by (auto simp: refills_def)
qed

end

lemma run_via:
  assumes "code_at is k js" and "rip s = base + of_nat k" and "length (assemble is) < 2 ^ 64"
    and "block ext base k js s = Next s1"
  shows "run (length js + n) ext base (assemble is) s = run n ext base (assemble is) s1"
  using run_block [OF assms(1-3), of ext n] assms(4) by simp

lemma code_at_append:
  "code_at is k (xs @ ys) \<longleftrightarrow> code_at is k xs \<and> code_at is (k + sum_list (map ilen xs)) ys"
  by (induction xs arbitrary: k) (auto simp: add.assoc)

lemma code_at_take: "code_at is k js \<Longrightarrow> code_at is k (take n js)"
  using code_at_append [of "is" k "take n js" "drop n js"] by simp

lemma lea_rcx_exec: 
  assumes "sz < 0x80000000"
  shows "exec ext (lea_rcx sz) s = Next (s\<lparr>rcx := rax s + ucast sz\<rparr>)"
proof -
  have "sx8 (ucast sz) = ucast sz" if "sz < 128"
  proof -
    have u: "unat (ucast sz :: u8) = unat sz"
      using that by (simp add: unsigned_ucast_eq take_bit_nat_eq_self word_less_nat_alt)
    then have "(ucast sz :: u8) < 128" using that by (simp add: word_less_nat_alt)
    moreover have "(ucast (ucast sz :: u8) :: u64) = ucast sz"
      using u by (simp add: word_unat_eq_iff unat_ucast_up)
    ultimately show ?thesis by (simp add: sx8_def)
  qed
  then show ?thesis using assms by (simp add: lea_rcx_def sx32_def)
qed

lemma sx8_of_nat: "d < 128 \<Longrightarrow> sx8 (of_nat d) = of_nat d"
proof -
  assume d: "d < 128"
  then have "unat (of_nat d :: u8) = d" by (simp add: unat_of_nat)
  moreover from this d have "(ucast (of_nat d :: u8) :: u64) = of_nat d"
    by (simp add: word_unat_eq_iff unat_ucast_up unat_of_nat)
  ultimately show ?thesis
    using d by (simp add: sx8_def word_less_nat_alt)
qed

lemmas exec_simps = set_cmp_def jump_if_def sx32_small lea_rcx_exec fs_at_def

text \<open>The two fast paths: bump a pointer, pop a list.  \<open>d\<close> is where a wrong size jumps to.\<close>

definition bump_path :: "u32 \<Rightarrow> nat \<Rightarrow> u32 \<Rightarrow> u32 \<Rightarrow> instr list" where
  "bump_path sz d ptr_off end_off =
     [CmpRdi sz, Jne (of_nat d), MovRaxFs ptr_off, lea_rcx sz, CmpRcxFs end_off, Jae 10, MovFsRcx ptr_off, Ret]"

definition pop_path :: "u32 \<Rightarrow> nat \<Rightarrow> u32 \<Rightarrow> instr list" where
  "pop_path sz d off =
     [CmpRdi sz, Jne (of_nat d), MovRaxFs off, TestRax, Jz 13, MovRcxRax, MovFsRcx off, Ret]"

lemma length_paths [simp]:
  "length (bump_path sz d ptr_off end_off) = 8" "length (pop_path sz d off) = 8"
  by (simp_all add: bump_path_def pop_path_def)

lemma bump_path_guard:
  assumes "code_at is k (bump_path sz d ptr_off end_off)" and "rip s = base + of_nat k"
    and "length (assemble is) < 2 ^ 64" and "sz < 0x80000000" and "d < 128" and "rdi s \<noteq> ucast sz"
  shows "\<exists>s1. same_frame s s1 \<and> rip s1 = base + of_nat (k + 9 + d) \<and>
    run (2 + n) ext base (assemble is) s = run n ext base (assemble is) s1"
proof -
  let ?s1 = "s\<lparr>zf := False, cf := rdi s < ucast sz, rip := base + of_nat (k + 9 + d)\<rparr>"
  have "block ext base k (take 2 (bump_path sz d ptr_off end_off)) s = Next ?s1"
    using assms(4-6) by (simp add: bump_path_def exec_simps sx8_of_nat ac_simps)
  from run_via [OF code_at_take [OF assms(1)] assms(2,3) this, of n]
  show ?thesis by (intro exI [of _ ?s1]) (simp add: same_frame_def)
qed

lemma bump_path_run:
  assumes "code_at is k (bump_path sz d ptr_off end_off)" and "rip s = base + of_nat k"
    and "length (assemble is) < 2 ^ 64" and "sz < 0x80000000" and "rdi s = ucast sz"
    and "p = rd64 (mem s) (fs_at ptr_off s)" and "e = rd64 (mem s) (fs_at end_off s)"
  shows "p + ucast sz < e \<Longrightarrow> 8 \<le> rsp s - fs_at ptr_off s \<Longrightarrow> 8 \<le> fs_at ptr_off s - rsp s \<Longrightarrow>
      \<exists>r. run (8 + n) ext base (assemble is) s = Some r \<and> pops (fs_at ptr_off s) p (p + ucast sz) s r"
    and "\<not> p + ucast sz < e \<Longrightarrow>
      \<exists>s1. same_frame s s1 \<and> rax s1 = p \<and> rip s1 = base + of_nat (k + 39 + ilen (lea_rcx sz)) \<and>
        run (6 + n) ext base (assemble is) s = run n ext base (assemble is) s1"
proof -
  assume lt: "p + ucast sz < e" and dj: "8 \<le> rsp s - fs_at ptr_off s" "8 \<le> fs_at ptr_off s - rsp s"
  let ?r = "s\<lparr>rax := p, rcx := p + ucast sz, zf := False, cf := True, 
    mem := wr64 (mem s) (fs_at ptr_off s) (p + ucast sz), rip := rd64 (mem s) (rsp s), rsp := rsp s + 8\<rparr>"
  have "block ext base k (bump_path sz d ptr_off end_off) s = Returned ?r"
    using assms(4-7) lt dj by (auto simp: bump_path_def exec_simps rd64_wr64_disjoint)
  then have "run (8 + n) ext base (assemble is) s = Some (Returned ?r)"
    using run_block [OF assms(1-3), of ext n] by simp
  then show "\<exists>r. run (8 + n) ext base (assemble is) s = Some r \<and> pops (fs_at ptr_off s) p (p + ucast sz) s r"
    by (simp add: pops_def returned_to_caller_def)
next
  assume ge: "\<not> p + ucast sz < e"
  let ?s1 = "s\<lparr>rax := p, rcx := p + ucast sz, zf := p + ucast sz = e, cf := False,
     rip := base + of_nat (k + 39 + ilen (lea_rcx sz))\<rparr>"
  have "block ext base k (take 6 (bump_path sz d ptr_off end_off)) s = Next ?s1"
    using assms(4,5) ge unfolding assms(6,7) by (simp add: bump_path_def exec_simps sx8_def)
  from run_via [OF code_at_take [OF assms(1)] assms(2,3) this, of n]
  show "\<exists>s1. same_frame s s1 \<and> rax s1 = p \<and> rip s1 = base + of_nat (k + 39 + ilen (lea_rcx sz)) \<and>
        run (6 + n) ext base (assemble is) s = run n ext base (assemble is) s1"
    by (intro exI [of _ ?s1]) (simp add: same_frame_def)
qed

lemma pop_path_guard:
  assumes "code_at is k (pop_path sz d off)" and "rip s = base + of_nat k"
    and "length (assemble is) < 2 ^ 64" and "sz < 0x80000000" and "d < 128" and "rdi s \<noteq> ucast sz"
  shows "\<exists>s1. same_frame s s1 \<and> rip s1 = base + of_nat (k + 9 + d) \<and>
    run (2 + n) ext base (assemble is) s = run n ext base (assemble is) s1"
proof -
  let ?s1 = "s\<lparr>zf := False, cf := rdi s < ucast sz, rip := base + of_nat (k + 9 + d)\<rparr>"
  have "block ext base k (take 2 (pop_path sz d off)) s = Next ?s1"
    using assms(4-6) by (simp add: pop_path_def exec_simps sx8_of_nat ac_simps)
  from run_via [OF code_at_take [OF assms(1)] assms(2,3) this, of n]
  show ?thesis by (intro exI [of _ ?s1]) (simp add: same_frame_def)
qed

lemma pop_path_run:
  assumes "code_at is k (pop_path sz d off)" and "rip s = base + of_nat k"
    and "length (assemble is) < 2 ^ 64" and "sz < 0x80000000" and "rdi s = ucast sz"
    and "h = rd64 (mem s) (fs_at off s)"
  shows "h \<noteq> 0 \<Longrightarrow> 8 \<le> rsp s - fs_at off s \<Longrightarrow> 8 \<le> fs_at off s - rsp s \<Longrightarrow>
      \<exists>r. run (8 + n) ext base (assemble is) s = Some r \<and> pops (fs_at off s) h (rd64 (mem s) h) s r"
    and "h = 0 \<Longrightarrow>
      \<exists>s1. same_frame s s1 \<and> rip s1 = base + of_nat (k + 36) \<and>
        run (5 + n) ext base (assemble is) s = run n ext base (assemble is) s1"
proof -
  assume h: "h \<noteq> 0" and dj: "8 \<le> rsp s - fs_at off s" "8 \<le> fs_at off s - rsp s"
  let ?r = "s\<lparr>rax := h, rcx := rd64 (mem s) h, zf := False, cf := False,
    mem := wr64 (mem s) (fs_at off s) (rd64 (mem s) h), rip := rd64 (mem s) (rsp s), rsp := rsp s + 8\<rparr>"
  have "block ext base k (pop_path sz d off) s = Returned ?r"
    using assms(4-6) h dj by (auto simp: pop_path_def exec_simps rd64_wr64_disjoint)
  then have "run (8 + n) ext base (assemble is) s = Some (Returned ?r)"
    using run_block [OF assms(1-3), of ext n] by simp
  then show "\<exists>r. run (8 + n) ext base (assemble is) s = Some r \<and> pops (fs_at off s) h (rd64 (mem s) h) s r"
    by (simp add: pops_def returned_to_caller_def)
next
  assume h: "h = 0"
  let ?s1 = "s\<lparr>rax := 0, zf := True, cf := False, rip := base + of_nat (k + 36)\<rparr>"
  have "block ext base k (take 5 (pop_path sz d off)) s = Next ?s1"
    using assms(4,5) h unfolding assms(6) by (simp add: pop_path_def exec_simps sx8_def)
  from run_via [OF code_at_take [OF assms(1)] assms(2,3) this, of n]
  show "\<exists>s1. same_frame s s1 \<and> rip s1 = base + of_nat (k + 36) \<and>
        run (5 + n) ext base (assemble is) s = run n ext base (assemble is) s1"
    by (intro exI [of _ ?s1]) (simp add: same_frame_def)
qed

text \<open>What each routine owes its caller, as a choice between the three endings.\<close>

definition bump_spec ::
    "'e callee \<Rightarrow> addr \<Rightarrow> u32 \<Rightarrow> u32 \<Rightarrow> u32 \<Rightarrow> u32 \<Rightarrow> u32 \<Rightarrow> addr \<Rightarrow> addr \<Rightarrow> addr \<Rightarrow>
      'e x86_scheme \<Rightarrow> 'e x86_scheme outcome \<Rightarrow> bool" where
  "bump_spec ext buf ptr_off end_off slot sz site handler init fallback s r \<longleftrightarrow>
     (let p = rd64 (mem s) (fs_at ptr_off s); e = rd64 (mem s) (fs_at end_off s)
      in if rdi s \<noteq> ucast sz then deopts ext handler site buf RegionExhaust fallback s r
         else if p + ucast sz < e then pops (fs_at ptr_off s) p (p + ucast sz) s r
         else if p = 0 then refills ext init slot sz None s r
         else deopts ext handler site buf RegionExhaust fallback s r)"

definition refill_spec ::
    "'e callee \<Rightarrow> addr \<Rightarrow> u32 \<Rightarrow> u32 \<Rightarrow> u32 \<Rightarrow> u32 \<Rightarrow> u32 \<Rightarrow> addr \<Rightarrow> addr \<Rightarrow> addr \<Rightarrow>
      'e x86_scheme \<Rightarrow> 'e x86_scheme outcome \<Rightarrow> bool" where
  "refill_spec ext buf ptr_off end_off slot sz site handler refill fallback s r \<longleftrightarrow>
     (let p = rd64 (mem s) (fs_at ptr_off s); e = rd64 (mem s) (fs_at end_off s)
      in if rdi s \<noteq> ucast sz then deopts ext handler site buf SizeDrift fallback s r
         else if p + ucast sz < e then pops (fs_at ptr_off s) p (p + ucast sz) s r
         else refills ext refill slot sz None s r)"

definition freelist_spec ::
    "'e callee \<Rightarrow> addr \<Rightarrow> u32 \<Rightarrow> u32 \<Rightarrow> u32 \<Rightarrow> u32 \<Rightarrow> addr \<Rightarrow> addr \<Rightarrow> addr \<Rightarrow>
      'e x86_scheme \<Rightarrow> 'e x86_scheme outcome \<Rightarrow> bool" where
  "freelist_spec ext buf head_off slot sz site handler refill fallback s r \<longleftrightarrow>
     (let h = rd64 (mem s) (fs_at head_off s)
      in if rdi s \<noteq> ucast sz then deopts ext handler site buf SizeDrift fallback s r
         else if h \<noteq> 0 then pops (fs_at head_off s) h (rd64 (mem s) h) s r
         else refills ext refill slot sz None s r)"

definition class_spec ::
    "'e callee \<Rightarrow> u32 \<Rightarrow> u32 \<Rightarrow> addr \<Rightarrow> nat \<Rightarrow> u32 \<Rightarrow> 'e x86_scheme \<Rightarrow> 'e x86_scheme outcome \<Rightarrow> bool" where
  "class_spec ext heads slot refill i sz s r \<longleftrightarrow>
     (let a = fs_at (heads + of_nat (i * 8)) s; h = rd64 (mem s) a
      in if h \<noteq> 0 then pops a h (rd64 (mem s) h) s r
         else refills ext refill slot sz (Some (of_nat i)) s r)"

definition multi_spec ::
    "'e callee \<Rightarrow> addr \<Rightarrow> u32 \<Rightarrow> u32 \<Rightarrow> u32 list \<Rightarrow> u32 \<Rightarrow> addr \<Rightarrow> addr \<Rightarrow> addr \<Rightarrow>
      'e x86_scheme \<Rightarrow> 'e x86_scheme outcome \<Rightarrow> bool" where
  "multi_spec ext buf heads slot szs site handler refill fallback s r \<longleftrightarrow>
     (case find_index (\<lambda>sz. rdi s = ucast sz) szs of
        None \<Rightarrow> deopts ext handler site buf SizeDrift fallback s r
      | Some i \<Rightarrow> class_spec ext heads slot refill i (szs ! i) s r)"

lemma ilen_lea_rcx: "ilen (lea_rcx sz) = (if sz < 128 then 4 else 7)"
  by (simp add: lea_rcx_def)

context sysv_callee
begin

lemma bump_runs:
  assumes "entry_ok buf (fs_at ptr_off s) s" and "sz < 0x80000000"
    and "is = bump_code buf ptr_off end_off slot sz site handler init fallback"
  shows "\<exists>r. run 20 ext buf (assemble is) s = Some r \<and>
    bump_spec ext buf ptr_off end_off slot sz site handler init fallback s r"
proof -
  let ?k = "if sz < 128 then 80 else 83 :: nat" and ?d = "if sz < 128 then 71 else 74 :: nat"
  let ?p = "rd64 (mem s) (fs_at ptr_off s)"
  note e = assms(1) [unfolded entry_ok_def]
  have rip: "rip s = buf + of_nat 0" using e by simp
  have len: "length (assemble is) < 2 ^ 64"
    unfolding assms(3) by (rule le_less_trans [OF length_routines(1)]) simp
  have path: "code_at is 0 (bump_path sz ?d ptr_off end_off)"
    and slow: "code_at is (?k - 37) [CmpRax8 0, Jne 31]"
    and call: "code_at is (?k - 31) (call_block slot sz None init)"
    and deopt: "code_at is ?k (deopt_block site buf (reason_code RegionExhaust) handler fallback)"
    unfolding assms(3)
    by (simp_all add: bump_code_def bump_path_def call_block_def deopt_block_def ilen_lea_rcx)
  note deopt = run_deopt [OF deopt _ len]
  consider (guard) "rdi s \<noteq> ucast sz" | (fast) "rdi s = ucast sz" "?p + ucast sz < rd64 (mem s) (fs_at end_off s)"
    | (slow) "rdi s = ucast sz" "\<not> ?p + ucast sz < rd64 (mem s) (fs_at end_off s)" by blast
  then show ?thesis
  proof cases
    case guard
    have d: "?d < 128" "0 + 9 + ?d = ?k" by simp_all
    from bump_path_guard [OF path rip len assms(2) d(1) guard, of 18 ext, unfolded d(2)] obtain s1 where
      "same_frame s s1" "rip s1 = buf + of_nat ?k" "run 20 ext buf (assemble is) s = run 18 ext buf (assemble is) s1"
      by auto
    with deopt [of s1 buf s 9] e guard show ?thesis by (simp add: bump_spec_def Let_def)
  next
    case fast
    from bump_path_run(1) [OF path rip len assms(2) fast(1) refl refl fast(2), of 12 ext] e fast
    show ?thesis by (simp add: bump_spec_def Let_def)
  next
    case slow
    from bump_path_run(2) [OF path rip len assms(2) slow(1) refl refl slow(2), of 14 ext] obtain s1 where
      s1: "same_frame s s1" "rax s1 = ?p" "rip s1 = buf + of_nat (?k - 37)" 
        "run 20 ext buf (assemble is) s = run 14 ext buf (assemble is) s1"
      by (auto simp: ilen_lea_rcx split: if_splits)
    let ?s2 = "s1\<lparr>zf := ?p = 0, cf := False, rip := buf + of_nat (if ?p = 0 then ?k - 31 else ?k)\<rparr>"
    have "block ext buf (?k - 37) [CmpRax8 0, Jne 31] s1 = Next ?s2"
      using s1(2) by (simp add: exec_simps sx8_def)
    from run_via [OF \<open>code_at is (?k - 37) [CmpRax8 0, Jne 31]\<close> s1(3) len this, of 12] s1(4)
    have r: "run 20 ext buf (assemble is) s = run 12 ext buf (assemble is) ?s2" by simp
    have "same_frame s ?s2" using s1(1) by (simp add: same_frame_def)
    with r deopt [of ?s2 buf s 3] run_refill [OF call _ len, of ?s2 buf s 4] e slow
    show ?thesis by (cases "?p = 0") (simp_all add: bump_spec_def Let_def)
  qed
qed

lemma refill_runs:
  assumes "entry_ok buf (fs_at ptr_off s) s" and "sz < 0x80000000"
    and "is = refill_code buf ptr_off end_off slot sz site handler refill fallback"
  shows "\<exists>r. run 20 ext buf (assemble is) s = Some r \<and>
    refill_spec ext buf ptr_off end_off slot sz site handler refill fallback s r"
proof -
  let ?k = "if sz < 128 then 74 else 77 :: nat" and ?d = "if sz < 128 then 65 else 68 :: nat"
  let ?p = "rd64 (mem s) (fs_at ptr_off s)"
  note e = assms(1) [unfolded entry_ok_def]
  have rip: "rip s = buf + of_nat 0" using e by simp
  have len: "length (assemble is) < 2 ^ 64"
    unfolding assms(3) by (rule le_less_trans [OF length_routines(2)]) simp
  have path: "code_at is 0 (bump_path sz ?d ptr_off end_off)"
    and call: "code_at is (?k - 31) (call_block slot sz None refill)"
    and deopt: "code_at is ?k (deopt_block site buf (reason_code SizeDrift) handler fallback)"
    unfolding assms(3)
    by (simp_all add: refill_code_def bump_path_def call_block_def deopt_block_def ilen_lea_rcx)
  consider (guard) "rdi s \<noteq> ucast sz" | (fast) "rdi s = ucast sz" "?p + ucast sz < rd64 (mem s) (fs_at end_off s)"
    | (slow) "rdi s = ucast sz" "\<not> ?p + ucast sz < rd64 (mem s) (fs_at end_off s)" by blast
  then show ?thesis
  proof cases
    case guard
    have d: "?d < 128" "0 + 9 + ?d = ?k" by simp_all
    from bump_path_guard [OF path rip len assms(2) d(1) guard, of 18 ext, unfolded d(2)] obtain s1 where
      "same_frame s s1" "rip s1 = buf + of_nat ?k" "run 20 ext buf (assemble is) s = run 18 ext buf (assemble is) s1"
      by auto
    with run_deopt [OF deopt _ len, of s1 buf s 9] e guard show ?thesis by (simp add: refill_spec_def Let_def)
  next
    case fast
    from bump_path_run(1) [OF path rip len assms(2) fast(1) refl refl fast(2), of 12 ext] e fast
    show ?thesis by (simp add: refill_spec_def Let_def)
  next
    case slow
    from bump_path_run(2) [OF path rip len assms(2) slow(1) refl refl slow(2), of 14 ext] obtain s1 where
      "same_frame s s1" "rip s1 = buf + of_nat (?k - 31)"
        "run 20 ext buf (assemble is) s = run 14 ext buf (assemble is) s1"
      by (auto simp: ilen_lea_rcx split: if_splits)
    with run_refill [OF call _ len, of s1 buf s 6] e slow
    show ?thesis by (simp add: refill_spec_def Let_def)
  qed
qed

lemma pop_class_runs:
  assumes "code_at is k (pop_path sz d off @ call_block slot sz c refill)"
    and "rip s1 = base + of_nat k" and "length (assemble is) < 2 ^ 64" and "sz < 0x80000000"
    and "same_frame s s1" and "rsp s AND 15 = 8"
    and "8 \<le> rsp s - fs_at off s" and "8 \<le> fs_at off s - rsp s"
    and "rdi s = ucast sz" and "h = rd64 (mem s) (fs_at off s)"
  shows "\<exists>r. run (13 + n) ext base (assemble is) s1 = Some r \<and>
    (if h \<noteq> 0 then pops (fs_at off s) h (rd64 (mem s) h) s r else refills ext refill slot sz c s r)"
proof -
  have s1: "rdi s1 = ucast sz" "rsp s1 = rsp s" "fs_at off s1 = fs_at off s" "mem s1 = mem s"
    using assms(5,9) by (simp_all add: same_frame_def fs_at_def)
  have path: "code_at is k (pop_path sz d off)"
    and call: "code_at is (k + 36) (call_block slot sz c refill)"
    using assms(1) by (simp_all add: code_at_append) (simp add: pop_path_def)
  have h: "h = rd64 (mem s1) (fs_at off s1)" using assms(10) s1 by simp
  show ?thesis
  proof (cases "h = 0")
    case False
    from pop_path_run(1) [OF path assms(2-4) s1(1) h False, of "5 + n" ext] assms(7,8) s1
    have "\<exists>r. run (13 + n) ext base (assemble is) s1 = Some r \<and> pops (fs_at off s) h (rd64 (mem s) h) s1 r"
      by simp
    then show ?thesis
      using False s1(4) same_frame_transfer(2) [OF assms(5)] by (simp add: pops_def)
  next
    case True
    from pop_path_run(2) [OF path assms(2-4) s1(1) h True, of "8 + n" ext] obtain s2 where
      s2: "same_frame s1 s2" "rip s2 = base + of_nat (k + 36)"
        "run (13 + n) ext base (assemble is) s1 = run (8 + n) ext base (assemble is) s2"
      by auto
    have "same_frame s s2" using s2(1) assms(5) by (simp add: same_frame_def)
    from run_refill [OF call s2(2) assms(3) this assms(6), of n] s2(3) True
    show ?thesis by simp
  qed
qed

lemma freelist_runs:
  assumes "entry_ok buf (fs_at head_off s) s" and "sz < 0x80000000"
    and "is = freelist_code buf head_off slot sz site handler refill fallback"
  shows "\<exists>r. run 20 ext buf (assemble is) s = Some r \<and>
    freelist_spec ext buf head_off slot sz site handler refill fallback s r"
proof -
  note e = assms(1) [unfolded entry_ok_def]
  have rip: "rip s = buf + of_nat 0" using e by simp
  have len: "length (assemble is) < 2 ^ 64" unfolding assms(3) length_routines(3) by simp
  have path: "code_at is 0 (pop_path sz 58 head_off @ call_block slot sz None refill)"
    and deopt: "code_at is 67 (deopt_block site buf (reason_code SizeDrift) handler fallback)"
    unfolding assms(3)
    by (simp_all add: freelist_code_def pop_path_def call_block_def deopt_block_def)
  show ?thesis
  proof (cases "rdi s = ucast sz")
    case True
    have "same_frame s s" by (simp add: same_frame_def)
    from pop_class_runs [OF path rip len assms(2) this _ _ _ True refl, of 7] e True
    show ?thesis by (simp add: freelist_spec_def Let_def)
  next
    case False
    have "code_at is 0 (pop_path sz 58 head_off)" using path by (simp add: code_at_append)
    from pop_path_guard [OF this rip len assms(2) _ False, of 18 ext] obtain s1 where
      "same_frame s s1" "rip s1 = buf + of_nat 67" "run 20 ext buf (assemble is) s = run 18 ext buf (assemble is) s1"
      by auto
    with run_deopt [OF deopt _ len, of s1 buf s 9] e False show ?thesis by (simp add: freelist_spec_def Let_def)
  qed
qed

lemma code_at_skip: "code_at (xs @ ys) (length (assemble xs) + k) js = code_at ys k js"
  by (induction js arbitrary: k) (simp_all add: instr_at_append add.assoc)

lemma code_at_class:
  "code_at (class_code heads slot refill i sz @ rest) 0
     (pop_path sz 63 (heads + of_nat (i * 8)) @ call_block slot sz (Some (of_nat i)) refill)"
  by (simp add: class_code_def pop_path_def call_block_def)

lemma classes_run:
  assumes "is = pre @ classes_code heads slot refill i szs @
                deopt_block site buf (reason_code SizeDrift) handler fallback"
    and "length (assemble is) < 2 ^ 64" and "rip s1 = base + of_nat (length (assemble pre))"
    and "same_frame s s1" and "rsp s AND 15 = 8"
    and "\<forall>sz \<in> set szs. sz < 0x80000000"
    and "\<forall>j < length szs. 8 \<le> rsp s - fs_at (heads + of_nat ((i + j) * 8)) s \<and>
           8 \<le> fs_at (heads + of_nat ((i + j) * 8)) s - rsp s"
  shows "\<exists>r. run (2 * length szs + 11) ext base (assemble is) s1 = Some r \<and>
    (case find_index (\<lambda>sz. rdi s = ucast sz) szs of
       None \<Rightarrow> deopts ext handler site buf SizeDrift fallback s r
     | Some j \<Rightarrow> class_spec ext heads slot refill (i + j) (szs ! j) s r)"
  using assms
proof (induction szs arbitrary: pre i s1)
  case Nil
  have "code_at is (length (assemble pre) + 0) (deopt_block site buf (reason_code SizeDrift) handler fallback)"
    unfolding Nil.prems(1) code_at_skip by (simp add: deopt_block_def)
  from run_deopt [OF this _ Nil.prems(2), of s1 base s 2] Nil.prems show ?case by simp
next
  case (Cons sz szs)
  let ?off = "heads + of_nat (i * 8)" and ?k = "length (assemble pre)"
  let ?pre = "pre @ class_code heads slot refill i sz"
  have sz: "sz < 0x80000000" using Cons.prems(6) by simp
  have rip: "rip s1 = base + of_nat (?k + 0)" using Cons.prems(3) by simp
  have code: "code_at is (?k + 0) (pop_path sz 63 ?off @ call_block slot sz (Some (of_nat i)) refill)"
    unfolding Cons.prems(1) code_at_skip classes_code.simps append.assoc by (rule code_at_class)
  show ?case
  proof (cases "rdi s = ucast sz")
    case True
    have "8 \<le> rsp s - fs_at ?off s" "8 \<le> fs_at ?off s - rsp s"
      using Cons.prems(7) [rule_format, of 0] by simp_all
    from pop_class_runs [OF code rip Cons.prems(2) sz Cons.prems(4,5) this True refl,
        of "2 * length szs"] True
    show ?thesis by (auto simp: class_spec_def Let_def simp del: of_nat_mult)
  next
    case False
    have "rdi s1 \<noteq> ucast sz" using False Cons.prems(4) by (simp add: same_frame_def)
    moreover have "code_at is (?k + 0) (pop_path sz 63 ?off)" using code by (simp add: code_at_append)
    ultimately obtain s2 where s2: "same_frame s1 s2" "rip s2 = base + of_nat (?k + 0 + 9 + 63)"
      "run (2 + (2 * length szs + 11)) ext base (assemble is) s1 =
         run (2 * length szs + 11) ext base (assemble is) s2"
      using pop_path_guard [OF _ rip Cons.prems(2) sz, of 63 ?off "2 * length szs + 11" ext] by auto
    have "same_frame s s2" using s2(1) Cons.prems(4) by (simp add: same_frame_def)
    moreover have "rip s2 = base + of_nat (length (assemble ?pre))"
      using s2(2) by (simp add: assemble_append length_class_code)
    moreover have "is = ?pre @ classes_code heads slot refill (Suc i) szs @
        deopt_block site buf (reason_code SizeDrift) handler fallback"
      using Cons.prems(1) by simp
    moreover have dj: "\<forall>j < length szs. 8 \<le> rsp s - fs_at (heads + of_nat ((Suc i + j) * 8)) s \<and>
           8 \<le> fs_at (heads + of_nat ((Suc i + j) * 8)) s - rsp s"
    proof (intro allI impI)
      fix j
      assume "j < length szs"
      then show "8 \<le> rsp s - fs_at (heads + of_nat ((Suc i + j) * 8)) s \<and>
           8 \<le> fs_at (heads + of_nat ((Suc i + j) * 8)) s - rsp s"
        using Cons.prems(7) [rule_format, of "Suc j"] by (simp del: of_nat_mult)
    qed
    ultimately have "\<exists>r. run (2 * length szs + 11) ext base (assemble is) s2 = Some r \<and>
      (case find_index (\<lambda>sz. rdi s = ucast sz) szs of
         None \<Rightarrow> deopts ext handler site buf SizeDrift fallback s r
       | Some j \<Rightarrow> class_spec ext heads slot refill (Suc i + j) (szs ! j) s r)"
      using Cons.prems(2,5,6) dj by (intro Cons.IH) simp_all
    with s2(3) False show ?thesis
      by (cases "find_index (\<lambda>sz. rdi s = ucast sz) szs") simp_all
  qed
qed

lemma multi_runs:
  assumes "rip s = buf" "rsp s AND 15 = 8" and "\<forall>sz \<in> set szs. sz < 0x80000000"
    and "\<forall>i < length szs. entry_ok buf (fs_at (heads + of_nat (i * 8)) s) s"
    and "length szs \<le> 4"
    and "is = multi_code buf heads slot szs site handler refill fallback"
  shows "\<exists>r. run 20 ext buf (assemble is) s = Some r \<and>
    multi_spec ext buf heads slot szs site handler refill fallback s r"
proof -
  have "length (assemble is) < 2 ^ 64"
    unfolding assms(6) length_routines(4) using assms(5) by simp
  from classes_run [OF _ this, of "[]" heads slot refill 0 szs site buf handler fallback s buf s, unfolded add_0] assms
  obtain r where "run (2 * length szs + 11) ext buf (assemble is) s = Some r"
    "multi_spec ext buf heads slot szs site handler refill fallback s r"
    by (auto simp: multi_code_def multi_spec_def same_frame_def entry_ok_def)
  moreover have "2 * length szs + 11 \<le> 20" using assms(5) by simp
  ultimately show ?thesis using run_mono_le by blast
qed

end

section \<open>Correctness of the emitted routines\<close>

text \<open>
  The bytes written by \<open>emit_bump_alloc\<close> fit the buffer, and entered with a size in \<open>rdi\<close>
  they stop within 20 instructions: a wrong size reports a deopt and tail-calls
  \<open>real_malloc\<close> with the original argument and frame; otherwise the thread's bump pointer is
  returned and advanced when the end is not reached, \<open>slow_init_fn(slot, size)\<close> is called with
  an aligned stack when the slot is unset, and an exhausted region deopts.
\<close>

theorem bump_routine_correct:
  assumes "emit_bump_alloc buf n ptr_off end_off slot sz site handler init fallback = Some code"
    and "sysv_callee ext" and "entry_ok buf (fs_at ptr_off s) s" and "sz < 0x80000000"
  shows "length code \<le> n \<and>
    (\<exists>r. run 20 ext buf code s = Some r \<and>
      bump_spec ext buf ptr_off end_off slot sz site handler init fallback s r)"
proof -
  have "n \<ge> 200" and code: "code = assemble (bump_code buf ptr_off end_off slot sz site handler init fallback)"
    using assms(1) by (auto simp: emit_bump_alloc_assembles split: if_splits)
  moreover have "length code \<le> 129" unfolding code by (rule length_routines(1))
  ultimately show ?thesis
    using sysv_callee.bump_runs [OF assms(2-4) refl] by simp
qed

text \<open>
  The bytes written by \<open>emit_freelist_alloc\<close> fit the buffer and stop within 20 instructions:
  a wrong size deopts, a non-empty list loses its head to the caller, an empty one calls
  \<open>refill_fn(slot, size)\<close>.
\<close>

theorem freelist_routine_correct:
  assumes "emit_freelist_alloc buf n head_off slot sz site handler refill fallback = Some code"
    and "sysv_callee ext" and "entry_ok buf (fs_at head_off s) s" and "sz < 0x80000000"
  shows "length code \<le> n \<and>
    (\<exists>r. run 20 ext buf code s = Some r \<and>
      freelist_spec ext buf head_off slot sz site handler refill fallback s r)"
proof -
  have "n \<ge> 200" and code: "code = assemble (freelist_code buf head_off slot sz site handler refill fallback)"
    using assms(1) by (auto simp: emit_freelist_alloc_assembles split: if_splits)
  moreover have "length code = 113" unfolding code by (rule length_routines(3))
  ultimately show ?thesis
    using sysv_callee.freelist_runs [OF assms(2-4) refl] by simp
qed

text \<open>
  The bytes written by \<open>emit_epoch_arena\<close> fit the buffer and stop within 20 instructions:
  a wrong size deopts, otherwise the bump pointer is returned and advanced, and an exhausted or
  unset region calls \<open>reset_alloc_fn(slot, size)\<close> and never deopts.
\<close>

theorem epoch_arena_routine_correct:
  assumes "emit_epoch_arena buf n ptr_off end_off slot sz site handler reset fallback = Some code"
    and "sysv_callee ext" and "entry_ok buf (fs_at ptr_off s) s" and "sz < 0x80000000"
  shows "length code \<le> n \<and>
    (\<exists>r. run 20 ext buf code s = Some r \<and>
      refill_spec ext buf ptr_off end_off slot sz site handler reset fallback s r)"
proof -
  have "n \<ge> 200" and code: "code = assemble (refill_code buf ptr_off end_off slot sz site handler reset fallback)"
    using assms(1) by (auto simp: emit_epoch_arena_assembles split: if_splits)
  moreover have "length code \<le> 123" unfolding code by (rule length_routines(2))
  ultimately show ?thesis
    using sysv_callee.refill_runs [OF assms(2-4) refl] by simp
qed

text \<open>
  The bytes written by \<open>emit_pc_alloc\<close> fit the buffer and stop within 20 instructions: a
  wrong size deopts, otherwise the bump pointer is returned and advanced, and an exhausted or
  unset region calls \<open>refill_fn(slot, size)\<close>.
\<close>

theorem pc_routine_correct:
  assumes "emit_pc_alloc buf n ptr_off end_off slot sz site handler refill fallback = Some code"
    and "sysv_callee ext" and "entry_ok buf (fs_at ptr_off s) s" and "sz < 0x80000000"
  shows "length code \<le> n \<and>
    (\<exists>r. run 20 ext buf code s = Some r \<and>
      refill_spec ext buf ptr_off end_off slot sz site handler refill fallback s r)"
proof -
  have "n \<ge> 200" and code: "code = assemble (refill_code buf ptr_off end_off slot sz site handler refill fallback)"
    using assms(1) by (auto simp: emit_pc_alloc_assembles split: if_splits)
  moreover have "length code \<le> 123" unfolding code by (rule length_routines(2))
  ultimately show ?thesis
    using sysv_callee.refill_runs [OF assms(2-4) refl] by simp
qed

text \<open>
  The bytes written by \<open>emit_multi_freelist_alloc\<close> fit the buffer and stop within 20
  instructions: the first class whose size is the requested one serves the request from its own
  list head at \<open>base + 8 * i\<close>, an empty one calls \<open>refill_fn(slot, size, i)\<close>, and a size in no
  class deopts.
\<close>

theorem multi_routine_correct:
  assumes "emit_multi_freelist_alloc buf n heads slot szs site handler refill fallback = Some code"
    and "sysv_callee ext" and "\<forall>i < length szs. entry_ok buf (fs_at (heads + of_nat (i * 8)) s) s"
    and "\<forall>sz \<in> set szs. sz < 0x80000000"
  shows "length code \<le> n \<and>
    (\<exists>r. run 20 ext buf code s = Some r \<and>
      multi_spec ext buf heads slot szs site handler refill fallback s r)"
proof -
  have n: "n \<ge> 512" "szs \<noteq> []" "length szs \<le> 4"
    and code: "code = assemble (multi_code buf heads slot szs site handler refill fallback)"
    using assms(1) by (auto simp: emit_multi_freelist_alloc_assembles split: if_splits)
  have "length code \<le> n" unfolding code length_routines(4) using n by simp
  moreover have "rip s = buf" "rsp s AND 15 = 8"
    using assms(3) [rule_format, of 0] n(2) by (auto simp: entry_ok_def)
  ultimately show ?thesis
    using sysv_callee.multi_runs [OF assms(2) _ _ assms(4,3) n(3) refl] code by simp
qed

section \<open>The routines on a concrete thread\<close>

text \<open>
  A thread whose TLS block is at \<open>0x7000\<close> with a bump region from \<open>0x10000\<close> to \<open>0x20000\<close> in the
  words at offsets 0 and 8, and callees that return 0 and leave memory alone.
\<close>

definition demo_ext :: "unit callee" where
  "demo_ext = host_call (\<lambda>f a b c m. (0, m))"

definition demo_thread :: "u64 \<Rightarrow> x86" where
  "demo_thread n =
     \<lparr>rax = 0, rcx = 0, rdx = 0, rdi = n, rsi = 0, rsp = 0x9008, rip = 0x4000, zf = False, cf = False,
      fsbase = 0x7000, mem = wr64 (wr64 (\<lambda>_. 0) 0x7000 0x10000) 0x7008 0x20000\<rparr>"

lemma demo_entry: "entry_ok 0x4000 (fs_at 0 (demo_thread n)) (demo_thread n)"
  by (simp add: entry_ok_def demo_thread_def fs_at_def sx32_def)

lemma demo_callee: "sysv_callee demo_ext"
  unfolding demo_ext_def by (rule host.sysv_callee_axioms)

lemma demo_words:
  "rd64 (mem (demo_thread n)) (fs_at 0 (demo_thread n)) = 0x10000"
  "rd64 (mem (demo_thread n)) (fs_at 8 (demo_thread n)) = 0x20000"
  by (simp_all add: demo_thread_def fs_at_def sx32_def rd64_wr64_disjoint rd64_wr64_same)

theorem bump_routine_correct_witness:
  "\<exists>code. emit_bump_alloc 0x4000 4096 0 8 5 64 7 0x100 0x200 0x300 = Some code \<and>
    (\<exists>r. run 20 demo_ext 0x4000 code (demo_thread 64) = Some r \<and>
      pops 0x7000 0x10000 0x10040 (demo_thread 64) r)"
proof -
  obtain code where c: "emit_bump_alloc 0x4000 4096 0 8 5 64 7 0x100 0x200 0x300 = Some code"
    by (simp add: emit_bump_alloc_assembles)
  from bump_routine_correct [OF c demo_callee demo_entry [of 64]] c show ?thesis
    by (auto simp: bump_spec_def demo_words) (simp add: demo_thread_def fs_at_def sx32_def)
qed

theorem freelist_routine_correct_witness:
  "\<exists>code. emit_freelist_alloc 0x4000 4096 0 5 64 7 0x100 0x200 0x300 = Some code \<and>
    (\<exists>r. run 20 demo_ext 0x4000 code (demo_thread 64) = Some r \<and>
      pops 0x7000 0x10000 0 (demo_thread 64) r)"
proof -
  obtain code where c: "emit_freelist_alloc 0x4000 4096 0 5 64 7 0x100 0x200 0x300 = Some code"
    by (simp add: emit_freelist_alloc_assembles)
  have "rd64 (mem (demo_thread 64)) 0x10000 = 0" "fs_at 0 (demo_thread 64) = 0x7000"
    "rdi (demo_thread 64) = 64"
    by (simp_all add: demo_thread_def fs_at_def sx32_def rd64_wr64_disjoint)
      (simp add: rd64_def get64_def)
  with freelist_routine_correct [OF c demo_callee demo_entry [of 64]] c demo_words(1) [of 64]
  show ?thesis by (auto simp: freelist_spec_def)
qed

theorem epoch_arena_routine_correct_witness:
  "\<exists>code. emit_epoch_arena 0x4000 4096 0 8 5 0x10000 7 0x100 0x200 0x300 = Some code \<and>
    (\<exists>r. run 20 demo_ext 0x4000 code (demo_thread 0x10000) = Some r \<and>
      refills demo_ext 0x200 5 0x10000 None (demo_thread 0x10000) r)"
proof -
  obtain code where
    c: "emit_epoch_arena 0x4000 4096 0 8 5 0x10000 7 0x100 0x200 0x300 = Some code"
    by (simp add: emit_epoch_arena_assembles)
  from epoch_arena_routine_correct [OF c demo_callee demo_entry [of "0x10000"]] c show ?thesis
    by (auto simp: refill_spec_def demo_words) (simp add: demo_thread_def)
qed

theorem pc_routine_correct_witness:
  "\<exists>code. emit_pc_alloc 0x4000 4096 0 8 5 64 7 0x100 0x200 0x300 = Some code \<and>
    (\<exists>r. run 20 demo_ext 0x4000 code (demo_thread 65) = Some r \<and>
      deopts demo_ext 0x100 7 0x4000 SizeDrift 0x300 (demo_thread 65) r)"
proof -
  obtain code where c: "emit_pc_alloc 0x4000 4096 0 8 5 64 7 0x100 0x200 0x300 = Some code"
    by (simp add: emit_pc_alloc_assembles)
  from pc_routine_correct [OF c demo_callee demo_entry [of 65]] c show ?thesis
    by (auto simp: refill_spec_def demo_words) (simp add: demo_thread_def)
qed

theorem multi_routine_correct_witness:
  "\<exists>code. emit_multi_freelist_alloc 0x4000 4096 0 5 [32, 64] 7 0x100 0x200 0x300 = Some code \<and>
    (\<exists>r. run 20 demo_ext 0x4000 code (demo_thread 64) = Some r \<and>
      class_spec demo_ext 0 5 0x200 1 64 (demo_thread 64) r)"
proof -
  obtain code where
    c: "emit_multi_freelist_alloc 0x4000 4096 0 5 [32, 64] 7 0x100 0x200 0x300 = Some code"
    by (simp add: emit_multi_freelist_alloc_assembles)
  have "\<forall>i < length [32, 64 :: u32].
      entry_ok 0x4000 (fs_at (0 + of_nat (i * 8)) (demo_thread 64)) (demo_thread 64)"
    by (auto simp: less_Suc_eq entry_ok_def demo_thread_def fs_at_def sx32_def)
  from multi_routine_correct [OF c demo_callee this] c show ?thesis
    by (auto simp: multi_spec_def) (simp add: demo_thread_def)
qed

end
