(* ===== verification/Registry.thy ===== *)
theory Registry
  imports Main
begin

text \<open>
  The contract of a registry of keys: what is recorded after insertions and deletions.  The
  pagemap of \<open>Segment\<close> is one; its clients only need the facts proved here.
\<close>

datatype 'k reg_op = Ins 'k | Del 'k

fun reg_key :: "'k reg_op \<Rightarrow> 'k" where
  "reg_key (Ins k) = k"
| "reg_key (Del k) = k"

fun reg_spec :: "'k reg_op list \<Rightarrow> 'k set \<Rightarrow> 'k set" where
  "reg_spec [] S = S"
| "reg_spec (Ins k # ops) S = reg_spec ops (insert k S)"
| "reg_spec (Del k # ops) S = reg_spec ops (S - {k})"

fun reg_run :: "('k \<Rightarrow> 's \<Rightarrow> 's) \<Rightarrow> ('k \<Rightarrow> 's \<Rightarrow> 's) \<Rightarrow> 'k reg_op list \<Rightarrow> 's \<Rightarrow> 's" where
  "reg_run ins del [] s = s"
| "reg_run ins del (Ins k # ops) s = reg_run ins del ops (ins k s)"
| "reg_run ins del (Del k # ops) s = reg_run ins del ops (del k s)"

locale registry =
  fixes ins del :: "'k \<Rightarrow> 's \<Rightarrow> 's"
    and member :: "'k \<Rightarrow> 's \<Rightarrow> bool"
    and ok :: "'k \<Rightarrow> bool"
    and inv :: "'s \<Rightarrow> bool"
  assumes inv_ins: "inv s \<Longrightarrow> ok k \<Longrightarrow> inv (ins k s)"
    and inv_del: "inv s \<Longrightarrow> ok k \<Longrightarrow> inv (del k s)"
    and member_ins: "inv s \<Longrightarrow> ok k \<Longrightarrow> ok j \<Longrightarrow> member j (ins k s) \<longleftrightarrow> j = k \<or> member j s"
    and member_del: "inv s \<Longrightarrow> ok k \<Longrightarrow> ok j \<Longrightarrow> member j (del k s) \<longleftrightarrow> j \<noteq> k \<and> member j s"
begin

lemma member_run:
  assumes "inv s" and "\<forall>x \<in> set ops. ok (reg_key x)" and "ok j"
    and "\<And>j. ok j \<Longrightarrow> member j s \<longleftrightarrow> j \<in> S"
  shows "member j (reg_run ins del ops s) \<longleftrightarrow> j \<in> reg_spec ops S"
  using assms
proof (induction ops arbitrary: s S)
  case Nil
  then show ?case by simp
next
  case (Cons x ops)
  show ?case
  proof (cases x)
    case (Ins k)
    with Cons.prems show ?thesis
      using Cons.IH [of "ins k s" "insert k S"] by (simp add: inv_ins member_ins)
  next
    case (Del k)
    with Cons.prems show ?thesis
      using Cons.IH [of "del k s" "S - {k}"] by (auto simp: inv_del member_del)
  qed
qed

lemma inv_fold_del: "inv s \<Longrightarrow> \<forall>k \<in> set ks. ok k \<Longrightarrow> inv (fold del ks s)"
  by (induction ks arbitrary: s) (simp_all add: inv_del)

lemma member_fold_del:
  "inv s \<Longrightarrow> \<forall>k \<in> set ks. ok k \<Longrightarrow> ok j \<Longrightarrow>
     member j (fold del ks s) \<longleftrightarrow> j \<notin> set ks \<and> member j s"
  by (induction ks arbitrary: s) (auto simp: inv_del member_del)

end

end
