(* ===== verification/Segment.thy ===== *)
theory Segment
  imports Common Registry
begin

text \<open>
  \<open>src/src/seg/segment.h\<close> and \<open>segment.cpp\<close>: 2 MiB segments, the pagemap that answers
  \<open>is_managed\<close>, the segment index, the reaper and the remote-free queue.  Answers of the
  operating system (\<open>mmap\<close>, \<open>sysconf\<close>, \<open>gettid\<close>, the environment) are arguments; the calls the
  code makes with no answer (\<open>munmap\<close>, \<open>madvise\<close>) are appended to a log.  The headers and the
  first word of each chunk live in a store indexed by address.
\<close>

section \<open>Geometry\<close>

definition SEGMENT_SHIFT :: nat where
  "SEGMENT_SHIFT = 21"

definition SEGMENT_SIZE :: u64 where
  "SEGMENT_SIZE = push_bit SEGMENT_SHIFT 1"

definition SEGMENT_MASK :: u64 where
  "SEGMENT_MASK = NOT (SEGMENT_SIZE - 1)"

definition sizeof_SegmentHeader :: u64 where
  "sizeof_SegmentHeader = 64"

record SegmentHeader =
  strategy :: Strategy
  retired :: bool
  class_idx :: u8
  decommitted :: bool
  slot_index :: u32
  alloc_site :: CallSiteID
  owner_tid :: u32
  live_chunks :: u32
  chunk_size :: u32
  retire_epoch :: u32
  remote_head :: addr
  bump_ptr :: addr
  bump_limit :: addr
  next_in_site :: addr

definition chunks_in_segment :: "SegmentHeader \<Rightarrow> u32" where
  "chunks_in_segment s =
     (if chunk_size s = 0 then 0
      else let payload = SEGMENT_SIZE - sizeof_SegmentHeader
           in ucast (payload div ucast (chunk_size s)))"

definition base_of :: "addr \<Rightarrow> addr" where
  "base_of s = s"

definition payload_start :: "addr \<Rightarrow> addr" where
  "payload_start s = base_of s + sizeof_SegmentHeader"

definition segment_end :: "addr \<Rightarrow> addr" where
  "segment_end s = base_of s + SEGMENT_SIZE"

definition seg_of :: "addr \<Rightarrow> addr" where
  "seg_of p = p AND SEGMENT_MASK"

section \<open>State\<close>

datatype syscall =
    Munmap addr u64
  | MadvHugepage addr u64
  | MadvNohugepage addr u64
  | MadvDontneed addr u64

datatype ReapMode = Conservative | Eager | Madvise

datatype ThpMode = Always | Never | Auto

definition MAX_SEGMENTS :: nat where
  "MAX_SEGMENTS = 4096"

definition PM_SLOTS :: u64 where
  "PM_SLOTS = push_bit (48 - SEGMENT_SHIFT) 1"

text \<open>
  \<open>g_index\<close> holds the first \<open>g_index_count\<close> entries of the C++ array; \<open>pagemap\<close> is \<open>None\<close> when
  its own \<open>mmap\<close> failed; \<open>words\<close> is the pointer stored at an address (the link of a free chunk).
\<close>

record seg_state =
  headers :: "addr \<Rightarrow> SegmentHeader"
  g_index :: "addr list"
  pagemap :: "(nat \<Rightarrow> u64) option"
  words :: "addr \<Rightarrow> addr"
  syscalls :: "syscall list"

text \<open>What the operating system and the environment answer during one call.\<close>

record os_env =
  os_mmap :: "addr option"
  os_pagesize :: int
  os_tid :: u32
  os_thp :: ThpMode
  os_thp_pred :: "(CallSiteID \<Rightarrow> bool) option"

definition upd_header :: "addr \<Rightarrow> (SegmentHeader \<Rightarrow> SegmentHeader) \<Rightarrow> seg_state \<Rightarrow> seg_state" where
  "upd_header a f st = st\<lparr>headers := (headers st)(a := f (headers st a))\<rparr>"

definition log_call :: "syscall list \<Rightarrow> seg_state \<Rightarrow> seg_state" where
  "log_call cs st = st\<lparr>syscalls := syscalls st @ cs\<rparr>"

section \<open>Operations\<close>

definition pagemap_mark :: "addr \<Rightarrow> bool \<Rightarrow> seg_state \<Rightarrow> seg_state" where
  "pagemap_mark seg on st =
     (case pagemap st of
        None \<Rightarrow> st
      | Some pm \<Rightarrow>
          let bit = drop_bit SEGMENT_SHIFT seg
          in if PM_SLOTS \<le> bit then st
             else let mask = push_bit (unat (bit AND 63)) 1;
                      w = unat (drop_bit 6 bit)
                  in if on then st\<lparr>pagemap := Some (pm(w := pm w OR mask))\<rparr>
                     else st\<lparr>pagemap := Some (pm(w := pm w AND NOT mask))\<rparr>)"

definition decommit_segment :: "os_env \<Rightarrow> addr \<Rightarrow> seg_state \<Rightarrow> seg_state" where
  "decommit_segment env seg st =
     (let ps = os_pagesize env
      in if ps \<le> 0 \<or> uint SEGMENT_SIZE \<le> ps then st
         else let from = seg + of_int ps
              in upd_header seg (\<lambda>h. h\<lparr>decommitted := True\<rparr>)
                   (log_call [MadvDontneed from (SEGMENT_SIZE - of_int ps)] st))"

definition thp_mode :: "string option \<Rightarrow> ThpMode" where
  "thp_mode e =
     (case e of
        Some v \<Rightarrow> (if v = ''never'' then Never else if v = ''always'' then Always else Auto)
      | None \<Rightarrow> Auto)"

definition want_hugepage :: "os_env \<Rightarrow> CallSiteID \<Rightarrow> bool" where
  "want_hugepage env site =
     (case os_thp env of
        Never \<Rightarrow> False
      | Auto \<Rightarrow> (case os_thp_pred env of Some p \<Rightarrow> p site | None \<Rightarrow> True)
      | Always \<Rightarrow> True)"

definition aligned_mmap_2mib :: "addr option \<Rightarrow> bool \<Rightarrow> addr option \<times> syscall list" where
  "aligned_mmap_2mib raw huge =
     (case raw of
        None \<Rightarrow> (None, [])
      | Some lo \<Rightarrow>
          let hi = lo + SEGMENT_SIZE * 2;
              aligned_lo = (lo + SEGMENT_SIZE - 1) AND SEGMENT_MASK;
              aligned_hi = aligned_lo + SEGMENT_SIZE
          in (Some aligned_lo,
              (if aligned_lo \<noteq> lo then [Munmap lo (aligned_lo - lo)] else []) @
              (if hi \<noteq> aligned_hi then [Munmap aligned_hi (hi - aligned_hi)] else []) @
              (if huge then [MadvHugepage aligned_lo SEGMENT_SIZE]
               else [MadvNohugepage aligned_lo SEGMENT_SIZE])))"

definition reap_mode :: "string option \<Rightarrow> ReapMode" where
  "reap_mode e =
     (case e of
        Some v \<Rightarrow> (if v = ''eager'' then Eager else if v = ''madvise'' then Madvise else Conservative)
      | None \<Rightarrow> Conservative)"

definition register_segment :: "addr \<Rightarrow> seg_state \<Rightarrow> seg_state" where
  "register_segment seg st =
     (let st = pagemap_mark seg True st;
          n = length (g_index st)
      in if n < MAX_SEGMENTS then st\<lparr>g_index := g_index st @ [seg]\<rparr> else st)"

text \<open>The entry found is overwritten by the last one, whose place is cleared.\<close>

definition unregister_segment :: "addr \<Rightarrow> seg_state \<Rightarrow> seg_state" where
  "unregister_segment seg st =
     (let st = pagemap_mark seg False st;
          n = length (g_index st)
      in case find_index (\<lambda>a. a = seg) (g_index st) of
           None \<Rightarrow> st
         | Some i \<Rightarrow> st\<lparr>g_index := butlast ((g_index st)[i := g_index st ! (n - 1)])\<rparr>)"

definition is_managed :: "addr \<Rightarrow> seg_state \<Rightarrow> bool" where
  "is_managed seg st =
     (if seg = 0 then False
      else case pagemap st of
             None \<Rightarrow> False
           | Some pm \<Rightarrow>
               let bit = drop_bit SEGMENT_SHIFT seg
               in if PM_SLOTS \<le> bit then False
                  else drop_bit (unat (bit AND 63)) (pm (unat (drop_bit 6 bit))) AND 1 \<noteq> 0)"

definition segment_count :: "seg_state \<Rightarrow> nat" where
  "segment_count st = length (g_index st)"

definition new_header :: "Strategy \<Rightarrow> u32 \<Rightarrow> CallSiteID \<Rightarrow> u32 \<Rightarrow> u32 \<Rightarrow> addr \<Rightarrow> SegmentHeader" where
  "new_header s slot site tid csize h =
     \<lparr>strategy = s, retired = False, class_idx = 0, decommitted = False, slot_index = slot,
      alloc_site = site, owner_tid = tid, live_chunks = 0, chunk_size = csize, retire_epoch = 0,
      remote_head = 0, bump_ptr = payload_start h, bump_limit = segment_end h, next_in_site = 0\<rparr>"

definition alloc_segment ::
    "os_env \<Rightarrow> Strategy \<Rightarrow> u32 \<Rightarrow> CallSiteID \<Rightarrow> u32 \<Rightarrow> seg_state \<Rightarrow> addr option \<times> seg_state" where
  "alloc_segment env s slot site csize st =
     (case aligned_mmap_2mib (os_mmap env) (want_hugepage env site) of
        (None, cs) \<Rightarrow> (None, st)
      | (Some h, cs) \<Rightarrow>
          (Some h,
           register_segment h
             (upd_header h (\<lambda>_. new_header s slot site (os_tid env) csize h) (log_call cs st))))"

definition free_segment :: "addr \<Rightarrow> seg_state \<Rightarrow> seg_state" where
  "free_segment seg st =
     (if seg = 0 then st else log_call [Munmap seg SEGMENT_SIZE] (unregister_segment seg st))"

definition eligible :: "ReapMode \<Rightarrow> (CallSiteID \<Rightarrow> bool) option \<Rightarrow> SegmentHeader \<Rightarrow> bool" where
  "eligible mode pred h =
     (if \<not> retired h then False
      else if live_chunks h \<noteq> 0 then False
      else if mode = Conservative \<and> (case pred of Some p \<Rightarrow> \<not> p (alloc_site h) | None \<Rightarrow> False) then False
      else if mode = Madvise \<and> decommitted h then False
      else True)"

definition reaper_sweep ::
    "os_env \<Rightarrow> ReapMode \<Rightarrow> (CallSiteID \<Rightarrow> bool) option \<Rightarrow> seg_state \<Rightarrow> nat \<times> seg_state" where
  "reaper_sweep env mode pred st =
     (let el = filter (\<lambda>h. h \<noteq> 0 \<and> eligible mode pred (headers st h)) (g_index st)
      in (length el,
          fold (\<lambda>h st. if mode = Madvise then decommit_segment env h st else free_segment h st)
            el st))"

text \<open>Without interference the compare-exchange of \<open>mpsc_push\<close> succeeds in its first round.\<close>

definition mpsc_push :: "addr \<Rightarrow> addr \<Rightarrow> seg_state \<Rightarrow> seg_state" where
  "mpsc_push seg chunk st =
     (let cur = remote_head (headers st seg);
          st = st\<lparr>words := (words st)(chunk := cur)\<rparr>
      in upd_header seg (\<lambda>h. h\<lparr>remote_head := chunk\<rparr>) st)"

definition mpsc_harvest :: "addr \<Rightarrow> seg_state \<Rightarrow> addr \<times> seg_state" where
  "mpsc_harvest seg st =
     (remote_head (headers st seg), upd_header seg (\<lambda>h. h\<lparr>remote_head := 0\<rparr>) st)"

section \<open>Alignment and trimming\<close>

lemma SEGMENT_SIZE_eq: "SEGMENT_SIZE = 0x200000"
  by (simp add: SEGMENT_SIZE_def SEGMENT_SHIFT_def push_bit_eq_mult)

lemma SEGMENT_MASK_eq: "SEGMENT_MASK = NOT (mask 21)"
  by (simp add: SEGMENT_MASK_def SEGMENT_SIZE_eq mask_eq_exp_minus_1)

definition seg_aligned :: "addr \<Rightarrow> bool" where
  "seg_aligned a \<longleftrightarrow> unat a mod 0x200000 = 0"

definition in_segment :: "addr \<Rightarrow> addr \<Rightarrow> bool" where
  "in_segment p a \<longleftrightarrow> unat a \<le> unat p \<and> unat p < unat a + 0x200000"

fun unmapped :: "syscall list \<Rightarrow> nat set" where
  "unmapped [] = {}"
| "unmapped (Munmap a n # cs) = {unat a ..< unat a + unat n} \<union> unmapped cs"
| "unmapped (c # cs) = unmapped cs"

lemma unmapped_append [simp]: "unmapped (cs @ ds) = unmapped cs \<union> unmapped ds"
  by (induction cs rule: unmapped.induct) auto

lemma seg_of_eq:
  assumes "seg_aligned a" and "in_segment p a"
  shows "seg_of p = a"
proof -
  have "unat (seg_of p) = unat p div 0x200000 * 0x200000"
    by (simp add: seg_of_def SEGMENT_MASK_eq unat_and_not_mask)
  moreover have "unat p div 0x200000 = unat a div 0x200000"
  proof -
    have "unat a = unat a div 0x200000 * 0x200000"
      using assms(1) by (auto simp: seg_aligned_def)
    then show ?thesis using assms(2) unfolding in_segment_def
      by (intro div_nat_eqI) (simp_all only: mult_Suc_right mult.commute, linarith+)
  qed
  ultimately show ?thesis
    using assms(1) by (auto simp: seg_aligned_def word_unat_eq_iff)
qed

lemma interval_split:
  fixes l b n h :: nat
  assumes "l \<le> b" and "b + n \<le> h"
  shows "{b ..< b + n} \<union> ({l ..< b} \<union> {b + n ..< h}) = {l ..< h}"
    and "{b ..< b + n} \<inter> ({l ..< b} \<union> {b + n ..< h}) = {}"
  using assms by auto

lemma aligned_mmap_Some:
  assumes "aligned_mmap_2mib (Some lo) huge = (r, cs)" and "unat lo + 0x400000 < 2 ^ 64"
  shows "\<exists>b. r = Some b \<and> seg_aligned b \<and>
    {unat b ..< unat b + 0x200000} \<union> unmapped cs = {unat lo ..< unat lo + 0x400000} \<and>
    {unat b ..< unat b + 0x200000} \<inter> unmapped cs = {}"
proof -
  define b where "b = (lo + SEGMENT_SIZE - 1) AND SEGMENT_MASK"
  have b': "b = (lo + mask 21) AND NOT (mask 21)"
    by (simp add: b_def SEGMENT_SIZE_eq SEGMENT_MASK_eq mask_eq_exp_minus_1 algebra_simps)
  have ub: "unat b = (unat lo + 0x200000 - 1) div 0x200000 * 0x200000"
    using unat_align_up [of lo 21] assms(2) unfolding b' by simp
  note bounds = align_up_bounds [of "0x200000" "unat lo", folded ub, simplified]
  have lo: "unat lo \<le> unat b" and hi: "unat b < unat lo + 0x200000" and al: "seg_aligned b"
    using bounds by (simp_all add: seg_aligned_def)
  define h where "h = lo + SEGMENT_SIZE * 2"
  define bh where "bh = b + SEGMENT_SIZE"
  have uhi: "unat h = unat lo + 0x400000"
    using assms(2) by (simp add: h_def SEGMENT_SIZE_eq unat_word_ariths)
  have ubh: "unat bh = unat b + 0x200000"
    using assms(2) hi by (simp add: bh_def SEGMENT_SIZE_eq unat_word_ariths)
  have d1: "unat (b - lo) = unat b - unat lo"
    using lo by (simp add: unat_sub word_le_nat_alt)
  have "bh \<le> h" using uhi ubh hi by (simp add: word_le_nat_alt)
  then have d2: "unat (h - bh) = unat lo + 0x400000 - (unat b + 0x200000)"
    using uhi ubh by (simp add: unat_sub)
  have r: "r = Some b" and cs: "cs = (if b \<noteq> lo then [Munmap lo (b - lo)] else []) @
      (if h \<noteq> bh then [Munmap bh (h - bh)] else []) @
      (if huge then [MadvHugepage b SEGMENT_SIZE] else [MadvNohugepage b SEGMENT_SIZE])"
    using assms(1) by (simp_all only: aligned_mmap_2mib_def Let_def option.case b_def h_def bh_def prod.inject)
  have e: "h = bh \<longleftrightarrow> unat lo + 0x400000 = unat b + 0x200000"
    by (simp only: word_unat_eq_iff uhi ubh)
  have um: "unmapped cs = {unat lo ..< unat b} \<union> {unat b + 0x200000 ..< unat lo + 0x400000}"
  proof -
    have "unmapped (if b \<noteq> lo then [Munmap lo (b - lo)] else []) = {unat lo ..< unat b}"
      using lo by (simp add: d1)
    moreover have "unmapped (if h \<noteq> bh then [Munmap bh (h - bh)] else []) =
        {unat b + 0x200000 ..< unat lo + 0x400000}"
      using hi by (simp add: d2 ubh e add.commute)
    ultimately show ?thesis unfolding cs unmapped_append by simp
  qed
  have "unat b + 0x200000 \<le> unat lo + 0x400000" using hi by simp
  with interval_split [OF lo this] r al um show ?thesis by simp
qed

section \<open>The pagemap\<close>

text \<open>A segment base as user space has them: nonzero, aligned, below \<open>2 ^ 48\<close>.\<close>

definition seg_ok :: "addr \<Rightarrow> bool" where
  "seg_ok a \<longleftrightarrow> a \<noteq> 0 \<and> seg_aligned a \<and> unat a < 2 ^ 48"

definition pm_bit :: "(nat \<Rightarrow> u64) \<Rightarrow> nat \<Rightarrow> bool" where
  "pm_bit pm k \<longleftrightarrow> bit (pm (k div 64)) (k mod 64)"

definition seg_no :: "addr \<Rightarrow> nat" where
  "seg_no a = unat a div 0x200000"

lemma seg_no_inj: "seg_ok a \<Longrightarrow> seg_ok b \<Longrightarrow> seg_no a = seg_no b \<longleftrightarrow> a = b"
  unfolding seg_ok_def seg_aligned_def seg_no_def
  by (metis div_mult_mod_eq word_unat_eq_iff)

lemma pagemap_indices:
  assumes "seg_ok a"
  shows "\<not> PM_SLOTS \<le> drop_bit SEGMENT_SHIFT a"
    and "unat (drop_bit SEGMENT_SHIFT a AND 63) = seg_no a mod 64"
    and "unat (drop_bit 6 (drop_bit SEGMENT_SHIFT a)) = seg_no a div 64"
proof -
  have d: "unat (drop_bit SEGMENT_SHIFT a) = seg_no a"
    by (simp add: SEGMENT_SHIFT_def seg_no_def unat_drop_bit)
  have p: "unat PM_SLOTS = 2 ^ 27"
    by (simp add: PM_SLOTS_def SEGMENT_SHIFT_def push_bit_eq_mult)
  have "seg_no a < 2 ^ 27" using assms by (simp add: seg_ok_def seg_no_def less_mult_imp_div_less)
  then show "\<not> PM_SLOTS \<le> drop_bit SEGMENT_SHIFT a"
    using d p by (simp add: word_le_nat_alt)
  have m: "(63 :: u64) = mask 6" by (simp add: mask_eq_exp_minus_1)
  show "unat (drop_bit SEGMENT_SHIFT a AND 63) = seg_no a mod 64"
    unfolding m unat_and_mask d by simp
  show "unat (drop_bit 6 (drop_bit SEGMENT_SHIFT a)) = seg_no a div 64"
    unfolding unat_drop_bit [of 6] d by simp
qed

lemma is_managed_iff:
  assumes "seg_ok a" and "pagemap st = Some pm"
  shows "is_managed a st \<longleftrightarrow> pm_bit pm (seg_no a)"
proof -
  have "drop_bit n w AND 1 \<noteq> 0 \<longleftrightarrow> bit w n" for n and w :: u64
    by (simp add: and_one_eq bit_iff_odd_drop_bit mod2_eq_if)
  then show ?thesis
    using assms pagemap_indices [OF assms(1)]
    by (simp add: is_managed_def pm_bit_def seg_ok_def Let_def)
qed

lemma pagemap_mark_Some:
  assumes "seg_ok a" and "pagemap st = Some pm"
  shows "\<exists>pm'. pagemap_mark a on st = st\<lparr>pagemap := Some pm'\<rparr> \<and>
    (\<forall>k. pm_bit pm' k = (if k = seg_no a then on else pm_bit pm k))"
proof -
  let ?m = "push_bit (seg_no a mod 64) 1 :: u64" and ?w = "seg_no a div 64"
  let ?pm = "pm(?w := if on then pm ?w OR ?m else pm ?w AND NOT ?m)"
  have "pagemap_mark a on st = st\<lparr>pagemap := Some ?pm\<rparr>"
    using assms(2) pagemap_indices [OF assms(1)]
    by (simp add: pagemap_mark_def Let_def)
  moreover have "pm_bit ?pm k = (if k = seg_no a then on else pm_bit pm k)" for k
  proof -
    have "k = seg_no a \<longleftrightarrow> k div 64 = ?w \<and> k mod 64 = seg_no a mod 64"
      by (metis div_mult_mod_eq)
    moreover have "k mod 64 < 64" by simp
    ultimately show ?thesis
      by (auto simp: pm_bit_def bit_simps)
  qed
  ultimately show ?thesis by blast
qed

definition pm_ready :: "seg_state \<Rightarrow> bool" where
  "pm_ready st \<longleftrightarrow> pagemap st \<noteq> None"

lemma pagemap_mark_ready: "pagemap (pagemap_mark a on st) = None \<longleftrightarrow> pagemap st = None"
  by (simp add: pagemap_mark_def Let_def split: option.splits)

lemma is_managed_cong: "pagemap st = pagemap st' \<Longrightarrow> is_managed a st = is_managed a st'"
  by (simp add: is_managed_def)

lemma is_managed_mark:
  assumes "pm_ready st" and "seg_ok a" and "seg_ok b"
  shows "is_managed b (pagemap_mark a on st) \<longleftrightarrow> (if b = a then on else is_managed b st)"
proof -
  obtain pm where pm: "pagemap st = Some pm" using assms(1) by (auto simp: pm_ready_def)
  obtain pm' where m: "pagemap_mark a on st = st\<lparr>pagemap := Some pm'\<rparr>"
    and b: "\<forall>k. pm_bit pm' k = (if k = seg_no a then on else pm_bit pm k)"
    using pagemap_mark_Some [OF assms(2) pm] by blast
  show ?thesis
    using is_managed_iff [OF assms(3), of "st\<lparr>pagemap := Some pm'\<rparr>" pm']
      is_managed_iff [OF assms(3) pm] b seg_no_inj [OF assms(3,2)] m by simp
qed

lemma g_index_mark [simp]: "g_index (pagemap_mark a on st) = g_index st"
  by (simp add: pagemap_mark_def Let_def split: option.splits)

lemma headers_mark [simp]: "headers (pagemap_mark a on st) = headers st"
  by (simp add: pagemap_mark_def Let_def split: option.splits)

lemma syscalls_mark [simp]: "syscalls (pagemap_mark a on st) = syscalls st"
  by (simp add: pagemap_mark_def Let_def split: option.splits)

lemma words_mark [simp]: "words (pagemap_mark a on st) = words st"
  by (simp add: pagemap_mark_def Let_def split: option.splits)

lemma pagemap_register: "pagemap (register_segment a st) = pagemap (pagemap_mark a True st)"
  by (simp add: register_segment_def Let_def)

lemma pagemap_unregister: "pagemap (unregister_segment a st) = pagemap (pagemap_mark a False st)"
  by (simp add: unregister_segment_def Let_def split: option.splits)

lemma pagemap_free: "a \<noteq> 0 \<Longrightarrow> pagemap (free_segment a st) = pagemap (pagemap_mark a False st)"
  by (simp add: free_segment_def log_call_def pagemap_unregister)

lemmas managed_simps = pagemap_register [THEN is_managed_cong] pagemap_unregister [THEN is_managed_cong]
  is_managed_mark

interpretation pmap: registry register_segment unregister_segment is_managed seg_ok pm_ready
  by unfold_locales
    (simp_all add: managed_simps,
      simp_all add: pm_ready_def pagemap_register pagemap_unregister pagemap_mark_ready)

interpretation pfree: registry register_segment free_segment is_managed seg_ok pm_ready
proof unfold_locales
  fix s k
  assume "pm_ready s" "seg_ok k"
  then show "pm_ready (register_segment k s)" by (rule pmap.inv_ins)
next
  fix s k
  assume "pm_ready s" "seg_ok k"
  then show "pm_ready (free_segment k s)"
    using pmap.inv_del by (auto simp: pm_ready_def free_segment_def log_call_def)
next
  fix s k j
  assume "pm_ready s" "seg_ok k" "seg_ok j"
  then show "is_managed j (register_segment k s) = (j = k \<or> is_managed j s)"
    by (rule pmap.member_ins)
next
  fix s k j
  assume a: "pm_ready s" "seg_ok k" "seg_ok j"
  then have "is_managed j (free_segment k s) = is_managed j (pagemap_mark k False s)"
    by (intro is_managed_cong pagemap_free) (simp add: seg_ok_def)
  then show "is_managed j (free_segment k s) = (j \<noteq> k \<and> is_managed j s)"
    using a by (simp add: is_managed_mark)
qed

section \<open>The index and the reaper\<close>

lemma swap_remove:
  assumes "distinct xs" and "i < length xs"
  shows "distinct (butlast (xs[i := xs ! (length xs - 1)]))"
    and "set (butlast (xs[i := xs ! (length xs - 1)])) = set xs - {xs ! i}"
proof -
  let ?l = "xs ! (length xs - 1)"
  obtain ys l where xs: "xs = ys @ [l]"
    using assms(2) by (cases xs rule: rev_cases) auto
  have d: "distinct ys" "l \<notin> set ys" using assms(1) xs by auto
  show "distinct (butlast (xs[i := ?l]))"
    using assms d xs by (auto simp: butlast_list_update nth_append intro: distinct_list_update)
  show "set (butlast (xs[i := ?l])) = set xs - {xs ! i}"
    using assms d xs
    by (cases "i = length ys") (auto simp: butlast_list_update nth_append set_update_distinct)
qed

definition seg_inv :: "seg_state \<Rightarrow> bool" where
  "seg_inv st \<longleftrightarrow> pm_ready st \<and> distinct (g_index st) \<and>
     (\<forall>a \<in> set (g_index st). seg_ok a \<and> is_managed a st)"

lemma unregister_index:
  assumes "distinct (g_index st)"
  shows "distinct (g_index (unregister_segment a st))"
    and "set (g_index (unregister_segment a st)) = set (g_index st) - {a}"
proof -
  let ?f = "find_index (\<lambda>b. b = a) (g_index st)"
  show "distinct (g_index (unregister_segment a st))"
    using assms find_index_SomeD [of "\<lambda>b. b = a" "g_index st"]
    by (cases ?f) (auto simp: unregister_segment_def Let_def swap_remove(1) [simplified])
  show "set (g_index (unregister_segment a st)) = set (g_index st) - {a}"
  proof (cases ?f)
    case None
    with find_index_None_iff [THEN iffD1, OF None] show ?thesis
      by (auto simp: unregister_segment_def Let_def)
  next
    case (Some i)
    from find_index_SomeD [OF Some] show ?thesis
      using Some assms by (auto simp: unregister_segment_def Let_def swap_remove(2) [simplified])
  qed
qed

lemma free_index:
  assumes "distinct (g_index st)" and "a \<noteq> 0"
  shows "distinct (g_index (free_segment a st))"
    and "set (g_index (free_segment a st)) = set (g_index st) - {a}"
    and "headers (free_segment a st) = headers st"
    and "syscalls (free_segment a st) = syscalls st @ [Munmap a SEGMENT_SIZE]"
  using unregister_index [OF assms(1)] assms(2)
  by (simp_all add: free_segment_def log_call_def)
    (simp_all add: unregister_segment_def Let_def split: option.splits)

lemma fold_free_index:
  assumes "distinct (g_index st)" and "0 \<notin> set el"
  shows "distinct (g_index (fold free_segment el st)) \<and>
    set (g_index (fold free_segment el st)) = set (g_index st) - set el \<and>
    headers (fold free_segment el st) = headers st \<and>
    syscalls (fold free_segment el st) = syscalls st @ map (\<lambda>a. Munmap a SEGMENT_SIZE) el"
  using assms
proof (induction el arbitrary: st)
  case Nil
  then show ?case by simp
next
  case (Cons a el)
  with free_index [OF Cons.prems(1), of a] show ?case by auto
qed


definition reaped :: "ReapMode \<Rightarrow> (CallSiteID \<Rightarrow> bool) option \<Rightarrow> seg_state \<Rightarrow> addr list" where
  "reaped mode pred st = filter (\<lambda>h. h \<noteq> 0 \<and> eligible mode pred (headers st h)) (g_index st)"

lemma eligible_iff:
  "eligible mode pred h \<longleftrightarrow> retired h \<and> live_chunks h = 0 \<and>
     (mode = Conservative \<longrightarrow> (\<forall>p. pred = Some p \<longrightarrow> p (alloc_site h))) \<and>
     (mode = Madvise \<longrightarrow> \<not> decommitted h)"
  by (auto simp: eligible_def split: option.splits)

lemma reaper_sweep_free:
  assumes "mode \<noteq> Madvise"
  shows "reaper_sweep env mode pred st =
    (length (reaped mode pred st), fold free_segment (reaped mode pred st) st)"
  using assms by (simp add: reaper_sweep_def reaped_def Let_def)

lemma reaped_ok: "seg_inv st \<Longrightarrow> \<forall>a \<in> set (reaped mode pred st). seg_ok a"
  by (auto simp: seg_inv_def reaped_def)

text \<open>
  C12: A sweep in conservative or eager mode unmaps exactly the indexed segments that are
  retired, have no live chunk and, in conservative mode, whose site the lifetime predicate
  releases.  It unmaps each once, reports their number, forgets them in the pagemap and in the
  index, and leaves every other segment registered, every header untouched and the invariant
  intact.
\<close>

theorem reaper_sweep_sound:
  assumes "seg_inv st" and "mode \<noteq> Madvise" and "reaper_sweep env mode pred st = (n, st')"
  shows "\<exists>dead. distinct dead \<and> n = length dead \<and>
    set dead = {a \<in> set (g_index st). retired (headers st a) \<and> live_chunks (headers st a) = 0 \<and>
      (mode = Conservative \<longrightarrow> (\<forall>p. pred = Some p \<longrightarrow> p (alloc_site (headers st a))))} \<and>
    syscalls st' = syscalls st @ map (\<lambda>a. Munmap a SEGMENT_SIZE) dead \<and>
    headers st' = headers st \<and> set (g_index st') = set (g_index st) - set dead \<and>
    (\<forall>a. seg_ok a \<longrightarrow> (is_managed a st' \<longleftrightarrow> is_managed a st \<and> a \<notin> set dead)) \<and> seg_inv st'"
proof -
  let ?d = "reaped mode pred st"
  have st': "n = length ?d" "st' = fold free_segment ?d st"
    using assms(2,3) by (simp_all add: reaper_sweep_free)
  have ok: "\<forall>a \<in> set ?d. seg_ok a" and z: "0 \<notin> set ?d"
    using reaped_ok [OF assms(1)] by (auto simp: seg_ok_def)
  have inv: "pm_ready st" "distinct (g_index st)" using assms(1) by (auto simp: seg_inv_def)
  have "set ?d = {a \<in> set (g_index st). retired (headers st a) \<and> live_chunks (headers st a) = 0 \<and>
      (mode = Conservative \<longrightarrow> (\<forall>p. pred = Some p \<longrightarrow> p (alloc_site (headers st a))))}"
    using assms(1,2) by (auto simp: reaped_def eligible_iff seg_inv_def seg_ok_def)
  moreover have man: "\<forall>a. seg_ok a \<longrightarrow> (is_managed a st' \<longleftrightarrow> is_managed a st \<and> a \<notin> set ?d)"
    using pfree.member_fold_del [OF inv(1) ok] st'(2) by auto
  moreover note fold_free_index [OF inv(2) z] pfree.inv_fold_del [OF inv(1) ok]
  moreover from this man have "seg_inv st'"
    using assms(1) by (auto simp: seg_inv_def st'(2))
  ultimately show ?thesis
    using inv(2) st' by (intro exI [of _ ?d]) (simp add: reaped_def)
qed

lemma decommit_fields [simp]:
  "g_index (decommit_segment env a st) = g_index st"
  "pagemap (decommit_segment env a st) = pagemap st"
  "unmapped (syscalls (decommit_segment env a st)) = unmapped (syscalls st)"
  by (simp_all add: decommit_segment_def upd_header_def log_call_def Let_def)

lemma headers_decommit:
  assumes "0 < os_pagesize env" and "os_pagesize env < 0x200000"
  shows "headers (decommit_segment env a st) = (headers st)(a := (headers st a)\<lparr>decommitted := True\<rparr>)"
  using assms by (simp add: decommit_segment_def upd_header_def log_call_def Let_def SEGMENT_SIZE_eq)

lemma fold_decommit:
  assumes "0 < os_pagesize env" and "os_pagesize env < 0x200000"
  shows "g_index (fold (decommit_segment env) el st) = g_index st \<and>
    pagemap (fold (decommit_segment env) el st) = pagemap st \<and>
    unmapped (syscalls (fold (decommit_segment env) el st)) = unmapped (syscalls st) \<and>
    headers (fold (decommit_segment env) el st) =
      (\<lambda>a. if a \<in> set el then (headers st a)\<lparr>decommitted := True\<rparr> else headers st a)"
  by (induction el arbitrary: st) (simp_all add: headers_decommit [OF assms] fun_eq_iff)

text \<open>
  A sweep in madvise mode unmaps nothing and keeps every segment registered; it marks the
  retired empty segments it has not yet returned as decommitted, and a second sweep finds none.
\<close>

theorem reaper_madvise_once:
  assumes "seg_inv st" and "0 < os_pagesize env" and "os_pagesize env < 0x200000"
    and "reaper_sweep env Madvise pred st = (n, st')"
  shows "unmapped (syscalls st') = unmapped (syscalls st) \<and> g_index st' = g_index st \<and>
    (\<forall>a. is_managed a st' = is_managed a st) \<and>
    (\<forall>a \<in> set (g_index st). decommitted (headers st' a) \<longleftrightarrow>
       decommitted (headers st a) \<or> retired (headers st a) \<and> live_chunks (headers st a) = 0) \<and>
    fst (reaper_sweep env Madvise pred st') = 0"
proof -
  let ?d = "reaped Madvise pred st"
  have st': "st' = fold (decommit_segment env) ?d st"
    using assms(4) by (simp add: reaper_sweep_def reaped_def Let_def)
  note f = fold_decommit [OF assms(2,3), of ?d st, folded st']
  have nz: "\<forall>a \<in> set (g_index st). a \<noteq> 0" using assms(1) by (auto simp: seg_inv_def seg_ok_def)
  have d: "\<forall>a \<in> set (g_index st). decommitted (headers st' a) \<longleftrightarrow>
       decommitted (headers st a) \<or> retired (headers st a) \<and> live_chunks (headers st a) = 0"
    using f nz by (auto simp: reaped_def eligible_iff)
  have rl: "retired (headers st' a) = retired (headers st a)"
    "live_chunks (headers st' a) = live_chunks (headers st a)" for a
    using f by simp_all
  have "reaped Madvise pred st' = []"
    using f d rl by (auto simp: reaped_def filter_empty_conv eligible_iff)
  then have "fst (reaper_sweep env Madvise pred st') = 0"
    by (simp add: reaper_sweep_def reaped_def Let_def)
  moreover have "\<forall>a. is_managed a st' = is_managed a st" using f is_managed_cong by blast
  ultimately show ?thesis using f d by blast
qed

lemma register_inv:
  assumes "seg_inv st" and "seg_ok h" and "h \<notin> set (g_index st)"
  shows "seg_inv (register_segment h st)"
proof -
  have st: "pm_ready st" "distinct (g_index st)" "\<forall>a \<in> set (g_index st). seg_ok a \<and> is_managed a st"
    using assms(1) by (simp_all add: seg_inv_def)
  have "pm_ready (register_segment h st)" by (rule pmap.inv_ins [OF st(1) assms(2)])
  moreover have "seg_ok a \<and> is_managed a (register_segment h st)" if "a \<in> insert h (set (g_index st))" for a
    using that st(3) assms(2) pmap.member_ins [OF st(1) assms(2), of a] by auto
  moreover have "distinct (g_index (register_segment h st)) \<and>
      set (g_index (register_segment h st)) \<subseteq> insert h (set (g_index st))"
    using st(2) assms(3) by (auto simp: register_segment_def Let_def)
  ultimately show ?thesis unfolding seg_inv_def by blast
qed

lemma alloc_segment_ok:
  assumes "seg_inv st" and "os_mmap env = Some lo" and "unat lo + 0x400000 \<le> 2 ^ 47" and "lo \<noteq> 0"
    and "alloc_segment env s slot site csize st = (r, st')"
    and "\<forall>a \<in> set (g_index st). \<not> (unat lo \<le> unat a \<and> unat a < unat lo + 0x400000)"
  shows "\<exists>h cs. r = Some h \<and> seg_ok h \<and> syscalls st' = syscalls st @ cs \<and>
    {unat h ..< unat h + 0x200000} \<union> unmapped cs = {unat lo ..< unat lo + 0x400000} \<and>
    {unat h ..< unat h + 0x200000} \<inter> unmapped cs = {} \<and>
    headers st' = (headers st)(h := new_header s slot site (os_tid env) csize h) \<and>
    (\<forall>p. in_segment p h \<longrightarrow> seg_of p = h \<and> is_managed (seg_of p) st') \<and>
    (\<forall>a. seg_ok a \<longrightarrow> a \<noteq> h \<longrightarrow> is_managed a st' = is_managed a st) \<and> seg_inv st' \<and>
    set (g_index st') \<subseteq> insert h (set (g_index st))"
proof -
  obtain r0 cs where m: "aligned_mmap_2mib (Some lo) (want_hugepage env site) = (r0, cs)"
    by fastforce
  have "unat lo + 0x400000 < 2 ^ 64" using assms(3) by simp
  from aligned_mmap_Some [OF m this] obtain h where h: "r0 = Some h" "seg_aligned h"
    and u: "{unat h ..< unat h + 0x200000} \<union> unmapped cs = {unat lo ..< unat lo + 0x400000}"
    and d: "{unat h ..< unat h + 0x200000} \<inter> unmapped cs = {}"
    by blast
  have "unat h \<in> {unat lo ..< unat lo + 0x400000}" unfolding u [symmetric] by simp
  then have lo: "unat lo \<le> unat h" "unat h < unat lo + 0x400000" by simp_all
  have ok: "seg_ok h"
    using h(2) lo assms(3,4) unat_gt_0 [of lo] by (auto simp: seg_ok_def)
  define st1 where "st1 = upd_header h (\<lambda>_. new_header s slot site (os_tid env) csize h) (log_call cs st)"
  have st1: "pagemap st1 = pagemap st" "g_index st1 = g_index st" "syscalls st1 = syscalls st @ cs"
    "headers st1 = (headers st)(h := new_header s slot site (os_tid env) csize h)"
    by (simp_all add: st1_def upd_header_def log_call_def)
  have r: "r = Some h" "st' = register_segment h st1"
    using assms(2,5) m h(1) by (simp_all add: alloc_segment_def st1_def)
  have inv1: "seg_inv st1"
    using assms(1) st1 is_managed_cong [of st1 st] by (simp add: seg_inv_def pm_ready_def)
  have "h \<notin> set (g_index st1)" using assms(6) lo st1(2) by auto
  then have inv: "seg_inv st'" unfolding r(2) by (rule register_inv [OF inv1 ok])
  have man: "is_managed a st' \<longleftrightarrow> a = h \<or> is_managed a st" if "seg_ok a" for a
    using pmap.member_ins [OF _ ok that, of st1] inv1 is_managed_cong [OF st1(1)] r(2)
    by (simp add: seg_inv_def)
  have "headers st' = headers st1" "syscalls st' = syscalls st1"
    by (simp_all add: r(2) register_segment_def Let_def)
  moreover have "set (g_index st') \<subseteq> insert h (set (g_index st))"
    using st1(2) by (auto simp: r(2) register_segment_def Let_def)
  ultimately show ?thesis
    using r(1) ok st1 u d man inv seg_of_eq [OF h(2)] by (intro exI [of _ h] exI [of _ cs]) simp
qed

lemma seg_inv_cong:
  "pagemap st = pagemap st' \<Longrightarrow> g_index st = g_index st' \<Longrightarrow> seg_inv st = seg_inv st'"
  using is_managed_cong [of st st'] by (simp add: seg_inv_def pm_ready_def)

text \<open>
  A segment obtained from \<open>mmap\<close> is aligned, lies in the mapped range with everything else
  of that range unmapped again, carries the initial header, and is registered: every address
  inside it leads back to its header, which answers \<open>is_managed\<close>.  Other segments keep their
  headers and their registration.
\<close>

theorem alloc_segment_registers:
  assumes "seg_inv st" and "os_mmap env = Some lo" and "unat lo + 0x400000 \<le> 2 ^ 47" and "lo \<noteq> 0"
    and "alloc_segment env s slot site csize st = (r, st')"
    and "\<forall>a \<in> set (g_index st). \<not> (unat lo \<le> unat a \<and> unat a < unat lo + 0x400000)"
  shows "\<exists>h cs. r = Some h \<and> seg_ok h \<and> syscalls st' = syscalls st @ cs \<and>
    {unat h ..< unat h + 0x200000} \<union> unmapped cs = {unat lo ..< unat lo + 0x400000} \<and>
    {unat h ..< unat h + 0x200000} \<inter> unmapped cs = {} \<and>
    headers st' = (headers st)(h := new_header s slot site (os_tid env) csize h) \<and>
    (\<forall>p. in_segment p h \<longrightarrow> seg_of p = h \<and> is_managed (seg_of p) st') \<and>
    (\<forall>a. seg_ok a \<longrightarrow> a \<noteq> h \<longrightarrow> is_managed a st' = is_managed a st) \<and> seg_inv st'"
  using alloc_segment_ok [OF assms] by blast

text \<open>
  From an empty pagemap, after any sequence of registrations and unregistrations of segment
  bases, \<open>is_managed\<close> of a base says exactly whether it is currently registered.
\<close>

theorem is_managed_iff_registered:
  assumes "pagemap st = Some (\<lambda>_. 0)" and "\<forall>x \<in> set ops. seg_ok (reg_key x)" and "seg_ok a"
  shows "is_managed a (reg_run register_segment unregister_segment ops st) \<longleftrightarrow> a \<in> reg_spec ops {}"
proof (rule pmap.member_run [OF _ assms(2,3)])
  show "pm_ready st" using assms(1) by (simp add: pm_ready_def)
  show "\<And>j. seg_ok j \<Longrightarrow> is_managed j st \<longleftrightarrow> j \<in> {}"
    using assms(1) by (simp add: is_managed_iff pm_bit_def)
qed


text \<open>Two registered retired segments, the first empty and the second with one live chunk.\<close>

definition demo_segs :: seg_state where
  "demo_segs =
     \<lparr>headers = (\<lambda>a. (new_header ThreadLocalFreeList 0 9 1 64 a)
                       \<lparr>retired := True, live_chunks := (if a = 0x400000 then 1 else 0)\<rparr>),
      g_index = [0x200000, 0x400000], pagemap = Some ((\<lambda>_. 0)(0 := 6)), words = (\<lambda>_. 0),
      syscalls = []\<rparr>"

definition demo_env :: os_env where
  "demo_env = \<lparr>os_mmap = Some 0x1234000, os_pagesize = 4096, os_tid = 1, os_thp = Auto, os_thp_pred = None\<rparr>"

lemma demo_segs_inv: "seg_inv demo_segs"
  by (simp add: seg_inv_def pm_ready_def demo_segs_def seg_ok_def seg_aligned_def is_managed_def
      SEGMENT_SHIFT_def PM_SLOTS_def push_bit_eq_mult drop_bit_eq_div Let_def word_le_nat_alt)

theorem reaper_sweep_sound_witness:
  "\<exists>st'. reaper_sweep demo_env Eager None demo_segs = (1, st') \<and>
    \<not> is_managed 0x200000 st' \<and> is_managed 0x400000 st'"
proof -
  obtain n st' where r: "reaper_sweep demo_env Eager None demo_segs = (n, st')" by fastforce
  have s: "{a \<in> set (g_index demo_segs). retired (headers demo_segs a) \<and>
      live_chunks (headers demo_segs a) = 0 \<and> (Eager = Conservative \<longrightarrow>
        (\<forall>p. None = Some p \<longrightarrow> p (alloc_site (headers demo_segs a))))} = {0x200000}"
    by (auto simp: demo_segs_def)
  have ok: "seg_ok 0x200000" "seg_ok 0x400000" "is_managed 0x400000 demo_segs"
    using demo_segs_inv by (simp_all add: seg_inv_def demo_segs_def)
  from reaper_sweep_sound [OF demo_segs_inv _ r] s obtain dead where
    d: "distinct dead" "n = length dead" "set dead = {0x200000}"
    and m: "\<forall>a. seg_ok a \<longrightarrow> (is_managed a st' \<longleftrightarrow> is_managed a demo_segs \<and> a \<notin> set dead)"
    by auto
  have "n = 1" using distinct_card [OF d(1)] d(2,3) by simp
  moreover have "\<not> is_managed 0x200000 st'" "is_managed 0x400000 st'"
    using m ok unfolding d(3) by simp_all
  ultimately show ?thesis using r by blast
qed

theorem reaper_madvise_once_witness:
  "\<exists>n st'. reaper_sweep demo_env Madvise None demo_segs = (n, st') \<and>
    decommitted (headers st' 0x200000) \<and> \<not> decommitted (headers st' 0x400000) \<and>
    fst (reaper_sweep demo_env Madvise None st') = 0"
proof -
  obtain n st' where r: "reaper_sweep demo_env Madvise None demo_segs = (n, st')" by fastforce
  have p: "0 < os_pagesize demo_env" "os_pagesize demo_env < 0x200000"
    by (simp_all add: demo_env_def)
  from reaper_madvise_once [OF demo_segs_inv p r] r show ?thesis
    by (auto simp: demo_segs_def new_header_def)
qed

theorem alloc_segment_registers_witness:
  "\<exists>h st'. alloc_segment demo_env BumpAlloc 3 7 48 demo_segs = (Some h, st') \<and>
    (\<forall>p. in_segment p h \<longrightarrow> is_managed (seg_of p) st')"
proof -
  obtain r st' where a: "alloc_segment demo_env BumpAlloc 3 7 48 demo_segs = (r, st')" by fastforce
  have "os_mmap demo_env = Some 0x1234000" by (simp add: demo_env_def)
  moreover have "\<forall>a \<in> set (g_index demo_segs).
      \<not> (unat (0x1234000 :: addr) \<le> unat a \<and> unat a < unat (0x1234000 :: addr) + 0x400000)"
    by (simp add: demo_segs_def)
  ultimately obtain h where "r = Some h" "\<forall>p. in_segment p h \<longrightarrow> seg_of p = h \<and> is_managed (seg_of p) st'"
    using alloc_segment_registers [OF demo_segs_inv _ _ _ a, of "0x1234000"] by auto
  with a show ?thesis by auto
qed

theorem is_managed_iff_registered_witness:
  "is_managed 0x600000 (reg_run register_segment unregister_segment
     [Ins 0x600000, Ins 0x800000, Del 0x800000] (demo_segs\<lparr>pagemap := Some (\<lambda>_. 0)\<rparr>))"
  using is_managed_iff_registered [of "demo_segs\<lparr>pagemap := Some (\<lambda>_. 0)\<rparr>"
      "[Ins 0x600000, Ins 0x800000, Del 0x800000]" "0x600000"]
  by (simp add: seg_ok_def seg_aligned_def)

end
