(* ===== verification/Remote_Free.thy ===== *)
theory Remote_Free
  imports Segment
begin

text \<open>
  The remote-free queue of \<open>segment.cpp\<close> under interleaving: any number of threads run
  \<open>mpsc_push\<close> one memory access at a time while the owner runs \<open>mpsc_harvest\<close>.  The state is the
  queue's root, the link word of every chunk and the program counter of every pusher; two logs
  record the completed pushes and the harvested chains.
\<close>

section \<open>Chains\<close>

fun linked :: "(addr \<Rightarrow> addr) \<Rightarrow> addr \<Rightarrow> addr list \<Rightarrow> bool" where
  "linked nx h [] \<longleftrightarrow> h = 0"
| "linked nx h (x # xs) \<longleftrightarrow> h = x \<and> x \<noteq> 0 \<and> linked nx (nx x) xs"

lemma linked_unique: "linked nx h xs \<Longrightarrow> linked nx h ys \<Longrightarrow> xs = ys"
proof (induction xs arbitrary: h ys)
  case Nil
  then show ?case by (cases ys) auto
next
  case (Cons x xs)
  then show ?case by (cases ys) auto
qed

lemma linked_frame: "linked nx h xs \<Longrightarrow> c \<notin> set xs \<Longrightarrow> linked (nx(c := v)) h xs"
  by (induction xs arbitrary: h) auto

lemma linked_nonzero: "linked nx h xs \<Longrightarrow> 0 \<notin> set xs"
  by (induction xs arbitrary: h) auto

section \<open>Steps\<close>

text \<open>
  A pusher has loaded the root into \<open>cur\<close>, then stored it into its chunk, then tries the
  exchange; a failed exchange reloads \<open>cur\<close>.
\<close>

datatype pusher = Idle | Loaded addr addr | Stored addr addr

primrec chunk_of :: "pusher \<Rightarrow> addr option" where
  "chunk_of Idle = None"
| "chunk_of (Loaded c cur) = Some c"
| "chunk_of (Stored c cur) = Some c"

record mpsc =
  root :: addr
  link :: "addr \<Rightarrow> addr"
  pushers :: "nat \<Rightarrow> pusher"
  pushed :: "addr list"
  harvested :: "addr list list"

definition mpsc_init :: "(addr \<Rightarrow> addr) \<Rightarrow> mpsc" where
  "mpsc_init nx = \<lparr>root = 0, link = nx, pushers = (\<lambda>_. Idle), pushed = [], harvested = []\<rparr>"

text \<open>
  The caller of \<open>begin_push\<close> frees a chunk it holds: the chunk is not null, is not being pushed by
  another thread and is not on the queue.
\<close>

inductive mpsc_step :: "mpsc \<Rightarrow> mpsc \<Rightarrow> bool" where
  begin_push: "pushers s t = Idle \<Longrightarrow> c \<noteq> 0 \<Longrightarrow> \<forall>u. chunk_of (pushers s u) \<noteq> Some c \<Longrightarrow>
     \<forall>xs. linked (link s) (root s) xs \<longrightarrow> c \<notin> set xs \<Longrightarrow>
     mpsc_step s (s\<lparr>pushers := (pushers s)(t := Loaded c (root s))\<rparr>)"
| store_link: "pushers s t = Loaded c cur \<Longrightarrow>
     mpsc_step s (s\<lparr>link := (link s)(c := cur), pushers := (pushers s)(t := Stored c cur)\<rparr>)"
| cas_success: "pushers s t = Stored c cur \<Longrightarrow> root s = cur \<Longrightarrow>
     mpsc_step s (s\<lparr>root := c, pushers := (pushers s)(t := Idle), pushed := c # pushed s\<rparr>)"
| cas_failure: "pushers s t = Stored c cur \<Longrightarrow>
     mpsc_step s (s\<lparr>pushers := (pushers s)(t := Loaded c (root s))\<rparr>)"
| harvest: "linked (link s) (root s) xs \<Longrightarrow>
     mpsc_step s (s\<lparr>root := 0, harvested := xs # harvested s\<rparr>)"

inductive mpsc_reach :: "(addr \<Rightarrow> addr) \<Rightarrow> mpsc \<Rightarrow> bool" where
  reach_init: "mpsc_reach nx (mpsc_init nx)"
| reach_step: "mpsc_reach nx s \<Longrightarrow> mpsc_step s s' \<Longrightarrow> mpsc_reach nx s'"

text \<open>
  The chain hanging off the root, the chunks in flight, and the link each \<open>Stored\<close> pusher has
  written.
\<close>

definition mpsc_inv :: "mpsc \<Rightarrow> bool" where
  "mpsc_inv s \<longleftrightarrow> (\<exists>xs. linked (link s) (root s) xs \<and> distinct xs \<and>
     pushed s = xs @ concat (harvested s) \<and>
     (\<forall>t c. chunk_of (pushers s t) = Some c \<longrightarrow> c \<noteq> 0 \<and> c \<notin> set xs) \<and>
     (\<forall>t u c. chunk_of (pushers s t) = Some c \<longrightarrow> chunk_of (pushers s u) = Some c \<longrightarrow> t = u) \<and>
     (\<forall>t c cur. pushers s t = Stored c cur \<longrightarrow> link s c = cur))"

lemma mpsc_init_inv: "mpsc_inv (mpsc_init nx)"
  unfolding mpsc_inv_def mpsc_init_def by (intro exI [of _ "[]"]) simp

lemma mpsc_step_inv:
  assumes "mpsc_step s s'" and "mpsc_inv s"
  shows "mpsc_inv s'"
proof -
  obtain xs where l: "linked (link s) (root s) xs" and d: "distinct xs"
    and p: "pushed s = xs @ concat (harvested s)"
    and f: "\<And>t c. chunk_of (pushers s t) = Some c \<Longrightarrow> c \<noteq> 0 \<and> c \<notin> set xs"
    and u: "\<And>t u c. chunk_of (pushers s t) = Some c \<Longrightarrow> chunk_of (pushers s u) = Some c \<Longrightarrow> t = u"
    and k: "\<And>t c cur. pushers s t = Stored c cur \<Longrightarrow> link s c = cur"
    using assms(2) unfolding mpsc_inv_def by blast
  from assms(1) show ?thesis
  proof cases
    case (begin_push t c)
    then have "c \<notin> set xs" using l by blast
    with begin_push l d p f u k show ?thesis
      unfolding mpsc_inv_def by (intro exI [of _ xs]) (auto split: if_splits)
  next
    case (store_link t c cur)
    have c: "c \<noteq> 0" "c \<notin> set xs" using f [of t c] store_link by auto
    have "\<forall>v cur'. v \<noteq> t \<longrightarrow> pushers s v \<noteq> Stored c cur'"
      using u [of t c] store_link by (metis chunk_of.simps(2,3))
    with c store_link linked_frame [OF l c(2)] d p f u k show ?thesis
      unfolding mpsc_inv_def by (intro exI [of _ xs]) (auto split: if_splits)
  next
    case (cas_success t c cur)
    have c: "c \<noteq> 0" "c \<notin> set xs" "link s c = root s"
      using f [of t c] k [of t c cur] cas_success by auto
    have o: "\<forall>v. v \<noteq> t \<longrightarrow> chunk_of (pushers s v) \<noteq> Some c"
      using u [of t c] cas_success by (metis chunk_of.simps(3))
    show ?thesis
      unfolding mpsc_inv_def using c o l d p f u k cas_success
      by (intro exI [of _ "c # xs"]) (auto split: if_splits)
  next
    case (cas_failure t c cur)
    with l d p f f [of t c] u k show ?thesis
      unfolding mpsc_inv_def by (intro exI [of _ xs]) (auto split: if_splits)
  next
    case (harvest ys)
    then have "ys = xs" using linked_unique l by blast
    with harvest p f u k show ?thesis
      unfolding mpsc_inv_def by (intro exI [of _ "[]"]) auto
  qed
qed

lemma mpsc_reach_inv: "mpsc_reach nx s \<Longrightarrow> mpsc_inv s"
  by (induction rule: mpsc_reach.induct) (auto intro: mpsc_init_inv mpsc_step_inv)

text \<open>
  C15: In every interleaving of pushes and harvests the chain at the root is finite and acyclic,
  and the chunks whose push has completed are, newest first, those of the current chain followed
  by those already harvested: no remote free is lost and none is delivered twice.
\<close>

theorem mpsc_no_chunk_lost:
  assumes "mpsc_reach nx s"
  shows "\<exists>xs. linked (link s) (root s) xs \<and> distinct xs \<and> pushed s = xs @ concat (harvested s)"
  using mpsc_reach_inv [OF assms] unfolding mpsc_inv_def by blast

text \<open>
  Two threads free the chunks 16 and 32; the second loses the exchange, retries and wins.
\<close>

definition demo_push :: "nat \<Rightarrow> mpsc" where
  "demo_push n =
     (let s0 = mpsc_init (\<lambda>_. 0);
          s1 = s0\<lparr>pushers := (pushers s0)(0 := Loaded 16 (root s0))\<rparr>;
          s2 = s1\<lparr>pushers := (pushers s1)(1 := Loaded 32 (root s1))\<rparr>;
          s3 = s2\<lparr>link := (link s2)(16 := 0), pushers := (pushers s2)(0 := Stored 16 0)\<rparr>;
          s4 = s3\<lparr>link := (link s3)(32 := 0), pushers := (pushers s3)(1 := Stored 32 0)\<rparr>;
          s5 = s4\<lparr>root := 16, pushers := (pushers s4)(0 := Idle), pushed := 16 # pushed s4\<rparr>;
          s6 = s5\<lparr>pushers := (pushers s5)(1 := Loaded 32 (root s5))\<rparr>;
          s7 = s6\<lparr>link := (link s6)(32 := 16), pushers := (pushers s6)(1 := Stored 32 16)\<rparr>;
          s8 = s7\<lparr>root := 32, pushers := (pushers s7)(1 := Idle), pushed := 32 # pushed s7\<rparr>
      in [s0, s1, s2, s3, s4, s5, s6, s7, s8] ! n)"

lemma linked_null: "linked nx 0 xs \<longleftrightarrow> xs = []"
  by (cases xs) auto

lemma demo_push_steps: "n < 8 \<Longrightarrow> mpsc_step (demo_push n) (demo_push (Suc n))"
proof -
  have "mpsc_step (demo_push 0) (demo_push 1)"
    using begin_push [of "demo_push 0" 0 16] by (simp add: demo_push_def mpsc_init_def Let_def linked_null)
  moreover have "mpsc_step (demo_push 1) (demo_push 2)"
    using begin_push [of "demo_push 1" 1 32] by (simp add: demo_push_def mpsc_init_def Let_def linked_null)
  moreover have "mpsc_step (demo_push 2) (demo_push 3)"
    using store_link [of "demo_push 2" 0 16 0] by (simp add: demo_push_def mpsc_init_def Let_def)
  moreover have "mpsc_step (demo_push 3) (demo_push 4)"
    using store_link [of "demo_push 3" 1 32 0] by (simp add: demo_push_def mpsc_init_def Let_def)
  moreover have "mpsc_step (demo_push 4) (demo_push 5)"
    using cas_success [of "demo_push 4" 0 16 0] by (simp add: demo_push_def mpsc_init_def Let_def)
  moreover have "mpsc_step (demo_push 5) (demo_push 6)"
    using cas_failure [of "demo_push 5" 1 32 0] by (simp add: demo_push_def mpsc_init_def Let_def)
  moreover have "mpsc_step (demo_push 6) (demo_push 7)"
    using store_link [of "demo_push 6" 1 32 16] by (simp add: demo_push_def mpsc_init_def Let_def)
  moreover have "mpsc_step (demo_push 7) (demo_push 8)"
    using cas_success [of "demo_push 7" 1 32 16] by (simp add: demo_push_def mpsc_init_def Let_def)
  ultimately show "n < 8 \<Longrightarrow> ?thesis"
    by (auto simp: less_Suc_eq numeral_eq_Suc)
qed

lemma demo_push_reach: "n \<le> 8 \<Longrightarrow> mpsc_reach (\<lambda>_. 0) (demo_push n)"
proof (induction n)
  case 0
  then show ?case using reach_init [of "\<lambda>_. 0"] by (simp add: demo_push_def Let_def)
next
  case (Suc n)
  then show ?case using reach_step demo_push_steps [of n] by auto
qed

theorem mpsc_no_chunk_lost_witness:
  "\<exists>xs. linked (link (demo_push 8)) (root (demo_push 8)) xs \<and> distinct xs \<and> [32, 16] = xs"
  using mpsc_no_chunk_lost [OF demo_push_reach [of 8]]
  by (simp add: demo_push_def mpsc_init_def Let_def)

section \<open>The sequential operations\<close>

lemma mpsc_push_linked:
  assumes "linked (words st) (remote_head (headers st seg)) xs" and "c \<noteq> 0" and "c \<notin> set xs"
  shows "linked (words (mpsc_push seg c st)) (remote_head (headers (mpsc_push seg c st) seg)) (c # xs)"
  using assms by (simp add: mpsc_push_def upd_header_def Let_def linked_frame)

end
