(* ===== verification/Slow_Init.thy ===== *)
theory Slow_Init
  imports Remote_Free
begin

text \<open>
  \<open>src/src/codegen/tls.h\<close>, \<open>tls.cpp\<close>, \<open>slow_init.h\<close> and \<open>slow_init.cpp\<close>: the thread-local slots that the
  emitted code reads, the functions it calls when a slot is empty, and the free path of managed
  chunks.  The state is the segment state and the slots of the running thread; \<open>None\<close> is a call
  that does not return to its caller: a failed assertion, an access through a null pointer, a
  division by zero or a loop that does not end.
\<close>

section \<open>Slots\<close>

definition MAX_COMPILED_SITES :: u32 where
  "MAX_COMPILED_SITES = 4096"

definition MULTI_MAX_CLASSES :: u32 where
  "MULTI_MAX_CLASSES = 4"

record BumpSlot =
  bs_ptr :: addr
  bs_end :: addr

record FreeListSlot =
  fs_head :: addr
  fs_segs :: addr

record MultiFreeListSlot =
  ms_heads :: "nat \<Rightarrow> addr"
  ms_segs :: "nat \<Rightarrow> addr"

record ArenaSlot =
  as_ptr :: addr
  as_end :: addr
  as_base :: addr

record jit_state =
  sg :: seg_state
  tl_bumps :: "u32 \<Rightarrow> BumpSlot"
  tl_freelists :: "u32 \<Rightarrow> FreeListSlot"
  tl_arenas :: "u32 \<Rightarrow> ArenaSlot"
  tl_multi_freelists :: "u32 \<Rightarrow> MultiFreeListSlot"
  g_slot_to_site :: "u32 \<Rightarrow> CallSiteID"

definition alloc_slot_index :: "u32 \<Rightarrow> u32 \<times> u32" where
  "alloc_slot_index g_next_index =
     (let idx = g_next_index
      in (if idx < MAX_COMPILED_SITES then idx else MAX_COMPILED_SITES, g_next_index + 1))"

section \<open>Slow paths\<close>

definition set_bump :: "u32 \<Rightarrow> addr \<Rightarrow> addr \<Rightarrow> jit_state \<Rightarrow> jit_state" where
  "set_bump index p e st = st\<lparr>tl_bumps := (tl_bumps st)(index := \<lparr>bs_ptr = p, bs_end = e\<rparr>)\<rparr>"

definition bump_segment ::
    "Strategy \<Rightarrow> os_env \<Rightarrow> u32 \<Rightarrow> u32 \<Rightarrow> jit_state \<Rightarrow> (addr \<times> jit_state) option" where
  "bump_segment strat env index sz st =
     (case alloc_segment env strat index (g_slot_to_site st index) sz (sg st) of
        (None, g) \<Rightarrow> None
      | (Some s, g) \<Rightarrow>
          let base = payload_start s;
              st = set_bump index (base + ucast sz) (segment_end s) st;
              g = upd_header s (\<lambda>h. h\<lparr>bump_ptr := base + ucast sz\<rparr>) g
          in Some (base, st\<lparr>sg := g\<rparr>))"

definition bump_slow_init :: "os_env \<Rightarrow> u32 \<Rightarrow> u32 \<Rightarrow> jit_state \<Rightarrow> (addr \<times> jit_state) option" where
  "bump_slow_init = bump_segment BumpAlloc"

definition paired_slow_init :: "os_env \<Rightarrow> u32 \<Rightarrow> u32 \<Rightarrow> jit_state \<Rightarrow> (addr \<times> jit_state) option" where
  "paired_slow_init = bump_segment PairedStack"

text \<open>The loop that counts a harvested chain; \<open>None\<close> is a chain without an end.\<close>

partial_function (option) drain_count :: "(addr \<Rightarrow> addr) \<Rightarrow> addr \<Rightarrow> u32 \<Rightarrow> u32 option" where
  "drain_count nx chain drained =
     (if chain = 0 then Some drained else drain_count nx (nx chain) (drained + 1))"

definition pc_retire :: "addr \<Rightarrow> seg_state \<Rightarrow> seg_state option" where
  "pc_retire active g =
     (let payload = payload_start active; h = headers g active
      in if chunk_size h = 0 then None
         else
           let served = ucast ((bump_ptr h - payload) div ucast (chunk_size h));
               (chain, g) = mpsc_harvest active g
           in case drain_count (words g) chain 0 of
                None \<Rightarrow> None
              | Some drained \<Rightarrow>
                  let outstanding = (if drained < served then served - drained else 0)
                  in Some (upd_header active (\<lambda>h. h\<lparr>live_chunks := outstanding, retired := True\<rparr>) g))"

definition pc_refill :: "os_env \<Rightarrow> u32 \<Rightarrow> u32 \<Rightarrow> jit_state \<Rightarrow> (addr \<times> jit_state) option" where
  "pc_refill env index sz st =
     (let active = seg_of (bs_end (tl_bumps st index) - 1)
      in if bs_end (tl_bumps st index) \<noteq> 0 \<and> is_managed active (sg st) \<and>
            strategy (headers (sg st) active) = ProducerConsumer
         then (case pc_retire active (sg st) of
                 None \<Rightarrow> None
               | Some g \<Rightarrow> bump_segment ProducerConsumer env index sz (st\<lparr>sg := g\<rparr>))
         else bump_segment ProducerConsumer env index sz st)"

definition paired_lifo_rewind :: "addr \<Rightarrow> addr \<Rightarrow> jit_state \<Rightarrow> bool \<times> jit_state" where
  "paired_lifo_rewind s ptr st =
     (let h = headers (sg st) s;
          slot = tl_bumps st (slot_index h);
          rewound = bs_ptr slot - ucast (chunk_size h)
      in if rewound \<noteq> ptr then (False, st)
         else (True,
               st\<lparr>tl_bumps := (tl_bumps st)(slot_index h := slot\<lparr>bs_ptr := rewound\<rparr>),
                  sg := upd_header s (\<lambda>h. h\<lparr>bump_ptr := rewound\<rparr>) (sg st)\<rparr>))"

definition dec_live :: "addr \<Rightarrow> seg_state \<Rightarrow> seg_state" where
  "dec_live s g = upd_header s (\<lambda>h. h\<lparr>live_chunks := live_chunks h - 1\<rparr>) g"

definition set_word :: "addr \<Rightarrow> addr \<Rightarrow> seg_state \<Rightarrow> seg_state" where
  "set_word a v g = g\<lparr>words := (words g)(a := v)\<rparr>"

definition free_managed :: "os_env \<Rightarrow> addr \<Rightarrow> addr \<Rightarrow> jit_state \<Rightarrow> jit_state" where
  "free_managed env s ptr st =
     (let h = headers (sg st) s; i = slot_index h
      in case strategy h of
           BumpAlloc \<Rightarrow> st
         | EpochArena \<Rightarrow> st
         | ProducerConsumer \<Rightarrow>
             (if retired h then st\<lparr>sg := dec_live s (sg st)\<rparr>
              else st\<lparr>sg := mpsc_push s ptr (sg st)\<rparr>)
         | PairedStack \<Rightarrow>
             (if owner_tid h = os_tid env then snd (paired_lifo_rewind s ptr st) else st)
         | ThreadLocalFreeList \<Rightarrow>
             (if retired h then st\<lparr>sg := dec_live s (sg st)\<rparr>
              else if owner_tid h = os_tid env
                   then st\<lparr>sg := set_word ptr (fs_head (tl_freelists st i)) (sg st),
                           tl_freelists := (tl_freelists st)
                             (i := (tl_freelists st i)\<lparr>fs_head := ptr\<rparr>)\<rparr>
              else st\<lparr>sg := mpsc_push s ptr (sg st)\<rparr>)
         | MultiSizeFreeList \<Rightarrow>
             (if retired h then st\<lparr>sg := dec_live s (sg st)\<rparr>
              else if owner_tid h = os_tid env
                   then let m = tl_multi_freelists st i; c = unat (class_idx h)
                        in st\<lparr>sg := set_word ptr (ms_heads m c) (sg st),
                              tl_multi_freelists := (tl_multi_freelists st)
                                (i := m\<lparr>ms_heads := (ms_heads m)(c := ptr)\<rparr>)\<rparr>
              else st\<lparr>sg := mpsc_push s ptr (sg st)\<rparr>)
         | Generic \<Rightarrow> st)"

text \<open>
  The carving loop: every chunk links to the one before it.  The loop ends when the next chunk
  would cross \<open>e\<close>; with a zero size it would not end.
\<close>

partial_function (option) carve ::
    "u64 \<Rightarrow> addr \<Rightarrow> addr \<Rightarrow> addr \<Rightarrow> (addr \<Rightarrow> addr) \<Rightarrow> (addr \<times> (addr \<Rightarrow> addr)) option" where
  "carve sz e p head ws =
     (if p + sz \<le> e then carve sz e (p + sz) p (ws(p := head)) else Some (head, ws))"

text \<open>Retire a drained segment: all of its chunks are with the program.\<close>

definition retire_full :: "addr \<Rightarrow> seg_state \<Rightarrow> seg_state" where
  "retire_full active g =
     upd_header active (\<lambda>h. h\<lparr>live_chunks := chunks_in_segment h, retired := True\<rparr>) g"

text \<open>
  What both refills do: serve from the remote queue of the active segment, or retire it and
  carve a new segment.  The result is the chunk, the new list head, the new active segment and
  the segment state.
\<close>

definition refill_class ::
    "Strategy \<Rightarrow> u8 \<Rightarrow> os_env \<Rightarrow> u32 \<Rightarrow> CallSiteID \<Rightarrow> u32 \<Rightarrow> addr \<Rightarrow> seg_state
      \<Rightarrow> (addr \<times> addr \<times> addr \<times> seg_state) option" where
  "refill_class strat cls env index site obj_size active g =
     (let (harvested, g) = (if active \<noteq> 0 then mpsc_harvest active g else (0, g))
      in if harvested \<noteq> 0 then Some (harvested, words g harvested, active, g)
         else
           let g = (if active \<noteq> 0 then retire_full active g else g)
           in case alloc_segment env strat index site obj_size g of
                (None, g) \<Rightarrow> None
              | (Some s, g) \<Rightarrow>
                  let g = upd_header s (\<lambda>h. h\<lparr>class_idx := cls, next_in_site := active\<rparr>) g
                  in case carve (ucast obj_size) (segment_end s) (payload_start s) 0 (words g) of
                       None \<Rightarrow> None
                     | Some (head, ws) \<Rightarrow>
                         if head = 0 then None
                         else Some (head, ws head, s, g\<lparr>words := ws\<rparr>))"

definition freelist_refill :: "os_env \<Rightarrow> u32 \<Rightarrow> u32 \<Rightarrow> jit_state \<Rightarrow> (addr \<times> jit_state) option" where
  "freelist_refill env index obj_size st =
     (if obj_size < 8 then None
      else
        let slot = tl_freelists st index
        in case refill_class ThreadLocalFreeList 0 env index (g_slot_to_site st index) obj_size
                  (fs_segs slot) (sg st) of
             None \<Rightarrow> None
           | Some (chunk, head, segs, g) \<Rightarrow>
               Some (chunk,
                 st\<lparr>sg := g,
                    tl_freelists := (tl_freelists st)(index := \<lparr>fs_head = head, fs_segs = segs\<rparr>)\<rparr>))"

definition multi_refill :: "os_env \<Rightarrow> u32 \<Rightarrow> u32 \<Rightarrow> u32 \<Rightarrow> jit_state \<Rightarrow> (addr \<times> jit_state) option" where
  "multi_refill env slot obj_size cls st =
     (if obj_size < 8 \<or> MULTI_MAX_CLASSES \<le> cls then None
      else
        let m = tl_multi_freelists st slot; c = unat cls
        in case refill_class MultiSizeFreeList (ucast cls) env slot (g_slot_to_site st slot) obj_size
                  (ms_segs m c) (sg st) of
             None \<Rightarrow> None
           | Some (chunk, head, segs, g) \<Rightarrow>
               Some (chunk,
                 st\<lparr>sg := g,
                    tl_multi_freelists := (tl_multi_freelists st)
                      (slot := \<lparr>ms_heads = (ms_heads m)(c := head),
                                 ms_segs = (ms_segs m)(c := segs)\<rparr>)\<rparr>))"

definition arena_slow_init :: "os_env \<Rightarrow> u32 \<Rightarrow> u32 \<Rightarrow> jit_state \<Rightarrow> (addr \<times> jit_state) option" where
  "arena_slow_init env index sz st =
     (case alloc_segment env EpochArena index (g_slot_to_site st index) sz (sg st) of
        (None, g) \<Rightarrow> None
      | (Some s, g) \<Rightarrow>
          let base = payload_start s
          in Some (base,
               st\<lparr>sg := g,
                  tl_arenas := (tl_arenas st)
                    (index := \<lparr>as_ptr = base + ucast sz, as_end = segment_end s, as_base = base\<rparr>)\<rparr>))"

definition arena_reset_alloc :: "os_env \<Rightarrow> u32 \<Rightarrow> u32 \<Rightarrow> jit_state \<Rightarrow> (addr \<times> jit_state) option" where
  "arena_reset_alloc env index sz st =
     (let base = as_base (tl_arenas st index)
      in if base = 0 then arena_slow_init env index sz st
         else Some (base,
           st\<lparr>tl_arenas := (tl_arenas st)(index := (tl_arenas st index)\<lparr>as_ptr := base + ucast sz\<rparr>)\<rparr>))"

section \<open>Carving a segment\<close>

definition chunk_list :: "addr \<Rightarrow> u64 \<Rightarrow> nat \<Rightarrow> addr list" where
  "chunk_list p sz n = map (\<lambda>k. p + of_nat k * sz) [0..<n]"

lemma chunk_list_Suc: "chunk_list p sz (Suc n) = p # chunk_list (p + sz) sz n"
  by (simp add: chunk_list_def upt_conv_Cons del: upt_Suc) 
    (simp add: map_Suc_upt [symmetric] algebra_simps del: upt_Suc)

lemma unat_chunk:
  fixes p sz :: u64
  assumes "unat p + n * unat sz < 2 ^ 64" and "k \<le> n"
  shows "unat (p + of_nat k * sz) = unat p + k * unat sz"
proof -
  have le: "k * unat sz \<le> n * unat sz" using assms(2) by simp
  then have lt: "k * unat sz < 2 ^ 64" using assms(1) by linarith
  have "unat (of_nat k * sz) = k * unat sz"
  proof (cases "unat sz = 0")
    case True
    then show ?thesis by (simp add: unat_eq_0)
  next
    case False
    then have "k \<le> k * unat sz" by simp
    then have "k < 2 ^ 64" using lt by linarith
    then show ?thesis using lt by (simp add: unat_word_ariths unat_of_nat)
  qed
  moreover have "unat p + k * unat sz < 2 ^ 64" using assms(1) le by linarith
  ultimately show ?thesis by (subst unat_plus_no_wrap) simp_all
qed

lemma map_unat_chunk_list:
  assumes "unat p + n * unat sz < 2 ^ 64"
  shows "map unat (chunk_list p sz n) = map (\<lambda>k. unat p + k * unat sz) [0..<n]"
  using unat_chunk [OF assms] by (simp add: chunk_list_def)

lemma carve_links:
  assumes "unat p + n * unat sz \<le> unat e" and "unat e < unat p + n * unat sz + unat sz"
    and "unat e + unat sz < 2 ^ 64" and "p \<noteq> 0" and "linked ws head xs"
    and "\<forall>x \<in> set xs. unat x < unat p"
  shows "\<exists>head' ws'. carve sz e p head ws = Some (head', ws') \<and>
    linked ws' head' (rev (chunk_list p sz n) @ xs) \<and>
    (\<forall>a. unat a < unat p \<longrightarrow> ws' a = ws a)"
  using assms
proof (induction n arbitrary: p head ws xs)
  case 0
  have "unat (p + sz) = unat p + unat sz"
    using 0 by (simp add: unat_word_ariths)
  then have "\<not> p + sz \<le> e" using 0 by (simp add: word_le_nat_alt)
  then show ?case using 0 by (subst carve.simps) (simp add: chunk_list_def)
next
  case (Suc n)
  have sz: "0 < unat sz" using Suc.prems(1,2) by simp
  have u: "unat (p + sz) = unat p + unat sz"
    using Suc.prems(1,3) by (simp add: unat_word_ariths)
  then have le: "p + sz \<le> e" using Suc.prems(1) by (simp add: word_le_nat_alt)
  have lk: "linked (ws(p := head)) p (p # xs)"
    using Suc.prems(4,5,6) by (auto intro!: linked_frame)
  have nz: "p + sz \<noteq> 0" using u sz by (metis add_is_0 less_numeral_extra(3) unat_0)
  have lt: "\<forall>x \<in> set (p # xs). unat x < unat (p + sz)"
    using Suc.prems(6) u sz by auto
  have "unat (p + sz) + n * unat sz \<le> unat e" "unat e < unat (p + sz) + n * unat sz + unat sz"
    using Suc.prems(1,2) u by simp_all
  from Suc.IH [OF this Suc.prems(3) nz lk lt] obtain head' ws' where
    r: "carve sz e (p + sz) p (ws(p := head)) = Some (head', ws')"
      "linked ws' head' (rev (chunk_list (p + sz) sz n) @ p # xs)"
      "\<forall>a. unat a < unat (p + sz) \<longrightarrow> ws' a = (ws(p := head)) a"
    by blast
  have "carve sz e p head ws = Some (head', ws')"
    using le r(1) by (subst carve.simps) simp
  moreover have "\<forall>a. unat a < unat p \<longrightarrow> ws' a = ws a" using r(3) u by auto
  ultimately show ?case using r(2) by (simp add: chunk_list_Suc)
qed


lemma unat_payload:
  assumes "seg_ok s"
  shows "unat (payload_start s) = unat s + 64" and "unat (segment_end s) = unat s + 0x200000"
  using assms by (simp_all add: seg_ok_def payload_start_def segment_end_def base_of_def
      sizeof_SegmentHeader_def SEGMENT_SIZE_eq unat_word_ariths)

lemma unat_chunks_in_segment:
  assumes "chunk_size h \<noteq> 0"
  shows "unat (chunks_in_segment h) = 0x1FFFC0 div unat (chunk_size h)"
proof -
  have u: "unat (ucast (chunk_size h) :: u64) = unat (chunk_size h)" by (simp add: unat_ucast_up)
  have "unat ((SEGMENT_SIZE - sizeof_SegmentHeader) div ucast (chunk_size h)) =
      0x1FFFC0 div unat (chunk_size h)"
    by (simp add: unat_div u SEGMENT_SIZE_eq sizeof_SegmentHeader_def)
  moreover have "0x1FFFC0 div unat (chunk_size h) \<le> 0x1FFFC0" by (rule div_le_dividend)
  then have "0x1FFFC0 div unat (chunk_size h) < 2 ^ 32" by (rule le_less_trans) simp
  ultimately show ?thesis
    using assms by (simp add: chunks_in_segment_def Let_def unsigned_ucast_eq take_bit_nat_eq_self)
qed

lemma carve_segment:
  fixes sz :: u32
  assumes "seg_ok s" and "sz \<noteq> 0" and "unat sz \<le> 0x1FFFC0"
  defines "n \<equiv> 0x1FFFC0 div unat sz"
  shows "\<exists>head ws'. carve (ucast sz) (segment_end s) (payload_start s) 0 ws = Some (head, ws') \<and>
    linked ws' head (rev (chunk_list (payload_start s) (ucast sz) n))"
proof -
  have u: "unat (ucast sz :: u64) = unat sz" by (simp add: unat_ucast_up)
  have q: "0 < unat sz" using assms(2) by (simp add: unat_gt_0)
  have "n * unat sz \<le> 0x1FFFC0" unfolding n_def by (rule div_times_less_eq_dividend)
  moreover have "0x1FFFC0 < n * unat sz + unat sz"
    unfolding n_def using q dividend_less_div_times [of "unat sz" "0x1FFFC0"] by (simp add: add.commute)
  moreover have "unat s < 2 ^ 48" using assms(1) by (simp add: seg_ok_def)
  moreover have "payload_start s \<noteq> 0"
    using unat_payload(1) [OF assms(1)] by (metis add_is_0 unat_0 zero_neq_numeral)
  ultimately show ?thesis
    using carve_links [of "payload_start s" n "ucast sz" "segment_end s" ws 0 "[]"] assms(3)
    by (auto simp: u unat_payload [OF assms(1)])
qed

lemma refill_class_carves:
  assumes "seg_inv g" and "os_mmap env = Some lo" and "unat lo + 0x400000 \<le> 2 ^ 47" and "lo \<noteq> 0"
    and "\<forall>a \<in> set (g_index g). \<not> (unat lo \<le> unat a \<and> unat a < unat lo + 0x400000)"
    and "sz \<noteq> 0" and "unat sz \<le> 0x1FFFC0"
    and "active = 0 \<or> \<not> (unat lo \<le> unat active \<and> unat active < unat lo + 0x400000) \<and> remote_head (headers g active) = 0"
  shows "\<exists>chunk head s g' xs. refill_class strat cls env index site sz active g = Some (chunk, head, s, g') \<and>
    linked (words g') head xs \<and> head = words g' chunk \<and> chunk \<noteq> 0 \<and>
    chunk # xs = rev (chunk_list (payload_start s) (ucast sz) (0x1FFFC0 div unat sz)) \<and>
    seg_ok s \<and> s \<notin> set (g_index g) \<and> is_managed s g' \<and> seg_inv g' \<and>
    headers g' s = (new_header strat index site (os_tid env) sz s)\<lparr>class_idx := cls, next_in_site := active\<rparr> \<and>
    (active \<noteq> 0 \<longrightarrow> headers g' active =
      (headers g active)\<lparr>live_chunks := chunks_in_segment (headers g active), retired := True\<rparr>) \<and>
    active \<noteq> s \<and> unat lo \<le> unat s \<and> unat s < unat lo + 0x400000 \<and> (\<forall>a. a \<noteq> s \<longrightarrow> a \<noteq> active \<longrightarrow> headers g' a = headers g a) \<and>
    (\<forall>a. seg_ok a \<longrightarrow> a \<noteq> s \<longrightarrow> is_managed a g' = is_managed a g)"
proof -
  define g1 where "g1 = (if active \<noteq> 0 then retire_full active (snd (mpsc_harvest active g)) else g)"
  have g1: "pagemap g1 = pagemap g" "g_index g1 = g_index g" "words g1 = words g"
    by (simp_all add: g1_def retire_full_def mpsc_harvest_def upd_header_def)
  have g1h: "active \<noteq> 0 \<Longrightarrow> headers g1 active =
      (headers g active)\<lparr>live_chunks := chunks_in_segment (headers g active), retired := True\<rparr>"
    using assms(8) by (auto simp: g1_def retire_full_def mpsc_harvest_def upd_header_def chunks_in_segment_def)
  have g1o: "a \<noteq> active \<Longrightarrow> headers g1 a = headers g a" for a
    by (simp add: g1_def retire_full_def mpsc_harvest_def upd_header_def)
  have inv1: "seg_inv g1" using assms(1) g1 seg_inv_cong by blast
  obtain r g2 where a: "alloc_segment env strat index site sz g1 = (r, g2)" by fastforce
  from alloc_segment_ok [OF inv1 assms(2-4) a] assms(5) g1(2)
  obtain s where s: "r = Some s" "seg_ok s"
    "headers g2 = (headers g1)(s := new_header strat index site (os_tid env) sz s)"
    "\<forall>p. in_segment p s \<longrightarrow> seg_of p = s \<and> is_managed (seg_of p) g2" "seg_inv g2"
    "\<forall>a. seg_ok a \<longrightarrow> a \<noteq> s \<longrightarrow> is_managed a g2 = is_managed a g1"
    and lo: "{unat s ..< unat s + 0x200000} \<subseteq> {unat lo ..< unat lo + 0x400000}"
    by (metis Un_upper1)
  have "unat s \<in> {unat s ..< unat s + 0x200000}" by simp
  then have "unat s \<in> {unat lo ..< unat lo + 0x400000}" using lo by blast
  then have inlo: "unat lo \<le> unat s" "unat s < unat lo + 0x400000" by auto
  then have fresh: "s \<notin> set (g_index g)" and other: "active \<noteq> s"
    using assms(5,8) s(2) by (auto simp: seg_ok_def)
  have man: "is_managed a (g2\<lparr>words := w\<rparr>) = is_managed a g" if "seg_ok a" "a \<noteq> s" for a w
    using s(6) that is_managed_cong [OF g1(1)] is_managed_cong [of "g2\<lparr>words := w\<rparr>" g2] by simp
  define g3 where "g3 = upd_header s (\<lambda>h. h\<lparr>class_idx := cls, next_in_site := active\<rparr>) g2"
  obtain chunk ws where c: "carve (ucast sz) (segment_end s) (payload_start s) 0 (words g3) = Some (chunk, ws)"
    and l: "linked ws chunk (rev (chunk_list (payload_start s) (ucast sz) (0x1FFFC0 div unat sz)))"
    using carve_segment [OF s(2) assms(6,7)] by blast
  have "0 < 0x1FFFC0 div unat sz" using assms(6,7) by (simp add: div_greater_zero_iff unat_gt_0)
  then obtain x xs where x: "rev (chunk_list (payload_start s) (ucast sz) (0x1FFFC0 div unat sz)) = x # xs"
    by (cases "rev (chunk_list (payload_start s) (ucast sz) (0x1FFFC0 div unat sz))")
      (auto simp: chunk_list_def)
  have h: "chunk = x" "chunk \<noteq> 0" "linked ws (ws chunk) xs" using l x by auto
  have "fst (mpsc_harvest active g) = 0 \<or> active = 0" using assms(8) by (auto simp: mpsc_harvest_def)
  then have "refill_class strat cls env index site sz active g = Some (chunk, ws chunk, s, g3\<lparr>words := ws\<rparr>)"
    using a s(1) c h(2) by (auto simp: refill_class_def Let_def split_beta g1_def g3_def mpsc_harvest_def)
  moreover have "in_segment s s" by (simp add: in_segment_def)
  then have "is_managed s g2" using s(4) by metis
  then have "is_managed s (g3\<lparr>words := ws\<rparr>)"
    using is_managed_cong [of "g3\<lparr>words := ws\<rparr>" g2] by (simp add: g3_def upd_header_def)
  moreover have "seg_inv (g3\<lparr>words := ws\<rparr>)"
    using s(5) seg_inv_cong [of "g3\<lparr>words := ws\<rparr>" g2] by (simp add: g3_def upd_header_def)
  moreover have "is_managed a (g3\<lparr>words := ws\<rparr>) = is_managed a g" if "seg_ok a" "a \<noteq> s" for a
    using man [OF that] is_managed_cong [of "g3\<lparr>words := ws\<rparr>" "g2\<lparr>words := ws\<rparr>"] by (simp add: g3_def upd_header_def)
  ultimately show ?thesis
    using h x s(2,3) fresh g1h g1o other inlo
    by (intro exI [of _ chunk] exI [of _ "ws chunk"] exI [of _ s] exI [of _ "g3\<lparr>words := ws\<rparr>"] exI [of _ xs])
      (auto simp: g3_def upd_header_def)
qed

lemma chunk_list_layout:
  fixes sz :: u32
  assumes "seg_ok s" and "chunk # xs = rev (chunk_list (payload_start s) (ucast sz) (0x1FFFC0 div unat sz))"
    and "chunk_size h = sz" and "sz \<noteq> 0"
  shows "map unat (rev (chunk # xs)) =
      map (\<lambda>k. unat s + 64 + k * unat sz) [0..<unat (chunks_in_segment h)]"
    and "unat (chunks_in_segment h) * unat sz \<le> 0x200000 - 64"
proof -
  let ?n = "0x1FFFC0 div unat sz"
  have n: "unat (chunks_in_segment h) = ?n" using assms(3,4) by (simp add: unat_chunks_in_segment)
  have le: "?n * unat sz \<le> 0x1FFFC0" by (rule div_times_less_eq_dividend)
  then show "unat (chunks_in_segment h) * unat sz \<le> 0x200000 - 64" by (simp add: n)
  have u: "unat (ucast sz :: u64) = unat sz" by (simp add: unat_ucast_up)
  have "unat s < 281474976710656" using assms(1) by (simp add: seg_ok_def)
  then have "unat s + 64 + ?n * unat sz < 18446744073709551616" using le by linarith
  then have "unat (payload_start s) + ?n * unat (ucast sz :: u64) < 2 ^ 64"
    by (simp only: u unat_payload(1) [OF assms(1)]) simp
  from map_unat_chunk_list [OF this]
  show "map unat (rev (chunk # xs)) =
      map (\<lambda>k. unat s + 64 + k * unat sz) [0..<unat (chunks_in_segment h)]"
    unfolding assms(2) n rev_rev_ident by (simp add: u unat_payload [OF assms(1)])
qed

text \<open>
  A refill of a free list whose remote queue is empty cuts a new segment into exactly
  \<open>chunks_in_segment\<close> chunks, back to back from the payload start and within the segment, links
  all of them, hands out the last and keeps the others on the list; the drained active segment
  is retired with all its chunks counted as live.
\<close>

theorem freelist_refill_carves:
  assumes "seg_inv (sg st)" and "os_mmap env = Some lo" and "unat lo + 0x400000 \<le> 2 ^ 47" and "lo \<noteq> 0"
    and "\<forall>a \<in> set (g_index (sg st)). \<not> (unat lo \<le> unat a \<and> unat a < unat lo + 0x400000)"
    and "8 \<le> sz" and "unat sz \<le> 0x1FFFC0" and "active = fs_segs (tl_freelists st index)"
    and "active = 0 \<or> active \<in> set (g_index (sg st)) \<and> remote_head (headers (sg st) active) = 0"
  shows "\<exists>chunk st' s xs. freelist_refill env index sz st = Some (chunk, st') \<and>
    fs_segs (tl_freelists st' index) = s \<and> s \<notin> set (g_index (sg st)) \<and> is_managed s (sg st') \<and>
    linked (words (sg st')) (fs_head (tl_freelists st' index)) xs \<and>
    map unat (rev (chunk # xs)) =
      map (\<lambda>k. unat s + 64 + k * unat sz) [0..<unat (chunks_in_segment (headers (sg st') s))] \<and>
    unat (chunks_in_segment (headers (sg st') s)) * unat sz \<le> 0x200000 - 64 \<and>
    (active \<noteq> 0 \<longrightarrow> retired (headers (sg st') active) \<and>
      live_chunks (headers (sg st') active) = chunks_in_segment (headers (sg st) active))"
proof -
  have sz: "sz \<noteq> 0" "\<not> sz < 8" using assms(6) by (auto simp: not_less)
  have act: "active = 0 \<or> \<not> (unat lo \<le> unat active \<and> unat active < unat lo + 0x400000) \<and>
      remote_head (headers (sg st) active) = 0" using assms(5,9) by blast
  obtain chunk head s g' xs where
    r: "refill_class ThreadLocalFreeList 0 env index (g_slot_to_site st index) sz active (sg st) =
          Some (chunk, head, s, g')"
    and l: "linked (words g') head xs"
    and c: "chunk # xs = rev (chunk_list (payload_start s) (ucast sz) (0x1FFFC0 div unat sz))"
    and s: "seg_ok s" "s \<notin> set (g_index (sg st))" "is_managed s g'"
    and h: "chunk_size (headers g' s) = sz"
    and ac: "active \<noteq> 0 \<longrightarrow> headers g' active = (headers (sg st) active)
        \<lparr>live_chunks := chunks_in_segment (headers (sg st) active), retired := True\<rparr>"
    using refill_class_carves [OF assms(1-5) sz(1) assms(7) act, of ThreadLocalFreeList 0 index "g_slot_to_site st index"]
    by (force simp: new_header_def)
  have "freelist_refill env index sz st = Some (chunk, st\<lparr>sg := g', tl_freelists :=
      (tl_freelists st)(index := \<lparr>fs_head = head, fs_segs = s\<rparr>)\<rparr>)"
    using r sz(2) assms(8) by (simp add: freelist_refill_def Let_def)
  with chunk_list_layout [OF s(1) c h sz(1)] show ?thesis
    using l s ac by (intro exI conjI) (assumption | simp)+
qed

text \<open>
  The same for one class of a multi-size list, which keeps its class number in the new
  segment's header and leaves the other classes alone.
\<close>

theorem multi_refill_carves:
  assumes "seg_inv (sg st)" and "os_mmap env = Some lo" and "unat lo + 0x400000 \<le> 2 ^ 47" and "lo \<noteq> 0"
    and "\<forall>a \<in> set (g_index (sg st)). \<not> (unat lo \<le> unat a \<and> unat a < unat lo + 0x400000)"
    and "8 \<le> sz" and "unat sz \<le> 0x1FFFC0" and "cls < 4"
    and "active = ms_segs (tl_multi_freelists st slot) (unat cls)"
    and "active = 0 \<or> active \<in> set (g_index (sg st)) \<and> remote_head (headers (sg st) active) = 0"
  shows "\<exists>chunk st' s xs. multi_refill env slot sz cls st = Some (chunk, st') \<and>
    is_managed s (sg st') \<and> class_idx (headers (sg st') s) = ucast cls \<and>
    tl_multi_freelists st' slot = \<lparr>
      ms_heads = (ms_heads (tl_multi_freelists st slot))(unat cls := words (sg st') chunk),
      ms_segs = (ms_segs (tl_multi_freelists st slot))(unat cls := s)\<rparr> \<and>
    linked (words (sg st')) chunk (chunk # xs) \<and>
    map unat (rev (chunk # xs)) =
      map (\<lambda>k. unat s + 64 + k * unat sz) [0..<unat (chunks_in_segment (headers (sg st') s))] \<and>
    unat (chunks_in_segment (headers (sg st') s)) * unat sz \<le> 0x200000 - 64"
proof -
  have sz: "sz \<noteq> 0" "\<not> sz < 8" using assms(6) by (auto simp: not_less)
  have act: "active = 0 \<or> \<not> (unat lo \<le> unat active \<and> unat active < unat lo + 0x400000) \<and>
      remote_head (headers (sg st) active) = 0" using assms(5,10) by blast
  obtain chunk head s g' xs where
    r: "refill_class MultiSizeFreeList (ucast cls) env slot (g_slot_to_site st slot) sz active (sg st) =
          Some (chunk, head, s, g')"
    and l: "linked (words g') head xs" "head = words g' chunk" "chunk \<noteq> 0"
    and c: "chunk # xs = rev (chunk_list (payload_start s) (ucast sz) (0x1FFFC0 div unat sz))"
    and s: "seg_ok s" "is_managed s g'"
    and h: "chunk_size (headers g' s) = sz" "class_idx (headers g' s) = ucast cls"
    using refill_class_carves [OF assms(1-5) sz(1) assms(7) act, of MultiSizeFreeList "ucast cls" slot
        "g_slot_to_site st slot"]
    by (force simp: new_header_def)
  have "multi_refill env slot sz cls st = Some (chunk, st\<lparr>sg := g', tl_multi_freelists :=
      (tl_multi_freelists st)(slot := \<lparr>
        ms_heads = (ms_heads (tl_multi_freelists st slot))(unat cls := head),
        ms_segs = (ms_segs (tl_multi_freelists st slot))(unat cls := s)\<rparr>)\<rparr>)"
    using r sz(2) assms(8,9) by (simp add: multi_refill_def MULTI_MAX_CLASSES_def Let_def not_le)
  with chunk_list_layout [OF s(1) c h(1) sz(1)] show ?thesis
    using l s h by (intro exI conjI) (assumption | simp)+
qed

section \<open>Freeing\<close>

definition counts_chunks :: "Strategy \<Rightarrow> bool" where
  "counts_chunks s \<longleftrightarrow> s \<in> {ProducerConsumer, ThreadLocalFreeList, MultiSizeFreeList}"

lemma free_retired:
  assumes "retired (headers (sg st) s)" and "counts_chunks (strategy (headers (sg st) s))"
  shows "free_managed env s p st = st\<lparr>sg := dec_live s (sg st)\<rparr>"
  using assms by (auto simp: free_managed_def counts_chunks_def Let_def)

lemma free_elsewhere: "t \<noteq> s \<Longrightarrow> headers (sg (free_managed env t p st)) s = headers (sg st) s"
  by (cases "strategy (headers (sg st) t)")
    (simp_all add: free_managed_def dec_live_def set_word_def mpsc_push_def paired_lifo_rewind_def upd_header_def Let_def)

text \<open>A history of frees: the freeing thread's view of the system, the chunk's segment and the chunk.\<close>

definition free_all :: "(os_env \<times> addr \<times> addr) list \<Rightarrow> jit_state \<Rightarrow> jit_state" where
  "free_all = fold (\<lambda>(env, s, p). free_managed env s p)"

definition frees_into :: "addr \<Rightarrow> (os_env \<times> addr \<times> addr) list \<Rightarrow> nat" where
  "frees_into s fs = length (filter (\<lambda>(env, t, p). t = s) fs)"

lemma free_all_retired:
  assumes "retired (headers (sg st) s)" and "counts_chunks (strategy (headers (sg st) s))"
  shows "headers (sg (free_all fs st)) s =
    (headers (sg st) s)\<lparr>live_chunks := live_chunks (headers (sg st) s) - of_nat (frees_into s fs)\<rparr>"
  using assms
proof (induction fs arbitrary: st)
  case Nil
  then show ?case by (simp add: free_all_def frees_into_def)
next
  case (Cons x fs)
  obtain env t p where x: "x = (env, t, p)" by (metis prod_cases3)
  let ?st = "free_managed env t p st"
  have e: "free_all (x # fs) st = free_all fs ?st" by (simp add: free_all_def x)
  have h: "headers (sg ?st) s = (headers (sg st) s)\<lparr>live_chunks := live_chunks (headers (sg st) s) - of_nat (frees_into s [x])\<rparr>"
  proof (cases "t = s")
    case True
    then show ?thesis using Cons.prems by (simp add: x frees_into_def free_retired dec_live_def upd_header_def)
  next
    case False
    then show ?thesis by (simp add: x frees_into_def free_elsewhere)
  qed
  have "headers (sg (free_all fs ?st)) s =
      (headers (sg ?st) s)\<lparr>live_chunks := live_chunks (headers (sg ?st) s) - of_nat (frees_into s fs)\<rparr>"
    using Cons.prems by (intro Cons.IH) (simp_all add: h)
  then show ?case unfolding e h by (simp add: frees_into_def algebra_simps)
qed

text \<open>
  C16: A retired segment of a strategy that counts its chunks (the three whose segments are ever
  retired) with \<open>n\<close> live chunks becomes eligible for reaping after exactly \<open>n\<close> frees into it, each
  from a thread of its own choice and interleaved with frees into other segments, and not before: in
  eager mode always, in conservative mode if the predicate lets its site go, which in the running
  program is the Reap tag, and in madvise mode unless it was decommitted already.
\<close>

theorem retired_segment_reaped_when_all_freed:
  assumes "retired (headers (sg st) s)" and "counts_chunks (strategy (headers (sg st) s))"
    and "frees_into s fs \<le> unat (live_chunks (headers (sg st) s))"
  shows "eligible mode pred (headers (sg (free_all fs st)) s) \<longleftrightarrow>
    frees_into s fs = unat (live_chunks (headers (sg st) s)) \<and>
    (case mode of
       Eager \<Rightarrow> True
     | Conservative \<Rightarrow> (case pred of None \<Rightarrow> True | Some goes \<Rightarrow> goes (alloc_site (headers (sg st) s)))
     | Madvise \<Rightarrow> \<not> decommitted (headers (sg st) s))"
proof -
  let ?n = "live_chunks (headers (sg st) s)" and ?k = "frees_into s fs"
  have "unat ?n < 2 ^ LENGTH(32)" by (rule unsigned_less)
  then have "?k < 2 ^ 32" using assms(3) by simp
  then have "unat (of_nat ?k :: u32) = ?k" by (simp add: unat_of_nat)
  then have "?n = of_nat ?k \<longleftrightarrow> ?k = unat ?n" by (simp add: word_unat_eq_iff eq_commute)
  then show ?thesis
    using free_all_retired [OF assms(1,2), of fs] assms(1)
    by (cases mode) (auto simp: eligible_iff split: option.splits)
qed

text \<open>
  A chunk that its owner frees into an active free list is the next one its slot hands out,
  with the rest of the list behind it.
\<close>

theorem freelist_free_then_pop:
  assumes "strategy (headers (sg st) s) = ThreadLocalFreeList" and "\<not> retired (headers (sg st) s)"
    and "owner_tid (headers (sg st) s) = os_tid env" and "i = slot_index (headers (sg st) s)"
    and "linked (words (sg st)) (fs_head (tl_freelists st i)) xs" and "p \<noteq> 0" and "p \<notin> set xs"
    and "st' = free_managed env s p st"
  shows "linked (words (sg st')) (fs_head (tl_freelists st' i)) (p # xs) \<and>
    words (sg st') p = fs_head (tl_freelists st i) \<and> headers (sg st') = headers (sg st)"
  using assms by (simp add: free_managed_def Let_def set_word_def linked_frame)

text \<open>The fast path of a bump slot: the returned chunk is the old pointer.\<close>

definition jit_bump :: "u32 \<Rightarrow> u32 \<Rightarrow> jit_state \<Rightarrow> jit_state" where
  "jit_bump i sz st =
     st\<lparr>tl_bumps := (tl_bumps st)(i := (tl_bumps st i)\<lparr>bs_ptr := bs_ptr (tl_bumps st i) + ucast sz\<rparr>)\<rparr>"

text \<open>
  In a PairedStack slot the free of the chunk last handed out takes the bump pointer back by
  one chunk, so an allocation followed by its free leaves the slot as it was; the free of any
  other chunk changes nothing.
\<close>

theorem paired_free_undoes_alloc:
  assumes "strategy (headers (sg st) s) = PairedStack" and "owner_tid (headers (sg st) s) = os_tid env"
    and "i = slot_index (headers (sg st) s)" and "sz = chunk_size (headers (sg st) s)"
    and "st' = free_managed env s p (jit_bump i sz st)"
  shows "tl_bumps st' = (if p = bs_ptr (tl_bumps st i) then tl_bumps st else tl_bumps (jit_bump i sz st)) \<and>
    (p \<noteq> bs_ptr (tl_bumps st i) \<longrightarrow> sg st' = sg st)"
  using assms
  by (auto simp: free_managed_def Let_def paired_lifo_rewind_def jit_bump_def fun_eq_iff)

section \<open>The producer-consumer refill\<close>

lemma bump_segment_ok:
  assumes "seg_inv (sg st)" and "os_mmap env = Some lo" and "unat lo + 0x400000 \<le> 2 ^ 47" and "lo \<noteq> 0"
    and "\<forall>a \<in> set (g_index (sg st)). \<not> (unat lo \<le> unat a \<and> unat a < unat lo + 0x400000)"
  shows "\<exists>s st'. bump_segment strat env index sz st = Some (payload_start s, st') \<and> seg_ok s \<and>
    unat lo \<le> unat s \<and> unat s < unat lo + 0x400000 \<and>
    seg_inv (sg st') \<and> is_managed s (sg st') \<and>
    set (g_index (sg st')) \<subseteq> insert s (set (g_index (sg st))) \<and>
    headers (sg st') = (headers (sg st))(s := (new_header strat index (g_slot_to_site st index)
      (os_tid env) sz s)\<lparr>bump_ptr := payload_start s + ucast sz\<rparr>) \<and>
    tl_bumps st' = (tl_bumps st)(index := \<lparr>bs_ptr = payload_start s + ucast sz, bs_end = segment_end s\<rparr>) \<and>
    words (sg st') = words (sg st) \<and>
    (\<forall>a. seg_ok a \<longrightarrow> a \<noteq> s \<longrightarrow> is_managed a (sg st') = is_managed a (sg st))"
proof -
  obtain r g where a: "alloc_segment env strat index (g_slot_to_site st index) sz (sg st) = (r, g)"
    by fastforce
  from alloc_segment_ok [OF assms(1-4) a assms(5)]
  obtain s cs where s: "r = Some s" "seg_ok s" 
    and u: "{unat s ..< unat s + 0x200000} \<union> unmapped cs = {unat lo ..< unat lo + 0x400000}"
    and h: "headers g = (headers (sg st))(s := new_header strat index (g_slot_to_site st index) (os_tid env) sz s)"
    and m: "\<forall>p. in_segment p s \<longrightarrow> seg_of p = s \<and> is_managed (seg_of p) g" and inv: "seg_inv g"
    and fr: "\<forall>a. seg_ok a \<longrightarrow> a \<noteq> s \<longrightarrow> is_managed a g = is_managed a (sg st)"
    and ix: "set (g_index g) \<subseteq> insert s (set (g_index (sg st)))"
    by blast
  have "unat s \<in> {unat lo ..< unat lo + 0x400000}" unfolding u [symmetric] by simp
  moreover have w: "words g = words (sg st)"
    using a by (auto simp: alloc_segment_def register_segment_def upd_header_def log_call_def Let_def
        split: prod.splits option.splits if_splits)
  moreover define g' where "g' = upd_header s (\<lambda>h. h\<lparr>bump_ptr := payload_start s + ucast sz\<rparr>) g"
  moreover have "in_segment s s" by (simp add: in_segment_def)
  then have "is_managed s g" using m by metis
  then have "is_managed s g'" using is_managed_cong [of g' g] by (simp add: g'_def upd_header_def)
  moreover have "\<forall>a. seg_ok a \<longrightarrow> a \<noteq> s \<longrightarrow> is_managed a g' = is_managed a (sg st)"
    using fr is_managed_cong [of g' g] by (simp add: g'_def upd_header_def)
  moreover have "seg_inv g'" using inv seg_inv_cong [of g' g] by (simp add: g'_def upd_header_def)
  ultimately show ?thesis
    using a s h ix
    by (intro exI [of _ s] exI [of _ "(set_bump index (payload_start s + ucast sz) (segment_end s) st)\<lparr>sg := g'\<rparr>"])
      (simp add: bump_segment_def set_bump_def upd_header_def Let_def)
qed

lemma drain_count_linked: "linked nx c xs \<Longrightarrow> drain_count nx c d = Some (d + of_nat (length xs))"
proof (induction xs arbitrary: c d)
  case Nil
  then show ?case by (subst drain_count.simps) simp
next
  case (Cons x xs)
  then show ?case by (subst drain_count.simps) (simp add: algebra_simps)
qed


lemma jit_bump_iterate:
  "tl_bumps ((jit_bump i sz ^^ k) st) i =
     (tl_bumps st i)\<lparr>bs_ptr := bs_ptr (tl_bumps st i) + of_nat k * ucast sz\<rparr>"
  "sg ((jit_bump i sz ^^ k) st) = sg st"
proof (induction k)
  case 0
  case 1
  show ?case by simp
  case 2
  show ?case by simp
next
  case (Suc k)
  case 1
  show ?case using Suc(1) by (simp add: jit_bump_def distrib_right add.assoc add.commute)
  case 2
  show ?case using Suc(2) by (simp add: jit_bump_def)
qed

lemma pc_retire_stale:
  assumes "chunk_size (headers g a) \<noteq> 0"
    and "bump_ptr (headers g a) = payload_start a + ucast (chunk_size (headers g a))"
    and "remote_head (headers g a) = 0"
  shows "pc_retire a g = Some (upd_header a (\<lambda>h. h\<lparr>live_chunks := 1, retired := True\<rparr>) g)"
proof -
  let ?c = "ucast (chunk_size (headers g a)) :: u64"
  have u: "unat ?c = unat (chunk_size (headers g a))" by (simp add: unat_ucast_up)
  have "unat ?c \<noteq> 0" unfolding u using assms(1) by (simp add: word_unat_eq_iff)
  then have "unat (?c div ?c) = 1" unfolding unat_div by (rule div_self)
  then have q: "?c div ?c = 1" by (simp only: word_unat_eq_iff unat_1)
  then have bp: "(bump_ptr (headers g a) - payload_start a) div ?c = 1" by (simp add: assms(2))
  have w: "drain_count (words g) 0 0 = Some 0" by (subst drain_count.simps) simp
  have rh: "upd_header a (\<lambda>h. h\<lparr>remote_head := 0\<rparr>) g = g"
    using assms(3) by (cases g; cases "headers g a") (auto simp: upd_header_def fun_eq_iff)
  show ?thesis
    using assms(1) bp w unfolding pc_retire_def mpsc_harvest_def rh assms(3)
    by (simp add: Let_def)
qed

lemma seg_of_segment_end:
  assumes "seg_ok s"
  shows "seg_of (segment_end s - 1) = s" and "segment_end s \<noteq> 0"
proof -
  have e: "unat (segment_end s) = unat s + 0x200000" by (rule unat_payload(2) [OF assms])
  then show nz: "segment_end s \<noteq> 0" by auto
  have "1 \<le> segment_end s" using e by (simp add: word_le_nat_alt)
  then have "unat (segment_end s - 1) = unat s + 0x1FFFFF" using e by (simp add: unat_sub)
  then have "in_segment (segment_end s - 1) s" by (simp add: in_segment_def)
  then show "seg_of (segment_end s - 1) = s" using assms by (simp add: seg_of_eq seg_ok_def)
qed

text \<open>
  The refill of a ProducerConsumer slot counts the chunks served from \<open>bump_ptr\<close> in the
  segment header, which only the slow path writes.  However many chunks \<open>k\<close> the emitted fast path
  has handed out of a segment, the next refill retires it with one live chunk, and the free of
  a single chunk makes it eligible for reaping while \<open>k\<close> others are still in use.
\<close>

theorem pc_refill_forgets_served_chunks:
  assumes "seg_inv (sg st)" and "bs_end (tl_bumps st i) = 0" and "sz \<noteq> 0"
    and "os_mmap env1 = Some lo1" "unat lo1 + 0x400000 \<le> 2 ^ 47" "lo1 \<noteq> 0"
    and "\<forall>a \<in> set (g_index (sg st)). \<not> (unat lo1 \<le> unat a \<and> unat a < unat lo1 + 0x400000)"
    and "os_mmap env2 = Some lo2" "unat lo1 + 0x400000 \<le> unat lo2" "unat lo2 + 0x400000 \<le> 2 ^ 47"
    and "\<forall>a \<in> set (g_index (sg st)). \<not> (unat lo2 \<le> unat a \<and> unat a < unat lo2 + 0x400000)"
  shows "\<exists>s st1 c2 st2. pc_refill env1 i sz st = Some (payload_start s, st1) \<and>
    pc_refill env2 i sz ((jit_bump i sz ^^ k) st1) = Some (c2, st2) \<and>
    bs_ptr (tl_bumps ((jit_bump i sz ^^ k) st1) i) = payload_start s + of_nat (Suc k) * ucast sz \<and>
    live_chunks (headers (sg st2) s) = 1 \<and>
    eligible Eager None (headers (sg (free_managed env2 s (payload_start s) st2)) s)"
proof -
  from bump_segment_ok [OF assms(1,4-7), of ProducerConsumer i sz] obtain s st1 where
    r1: "bump_segment ProducerConsumer env1 i sz st = Some (payload_start s, st1)" and s: "seg_ok s"
    "unat s < unat lo1 + 0x400000" and inv1: "seg_inv (sg st1)" and m1: "is_managed s (sg st1)"
    and h1: "headers (sg st1) s = (new_header ProducerConsumer i (g_slot_to_site st i) (os_tid env1) sz s)
      \<lparr>bump_ptr := payload_start s + ucast sz\<rparr>"
    and x1: "set (g_index (sg st1)) \<subseteq> insert s (set (g_index (sg st)))"
    and b1: "tl_bumps st1 i = \<lparr>bs_ptr = payload_start s + ucast sz, bs_end = segment_end s\<rparr>"
    by (metis fun_upd_same)
  let ?stk = "(jit_bump i sz ^^ k) st1"
  have k: "tl_bumps ?stk i = \<lparr>bs_ptr = payload_start s + of_nat (Suc k) * ucast sz, bs_end = segment_end s\<rparr>"
    "sg ?stk = sg st1"
    using jit_bump_iterate [of k i sz st1] b1 by (simp_all add: distrib_right add.assoc)
  have act: "seg_of (segment_end s - 1) = s" "segment_end s \<noteq> 0"
    using seg_of_segment_end [OF s(1)] .
  define g where "g = upd_header s (\<lambda>h. h\<lparr>live_chunks := 1, retired := True\<rparr>) (sg st1)"
  have ret: "pc_retire s (sg st1) = Some g"
    unfolding g_def using assms(3) h1 by (intro pc_retire_stale) (simp_all add: new_header_def)
  have g: "seg_inv g" "g_index g = g_index (sg st1)"
    using inv1 seg_inv_cong [of g "sg st1"] by (simp_all add: g_def upd_header_def)
  have "\<forall>a \<in> set (g_index g). \<not> (unat lo2 \<le> unat a \<and> unat a < unat lo2 + 0x400000)"
    using g(2) x1 assms(9,11) s(2) by fastforce
  moreover have "lo2 \<noteq> 0" using assms(9) by auto
  ultimately obtain s2 st2 where
    r2: "bump_segment ProducerConsumer env2 i sz (?stk\<lparr>sg := g\<rparr>) = Some (payload_start s2, st2)"
    and s2: "unat lo2 \<le> unat s2"
    and h2: "headers (sg st2) = (headers g)(s2 := (new_header ProducerConsumer i
      (g_slot_to_site (?stk\<lparr>sg := g\<rparr>) i) (os_tid env2) sz s2)\<lparr>bump_ptr := payload_start s2 + ucast sz\<rparr>)"
    using bump_segment_ok [of "?stk\<lparr>sg := g\<rparr>" env2 lo2 ProducerConsumer i sz] g(1) assms(8,10) by auto
  have "s2 \<noteq> s" using s2 s(2) assms(9) by auto
  then have hs: "headers (sg st2) s = (headers (sg st1) s)\<lparr>live_chunks := 1, retired := True\<rparr>"
    using h2 by (simp add: g_def upd_header_def)
  have "pc_refill env1 i sz st = Some (payload_start s, st1)"
    using assms(2) r1 by (simp add: pc_refill_def Let_def)
  moreover have "pc_refill env2 i sz ?stk = Some (payload_start s2, st2)"
    using k act m1 h1 ret r2 by (simp add: pc_refill_def Let_def new_header_def)
  moreover have "eligible Eager None (headers (sg (free_managed env2 s (payload_start s) st2)) s)"
    using hs h1 free_retired [of st2 s env2 "payload_start s"]
    by (simp add: counts_chunks_def new_header_def dec_live_def upd_header_def eligible_iff)
  ultimately show ?thesis using k(1) hs by auto
qed

section \<open>A concrete thread\<close>

text \<open>No segment yet, an empty pagemap, and all slots unset; the next mapping is at \<open>0x10000000\<close>.\<close>

definition demo_jit :: jit_state where
  "demo_jit =
     \<lparr>sg = \<lparr>headers = (\<lambda>a. new_header Generic 0 0 0 0 a), g_index = [], pagemap = Some (\<lambda>_. 0),
            words = (\<lambda>_. 0), syscalls = []\<rparr>,
      tl_bumps = (\<lambda>_. \<lparr>bs_ptr = 0, bs_end = 0\<rparr>), tl_freelists = (\<lambda>_. \<lparr>fs_head = 0, fs_segs = 0\<rparr>),
      tl_arenas = (\<lambda>_. \<lparr>as_ptr = 0, as_end = 0, as_base = 0\<rparr>),
      tl_multi_freelists = (\<lambda>_. \<lparr>ms_heads = (\<lambda>_. 0), ms_segs = (\<lambda>_. 0)\<rparr>), g_slot_to_site = (\<lambda>_. 7)\<rparr>"

definition demo_mmap :: "addr \<Rightarrow> os_env" where
  "demo_mmap lo = demo_env\<lparr>os_mmap := Some lo\<rparr>"

lemma demo_jit_inv: "seg_inv (sg demo_jit)" "g_index (sg demo_jit) = []"
  by (simp_all add: demo_jit_def seg_inv_def pm_ready_def)

definition demo_retired :: jit_state where
  "demo_retired = demo_jit\<lparr>sg := demo_segs\<rparr>"

definition demo_active :: "Strategy \<Rightarrow> jit_state" where
  "demo_active strat = demo_jit\<lparr>
     sg := (sg demo_jit)\<lparr>headers := (\<lambda>a. (new_header strat 3 7 1 48 a))\<rparr>,
     tl_bumps := (\<lambda>_. \<lparr>bs_ptr = 0x200040, bs_end = 0x400000\<rparr>)\<rparr>"

lemma demo_mapping:
  "os_mmap (demo_mmap lo) = Some lo"
  "unat (0x10000000 :: addr) + 0x400000 \<le> 2 ^ 47" "(0x10000000 :: addr) \<noteq> 0"
  "\<forall>a \<in> set (g_index (sg demo_jit)).
     \<not> (unat (0x10000000 :: addr) \<le> unat a \<and> unat a < unat (0x10000000 :: addr) + 0x400000)"
  "8 \<le> (48 :: u32)" "unat (48 :: u32) \<le> 0x1FFFC0"
  by (simp_all add: demo_mmap_def demo_env_def demo_jit_inv word_le_nat_alt)

theorem freelist_refill_carves_witness:
  "\<exists>chunk st' s xs. freelist_refill (demo_mmap 0x10000000) 3 48 demo_jit = Some (chunk, st') \<and>
    map unat (rev (chunk # xs)) =
      map (\<lambda>k. unat s + 64 + k * unat (48 :: u32)) [0..<unat (chunks_in_segment (headers (sg st') s))]"
proof -
  have "0 = fs_segs (tl_freelists demo_jit 3)" by (simp add: demo_jit_def)
  from freelist_refill_carves [OF demo_jit_inv(1) demo_mapping this]
  show ?thesis by blast
qed

theorem multi_refill_carves_witness:
  "\<exists>chunk st' s xs. multi_refill (demo_mmap 0x10000000) 3 48 2 demo_jit = Some (chunk, st') \<and>
    map unat (rev (chunk # xs)) =
      map (\<lambda>k. unat s + 64 + k * unat (48 :: u32)) [0..<unat (chunks_in_segment (headers (sg st') s))]"
proof -
  have "0 = ms_segs (tl_multi_freelists demo_jit 3) (unat (2 :: u32))" by (simp add: demo_jit_def)
  moreover have "(2 :: u32) < 4" by simp
  ultimately show ?thesis
    using multi_refill_carves [OF demo_jit_inv(1) demo_mapping] by blast
qed

theorem retired_segment_reaped_when_all_freed_witness:
  "let fs = [(demo_env, 0x200000, 0x200040), (demo_env\<lparr>os_tid := 7\<rparr>, 0x400000, 0x400040)]; h = headers (sg (free_all fs demo_retired)) 0x400000
   in eligible Conservative (Some (\<lambda>site. site = 9)) h \<and> eligible Madvise None h \<and> \<not> eligible Conservative (Some (\<lambda>site. site = 8)) h"
proof -
  let ?fs = "[(demo_env, 0x200000, 0x200040), (demo_env\<lparr>os_tid := 7\<rparr>, 0x400000, 0x400040)]"
  have h: "headers (sg demo_retired) 0x400000 = (new_header ThreadLocalFreeList 0 9 1 64 0x400000)\<lparr>retired := True, live_chunks := 1\<rparr>"
    by (simp add: demo_retired_def demo_segs_def)
  have n: "frees_into 0x400000 ?fs = 1" by (simp add: frees_into_def)
  have "eligible mode pred (headers (sg (free_all ?fs demo_retired)) 0x400000) \<longleftrightarrow>
      (mode = Conservative \<longrightarrow> (case pred of None \<Rightarrow> True | Some goes \<Rightarrow> goes 9))" for mode pred
    using retired_segment_reaped_when_all_freed [of demo_retired "0x400000" ?fs mode pred] unfolding h n
    by (cases mode) (simp_all add: new_header_def counts_chunks_def split: option.split)
  then show ?thesis by (simp add: Let_def)
qed

lemma demo_active_fields:
  "headers (sg (demo_active strat)) a = new_header strat 3 7 1 48 a"
  "tl_bumps (demo_active strat) i = \<lparr>bs_ptr = 0x200040, bs_end = 0x400000\<rparr>"
  "fs_head (tl_freelists (demo_active strat) i) = 0" "os_tid demo_env = 1"
  by (simp_all add: demo_active_def demo_jit_def demo_env_def)

theorem freelist_free_then_pop_witness:
  "linked (words (sg (free_managed demo_env 0x200000 0x200040 (demo_active ThreadLocalFreeList))))
     (fs_head (tl_freelists (free_managed demo_env 0x200000 0x200040 (demo_active ThreadLocalFreeList)) 3))
     [0x200040]"
proof -
  have "strategy (headers (sg (demo_active ThreadLocalFreeList)) 0x200000) = ThreadLocalFreeList"
    "\<not> retired (headers (sg (demo_active ThreadLocalFreeList)) 0x200000)"
    "owner_tid (headers (sg (demo_active ThreadLocalFreeList)) 0x200000) = os_tid demo_env"
    "3 = slot_index (headers (sg (demo_active ThreadLocalFreeList)) 0x200000)"
    "linked (words (sg (demo_active ThreadLocalFreeList)))
       (fs_head (tl_freelists (demo_active ThreadLocalFreeList) 3)) []"
    "(0x200040 :: addr) \<noteq> 0" "(0x200040 :: addr) \<notin> set []"
    by (simp_all add: demo_active_fields new_header_def)
  from freelist_free_then_pop [OF this refl] show ?thesis by blast
qed

theorem paired_free_undoes_alloc_witness:
  "tl_bumps (free_managed demo_env 0x200000 0x200040 (jit_bump 3 48 (demo_active PairedStack))) =
     tl_bumps (demo_active PairedStack)"
proof -
  have "strategy (headers (sg (demo_active PairedStack)) 0x200000) = PairedStack"
    "owner_tid (headers (sg (demo_active PairedStack)) 0x200000) = os_tid demo_env"
    "3 = slot_index (headers (sg (demo_active PairedStack)) 0x200000)"
    "48 = chunk_size (headers (sg (demo_active PairedStack)) 0x200000)"
    "0x200040 = bs_ptr (tl_bumps (demo_active PairedStack) 3)"
    by (simp_all add: demo_active_fields new_header_def)
  from paired_free_undoes_alloc [OF this(1-4) refl, of "0x200040"] this(5) show ?thesis by metis
qed

theorem pc_refill_forgets_served_chunks_witness:
  "\<exists>s st1 c2 st2. pc_refill (demo_mmap 0x10000000) 3 48 demo_jit = Some (payload_start s, st1) \<and>
    pc_refill (demo_mmap 0x20000000) 3 48 ((jit_bump 3 48 ^^ 1000) st1) = Some (c2, st2) \<and>
    live_chunks (headers (sg st2) s) = 1"
  using pc_refill_forgets_served_chunks [OF demo_jit_inv(1), of 3 48 "demo_mmap 0x10000000" "0x10000000"
      "demo_mmap 0x20000000" "0x20000000" 1000] demo_jit_inv(2)
  by (force simp: demo_mmap_def demo_env_def demo_jit_def)

end
