(* ===== verification/Codegen.thy ===== *)
theory Codegen
  imports Emitter Slow_Init
begin

text \<open>
  \<open>src/src/codegen/codegen.cpp\<close>: from a routine specification to an executable page.  The
  addresses that the linker and the loader choose (the thread pointer, the thread-local arrays
  of the compiling thread, the entry points baked into the code) are a record of arguments, as
  is the page that \<open>mmap\<close> returns: the assertions of \<open>alloc_exec_page\<close> and \<open>make_executable\<close> that
  there is one and that it can be made executable are taken to hold.  The theorems connect the page with the routines of
  \<open>Emitter\<close> and the thread-local slot it serves, for every thread that runs it.
\<close>

section \<open>Compilation\<close>

definition CODE_PAGE_SIZE :: nat where
  "CODE_PAGE_SIZE = 4096"

definition MAX_SIZE :: u32 where
  "MAX_SIZE = 4096"

record RoutineSpec =
  rs_id :: CallSiteID
  rs_strategy :: Strategy
  rs_size :: u32
  rs_class_sizes :: "u32 list"
  rs_class_count :: u8

record link_env =
  le_page :: addr
  le_tp :: addr
  le_bumps :: addr
  le_freelists :: addr
  le_arenas :: addr
  le_multis :: addr
  fn_deopt :: addr
  fn_bump_init :: addr
  fn_paired_init :: addr
  fn_freelist_refill :: addr
  fn_pc_refill :: addr
  fn_multi_refill :: addr
  fn_arena_reset :: addr
  fn_real_malloc :: addr

record codegen_state =
  cg_next_index :: u32
  cg_slot_to_site :: "u32 \<Rightarrow> CallSiteID"
  cg_pages :: "(addr \<times> u8 list) list"

text \<open>
  \<open>sizeof\<close>: \<open>BumpSlot\<close> and \<open>FreeListSlot\<close> 16, \<open>ArenaSlot\<close> 24, \<open>MultiFreeListSlot\<close> 64.  The offset of
  a field from the thread pointer is truncated to 32 bits.
\<close>

definition tls_off :: "link_env \<Rightarrow> addr \<Rightarrow> u32" where
  "tls_off le a = ucast (a - le_tp le)"

definition slot_addr :: "Strategy \<Rightarrow> link_env \<Rightarrow> u32 \<Rightarrow> addr" where
  "slot_addr strat le idx =
     (case strat of
        ThreadLocalFreeList \<Rightarrow> le_freelists le + ucast idx * 16
      | MultiSizeFreeList \<Rightarrow> le_multis le + ucast idx * 64
      | EpochArena \<Rightarrow> le_arenas le + ucast idx * 24
      | _ \<Rightarrow> le_bumps le + ucast idx * 16)"

definition emit_routine :: "link_env \<Rightarrow> RoutineSpec \<Rightarrow> u32 \<Rightarrow> u8 list option" where
  "emit_routine le spec idx =
     (let page = le_page le; strat = rs_strategy spec;
          off = tls_off le (slot_addr strat le idx);
          end_off = tls_off le (slot_addr strat le idx + 8)
      in case strat of
           BumpAlloc \<Rightarrow>
             emit_bump_alloc page CODE_PAGE_SIZE off end_off idx (rs_size spec) (rs_id spec)
               (fn_deopt le) (fn_bump_init le) (fn_real_malloc le)
         | PairedStack \<Rightarrow>
             emit_bump_alloc page CODE_PAGE_SIZE off end_off idx (rs_size spec) (rs_id spec)
               (fn_deopt le) (fn_paired_init le) (fn_real_malloc le)
         | ThreadLocalFreeList \<Rightarrow>
             emit_freelist_alloc page CODE_PAGE_SIZE off idx (rs_size spec) (rs_id spec)
               (fn_deopt le) (fn_freelist_refill le) (fn_real_malloc le)
         | ProducerConsumer \<Rightarrow>
             emit_pc_alloc page CODE_PAGE_SIZE off end_off idx (rs_size spec) (rs_id spec)
               (fn_deopt le) (fn_pc_refill le) (fn_real_malloc le)
         | MultiSizeFreeList \<Rightarrow>
             emit_multi_freelist_alloc page CODE_PAGE_SIZE off idx
               (take (unat (rs_class_count spec)) (rs_class_sizes spec)) (rs_id spec)
               (fn_deopt le) (fn_multi_refill le) (fn_real_malloc le)
         | _ \<Rightarrow>
             emit_epoch_arena page CODE_PAGE_SIZE off end_off idx (rs_size spec) (rs_id spec)
               (fn_deopt le) (fn_arena_reset le) (fn_real_malloc le))"

definition spec_rejected :: "RoutineSpec \<Rightarrow> bool" where
  "spec_rejected spec =
     (if rs_size spec = 0 \<or> MAX_SIZE \<le> rs_size spec then True
      else
        let effective = (if rs_strategy spec = PairedStack then BumpAlloc else rs_strategy spec)
        in if effective \<notin> {BumpAlloc, ThreadLocalFreeList, EpochArena, MultiSizeFreeList, ProducerConsumer}
           then True
           else if effective = ThreadLocalFreeList \<and> rs_size spec < 8 then True
           else if effective = MultiSizeFreeList \<and>
                     (rs_class_count spec = 0 \<or> 4 < rs_class_count spec \<or>
                      list_ex (\<lambda>sz. sz < 8) (take (unat (rs_class_count spec)) (rs_class_sizes spec)))
           then True
           else False)"

definition compile ::
    "link_env \<Rightarrow> RoutineSpec \<Rightarrow> codegen_state \<Rightarrow> addr option \<times> codegen_state" where
  "compile le spec st =
     (if spec_rejected spec then (None, st)
      else
        let (idx, nx) = alloc_slot_index (cg_next_index st);
            st = st\<lparr>cg_next_index := nx\<rparr>
        in if MAX_COMPILED_SITES \<le> idx then (None, st)
           else
             let st = st\<lparr>cg_slot_to_site := (cg_slot_to_site st)(idx := rs_id spec)\<rparr>
             in case emit_routine le spec idx of
                  None \<Rightarrow> (None, st)
                | Some code \<Rightarrow>
                    (Some (le_page le), st\<lparr>cg_pages := (le_page le, code) # cg_pages st\<rparr>))"

definition reclaim :: "addr \<Rightarrow> codegen_state \<Rightarrow> codegen_state" where
  "reclaim page st = st\<lparr>cg_pages := filter (\<lambda>p. fst p \<noteq> page) (cg_pages st)\<rparr>"

section \<open>Thread-local addresses\<close>

text \<open>An offset within 2 GiB of the thread pointer survives truncation and sign extension.\<close>

lemma sx32_ucast:
  fixes d :: u64
  assumes "unat d < 0x80000000 \<or> 2 ^ 64 - 0x80000000 \<le> unat d"
  shows "sx32 (ucast d) = d"
proof -
  have u: "unat (ucast d :: u32) = unat d mod 0x100000000"
    by (simp add: unsigned_ucast_eq take_bit_eq_mod)
  have c: "unat (ucast (ucast d :: u32) :: u64) = unat d mod 0x100000000"
    using unat_ucast_up [of "ucast d :: u32", where 'b = 64] u by simp
  show ?thesis
  proof (cases "unat d < 0x80000000")
    case True
    then have "(ucast d :: u32) < 0x80000000" using u by (simp add: word_less_nat_alt)
    then show ?thesis using True c by (simp add: sx32_def word_unat_eq_iff)
  next
    case False
    then have hi: "2 ^ 64 - 0x80000000 \<le> unat d" using assms by simp
    have lt: "unat d < 2 ^ 64" using unsigned_less [of d] by simp
    have m: "unat d mod 0x100000000 = unat d - (2 ^ 64 - 0x100000000)"
    proof -
      have "unat d = (unat d - (2 ^ 64 - 0x100000000)) + 0xFFFFFFFF * 0x100000000"
        using hi by simp
      then have "unat d mod 0x100000000 = (unat d - (2 ^ 64 - 0x100000000)) mod 0x100000000"
        by (metis mod_mult_self1)
      then show ?thesis using lt by simp
    qed
    have "\<not> (ucast d :: u32) < 0x80000000"
      using u m hi by (simp add: word_less_nat_alt)
    moreover have "d = ucast (ucast d :: u32) - 0x100000000"
    proof -
      have "(unat d + 4294967296) mod 18446744073709551616 = unat d - 18446744069414584320"
      proof -
        have "unat d + 4294967296 = (unat d - 18446744069414584320) + 18446744073709551616"
          using hi by simp
        then have "(unat d + 4294967296) mod 18446744073709551616 =
            (unat d - 18446744069414584320) mod 18446744073709551616"
          by (metis mod_add_self2)
        then show ?thesis using lt by simp
      qed
      then have "unat (ucast (ucast d :: u32) :: u64) = unat (d + 0x100000000)"
        using c m by (simp add: unat_word_ariths)
      then have "ucast (ucast d :: u32) = d + (0x100000000 :: u64)"
        by (simp add: word_unat_eq_iff)
      then show ?thesis by simp
    qed
    ultimately show ?thesis by (simp add: sx32_def)
  qed
qed

definition near :: "u64 \<Rightarrow> bool" where
  "near d \<longleftrightarrow> unat d < 0x80000000 \<or> 2 ^ 64 - 0x80000000 \<le> unat d"

definition class_list :: "RoutineSpec \<Rightarrow> u32 list" where
  "class_list spec = take (unat (rs_class_count spec)) (rs_class_sizes spec)"

text \<open>The words of the slot as the running thread sees them.\<close>

definition slot_word :: "link_env \<Rightarrow> RoutineSpec \<Rightarrow> u32 \<Rightarrow> nat \<Rightarrow> u64" where
  "slot_word le spec idx i = slot_addr (rs_strategy spec) le idx - le_tp le + of_nat (i * 8)"

lemma ucast_add_down: "(ucast (a + b :: u64) :: u32) = ucast a + ucast b"
  by (simp add: word_unat_eq_iff unsigned_ucast_eq take_bit_eq_mod unat_word_ariths mod_mod_cancel
      mod_add_eq)

lemma fs_at_tls_off:
  assumes "near (slot_word le spec idx i)"
  shows "fs_at (tls_off le (slot_addr (rs_strategy spec) le idx) + of_nat (i * 8)) s =
    fsbase s + slot_word le spec idx i"
proof -
  let ?d = "slot_addr (rs_strategy spec) le idx - le_tp le"
  have "(ucast (of_nat (i * 8) :: u64) :: u32) = of_nat (i * 8)"
    by (simp only: word_unat_eq_iff unsigned_ucast_eq unat_of_nat take_bit_eq_mod) (simp add: mod_mod_cancel)
  then have "(ucast (?d + of_nat (i * 8)) :: u32) = ucast ?d + of_nat (i * 8)"
    by (simp only: ucast_add_down)
  then show ?thesis
    using sx32_ucast [of "slot_word le spec idx i"] assms
    by (simp add: fs_at_def tls_off_def slot_word_def near_def)
qed

lemma fs_at_tls_off_0:
  "near (slot_word le spec idx 0) \<Longrightarrow>
     fs_at (tls_off le (slot_addr (rs_strategy spec) le idx)) s = fsbase s + slot_word le spec idx 0"
  using fs_at_tls_off [of le spec idx 0 s] by simp

definition routine_spec ::
    "link_env \<Rightarrow> RoutineSpec \<Rightarrow> u32 \<Rightarrow> 'e callee \<Rightarrow> 'e x86_scheme \<Rightarrow> 'e x86_scheme outcome \<Rightarrow> bool" where
  "routine_spec le spec idx ext s r \<longleftrightarrow>
     (let page = le_page le; off = tls_off le (slot_addr (rs_strategy spec) le idx);
          end_off = tls_off le (slot_addr (rs_strategy spec) le idx + 8);
          sz = rs_size spec; site = rs_id spec; dh = fn_deopt le; rm = fn_real_malloc le
      in case rs_strategy spec of
           BumpAlloc \<Rightarrow> bump_spec ext page off end_off idx sz site dh (fn_bump_init le) rm s r
         | PairedStack \<Rightarrow> bump_spec ext page off end_off idx sz site dh (fn_paired_init le) rm s r
         | ThreadLocalFreeList \<Rightarrow> freelist_spec ext page off idx sz site dh (fn_freelist_refill le) rm s r
         | ProducerConsumer \<Rightarrow> refill_spec ext page off end_off idx sz site dh (fn_pc_refill le) rm s r
         | MultiSizeFreeList \<Rightarrow>
             multi_spec ext page off idx (class_list spec) site dh (fn_multi_refill le) rm s r
         | _ \<Rightarrow> refill_spec ext page off end_off idx sz site dh (fn_arena_reset le) rm s r)"

lemma emit_routine_runs:
  assumes "emit_routine le spec idx = Some code" and "sysv_callee ext"
    and "rs_size spec < 0x80000000" and "\<forall>sz \<in> set (rs_class_sizes spec). sz < 0x80000000"
    and "\<forall>i < 4. near (slot_word le spec idx i) \<and> entry_ok (le_page le) (fsbase s + slot_word le spec idx i) s"
  shows "length code \<le> CODE_PAGE_SIZE \<and> (\<exists>r. run 20 ext (le_page le) code s = Some r \<and> routine_spec le spec idx ext s r)"
proof -
  let ?off = "tls_off le (slot_addr (rs_strategy spec) le idx)"
  have e: "entry_ok (le_page le) (fs_at ?off s) s"
    using assms(5) fs_at_tls_off_0 [of le spec idx s] by auto
  have c4: "length (class_list spec) \<le> 4 \<Longrightarrow>
      \<forall>i < length (class_list spec). entry_ok (le_page le) (fs_at (?off + of_nat (i * 8)) s) s"
    using assms(5) fs_at_tls_off [of le spec idx _ s] by (auto simp del: of_nat_mult)
  have cs: "\<forall>sz \<in> set (class_list spec). sz < 0x80000000"
    using assms(4) unfolding class_list_def by (meson in_set_takeD)
  have w: "rip s = le_page le" "rsp s AND 15 = 8" using e by (auto simp: entry_ok_def)
  show ?thesis
  proof (cases "rs_strategy spec")
    case MultiSizeFreeList
    then show ?thesis
      using assms(1) sysv_callee.multi_runs [OF assms(2) w cs c4 _ refl]
      by (auto simp: emit_routine_def routine_spec_def Let_def class_list_def CODE_PAGE_SIZE_def
          emit_multi_freelist_alloc_assembles length_routines split: if_splits)
  qed (use assms(1) e sysv_callee.bump_runs [OF assms(2) e assms(3) refl]
        sysv_callee.refill_runs [OF assms(2) e assms(3) refl]
        sysv_callee.freelist_runs [OF assms(2) e assms(3) refl]
        le_trans [OF length_routines(1), of 4096] le_trans [OF length_routines(2), of 4096]
      in \<open>auto simp: emit_routine_def routine_spec_def Let_def CODE_PAGE_SIZE_def
          emit_bump_alloc_assembles emit_freelist_alloc_assembles emit_pc_alloc_assembles
          emit_epoch_arena_assembles length_routines split: if_splits\<close>)
qed

section \<open>Correctness\<close>

lemma list_ex_take_conv: "n \<le> length xs \<Longrightarrow> list_ex P (take n xs) \<longleftrightarrow> (\<exists>i < n. P (xs ! i))"
  by (auto simp: list_ex_length)

lemma emit_routine_Some:
  assumes "\<not> spec_rejected spec" and "le_page le \<noteq> 0" and "length (rs_class_sizes spec) = 4"
  shows "\<exists>code. emit_routine le spec idx = Some code"
proof -
  have "rs_strategy spec = MultiSizeFreeList \<Longrightarrow>
      rs_class_count spec \<noteq> 0 \<and> unat (rs_class_count spec) \<le> 4"
    using assms(1) by (auto simp: spec_rejected_def Let_def not_less word_le_nat_alt split: if_splits)
  moreover have "rs_class_sizes spec \<noteq> []" using assms(3) by auto
  ultimately show ?thesis
    using assms(2,3)
    by (cases "rs_strategy spec")
      (auto simp: emit_routine_def Let_def CODE_PAGE_SIZE_def emit_bump_alloc_assembles
        emit_freelist_alloc_assembles emit_pc_alloc_assembles emit_epoch_arena_assembles
        emit_multi_freelist_alloc_assembles unat_eq_0)
qed

lemma spec_rejected_iff:
  assumes "length (rs_class_sizes spec) = 4"
  shows "\<not> spec_rejected spec \<longleftrightarrow> 0 < rs_size spec \<and> rs_size spec < 4096 \<and> rs_strategy spec \<noteq> Generic \<and>
    (rs_strategy spec = ThreadLocalFreeList \<longrightarrow> 8 \<le> rs_size spec) \<and>
    (rs_strategy spec = MultiSizeFreeList \<longrightarrow>
       1 \<le> unat (rs_class_count spec) \<and> unat (rs_class_count spec) \<le> 4 \<and>
       (\<forall>i < unat (rs_class_count spec). 8 \<le> rs_class_sizes spec ! i))"
proof -
  let ?c = "unat (rs_class_count spec)"
  have c: "rs_class_count spec = 0 \<longleftrightarrow> ?c = 0" "4 < rs_class_count spec \<longleftrightarrow> 4 < ?c"
    by (simp_all add: word_unat_eq_iff word_less_nat_alt)
  have m: "\<not> (rs_class_count spec = 0 \<or> 4 < rs_class_count spec \<or>
        list_ex (\<lambda>sz. sz < 8) (take ?c (rs_class_sizes spec))) \<longleftrightarrow>
      1 \<le> ?c \<and> ?c \<le> 4 \<and> (\<forall>i < ?c. 8 \<le> rs_class_sizes spec ! i)"
    using list_ex_take_conv [of ?c "rs_class_sizes spec" "\<lambda>sz. sz < 8"] assms
    unfolding c by (auto simp: not_less [symmetric])
  show ?thesis
    using m by (cases "rs_strategy spec")
      (auto simp: spec_rejected_def MAX_SIZE_def Let_def not_le not_less word_gt_0)
qed

text \<open>
  \<open>compile\<close> succeeds exactly for a nonzero size below 4096, a strategy other than Generic,
  and a free slot, where a free list needs room for a link in each chunk and a multi-size list
  one to four classes, each with that room.  ProducerConsumer has no such size condition.
\<close>

theorem compile_succeeds_iff:
  assumes "le_page le \<noteq> 0" and "length (rs_class_sizes spec) = 4"
  shows "fst (compile le spec st) = Some (le_page le) \<longleftrightarrow>
    0 < rs_size spec \<and> rs_size spec < 4096 \<and> rs_strategy spec \<noteq> Generic \<and>
    (rs_strategy spec = ThreadLocalFreeList \<longrightarrow> 8 \<le> rs_size spec) \<and>
    (rs_strategy spec = MultiSizeFreeList \<longrightarrow>
       1 \<le> unat (rs_class_count spec) \<and> unat (rs_class_count spec) \<le> 4 \<and>
       (\<forall>i < unat (rs_class_count spec). 8 \<le> rs_class_sizes spec ! i)) \<and>
    cg_next_index st < 4096"
proof -
  have "fst (compile le spec st) = Some (le_page le) \<longleftrightarrow> \<not> spec_rejected spec \<and> cg_next_index st < 4096"
    using emit_routine_Some [OF _ assms, of "cg_next_index st"]
    by (cases "emit_routine le spec (cg_next_index st)"; cases "spec_rejected spec")
      (simp_all add: compile_def alloc_slot_index_def MAX_COMPILED_SITES_def Let_def not_le)
  then show ?thesis using spec_rejected_iff [OF assms(2)] by blast
qed

lemma compile_SomeD:
  assumes "compile le spec st = (Some page, st')"
  shows "\<not> spec_rejected spec" and "cg_next_index st < 4096" and "page = le_page le"
    and "cg_next_index st' = cg_next_index st + 1"
    and "cg_slot_to_site st' = (cg_slot_to_site st)(cg_next_index st := rs_id spec)"
    and "\<exists>code. emit_routine le spec (cg_next_index st) = Some code \<and>
           cg_pages st' = (page, code) # cg_pages st"
  using assms
  by (auto simp: compile_def alloc_slot_index_def MAX_COMPILED_SITES_def Let_def not_le
      split: if_splits option.splits)

text \<open>
  C10: A compiled page, run by any thread, behaves as its strategy's routine on that thread's own
  copy of the slot assigned at compile time: the slot's words are found at the thread pointer
  plus the offset the compiling thread had, provided thread-local storage lies within 2 GiB of
  the thread pointer, and the page reports deopts under the compiled site.
\<close>

theorem compiled_page_serves_slot:
  assumes "compile le spec st = (Some page, st')" and "sysv_callee ext"
    and "\<forall>sz \<in> set (rs_class_sizes spec). sz < 0x80000000"
    and "\<forall>i < 4. near (slot_word le spec (cg_next_index st) i) \<and>
           entry_ok page (fsbase s + slot_word le spec (cg_next_index st) i) s"
  shows "\<exists>code r. cg_pages st' = (page, code) # cg_pages st \<and> length code \<le> CODE_PAGE_SIZE \<and>
    run 20 ext page code s = Some r \<and> routine_spec le spec (cg_next_index st) ext s r \<and>
    fs_at (tls_off le (slot_addr (rs_strategy spec) le (cg_next_index st))) s =
      fsbase s + slot_word le spec (cg_next_index st) 0 \<and>
    cg_slot_to_site st' (cg_next_index st) = rs_id spec"
proof -
  note d = compile_SomeD [OF assms(1)]
  obtain code where code: "emit_routine le spec (cg_next_index st) = Some code"
    "cg_pages st' = (page, code) # cg_pages st" using d(6) by blast
  have "rs_size spec < 4096"
    using d(1) by (auto simp: spec_rejected_def MAX_SIZE_def not_le split: if_splits)
  then have "rs_size spec < 0x80000000" by (simp add: word_less_nat_alt)
  from emit_routine_runs [OF code(1) assms(2) this assms(3) assms(4) [unfolded d(3)]]
  show ?thesis
    using code(2) d(3,5) fs_at_tls_off_0 [of le spec "cg_next_index st" s] assms(4) by auto
qed

fun compile_all :: "(link_env \<times> RoutineSpec) list \<Rightarrow> codegen_state \<Rightarrow> (addr option \<times> u32) list \<times> codegen_state" where
  "compile_all [] st = ([], st)"
| "compile_all ((le, spec) # js) st =
     (let (r, st') = compile le spec st; (rs, st'') = compile_all js st'
      in ((r, cg_next_index st) # rs, st''))"

lemma compile_next_index:
  "compile le spec st = (r, st') \<Longrightarrow> cg_next_index st' = cg_next_index st \<or> cg_next_index st' = cg_next_index st + 1"
  by (auto simp: compile_def alloc_slot_index_def Let_def split: if_splits option.splits)

lemma compile_all_indices:
  assumes "compile_all js st = (rs, st')" and "unat (cg_next_index st) + length js < 2 ^ 32"
  shows "\<forall>i < length rs. unat (cg_next_index st) \<le> unat (snd (rs ! i))"
    and "\<forall>i j. i < j \<longrightarrow> j < length rs \<longrightarrow> fst (rs ! i) \<noteq> None \<longrightarrow> unat (snd (rs ! i)) < unat (snd (rs ! j))"
proof -
  have "(\<forall>i < length rs. unat (cg_next_index st) \<le> unat (snd (rs ! i))) \<and>
    (\<forall>i j. i < j \<longrightarrow> j < length rs \<longrightarrow> fst (rs ! i) \<noteq> None \<longrightarrow> unat (snd (rs ! i)) < unat (snd (rs ! j)))"
    using assms
  proof (induction js arbitrary: st rs)
    case Nil
    then show ?case by simp
  next
    case (Cons p js)
    obtain le spec where p: "p = (le, spec)" by fastforce
    obtain r st1 where c: "compile le spec st = (r, st1)" by fastforce
    obtain rs1 where a: "compile_all js st1 = (rs1, st')"
      and rs: "rs = (r, cg_next_index st) # rs1"
      using Cons.prems(1) p c by (auto simp: split: prod.splits)
    have u: "unat (cg_next_index st + 1) = unat (cg_next_index st) + 1"
      using Cons.prems(2) by (simp add: unat_word_ariths)
    have n: "unat (cg_next_index st) \<le> unat (cg_next_index st1)"
      "unat (cg_next_index st1) \<le> unat (cg_next_index st) + 1"
      using compile_next_index [OF c] u by auto
    have s: "r \<noteq> None \<Longrightarrow> unat (cg_next_index st1) = unat (cg_next_index st) + 1"
      using compile_SomeD(4) [of le spec st _ st1] c u by auto
    have "unat (cg_next_index st1) + length js < 2 ^ 32" using Cons.prems(2) n by simp
    from Cons.IH [OF a this] n s show ?case
      unfolding rs by (fastforce simp: nth_Cons less_Suc_eq_0_disj split: nat.splits)
  qed
  then show "\<forall>i < length rs. unat (cg_next_index st) \<le> unat (snd (rs ! i))"
    and "\<forall>i j. i < j \<longrightarrow> j < length rs \<longrightarrow> fst (rs ! i) \<noteq> None \<longrightarrow> unat (snd (rs ! i)) < unat (snd (rs ! j))"
    by blast+
qed

text \<open>
  Two successful compilations never share a slot: each slot index is used once, and the
  slot keeps the site it was assigned to.
\<close>

theorem compiled_slots_distinct:
  assumes "compile_all js st = (rs, st')" and "unat (cg_next_index st) + length js < 2 ^ 32"
    and "i < j" and "j < length rs" and "fst (rs ! i) \<noteq> None"
  shows "snd (rs ! i) \<noteq> snd (rs ! j)"
  using compile_all_indices(2) [OF assms(1,2), rule_format, OF assms(3-5)] by auto

section \<open>A concrete page\<close>

definition demo_link :: link_env where
  "demo_link =
     \<lparr>le_page = 0x4000, le_tp = 0x7000, le_bumps = 0x7000, le_freelists = 0x7400, le_arenas = 0x7800,
      le_multis = 0x7C00, fn_deopt = 0x100, fn_bump_init = 0x200, fn_paired_init = 0x210,
      fn_freelist_refill = 0x220, fn_pc_refill = 0x230, fn_multi_refill = 0x240,
      fn_arena_reset = 0x250, fn_real_malloc = 0x300\<rparr>"

definition demo_spec :: "Strategy \<Rightarrow> u32 \<Rightarrow> RoutineSpec" where
  "demo_spec strat sz =
     \<lparr>rs_id = 7, rs_strategy = strat, rs_size = sz, rs_class_sizes = [0, 0, 0, 0], rs_class_count = 0\<rparr>"

definition demo_cg :: codegen_state where
  "demo_cg = \<lparr>cg_next_index = 0, cg_slot_to_site = (\<lambda>_. 0), cg_pages = []\<rparr>"

theorem compile_succeeds_iff_witness:
  "fst (compile demo_link (demo_spec ProducerConsumer 4) demo_cg) = Some 0x4000"
  using compile_succeeds_iff [of demo_link "demo_spec ProducerConsumer 4" demo_cg]
  by (simp add: demo_link_def demo_spec_def demo_cg_def)

lemma demo_compiles:
  "\<exists>st'. compile demo_link (demo_spec BumpAlloc 64) demo_cg = (Some 0x4000, st') \<and> cg_next_index st' = 1"
  by (simp add: compile_def spec_rejected_def alloc_slot_index_def MAX_COMPILED_SITES_def MAX_SIZE_def
      emit_routine_def emit_bump_alloc_assembles demo_link_def demo_spec_def demo_cg_def Let_def
      CODE_PAGE_SIZE_def)

theorem compiled_page_serves_slot_witness:
  "\<exists>st' code r. compile demo_link (demo_spec BumpAlloc 64) demo_cg = (Some 0x4000, st') \<and>
    cg_pages st' = [(0x4000, code)] \<and> run 20 demo_ext 0x4000 code (demo_thread 64) = Some r \<and>
    routine_spec demo_link (demo_spec BumpAlloc 64) 0 demo_ext (demo_thread 64) r"
proof -
  obtain st' where c: "compile demo_link (demo_spec BumpAlloc 64) demo_cg = (Some 0x4000, st')"
    using demo_compiles by blast
  have "\<forall>sz \<in> set (rs_class_sizes (demo_spec BumpAlloc 64)). sz < 0x80000000"
    by (simp add: demo_spec_def)
  moreover have "\<forall>i < 4. near (slot_word demo_link (demo_spec BumpAlloc 64) (cg_next_index demo_cg) i) \<and>
      entry_ok 0x4000 (fsbase (demo_thread 64) +
        slot_word demo_link (demo_spec BumpAlloc 64) (cg_next_index demo_cg) i) (demo_thread 64)"
  proof (intro allI impI)
    fix i :: nat
    assume "i < 4"
    then have "i \<in> {0, 1, 2, 3}" by auto
    then show "near (slot_word demo_link (demo_spec BumpAlloc 64) (cg_next_index demo_cg) i) \<and>
      entry_ok 0x4000 (fsbase (demo_thread 64) +
        slot_word demo_link (demo_spec BumpAlloc 64) (cg_next_index demo_cg) i) (demo_thread 64)"
      by (auto simp: slot_word_def slot_addr_def demo_link_def demo_spec_def demo_cg_def near_def
          entry_ok_def demo_thread_def)
  qed
  ultimately obtain code r where "cg_pages st' = (0x4000, code) # cg_pages demo_cg"
    "run 20 demo_ext 0x4000 code (demo_thread 64) = Some r"
    "routine_spec demo_link (demo_spec BumpAlloc 64) (cg_next_index demo_cg) demo_ext (demo_thread 64) r"
    using compiled_page_serves_slot [OF c demo_callee] by blast
  moreover have "cg_pages demo_cg = []" "cg_next_index demo_cg = 0" by (simp_all add: demo_cg_def)
  ultimately show ?thesis using c by auto
qed

theorem compiled_slots_distinct_witness:
  "\<exists>r0 r1 st'. compile_all (replicate 2 (demo_link, demo_spec BumpAlloc 64)) demo_cg = ([r0, r1], st') \<and>
    snd r0 \<noteq> snd r1"
proof -
  obtain st1 where c1: "compile demo_link (demo_spec BumpAlloc 64) demo_cg = (Some 0x4000, st1)"
    using demo_compiles by blast
  obtain r2 st2 where c2: "compile demo_link (demo_spec BumpAlloc 64) st1 = (r2, st2)" by fastforce
  let ?rs = "[(Some 0x4000, cg_next_index demo_cg), (r2, cg_next_index st1)]"
  have a: "compile_all (replicate 2 (demo_link, demo_spec BumpAlloc 64)) demo_cg = (?rs, st2)"
    using c1 c2 by (simp add: numeral_2_eq_2)
  have "unat (cg_next_index demo_cg) + length (replicate 2 (demo_link, demo_spec BumpAlloc 64)) < 2 ^ 32"
    by (simp add: demo_cg_def)
  from compiled_slots_distinct [OF a this, of 0 1] a show ?thesis by auto
qed

end
