(* ===== verification/Open_Addressing.thy ===== *)
theory Open_Addressing
  imports Prelude
begin

text \<open>
  Linear probing over a fixed array, the scheme of the dispatch table
  (\<open>src/src/dispatch/dispatch.cpp\<close>) and of the shadow validator's table
  (\<open>src/src/shadow/shadow.cpp\<close>).  The interface fixes the table size, the home slot of a key and
  how an entry shows its key (\<open>None\<close> for a free entry).  The invariant says that every entry
  can be reached from its home slot without crossing a free one; under it a probe finds exactly
  the entries that are in the array.
\<close>

locale open_addressing =
  fixes N :: nat
    and home :: "'k \<Rightarrow> nat"
    and key :: "'e \<Rightarrow> 'k option"
  assumes N_pos: "0 < N" and home_less: "home k < N"
begin

definition slot :: "'k \<Rightarrow> nat \<Rightarrow> nat" where
  "slot k i = (home k + i) mod N"

definition hit :: "'e list \<Rightarrow> 'k \<Rightarrow> nat \<Rightarrow> bool" where
  "hit t k i \<longleftrightarrow> key (t ! slot k i) = Some k \<or> key (t ! slot k i) = None"

definition probe :: "'e list \<Rightarrow> 'k \<Rightarrow> nat option" where
  "probe t k = find_index (hit t k) [0..<N]"

definition probe_inv :: "'e list \<Rightarrow> bool" where
  "probe_inv t \<longleftrightarrow> length t = N \<and>
     (\<forall>i < N. \<forall>k. key (t ! i) = Some k \<longrightarrow> (\<exists>d < N. slot k d = i \<and> (\<forall>j < d. \<not> hit t k j)))"

definition entry_of :: "'e list \<Rightarrow> 'k \<Rightarrow> 'e option" where
  "entry_of t k =
     (case probe t k of
        None \<Rightarrow> None
      | Some d \<Rightarrow> (if key (t ! slot k d) = Some k then Some (t ! slot k d) else None))"

lemma slot_less: "slot k i < N"
  by (simp add: slot_def N_pos)

lemma slot_inj: "i < N \<Longrightarrow> j < N \<Longrightarrow> slot k i = slot k j \<longleftrightarrow> i = j"
proof -
  assume "i < N" "j < N"
  have "slot k i = slot k j \<Longrightarrow> i \<le> j \<Longrightarrow> i = j" if "i < N" "j < N" for i j
  proof -
    assume "slot k i = slot k j" "i \<le> j"
    then have "N dvd (home k + j) - (home k + i)"
      by (metis add_le_cancel_left mod_eq_dvd_iff_nat slot_def)
    then have "N dvd j - i" by simp
    with that \<open>i \<le> j\<close> show "i = j"
      by (metis diff_is_0_eq dvd_imp_le le_antisym less_imp_diff_less linorder_not_le neq0_conv)
  qed
  from this [of i j] this [of j i] \<open>i < N\<close> \<open>j < N\<close> show ?thesis
    by (metis nat_le_linear)
qed

lemma slot_surj:
  assumes "i < N"
  obtains d where "d < N" and "slot k d = i"
proof -
  let ?d = "(i + (N - home k)) mod N"
  have "slot k ?d = (home k + (i + (N - home k))) mod N"
    by (simp add: slot_def mod_add_right_eq)
  also have "home k + (i + (N - home k)) = i + N"
    using home_less [of k] by simp
  finally have "slot k ?d = i" using assms by simp
  with that [of ?d] N_pos show thesis by simp
qed

lemma probe_SomeD:
  assumes "probe t k = Some d"
  shows "d < N" and "hit t k d" and "\<And>j. j < d \<Longrightarrow> \<not> hit t k j"
  using find_index_SomeD [OF assms [unfolded probe_def]] by auto

lemma probe_SomeI:
  "d < N \<Longrightarrow> hit t k d \<Longrightarrow> (\<And>j. j < d \<Longrightarrow> \<not> hit t k j) \<Longrightarrow> probe t k = Some d"
  unfolding probe_def by (rule find_index_SomeI) auto

lemma probe_last:
  assumes "\<And>j. j < m \<Longrightarrow> \<not> hit t k j" and "\<not> hit t k m" and "N \<le> Suc m"
  shows "probe t k = None"
proof -
  have "\<not> hit t k j" if "j < N" for j
    using assms that by (cases "j = m") auto
  then show ?thesis by (auto simp: probe_def find_index_None_iff)
qed

lemma probe_None_iff: "probe t k = None \<longleftrightarrow> (\<forall>i < N. key (t ! i) \<noteq> None \<and> key (t ! i) \<noteq> Some k)"
proof -
  have "probe t k = None \<longleftrightarrow> (\<forall>d < N. \<not> hit t k d)"
    by (auto simp: probe_def find_index_None_iff)
  also have "\<dots> \<longleftrightarrow> (\<forall>i < N. key (t ! i) \<noteq> None \<and> key (t ! i) \<noteq> Some k)"
    unfolding hit_def by (metis slot_less slot_surj)
  finally show ?thesis .
qed

lemma entry_of_iff:
  assumes "probe_inv t"
  shows "entry_of t k = Some e \<longleftrightarrow> (\<exists>i < N. t ! i = e \<and> key e = Some k)"
proof
  assume "entry_of t k = Some e"
  then show "\<exists>i < N. t ! i = e \<and> key e = Some k"
    unfolding entry_of_def using slot_less by (auto split: option.splits if_splits)
next
  assume "\<exists>i < N. t ! i = e \<and> key e = Some k"
  then obtain i where i: "i < N" "t ! i = e" "key e = Some k" by blast
  with assms obtain d where d: "d < N" "slot k d = i" "\<forall>j < d. \<not> hit t k j"
    unfolding probe_inv_def by metis
  then have "probe t k = Some d"
    using i by (intro probe_SomeI) (auto simp: hit_def)
  then show "entry_of t k = Some e"
    using d i by (simp add: entry_of_def)
qed

lemma entry_of_None_iff:
  "probe_inv t \<Longrightarrow> entry_of t k = None \<longleftrightarrow> (\<forall>i < N. key (t ! i) \<noteq> Some k)"
  using entry_of_iff [of t k] by (metis not_Some_eq)

lemma keys_unique:
  assumes "probe_inv t" and "i < N" and "j < N" and "key (t ! i) = Some k" and "key (t ! j) = Some k"
  shows "i = j"
proof -
  obtain d where d: "d < N" "slot k d = i" "\<forall>m < d. \<not> hit t k m"
    using assms unfolding probe_inv_def by metis
  obtain d' where d': "d' < N" "slot k d' = j" "\<forall>m < d'. \<not> hit t k m"
    using assms unfolding probe_inv_def by metis
  have "hit t k d" "hit t k d'"
    using d d' assms by (auto simp: hit_def)
  with d d' have "d = d'" by (metis linorder_neqE_nat)
  with d d' show ?thesis by simp
qed

section \<open>Writing at the probed slot\<close>

lemma probe_inv_update:
  assumes inv: "probe_inv t" and p: "probe t k = Some d" and e: "key e = Some k"
  shows "probe_inv (t[slot k d := e])"
proof -
  let ?p = "slot k d" and ?t = "t[slot k d := e]"
  have len: "length t = N" using inv by (simp add: probe_inv_def)
  note d = probe_SomeD [OF p]
  have at_p: "key (t ! ?p) = Some k \<or> key (t ! ?p) = None"
    using d(2) by (simp add: hit_def)
  have get: "?t ! i = (if i = ?p then e else t ! i)" if "i < N" for i
    using that len by (auto simp: nth_list_update)
  have "\<exists>d' < N. slot k' d' = i \<and> (\<forall>j < d'. \<not> hit ?t k' j)"
    if i: "i < N" "key (?t ! i) = Some k'" for i k'
  proof (cases "i = ?p")
    case True
    with i e get slot_less have "k' = k" by auto
    have "\<not> hit ?t k j" if "j < d" for j
    proof -
      have "slot k j \<noteq> ?p" using that d(1) by (simp add: slot_inj)
      then show ?thesis using d(3) [OF that] by (simp add: hit_def get slot_less)
    qed
    with d(1) True \<open>k' = k\<close> show ?thesis by blast
  next
    case False
    with i get have "key (t ! i) = Some k'" by simp
    with inv i obtain d' where d': "d' < N" "slot k' d' = i" "\<forall>j < d'. \<not> hit t k' j"
      unfolding probe_inv_def by metis
    have "\<not> hit ?t k' j" if "j < d'" for j
    proof (cases "slot k' j = ?p")
      case True
      with d'(3) that at_p have "k' \<noteq> k" by (auto simp: hit_def)
      with True e show ?thesis by (simp add: hit_def get slot_less)
    next
      case False
      with d'(3) that show ?thesis by (auto simp: hit_def get slot_less)
    qed
    with d' show ?thesis by blast
  qed
  with len show ?thesis by (simp add: probe_inv_def)
qed

lemma entry_of_update:
  assumes inv: "probe_inv t" and p: "probe t k = Some d" and e: "key e = Some k"
  shows "entry_of (t[slot k d := e]) k' = (if k' = k then Some e else entry_of t k')"
proof -
  let ?p = "slot k d" and ?t = "t[slot k d := e]"
  have len: "length t = N" using inv by (simp add: probe_inv_def)
  have get: "?t ! i = (if i = ?p then e else t ! i)" if "i < N" for i
    using that len by (auto simp: nth_list_update)
  have at_p: "key (t ! ?p) = Some k \<or> key (t ! ?p) = None"
    using probe_SomeD(2) [OF p] by (simp add: hit_def)
  note inv' = probe_inv_update [OF assms]
  show ?thesis
  proof (cases "k' = k")
    case True
    have "\<exists>i < N. ?t ! i = e \<and> key e = Some k"
      using e get [OF slot_less, of k d] slot_less [of k d] by auto
    with True entry_of_iff [OF inv'] show ?thesis by simp
  next
    case False
    have "(\<exists>i < N. ?t ! i = x \<and> key x = Some k') \<longleftrightarrow> (\<exists>i < N. t ! i = x \<and> key x = Some k')" for x
      using False at_p e get by (metis option.distinct(1) option.inject)
    then have "entry_of ?t k' = Some x \<longleftrightarrow> entry_of t k' = Some x" for x
      by (simp add: entry_of_iff [OF inv'] entry_of_iff [OF inv])
    with False show ?thesis by (metis not_Some_eq)
  qed
qed

lemma probe_inv_empty: "(\<forall>i < N. key (t ! i) = None) \<Longrightarrow> length t = N \<Longrightarrow> probe_inv t"
  by (simp add: probe_inv_def)

text \<open>A table without a free slot holds \<open>N\<close> keys, so a probe only fails then.\<close>

lemma dom_finite: "probe_inv t \<Longrightarrow> finite (dom (entry_of t))"
proof -
  assume inv: "probe_inv t"
  have "dom (entry_of t) \<subseteq> (\<lambda>i. the (key (t ! i))) ` {..<N}"
    using entry_of_iff [OF inv] by (force simp: dom_def)
  then show ?thesis by (rule finite_subset) simp
qed

lemma card_full:
  assumes inv: "probe_inv t" and occ: "\<forall>i < N. key (t ! i) \<noteq> None"
  shows "card (dom (entry_of t)) = N"
proof -
  let ?f = "\<lambda>i. the (key (t ! i))"
  have f: "key (t ! i) = Some (?f i)" if "i < N" for i
    using occ that by auto
  have "inj_on ?f {..<N}"
  proof (rule inj_onI)
    fix i j
    assume "i \<in> {..<N}" "j \<in> {..<N}" and eq: "?f i = ?f j"
    then have "i < N" "j < N" by auto
    with f [of i] f [of j] eq show "i = j"
      by (intro keys_unique [OF inv, of i j "?f i"]) auto
  qed
  moreover have "?f ` {..<N} = dom (entry_of t)"
    using f entry_of_iff [OF inv] by (force simp: dom_def)
  ultimately show ?thesis by (metis card_image card_lessThan)
qed

lemma card_free:
  assumes inv: "probe_inv t" and i: "i < N" "key (t ! i) = None"
  shows "card (dom (entry_of t)) < N"
proof -
  have "dom (entry_of t) \<subseteq> (\<lambda>j. the (key (t ! j))) ` ({..<N} - {i})"
    using entry_of_iff [OF inv] i by (force simp: dom_def)
  then have "card (dom (entry_of t)) \<le> card ({..<N} - {i})"
    by (meson card_image_le card_mono finite_Diff finite_imageI finite_lessThan le_trans)
  then show ?thesis using i(1) by simp
qed

lemma probe_room:
  assumes inv: "probe_inv t" and fin: "finite K" and few: "card K < N"
    and sub: "\<And>k'. entry_of t k' \<noteq> None \<Longrightarrow> k' \<in> K"
  shows "probe t k \<noteq> None"
proof
  assume "probe t k = None"
  then have "card (dom (entry_of t)) = N" by (intro card_full [OF inv]) (auto simp: probe_None_iff)
  moreover have "card (dom (entry_of t)) \<le> card K" using sub by (intro card_mono [OF fin]) auto
  ultimately show False using few by simp
qed

end

section \<open>Deletion\<close>

text \<open>
  Deleting from such a table, as the shadow validator does: clear the entry, then take out and
  insert again every entry up to the next free slot \<open>z\<close>.  Slots are counted from the one after
  \<open>z\<close> (\<open>off\<close>), so that no probe path crosses the end of the count.
\<close>

locale erasable = open_addressing N home key
  for N :: nat and home :: "'k \<Rightarrow> nat" and key :: "'e \<Rightarrow> 'k option" +
  fixes clear :: "'e \<Rightarrow> 'e"
  assumes key_clear [simp]: "key (clear e) = None"
begin

definition off :: "nat \<Rightarrow> nat \<Rightarrow> nat" where
  "off z i = (i + (N - 1 - z)) mod N"

lemma off_less: "off z i < N"
  by (simp add: off_def N_pos)

lemma off_self: "z < N \<Longrightarrow> off z z = N - 1"
  by (simp add: off_def)

lemma mod_add_inj:
  fixes i j n c :: nat
  assumes "i < n" "j < n" and "(i + c) mod n = (j + c) mod n"
  shows "i = j"
  using assms
proof (induction c)
  case (Suc c)
  have "Suc ((i + c) mod n) mod n = Suc ((j + c) mod n) mod n" using Suc.prems(3) by (simp add: mod_Suc_eq)
  moreover have "(i + c) mod n < n" "(j + c) mod n < n" using assms(1) by auto
  ultimately have "(i + c) mod n = (j + c) mod n" by (auto simp: mod_Suc split: if_splits)
  then show ?case using Suc.IH assms(1,2) by simp
qed simp

lemma off_inj: "i < N \<Longrightarrow> j < N \<Longrightarrow> off z i = off z j \<Longrightarrow> i = j"
  unfolding off_def by (rule mod_add_inj)

lemma off_next:
  assumes "z < N" and "i < N" and "i \<noteq> z"
  shows "off z (Suc i mod N) = Suc (off z i)"
proof -
  have "off z i \<noteq> N - 1" using off_inj [OF assms(2,1)] assms(1,3) by (metis off_self)
  then have "Suc (off z i) < N" using off_less [of z i] by linarith
  moreover have "off z (Suc i mod N) = Suc (off z i) mod N"
    unfolding off_def by (metis add_Suc mod_Suc_eq mod_add_left_eq)
  ultimately show ?thesis by simp
qed

lemma slot_Suc: "slot k (Suc m) = Suc (slot k m) mod N"
  by (simp add: slot_def mod_Suc_eq)

text \<open>Along a path that avoids \<open>z\<close> the count only grows.\<close>

lemma off_path:
  assumes "z < N" and "m \<le> d" and "\<And>j. m \<le> j \<Longrightarrow> j < d \<Longrightarrow> slot k j \<noteq> z"
  shows "off z (slot k d) = off z (slot k m) + (d - m)"
  using assms(2,3)
proof (induction d)
  case (Suc d)
  show ?case
  proof (cases "m = Suc d")
    case False
    then have "m \<le> d" using Suc.prems(1) by simp
    moreover have "slot k d \<noteq> z" using Suc.prems(2) [of d] \<open>m \<le> d\<close> by simp
    ultimately show ?thesis
      using Suc.IH [OF \<open>m \<le> d\<close>] Suc.prems(2) off_next [OF assms(1) slot_less, of k d]
      by (simp add: slot_Suc)
  qed simp
qed simp

text \<open>
  The table while the entries from count \<open>a\<close> on wait to be inserted again: the others are
  reachable without crossing a free or a waiting slot, the waiting ones lie behind their homes.
\<close>

definition shifting :: "nat \<Rightarrow> nat \<Rightarrow> 'e list \<Rightarrow> bool" where
  "shifting z a t \<longleftrightarrow> length t = N \<and> z < N \<and> a < N \<and> key (t ! z) = None \<and>
     (\<forall>i < N. \<forall>j < N. \<forall>k. key (t ! i) = Some k \<longrightarrow> key (t ! j) = Some k \<longrightarrow> i = j) \<and>
     (\<forall>i < N. a \<le> off z i \<longrightarrow> i \<noteq> z \<longrightarrow> key (t ! i) \<noteq> None) \<and>
     (\<forall>i < N. \<forall>k. key (t ! i) = Some k \<longrightarrow>
        (\<exists>d < N. slot k d = i \<and>
           (if off z i < a then \<forall>m < d. off z (slot k m) < a \<and> key (t ! slot k m) \<noteq> None
            else \<forall>m < d. off z (slot k m) < off z i)))"

lemma shifting_start:
  assumes inv: "probe_inv t" and i: "i < N" and z: "z < N" "key (t ! z) = None"
    and between: "\<And>j. j < N \<Longrightarrow> off z i < off z j \<Longrightarrow> j \<noteq> z \<Longrightarrow> key (t ! j) \<noteq> None" and ne: "i \<noteq> z"
  shows "shifting z (Suc (off z i)) (t[i := clear (t ! i)])"
proof -
  let ?t = "t[i := clear (t ! i)]"
  have len: "length t = N" using inv by (simp add: probe_inv_def)
  have iz: "Suc (off z i) < N"
    using off_inj [OF i z(1)] off_self [OF z(1)] off_less [of z i] ne by (metis Suc_diff_1 Suc_lessI diff_Suc_1)
  have get: "?t ! j = (if j = i then clear (t ! i) else t ! j)" if "j < N" for j using that len by auto
  have path: "\<exists>d < N. slot k d = j \<and> (if off z j < Suc (off z i)
        then \<forall>m < d. off z (slot k m) < Suc (off z i) \<and> key (?t ! slot k m) \<noteq> None
        else \<forall>m < d. off z (slot k m) < off z j)"
    if j: "j < N" "key (?t ! j) = Some k" for j k
  proof -
    have ji: "j \<noteq> i" and kj: "key (t ! j) = Some k" using j by (auto simp: get split: if_splits)
    obtain d where d: "d < N" "slot k d = j" "\<forall>m < d. \<not> hit t k m"
      using inv j(1) kj unfolding probe_inv_def by blast
    have nz: "slot k m \<noteq> z" if "m < d" for m using d(3) that z(2) by (auto simp: hit_def)
    have jz: "j \<noteq> z" using kj z(2) by auto
    have o: "off z j = off z (slot k m) + (d - m)" if "m \<le> d" for m
      using off_path [OF z(1) that, of k] nz d(2) by auto
    have lt: "off z (slot k m) < off z j" if "m < d" for m using o [of m] that by simp
    moreover have "key (?t ! slot k m) \<noteq> None" if "m < d" "off z j < Suc (off z i)" for m
    proof -
      have "slot k m \<noteq> i" using lt [OF that(1)] that(2) by auto
      then show ?thesis using d(3) that(1) get [OF slot_less] by (auto simp: hit_def)
    qed
    moreover have "off z (slot k m) < Suc (off z i)" if "m < d" "off z j < Suc (off z i)" for m
      using lt [OF that(1)] that(2) by simp
    ultimately show ?thesis using d by (intro exI [of _ d]) auto
  qed
  have dist: "j = j'" if "j < N" "j' < N" "key (?t ! j) = Some k" "key (?t ! j') = Some k" for j j' k
    using that keys_unique [OF inv that(1,2)] by (auto simp: get split: if_splits)
  have occ: "key (?t ! j) \<noteq> None" if "j < N" "Suc (off z i) \<le> off z j" "j \<noteq> z" for j
    using that between [of j] by (auto simp: get)
  show ?thesis
    unfolding shifting_def using len z iz path dist occ ne by (auto simp: get)
qed

text \<open>The first free slot on a key's path.\<close>

definition first_free :: "'e list \<Rightarrow> 'k \<Rightarrow> nat option" where
  "first_free t k = find_index (\<lambda>d. key (t ! slot k d) = None) [0..<N]"

lemma first_free_SomeD:
  assumes "first_free t k = Some d"
  shows "d < N" and "key (t ! slot k d) = None" and "\<And>m. m < d \<Longrightarrow> key (t ! slot k m) \<noteq> None"
  using find_index_SomeD [OF assms [unfolded first_free_def]] by auto

lemma first_free_le:
  assumes "d < N" and "key (t ! slot k d) = None"
  shows "\<exists>d' \<le> d. first_free t k = Some d'"
proof -
  have "first_free t k \<noteq> None" using assms by (auto simp: first_free_def find_index_None_iff)
  then obtain d' where d': "first_free t k = Some d'" by blast
  moreover have "d' \<le> d" using first_free_SomeD(3) [OF d', of d] assms(2) by (meson not_less)
  ultimately show ?thesis by blast
qed

lemma shifting_stop: "shifting z a t \<Longrightarrow> j < N \<Longrightarrow> off z j = a \<Longrightarrow> key (t ! j) = None \<longleftrightarrow> j = z"
  unfolding shifting_def by (metis order_refl)

lemma shifting_done:
  assumes "shifting z a t" and "a = N - 1"
  shows "probe_inv t"
proof -
  have "\<exists>d < N. slot k d = i \<and> (\<forall>m < d. \<not> hit t k m)" if i: "i < N" "key (t ! i) = Some k" for i k
  proof -
    have z: "z < N" "key (t ! z) = None" using assms(1) by (simp_all add: shifting_def)
    then have "i \<noteq> z" using i(2) by auto
    then have "off z i < a" using off_less [of z i] off_inj [OF i(1) z(1)] off_self [OF z(1)] assms(2)
      by (metis Suc_diff_1 Suc_lessI diff_Suc_1 N_pos less_SucE)
    then obtain d where d: "d < N" "slot k d = i" "\<forall>m < d. key (t ! slot k m) \<noteq> None"
      using assms(1) i unfolding shifting_def by (metis (full_types))
    have "key (t ! slot k m) \<noteq> Some k" if "m < d" for m
    proof
      assume "key (t ! slot k m) = Some k"
      then have "slot k m = slot k d"
        using assms(1) i d(2) slot_less unfolding shifting_def by (metis (full_types))
      then show False using that d(1) by (simp add: slot_inj)
    qed
    then show ?thesis using d by (auto simp: hit_def)
  qed
  then show ?thesis using assms(1) by (simp add: probe_inv_def shifting_def)
qed

text \<open>One round: the entry at count \<open>a\<close> goes to the first free slot of its own path.\<close>

lemma shifting_step:
  assumes sh: "shifting z a t" and j: "j < N" "off z j = a" "key (t ! j) = Some k"
  obtains d where "first_free (t[j := clear (t ! j)]) k = Some d"
    and "shifting z (Suc a) (t[j := clear (t ! j), slot k d := t ! j])"
    and "\<And>e. key e \<noteq> None \<Longrightarrow>
      (\<exists>i < N. t[j := clear (t ! j), slot k d := t ! j] ! i = e) \<longleftrightarrow> (\<exists>i < N. t ! i = e)"
proof -
  let ?t = "t[j := clear (t ! j)]" and ?e = "t ! j"
  have len: "length t = N" and z: "z < N" "key (t ! z) = None" and aN: "a < N"
    and dist: "\<And>i j k. i < N \<Longrightarrow> j < N \<Longrightarrow> key (t ! i) = Some k \<Longrightarrow> key (t ! j) = Some k \<Longrightarrow> i = j"
    and occ: "\<And>i. i < N \<Longrightarrow> a \<le> off z i \<Longrightarrow> i \<noteq> z \<Longrightarrow> key (t ! i) \<noteq> None"
    using sh unfolding shifting_def by blast+
  have path: "\<exists>d < N. slot k d = i \<and>
      (if off z i < a then \<forall>m < d. off z (slot k m) < a \<and> key (t ! slot k m) \<noteq> None
       else \<forall>m < d. off z (slot k m) < off z i)" if "i < N" "key (t ! i) = Some k" for i k
    using sh that unfolding shifting_def by blast
  obtain d0 where d0: "d0 < N" "slot k d0 = j" "\<forall>m < d0. off z (slot k m) < a"
    using path [OF j(1,3)] j(2) by auto
  have get: "?t ! i = (if i = j then clear ?e else t ! i)" if "i < N" for i using that len by auto
  obtain d where d: "first_free ?t k = Some d" "d \<le> d0"
    using first_free_le [of d0 ?t k] d0(1,2) get [OF j(1)] by auto
  note dd = first_free_SomeD [OF d(1)]
  let ?p = "slot k d" and ?u = "t[j := clear (t ! j), slot k d := t ! j]"
  have get': "?u ! i = (if i = ?p then ?e else if i = j then clear ?e else t ! i)" if "i < N" for i
    using that len by auto
  have jz: "j \<noteq> z" using j(3) z(2) by auto
  have pj: "?p = j \<or> key (t ! ?p) = None \<and> off z ?p < a"
    using dd(2) d d0 get [OF slot_less, of k d] by (cases "d = d0") (auto split: if_splits)
  have pz: "?p \<noteq> z" using pj jz off_self [OF z(1)] aN by auto
  have Sa: "Suc a < N" using j(2) jz off_inj [OF j(1) z(1)] off_self [OF z(1)] aN
    by (metis Suc_diff_1 Suc_lessI diff_Suc_1)
  have keys: "key (?u ! i) = Some k' \<Longrightarrow> i < N \<Longrightarrow> i = ?p \<and> k' = k \<or> i \<noteq> ?p \<and> i \<noteq> j \<and> key (t ! i) = Some k'" for i k'
    using j(3) by (auto simp: get' split: if_splits)
  have dist': "i = i'" if "i < N" "i' < N" "key (?u ! i) = Some k'" "key (?u ! i') = Some k'" for i i' k'
    using keys [OF that(3,1)] keys [OF that(4,2)] dist that j by metis
  have occ': "key (?u ! i) \<noteq> None" if "i < N" "Suc a \<le> off z i" "i \<noteq> z" for i
    using occ [OF that(1)] that j by (auto simp: get')
  have path': "\<exists>d < N. slot k' d = i \<and>
      (if off z i < Suc a then \<forall>m < d. off z (slot k' m) < Suc a \<and> key (?u ! slot k' m) \<noteq> None
       else \<forall>m < d. off z (slot k' m) < off z i)" if i: "i < N" "key (?u ! i) = Some k'" for i k'
    using keys [OF i(2,1)]
  proof
    assume ik: "i = ?p \<and> k' = k"
    have "off z ?p < Suc a" using pj j(2) by auto
    moreover have "off z (slot k m) < Suc a \<and> key (?u ! slot k m) \<noteq> None" if "m < d" for m
    proof -
      have "off z (slot k m) < a" using d0(3) that d(2) by auto
      moreover have "key (?u ! slot k m) \<noteq> None"
        using dd(3) [OF that] get [OF slot_less, of k m] get' [OF slot_less, of k m] j(3) by (auto split: if_splits)
      ultimately show ?thesis by simp
    qed
    ultimately show ?thesis using dd(1) ik by (intro exI [of _ d]) auto
  next
    assume ik: "i \<noteq> ?p \<and> i \<noteq> j \<and> key (t ! i) = Some k'"
    then have "off z i \<noteq> a" using off_inj [OF i(1) j(1)] j(2) by auto
    obtain d' where d': "d' < N" "slot k' d' = i"
      "if off z i < a then \<forall>m < d'. off z (slot k' m) < a \<and> key (t ! slot k' m) \<noteq> None
       else \<forall>m < d'. off z (slot k' m) < off z i" using path [OF i(1), of k'] ik by blast
    have "key (?u ! slot k' m) \<noteq> None" if "off z (slot k' m) < a" "key (t ! slot k' m) \<noteq> None" for m
    proof -
      have "slot k' m \<noteq> j" using that(1) j(2) by auto
      then show ?thesis using that(2) j(3) by (auto simp: get' [OF slot_less])
    qed
    then show ?thesis using d' \<open>off z i \<noteq> a\<close> by (intro exI [of _ d']) (auto simp: less_Suc_eq split: if_splits)
  qed
  have "shifting z (Suc a) ?u"
    unfolding shifting_def
    using len z Sa dist' occ' path' pz jz by (auto simp: get')
  moreover have "(\<exists>i < N. ?u ! i = e) \<longleftrightarrow> (\<exists>i < N. t ! i = e)" if "key e \<noteq> None" for e
  proof
    assume "\<exists>i < N. ?u ! i = e"
    then show "\<exists>i < N. t ! i = e" using j(1) that by (auto simp: get' split: if_splits)
  next
    assume "\<exists>i < N. t ! i = e"
    then obtain i where i: "i < N" "t ! i = e" by blast
    show "\<exists>i < N. ?u ! i = e"
    proof (cases "i = j")
      case True
      then show ?thesis using i get' [OF slot_less, of k d] slot_less [of k d] by auto
    next
      case False
      moreover have "i \<noteq> ?p" using pj False i(2) that by auto
      ultimately show ?thesis using i by (auto simp: get')
    qed
  qed
  ultimately show thesis using that d(1) by blast
qed


lemma off_walk:
  assumes "z < N" and "i < N" and "\<And>j. j < m \<Longrightarrow> (i + j) mod N \<noteq> z"
  shows "off z ((i + m) mod N) = off z i + m"
  using assms(3)
proof (induction m)
  case 0
  then show ?case using assms(2) by simp
next
  case (Suc m)
  have "off z (Suc ((i + m) mod N) mod N) = Suc (off z ((i + m) mod N))"
    using Suc.prems [of m] N_pos by (intro off_next [OF assms(1)]) simp_all
  then show ?case using Suc by (simp add: mod_Suc_eq)
qed

text \<open>The first free slot behind \<open>i\<close> ends the cluster.\<close>

lemma cluster_end:
  assumes i: "i < N" and e: "j < N" "j \<noteq> i" "key (t ! j) = None"
  obtains z where "z < N" and "z \<noteq> i" and "key (t ! z) = None"
    and "\<And>j. j < N \<Longrightarrow> off z i < off z j \<Longrightarrow> j \<noteq> z \<Longrightarrow> key (t ! j) \<noteq> None"
proof -
  let ?P = "\<lambda>s. 0 < s \<and> s < N \<and> key (t ! ((i + s) mod N)) = None"
  have "(i + (if i < j then j - i else N - i + j)) mod N = j" using i e(1) by auto
  then have "?P (if i < j then j - i else N - i + j)" using i e by auto
  then obtain s where s: "?P s" and least: "\<And>m. m < s \<Longrightarrow> \<not> ?P m"
    using exists_least_iff [of ?P] by blast
  let ?z = "(i + s) mod N"
  have z: "?z < N" using N_pos by simp
  have walk: "(i + m) mod N \<noteq> ?z" if "m < s" for m
    using mod_add_inj [of m N s i] that s by (metis add.commute less_trans nat_neq_iff)
  have "off ?z ?z = off ?z i + s" using off_walk [OF z i walk] by simp
  then have os: "off ?z i + s = N - 1" by (simp add: off_self [OF z])
  show thesis
  proof (rule that [OF z])
    show "?z \<noteq> i" using walk [of 0] s i by simp
    show "key (t ! ?z) = None" using s by simp
    fix j'
    assume j': "j' < N" "off ?z i < off ?z j'" "j' \<noteq> ?z"
    have "off ?z j' \<noteq> N - 1" using off_inj [OF j'(1) z] j'(3) by (metis off_self z)
    then have "off ?z j' < N - 1" using off_less [of ?z j'] by linarith
    define m where "m = off ?z j' - off ?z i"
    have m: "0 < m" "m < s" using j'(2) \<open>off ?z j' < N - 1\<close> os by (simp_all add: m_def)
    have "off ?z ((i + m) mod N) = off ?z i + m" using m(2) walk by (intro off_walk [OF z i]) simp
    then have "(i + m) mod N = j'" using off_inj [OF _ j'(1)] j'(2) N_pos by (simp add: m_def)
    then show "key (t ! j') \<noteq> None" using least [OF m(2)] m s by auto
  qed
qed

end

end
