(* ===== verification/Internal_Arena.thy ===== *)
theory Internal_Arena
  imports Common
begin

text \<open>
  \<open>src/src/alloc/alloc.cpp\<close>: the bump arena that holds the library's own metadata (rings,
  dispatch table).  What \<open>mmap\<close> returns is an argument (\<open>None\<close> for \<open>MAP_FAILED\<close>) and a
  failed \<open>assert\<close> is an error value.  The lemmas show that blocks are aligned, lie inside
  the mapping, never overlap, and that the arena refuses exactly the requests that do not fit.
\<close>

datatype arena_error = Arena_mmap_failed | Arena_exhausted

definition ARENA_SIZE :: u64 where
  "ARENA_SIZE = 4 * 1024 * 1024"

record Arena =
  arena_base :: addr
  arena_cursor :: addr
  arena_end :: addr

definition g_arena_zero :: Arena where
  "g_arena_zero = \<lparr>arena_base = 0, arena_cursor = 0, arena_end = 0\<rparr>"

definition alloc_init :: "addr option \<Rightarrow> Arena \<Rightarrow> arena_error + Arena" where
  "alloc_init mem a =
     (if arena_base a \<noteq> 0 then Inr a
      else case mem of
             None \<Rightarrow> Inl Arena_mmap_failed
           | Some m \<Rightarrow> Inr \<lparr>arena_base = m, arena_cursor = m, arena_end = m + ARENA_SIZE\<rparr>)"

definition alloc_alloc :: "u64 \<Rightarrow> u64 \<Rightarrow> Arena \<Rightarrow> arena_error + (addr \<times> Arena)" where
  "alloc_alloc sz align a =
     (let cur = arena_cursor a;
          aligned = (cur + align - 1) AND NOT (align - 1);
          next = aligned + sz
      in if next \<le> arena_end a then Inr (aligned, a\<lparr>arena_cursor := next\<rparr>)
         else Inl Arena_exhausted)"

text \<open>A sequence of requests, stopped by the first failed assertion.\<close>

fun alloc_seq :: "(u64 \<times> u64) list \<Rightarrow> Arena \<Rightarrow> arena_error + (addr list \<times> Arena)" where
  "alloc_seq [] a = Inr ([], a)"
| "alloc_seq ((sz, align) # rs) a =
     (case alloc_alloc sz align a of
        Inl e \<Rightarrow> Inl e
      | Inr (p, a') \<Rightarrow>
          (case alloc_seq rs a' of Inl e \<Rightarrow> Inl e | Inr (ps, a'') \<Rightarrow> Inr (p # ps, a'')))"

text \<open>
  The invariant: the cursor lies between base and end, and the mapping is a user-space range
  (below \<open>2 ^ 47\<close>).  A request is sane when its alignment is a power of two up to a page
  and its size is below \<open>2 ^ 47\<close>, so the address arithmetic cannot wrap.
\<close>

definition arena_inv :: "Arena \<Rightarrow> bool" where
  "arena_inv a \<longleftrightarrow>
     unat (arena_base a) \<le> unat (arena_cursor a) \<and>
     unat (arena_cursor a) \<le> unat (arena_end a) \<and> unat (arena_end a) \<le> 2 ^ 47"

definition request_ok :: "u64 \<times> u64 \<Rightarrow> bool" where
  "request_ok r \<longleftrightarrow> (\<exists>k \<le> 12. snd r = 2 ^ k) \<and> unat (fst r) < 2 ^ 47"

section \<open>One allocation\<close>

lemma alloc_init_inv:
  "alloc_init (Some m) g_arena_zero = Inr a \<Longrightarrow> unat m + 2 ^ 22 \<le> 2 ^ 47 \<Longrightarrow>
     arena_inv a \<and> arena_base a = m \<and> unat (arena_end a) = unat m + 2 ^ 22"
  by (auto simp: alloc_init_def g_arena_zero_def arena_inv_def ARENA_SIZE_def unat_plus_no_wrap)

text \<open>The aligned address and the end of the block, as natural numbers.\<close>

definition aligned_of :: "nat \<Rightarrow> nat \<Rightarrow> nat" where
  "aligned_of cur al = (cur + al - 1) div al * al"

lemma alloc_alloc_eq:
  assumes "arena_inv a" and "request_ok (sz, align)"
  shows "unat ((arena_cursor a + align - 1) AND NOT (align - 1)) =
           aligned_of (unat (arena_cursor a)) (unat align)"
    and "unat (((arena_cursor a + align - 1) AND NOT (align - 1)) + sz) =
           aligned_of (unat (arena_cursor a)) (unat align) + unat sz"
proof -
  from assms(2) obtain k where k: "k \<le> 12" and al: "align = 2 ^ k"
    by (auto simp: request_ok_def)
  have un: "unat align = 2 ^ k"
    using k unfolding al by (subst unat_power2) auto
  have m: "align - 1 = mask k"
    by (simp add: al mask_eq_exp_minus_1)
  have c: "unat (arena_cursor a) \<le> 2 ^ 47"
    using assms(1) by (simp add: arena_inv_def)
  have k12: "(2::nat) ^ k \<le> 2 ^ 12"
    using k by (rule power_increasing) simp
  have e: "arena_cursor a + align - 1 = arena_cursor a + mask k"
    by (simp add: m [symmetric])
  show 1: "unat ((arena_cursor a + align - 1) AND NOT (align - 1)) =
             aligned_of (unat (arena_cursor a)) (unat align)"
    unfolding e m un aligned_of_def using c k12 by (subst unat_align_up) auto
  have "aligned_of (unat (arena_cursor a)) (unat align) < unat (arena_cursor a) + 2 ^ k"
    unfolding aligned_of_def un by (rule align_up_bounds(2)) simp
  moreover have "unat sz < 2 ^ 47"
    using assms(2) by (simp add: request_ok_def)
  ultimately show "unat (((arena_cursor a + align - 1) AND NOT (align - 1)) + sz) =
             aligned_of (unat (arena_cursor a)) (unat align) + unat sz"
    using 1 c k12 by (subst unat_plus_no_wrap) auto
qed

lemma alloc_alloc_cases:
  assumes "arena_inv a" and "request_ok (sz, align)"
  shows "alloc_alloc sz align a =
    (let p = (arena_cursor a + align - 1) AND NOT (align - 1) in
     if aligned_of (unat (arena_cursor a)) (unat align) + unat sz \<le> unat (arena_end a)
     then Inr (p, a\<lparr>arena_cursor := p + sz\<rparr>) else Inl Arena_exhausted)"
  using alloc_alloc_eq [OF assms] by (simp add: alloc_alloc_def Let_def word_le_nat_alt)

lemma aligned_of_ge: "0 < al \<Longrightarrow> n \<le> aligned_of n al"
  unfolding aligned_of_def by (rule align_up_bounds(1))

lemma aligned_of_mod: "aligned_of n al mod al = 0"
  by (simp add: aligned_of_def)

lemma request_ok_align_pos: "request_ok (sz, align) \<Longrightarrow> 0 < unat align"
  by (auto simp: request_ok_def unat_power2)

lemma alloc_alloc_Inr:
  assumes "arena_inv a" and "request_ok (sz, align)"
    and "alloc_alloc sz align a = Inr (p, a')"
  shows "arena_inv a'" and "unat (arena_cursor a) \<le> unat p"
    and "unat p mod unat align = 0" and "unat p + unat sz = unat (arena_cursor a')"
    and "arena_end a' = arena_end a" and "arena_base a' = arena_base a"
proof -
  note eqs = alloc_alloc_eq [OF assms(1,2)]
  from assms(3) have p: "p = (arena_cursor a + align - 1) AND NOT (align - 1)"
    and a': "a' = a\<lparr>arena_cursor := p + sz\<rparr>"
    and fits: "aligned_of (unat (arena_cursor a)) (unat align) + unat sz \<le> unat (arena_end a)"
    by (auto simp: alloc_alloc_cases [OF assms(1,2)] Let_def split: if_splits)
  have up: "unat p = aligned_of (unat (arena_cursor a)) (unat align)"
    and ue: "unat (p + sz) = unat p + unat sz"
    using eqs by (simp_all add: p)
  show ge: "unat (arena_cursor a) \<le> unat p"
    unfolding up using request_ok_align_pos [OF assms(2)] by (rule aligned_of_ge)
  show "arena_inv a'"
    using assms(1) fits up ue ge by (simp add: arena_inv_def a')
  show "unat p mod unat align = 0"
    unfolding up by (rule aligned_of_mod)
  show "unat p + unat sz = unat (arena_cursor a')"
    using ue by (simp add: a')
  show "arena_end a' = arena_end a" and "arena_base a' = arena_base a"
    by (simp_all add: a')
qed

section \<open>Sequences of allocations\<close>

definition blocks_from :: "Arena \<Rightarrow> (u64 \<times> u64) list \<Rightarrow> addr list \<Rightarrow> bool" where
  "blocks_from a rs ps \<longleftrightarrow> length ps = length rs \<and>
     (\<forall>i < length rs.
        unat (arena_cursor a) \<le> unat (ps ! i) \<and>
        unat (ps ! i) mod unat (snd (rs ! i)) = 0 \<and>
        unat (ps ! i) + unat (fst (rs ! i)) \<le> unat (arena_end a)) \<and>
     (\<forall>i < length rs. \<forall>j < i.
        unat (ps ! j) + unat (fst (rs ! j)) \<le> unat (ps ! i))"

lemma alloc_seq_blocks:
  "arena_inv a \<Longrightarrow> (\<forall>r \<in> set rs. request_ok r) \<Longrightarrow> alloc_seq rs a = Inr (ps, a') \<Longrightarrow>
     arena_inv a' \<and> blocks_from a rs ps"
proof (induction rs arbitrary: a ps)
  case Nil
  then show ?case by (simp add: blocks_from_def)
next
  case (Cons r rs)
  obtain sz align where r: "r = (sz, align)" by (cases r)
  from Cons.prems(3) obtain p a1 qs where
    step: "alloc_alloc sz align a = Inr (p, a1)"
    and rest: "alloc_seq rs a1 = Inr (qs, a')" and ps: "ps = p # qs"
    by (auto simp: r split: sum.splits prod.splits)
  have ok: "request_ok (sz, align)" using Cons.prems(2) by (simp add: r)
  note one = alloc_alloc_Inr [OF Cons.prems(1) ok step]
  have IH: "arena_inv a' \<and> blocks_from a1 rs qs"
    using Cons.prems(2) by (intro Cons.IH [OF one(1) _ rest]) simp
  then have "blocks_from a (r # rs) (p # qs)"
    using one(2-5) one(1) unfolding blocks_from_def r
    by (fastforce simp: nth_Cons arena_inv_def split: nat.splits)
  with IH ps show ?case by simp
qed

text \<open>The arena refuses a request exactly when the aligned block does not fit.\<close>

lemma alloc_alloc_exhausted_iff:
  assumes "arena_inv a" and "request_ok (sz, align)"
  shows "alloc_alloc sz align a = Inl Arena_exhausted \<longleftrightarrow>
    unat (arena_end a) < aligned_of (unat (arena_cursor a)) (unat align) + unat sz"
  by (auto simp: alloc_alloc_cases [OF assms] Let_def)


section \<open>Equal blocks\<close>

lemma aligned_of_id:
  assumes "n mod al = 0" and "0 < al"
  shows "aligned_of n al = n"
proof -
  from assms(1) obtain q where q: "n = al * q" by (auto simp: mod_eq_0_iff_dvd)
  have "(al * q + al - 1) div al = q"
    using assms(2) by (intro div_nat_eqI) (auto simp: algebra_simps)
  then show ?thesis by (simp add: aligned_of_def q)
qed

lemma request_ok_8: "unat sz < 2 ^ 47 \<Longrightarrow> request_ok (sz, 8)"
  unfolding request_ok_def by (auto intro!: exI [of _ 3])

lemma alloc_alloc_8:
  assumes "arena_inv a" and "unat (arena_cursor a) mod 8 = 0" and "unat sz < 2 ^ 47"
  shows "(\<exists>p a'. alloc_alloc sz 8 a = Inr (p, a')) \<longleftrightarrow>
           unat (arena_cursor a) + unat sz \<le> unat (arena_end a)"
    and "alloc_alloc sz 8 a = Inr (p, a') \<Longrightarrow>
           arena_inv a' \<and> unat (arena_cursor a') = unat (arena_cursor a) + unat sz \<and>
           arena_end a' = arena_end a"
proof -
  note ok = request_ok_8 [OF assms(3)]
  have al: "aligned_of (unat (arena_cursor a)) (unat (8::u64)) = unat (arena_cursor a)"
    using assms(2) by (simp add: aligned_of_id)
  show "(\<exists>p a'. alloc_alloc sz 8 a = Inr (p, a')) \<longleftrightarrow>
           unat (arena_cursor a) + unat sz \<le> unat (arena_end a)"
    unfolding alloc_alloc_cases [OF assms(1) ok] al by (simp add: Let_def)
  assume r: "alloc_alloc sz 8 a = Inr (p, a')"
  have "unat p = unat (arena_cursor a)"
    using r alloc_alloc_eq(1) [OF assms(1) ok] al
    by (auto simp: alloc_alloc_cases [OF assms(1) ok] Let_def split: if_splits)
  then show "arena_inv a' \<and> unat (arena_cursor a') = unat (arena_cursor a) + unat sz \<and>
           arena_end a' = arena_end a"
    using alloc_alloc_Inr [OF assms(1) ok r] by simp
qed


section \<open>Properties\<close>

text \<open>C14: the blocks that a sequence of internal allocations returns are aligned as requested,
  lie between the cursor at the start and the end of the mapping, and are pairwise disjoint;
  the invariant of the arena is kept.\<close>

theorem arena_blocks_disjoint:
  assumes "arena_inv a" and "\<forall>r \<in> set rs. request_ok r" and "alloc_seq rs a = Inr (ps, a')"
  shows "arena_inv a' \<and> length ps = length rs \<and>
    (\<forall>i < length rs.
        unat (arena_cursor a) \<le> unat (ps ! i) \<and>
        unat (ps ! i) mod unat (snd (rs ! i)) = 0 \<and>
        unat (ps ! i) + unat (fst (rs ! i)) \<le> unat (arena_end a) \<and>
        (\<forall>j < i. unat (ps ! j) + unat (fst (rs ! j)) \<le> unat (ps ! i)))"
  using alloc_seq_blocks [OF assms] by (auto simp: blocks_from_def)

theorem arena_blocks_disjoint_witness:
  "alloc_seq [(100, 16), (24, 8)] \<lparr>arena_base = 0x1000, arena_cursor = 0x1001, arena_end = 0x401000\<rparr> =
     Inr ([0x1010, 0x1078], \<lparr>arena_base = 0x1000, arena_cursor = 0x1090, arena_end = 0x401000\<rparr>) \<and>
   unat (0x1010 :: addr) + unat (100 :: u64) \<le> unat (0x1078 :: addr)"
proof -
  let ?a = "\<lparr>arena_base = 0x1000, arena_cursor = 0x1001, arena_end = 0x401000\<rparr>"
  let ?rs = "[(100, 16), (24, 8)] :: (u64 \<times> u64) list"
  have inv: "arena_inv ?a" by (simp add: arena_inv_def)
  have ok: "\<forall>r \<in> set ?rs. request_ok r"
    by (auto simp: request_ok_def intro: exI [of _ 4] exI [of _ 3])
  have run: "alloc_seq ?rs ?a =
     Inr ([0x1010, 0x1078], \<lparr>arena_base = 0x1000, arena_cursor = 0x1090, arena_end = 0x401000\<rparr>)"
    by (simp add: alloc_alloc_def Let_def)
  show ?thesis
    using arena_blocks_disjoint [OF inv ok run] run by (auto simp: less_Suc_eq)
qed

end
