(* ===== verification/Dispatch.thy ===== *)
theory Dispatch
  imports Open_Addressing Internal_Arena
begin

text \<open>
  \<open>src/src/dispatch/dispatch.cpp\<close>: the table from call sites to compiled routines, and the
  generation counter that invalidates the per-thread inline caches.  A routine is its code
  address, 0 for none.  The table is an interpretation of \<open>open_addressing\<close>; its refinement to
  a map holds for every call site but 0, the value that marks a free entry.
\<close>

datatype dispatch_error = Dispatch_table_full

definition TABLE_SIZE :: u64 where
  "TABLE_SIZE = 4096"

record Entry =
  de_fn :: addr
  de_id :: CallSiteID

record dispatch =
  dt_table :: "Entry list"
  dt_generation :: u64

definition probe_slot :: "CallSiteID \<Rightarrow> nat \<Rightarrow> nat" where
  "probe_slot cs i = unat (((ucast cs AND (TABLE_SIZE - 1)) + of_nat i) AND (TABLE_SIZE - 1))"

definition dispatch_find :: "CallSiteID \<Rightarrow> Entry list \<Rightarrow> nat option" where
  "dispatch_find cs tbl =
     map_option (probe_slot cs)
       (find_index (\<lambda>i. let e = tbl ! probe_slot cs i in de_id e = cs \<or> de_id e = 0)
          [0..<unat TABLE_SIZE])"

definition dispatch_static :: dispatch where
  "dispatch_static = \<lparr>dt_table = [], dt_generation = 1\<rparr>"

text \<open>\<open>sizeof (Entry)\<close> is 16 and its alignment 8.\<close>

definition dispatch_init :: "Arena \<Rightarrow> dispatch \<Rightarrow> arena_error + (Arena \<times> dispatch)" where
  "dispatch_init a d =
     (case alloc_alloc (16 * TABLE_SIZE) 8 a of
        Inl e \<Rightarrow> Inl e
      | Inr (p, a') \<Rightarrow>
          Inr (a', d\<lparr>dt_table := replicate (unat TABLE_SIZE) \<lparr>de_fn = 0, de_id = 0\<rparr>\<rparr>))"

definition dispatch_install :: "CallSiteID \<Rightarrow> addr \<Rightarrow> dispatch \<Rightarrow> dispatch_error + dispatch" where
  "dispatch_install cs fn d =
     (case dispatch_find cs (dt_table d) of
        None \<Rightarrow> Inl Dispatch_table_full
      | Some i \<Rightarrow>
          Inr (d\<lparr>dt_table := (dt_table d)[i := \<lparr>de_fn = fn, de_id = cs\<rparr>],
                 dt_generation := dt_generation d + 1\<rparr>))"

definition dispatch_revert :: "CallSiteID \<Rightarrow> dispatch \<Rightarrow> dispatch" where
  "dispatch_revert cs d =
     (case dispatch_find cs (dt_table d) of
        None \<Rightarrow> d
      | Some i \<Rightarrow>
          (if de_id (dt_table d ! i) = cs
           then d\<lparr>dt_table := (dt_table d)[i := (dt_table d ! i)\<lparr>de_fn := 0\<rparr>],
                  dt_generation := dt_generation d + 1\<rparr>
           else d))"

definition dispatch_lookup :: "CallSiteID \<Rightarrow> dispatch \<Rightarrow> addr" where
  "dispatch_lookup cs d =
     (case dispatch_find cs (dt_table d) of
        None \<Rightarrow> 0
      | Some i \<Rightarrow> if de_id (dt_table d ! i) \<noteq> cs then 0 else de_fn (dt_table d ! i))"

datatype dispatch_op = Install CallSiteID addr | Revert CallSiteID

fun dispatch_run :: "dispatch_op list \<Rightarrow> dispatch \<Rightarrow> dispatch_error + dispatch" where
  "dispatch_run [] d = Inr d"
| "dispatch_run (Install cs fn # ops) d =
     (case dispatch_install cs fn d of Inl e \<Rightarrow> Inl e | Inr d' \<Rightarrow> dispatch_run ops d')"
| "dispatch_run (Revert cs # ops) d = dispatch_run ops (dispatch_revert cs d)"

text \<open>The abstract table: a total map to code addresses, 0 where nothing is installed.\<close>

fun spec_op :: "dispatch_op \<Rightarrow> (CallSiteID \<Rightarrow> addr) \<Rightarrow> CallSiteID \<Rightarrow> addr" where
  "spec_op (Install cs fn) m = m(cs := fn)"
| "spec_op (Revert cs) m = m(cs := 0)"

fun op_site :: "dispatch_op \<Rightarrow> CallSiteID" where
  "op_site (Install cs fn) = cs"
| "op_site (Revert cs) = cs"

definition installed_sites :: "dispatch_op list \<Rightarrow> CallSiteID set" where
  "installed_sites ops = {cs. \<exists>fn. Install cs fn \<in> set ops}"

section \<open>The table as an open-addressing table\<close>

definition entry_key :: "Entry \<Rightarrow> CallSiteID option" where
  "entry_key e = (if de_id e = 0 then None else Some (de_id e))"

interpretation dtab: open_addressing 4096 "\<lambda>cs :: CallSiteID. unat cs mod 4096" entry_key
  by unfold_locales simp_all

lemma probe_slot_eq: "probe_slot cs i = dtab.slot cs i"
proof -
  have m: "TABLE_SIZE - 1 = mask 12" by (simp add: TABLE_SIZE_def mask_eq_exp_minus_1)
  have u: "unat (ucast cs :: u64) = unat cs" by (rule unat_ucast_up) simp
  have "probe_slot cs i = unat ((ucast cs AND mask 12) + of_nat i :: u64) mod 4096"
    by (simp add: probe_slot_def m unat_and_mask)
  also have "\<dots> = (unat cs mod 4096 + i) mod 4096"
    by (simp add: unat_word_ariths unat_and_mask u mod_mod_cancel unat_of_nat mod_add_right_eq
        mod_add_eq)
  finally show ?thesis by (simp add: dtab.slot_def)
qed

lemma dispatch_find_eq:
  "cs \<noteq> 0 \<Longrightarrow> dispatch_find cs t = map_option (dtab.slot cs) (dtab.probe t cs)"
proof -
  assume nz: "cs \<noteq> 0"
  have "(\<lambda>i. let e = t ! probe_slot cs i in de_id e = cs \<or> de_id e = 0) = dtab.hit t cs"
    using nz by (auto simp: fun_eq_iff dtab.hit_def probe_slot_eq entry_key_def)
  then show ?thesis
    by (simp add: dispatch_find_def dtab.probe_def TABLE_SIZE_def probe_slot_eq [abs_def])
qed

lemma dispatch_lookup_eq:
  "cs \<noteq> 0 \<Longrightarrow> dispatch_lookup cs d =
     (case dtab.entry_of (dt_table d) cs of None \<Rightarrow> 0 | Some e \<Rightarrow> de_fn e)"
  by (auto simp: dispatch_lookup_def dtab.entry_of_def dispatch_find_eq entry_key_def
      split: option.splits)

definition dispatch_inv :: "dispatch \<Rightarrow> bool" where
  "dispatch_inv d \<longleftrightarrow> dtab.probe_inv (dt_table d)"

lemma dispatch_init_inv: "dispatch_init a d = Inr (a', d') \<Longrightarrow> dispatch_inv d'"
  by (auto simp: dispatch_init_def dispatch_inv_def TABLE_SIZE_def entry_key_def
      split: sum.splits prod.splits intro!: dtab.probe_inv_empty)

lemma dispatch_init_lookup: "dispatch_init a d = Inr (a', d') \<Longrightarrow> dispatch_lookup cs d' = 0"
proof -
  assume "dispatch_init a d = Inr (a', d')"
  then have t: "dt_table d' = replicate 4096 \<lparr>de_fn = 0, de_id = 0\<rparr>"
    by (auto simp: dispatch_init_def TABLE_SIZE_def split: sum.splits prod.splits)
  have "dt_table d' ! probe_slot cs i = \<lparr>de_fn = 0, de_id = 0\<rparr>" for i
    unfolding t probe_slot_eq using dtab.slot_less [of cs i] by (rule nth_replicate)
  then show ?thesis
    by (auto simp: dispatch_lookup_def dispatch_find_def split: option.splits)
qed

section \<open>Install and revert\<close>

lemma dispatch_install_Inr:
  assumes inv: "dispatch_inv d" and nz: "cs \<noteq> 0" and r: "dispatch_install cs fn d = Inr d'"
  shows "dispatch_inv d'" and "dtab.entry_of (dt_table d') k =
      (if k = cs then Some \<lparr>de_fn = fn, de_id = cs\<rparr> else dtab.entry_of (dt_table d) k)"
    and "dt_generation d' = dt_generation d + 1"
proof -
  from r nz obtain p where p: "dtab.probe (dt_table d) cs = Some p"
    and d': "d' = d\<lparr>dt_table := (dt_table d)[dtab.slot cs p := \<lparr>de_fn = fn, de_id = cs\<rparr>],
                    dt_generation := dt_generation d + 1\<rparr>"
    by (auto simp: dispatch_install_def dispatch_find_eq split: option.splits)
  have key: "entry_key \<lparr>de_fn = fn, de_id = cs\<rparr> = Some cs"
    using nz by (simp add: entry_key_def)
  note inv = inv [unfolded dispatch_inv_def]
  show "dispatch_inv d'"
    using dtab.probe_inv_update [OF inv p key] by (simp add: d' dispatch_inv_def)
  show "dtab.entry_of (dt_table d') k =
      (if k = cs then Some \<lparr>de_fn = fn, de_id = cs\<rparr> else dtab.entry_of (dt_table d) k)"
    using dtab.entry_of_update [OF inv p key] by (simp add: d')
  show "dt_generation d' = dt_generation d + 1" by (simp add: d')
qed

lemma dispatch_install_room:
  assumes "dispatch_inv d" and "cs \<noteq> 0" and "finite K" and "card K < 4096"
    and "\<And>k. dtab.entry_of (dt_table d) k \<noteq> None \<Longrightarrow> k \<in> K"
  shows "\<exists>d'. dispatch_install cs fn d = Inr d'"
  using dtab.probe_room [of "dt_table d" K cs] assms
  by (auto simp: dispatch_install_def dispatch_find_eq dispatch_inv_def split: option.split)

lemma dispatch_install_present:
  assumes "dispatch_inv d" and "cs \<noteq> 0" and "dtab.entry_of (dt_table d) cs \<noteq> None"
  shows "\<exists>d'. dispatch_install cs fn d = Inr d'"
  using assms by (auto simp: dispatch_install_def dispatch_find_eq dtab.entry_of_def split: option.splits)

lemma dispatch_revert_inv:
  assumes inv: "dispatch_inv d" and nz: "cs \<noteq> 0"
  shows "dispatch_inv (dispatch_revert cs d)"
    and "dtab.entry_of (dt_table (dispatch_revert cs d)) k =
      (if k = cs then map_option (\<lambda>e. e\<lparr>de_fn := 0\<rparr>) (dtab.entry_of (dt_table d) k)
       else dtab.entry_of (dt_table d) k)"
proof -
  have "dispatch_inv (dispatch_revert cs d) \<and>
    dtab.entry_of (dt_table (dispatch_revert cs d)) k =
      (if k = cs then map_option (\<lambda>e. e\<lparr>de_fn := 0\<rparr>) (dtab.entry_of (dt_table d) k)
       else dtab.entry_of (dt_table d) k)"
  proof (cases "dtab.entry_of (dt_table d) cs")
    case None
    then have "dispatch_revert cs d = d"
      using nz by (auto simp: dispatch_revert_def dispatch_find_eq dtab.entry_of_def entry_key_def
          split: option.splits if_splits)
    with None inv show ?thesis by simp
  next
    case (Some e)
    then obtain p where p: "dtab.probe (dt_table d) cs = Some p"
      and e: "dt_table d ! dtab.slot cs p = e" and ke: "entry_key e = Some cs"
      by (auto simp: dtab.entry_of_def split: option.splits if_splits)
    then have k0: "entry_key (e\<lparr>de_fn := 0\<rparr>) = Some cs" and idn: "de_id e = cs"
      using nz by (auto simp: entry_key_def split: if_splits)
    have rv: "dispatch_revert cs d =
        d\<lparr>dt_table := (dt_table d)[dtab.slot cs p := e\<lparr>de_fn := 0\<rparr>],
          dt_generation := dt_generation d + 1\<rparr>"
      using nz p e idn by (simp add: dispatch_revert_def dispatch_find_eq)
    note inv = inv [unfolded dispatch_inv_def]
    from dtab.probe_inv_update [OF inv p k0] dtab.entry_of_update [OF inv p k0] Some
    show ?thesis by (simp add: rv dispatch_inv_def)
  qed
  then show "dispatch_inv (dispatch_revert cs d)"
    and "dtab.entry_of (dt_table (dispatch_revert cs d)) k =
      (if k = cs then map_option (\<lambda>e. e\<lparr>de_fn := 0\<rparr>) (dtab.entry_of (dt_table d) k)
       else dtab.entry_of (dt_table d) k)"
    by blast+
qed

lemma dispatch_lookup_install:
  assumes "dispatch_inv d" and "cs \<noteq> 0" and "k \<noteq> 0" and "dispatch_install cs fn d = Inr d'"
  shows "dispatch_lookup k d' = (if k = cs then fn else dispatch_lookup k d)"
  using dispatch_install_Inr(2) [OF assms(1,2,4), of k] assms(3) by (simp add: dispatch_lookup_eq)

lemma dispatch_lookup_revert:
  assumes "dispatch_inv d" and "cs \<noteq> 0" and "k \<noteq> 0"
  shows "dispatch_lookup k (dispatch_revert cs d) = (if k = cs then 0 else dispatch_lookup k d)"
  using dispatch_revert_inv(2) [OF assms(1,2), of k] assms(3)
  by (simp add: dispatch_lookup_eq split: option.splits)

section \<open>Sequences of operations\<close>

lemma dispatch_run_spec:
  assumes "dispatch_inv d" and "\<forall>op \<in> set ops. op_site op \<noteq> 0"
    and "\<forall>k. k \<noteq> 0 \<longrightarrow> dispatch_lookup k d = m k"
    and "finite K" and "\<And>k. dtab.entry_of (dt_table d) k \<noteq> None \<Longrightarrow> k \<in> K"
    and "card (K \<union> installed_sites ops) \<le> 4096" and "finite (installed_sites ops)"
  shows "\<exists>d'. dispatch_run ops d = Inr d' \<and> dispatch_inv d' \<and>
    (\<forall>k. k \<noteq> 0 \<longrightarrow> dispatch_lookup k d' = fold spec_op ops m k)"
  using assms
proof (induction ops arbitrary: d m K)
  case Nil
  then show ?case by simp
next
  case (Cons op ops)
  show ?case
  proof (cases op)
    case (Install cs fn)
    have nz: "cs \<noteq> 0" using Cons.prems(2) Install by simp
    have sites: "installed_sites (op # ops) = insert cs (installed_sites ops)"
      by (auto simp: installed_sites_def Install)
    have fin: "finite (installed_sites ops)" using Cons.prems(7) sites by simp
    have "\<exists>d'. dispatch_install cs fn d = Inr d'"
    proof (cases "dtab.entry_of (dt_table d) cs = None")
      case True
      have "card (K - {cs}) < card (insert cs (K - {cs}))"
        using Cons.prems(4) by (subst card_insert_disjoint) auto
      also have "\<dots> \<le> card (K \<union> installed_sites (op # ops))"
        using Cons.prems(4) fin by (intro card_mono) (auto simp: sites)
      finally have lt: "card (K - {cs}) < 4096" using Cons.prems(6) by simp
      have "k \<in> K - {cs}" if "dtab.entry_of (dt_table d) k \<noteq> None" for k
        using that True Cons.prems(5) by auto
      with lt Cons.prems(4) show ?thesis
        by (intro dispatch_install_room [OF Cons.prems(1) nz, of "K - {cs}"]) auto
    qed (rule dispatch_install_present [OF Cons.prems(1) nz])
    then obtain d' where d': "dispatch_install cs fn d = Inr d'" by blast
    note I = dispatch_install_Inr [OF Cons.prems(1) nz d']
    have "\<exists>d''. dispatch_run ops d' = Inr d'' \<and> dispatch_inv d'' \<and>
        (\<forall>k. k \<noteq> 0 \<longrightarrow> dispatch_lookup k d'' = fold spec_op ops (m(cs := fn)) k)"
    proof (rule Cons.IH [where K = "insert cs K"])
      show "\<forall>k. k \<noteq> 0 \<longrightarrow> dispatch_lookup k d' = (m(cs := fn)) k"
        using dispatch_lookup_install [OF Cons.prems(1) nz _ d'] Cons.prems(3) by simp
      show "k \<in> insert cs K" if "dtab.entry_of (dt_table d') k \<noteq> None" for k
        using that Cons.prems(5) by (auto simp: I(2) split: if_splits)
      show "card (insert cs K \<union> installed_sites ops) \<le> 4096"
        using Cons.prems(6) by (simp add: sites)
    qed (use I(1) Cons.prems(2,4) fin in auto)
    with d' Install show ?thesis by simp
  next
    case (Revert cs)
    have nz: "cs \<noteq> 0" using Cons.prems(2) Revert by simp
    have sites: "installed_sites (op # ops) = installed_sites ops"
      by (auto simp: installed_sites_def Revert)
    have "\<exists>d''. dispatch_run ops (dispatch_revert cs d) = Inr d'' \<and> dispatch_inv d'' \<and>
        (\<forall>k. k \<noteq> 0 \<longrightarrow> dispatch_lookup k d'' = fold spec_op ops (m(cs := 0)) k)"
    proof (rule Cons.IH [where K = K])
      show "\<forall>k. k \<noteq> 0 \<longrightarrow> dispatch_lookup k (dispatch_revert cs d) = (m(cs := 0)) k"
        using dispatch_lookup_revert [OF Cons.prems(1) nz] Cons.prems(3) by simp
      show "k \<in> K" if "dtab.entry_of (dt_table (dispatch_revert cs d)) k \<noteq> None" for k
        using that Cons.prems(5) by (auto simp: dispatch_revert_inv(2) [OF Cons.prems(1) nz] split: if_splits)
    qed (use dispatch_revert_inv(1) [OF Cons.prems(1) nz] Cons.prems(2,4,6,7) sites in auto)
    with Revert show ?thesis by simp
  qed
qed

lemma finite_installed_sites: "finite (installed_sites ops)"
proof -
  have "installed_sites ops \<subseteq> op_site ` set ops"
    by (force simp: installed_sites_def)
  then show ?thesis by (rule finite_subset) simp
qed

section \<open>Properties\<close>

text \<open>C9: after start-up, any sequence of installs and reverts on non-zero call sites that installs
  at most 4096 distinct sites succeeds (the assertion in install never fires), and lookups
  then answer exactly as a map updated by the same operations.\<close>

theorem dispatch_refines_map:
  assumes "dispatch_init a dispatch_static = Inr (a', d)"
    and "\<forall>op \<in> set ops. op_site op \<noteq> 0" and "card (installed_sites ops) \<le> 4096"
  shows "\<exists>d'. dispatch_run ops d = Inr d' \<and>
    (\<forall>cs. cs \<noteq> 0 \<longrightarrow> dispatch_lookup cs d' = fold spec_op ops (\<lambda>_. 0) cs)"
proof -
  have inv: "dispatch_inv d" using assms(1) by (rule dispatch_init_inv)
  have l0: "dispatch_lookup k d = 0" for k using assms(1) by (rule dispatch_init_lookup)
  have "dt_table d = replicate 4096 \<lparr>de_fn = 0, de_id = 0\<rparr>"
    using assms(1) by (auto simp: dispatch_init_def TABLE_SIZE_def split: sum.splits prod.splits)
  then have "dtab.entry_of (dt_table d) k = None" for k
    using dtab.entry_of_None_iff [OF inv [unfolded dispatch_inv_def], of k]
    by (simp add: entry_key_def)
  then show ?thesis
    using dispatch_run_spec [OF inv assms(2), of "\<lambda>_. 0" "{}"] l0 assms(3) finite_installed_sites
    by auto
qed

theorem dispatch_refines_map_witness:
  "\<exists>a' d d'.
     dispatch_init \<lparr>arena_base = 0x1000, arena_cursor = 0x1000, arena_end = 0x401000\<rparr> dispatch_static = Inr (a', d) \<and>
     dispatch_run [Install 7 0xAA0, Install 4103 0xBB0, Revert 7] d = Inr d' \<and>
     dispatch_lookup 4103 d' = 0xBB0 \<and> dispatch_lookup 7 d' = 0"
proof -
  let ?a = "\<lparr>arena_base = 0x1000, arena_cursor = 0x1000, arena_end = 0x401000\<rparr>"
  let ?ops = "[Install 7 0xAA0, Install 4103 0xBB0, Revert 7]"
  obtain a' d where i: "dispatch_init ?a dispatch_static = Inr (a', d)"
    by (simp add: dispatch_init_def alloc_alloc_def TABLE_SIZE_def Let_def)
  have "installed_sites ?ops = {7, 4103}" by (auto simp: installed_sites_def)
  then have few: "card (installed_sites ?ops) \<le> 4096"
    by (simp add: card_insert_if)
  obtain d' where r: "dispatch_run ?ops d = Inr d'"
    and l: "\<forall>cs. cs \<noteq> 0 \<longrightarrow> dispatch_lookup cs d' = fold spec_op ?ops (\<lambda>_. 0) cs"
    using dispatch_refines_map [OF i _ few] by auto
  have "dispatch_lookup 4103 d' = 0xBB0 \<and> dispatch_lookup 7 d' = 0"
    using l by simp
  with i r show ?thesis by blast
qed


text \<open>the map abstraction fails for the call site 0, because a free entry is recognised by the
  identifier 0: a routine installed for site 0 is found at first, but installing a routine for
  another site with the same home slot takes over its entry, and site 0 silently loses its
  routine.\<close>

theorem dispatch_site_zero_lost:
  assumes "dispatch_init a dispatch_static = Inr (a', d)"
  shows "\<exists>d1 d2. dispatch_install 0 f d = Inr d1 \<and> dispatch_lookup 0 d1 = f \<and>
    dispatch_install 4096 g d1 = Inr d2 \<and> dispatch_lookup 0 d2 = 0"
proof -
  let ?free = "\<lparr>de_fn = 0, de_id = 0\<rparr>"
  have t: "dt_table d = replicate 4096 ?free"
    using assms by (auto simp: dispatch_init_def TABLE_SIZE_def split: sum.splits prod.splits)
  have find0: "dispatch_find cs tbl = Some (probe_slot cs 0)"
    if "de_id (tbl ! probe_slot cs 0) = cs \<or> de_id (tbl ! probe_slot cs 0) = 0" for cs tbl
    unfolding dispatch_find_def using that
    by (subst find_index_SomeI [of 0]) (auto simp: TABLE_SIZE_def Let_def)
  have find1: "dispatch_find cs tbl = Some (probe_slot cs 1)"
    if "de_id (tbl ! probe_slot cs 0) \<noteq> cs" "de_id (tbl ! probe_slot cs 0) \<noteq> 0"
      "de_id (tbl ! probe_slot cs 1) = 0" for cs tbl
    unfolding dispatch_find_def using that
    by (subst find_index_SomeI [of 1]) (auto simp: TABLE_SIZE_def Let_def)
  have s: "probe_slot 0 0 = 0" "probe_slot 0 (Suc 0) = 1" "probe_slot 4096 0 = 0"
    by (simp_all add: probe_slot_eq dtab.slot_def)
  let ?t1 = "(replicate 4096 ?free)[0 := \<lparr>de_fn = f, de_id = 0\<rparr>]"
  let ?t2 = "?t1[0 := \<lparr>de_fn = g, de_id = 4096\<rparr>]"
  have f1: "dispatch_find 0 (replicate 4096 ?free) = Some 0"
    and f2: "dispatch_find 0 ?t1 = Some 0" and f3: "dispatch_find 4096 ?t1 = Some 0"
    by (simp_all add: find0 s)
  have f4: "dispatch_find 0 ?t2 = Some 1"
    by (subst find1) (simp_all add: s)
  have "dispatch_install 0 f d = Inr (d\<lparr>dt_table := ?t1, dt_generation := dt_generation d + 1\<rparr>)"
    (is "_ = Inr ?d1")
    by (simp add: dispatch_install_def t f1)
  moreover have "dispatch_lookup 0 ?d1 = f"
    using f2 by (simp add: dispatch_lookup_def)
  moreover have "dispatch_install 4096 g ?d1 =
      Inr (?d1\<lparr>dt_table := ?t2, dt_generation := dt_generation ?d1 + 1\<rparr>)" (is "_ = Inr ?d2")
    using f3 by (simp add: dispatch_install_def)
  moreover have "dispatch_lookup 0 ?d2 = 0"
    using f4 by (simp add: dispatch_lookup_def)
  ultimately show ?thesis by blast
qed

theorem dispatch_site_zero_lost_witness:
  "\<exists>a' d d1 d2.
     dispatch_init \<lparr>arena_base = 0x1000, arena_cursor = 0x1000, arena_end = 0x401000\<rparr> dispatch_static = Inr (a', d) \<and>
     dispatch_install 0 0xAA0 d = Inr d1 \<and> dispatch_lookup 0 d1 = 0xAA0 \<and>
     dispatch_install 4096 0xBB0 d1 = Inr d2 \<and> dispatch_lookup 0 d2 = 0"
proof -
  let ?a = "\<lparr>arena_base = 0x1000, arena_cursor = 0x1000, arena_end = 0x401000\<rparr>"
  obtain a' d where i: "dispatch_init ?a dispatch_static = Inr (a', d)"
    by (simp add: dispatch_init_def alloc_alloc_def TABLE_SIZE_def Let_def)
  from dispatch_site_zero_lost [OF i, of "0xAA0" "0xBB0"] i show ?thesis by blast
qed

end
