(* ===== verification/Double.thy ===== *)
theory Double
  imports Complex_Main
begin

text \<open>
  IEEE 754 binary64 as the sources use it: nonnegative values in the normal range, so a double
  is the rational it stands for and an operation is the exact result rounded to 53 significant
  bits, ties to even.  All functions compute.
\<close>

type_synonym double = rat

section \<open>Definitions\<close>

fun nlog2 :: "nat \<Rightarrow> nat" where
  "nlog2 n = (if n < 2 then 0 else Suc (nlog2 (n div 2)))"

declare nlog2.simps [simp del]

text \<open>The exponent \<open>e\<close> with \<open>2 ^ e \<le> x < 2 ^ (e + 1)\<close>.\<close>

definition exponent :: "rat \<Rightarrow> int" where
  "exponent x =
     (let (n, d) = quotient_of x; k = int (nlog2 (nat n)) - int (nlog2 (nat d))
      in if 2 powi k \<le> x then k else k - 1)"

definition round_even :: "rat \<Rightarrow> int" where
  "round_even r =
     (let f = \<lfloor>r\<rfloor>; d = r - of_int f
      in if d < 1 / 2 then f else if 1 / 2 < d then f + 1 else if even f then f else f + 1)"

definition rnd :: "rat \<Rightarrow> double" where
  "rnd x = (if x \<le> 0 then 0
            else let u = 2 powi (exponent x - 52) in of_int (round_even (x / u)) * u)"

definition d_of_nat :: "nat \<Rightarrow> double" where
  "d_of_nat n = rnd (of_nat n)"

definition fadd :: "double \<Rightarrow> double \<Rightarrow> double" where
  "fadd x y = rnd (x + y)"

definition fsub :: "double \<Rightarrow> double \<Rightarrow> double" where
  "fsub x y = rnd (x - y)"

definition fmul :: "double \<Rightarrow> double \<Rightarrow> double" where
  "fmul x y = rnd (x * y)"

definition fdiv :: "double \<Rightarrow> double \<Rightarrow> double" where
  "fdiv x y = rnd (x / y)"

text \<open>\<open>static_cast<uint64_t>\<close>: truncation.\<close>

definition d_to_nat :: "double \<Rightarrow> nat" where
  "d_to_nat x = nat \<lfloor>x\<rfloor>"

text \<open>
  The integer square root by bisection on the bits, and the correctly rounded square root: the
  53-bit significand is the integer root of the scaled argument, rounded up when the argument
  exceeds the square of the midpoint (the midpoint itself has no exact root of that form unless
  equal, where the even neighbour is taken).
\<close>

fun isqrt_bits :: "nat \<Rightarrow> nat \<Rightarrow> nat \<Rightarrow> nat" where
  "isqrt_bits 0 r n = r"
| "isqrt_bits (Suc k) r n =
     (let c = r + 2 ^ k in isqrt_bits k (if c * c \<le> n then c else r) n)"

definition isqrt :: "nat \<Rightarrow> nat" where
  "isqrt n = isqrt_bits (Suc (nlog2 n)) 0 n"

definition fsqrt :: "double \<Rightarrow> double" where
  "fsqrt x =
     (if x \<le> 0 then 0
      else
        let e = exponent x div 2; u = 2 powi (e - 52);
            m = isqrt (nat \<lfloor>x / (u * u)\<rfloor>);
            mid = (of_nat m + 1 / 2) * u
        in if x < mid * mid then of_nat m * u
           else if mid * mid < x then of_nat (m + 1) * u
           else if even m then of_nat m * u else of_nat (m + 1) * u)"

section \<open>Rounding\<close>

lemma nlog2_bounds: "0 < n \<Longrightarrow> 2 ^ nlog2 n \<le> n \<and> n < 2 ^ Suc (nlog2 n)"
proof (induction n rule: nlog2.induct)
  case (1 n)
  show ?case
  proof (cases "n < 2")
    case True
    with 1 show ?thesis by (simp add: nlog2.simps)
  next
    case False
    then have "2 ^ nlog2 (n div 2) \<le> n div 2" "n div 2 < 2 ^ Suc (nlog2 (n div 2))"
      using 1 by auto
    then show ?thesis using False by (subst (1 2) nlog2.simps) auto
  qed
qed

lemma exponent_bounds:
  assumes "0 < x"
  shows "2 powi exponent x \<le> x" and "x < 2 powi (exponent x + 1)"
proof -
  obtain n d where q: "quotient_of x = (n, d)" by fastforce
  have x: "x = of_int n / of_int d" and d: "0 < d"
    using q quotient_of_div quotient_of_denom_pos by blast+
  have n: "0 < n" using assms d unfolding x by (simp add: zero_less_divide_iff)
  define a where "a = nlog2 (nat n)"
  define b where "b = nlog2 (nat d)"
  have "(2::nat) ^ a \<le> nat n" "nat n < 2 ^ Suc a" "(2::nat) ^ b \<le> nat d" "nat d < 2 ^ Suc b"
    using nlog2_bounds [of "nat n"] nlog2_bounds [of "nat d"] n d by (simp_all add: a_def b_def)
  then have "int (2 ^ a) \<le> n" "n < int (2 ^ Suc a)" "int (2 ^ b) \<le> d" "d < int (2 ^ Suc b)"
    using n d by linarith+
  then have na: "(2::int) ^ a \<le> n" "n < 2 ^ Suc a" "(2::int) ^ b \<le> d" "d < 2 ^ Suc b"
    by simp_all
  have ra: "(2::rat) ^ a \<le> of_int n" "of_int n < (2::rat) ^ Suc a"
    "(2::rat) ^ b \<le> of_int d" "of_int d < (2::rat) ^ Suc b"
    using na by (metis of_int_le_iff of_int_less_iff of_int_numeral of_int_power)+
  let ?k = "int a - int b"
  have p: "(2::rat) powi ?k = 2 ^ a / 2 ^ b" by (simp add: power_int_diff)
  have up: "x < 2 powi (?k + 1)"
  proof -
    have "x < 2 ^ Suc a / of_int d" unfolding x using ra(2) d by (simp add: divide_strict_right_mono)
    also have "\<dots> \<le> 2 ^ Suc a / 2 ^ b" using ra(3) d by (intro divide_left_mono) auto
    also have "\<dots> = 2 powi (?k + 1)" using p by (simp add: power_int_add)
    finally show ?thesis .
  qed
  have lo: "2 powi (?k - 1) \<le> x"
  proof -
    have "2 powi (?k - 1) = (2::rat) ^ a / 2 ^ Suc b" using p by (simp add: power_int_diff)
    also have "\<dots> \<le> 2 ^ a / of_int d" using ra(4) d by (intro divide_left_mono) auto
    also have "\<dots> \<le> x" unfolding x using ra(1) d by (simp add: divide_right_mono)
    finally show ?thesis .
  qed
  have e: "exponent x = (if 2 powi ?k \<le> x then ?k else ?k - 1)"
    by (simp add: exponent_def q a_def b_def Let_def)
  show "2 powi exponent x \<le> x" using lo e by (auto split: if_splits)
  show "x < 2 powi (exponent x + 1)" using up e by (auto split: if_splits)
qed

lemma exponent_unique:
  assumes "0 < x" and "2 powi e \<le> x" and "x < 2 powi (e + 1)"
  shows "exponent x = e"
proof (rule ccontr)
  assume "exponent x \<noteq> e"
  then consider "exponent x + 1 \<le> e" | "e + 1 \<le> exponent x" by linarith
  then show False
  proof cases
    case 1
    then have "(2::rat) powi (exponent x + 1) \<le> 2 powi e" by (intro power_int_increasing) auto
    then show False using exponent_bounds(2) [OF assms(1)] assms(2) by linarith
  next
    case 2
    then have "(2::rat) powi (e + 1) \<le> 2 powi exponent x" by (intro power_int_increasing) auto
    then show False using exponent_bounds(1) [OF assms(1)] assms(3) by linarith
  qed
qed

lemma round_even_of_int [simp]: "round_even (of_int k) = k"
  by (simp add: round_even_def Let_def)

lemma round_even_mono: "r \<le> s \<Longrightarrow> round_even r \<le> round_even s"
proof -
  assume rs: "r \<le> s"
  have fl: "\<lfloor>r\<rfloor> \<le> \<lfloor>s\<rfloor>" using rs by (rule floor_mono)
  have b: "\<lfloor>t\<rfloor> \<le> round_even t" "round_even t \<le> \<lfloor>t\<rfloor> + 1" for t
    by (auto simp: round_even_def Let_def)
  show ?thesis
  proof (cases "\<lfloor>r\<rfloor> = \<lfloor>s\<rfloor>")
    case True
    then show ?thesis using rs by (auto simp: round_even_def Let_def)
  next
    case False
    then have "\<lfloor>r\<rfloor> + 1 \<le> \<lfloor>s\<rfloor>" using fl by linarith
    then show ?thesis using b(2) [of r] b(1) [of s] by linarith
  qed
qed

lemma scaled_bounds:
  assumes "0 < x"
  defines "u \<equiv> (2::rat) powi (exponent x - 52)"
  shows "0 < u" and "2 ^ 52 \<le> x / u" and "x / u < 2 ^ 53"
    and "2 ^ 52 * u = 2 powi exponent x" and "2 ^ 53 * u = 2 powi (exponent x + 1)"
proof -
  show u: "0 < u" by (simp add: u_def)
  have e: "2 powi (exponent x - 52) * 2 powi 52 = (2::rat) powi exponent x"
    by (subst power_int_add [symmetric]) simp_all
  then show 52: "2 ^ 52 * u = 2 powi exponent x" by (simp add: u_def mult.commute)
  have "2 powi (exponent x + 1) = (2::rat) * 2 powi exponent x" by (simp add: power_int_add)
  then show 53: "2 ^ 53 * u = 2 powi (exponent x + 1)" using 52 by simp
  show "2 ^ 52 \<le> x / u" using exponent_bounds(1) [OF assms(1)] 52 u by (simp add: le_divide_eq)
  show "x / u < 2 ^ 53" using exponent_bounds(2) [OF assms(1)] 53 u by (simp add: divide_less_eq)
qed

lemma rnd_bounds:
  assumes "0 < x"
  shows "2 powi exponent x \<le> rnd x" and "rnd x \<le> 2 powi (exponent x + 1)"
proof -
  define u where "u = (2::rat) powi (exponent x - 52)"
  note b = scaled_bounds [OF assms, folded u_def]
  have r: "rnd x = of_int (round_even (x / u)) * u" using assms by (simp add: rnd_def u_def Let_def)
  have "round_even (of_int (2 ^ 52)) \<le> round_even (x / u)"
    using b(2) by (intro round_even_mono) simp
  then have "2 ^ 52 \<le> round_even (x / u)" unfolding round_even_of_int .
  then have "(2::rat) ^ 52 \<le> of_int (round_even (x / u))"
    by (metis of_int_le_iff of_int_numeral of_int_power)
  then show "2 powi exponent x \<le> rnd x" using b(1,4) r by (metis mult_le_cancel_right not_less order_less_imp_le)
  have "round_even (x / u) \<le> round_even (of_int (2 ^ 53))"
    using b(3) by (intro round_even_mono) simp
  then have "round_even (x / u) \<le> 2 ^ 53" unfolding round_even_of_int .
  then have "of_int (round_even (x / u)) \<le> (2::rat) ^ 53"
    by (metis of_int_le_iff of_int_numeral of_int_power)
  then show "rnd x \<le> 2 powi (exponent x + 1)" using b(1,5) r by (metis mult_le_cancel_right not_less order_less_imp_le)
qed

lemma rnd_0 [simp]: "rnd 0 = 0"
  by (simp add: rnd_def)

lemma rnd_pos: "0 < x \<Longrightarrow> 0 < rnd x"
  using rnd_bounds(1) [of x] by (metis less_le_trans zero_less_numeral zero_less_power_int)

lemma rnd_nonneg: "0 \<le> rnd x"
  using rnd_pos [of x] by (cases "0 < x") (simp, simp add: rnd_def)

lemma rnd_mono:
  assumes "x \<le> y"
  shows "rnd x \<le> rnd y"
proof (cases "0 < x")
  case False
  then show ?thesis using rnd_nonneg [of y] by (simp add: rnd_def)
next
  case True
  then have y: "0 < y" using assms by simp
  have le: "exponent x \<le> exponent y"
  proof (rule ccontr)
    assume "\<not> exponent x \<le> exponent y"
    then have "(2::rat) powi (exponent y + 1) \<le> 2 powi exponent x" by (intro power_int_increasing) auto
    then show False using exponent_bounds(2) [OF y] exponent_bounds(1) [OF True] assms by linarith
  qed
  show ?thesis
  proof (cases "exponent x = exponent y")
    case same: True
    define u where "u = (2::rat) powi (exponent y - 52)"
    have u: "0 < u" by (simp add: u_def)
    have "round_even (x / u) \<le> round_even (y / u)"
      using assms u by (intro round_even_mono divide_right_mono) auto
    then have "of_int (round_even (x / u)) * u \<le> of_int (round_even (y / u)) * u"
      using u by (simp add: mult_right_mono)
    then show ?thesis using True y same by (simp add: rnd_def u_def Let_def)
  next
    case False
    then have "(2::rat) powi (exponent x + 1) \<le> 2 powi exponent y"
      using le by (intro power_int_increasing) auto
    then show ?thesis using rnd_bounds(2) [OF True] rnd_bounds(1) [OF y] by linarith
  qed
qed

lemma rnd_of_nat:
  assumes "n \<le> 2 ^ 53"
  shows "rnd (of_nat n) = of_nat n"
proof (cases "n = 0")
  case True
  then show ?thesis by simp
next
  case False
  then have pos: "0 < (of_nat n :: rat)" by simp
  define e where "e = nlog2 n"
  have b: "2 ^ e \<le> n" "n < 2 ^ Suc e" using nlog2_bounds [of n] False by (auto simp: e_def)
  have r: "(2::rat) ^ e \<le> of_nat n" "of_nat n < (2::rat) ^ Suc e"
    using b by (metis of_nat_le_iff of_nat_less_iff of_nat_numeral of_nat_power)+
  have ex: "exponent (of_nat n) = int e"
    using pos r by (intro exponent_unique) (simp_all add: power_int_add)
  show ?thesis
  proof (cases "e \<le> 52")
    case True
    define u where "u = (2::rat) powi (int e - 52)"
    have "u * 2 ^ (52 - e) = 1"
    proof -
      have "u * 2 powi int (52 - e) = 2 powi (int e - 52 + int (52 - e))"
        unfolding u_def by (subst power_int_add) simp_all
      then have "u * 2 powi int (52 - e) = 1" using True by (simp add: of_nat_diff)
      then show ?thesis unfolding power_int_of_nat .
    qed
    then have i: "1 / u = 2 ^ (52 - e)" by (metis mult.commute nonzero_eq_divide_eq mult_zero_left zero_neq_one)
    have d: "of_nat n / u = of_int (int n * 2 ^ (52 - e))"
      using i by (metis divide_inverse inverse_eq_divide of_int_mult of_int_numeral of_int_of_nat_eq of_int_power)
    have u0: "u \<noteq> 0" by (simp add: u_def)
    have "rnd (of_nat n) = of_int (round_even (of_nat n / u)) * u"
      using pos ex by (simp add: rnd_def u_def Let_def)
    also have "\<dots> = of_nat n / u * u" unfolding d round_even_of_int ..
    finally show ?thesis using u0 by simp
  next
    case False
    have "e \<le> 53"
    proof (rule ccontr)
      assume "\<not> e \<le> 53"
      then have "(2::nat) ^ 54 \<le> 2 ^ e" by (intro power_increasing) auto
      then show False using b(1) assms by simp
    qed
    then have "e = 53" using False by simp
    then have n: "n = 2 ^ 53" using b(1) assms by simp
    have "rnd (of_nat n) = of_int (round_even (of_nat n / 2)) * 2"
      using pos ex \<open>e = 53\<close> by (simp add: rnd_def Let_def)
    also have "(of_nat n / 2 :: rat) = of_int (2 ^ 52)" using n by simp
    finally show ?thesis using n by (simp only: round_even_of_int) simp
  qed
qed

lemma d_of_nat_exact: "n \<le> 2 ^ 53 \<Longrightarrow> d_of_nat n = of_nat n"
  by (simp add: d_of_nat_def rnd_of_nat)

lemma d_of_nat_pos: "0 < n \<Longrightarrow> 0 < d_of_nat n"
  by (simp add: d_of_nat_def rnd_pos)

section \<open>The square root\<close>

lemma isqrt_bits_ge: "r \<le> isqrt_bits k r n"
proof (induction k arbitrary: r)
  case 0
  then show ?case by simp
next
  case (Suc k)
  have "r \<le> (if (r + 2 ^ k) * (r + 2 ^ k) \<le> n then r + 2 ^ k else r)" by simp
  also have "\<dots> \<le> isqrt_bits k (if (r + 2 ^ k) * (r + 2 ^ k) \<le> n then r + 2 ^ k else r) n"
    by (rule Suc)
  finally show ?case by (simp add: Let_def)
qed

lemma isqrt_bits_spec:
  assumes "r * r \<le> n" and "n < (r + 2 ^ k) * (r + 2 ^ k)"
  shows "isqrt_bits k r n * isqrt_bits k r n \<le> n \<and> n < (isqrt_bits k r n + 1) * (isqrt_bits k r n + 1)"
  using assms
proof (induction k arbitrary: r)
  case 0
  then show ?case by simp
next
  case (Suc k)
  let ?c = "r + 2 ^ k"
  show ?case
  proof (cases "?c * ?c \<le> n")
    case True
    have "?c + 2 ^ k = r + 2 ^ Suc k" by simp
    with Suc.IH [of ?c] Suc.prems(2) True show ?thesis by (simp add: Let_def)
  next
    case False
    with Suc.IH [of r] Suc.prems(1) show ?thesis by (simp add: Let_def)
  qed
qed

lemma isqrt_spec: "isqrt n * isqrt n \<le> n \<and> n < (isqrt n + 1) * (isqrt n + 1)"
proof -
  have "n < 2 ^ Suc (nlog2 n)"
    using nlog2_bounds [of n] by (cases "n = 0") auto
  also have "\<dots> \<le> (0 + 2 ^ Suc (nlog2 n)) * (0 + 2 ^ Suc (nlog2 n))" by simp
  finally show ?thesis
    unfolding isqrt_def by (intro isqrt_bits_spec) simp_all
qed

lemma fsqrt_pos:
  assumes "0 < x"
  shows "0 < fsqrt x"
proof -
  define u where "u = (2::rat) powi (exponent x div 2 - 52)"
  define m where "m = isqrt (nat \<lfloor>x / (u * u)\<rfloor>)"
  have u: "0 < u" by (simp add: u_def)
  have "u * u = 2 powi (2 * (exponent x div 2) - 104)"
    unfolding u_def by (subst power_int_add [symmetric]) simp_all
  also have "\<dots> \<le> 2 powi exponent x" by (intro power_int_increasing) auto
  also have "\<dots> \<le> x" by (rule exponent_bounds(1) [OF assms])
  finally have "1 \<le> x / (u * u)" using u by simp
  then have "1 \<le> nat \<lfloor>x / (u * u)\<rfloor>" by linarith
  then have "m \<noteq> 0" using isqrt_spec [of "nat \<lfloor>x / (u * u)\<rfloor>"] unfolding m_def by (metis One_nat_def add_0 mult_1 not_le)
  then have "0 < of_nat m * u" "0 < of_nat (m + 1) * u" using u by simp_all
  then show ?thesis
    using assms unfolding fsqrt_def Let_def u_def [symmetric] m_def [symmetric] by (simp split: if_splits)
qed

lemma cascade: "\<not> a \<Longrightarrow> (if a then z else if b then p else if c then q else if d then p else q) = p \<or>
    (if a then z else if b then p else if c then q else if d then p else q) = q"
  by simp

lemma fsqrt_le:
  assumes "0 < x" and "x < 1 / 4"
  shows "fsqrt x \<le> 1 / 2"
proof -
  define e where "e = exponent x div 2"
  define u where "u = (2::rat) powi (e - 52)"
  define m where "m = isqrt (nat \<lfloor>x / (u * u)\<rfloor>)"
  have u: "0 < u" by (simp add: u_def)
  have "2 powi exponent x < (2::rat) powi (- 2)"
    using exponent_bounds(1) [OF assms(1)] assms(2) by simp
  then have "exponent x < - 2"
    by (metis power_int_increasing not_less one_le_numeral)
  then have e: "e \<le> - 2" unfolding e_def by linarith
  have "x < 2 powi (exponent x + 1)" by (rule exponent_bounds(2) [OF assms(1)])
  also have "\<dots> \<le> 2 powi (2 * e + 2)" by (rule power_int_increasing) (auto simp: e_def)
  also have "\<dots> = 2 ^ 106 * (u * u)"
  proof -
    have "2 ^ 53 * u = 2 powi (e + 1)"
    proof -
      have "(2::rat) ^ 53 = 2 powi 53" by simp
      then have "2 ^ 53 * u = 2 powi (53 + (e - 52))"
        unfolding u_def by (simp only: power_int_add [of "2::rat", OF disjI1 [OF zero_neq_numeral [symmetric]]])
      then show ?thesis by (simp add: add.commute)
    qed
    then have "(2 ^ 53 * u) * (2 ^ 53 * u) = (2 powi (e + 1)) * 2 powi (e + 1)" by simp
    also have "\<dots> = (2::rat) powi ((e + 1) + (e + 1))" by (rule power_int_add [symmetric]) simp
    finally show ?thesis by (simp add: algebra_simps)
  qed
  finally have "x / (u * u) < 2 ^ 106" using u by (simp add: divide_less_eq)
  then have "\<lfloor>x / (u * u)\<rfloor> < 2 ^ 106" by (simp add: floor_less_iff)
  moreover have "0 \<le> \<lfloor>x / (u * u)\<rfloor>" using assms(1) u by simp
  ultimately have "nat \<lfloor>x / (u * u)\<rfloor> < 2 ^ 106" by (simp add: nat_less_iff)
  moreover have "m * m \<le> nat \<lfloor>x / (u * u)\<rfloor>" using isqrt_spec unfolding m_def by blast
  ultimately have "m * m < 2 ^ 53 * 2 ^ 53" by (simp add: power_add [symmetric])
  then have m: "m < 2 ^ 53" by (meson mult_le_mono not_le)
  have "fsqrt x = of_nat m * u \<or> fsqrt x = of_nat (m + 1) * u"
    unfolding fsqrt_def Let_def e_def [symmetric] u_def [symmetric] m_def [symmetric]
    by (rule cascade) (use assms(1) in simp)
  then have "fsqrt x \<le> of_nat (m + 1) * u" using u by (auto simp: mult_right_mono)
  also have "\<dots> \<le> 2 ^ 53 * u"
  proof -
    have "m + 1 \<le> 2 ^ 53" using m by simp
    then have "of_nat (m + 1) \<le> (of_nat (2 ^ 53) :: rat)" by (rule of_nat_mono)
    also have "\<dots> = 2 ^ 53" by simp
    finally show ?thesis using u by (intro mult_right_mono) simp_all
  qed
  also have "\<dots> = 2 powi (e + 1)"
  proof -
    have "(2::rat) ^ 53 * u = 2 powi (53 + (e - 52))"
      unfolding u_def by (subst power_int_add) simp_all
    then show ?thesis by (simp add: algebra_simps)
  qed
  also have "\<dots> \<le> 2 powi (- 1)" using e by (intro power_int_increasing) auto
  finally show ?thesis by simp
qed

lemma rnd_numerals: "rnd 1 = 1" "rnd 2 = 2"
  using rnd_of_nat [of 1] rnd_of_nat [of 2] by simp_all

lemma fdiv_self: "0 < x \<Longrightarrow> fdiv x x = 1"
  by (simp add: fdiv_def rnd_numerals)

end
