(* ===== verification/Histogram.thy ===== *)
theory Histogram
  imports Prelude Double
begin

text \<open>
  \<open>src/src/analysis/histogram.h\<close> and \<open>ks_test.h\<close>: the sparse exact histogram of allocation sizes
  and the two-sample Kolmogorov-Smirnov test on two of them.  \<open>entries\<close> is the used part of the
  C++ array, so \<open>n\<close> is its length; floating-point arithmetic is that of \<open>Double\<close>.
\<close>

section \<open>The histogram\<close>

definition HIST_MAX_SIZE :: u32 where
  "HIST_MAX_SIZE = 4096"

definition CAP :: nat where
  "CAP = 64"

record Mode =
  m_size :: u32
  m_count :: u32

record ExactHistogram =
  entries :: "Mode list"
  overflow :: bool
  total :: u64

definition hist_empty :: ExactHistogram where
  "hist_empty = \<lparr>entries = [], overflow = False, total = 0\<rparr>"

definition hist_record :: "u32 \<Rightarrow> ExactHistogram \<Rightarrow> ExactHistogram" where
  "hist_record sz h =
     (if HIST_MAX_SIZE \<le> sz then h
      else case find_index (\<lambda>e. m_size e = sz) (entries h) of
             Some i \<Rightarrow>
               h\<lparr>entries := (entries h)[i := (entries h ! i)\<lparr>m_count := m_count (entries h ! i) + 1\<rparr>],
                 total := total h + 1\<rparr>
           | None \<Rightarrow>
               (if length (entries h) < CAP
                then h\<lparr>entries := entries h @ [\<lparr>m_size = sz, m_count = 1\<rparr>], total := total h + 1\<rparr>
                else h\<lparr>overflow := True, total := total h + 1\<rparr>))"

definition hist_count :: "ExactHistogram \<Rightarrow> u64" where
  "hist_count h = total h"

text \<open>The condition of both argmax loops: entry \<open>i\<close> replaces the best one so far.\<close>

definition beats :: "u32 list \<Rightarrow> Mode list \<Rightarrow> nat \<Rightarrow> nat option \<Rightarrow> bool" where
  "beats counts es i best =
     (case best of
        None \<Rightarrow> True
      | Some b \<Rightarrow> counts ! b < counts ! i \<or> (counts ! i = counts ! b \<and> m_size (es ! i) < m_size (es ! b)))"

definition dominant_index :: "ExactHistogram \<Rightarrow> nat option" where
  "dominant_index h =
     (let es = entries h; counts = map m_count es
      in foldl (\<lambda>best i. if beats counts es i best then Some i else best) None [0..<length es])"

definition dominant_size :: "ExactHistogram \<Rightarrow> u32" where
  "dominant_size h =
     (case dominant_index h of None \<Rightarrow> 0 | Some b \<Rightarrow> m_size (entries h ! b))"

definition is_monomorphic :: "double \<Rightarrow> ExactHistogram \<Rightarrow> bool" where
  "is_monomorphic fraction h =
     (if total h = 0 then False
      else case dominant_index h of
             None \<Rightarrow> False
           | Some b \<Rightarrow>
               d_to_nat (fmul fraction (d_of_nat (unat (total h)))) \<le> unat (m_count (entries h ! b)))"

text \<open>The insertion step of \<open>sorted_modes\<close> moves the larger entries up from the right.\<close>

definition insert_mode :: "Mode \<Rightarrow> Mode list \<Rightarrow> Mode list" where
  "insert_mode e out =
     (let big = takeWhile (\<lambda>x. m_size e < m_size x) (rev out)
      in take (length out - length big) out @ [e] @ rev big)"

fun sorted_loop :: "nat \<Rightarrow> Mode list \<Rightarrow> Mode list \<Rightarrow> Mode list" where
  "sorted_loop cap [] out = out"
| "sorted_loop cap (e # es) out =
     (if length out < cap then sorted_loop cap es (insert_mode e out) else out)"

definition sorted_modes :: "nat \<Rightarrow> ExactHistogram \<Rightarrow> Mode list" where
  "sorted_modes cap h = sorted_loop cap (entries h) []"

fun quantile_loop :: "u64 \<Rightarrow> u64 \<Rightarrow> u32 \<Rightarrow> Mode list \<Rightarrow> u32" where
  "quantile_loop target cum lst [] = lst"
| "quantile_loop target cum lst (e # es) =
     (let cum = cum + ucast (m_count e)
      in if target < cum then m_size e else quantile_loop target cum (m_size e) es)"

definition quantile :: "double \<Rightarrow> ExactHistogram \<Rightarrow> u32" where
  "quantile p h =
     (if total h = 0 then 0
      else
        let sorted = sorted_modes CAP h;
            target = of_nat (d_to_nat (fmul p (d_of_nat (unat (total h - 1)))))
        in quantile_loop target 0 0 sorted)"

fun top_k_loop :: "nat \<Rightarrow> Mode list \<Rightarrow> u64 \<Rightarrow> u32 list \<Rightarrow> u64 \<Rightarrow> Mode list" where
  "top_k_loop 0 es target local cum = []"
| "top_k_loop (Suc k) es target local cum =
     (case foldl (\<lambda>best i. if local ! i = 0 then best
                            else if beats local es i best then Some i else best)
             None [0..<length es] of
        None \<Rightarrow> []
      | Some b \<Rightarrow>
          (let out = \<lparr>m_size = m_size (es ! b), m_count = local ! b\<rparr>;
               cum = cum + ucast (local ! b)
           in if target \<le> cum then [out] else out # top_k_loop k es target (local[b := 0]) cum))"

definition top_k_modes :: "nat \<Rightarrow> double \<Rightarrow> ExactHistogram \<Rightarrow> Mode list" where
  "top_k_modes k coverage_target h =
     (if total h = 0 \<or> k = 0 then []
      else
        let target = of_nat (d_to_nat (fmul coverage_target (d_of_nat (unat (total h)))))
        in top_k_loop k (entries h) target (map m_count (entries h)) 0)"

definition hist_reset :: "ExactHistogram \<Rightarrow> ExactHistogram" where
  "hist_reset h = h\<lparr>entries := [], overflow := False, total := 0\<rparr>"

section \<open>The two-sample test\<close>

fun add_counts :: "double \<Rightarrow> double \<Rightarrow> Mode list \<Rightarrow> double" where
  "add_counts n cum [] = cum"
| "add_counts n cum (e # es) = add_counts n (fadd cum (fdiv (d_of_nat (unat (m_count e))) n)) es"

definition step_size :: "Mode list \<Rightarrow> Mode list \<Rightarrow> u32" where
  "step_size sa sb =
     (case sa of
        [] \<Rightarrow> m_size (hd sb)
      | a # _ \<Rightarrow> (case sb of [] \<Rightarrow> m_size a
                 | b # _ \<Rightarrow> if m_size a < m_size b then m_size a else m_size b))"

definition gap :: "double \<Rightarrow> double \<Rightarrow> double" where
  "gap x y = (if y < x then fsub x y else fsub y x)"

lemma step_size_progress:
  assumes "sa \<noteq> [] \<or> sb \<noteq> []"
  shows "length (dropWhile (\<lambda>e. m_size e = step_size sa sb) sa) +
      length (dropWhile (\<lambda>e. m_size e = step_size sa sb) sb) < length sa + length sb"
proof -
  have l: "length (dropWhile P xs) \<le> length xs" for P and xs :: "Mode list"
    by (rule length_dropWhile_le)
  show ?thesis
  proof (cases sa)
    case Nil
    with assms obtain b bs where sb: "sb = b # bs" by (cases sb) auto
    show ?thesis using l [of _ bs] by (simp add: Nil sb step_size_def less_Suc_eq_le)
  next
    case (Cons a as)
    show ?thesis
    proof (cases sb)
      case Nil
      then show ?thesis using l [of _ as] by (simp add: Cons step_size_def less_Suc_eq_le)
    next
      case sb: (Cons b bs)
      show ?thesis
        using l [of "\<lambda>e. m_size e = m_size a" as] l [of "\<lambda>e. m_size e = m_size a" "b # bs"]
          l [of "\<lambda>e. m_size e = m_size b" bs] l [of "\<lambda>e. m_size e = m_size b" "a # as"]
        by (auto simp: Cons sb step_size_def)
    qed
  qed
qed

function ks_walk :: "double \<Rightarrow> double \<Rightarrow> Mode list \<Rightarrow> Mode list \<Rightarrow> double \<Rightarrow> double \<Rightarrow> double \<Rightarrow> double" where
  "ks_walk n_a n_b sa sb cum_a cum_b max_d =
     (if sa = [] \<and> sb = [] then max_d
      else
        let sz = step_size sa sb;
            cum_a = add_counts n_a cum_a (takeWhile (\<lambda>e. m_size e = sz) sa);
            cum_b = add_counts n_b cum_b (takeWhile (\<lambda>e. m_size e = sz) sb);
            d = gap cum_a cum_b
        in ks_walk n_a n_b (dropWhile (\<lambda>e. m_size e = sz) sa) (dropWhile (\<lambda>e. m_size e = sz) sb)
             cum_a cum_b (if max_d < d then d else max_d))"
  by pat_completeness auto

termination
  by (relation "measure (\<lambda>(n_a, n_b, sa, sb, cum_a, cum_b, max_d). length sa + length sb)")
    (auto intro!: step_size_progress)

declare ks_walk.simps [simp del]

definition c_alpha :: "double \<Rightarrow> double" where
  "c_alpha alpha =
     (if alpha \<le> rnd (1 / 100) then rnd (16276 / 10000)
      else if alpha \<le> rnd (5 / 100) then rnd (13581 / 10000) else rnd (12239 / 10000))"

definition ks_stable :: "ExactHistogram \<Rightarrow> ExactHistogram \<Rightarrow> double \<Rightarrow> bool" where
  "ks_stable a b alpha =
     (if hist_count a = 0 \<or> hist_count b = 0 then False
      else if overflow a \<or> overflow b then False
      else
        let sa = sorted_modes CAP a; sb = sorted_modes CAP b;
            n_a = d_of_nat (unat (hist_count a)); n_b = d_of_nat (unat (hist_count b));
            max_d = ks_walk n_a n_b sa sb 0 0 0;
            critical = fmul (c_alpha alpha) (fsqrt (fdiv (fadd n_a n_b) (fmul n_a n_b)))
        in max_d < critical)"

section \<open>The histogram counts exactly\<close>

text \<open>
  What a histogram holds after the tracked sizes \<open>ys\<close>: each entry counts its size, the first
  \<open>CAP\<close> distinct sizes have an entry.
\<close>

definition hist_of :: "u32 list \<Rightarrow> ExactHistogram \<Rightarrow> bool" where
  "hist_of ys h \<longleftrightarrow>
     distinct (map m_size (entries h)) \<and>
     (\<forall>e \<in> set (entries h). m_size e \<in> set ys \<and> unat (m_count e) = count_list ys (m_size e)) \<and>
     length (entries h) = min CAP (card (set ys)) \<and>
     (overflow h \<longleftrightarrow> CAP < card (set ys)) \<and> unat (total h) = length ys"

lemma hist_sizes_subset: "hist_of ys h \<Longrightarrow> m_size ` set (entries h) \<subseteq> set ys"
  by (auto simp: hist_of_def)

lemma hist_of_tracked:
  assumes "hist_of ys h" and "card (set ys) \<le> CAP"
  shows "m_size ` set (entries h) = set ys"
proof (rule card_subset_eq)
  show "m_size ` set (entries h) \<subseteq> set ys" by (rule hist_sizes_subset [OF assms(1)])
  have "card (m_size ` set (entries h)) = length (map m_size (entries h))"
    using assms(1) distinct_card [of "map m_size (entries h)"] by (simp add: hist_of_def)
  then show "card (m_size ` set (entries h)) = card (set ys)"
    using assms by (simp add: hist_of_def)
qed simp

lemma hist_record_step:
  assumes h: "hist_of ys h" and sz: "sz < 4096" and len: "Suc (length ys) < 2 ^ 32"
  shows "hist_of (ys @ [sz]) (hist_record sz h)"
proof -
  have tot: "unat (total h + 1) = Suc (length ys)"
    using h len by (simp add: hist_of_def unat_word_ariths)
  have inc: "unat (m_count e + 1) = Suc (count_list ys (m_size e))" if "e \<in> set (entries h)" for e
  proof -
    have "unat (m_count e) = count_list ys (m_size e)" using h that by (simp add: hist_of_def)
    moreover have "count_list ys (m_size e) \<le> length ys" by (rule count_le_length)
    ultimately show ?thesis using len by (simp add: unat_word_ariths)
  qed
  show ?thesis
  proof (cases "find_index (\<lambda>e. m_size e = sz) (entries h)")
    case (Some i)
    from find_index_SomeD [OF Some] have i: "i < length (entries h)" "m_size (entries h ! i) = sz"
      by auto
    then have in_ys: "sz \<in> set ys" using h by (auto simp: hist_of_def)
    then have ins: "set (ys @ [sz]) = set ys" by auto
    let ?es = "(entries h)[i := (entries h ! i)\<lparr>m_count := m_count (entries h ! i) + 1\<rparr>]"
    have r: "hist_record sz h = h\<lparr>entries := ?es, total := total h + 1\<rparr>"
      using Some sz by (simp add: hist_record_def HIST_MAX_SIZE_def not_le)
    have ms: "map m_size ?es = map m_size (entries h)"
      using i by (intro nth_equalityI) (auto simp: nth_list_update)
    have "m_size e \<in> set ys \<and> unat (m_count e) = count_list (ys @ [sz]) (m_size e)" if "e \<in> set ?es" for e
    proof -
      from that obtain j where j: "j < length (entries h)" "e = ?es ! j"
        by (metis in_set_conv_nth length_list_update)
      show ?thesis
      proof (cases "j = i")
        case True
        then show ?thesis using j i in_ys inc [of "entries h ! i"] by simp
      next
        case False
        have "m_size (entries h ! j) \<noteq> sz"
          using h i j(1) False by (metis hist_of_def nth_eq_iff_index_eq nth_map length_map)
        then show ?thesis using h j False by (auto simp: hist_of_def)
      qed
    qed
    then show ?thesis using h r ms tot ins unfolding hist_of_def by simp
  next
    case None
    then have new: "sz \<notin> m_size ` set (entries h)" by (auto simp: find_index_None_iff)
    have dom: "card (set ys) \<le> CAP \<Longrightarrow> sz \<notin> set ys"
      using hist_of_tracked [OF h] new by simp
    have old: "m_size e \<noteq> sz" if "e \<in> set (entries h)" for e using new that by auto
    show ?thesis
    proof (cases "length (entries h) < CAP")
      case True
      then have c: "card (set ys) < CAP" using h by (simp add: hist_of_def)
      then have "sz \<notin> set ys" using dom by simp
      then show ?thesis
        using h c None True sz tot new old
        by (auto simp: hist_record_def HIST_MAX_SIZE_def not_le hist_of_def count_list_0_iff)
    next
      case False
      then have c: "CAP \<le> card (set ys)" using h by (simp add: hist_of_def)
      have "CAP < card (insert sz (set ys))"
        using c dom by (cases "card (set ys) = CAP") (auto simp: card_insert_if)
      then show ?thesis
        using h c None False sz tot old
        by (auto simp: hist_record_def HIST_MAX_SIZE_def not_le hist_of_def)
    qed
  qed
qed

lemma hist_of_fold:
  assumes "length xs < 2 ^ 32"
  shows "hist_of (filter (\<lambda>s. s < 4096) xs) (fold hist_record xs hist_empty)"
  using assms
proof (induction xs rule: rev_induct)
  case Nil
  then show ?case by (simp add: hist_of_def hist_empty_def)
next
  case (snoc x xs)
  show ?case
  proof (cases "x < 4096")
    case True
    have "Suc (length (filter (\<lambda>s. s < 4096) xs)) \<le> Suc (length xs)" by simp
    also have "\<dots> < 2 ^ 32" using snoc.prems by simp
    finally have "Suc (length (filter (\<lambda>s. s < 4096) xs)) < 2 ^ 32" .
    from hist_record_step [OF _ True this] snoc True length_filter_le [of _ xs] show ?thesis by simp
  next
    case False
    then have "hist_record x h = h" for h by (simp add: hist_record_def HIST_MAX_SIZE_def not_less)
    then show ?thesis using snoc False by simp
  qed
qed

text \<open>
  C17: After recording any sequence of fewer than \<open>2 ^ 32\<close> sizes the histogram holds, for the sizes
  below 4096: the exact number of occurrences of each tracked size, an entry for every distinct
  size up to 64, the overflow flag exactly when there were more, and the number of events.
\<close>

theorem hist_record_exact:
  assumes "length xs < 2 ^ 32"
  shows "hist_of (filter (\<lambda>s. s < 4096) xs) (fold hist_record xs hist_empty)"
  using assms by (rule hist_of_fold)

section \<open>The dominant size\<close>

definition dominates :: "u32 list \<Rightarrow> Mode list \<Rightarrow> nat \<Rightarrow> nat \<Rightarrow> bool" where
  "dominates counts es b i \<longleftrightarrow>
     counts ! i < counts ! b \<or> (counts ! i = counts ! b \<and> m_size (es ! b) \<le> m_size (es ! i))"

lemma argmax_loop:
  assumes "foldl (\<lambda>best i. if skip i then best else if beats counts es i best then Some i else best)
     None [0..<n] = r"
  shows "case r of None \<Rightarrow> (\<forall>i < n. skip i)
    | Some b \<Rightarrow> b < n \<and> \<not> skip b \<and> (\<forall>i < n. skip i \<or> dominates counts es b i)"
  using assms
proof (induction n arbitrary: r)
  case 0
  then show ?case by simp
next
  case (Suc n)
  let ?f = "\<lambda>best i. if skip i then best else if beats counts es i best then Some i else best"
  let ?r = "foldl ?f None [0..<n]"
  from Suc.IH [OF refl] have ih: "case ?r of None \<Rightarrow> (\<forall>i < n. skip i)
    | Some b \<Rightarrow> b < n \<and> \<not> skip b \<and> (\<forall>i < n. skip i \<or> dominates counts es b i)" .
  have r: "r = ?f ?r n" using Suc.prems by simp
  show ?case
  proof (cases ?r)
    case None
    then show ?thesis using ih r by (auto simp: beats_def less_Suc_eq dominates_def)
  next
    case (Some b)
    have b: "b < n" "\<not> skip b" "\<forall>i < n. skip i \<or> dominates counts es b i" using ih Some by auto
    show ?thesis
    proof (cases "skip n")
      case True
      then show ?thesis using r b Some by (auto simp: less_Suc_eq)
    next
      case False
      show ?thesis
      proof (cases "beats counts es n (Some b)")
        case True
        then have "skip i \<or> dominates counts es n i" if "i < n" for i
          using b(3) that by (fastforce simp: beats_def dominates_def)
        then show ?thesis using r Some True False by (auto simp: less_Suc_eq dominates_def)
      next
        case no: False
        then have "dominates counts es b n" by (auto simp: beats_def dominates_def)
        then show ?thesis using r Some no False b by (auto simp: less_Suc_eq)
      qed
    qed
  qed
qed

lemma dominant_index_SomeD:
  assumes "dominant_index h = Some b"
  shows "b < length (entries h)" and "\<forall>i < length (entries h). dominates (map m_count (entries h)) (entries h) b i"
  using argmax_loop [of "\<lambda>_. False" "map m_count (entries h)" "entries h" "length (entries h)" "Some b"] assms
  by (simp_all add: dominant_index_def Let_def)

lemma dominant_index_None: "dominant_index h = None \<longleftrightarrow> entries h = []"
  using argmax_loop [of "\<lambda>_. False" "map m_count (entries h)" "entries h" "length (entries h)" None]
  by (auto simp: dominant_index_def Let_def)

text \<open>
  Of a nonempty histogram that counts the sizes \<open>ys\<close> without overflow, \<open>dominant_size\<close> is the
  most frequent size, the smallest one among equals.
\<close>

theorem dominant_size_is_mode:
  assumes "hist_of ys h" and "ys \<noteq> []" and "\<not> overflow h"
  shows "dominant_size h \<in> set ys \<and>
    (\<forall>s \<in> set ys. count_list ys s < count_list ys (dominant_size h) \<or>
       count_list ys s = count_list ys (dominant_size h) \<and> dominant_size h \<le> s)"
proof -
  have im: "m_size ` set (entries h) = set ys"
    using hist_of_tracked [OF assms(1)] assms(1,3) by (auto simp: hist_of_def)
  then have "entries h \<noteq> []" using assms(2) by auto
  then obtain b where b: "dominant_index h = Some b" using dominant_index_None [of h] by auto
  note d = dominant_index_SomeD [OF b]
  have s: "dominant_size h = m_size (entries h ! b)" using b by (simp add: dominant_size_def)
  have cnt: "unat (m_count (entries h ! i)) = count_list ys (m_size (entries h ! i))"
    if "i < length (entries h)" for i
    using assms(1) that by (simp add: hist_of_def)
  have "count_list ys x < count_list ys (dominant_size h) \<or>
       count_list ys x = count_list ys (dominant_size h) \<and> dominant_size h \<le> x" if x: "x \<in> set ys" for x
  proof -
    from x im obtain e where e: "e \<in> set (entries h)" "x = m_size e" by blast
    then obtain i where i: "i < length (entries h)" "x = m_size (entries h ! i)"
      by (auto simp: in_set_conv_nth)
    then have "m_count (entries h ! i) < m_count (entries h ! b) \<or>
        m_count (entries h ! i) = m_count (entries h ! b) \<and> m_size (entries h ! b) \<le> m_size (entries h ! i)"
      using d by (auto simp: dominates_def)
    then show ?thesis
      unfolding i(2) s cnt [OF i(1), symmetric] cnt [OF d(1), symmetric]
      by (auto simp: word_less_nat_alt)
  qed
  moreover have "dominant_size h \<in> set ys" using im s d(1) by (metis image_eqI nth_mem)
  ultimately show ?thesis by blast
qed

section \<open>Sorting\<close>

lemma insert_mode_sorted:
  assumes "sorted_wrt (\<lambda>x y. m_size x < m_size y) out" and "m_size e \<notin> m_size ` set out"
  shows "sorted_wrt (\<lambda>x y. m_size x < m_size y) (insert_mode e out)" and "set (insert_mode e out) = insert e (set out)"
    and "length (insert_mode e out) = Suc (length out)"
proof -
  let ?P = "\<lambda>x. m_size e < m_size x"
  let ?big = "takeWhile ?P (rev out)"
  define lo where "lo = take (length out - length ?big) out"
  have "rev out = ?big @ dropWhile ?P (rev out)" by simp
  then have out: "out = rev (dropWhile ?P (rev out)) @ rev ?big" by (metis rev_append rev_rev_ident)
  then have lo: "lo = rev (dropWhile ?P (rev out))"
    unfolding lo_def by (metis append_eq_conv_conj length_append add_diff_cancel_right' length_rev)
  have ins: "insert_mode e out = lo @ [e] @ rev ?big" by (simp add: insert_mode_def lo_def Let_def)
  have big: "\<forall>x \<in> set ?big. m_size e < m_size x" by (auto dest: set_takeWhileD)
  have srt: "sorted_wrt (\<lambda>x y. m_size x < m_size y) (lo @ rev ?big)" using assms(1) out lo by simp
  have "\<forall>x \<in> set lo. m_size x < m_size e"
  proof (cases lo rule: rev_cases)
    case Nil
    then show ?thesis by simp
  next
    case (snoc zs z)
    then have "dropWhile ?P (rev out) = z # rev zs" using lo by (metis rev_rev_ident rev.simps(2) rev_append append_Cons append_Nil rev_singleton_conv)
    then have "\<not> ?P z" by (metis hd_dropWhile list.sel(1) list.distinct(1))
    moreover have "z \<in> set out" using out lo snoc by (metis UnI1 in_set_conv_decomp set_append)
    then have "m_size z \<noteq> m_size e" using assms(2) by (metis image_eqI)
    ultimately have "m_size z < m_size e" by simp
    moreover have "\<forall>x \<in> set zs. m_size x < m_size z" using srt snoc by (auto simp: sorted_wrt_append)
    ultimately show ?thesis using snoc by auto
  qed
  then show "sorted_wrt (\<lambda>x y. m_size x < m_size y) (insert_mode e out)"
    using srt big unfolding ins by (auto simp: sorted_wrt_append)
  have "set out = set lo \<union> set ?big" "length out = length lo + length ?big"
    using out lo by (metis set_append set_rev, metis length_append length_rev)
  then show "set (insert_mode e out) = insert e (set out)" and "length (insert_mode e out) = Suc (length out)"
    unfolding ins by auto
qed

lemma sorted_loop_sorted:
  assumes "sorted_wrt (\<lambda>x y. m_size x < m_size y) out" and "distinct (map m_size es)"
    and "m_size ` set es \<inter> m_size ` set out = {}" and "length out + length es \<le> cap"
  shows "sorted_wrt (\<lambda>x y. m_size x < m_size y) (sorted_loop cap es out) \<and>
    set (sorted_loop cap es out) = set out \<union> set es"
  using assms
proof (induction cap es out rule: sorted_loop.induct)
  case (1 cap out)
  then show ?case by simp
next
  case (2 cap e es out)
  have lt: "length out < cap" using 2(5) by simp
  have n: "m_size e \<notin> m_size ` set out" using 2(4) by auto
  note i = insert_mode_sorted [OF 2(2) n]
  have "m_size ` set es \<inter> m_size ` set (insert_mode e out) = {}"
    using 2(3,4) i(2) by auto
  then have "sorted_wrt (\<lambda>x y. m_size x < m_size y) (sorted_loop cap es (insert_mode e out)) \<and>
    set (sorted_loop cap es (insert_mode e out)) = set (insert_mode e out) \<union> set es"
    using 2(3,5) i lt by (intro 2(1)) auto
  then show ?case using lt i(2) by auto
qed

definition hist_ok :: "ExactHistogram \<Rightarrow> bool" where
  "hist_ok h \<longleftrightarrow> distinct (map m_size (entries h)) \<and> length (entries h) \<le> CAP"

lemma hist_of_ok: "hist_of ys h \<Longrightarrow> hist_ok h"
  by (simp add: hist_of_def hist_ok_def)

lemma sorted_modes_sorted:
  assumes "hist_ok h"
  shows "sorted_wrt (\<lambda>x y. m_size x < m_size y) (sorted_modes CAP h)"
    and "set (sorted_modes CAP h) = set (entries h)"
  using sorted_loop_sorted [of "[]" "entries h" CAP] assms
  by (simp_all add: sorted_modes_def hist_ok_def)

lemma strictly_sorted_unique:
  assumes "sorted_wrt (\<lambda>x y. m_size x < m_size y) xs" and "sorted_wrt (\<lambda>x y. m_size x < m_size y) ys"
    and "set xs = set ys"
  shows "xs = ys"
proof (rule map_inj_on)
  have sx: "sorted_wrt (<) (map m_size xs)" and sy: "sorted_wrt (<) (map m_size ys)"
    using assms(1,2) unfolding sorted_wrt_map by simp_all
  show "map m_size xs = map m_size ys"
    using strict_sorted_equal [OF sx sy] assms(3) by simp
  have "distinct (map m_size xs)" using sx strict_sorted_iff by blast
  then show "inj_on m_size (set xs \<union> set ys)" using assms(3) by (simp add: distinct_map)
qed

section \<open>The test\<close>

lemma gap_commute: "gap x y = gap y x"
  by (auto simp: gap_def)

lemma step_size_commute: "sa \<noteq> [] \<or> sb \<noteq> [] \<Longrightarrow> step_size sa sb = step_size sb sa"
  by (cases sa; cases sb) (auto simp: step_size_def)

lemma ks_walk_commute: "ks_walk n_a n_b sa sb ca cb m = ks_walk n_b n_a sb sa cb ca m"
proof (induction n_a n_b sa sb ca cb m rule: ks_walk.induct)
  case (1 n_a n_b sa sb ca cb m)
  show ?case
  proof (cases "sa = [] \<and> sb = []")
    case True
    then show ?thesis by (simp add: ks_walk.simps)
  next
    case False
    then have "step_size sb sa = step_size sa sb" using step_size_commute by blast
    then show ?thesis
      using 1 [OF False refl refl refl refl] False
      by (subst (1 2) ks_walk.simps) (auto simp: Let_def gap_commute)
  qed
qed

text \<open>The test does not depend on the order of its two samples.\<close>

theorem ks_stable_symmetric: "ks_stable a b alpha = ks_stable b a alpha"
proof -
  have "fadd x y = fadd y x" "fmul x y = fmul y x" for x y
    by (simp_all add: fadd_def fmul_def add.commute mult.commute)
  then show ?thesis
    by (auto simp: ks_stable_def Let_def ks_walk_commute
        [of "d_of_nat (unat (hist_count a))" "d_of_nat (unat (hist_count b))"])
qed

lemma gap_self [simp]: "gap x x = 0"
  by (simp add: gap_def fsub_def)

lemma ks_walk_same: "ks_walk n n s s c c 0 = 0"
proof (induction "length s" arbitrary: s c rule: less_induct)
  case less
  show ?case
  proof (cases "s = []")
    case True
    then show ?thesis by (simp add: ks_walk.simps)
  next
    case False
    let ?s = "dropWhile (\<lambda>e. m_size e = step_size s s) s"
    have "length ?s < length s" using step_size_progress [of s s] False by simp
    from less [OF this] show ?thesis using False by (subst ks_walk.simps) (simp add: Let_def)
  qed
qed

lemma critical_pos:
  assumes "0 < n_a" and "0 < n_b"
  shows "0 < fmul (c_alpha alpha) (fsqrt (fdiv (fadd n_a n_b) (fmul n_a n_b)))"
proof -
  have "0 < c_alpha alpha" by (simp add: c_alpha_def rnd_pos)
  moreover have "0 < fdiv (fadd n_a n_b) (fmul n_a n_b)"
    using assms by (simp add: fdiv_def fadd_def fmul_def rnd_pos)
  ultimately show ?thesis by (simp add: fmul_def rnd_pos fsqrt_pos)
qed

lemma ks_stable_same:
  assumes "hist_of xs a" and "hist_of ys b" and "\<forall>s. count_list xs s = count_list ys s"
    and "xs \<noteq> []" and "\<not> overflow a" and "length xs < 2 ^ 32"
  shows "ks_stable a b alpha"
proof -
  have st: "set xs = set ys"
    using assms(3) by (metis count_list_0_iff subsetI subset_antisym)
  have ov: "\<not> overflow b" using assms(1,2,5) st by (simp add: hist_of_def)
  have len: "length xs = length ys"
    using st assms(3) sum_count_set [of xs "set xs"] sum_count_set [of ys "set xs"] by simp
  have cap: "card (set xs) \<le> CAP" using assms(1,5) by (auto simp: hist_of_def)
  have sub: "set (entries g) \<subseteq> set (entries h)"
    if g: "hist_of us g" and h: "hist_of vs h" and c: "\<forall>s. count_list us s = count_list vs s"
      and i: "m_size ` set (entries g) = set us" "m_size ` set (entries h) = set vs" "set us = set vs"
    for g h us vs
  proof
    fix e
    assume e: "e \<in> set (entries g)"
    then have "m_size e \<in> m_size ` set (entries h)" using i by blast
    then obtain e' where e': "e' \<in> set (entries h)" "m_size e' = m_size e" by (metis imageE)
    have "unat (m_count e) = unat (m_count e')"
      using g h c e e' by (simp add: hist_of_def)
    then have "e = e'" using e'(2) by (simp add: word_unat_eq_iff [symmetric])
    then show "e \<in> set (entries h)" using e' by simp
  qed
  have ia: "m_size ` set (entries a) = set xs" and ib: "m_size ` set (entries b) = set ys"
    using hist_of_tracked [OF assms(1)] hist_of_tracked [OF assms(2)] cap st by simp_all
  have "set (entries a) = set (entries b)"
    by (rule subset_antisym [OF sub [OF assms(1,2,3) ia ib st] sub [OF assms(2,1) _ ib ia st [symmetric]]])
      (simp add: assms(3))
  then have srt: "sorted_modes CAP a = sorted_modes CAP b"
    using sorted_modes_sorted [OF hist_of_ok [OF assms(1)]]
      sorted_modes_sorted [OF hist_of_ok [OF assms(2)]] by (intro strictly_sorted_unique) simp_all
  have tot: "total a = total b" using assms(1,2) len by (simp add: hist_of_def word_unat_eq_iff)
  have nz: "unat (total a) \<noteq> 0" using assms(1,4) by (simp add: hist_of_def)
  then have pos: "0 < d_of_nat (unat (total a))" by (simp add: d_of_nat_pos)
  have "total a \<noteq> 0" using nz by auto
  then show ?thesis
    using critical_pos [OF pos pos] ov assms(5)
    by (simp only: ks_stable_def hist_count_def Let_def ks_walk_same tot [symmetric] srt simp_thms if_False)
qed

text \<open>
  Two windows in which every size occurs equally often, recorded in any order, pass the test
  at every significance level, unless they are empty or saw more than 64 distinct sizes.
\<close>

theorem ks_stable_same_counts:
  assumes "hist_of xs a" and "hist_of ys b" and "\<forall>s. count_list xs s = count_list ys s"
    and "xs \<noteq> []" and "\<not> overflow a" and "length xs < 2 ^ 32"
  shows "ks_stable a b alpha"
  using assms by (rule ks_stable_same)

lemma critical_le_1:
  assumes "16 \<le> m" and "16 \<le> n" and "m < 2 ^ 32" and "n < 2 ^ 32"
  shows "fmul (c_alpha alpha) (fsqrt (fdiv (fadd (d_of_nat m) (d_of_nat n))
     (fmul (d_of_nat m) (d_of_nat n)))) \<le> 1"
proof -
  have "8 * (m + n) \<le> m * n"
  proof -
    define a b where "a = m div 2" and "b = n div 2"
    have ab: "8 \<le> a" "8 \<le> b" "2 * a \<le> m" "2 * b \<le> n" using assms(1,2) by (auto simp: a_def b_def)
    have "m * 8 \<le> m * b" "n * 8 \<le> n * a" "m * (2 * b) \<le> m * n" "n * (2 * a) \<le> n * m"
      using ab by (intro mult_le_mono2; simp)+
    moreover define p q r where "p = m * b" and "q = n * a" and "r = m * n"
    ultimately have "m * 8 \<le> p" "n * 8 \<le> q" "2 * p \<le> r" "2 * q \<le> r"
      by (simp_all only: mult.left_commute [of _ 2] mult.commute [of n m])
    then have "8 * (m + n) \<le> r" by presburger
    then show ?thesis by (simp only: r_def)
  qed
  then have "(of_nat (8 * (m + n)) :: rat) \<le> of_nat (m * n)" by (rule of_nat_mono)
  then have "rnd (of_nat (8 * (m + n))) \<le> rnd (of_nat (m * n))" by (rule rnd_mono)
  moreover have "8 * (m + n) \<le> 2 ^ 53" using assms(3,4) by simp
  ultimately have p: "of_nat (8 * (m + n)) \<le> rnd (of_nat (m * n))" by (simp only: rnd_of_nat)
  have dm: "d_of_nat m = of_nat m" "d_of_nat n = of_nat n"
    using assms by (simp_all add: d_of_nat_exact)
  have s: "fadd (d_of_nat m) (d_of_nat n) = of_nat (m + n)"
    using rnd_of_nat [of "m + n"] assms by (simp add: fadd_def dm)
  have pr: "fmul (d_of_nat m) (d_of_nat n) = rnd (of_nat (m * n))" by (simp add: fmul_def dm)
  have pos: "(0::rat) < of_nat (8 * (m + n))" using assms(1) by simp
  define q where "q = fdiv (fadd (d_of_nat m) (d_of_nat n)) (fmul (d_of_nat m) (d_of_nat n))"
  have "(of_nat (m + n) :: rat) / rnd (of_nat (m * n)) \<le> 1 / 8"
    using p pos by (simp add: divide_le_eq)
  then have "q \<le> rnd (1 / 8)" unfolding q_def s pr fdiv_def by (rule rnd_mono)
  also have "rnd (1 / 8) < 1 / 4" by code_simp
  finally have q: "q < 1 / 4" .
  have "0 < rnd (of_nat (m * n))" using p pos by (rule less_le_trans [rotated])
  moreover have "(0::rat) < of_nat (m + n)" using assms(1) by simp
  ultimately have "0 < q" unfolding q_def s pr fdiv_def by (intro rnd_pos [OF divide_pos_pos])
  then have r: "fsqrt q \<le> 1 / 2" using q by (rule fsqrt_le)
  have "c_alpha alpha \<le> rnd 2" by (auto simp: c_alpha_def intro!: rnd_mono)
  then have c: "c_alpha alpha \<le> 2" by (simp add: rnd_numerals)
  have "c_alpha alpha * fsqrt q \<le> 2 * (1 / 2)"
    using c r fsqrt_pos [OF \<open>0 < q\<close>] by (intro mult_mono) (auto simp: c_alpha_def rnd_nonneg)
  then have "rnd (c_alpha alpha * fsqrt q) \<le> rnd 1" by (intro rnd_mono) simp
  then show ?thesis by (simp add: fmul_def q_def rnd_numerals)
qed

lemma sorted_modes_single:
  "entries h = [e] \<Longrightarrow> sorted_modes CAP h = [e]"
  by (simp add: sorted_modes_def CAP_def insert_mode_def)

lemma ks_walk_two:
  assumes "m_size e \<noteq> m_size f" and "d_of_nat (unat (m_count e)) = n_a" and "d_of_nat (unat (m_count f)) = n_b"
    and "0 < n_a" and "0 < n_b"
  shows "ks_walk n_a n_b [e] [f] 0 0 0 = 1"
proof -
  have s: "fdiv (d_of_nat (unat (m_count e))) n_a = 1" "fdiv (d_of_nat (unat (m_count f))) n_b = 1"
    using assms by (simp_all add: fdiv_self)
  have one: "fadd 0 1 = 1" "gap 1 0 = 1" "gap 0 1 = 1"
    by (simp_all add: fadd_def gap_def fsub_def rnd_numerals)
  show ?thesis
  proof (cases "m_size e < m_size f")
    case True
    then show ?thesis using assms(1)
      by (subst ks_walk.simps) (simp add: step_size_def s one, subst ks_walk.simps,
        simp add: step_size_def s one ks_walk.simps)
  next
    case False
    then show ?thesis using assms(1)
      by (subst ks_walk.simps) (simp add: step_size_def s one, subst ks_walk.simps,
        simp add: step_size_def s one ks_walk.simps)
  qed
qed

lemma count_list_replicate: "count_list (replicate n x) y = (if x = y then n else 0)"
  by (induction n) auto

lemma single_size_window:
  assumes "hist_of (replicate n sz) h" and "0 < n"
  obtains c where "entries h = [\<lparr>m_size = sz, m_count = c\<rparr>]" and "unat c = n"
    and "\<not> overflow h" and "unat (total h) = n"
proof -
  have s: "set (replicate n sz) = {sz}" using assms(2) by (cases n) auto
  have l: "length (entries h) = 1" and o: "\<not> overflow h"
    using assms unfolding hist_of_def s by (simp_all add: CAP_def)
  then obtain e where e: "entries h = [e]" by (auto simp: length_Suc_conv)
  have "m_size e = sz" "unat (m_count e) = n"
    using assms e unfolding hist_of_def s by (auto simp: count_list_replicate)
  moreover have "e = \<lparr>m_size = m_size e, m_count = m_count e\<rparr>" by simp
  ultimately show ?thesis using that [of "m_count e"] e o assms(1) by (simp add: hist_of_def)
qed

lemma ks_stable_differ:
  assumes "hist_of (replicate m s) a" and "hist_of (replicate n t) b" and "s \<noteq> t"
    and "16 \<le> m" and "16 \<le> n" and "m < 2 ^ 32" and "n < 2 ^ 32"
  shows "\<not> ks_stable a b alpha"
proof -
  obtain c where a: "entries a = [\<lparr>m_size = s, m_count = c\<rparr>]" "unat c = m" "unat (total a) = m"
    using single_size_window [OF assms(1)] assms(4) by auto
  obtain d where b: "entries b = [\<lparr>m_size = t, m_count = d\<rparr>]" "unat d = n" "unat (total b) = n"
    using single_size_window [OF assms(2)] assms(5) by auto
  have "ks_walk (d_of_nat m) (d_of_nat n) (sorted_modes CAP a) (sorted_modes CAP b) 0 0 0 = 1"
    unfolding sorted_modes_single [OF a(1)] sorted_modes_single [OF b(1)]
    using a b assms(3-5) by (intro ks_walk_two) (simp_all add: d_of_nat_pos)
  then show ?thesis
    using critical_le_1 [OF assms(4-7), of alpha]
    by (simp add: ks_stable_def hist_count_def a(3) b(3) Let_def not_less)
qed

text \<open>
  Two windows of at least 16 events that hold one size each, but not the same, are never
  taken for stable, at any significance level.
\<close>

theorem ks_rejects_size_change:
  assumes "hist_of (replicate m s) a" and "hist_of (replicate n t) b" and "s \<noteq> t"
    and "16 \<le> m" and "16 \<le> n" and "m < 2 ^ 32" and "n < 2 ^ 32"
  shows "\<not> ks_stable a b alpha"
  using assms by (rule ks_stable_differ)

lemma fold_record_single:
  "0 < n \<Longrightarrow> n < 2 ^ 32 \<Longrightarrow> sz < 4096 \<Longrightarrow> hist_of (replicate n sz) (fold hist_record (replicate n sz) hist_empty)"
  using hist_of_fold [of "replicate n sz"] by simp

section \<open>Concrete windows\<close>

theorem hist_record_exact_witness:
  "hist_of [16, 32] (fold hist_record [16, 4096, 32] hist_empty)"
  using hist_record_exact [of "[16, 4096, 32]"] by simp

lemma demo_hist: "fold hist_record [32, 16, 32, 16] hist_empty =
    \<lparr>entries = [\<lparr>m_size = 32, m_count = 2\<rparr>, \<lparr>m_size = 16, m_count = 2\<rparr>], overflow = False, total = 4\<rparr>"
  by (simp add: hist_record_def hist_empty_def HIST_MAX_SIZE_def CAP_def)

lemma demo_hist_of: "hist_of [32, 16, 32, 16] (fold hist_record [32, 16, 32, 16] hist_empty)"
proof -
  have "{32 :: u32, 16, 32, 16} = {32, 16}" by auto
  then show ?thesis unfolding demo_hist by (simp add: hist_of_def CAP_def)
qed

theorem dominant_size_is_mode_witness:
  "dominant_size (fold hist_record [32, 16, 32, 16] hist_empty) \<in> {16, 32}"
proof -
  have "\<not> overflow (fold hist_record [32, 16, 32, 16] hist_empty)" unfolding demo_hist by simp
  from dominant_size_is_mode [OF demo_hist_of _ this]
  have "dominant_size (fold hist_record [32, 16, 32, 16] hist_empty) \<in> set [32, 16, 32, 16]" by blast
  then show ?thesis by auto
qed

theorem ks_stable_same_counts_witness:
  "ks_stable (fold hist_record [32, 16, 32, 16] hist_empty)
     (fold hist_record [32, 16, 32, 16] hist_empty) (1 / 100)"
proof (rule ks_stable_same_counts [OF demo_hist_of demo_hist_of])
  show "\<not> overflow (fold hist_record [32, 16, 32, 16] hist_empty)" unfolding demo_hist by simp
qed simp_all

theorem ks_rejects_size_change_witness:
  "\<not> ks_stable (fold hist_record (replicate 16 32) hist_empty) (fold hist_record (replicate 20 48) hist_empty) (1 / 20)"
  by (rule ks_rejects_size_change [OF fold_record_single fold_record_single]) simp_all

end
