(* ===== verification/Bounded_Queue.thy ===== *)
theory Bounded_Queue
  imports Prelude
begin

text \<open>
  The interface of the two bounded FIFO buffers of the program: the per-thread trace ring
  (\<open>src/src/trace/trace.cpp\<close>) and the deopt queue (\<open>src/src/deopt/deopt.cpp\<close>).  Both keep a
  power-of-two array and two free-running counters, drop an element when full, and are emptied
  by a background loop.  The laws are those of a list; the lemmas below are proved once for
  both.
\<close>

section \<open>Free-running counters\<close>

text \<open>
  The elements of a circular buffer of \<open>n\<close> slots between the counters \<open>t\<close> and \<open>h\<close>, oldest
  first.  The counters are never reduced and wrap at 64 bits.
\<close>

definition slice :: "nat \<Rightarrow> 'a list \<Rightarrow> u64 \<Rightarrow> u64 \<Rightarrow> 'a list" where
  "slice n xs t h = map (\<lambda>i. xs ! ((unat t + i) mod n)) [0..<unat (h - t)]"

lemma length_slice [simp]: "length (slice n xs t h) = unat (h - t)"
  by (simp add: slice_def)

lemma mod_counter:
  fixes h t :: u64
  assumes "n dvd 2 ^ 64"
  shows "unat h mod n = (unat t + unat (h - t)) mod n"
proof -
  have "h = t + (h - t)" by simp
  then have "unat h = (unat t + unat (h - t)) mod 2 ^ 64"
    using unat_word_ariths(1) [of t "h - t"] by simp
  then show ?thesis using assms by (simp add: mod_mod_cancel)
qed

lemma slots_differ:
  assumes "i < d" and "d < n"
  shows "(k + i) mod n \<noteq> (k + d) mod (n::nat)"
proof
  assume eq: "(k + i) mod n = (k + d) mod n"
  then have "n dvd (k + d) - (k + i)"
    using assms(1) by (metis mod_eq_dvd_iff_nat add_le_cancel_left less_imp_le)
  then have "n dvd d - i" by simp
  with assms show False by (auto dest: dvd_imp_le)
qed

lemma slice_push:
  fixes h t :: u64
  assumes "n dvd 2 ^ 64" and "n < 2 ^ 64" and "length xs = n" and "unat (h - t) < n"
  shows "slice n (xs[unat h mod n := x]) t (h + 1) = slice n xs t h @ [x]"
    and "unat (h + 1 - t) = Suc (unat (h - t))"
proof -
  have e: "h + 1 - t = (h - t) + 1" by simp
  have "unat ((h - t) + 1) = unat (h - t) + 1"
    using assms(2,4) by (intro unat_Suc_no_wrap) simp
  then show d: "unat (h + 1 - t) = Suc (unat (h - t))" unfolding e by simp
  show "slice n (xs[unat h mod n := x]) t (h + 1) = slice n xs t h @ [x]"
    using assms(3,4) slots_differ [THEN not_sym, OF _ assms(4)]
    by (auto simp: slice_def d mod_counter [OF assms(1), of h t])
qed

lemma slice_pop:
  fixes h t :: u64
  assumes "n dvd 2 ^ 64" and "slice n xs t h = y # ys"
  shows "t \<noteq> h" and "y = xs ! (unat t mod n)" and "slice n xs (t + 1) h = ys"
    and "unat (h - (t + 1)) = length ys"
proof -
  have n: "unat (h - t) = Suc (length ys)" using arg_cong [OF assms(2), of length] by simp
  then show ne: "t \<noteq> h" by auto
  show "y = xs ! (unat t mod n)"
    using arg_cong [OF assms(2), of hd] n by (simp add: slice_def upt_conv_Cons del: upt_Suc)
  have e: "h - (t + 1) = (h - t) - 1" by simp
  have "unat ((h - t) - 1) = unat (h - t) - 1"
    using ne by (intro unat_minus_one) simp
  then show d: "unat (h - (t + 1)) = length ys" unfolding e using n by simp
  have t1: "(unat (t + 1) + i) mod n = (unat t + Suc i) mod n" for i
  proof -
    have "unat (t + 1) mod n = (unat t + 1) mod n"
      using assms(1) by (simp add: unat_word_ariths mod_mod_cancel)
    then show ?thesis by (metis add.assoc mod_add_left_eq plus_1_eq_Suc)
  qed
  have "ys = tl (slice n xs t h)" using assms(2) by simp
  also have "\<dots> = map (\<lambda>i. xs ! ((unat t + Suc i) mod n)) [0..<length ys]"
    unfolding slice_def n by (simp add: map_upt_Suc del: upt_Suc)
  finally show "slice n xs (t + 1) h = ys" by (simp add: slice_def d t1)
qed

section \<open>The interface\<close>

locale bounded_queue =
  fixes push :: "'a \<Rightarrow> 'q \<Rightarrow> 'q"
    and pop :: "'q \<Rightarrow> ('a \<times> 'q) option"
    and contents :: "'q \<Rightarrow> 'a list"
    and inv :: "'q \<Rightarrow> bool"
    and cap :: nat
  assumes push_room: "inv q \<Longrightarrow> length (contents q) < cap \<Longrightarrow> contents (push x q) = contents q @ [x]"
    and push_full: "inv q \<Longrightarrow> cap \<le> length (contents q) \<Longrightarrow> push x q = q"
    and push_inv: "inv q \<Longrightarrow> inv (push x q)"
    and pop_empty: "inv q \<Longrightarrow> contents q = [] \<Longrightarrow> pop q = None"
    and pop_first: "inv q \<Longrightarrow> contents q = x # xs \<Longrightarrow>
          \<exists>q'. pop q = Some (x, q') \<and> contents q' = xs \<and> inv q'"
    and contents_cap: "inv q \<Longrightarrow> length (contents q) \<le> cap"
begin

lemma pop_None_iff: "inv q \<Longrightarrow> pop q = None \<longleftrightarrow> contents q = []"
  by (metis list.exhaust not_Some_eq pop_empty pop_first)

lemma pop_SomeD:
  assumes "inv q" and "pop q = Some (x, q')"
  shows "contents q = x # contents q'" and "inv q'"
proof -
  from assms obtain y ys where c: "contents q = y # ys"
    by (metis list.exhaust option.distinct(1) pop_empty)
  from pop_first [OF assms(1) c] assms(2) show "contents q = x # contents q'" and "inv q'"
    by (auto simp: c)
qed

lemma push_contents:
  "inv q \<Longrightarrow> contents (push x q) = take cap (contents q @ [x])"
  using contents_cap [of q]
  by (cases "length (contents q) < cap") (auto simp: push_room push_full)

lemma fold_push:
  "inv q \<Longrightarrow> inv (fold push xs q) \<and>
     contents (fold push xs q) = contents q @ take (cap - length (contents q)) xs"
proof (induction xs arbitrary: q)
  case Nil
  then show ?case by simp
next
  case (Cons x xs)
  from Cons.prems have i: "inv (push x q)" by (rule push_inv)
  have "contents (fold push xs (push x q)) =
      contents (push x q) @ take (cap - length (contents (push x q))) xs"
    using Cons.IH [OF i] by simp
  also have "\<dots> = contents q @ take (cap - length (contents q)) (x # xs)"
  proof (cases "length (contents q) < cap")
    case True
    then obtain d where "cap - length (contents q) = Suc d"
      by (metis Suc_diff_Suc)
    moreover from this have "cap - Suc (length (contents q)) = d" by simp
    ultimately show ?thesis
      using push_room [OF Cons.prems True] by simp
  next
    case False
    then show ?thesis using push_full [OF Cons.prems] by simp
  qed
  finally show ?case using Cons.IH [OF i] by simp
qed

end

end
