(* ===== verification/Trace.thy ===== *)
theory Trace
  imports Bounded_Queue Internal_Arena
begin

text \<open>
  \<open>src/src/trace/trace.cpp\<close> and \<open>trace.h\<close>: the single-producer single-consumer ring in which
  a thread records its allocation events, the registration of a thread's ring, and the two
  recording calls.  The counters are 64-bit words that wrap.  The ring is an interpretation of
  \<open>bounded_queue\<close>; the second half models the interleavings of one producer and one consumer
  at the granularity of their shared loads and stores and shows that the consumer receives
  exactly the accepted events, in order.
\<close>

definition CAPACITY :: u64 where
  "CAPACITY = 1024"

record RingBuffer =
  rb_slots :: "AllocEvent list"
  rb_head :: u64
  rb_tail :: u64

definition null_event :: AllocEvent where
  "null_event = \<lparr>ev_call_site = 0, ev_size = 0, ev_timestamp_ns = 0, ev_thread_id = 0, ev_ptr = 0\<rparr>"

definition ring_new :: RingBuffer where
  "ring_new = \<lparr>rb_slots = replicate 1024 null_event, rb_head = 0, rb_tail = 0\<rparr>"

text \<open>The result of \<open>push\<close> tells the caller whether the ring was empty and took the event.\<close>

definition ring_push :: "AllocEvent \<Rightarrow> RingBuffer \<Rightarrow> bool \<times> RingBuffer" where
  "ring_push ev rb =
     (let h = rb_head rb;
          t = rb_tail rb;
          was_empty = (h = t)
      in if CAPACITY \<le> h - t then (False, rb)
         else (was_empty,
               rb\<lparr>rb_slots := (rb_slots rb)[unat (h AND (CAPACITY - 1)) := ev], rb_head := h + 1\<rparr>))"

definition ring_pop :: "RingBuffer \<Rightarrow> (AllocEvent \<times> RingBuffer) option" where
  "ring_pop rb =
     (let t = rb_tail rb;
          h = rb_head rb
      in if t = h then None
         else Some (rb_slots rb ! unat (t AND (CAPACITY - 1)), rb\<lparr>rb_tail := t + 1\<rparr>))"

text \<open>
  \<open>get_ring\<close>: the first call of a thread takes a ring from the internal arena and prepends it
  to the global list.  A thread's ring is its position counted from the end of that list, so
  it stays valid when later threads register.  \<open>sizeof (RingBuffer)\<close> is
  \<open>1024 * 32 + 3 * 8\<close>, its alignment 8.
\<close>

definition sizeof_RingBuffer :: u64 where
  "sizeof_RingBuffer = 1024 * 32 + 3 * 8"

record trace_state =
  ts_arena :: Arena
  ts_rings :: "RingBuffer list"
  ts_ring_of :: "u32 \<Rightarrow> nat option"

definition get_ring :: "u32 \<Rightarrow> trace_state \<Rightarrow> arena_error + (nat \<times> trace_state)" where
  "get_ring tid s =
     (case ts_ring_of s tid of
        Some k \<Rightarrow> Inr (k, s)
      | None \<Rightarrow>
          (case alloc_alloc sizeof_RingBuffer 8 (ts_arena s) of
             Inl e \<Rightarrow> Inl e
           | Inr (p, ar) \<Rightarrow>
               (let k = length (ts_rings s)
                in Inr (k, s\<lparr>ts_arena := ar, ts_rings := ring_new # ts_rings s,
                             ts_ring_of := (ts_ring_of s)(tid \<mapsto> k)\<rparr>))))"

fun get_rings :: "u32 list \<Rightarrow> trace_state \<Rightarrow> arena_error + trace_state" where
  "get_rings [] s = Inr s"
| "get_rings (tid # tids) s =
     (case get_ring tid s of Inl e \<Rightarrow> Inl e | Inr (k, s') \<Rightarrow> get_rings tids s')"

definition ring_pos :: "trace_state \<Rightarrow> nat \<Rightarrow> nat" where
  "ring_pos s k = length (ts_rings s) - 1 - k"

text \<open>
  \<open>record_alloc\<close> and \<open>record_free\<close>.  The size is narrowed to 32 bits; the returned flag is
  whether the caller runs \<open>notify_if_sleeping\<close>.
\<close>

definition record_event :: "u32 \<Rightarrow> AllocEvent \<Rightarrow> trace_state \<Rightarrow> arena_error + (bool \<times> trace_state)" where
  "record_event tid ev s =
     (case get_ring tid s of
        Inl e \<Rightarrow> Inl e
      | Inr (k, s') \<Rightarrow>
          (let i = ring_pos s' k;
               (wake, rb) = ring_push ev (ts_rings s' ! i)
           in Inr (wake, s'\<lparr>ts_rings := (ts_rings s')[i := rb]\<rparr>)))"

definition record_alloc ::
  "u32 \<Rightarrow> u64 \<Rightarrow> CallSiteID \<Rightarrow> u64 \<Rightarrow> addr \<Rightarrow> trace_state \<Rightarrow> arena_error + (bool \<times> trace_state)" where
  "record_alloc tid tsc cs sz ptr s =
     record_event tid \<lparr>ev_call_site = cs, ev_size = ucast sz, ev_timestamp_ns = tsc,
                       ev_thread_id = tid, ev_ptr = ptr\<rparr> s"

definition record_free ::
  "u32 \<Rightarrow> u64 \<Rightarrow> CallSiteID \<Rightarrow> addr \<Rightarrow> trace_state \<Rightarrow> arena_error + (bool \<times> trace_state)" where
  "record_free tid tsc cs ptr s =
     record_event tid \<lparr>ev_call_site = cs, ev_size = 0, ev_timestamp_ns = tsc,
                       ev_thread_id = tid, ev_ptr = ptr\<rparr> s"

section \<open>One producer, one consumer\<close>

text \<open>
  The interleavings of \<open>push\<close> (the owning thread) and \<open>pop\<close> (the background thread), one
  shared load or store per step: a call loads both counters, then returns or touches its slot,
  then publishes its own counter.  \<open>sp_sent\<close> and \<open>sp_recv\<close> are ghost logs of the events
  whose counter store has happened.
\<close>

datatype prod_pc = P_idle | P_loaded AllocEvent u64 u64 | P_written AllocEvent u64

datatype cons_pc = C_idle | C_loaded u64 u64 | C_read AllocEvent u64

record spsc =
  sp_ring :: RingBuffer
  sp_prod :: prod_pc
  sp_cons :: cons_pc
  sp_sent :: "AllocEvent list"
  sp_recv :: "AllocEvent list"

definition spsc_init :: spsc where
  "spsc_init = \<lparr>sp_ring = ring_new, sp_prod = P_idle, sp_cons = C_idle, sp_sent = [], sp_recv = []\<rparr>"

inductive spsc_step :: "spsc \<Rightarrow> spsc \<Rightarrow> bool" where
  push_load: "sp_prod s = P_idle \<Longrightarrow>
     spsc_step s (s\<lparr>sp_prod := P_loaded ev (rb_head (sp_ring s)) (rb_tail (sp_ring s))\<rparr>)"
| push_full: "sp_prod s = P_loaded ev h t \<Longrightarrow> CAPACITY \<le> h - t \<Longrightarrow>
     spsc_step s (s\<lparr>sp_prod := P_idle\<rparr>)"
| push_write: "sp_prod s = P_loaded ev h t \<Longrightarrow> \<not> CAPACITY \<le> h - t \<Longrightarrow>
     spsc_step s (s\<lparr>sp_prod := P_written ev h,
       sp_ring := (sp_ring s)\<lparr>rb_slots := (rb_slots (sp_ring s))[unat (h AND (CAPACITY - 1)) := ev]\<rparr>\<rparr>)"
| push_commit: "sp_prod s = P_written ev h \<Longrightarrow>
     spsc_step s (s\<lparr>sp_prod := P_idle, sp_ring := (sp_ring s)\<lparr>rb_head := h + 1\<rparr>,
       sp_sent := sp_sent s @ [ev]\<rparr>)"
| pop_load: "sp_cons s = C_idle \<Longrightarrow>
     spsc_step s (s\<lparr>sp_cons := C_loaded (rb_tail (sp_ring s)) (rb_head (sp_ring s))\<rparr>)"
| pop_none: "sp_cons s = C_loaded t h \<Longrightarrow> t = h \<Longrightarrow> spsc_step s (s\<lparr>sp_cons := C_idle\<rparr>)"
| pop_read: "sp_cons s = C_loaded t h \<Longrightarrow> t \<noteq> h \<Longrightarrow>
     spsc_step s (s\<lparr>sp_cons := C_read (rb_slots (sp_ring s) ! unat (t AND (CAPACITY - 1))) t\<rparr>)"
| pop_commit: "sp_cons s = C_read ev t \<Longrightarrow>
     spsc_step s (s\<lparr>sp_cons := C_idle, sp_ring := (sp_ring s)\<lparr>rb_tail := t + 1\<rparr>,
       sp_recv := sp_recv s @ [ev]\<rparr>)"

inductive spsc_reachable :: "spsc \<Rightarrow> bool" where
  start: "spsc_reachable spsc_init"
| step: "spsc_reachable s \<Longrightarrow> spsc_step s s' \<Longrightarrow> spsc_reachable s'"

section \<open>The ring as a list\<close>

text \<open>
  The events between the two counters, oldest first.  \<open>ring_rep rb k xs\<close> says the same with a
  ghost count \<open>k\<close> of all events ever consumed, which does not wrap.
\<close>

definition ring_contents :: "RingBuffer \<Rightarrow> AllocEvent list" where
  "ring_contents rb = slice 1024 (rb_slots rb) (rb_tail rb) (rb_head rb)"

definition ring_inv :: "RingBuffer \<Rightarrow> bool" where
  "ring_inv rb \<longleftrightarrow> length (rb_slots rb) = 1024 \<and> unat (rb_head rb - rb_tail rb) \<le> 1024"

lemma ring_new_inv: "ring_inv ring_new" and ring_new_contents: "ring_contents ring_new = []"
  by (simp_all add: ring_inv_def ring_new_def ring_contents_def slice_def)

lemma slot_index: "unat (h AND (CAPACITY - 1)) = unat h mod 1024" for h :: u64
proof -
  have "CAPACITY - 1 = mask 10" by (simp add: CAPACITY_def mask_eq_exp_minus_1)
  then show ?thesis by (simp add: unat_and_mask)
qed

lemma length_ring_contents [simp]:
  "length (ring_contents rb) = unat (rb_head rb - rb_tail rb)"
  by (simp add: ring_contents_def)

lemma dvd_1024: "(1024::nat) dvd 2 ^ 64"
  by simp

lemma unat_1024_le: "CAPACITY \<le> d \<longleftrightarrow> 1024 \<le> unat d"
  by (simp add: CAPACITY_def word_le_nat_alt)

lemma ring_push_room:
  assumes "ring_inv rb" and "length (ring_contents rb) < 1024"
  shows "ring_contents (snd (ring_push ev rb)) = ring_contents rb @ [ev]"
    and "ring_inv (snd (ring_push ev rb))"
    and "fst (ring_push ev rb) \<longleftrightarrow> ring_contents rb = []"
proof -
  let ?h = "rb_head rb" and ?t = "rb_tail rb"
  have n: "unat (?h - ?t) < 1024" using assms(2) by simp
  have len: "length (rb_slots rb) = 1024" using assms(1) by (simp add: ring_inv_def)
  have push: "ring_push ev rb = (?h = ?t,
      rb\<lparr>rb_slots := (rb_slots rb)[unat ?h mod 1024 := ev], rb_head := ?h + 1\<rparr>)"
    using n by (simp add: ring_push_def unat_1024_le slot_index Let_def)
  have sl: "slice 1024 ((rb_slots rb)[unat ?h mod 1024 := ev]) ?t (?h + 1) = slice 1024 (rb_slots rb) ?t ?h @ [ev]"
    "unat (?h + 1 - ?t) = Suc (unat (?h - ?t))"
    using slice_push [OF dvd_1024 _ len n] by simp_all
  show "ring_contents (snd (ring_push ev rb)) = ring_contents rb @ [ev]"
    using sl(1) by (simp add: push ring_contents_def)
  show "ring_inv (snd (ring_push ev rb))"
    using n len sl(2) by (simp add: push ring_inv_def)
  have "unat (?h - ?t) = 0 \<longleftrightarrow> ?h = ?t" by (simp add: unat_eq_0)
  then have "ring_contents rb = [] \<longleftrightarrow> ?h = ?t" by (metis length_0_conv length_ring_contents)
  then show "fst (ring_push ev rb) \<longleftrightarrow> ring_contents rb = []"
    by (simp add: push)
qed

lemma ring_push_full:
  "ring_inv rb \<Longrightarrow> 1024 \<le> length (ring_contents rb) \<Longrightarrow> ring_push ev rb = (False, rb)"
  by (simp add: ring_push_def unat_1024_le Let_def)

lemma ring_pop_first:
  assumes "ring_inv rb" and "ring_contents rb = x # xs"
  shows "ring_pop rb = Some (x, rb\<lparr>rb_tail := rb_tail rb + 1\<rparr>)"
    and "ring_contents (rb\<lparr>rb_tail := rb_tail rb + 1\<rparr>) = xs"
    and "ring_inv (rb\<lparr>rb_tail := rb_tail rb + 1\<rparr>)"
proof -
  note sl = slice_pop [OF dvd_1024 assms(2) [unfolded ring_contents_def]]
  show "ring_pop rb = Some (x, rb\<lparr>rb_tail := rb_tail rb + 1\<rparr>)"
    using sl(1,2) by (simp add: ring_pop_def slot_index Let_def)
  show "ring_contents (rb\<lparr>rb_tail := rb_tail rb + 1\<rparr>) = xs"
    using sl(3) by (simp add: ring_contents_def)
  have "Suc (length xs) \<le> 1024"
    using assms(1) arg_cong [OF assms(2), of length] by (simp add: ring_inv_def)
  then show "ring_inv (rb\<lparr>rb_tail := rb_tail rb + 1\<rparr>)"
    using assms(1) sl(4) by (simp add: ring_inv_def)
qed

interpretation trace_ring: bounded_queue "\<lambda>ev rb. snd (ring_push ev rb)" ring_pop ring_contents
  ring_inv 1024
proof
  fix rb x xs
  assume "ring_inv rb" and "ring_contents rb = x # xs"
  from ring_pop_first [OF this]
  show "\<exists>q'. ring_pop rb = Some (x, q') \<and> ring_contents q' = xs \<and> ring_inv q'" by blast
next
  fix rb ev
  assume "ring_inv rb"
  then show "ring_inv (snd (ring_push ev rb))"
    by (cases "length (ring_contents rb) < 1024") (auto simp: ring_push_room(2) ring_push_full)
next
  fix rb
  assume "ring_contents rb = []"
  then have "unat (rb_head rb - rb_tail rb) = 0"
    by (metis length_0_conv length_ring_contents)
  then show "ring_pop rb = None" by (simp add: ring_pop_def unat_eq_0)
qed (auto simp: ring_push_room ring_push_full ring_inv_def)


section \<open>Registration\<close>

lemma unat_sizeof_RingBuffer: "unat sizeof_RingBuffer = 32792"
  by (simp add: sizeof_RingBuffer_def)

lemma get_rings_iff:
  "arena_inv (ts_arena s) \<Longrightarrow> unat (arena_cursor (ts_arena s)) mod 8 = 0 \<Longrightarrow> distinct tids \<Longrightarrow>
     \<forall>tid \<in> set tids. ts_ring_of s tid = None \<Longrightarrow>
     (\<exists>s'. get_rings tids s = Inr s') \<longleftrightarrow>
       unat (arena_cursor (ts_arena s)) + length tids * 32792 \<le> unat (arena_end (ts_arena s))"
proof (induction tids arbitrary: s)
  case Nil
  then show ?case by (simp add: arena_inv_def)
next
  case (Cons tid tids)
  let ?a = "ts_arena s"
  have fits: "(\<exists>p a'. alloc_alloc sizeof_RingBuffer 8 ?a = Inr (p, a')) \<longleftrightarrow>
      unat (arena_cursor ?a) + 32792 \<le> unat (arena_end ?a)"
    using alloc_alloc_8(1) [OF Cons.prems(1,2)] by (simp add: unat_sizeof_RingBuffer)
  show ?case
  proof (cases "alloc_alloc sizeof_RingBuffer 8 ?a")
    case (Inl e)
    with Cons.prems fits show ?thesis by (simp add: get_ring_def)
  next
    case (Inr r)
    obtain p a' where r: "r = (p, a')" by (cases r)
    let ?s = "s\<lparr>ts_arena := a', ts_rings := ring_new # ts_rings s,
                ts_ring_of := (ts_ring_of s)(tid \<mapsto> length (ts_rings s))\<rparr>"
    have a': "arena_inv a'" "unat (arena_cursor a') = unat (arena_cursor ?a) + 32792"
      "arena_end a' = arena_end ?a"
      using alloc_alloc_8(2) [OF Cons.prems(1,2) _ Inr [unfolded r]]
      by (simp_all add: unat_sizeof_RingBuffer)
    have "get_rings (tid # tids) s = get_rings tids ?s"
      using Cons.prems(4) Inr r by (simp add: get_ring_def Let_def)
    moreover have "(unat (arena_cursor ?a) + 32792) mod 8 = 0"
      using Cons.prems(2) by presburger
    moreover have "\<forall>t \<in> set tids. ts_ring_of ?s t = None"
      using Cons.prems(3,4) by auto
    ultimately show ?thesis
      using Cons.IH [of ?s] Cons.prems(3) a' by (simp add: add.assoc)
  qed
qed

section \<open>Interleavings\<close>

text \<open>
  What ties the counters, the slots and the program counters together.  The counters are the
  lengths of the ghost logs modulo \<open>2 ^ 64\<close>; a loaded copy of the other side's counter is an
  earlier value of it.
\<close>

fun prod_ok :: "nat \<Rightarrow> nat \<Rightarrow> AllocEvent list \<Rightarrow> prod_pc \<Rightarrow> bool" where
  "prod_ok n m slots P_idle = True"
| "prod_ok n m slots (P_loaded ev h t) =
     (h = of_nat n \<and> (\<exists>k \<le> m. t = of_nat k \<and> n - k \<le> 1024))"
| "prod_ok n m slots (P_written ev h) =
     (h = of_nat n \<and> n - m < 1024 \<and> slots ! (n mod 1024) = ev)"

fun cons_ok :: "AllocEvent list \<Rightarrow> nat \<Rightarrow> cons_pc \<Rightarrow> bool" where
  "cons_ok sent m C_idle = True"
| "cons_ok sent m (C_loaded t h) =
     (t = of_nat m \<and> (\<exists>k. m \<le> k \<and> k \<le> length sent \<and> h = of_nat k))"
| "cons_ok sent m (C_read ev t) = (t = of_nat m \<and> m < length sent \<and> ev = sent ! m)"

definition ring_holds :: "RingBuffer \<Rightarrow> AllocEvent list \<Rightarrow> nat \<Rightarrow> bool" where
  "ring_holds rb sent m \<longleftrightarrow>
     length (rb_slots rb) = 1024 \<and> rb_head rb = of_nat (length sent) \<and> rb_tail rb = of_nat m \<and>
     m \<le> length sent \<and> length sent - m \<le> 1024 \<and>
     (\<forall>i. m \<le> i \<longrightarrow> i < length sent \<longrightarrow> rb_slots rb ! (i mod 1024) = sent ! i)"

definition spsc_inv :: "spsc \<Rightarrow> bool" where
  "spsc_inv s \<longleftrightarrow>
     ring_holds (sp_ring s) (sp_sent s) (length (sp_recv s)) \<and>
     sp_recv s = take (length (sp_recv s)) (sp_sent s) \<and>
     prod_ok (length (sp_sent s)) (length (sp_recv s)) (rb_slots (sp_ring s)) (sp_prod s) \<and>
     cons_ok (sp_sent s) (length (sp_recv s)) (sp_cons s)"

lemmas spsc_inv_defs = spsc_inv_def ring_holds_def

lemma prod_ok_consume: "prod_ok n m slots pc \<Longrightarrow> prod_ok n (Suc m) slots pc"
  by (cases pc) (auto intro: le_SucI)

lemma cons_ok_produce: "cons_ok sent m pc \<Longrightarrow> cons_ok (sent @ [ev]) m pc"
  by (cases pc) (auto simp: nth_append intro: le_SucI)

lemma of_nat_diff_counter:
  "k \<le> n \<Longrightarrow> n - k \<le> 1024 \<Longrightarrow> unat ((of_nat n :: u64) - of_nat k) = n - k"
proof -
  assume "k \<le> n" "n - k \<le> 1024"
  then have "(of_nat n :: u64) - of_nat k = of_nat (n - k)" by (simp add: of_nat_diff)
  then show ?thesis using \<open>n - k \<le> 1024\<close> by (simp add: unat_of_nat)
qed

lemma full_iff: "k \<le> n \<Longrightarrow> n - k \<le> 1024 \<Longrightarrow>
    CAPACITY \<le> (of_nat n :: u64) - of_nat k \<longleftrightarrow> n - k = 1024"
  by (auto simp: unat_1024_le of_nat_diff_counter)

lemma counter_eq_iff: "m \<le> k \<Longrightarrow> k - m \<le> 1024 \<Longrightarrow> (of_nat m :: u64) = of_nat k \<longleftrightarrow> m = k"
  using of_nat_diff_counter [of m k] by auto

lemma slot_of_nat: "unat ((of_nat n :: u64) AND (CAPACITY - 1)) = n mod 1024"
  by (simp add: slot_index unat_of_nat mod_mod_cancel)

lemma slot_free:
  assumes "m \<le> i" and "i < n" and "n - m < (1024::nat)"
  shows "i mod 1024 \<noteq> n mod 1024"
  using slots_differ [of "i - m" "n - m" 1024 m] assms by simp

lemma spsc_inv_init: "spsc_inv spsc_init"
  by (simp add: spsc_inv_defs spsc_init_def ring_new_def)

lemma spsc_inv_push_write:
  assumes "spsc_inv s" and "sp_prod s = P_loaded ev h t" and "\<not> CAPACITY \<le> h - t"
  shows "spsc_inv (s\<lparr>sp_prod := P_written ev h,
    sp_ring := (sp_ring s)\<lparr>rb_slots := (rb_slots (sp_ring s))[unat (h AND (CAPACITY - 1)) := ev]\<rparr>\<rparr>)"
proof -
  let ?n = "length (sp_sent s)" and ?m = "length (sp_recv s)"
  from assms obtain k where h: "h = of_nat ?n" and k: "k \<le> ?m" "t = of_nat k" "?n - k \<le> 1024"
    and mn: "?m \<le> ?n" by (auto simp: spsc_inv_defs)
  with assms(3) have room: "?n - k < 1024"
    using full_iff [of k ?n] by auto
  have slot: "unat (h AND (CAPACITY - 1)) = ?n mod 1024"
    unfolding h by (rule slot_of_nat)
  have "?n mod 1024 \<noteq> i mod 1024" if "?m \<le> i" "i < ?n" for i
    using slot_free [of ?m i ?n] that room k(1) by linarith
  then show ?thesis
    using assms(1) room k(1) h unfolding spsc_inv_defs slot by auto
qed

lemma spsc_inv_push_commit:
  assumes "spsc_inv s" and "sp_prod s = P_written ev h"
  shows "spsc_inv (s\<lparr>sp_prod := P_idle, sp_ring := (sp_ring s)\<lparr>rb_head := h + 1\<rparr>,
       sp_sent := sp_sent s @ [ev]\<rparr>)"
  using assms unfolding spsc_inv_defs
  by (auto simp: nth_append less_Suc_eq cons_ok_produce)

lemma spsc_inv_pop_read:
  assumes "spsc_inv s" and "sp_cons s = C_loaded t h" and "t \<noteq> h"
  shows "spsc_inv (s\<lparr>sp_cons := C_read (rb_slots (sp_ring s) ! unat (t AND (CAPACITY - 1))) t\<rparr>)"
proof -
  let ?n = "length (sp_sent s)" and ?m = "length (sp_recv s)"
  from assms obtain k where t: "t = of_nat ?m" and k: "?m \<le> k" "k \<le> ?n" "h = of_nat k"
    by (auto simp: spsc_inv_defs)
  with assms(3) have "?m < ?n" by (cases "k = ?m") auto
  then show ?thesis
    using assms(1) t unfolding spsc_inv_defs by (auto simp: slot_of_nat)
qed

lemma spsc_inv_pop_commit:
  assumes "spsc_inv s" and "sp_cons s = C_read ev t"
  shows "spsc_inv (s\<lparr>sp_cons := C_idle, sp_ring := (sp_ring s)\<lparr>rb_tail := t + 1\<rparr>,
       sp_recv := sp_recv s @ [ev]\<rparr>)"
  using assms unfolding spsc_inv_defs
  by (auto simp: take_Suc_conv_app_nth prod_ok_consume)

lemma spsc_step_inv: "spsc_step s s' \<Longrightarrow> spsc_inv s \<Longrightarrow> spsc_inv s'"
proof (induction rule: spsc_step.induct)
  case (push_load s ev)
  then show ?case by (auto simp: spsc_inv_defs)
next
  case (push_full s ev h t)
  then show ?case by (auto simp: spsc_inv_defs)
next
  case (pop_load s)
  then show ?case by (auto simp: spsc_inv_defs)
next
  case (pop_none s t h)
  then show ?case by (auto simp: spsc_inv_defs)
qed (simp_all add: spsc_inv_push_write spsc_inv_push_commit spsc_inv_pop_read spsc_inv_pop_commit)

lemma spsc_reachable_inv: "spsc_reachable s \<Longrightarrow> spsc_inv s"
  by (induction rule: spsc_reachable.induct) (auto intro: spsc_inv_init spsc_step_inv)

lemma spsc_inv_contents:
  assumes "spsc_inv s"
  shows "sp_sent s = sp_recv s @ ring_contents (sp_ring s)" and "ring_inv (sp_ring s)"
proof -
  let ?n = "length (sp_sent s)" and ?m = "length (sp_recv s)" and ?rb = "sp_ring s"
  have mn: "?m \<le> ?n" "?n - ?m \<le> 1024" and recv: "sp_recv s = take ?m (sp_sent s)"
    and hd: "rb_head ?rb = of_nat ?n" and tl: "rb_tail ?rb = of_nat ?m"
    and slots: "\<And>i. ?m \<le> i \<Longrightarrow> i < ?n \<Longrightarrow> rb_slots ?rb ! (i mod 1024) = sp_sent s ! i"
    and len: "length (rb_slots ?rb) = 1024"
    using assms by (auto simp: spsc_inv_defs)
  have d: "unat (rb_head ?rb - rb_tail ?rb) = ?n - ?m"
    unfolding hd tl using mn by (rule of_nat_diff_counter)
  then show "ring_inv ?rb" using mn len by (simp add: ring_inv_def)
  have idx: "(unat (rb_tail ?rb) + i) mod 1024 = (?m + i) mod 1024" for i
    unfolding tl by (metis mod_add_left_eq mod_mod_cancel slot_index slot_of_nat)
  have "ring_contents ?rb = map (\<lambda>i. sp_sent s ! (?m + i)) [0..<?n - ?m]"
    unfolding ring_contents_def slice_def d by (auto simp: idx slots)
  also have "\<dots> = drop ?m (sp_sent s)"
    by (rule nth_equalityI) (auto simp: mn)
  finally show "sp_sent s = sp_recv s @ ring_contents ?rb"
    using recv by (metis append_take_drop_id)
qed


section \<open>Properties\<close>

text \<open>C1: whatever the interleaving of the producing thread and the background thread, at the
  granularity of single shared loads and stores, the events consumed so far followed by the
  events in the ring are exactly the events accepted so far, in order; nothing is lost,
  duplicated or torn, and the ring never holds more than 1024.\<close>

theorem spsc_delivers_in_order:
  "spsc_reachable s \<Longrightarrow>
     sp_sent s = sp_recv s @ ring_contents (sp_ring s) \<and> length (ring_contents (sp_ring s)) \<le> 1024"
  using spsc_inv_contents [OF spsc_reachable_inv] by (auto simp: ring_inv_def)

lemma spsc_one_sent:
  "spsc_reachable
     (spsc_init\<lparr>sp_ring := \<lparr>rb_slots = (replicate 1024 null_event)[0 := ev], rb_head = 1, rb_tail = 0\<rparr>,
       sp_sent := [ev]\<rparr>)"
proof -
  let ?s1 = "spsc_init\<lparr>sp_prod := P_loaded ev 0 0\<rparr>"
  let ?rb2 = "\<lparr>rb_slots = (replicate 1024 null_event)[0 := ev], rb_head = 0, rb_tail = 0\<rparr>"
  let ?s2 = "spsc_init\<lparr>sp_prod := P_written ev 0, sp_ring := ?rb2\<rparr>"
  have 1: "spsc_step spsc_init ?s1"
    using push_load [of spsc_init ev] by (simp add: spsc_init_def ring_new_def)
  have 2: "spsc_step ?s1 ?s2"
    using push_write [of ?s1 ev 0 0] by (simp add: spsc_init_def ring_new_def CAPACITY_def)
  have 3: "spsc_step ?s2 (spsc_init\<lparr>sp_ring := ?rb2\<lparr>rb_head := 1\<rparr>, sp_sent := [ev]\<rparr>)"
    using push_commit [of ?s2 ev 0] by (simp add: spsc_init_def)
  from spsc_reachable.step [OF spsc_reachable.step [OF spsc_reachable.step [OF start 1] 2] 3]
  show ?thesis by simp
qed

theorem spsc_delivers_in_order_witness:
  "sp_sent (spsc_init\<lparr>sp_ring := \<lparr>rb_slots = (replicate 1024 null_event)[0 := null_event\<lparr>ev_size := 48\<rparr>],
       rb_head = 1, rb_tail = 0\<rparr>, sp_sent := [null_event\<lparr>ev_size := 48\<rparr>]\<rparr>) = [null_event\<lparr>ev_size := 48\<rparr>] \<and>
   ring_contents \<lparr>rb_slots = (replicate 1024 null_event)[0 := null_event\<lparr>ev_size := 48\<rparr>],
       rb_head = 1, rb_tail = 0\<rparr> = [null_event\<lparr>ev_size := 48\<rparr>]"
  using spsc_delivers_in_order [OF spsc_one_sent [of "null_event\<lparr>ev_size := 48\<rparr>"]]
  by (simp add: spsc_init_def)

text \<open>C13: sequentially, the ring behaves as a queue bounded by 1024: a burst of pushes appends
  its longest prefix that fits and drops the rest, the wake-up flag is raised exactly by the
  push that makes the ring non-empty, and a pop returns the oldest event.\<close>

theorem ring_refines_bounded_queue:
  assumes "ring_inv rb"
  shows "ring_contents (fold (\<lambda>ev rb. snd (ring_push ev rb)) evs rb) =
           ring_contents rb @ take (1024 - length (ring_contents rb)) evs \<and>
         (fst (ring_push ev rb) \<longleftrightarrow> ring_contents rb = []) \<and>
         (case ring_pop rb of
            None \<Rightarrow> ring_contents rb = []
          | Some (x, rb') \<Rightarrow> ring_contents rb = x # ring_contents rb' \<and> ring_inv rb')"
proof (intro conjI)
  show "ring_contents (fold (\<lambda>ev rb. snd (ring_push ev rb)) evs rb) =
           ring_contents rb @ take (1024 - length (ring_contents rb)) evs"
    using trace_ring.fold_push [OF assms] by blast
  show "fst (ring_push ev rb) \<longleftrightarrow> ring_contents rb = []"
    by (cases "length (ring_contents rb) < 1024")
       (auto simp: ring_push_room [OF assms] ring_push_full [OF assms] simp del: length_ring_contents)
  show "case ring_pop rb of
            None \<Rightarrow> ring_contents rb = []
          | Some (x, rb') \<Rightarrow> ring_contents rb = x # ring_contents rb' \<and> ring_inv rb'"
    using trace_ring.pop_None_iff [OF assms] trace_ring.pop_SomeD [OF assms]
    by (auto split: option.split)
qed

theorem ring_refines_bounded_queue_witness:
  "ring_inv ring_new \<and>
   ring_contents (fold (\<lambda>ev rb. snd (ring_push ev rb)) (replicate 2000 null_event) ring_new) =
     replicate 1024 null_event"
  using ring_refines_bounded_queue [OF ring_new_inv, of "replicate 2000 null_event" null_event]
  by (simp add: ring_new_inv ring_new_contents)

text \<open>the 4 MiB internal arena holds the dispatch table and the rings of at most 125
  threads: registering distinct threads succeeds exactly up to that number, and the next one
  trips the exhaustion assertion.  Rings are never given back, so the bound is on threads over
  the life of the process.\<close>

theorem thread_ring_capacity:
  assumes "unat m + 2 ^ 22 \<le> 2 ^ 47" and "unat m mod 8 = 0" and "distinct tids"
    and "\<forall>tid. ts_ring_of s tid = None"
    and "alloc_init (Some m) g_arena_zero = Inr a0"
    and "alloc_alloc (16 * 4096) 8 a0 = Inr (p, ts_arena s)"
  shows "(\<exists>s'. get_rings tids s = Inr s') \<longleftrightarrow> length tids \<le> 125"
proof -
  have a0: "arena_inv a0" "arena_cursor a0 = m" "unat (arena_end a0) = unat m + 2 ^ 22"
    using alloc_init_inv [OF assms(5,1)] assms(5)
    by (auto simp: alloc_init_def g_arena_zero_def)
  have "arena_inv (ts_arena s) \<and> unat (arena_cursor (ts_arena s)) = unat m + 65536 \<and>
      arena_end (ts_arena s) = arena_end a0"
    using alloc_alloc_8(2) [OF a0(1) _ _ assms(6)] a0(2) assms(2) by simp
  then show ?thesis
    using get_rings_iff [of s tids] assms(2-4) a0(3) by (auto simp: mod_add_eq mod_simps)
qed

theorem thread_ring_capacity_witness:
  "\<exists>a0 p a1.
     alloc_init (Some 0x10000) g_arena_zero = Inr a0 \<and> alloc_alloc (16 * 4096) 8 a0 = Inr (p, a1) \<and>
     \<not> (\<exists>s'. get_rings (map of_nat [0..<126]) \<lparr>ts_arena = a1, ts_rings = [], ts_ring_of = \<lambda>_. None\<rparr> = Inr s')"
proof -
  let ?a0 = "\<lparr>arena_base = 0x10000, arena_cursor = 0x10000, arena_end = 0x410000\<rparr>"
  let ?a1 = "?a0\<lparr>arena_cursor := 0x20000\<rparr>"
  have 1: "alloc_init (Some 0x10000) g_arena_zero = Inr ?a0"
    by (simp add: alloc_init_def g_arena_zero_def ARENA_SIZE_def)
  have 2: "alloc_alloc (16 * 4096) 8 ?a0 = Inr (0x10000, ?a1)"
    by (simp add: alloc_alloc_def Let_def)
  have 3: "distinct (map of_nat [0..<126] :: u32 list)"
    by (simp add: distinct_map inj_on_def word_of_nat_eq_iff take_bit_nat_eq_self)
  have "\<not> (\<exists>s'. get_rings (map of_nat [0..<126])
           \<lparr>ts_arena = ?a1, ts_rings = [], ts_ring_of = \<lambda>_. None\<rparr> = Inr s')"
    using thread_ring_capacity [where m = "0x10000" and tids = "map of_nat [0..<126]"
        and s = "\<lparr>ts_arena = ?a1, ts_rings = [], ts_ring_of = \<lambda>_. None\<rparr>", OF _ _ 3 _ 1] 2
    by simp
  with 1 2 show ?thesis by blast
qed

end
