(* ===== verification/Analysis.thy ===== *)
theory Analysis
  imports Codegen Dispatch Histogram Trace
begin

text \<open>
  \<open>src/src/analysis/analysis.h\<close> and \<open>analysis.cpp\<close>: the per-site summaries that the background
  thread keeps, the phases of a site, the choice of its strategy and its compilation.
  \<open>summaries\<close> is the used part of the C++ array; the used part of \<open>lifo_stack\<close> is a list with
  the top at its end.  Compilation and installation are those of \<open>Codegen\<close> and \<open>Dispatch\<close>; a
  full dispatch table is the only error.
\<close>

section \<open>Summaries\<close>

datatype Phase = PreSpec | Compiled | Deopt

datatype LifetimeTag = Unknown | Reap | Hold

record SizeWindow =
  sw_hist :: ExactHistogram
  sw_count :: u32

record ThreadDist =
  top_tid :: u32
  top_count :: u32
  td_total :: u32

record SizeClass =
  sc_size :: u32
  sc_count :: u32

record PairCandidate =
  free_site :: CallSiteID
  pair_count :: u32
  lifo_count :: u32

record CallSiteSummary =
  cs_id :: CallSiteID
  cs_phase :: Phase
  event_count :: u64
  free_count :: u64
  stable_windows :: u32
  deopt_count :: u32
  blacklisted :: bool
  deopt_reason :: DeoptReason
  lifetime :: LifetimeTag
  first_compile_events :: u64
  alloc_dist :: ThreadDist
  free_dist :: ThreadDist
  windows :: "SizeWindow list"
  active :: nat
  classes :: "SizeClass list"
  class_count :: u8
  lifo_stack :: "addr list"
  top_pair :: PairCandidate
  baseline :: ExactHistogram
  post_window :: SizeWindow
  candidate :: Strategy
  code_page :: addr

text \<open>The picker's knobs, set once from the environment.\<close>

record knobs =
  g_stable_windows :: u32
  g_window_size :: u32
  g_ks_alpha :: double
  g_deopt_blacklist_limit :: u32
  g_trace_only :: bool
  g_oracle_mode :: bool
  strategy_override :: Strategy

record analysis =
  summaries :: "CallSiteSummary list"
  an_codegen :: codegen_state
  an_dispatch :: dispatch

definition MAX_CALL_SITES :: nat where
  "MAX_CALL_SITES = 4096"

definition LIFETIME_REAP_RATIO :: double where
  "LIFETIME_REAP_RATIO = rnd (50 / 100)"

definition LIFETIME_HOLD_RATIO :: double where
  "LIFETIME_HOLD_RATIO = rnd (10 / 100)"

definition PC_TID_CONCENTRATION :: double where
  "PC_TID_CONCENTRATION = rnd (95 / 100)"

definition MULTI_CLASS_COVERAGE :: double where
  "MULTI_CLASS_COVERAGE = rnd (90 / 100)"

definition MULTI_CLASS_MAX :: nat where
  "MULTI_CLASS_MAX = 4"

definition PAIRED_PAIR_RATIO :: double where
  "PAIRED_PAIR_RATIO = rnd (95 / 100)"

definition PAIRED_LIFO_RATIO :: double where
  "PAIRED_LIFO_RATIO = rnd (95 / 100)"

section \<open>Windows and distributions\<close>

definition window_new :: SizeWindow where
  "window_new = \<lparr>sw_hist = hist_empty, sw_count = 0\<rparr>"

definition window_full :: "knobs \<Rightarrow> SizeWindow \<Rightarrow> bool" where
  "window_full kn w = (g_window_size kn \<le> sw_count w)"

definition window_record :: "u32 \<Rightarrow> SizeWindow \<Rightarrow> SizeWindow" where
  "window_record sz w = w\<lparr>sw_hist := hist_record sz (sw_hist w), sw_count := sw_count w + 1\<rparr>"

definition window_reset :: "SizeWindow \<Rightarrow> SizeWindow" where
  "window_reset w = w\<lparr>sw_hist := hist_reset (sw_hist w), sw_count := 0\<rparr>"

definition dist_record :: "u32 \<Rightarrow> ThreadDist \<Rightarrow> ThreadDist" where
  "dist_record tid d =
     (let d = d\<lparr>td_total := td_total d + 1\<rparr>
      in if top_count d = 0 \<or> tid = top_tid d
         then d\<lparr>top_tid := tid, top_count := top_count d + 1\<rparr>
         else let d = d\<lparr>top_count := top_count d - 1\<rparr>
              in if top_count d = 0 then d\<lparr>top_tid := tid, top_count := 1\<rparr> else d)"

definition pair_record :: "CallSiteID \<Rightarrow> PairCandidate \<Rightarrow> PairCandidate" where
  "pair_record site p =
     (if pair_count p = 0 \<or> free_site p = site
      then p\<lparr>free_site := site, pair_count := pair_count p + 1\<rparr>
      else let p = p\<lparr>pair_count := pair_count p - 1\<rparr>
           in if pair_count p = 0 then p\<lparr>free_site := site, pair_count := 1, lifo_count := 0\<rparr> else p)"

definition dist_new :: ThreadDist where
  "dist_new = \<lparr>top_tid = 0, top_count = 0, td_total = 0\<rparr>"

definition summary_new :: "CallSiteID \<Rightarrow> CallSiteSummary" where
  "summary_new cs =
     \<lparr>cs_id = cs, cs_phase = PreSpec, event_count = 0, free_count = 0, stable_windows = 0,
      deopt_count = 0, blacklisted = False, deopt_reason = ReasonNone, lifetime = Unknown,
      first_compile_events = 0, alloc_dist = dist_new, free_dist = dist_new,
      windows = [window_new, window_new], active = 0,
      classes = replicate 4 \<lparr>sc_size = 0, sc_count = 0\<rparr>, class_count = 0, lifo_stack = [],
      top_pair = \<lparr>free_site = 0, pair_count = 0, lifo_count = 0\<rparr>, baseline = hist_empty,
      post_window = window_new, candidate = Generic, code_page = 0\<rparr>"

definition find_site :: "CallSiteID \<Rightarrow> CallSiteSummary list \<Rightarrow> nat option" where
  "find_site cs ss = find_index (\<lambda>s. cs_id s = cs) ss"

definition find_or_create :: "CallSiteID \<Rightarrow> CallSiteSummary list \<Rightarrow> (nat \<times> CallSiteSummary list) option" where
  "find_or_create cs ss =
     (case find_site cs ss of
        Some i \<Rightarrow> Some (i, ss)
      | None \<Rightarrow> if MAX_CALL_SITES \<le> length ss then None
                else Some (length ss, ss @ [summary_new cs]))"

section \<open>Choosing a strategy\<close>

definition active_hist :: "CallSiteSummary \<Rightarrow> ExactHistogram" where
  "active_hist s = sw_hist (windows s ! active s)"

definition reset_window :: "nat \<Rightarrow> CallSiteSummary \<Rightarrow> CallSiteSummary" where
  "reset_window i s = s\<lparr>windows := (windows s)[i := window_reset (windows s ! i)]\<rparr>"

definition flip_window :: "CallSiteSummary \<Rightarrow> CallSiteSummary" where
  "flip_window s = (let s = s\<lparr>active := 1 - active s\<rparr> in reset_window (active s) s)"

definition learn_lifetime :: "CallSiteSummary \<Rightarrow> CallSiteSummary" where
  "learn_lifetime s =
     (if 0 < event_count s then
        let r = fdiv (d_of_nat (unat (free_count s))) (d_of_nat (unat (event_count s)))
        in if LIFETIME_REAP_RATIO \<le> r then s\<lparr>lifetime := Reap\<rparr>
           else if r < LIFETIME_HOLD_RATIO then s\<lparr>lifetime := Hold\<rparr>
           else s\<lparr>lifetime := Unknown\<rparr>
      else s)"

definition concentrated :: "ThreadDist \<Rightarrow> bool" where
  "concentrated d =
     (0 < td_total d \<and>
      PC_TID_CONCENTRATION \<le> fdiv (d_of_nat (unat (top_count d))) (d_of_nat (unat (td_total d))))"

definition pc_pattern :: "CallSiteSummary \<Rightarrow> bool" where
  "pc_pattern s =
     (concentrated (alloc_dist s) \<and> concentrated (free_dist s) \<and>
      top_tid (alloc_dist s) \<noteq> top_tid (free_dist s))"

definition learn_classes :: "CallSiteSummary \<Rightarrow> CallSiteSummary" where
  "learn_classes s =
     (let modes = top_k_modes MULTI_CLASS_MAX MULTI_CLASS_COVERAGE (active_hist s)
      in s\<lparr>class_count := of_nat (length modes),
           classes := map (\<lambda>m. \<lparr>sc_size = m_size m, sc_count = m_count m\<rparr>) modes @
                      drop (length modes) (classes s)\<rparr>)"

definition paired_pattern :: "CallSiteSummary \<Rightarrow> bool" where
  "paired_pattern s =
     (if 0 < event_count s \<and> 0 < pair_count (top_pair s) then
        let pr = fdiv (d_of_nat (unat (pair_count (top_pair s)))) (d_of_nat (unat (event_count s)));
            lr = fdiv (d_of_nat (unat (lifo_count (top_pair s)))) (d_of_nat (unat (pair_count (top_pair s))))
        in PAIRED_PAIR_RATIO \<le> pr \<and> PAIRED_LIFO_RATIO \<le> lr
      else False)"

definition pick_strategy :: "knobs \<Rightarrow> CallSiteSummary \<Rightarrow> Strategy" where
  "pick_strategy kn s =
     (if strategy_override kn \<noteq> Generic then strategy_override kn
      else if paired_pattern s then PairedStack
      else if pc_pattern s then ProducerConsumer
      else if is_monomorphic (rnd (95 / 100)) (active_hist s) then
        let dom = dominant_size (active_hist s)
        in if lifetime s \<noteq> Hold \<and> 8 \<le> dom then ThreadLocalFreeList else BumpAlloc
      else if 2 \<le> class_count s then MultiSizeFreeList
      else ThreadLocalFreeList)"

definition routine_of :: "CallSiteSummary \<Rightarrow> RoutineSpec" where
  "routine_of s =
     (let n = unat (class_count s)
      in if candidate s = MultiSizeFreeList
         then \<lparr>rs_id = cs_id s, rs_strategy = candidate s, rs_size = dominant_size (active_hist s),
               rs_class_sizes = map sc_size (take n (classes s)) @ replicate (4 - n) 0,
               rs_class_count = class_count s\<rparr>
         else \<lparr>rs_id = cs_id s, rs_strategy = candidate s, rs_size = dominant_size (active_hist s),
               rs_class_sizes = [0, 0, 0, 0], rs_class_count = 0\<rparr>)"

text \<open>
  The page and the addresses that one compilation sees may differ from those of the next; they
  are an argument, indexed by the slot counter.
\<close>

definition install_routine ::
    "(u32 \<Rightarrow> link_env) \<Rightarrow> CallSiteSummary \<Rightarrow> codegen_state \<Rightarrow> dispatch \<Rightarrow>
       dispatch_error + (CallSiteSummary \<times> codegen_state \<times> dispatch)" where
  "install_routine le s cg d =
     (case compile (le (cg_next_index cg)) (routine_of s) cg of
        (None, cg) \<Rightarrow> Inr (s, cg, d)
      | (Some routine, cg) \<Rightarrow>
          (case dispatch_install (cs_id s) routine d of
             Inl e \<Rightarrow> Inl e
           | Inr d \<Rightarrow> Inr (s\<lparr>code_page := routine\<rparr>, cg, d)))"

definition specialise :: "knobs \<Rightarrow> CallSiteSummary \<Rightarrow> CallSiteSummary" where
  "specialise kn s =
     (let s = s\<lparr>baseline := active_hist s\<rparr>;
          s = learn_lifetime s;
          s = learn_classes s;
          s = s\<lparr>candidate := pick_strategy kn s\<rparr>;
          s = s\<lparr>cs_phase := Compiled\<rparr>
      in if first_compile_events s = 0 then s\<lparr>first_compile_events := event_count s\<rparr> else s)"

definition window_stable :: "knobs \<Rightarrow> CallSiteSummary \<Rightarrow> bool" where
  "window_stable kn s =
     (let prev = 1 - active s
      in 0 < sw_count (windows s ! prev) \<and>
         ks_stable (active_hist s) (sw_hist (windows s ! prev)) (g_ks_alpha kn))"

definition advance_prespec ::
    "knobs \<Rightarrow> (u32 \<Rightarrow> link_env) \<Rightarrow> CallSiteSummary \<Rightarrow> codegen_state \<Rightarrow> dispatch \<Rightarrow>
       dispatch_error + (CallSiteSummary \<times> codegen_state \<times> dispatch)" where
  "advance_prespec kn le s cg d =
     (if window_stable kn s then
        let s = s\<lparr>stable_windows := stable_windows s + 1\<rparr>
        in if g_stable_windows kn \<le> stable_windows s then
             (if blacklisted s \<or> g_trace_only kn
              then Inr (flip_window (s\<lparr>stable_windows := 0\<rparr>), cg, d)
              else install_routine le (specialise kn s) cg d)
           else Inr (flip_window s, cg, d)
      else Inr (flip_window (s\<lparr>stable_windows := 0\<rparr>), cg, d))"

definition restart_windows :: "CallSiteSummary \<Rightarrow> CallSiteSummary" where
  "restart_windows s =
     (let s = s\<lparr>stable_windows := 0\<rparr>; s = reset_window 0 s; s = reset_window 1 s
      in s\<lparr>active := 0\<rparr>)"

definition check_postspec :: "knobs \<Rightarrow> CallSiteSummary \<Rightarrow> CallSiteSummary" where
  "check_postspec kn s =
     (if g_oracle_mode kn then s\<lparr>post_window := window_reset (post_window s)\<rparr>
      else
        let s = (if \<not> ks_stable (sw_hist (post_window s)) (baseline s) (g_ks_alpha kn)
                 then restart_windows (s\<lparr>cs_phase := Deopt, deopt_reason := SizeDrift\<rparr>)
                 else s)
        in s\<lparr>post_window := window_reset (post_window s)\<rparr>)"

section \<open>Events\<close>

definition note_free :: "bool \<Rightarrow> AllocEvent \<Rightarrow> CallSiteSummary \<Rightarrow> CallSiteSummary" where
  "note_free seg_managed ev s =
     (let s = s\<lparr>free_count := free_count s + 1, free_dist := dist_record (ev_thread_id ev) (free_dist s)\<rparr>
      in if seg_managed then s
         else
           let s = s\<lparr>top_pair := pair_record (ev_call_site ev) (top_pair s)\<rparr>
           in if lifo_stack s \<noteq> [] \<and> last (lifo_stack s) = ev_ptr ev
              then let s = s\<lparr>lifo_stack := butlast (lifo_stack s)\<rparr>
                   in if free_site (top_pair s) = ev_call_site ev
                      then s\<lparr>top_pair := (top_pair s)\<lparr>lifo_count := lifo_count (top_pair s) + 1\<rparr>\<rparr>
                      else s
              else s)"

definition push_lifo :: "addr \<Rightarrow> addr list \<Rightarrow> addr list" where
  "push_lifo p st =
     (if p = 0 then st else if length st < 16 then st @ [p] else tl st @ [p])"

definition count_alloc :: "AllocEvent \<Rightarrow> CallSiteSummary \<Rightarrow> CallSiteSummary" where
  "count_alloc ev s =
     (let s = s\<lparr>event_count := event_count s + 1,
                alloc_dist := dist_record (ev_thread_id ev) (alloc_dist s)\<rparr>;
          s = s\<lparr>lifo_stack := push_lifo (ev_ptr ev) (lifo_stack s)\<rparr>
      in if cs_phase s = Deopt then s\<lparr>cs_phase := PreSpec\<rparr> else s)"

definition record_active :: "u32 \<Rightarrow> CallSiteSummary \<Rightarrow> CallSiteSummary" where
  "record_active sz s = s\<lparr>windows := (windows s)[active s := window_record sz (windows s ! active s)]\<rparr>"

definition note_alloc ::
    "knobs \<Rightarrow> (u32 \<Rightarrow> link_env) \<Rightarrow> AllocEvent \<Rightarrow> CallSiteSummary \<Rightarrow> codegen_state \<Rightarrow> dispatch \<Rightarrow>
       dispatch_error + (CallSiteSummary \<times> codegen_state \<times> dispatch)" where
  "note_alloc kn le ev s cg d =
     (let s = count_alloc ev s
      in if cs_phase s = PreSpec then
           let s = record_active (ev_size ev) s
           in if window_full kn (windows s ! active s) then advance_prespec kn le s cg d
              else Inr (s, cg, d)
         else
           let s = s\<lparr>post_window := window_record (ev_size ev) (post_window s)\<rparr>
           in if window_full kn (post_window s) then Inr (check_postspec kn s, cg, d)
              else Inr (s, cg, d))"

definition process_free :: "seg_state \<Rightarrow> AllocEvent \<Rightarrow> CallSiteSummary list \<Rightarrow> CallSiteSummary list" where
  "process_free gs ev ss =
     (if ev_ptr ev = 0 then ss
      else
        let h = seg_of (ev_ptr ev); seg_managed = is_managed h gs;
            r = (if seg_managed then find_or_create (alloc_site (headers gs h)) ss
                 else map_option (\<lambda>i. (i, ss))
                        (find_index (\<lambda>s. lifo_stack s \<noteq> [] \<and> last (lifo_stack s) = ev_ptr ev) ss))
        in case r of None \<Rightarrow> ss
           | Some (i, ss) \<Rightarrow> ss[i := note_free seg_managed ev (ss ! i)])"

definition process_event ::
    "knobs \<Rightarrow> (u32 \<Rightarrow> link_env) \<Rightarrow> seg_state \<Rightarrow> AllocEvent \<Rightarrow> analysis \<Rightarrow> dispatch_error + analysis" where
  "process_event kn le gs ev an =
     (if ev_size ev = 0 then Inr (an\<lparr>summaries := process_free gs ev (summaries an)\<rparr>)
      else if HIST_MAX_SIZE \<le> ev_size ev then Inr an
      else case find_or_create (ev_call_site ev) (summaries an) of
             None \<Rightarrow> Inr an
           | Some (i, ss) \<Rightarrow>
               (case note_alloc kn le ev (ss ! i) (an_codegen an) (an_dispatch an) of
                  Inl e \<Rightarrow> Inl e
                | Inr (s, cg, d) \<Rightarrow>
                    Inr (an\<lparr>summaries := ss[i := s], an_codegen := cg, an_dispatch := d\<rparr>)))"

fun process_events ::
    "knobs \<Rightarrow> (u32 \<Rightarrow> link_env) \<Rightarrow> seg_state \<Rightarrow> AllocEvent list \<Rightarrow> analysis \<Rightarrow> dispatch_error + analysis" where
  "process_events kn le gs [] an = Inr an"
| "process_events kn le gs (ev # evs) an =
     (case process_event kn le gs ev an of Inl e \<Rightarrow> Inl e | Inr an \<Rightarrow> process_events kn le gs evs an)"

definition reset_call_site :: "knobs \<Rightarrow> CallSiteID \<Rightarrow> DeoptReason \<Rightarrow> analysis \<Rightarrow> analysis" where
  "reset_call_site kn cs reason an =
     (case find_site cs (summaries an) of
        None \<Rightarrow> an
      | Some i \<Rightarrow>
          let s = summaries an ! i;
              s = s\<lparr>deopt_count := deopt_count s + 1\<rparr>;
              s = (if g_deopt_blacklist_limit kn \<le> deopt_count s then s\<lparr>blacklisted := True\<rparr> else s);
              s = (if reason \<noteq> Other \<or> deopt_reason s = ReasonNone then s\<lparr>deopt_reason := reason\<rparr> else s);
              s = s\<lparr>cs_phase := Deopt, code_page := 0\<rparr>
          in an\<lparr>summaries := (summaries an)[i := restart_windows s]\<rparr>)"

section \<open>Queries\<close>

definition site_field :: "(CallSiteSummary \<Rightarrow> 'a) \<Rightarrow> 'a \<Rightarrow> CallSiteID \<Rightarrow> CallSiteSummary list \<Rightarrow> 'a" where
  "site_field f dflt cs ss = (case find_site cs ss of Some i \<Rightarrow> f (ss ! i) | None \<Rightarrow> dflt)"

definition get_phase :: "CallSiteID \<Rightarrow> CallSiteSummary list \<Rightarrow> Phase" where
  "get_phase = site_field cs_phase PreSpec"

definition get_candidate_strategy :: "CallSiteID \<Rightarrow> CallSiteSummary list \<Rightarrow> Strategy" where
  "get_candidate_strategy = site_field candidate Generic"

definition get_lifetime_tag :: "CallSiteID \<Rightarrow> CallSiteSummary list \<Rightarrow> LifetimeTag" where
  "get_lifetime_tag = site_field lifetime Unknown"

definition get_deopt_reason :: "CallSiteID \<Rightarrow> CallSiteSummary list \<Rightarrow> DeoptReason" where
  "get_deopt_reason = site_field deopt_reason ReasonNone"

definition reap_predicate :: "CallSiteSummary list \<Rightarrow> CallSiteID \<Rightarrow> bool" where
  "reap_predicate ss cs = site_field (\<lambda>s. lifetime s = Reap) False cs ss"

definition thp_wants_huge :: "CallSiteSummary list \<Rightarrow> CallSiteID \<Rightarrow> bool" where
  "thp_wants_huge ss cs = (get_lifetime_tag cs ss = Hold)"

fun capturable_loop :: "CallSiteSummary list \<Rightarrow> u64 \<Rightarrow> u64 \<Rightarrow> u64 \<times> u64" where
  "capturable_loop [] t c = (t, c)"
| "capturable_loop (s # ss) t c =
     capturable_loop ss (t + event_count s)
       (if cs_phase s = Compiled then c + event_count s else c)"

definition capturable :: "CallSiteSummary list \<Rightarrow> u64 \<times> u64" where
  "capturable ss = capturable_loop ss 0 0"

definition reset_state :: "analysis \<Rightarrow> analysis" where
  "reset_state an = an\<lparr>summaries := []\<rparr>"

section \<open>Start-up\<close>

text \<open>\<open>strtoul\<close> in base 10: white space, a sign, digits; saturating at 64 bits.\<close>

definition is_digit_char :: "char \<Rightarrow> bool" where
  "is_digit_char c = (48 \<le> (of_char c :: nat) \<and> (of_char c :: nat) \<le> 57)"

definition is_space_char :: "char \<Rightarrow> bool" where
  "is_space_char c = ((of_char c :: nat) = 32 \<or> (9 \<le> (of_char c :: nat) \<and> (of_char c :: nat) \<le> 13))"

definition digits_value :: "string \<Rightarrow> nat" where
  "digits_value ds = foldl (\<lambda>n c. n * 10 + (of_char c - 48)) 0 ds"

definition strtoul :: "string \<Rightarrow> u64" where
  "strtoul v =
     (let v = dropWhile is_space_char v;
          neg = (v \<noteq> [] \<and> hd v = CHR ''-'');
          v = (if v \<noteq> [] \<and> (hd v = CHR ''-'' \<or> hd v = CHR ''+'') then tl v else v);
          n = digits_value (takeWhile is_digit_char v)
      in if 2 ^ 64 \<le> n then - 1 else if neg then - of_nat n else of_nat n)"

definition env_knob :: "(string \<Rightarrow> string option) \<Rightarrow> string \<Rightarrow> u32 \<Rightarrow> u32" where
  "env_knob getenv name dflt =
     (case getenv name of
        None \<Rightarrow> dflt
      | Some v \<Rightarrow> let n = ucast (strtoul v) in if 0 < n then n else dflt)"

definition override_of :: "string option \<Rightarrow> Strategy" where
  "override_of e =
     (case e of
        None \<Rightarrow> Generic
      | Some v \<Rightarrow> if v = ''bump'' then BumpAlloc
                  else if v = ''freelist'' then ThreadLocalFreeList
                  else if v = ''arena'' then EpochArena else Generic)"

definition analysis_knobs ::
    "(string \<Rightarrow> double) \<Rightarrow> (string \<Rightarrow> string option) \<Rightarrow> knobs" where
  "analysis_knobs strtod getenv =
     \<lparr>g_stable_windows = env_knob getenv ''TBJIT_STABLE_WINDOWS'' 10,
      g_window_size = env_knob getenv ''TBJIT_WINDOW_SIZE'' 1000,
      g_ks_alpha =
        (case getenv ''TBJIT_KS_ALPHA'' of
           None \<Rightarrow> rnd (5 / 100)
         | Some v \<Rightarrow> let a = strtod v in if 0 < a \<and> a < 1 then a else rnd (5 / 100)),
      g_deopt_blacklist_limit = env_knob getenv ''TBJIT_DEOPT_LIMIT'' 3,
      g_trace_only = (getenv ''TBJIT_TRACE_ONLY'' \<noteq> None),
      g_oracle_mode = False,
      strategy_override = override_of (getenv ''TBJIT_FORCE_STRATEGY'')\<rparr>"

end
