(* ===== verification/Picker.thy ===== *)
theory Picker
  imports Analysis
begin

text \<open>
  What the analysis thread guarantees: its state invariant over all sequences of events and
  deoptimisations, the majority thread, the blacklist, and the path of a site from its first
  event to its compiled routine.
\<close>

section \<open>Thread distributions\<close>

text \<open>
  How far thread \<open>m\<close> leads: a foreign event lowers it by one at most, an own event raises it by one.
\<close>

definition lead :: "u32 \<Rightarrow> ThreadDist \<Rightarrow> int" where
  "lead m d = (if top_count d = 0 then 0
               else if top_tid d = m then int (unat (top_count d)) else 1 - int (unat (top_count d)))"

definition dist_of :: "u32 list \<Rightarrow> ThreadDist \<Rightarrow> bool" where
  "dist_of ts d \<longleftrightarrow>
     unat (td_total d) = length ts \<and> unat (top_count d) \<le> count_list ts (top_tid d) \<and>
     (top_count d = 0 \<longleftrightarrow> ts = []) \<and>
     (\<forall>m. int (count_list ts m) - int (length ts - count_list ts m) \<le> lead m d)"

lemma dist_of_new: "dist_of [] dist_new"
  by (simp add: dist_of_def dist_new_def lead_def)

lemma dist_of_record:
  assumes d: "dist_of ts d" and len: "Suc (length ts) < 2 ^ 32"
  shows "dist_of (ts @ [t]) (dist_record t d)"
proof -
  note d [unfolded dist_of_def]
  then have tot: "unat (td_total d) = length ts" and top: "unat (top_count d) \<le> count_list ts (top_tid d)"
    and z: "top_count d = 0 \<longleftrightarrow> ts = []"
    and ld: "\<And>m. int (count_list ts m) - int (length ts - count_list ts m) \<le> lead m d" by blast+
  have cl: "count_list ts m \<le> length ts" for m by (rule count_le_length)
  have tot': "unat (td_total d + 1) = Suc (length ts)" using tot len by (simp add: unat_word_ariths)
  have inc: "unat (top_count d + 1) = Suc (unat (top_count d))"
    using top cl [of "top_tid d"] len by (simp add: unat_word_ariths)
  have nz: "top_count d + 1 \<noteq> 0" using inc by (metis unat_0 nat.distinct(1))
  show ?thesis
  proof (cases "top_count d = 0 \<or> t = top_tid d")
    case True
    then have r: "dist_record t d = \<lparr>top_tid = t, top_count = top_count d + 1, td_total = td_total d + 1\<rparr>"
      by (simp add: dist_record_def)
    have "int (count_list (ts @ [t]) m) - int (Suc (length ts) - count_list (ts @ [t]) m) \<le> lead m (dist_record t d)" for m
      using ld [of m] cl [of m] True z inc nz unfolding r lead_def
      by (cases "t = m") (auto simp: of_nat_diff)
    moreover have "unat (top_count (dist_record t d)) \<le> count_list (ts @ [t]) t"
      using True top inc z unfolding r by auto
    ultimately show ?thesis unfolding dist_of_def using tot' nz by (simp add: r)
  next
    case False
    then have pos: "0 < unat (top_count d)" by (simp add: unat_gt_0)
    then have dec: "unat (top_count d - 1) = unat (top_count d) - 1"
      by (subst unat_sub) (simp_all add: word_le_nat_alt)
    show ?thesis
    proof (cases "top_count d - 1 = 0")
      case True
      then have one: "unat (top_count d) = 1" using dec pos by simp
      have r: "dist_record t d = \<lparr>top_tid = t, top_count = 1, td_total = td_total d + 1\<rparr>"
        using False True by (simp add: dist_record_def Let_def)
      have "int (count_list (ts @ [t]) m) - int (Suc (length ts) - count_list (ts @ [t]) m) \<le> lead m (dist_record t d)" for m
        using ld [of m] cl [of m] False one unfolding r lead_def
        by (cases "t = m"; cases "top_tid d = m") (auto simp: of_nat_diff)
      then show ?thesis unfolding dist_of_def using tot' by (simp add: r)
    next
      case nz: False
      have r: "dist_record t d = \<lparr>top_tid = top_tid d, top_count = top_count d - 1, td_total = td_total d + 1\<rparr>"
        using False nz by (simp add: dist_record_def Let_def)
      have "int (count_list (ts @ [t]) m) - int (Suc (length ts) - count_list (ts @ [t]) m) \<le> lead m (dist_record t d)" for m
        using ld [of m] cl [of m] False nz dec pos unfolding r lead_def
        by (cases "t = m"; cases "top_tid d = m") (auto simp: of_nat_diff)
      moreover have "unat (top_count d - 1) \<le> count_list ts (top_tid d)" using top dec by simp
      ultimately show ?thesis unfolding dist_of_def using tot' nz False by (simp add: r)
    qed
  qed
qed

lemma dist_of_fold:
  "length ts < 2 ^ 32 \<Longrightarrow> dist_of ts (fold dist_record ts dist_new)"
proof (induction ts rule: rev_induct)
  case Nil
  then show ?case by (simp add: dist_of_new)
next
  case (snoc t ts)
  then show ?case using dist_of_record [of ts "fold dist_record ts dist_new" t] by simp
qed

text \<open>
  Over fewer than \<open>2 ^ 32\<close> events, \<open>top_tid\<close> is the thread of more than half of the events
  whenever there is one; and a distribution that counts as concentrated was produced to more
  than 94 per cent by its top thread.
\<close>

theorem thread_dist_sound:
  assumes "length ts < 2 ^ 32"
  shows "(length ts < 2 * count_list ts m \<longrightarrow> top_tid (fold dist_record ts dist_new) = m) \<and>
    (concentrated (fold dist_record ts dist_new) \<longrightarrow>
       94 * length ts < 100 * count_list ts (top_tid (fold dist_record ts dist_new)))"
proof -
  define d where "d = fold dist_record ts dist_new"
  have "(length ts < 2 * count_list ts m \<longrightarrow> top_tid d = m) \<and>
    (concentrated d \<longrightarrow> 94 * length ts < 100 * count_list ts (top_tid d))"
  proof (intro conjI impI)
    have d: "dist_of ts d" unfolding d_def by (rule dist_of_fold [OF assms(1)])
    show "top_tid d = m" if "length ts < 2 * count_list ts m"
    proof (rule ccontr)
      assume "top_tid d \<noteq> m"
      moreover have "1 \<le> int (unat (top_count d))" if "top_count d \<noteq> 0"
      proof -
        have "0 < unat (top_count d)" using that by (simp add: unat_gt_0)
        then show ?thesis by linarith
      qed
      ultimately have "lead m d \<le> 0" unfolding lead_def by auto
      moreover have "int (count_list ts m) - int (length ts - count_list ts m) \<le> lead m d"
        using d by (simp add: dist_of_def)
      ultimately show False using that count_le_length [of ts m] by (simp add: of_nat_diff)
    qed
    assume "concentrated d"
    then have c: "rnd (95 / 100) \<le> rnd (d_of_nat (unat (top_count d)) / d_of_nat (length ts))" and n: "0 < length ts"
      using d by (auto simp: concentrated_def PC_TID_CONCENTRATION_def fdiv_def dist_of_def word_less_nat_alt)
    have top: "unat (top_count d) \<le> count_list ts (top_tid d)" using d by (simp add: dist_of_def)
    have small: "unat (top_count d) \<le> 2 ^ 53" "length ts \<le> 2 ^ 53"
      using top count_le_length [of ts "top_tid d"] assms(1) by simp_all
    show "94 * length ts < 100 * count_list ts (top_tid d)"
    proof (rule ccontr)
      assume "\<not> ?thesis"
      then have "100 * unat (top_count d) \<le> 94 * length ts" using top by simp
      then have "of_nat (100 * unat (top_count d)) \<le> (of_nat (94 * length ts) :: rat)" by (rule of_nat_mono)
      then have "d_of_nat (unat (top_count d)) / d_of_nat (length ts) \<le> 94 / 100"
        using small n by (simp add: d_of_nat_exact divide_le_eq)
      then have "rnd (95 / 100) \<le> rnd (94 / 100)" using c by (meson order_trans rnd_mono)
      moreover have "rnd (94 / 100) < rnd (95 / 100)" by code_simp
      ultimately show False by simp
    qed
  qed
  then show ?thesis by (simp only: d_def)
qed

section \<open>The state invariant\<close>

definition window_ok :: "SizeWindow \<Rightarrow> bool" where
  "window_ok w \<longleftrightarrow> hist_ok (sw_hist w)"

definition shape_ok :: "CallSiteSummary \<Rightarrow> bool" where
  "shape_ok s \<longleftrightarrow>
     active s \<le> 1 \<and> length (windows s) = 2 \<and> (\<forall>w \<in> set (windows s). window_ok w) \<and>
     hist_ok (baseline s) \<and> window_ok (post_window s) \<and>
     length (lifo_stack s) \<le> 16 \<and> 0 \<notin> set (lifo_stack s) \<and>
     class_count s \<le> 4 \<and> length (classes s) = 4"

text \<open>A blacklisted site has no routine, and neither has any site of a trace-only run.\<close>

definition phase_ok :: "knobs \<Rightarrow> CallSiteSummary \<Rightarrow> bool" where
  "phase_ok kn s \<longleftrightarrow>
     (cs_phase s = Compiled \<longrightarrow> candidate s \<noteq> Generic \<and> \<not> blacklisted s \<and> \<not> g_trace_only kn) \<and>
     (code_page s \<noteq> 0 \<longrightarrow> \<not> blacklisted s \<and> \<not> g_trace_only kn)"

definition summary_ok :: "knobs \<Rightarrow> CallSiteSummary \<Rightarrow> bool" where
  "summary_ok kn s \<longleftrightarrow> shape_ok s \<and> phase_ok kn s"

lemma hist_empty_ok [simp]: "hist_ok hist_empty"
  by (simp add: hist_ok_def hist_empty_def)

lemma hist_reset_ok [simp]: "hist_ok (hist_reset h)"
  by (simp add: hist_ok_def hist_reset_def)

lemma hist_record_ok:
  assumes "hist_ok h"
  shows "hist_ok (hist_record sz h)"
proof (cases "HIST_MAX_SIZE \<le> sz")
  case False
  show ?thesis
  proof (cases "find_index (\<lambda>e. m_size e = sz) (entries h)")
    case None
    then have "sz \<notin> m_size ` set (entries h)" by (auto simp: find_index_None_iff)
    then show ?thesis using assms None by (auto simp: hist_record_def hist_ok_def)
  next
    case (Some i)
    then have i: "i < length (entries h)" using find_index_SomeD by blast
    have "map m_size ((entries h)[i := (entries h ! i)\<lparr>m_count := m_count (entries h ! i) + 1\<rparr>]) = map m_size (entries h)"
      using i by (intro nth_equalityI) (auto simp: nth_list_update)
    then show ?thesis using assms Some by (simp add: hist_record_def hist_ok_def)
  qed
qed (use assms in \<open>simp add: hist_record_def\<close>)

lemma window_ok_simps [simp]:
  "window_ok window_new" "window_ok (window_reset w)"
  "window_ok w \<Longrightarrow> window_ok (window_record sz w)"
  by (simp_all add: window_ok_def window_new_def window_reset_def window_record_def hist_record_ok)

lemma length_top_k_loop: "length (top_k_loop k es target loc cum) \<le> k"
  by (induction k arbitrary: loc cum) (auto simp: Let_def split: option.splits)

lemma length_top_k: "length (top_k_modes k c h) \<le> k"
  by (simp add: top_k_modes_def length_top_k_loop)

lemma summary_new_ok: "summary_ok kn (summary_new cs)"
  by (simp add: summary_ok_def shape_ok_def phase_ok_def summary_new_def)

lemma set_update2: "length ws = 2 \<Longrightarrow> i \<le> 1 \<Longrightarrow> set (ws[i := w]) \<subseteq> insert w (set ws)"
  by (rule set_update_subset_insert)

lemma flip_window_ok:
  assumes "summary_ok kn s"
  shows "summary_ok kn (flip_window s)"
proof -
  have "\<forall>w \<in> set ((windows s)[i := window_reset v]). window_ok w" for i v
    using assms set_update_subset_insert [of "windows s" i "window_reset v"]
    by (auto simp: summary_ok_def shape_ok_def)
  then show ?thesis
    using assms by (auto simp: summary_ok_def shape_ok_def phase_ok_def flip_window_def reset_window_def Let_def)
qed

lemma restart_windows_ok:
  assumes "summary_ok kn s"
  shows "summary_ok kn (restart_windows s)"
proof -
  obtain v w where "windows s = [v, w]"
    using assms by (auto simp: summary_ok_def shape_ok_def length_Suc_conv numeral_2_eq_2)
  then show ?thesis
    using assms by (simp add: summary_ok_def shape_ok_def phase_ok_def restart_windows_def reset_window_def Let_def)
qed

lemma active_hist_ok: "summary_ok kn s \<Longrightarrow> hist_ok (active_hist s)"
  by (simp add: summary_ok_def shape_ok_def active_hist_def window_ok_def)

lemma pick_strategy_not_Generic: "pick_strategy kn s \<noteq> Generic"
  by (simp add: pick_strategy_def Let_def)

lemma specialise_fields [simp]:
  "cs_id (specialise kn s) = cs_id s" "cs_phase (specialise kn s) = Compiled"
  "blacklisted (specialise kn s) = blacklisted s" "code_page (specialise kn s) = code_page s"
  "event_count (specialise kn s) = event_count s" "deopt_count (specialise kn s) = deopt_count s"
  "windows (specialise kn s) = windows s" "active (specialise kn s) = active s"
  "lifo_stack (specialise kn s) = lifo_stack s" "post_window (specialise kn s) = post_window s"
  "baseline (specialise kn s) = active_hist s"
  by (simp_all add: specialise_def learn_lifetime_def learn_classes_def Let_def)

lemma specialise_candidate: "candidate (specialise kn s) \<noteq> Generic"
  using pick_strategy_not_Generic by (simp add: specialise_def Let_def)

lemma specialise_classes:
  assumes "length (classes s) = 4"
  shows "class_count (specialise kn s) \<le> 4" and "length (classes (specialise kn s)) = 4"
proof -
  define n where "n = length (top_k_modes MULTI_CLASS_MAX MULTI_CLASS_COVERAGE (active_hist s))"
  have n: "n \<le> 4" using length_top_k unfolding n_def MULTI_CLASS_MAX_def by (metis)
  have ah: "active_hist (s\<lparr>lifetime := l\<rparr>) = active_hist s"
    "active_hist (s\<lparr>baseline := b\<rparr>) = active_hist s"
    "active_hist (s\<lparr>baseline := b, lifetime := l\<rparr>) = active_hist s" for l b
    by (simp_all add: active_hist_def)
  have "class_count (specialise kn s) = of_nat n" "length (classes (specialise kn s)) = max n (length (classes s))"
    by (simp_all add: specialise_def learn_lifetime_def learn_classes_def Let_def n_def ah)
  moreover have "(of_nat n :: u8) \<le> 4" using n by (simp add: word_le_nat_alt unat_of_nat)
  ultimately show "class_count (specialise kn s) \<le> 4" and "length (classes (specialise kn s)) = 4"
    using n assms by auto
qed

lemma specialise_ok:
  assumes "summary_ok kn s" and "\<not> blacklisted s" and "\<not> g_trace_only kn"
  shows "summary_ok kn (specialise kn s)"
  using assms specialise_candidate [of kn s] specialise_classes [of s kn] active_hist_ok [OF assms(1)]
  by (simp add: summary_ok_def shape_ok_def phase_ok_def)

lemma install_routine_Inr:
  assumes "install_routine le s cg d = Inr (s', cg', d')"
  shows "(s' = s \<and> d' = d) \<or> (\<exists>p. s' = s\<lparr>code_page := p\<rparr> \<and> dispatch_install (cs_id s) p d = Inr d')"
proof (cases "compile (le (cg_next_index cg)) (routine_of s) cg")
  case (Pair r cg1)
  show ?thesis
  proof (cases r)
    case None
    then show ?thesis using assms Pair by (simp add: install_routine_def)
  next
    case (Some p)
    then show ?thesis
      using assms Pair by (cases "dispatch_install (cs_id s) p d") (auto simp: install_routine_def)
  qed
qed

lemma flip_window_fields [simp]:
  "cs_id (flip_window s) = cs_id s" "cs_phase (flip_window s) = cs_phase s"
  "blacklisted (flip_window s) = blacklisted s" "deopt_count (flip_window s) = deopt_count s"
  by (simp_all add: flip_window_def reset_window_def Let_def)

lemma restart_windows_fields [simp]:
  "cs_id (restart_windows s) = cs_id s" "cs_phase (restart_windows s) = cs_phase s"
  "blacklisted (restart_windows s) = blacklisted s" "deopt_count (restart_windows s) = deopt_count s"
  "code_page (restart_windows s) = code_page s"
  by (simp_all add: restart_windows_def reset_window_def Let_def)

lemma summary_ok_stable [simp]: "summary_ok kn (s\<lparr>stable_windows := n\<rparr>) = summary_ok kn s"
  by (simp add: summary_ok_def shape_ok_def phase_ok_def)

lemma summary_ok_counts [simp]:
  "summary_ok kn (s\<lparr>event_count := n, alloc_dist := a\<rparr>) = summary_ok kn s"
  "summary_ok kn (s\<lparr>free_count := n, free_dist := a\<rparr>) = summary_ok kn s"
  "summary_ok kn (s\<lparr>top_pair := p\<rparr>) = summary_ok kn s"
  by (simp_all add: summary_ok_def shape_ok_def phase_ok_def)

text \<open>What one step may do to the table: nothing, or install a routine for a site that may have one.\<close>

definition table_step :: "knobs \<Rightarrow> CallSiteSummary \<Rightarrow> dispatch \<Rightarrow> dispatch \<Rightarrow> bool" where
  "table_step kn s d d' \<longleftrightarrow>
     d' = d \<or> (\<not> blacklisted s \<and> \<not> g_trace_only kn \<and> (\<exists>p. dispatch_install (cs_id s) p d = Inr d'))"

lemma advance_prespec_cases:
  assumes "advance_prespec kn le s cg d = Inr (s', cg', d')"
  obtains n where "s' = flip_window (s\<lparr>stable_windows := n\<rparr>)" and "d' = d"
  | n where "\<not> blacklisted s" and "\<not> g_trace_only kn"
      and "install_routine le (specialise kn (s\<lparr>stable_windows := n\<rparr>)) cg d = Inr (s', cg', d')"
proof (cases "window_stable kn s \<and> g_stable_windows kn \<le> stable_windows s + 1 \<and> \<not> (blacklisted s \<or> g_trace_only kn)")
  case True
  then show ?thesis using assms by (intro that(2)) (simp_all add: advance_prespec_def)
next
  case False
  then have "\<exists>n. s' = flip_window (s\<lparr>stable_windows := n\<rparr>) \<and> d' = d"
    using assms by (auto simp: advance_prespec_def Let_def split: if_splits)
  then show ?thesis using that(1) by blast
qed

lemma advance_prespec_ok:
  assumes "summary_ok kn s" and "advance_prespec kn le s cg d = Inr (s', cg', d')"
  shows "summary_ok kn s' \<and> cs_id s' = cs_id s \<and> blacklisted s' = blacklisted s \<and>
    deopt_count s' = deopt_count s \<and> table_step kn s d d'"
  using assms(2)
proof (cases rule: advance_prespec_cases)
  case (1 n)
  then show ?thesis using assms(1) by (simp add: table_step_def flip_window_ok)
next
  case (2 n)
  let ?s = "s\<lparr>stable_windows := n\<rparr>"
  have ok: "summary_ok kn (specialise kn ?s)" using 2 assms(1) by (intro specialise_ok) simp_all
  from install_routine_Inr [OF 2(3)] show ?thesis
  proof
    assume "s' = specialise kn ?s \<and> d' = d"
    then show ?thesis using ok by (simp add: table_step_def)
  next
    assume "\<exists>p. s' = (specialise kn ?s)\<lparr>code_page := p\<rparr> \<and> dispatch_install (cs_id (specialise kn ?s)) p d = Inr d'"
    then obtain p where p: "s' = (specialise kn ?s)\<lparr>code_page := p\<rparr>"
      "dispatch_install (cs_id s) p d = Inr d'" by auto
    have "summary_ok kn s'" using ok 2 unfolding p by (simp add: summary_ok_def shape_ok_def phase_ok_def)
    then show ?thesis using p 2 by (auto simp: table_step_def)
  qed
qed

lemma check_postspec_ok:
  assumes "summary_ok kn s"
  shows "summary_ok kn (check_postspec kn s)"
    and "cs_id (check_postspec kn s) = cs_id s" and "blacklisted (check_postspec kn s) = blacklisted s"
    and "deopt_count (check_postspec kn s) = deopt_count s"
proof -
  have p: "summary_ok kn t \<Longrightarrow> summary_ok kn (t\<lparr>post_window := window_reset w\<rparr>)" for t w
    by (simp add: summary_ok_def shape_ok_def phase_ok_def)
  have d: "summary_ok kn (s\<lparr>cs_phase := Deopt, deopt_reason := SizeDrift\<rparr>)"
    using assms by (simp add: summary_ok_def shape_ok_def phase_ok_def)
  show "summary_ok kn (check_postspec kn s)"
    using assms p restart_windows_ok [OF d] by (simp add: check_postspec_def Let_def)
qed (simp_all add: check_postspec_def Let_def)

lemma push_lifo_ok: "length st \<le> 16 \<Longrightarrow> 0 \<notin> set st \<Longrightarrow> length (push_lifo p st) \<le> 16 \<and> 0 \<notin> set (push_lifo p st)"
  by (auto simp: push_lifo_def dest: list.set_sel(2) [rotated])

lemma count_alloc_ok: "summary_ok kn s \<Longrightarrow> summary_ok kn (count_alloc ev s)"
  using push_lifo_ok [of "lifo_stack s" "ev_ptr ev"]
  by (simp add: summary_ok_def shape_ok_def phase_ok_def count_alloc_def Let_def)

lemma count_alloc_fields [simp]:
  "cs_id (count_alloc ev s) = cs_id s" "blacklisted (count_alloc ev s) = blacklisted s"
  "deopt_count (count_alloc ev s) = deopt_count s" "code_page (count_alloc ev s) = code_page s"
  by (simp_all add: count_alloc_def Let_def)

lemma record_active_ok:
  assumes "summary_ok kn s"
  shows "summary_ok kn (record_active sz s)"
proof -
  have "active s < length (windows s)" and w: "\<forall>w \<in> set (windows s). window_ok w"
    using assms by (auto simp: summary_ok_def shape_ok_def)
  then have "window_ok (windows s ! active s)" by simp
  then have "\<forall>w \<in> set ((windows s)[active s := window_record sz (windows s ! active s)]). window_ok w"
    using w set_update_subset_insert [of "windows s" "active s" "window_record sz (windows s ! active s)"] by auto
  then show ?thesis using assms by (simp add: summary_ok_def shape_ok_def phase_ok_def record_active_def)
qed

lemma record_active_fields [simp]:
  "cs_id (record_active sz s) = cs_id s" "blacklisted (record_active sz s) = blacklisted s"
  "deopt_count (record_active sz s) = deopt_count s"
  by (simp_all add: record_active_def)

lemma note_alloc_ok:
  assumes "summary_ok kn s" and "note_alloc kn le ev s cg d = Inr (s', cg', d')"
  shows "summary_ok kn s' \<and> cs_id s' = cs_id s \<and> blacklisted s' = blacklisted s \<and>
    deopt_count s' = deopt_count s \<and> table_step kn s d d'"
proof -
  note ok = count_alloc_ok [OF assms(1), of ev]
  let ?s = "count_alloc ev s"
  show ?thesis
  proof (cases "cs_phase ?s = PreSpec")
    case True
    let ?s3 = "record_active (ev_size ev) ?s"
    have ok3: "summary_ok kn ?s3" using ok by (rule record_active_ok)
    show ?thesis
    proof (cases "window_full kn (windows ?s3 ! active ?s3)")
      case full: True
      then have "advance_prespec kn le ?s3 cg d = Inr (s', cg', d')"
        using True assms(2) by (simp add: note_alloc_def)
      from advance_prespec_ok [OF ok3 this] show ?thesis by (simp add: table_step_def)
    next
      case False
      then show ?thesis using True assms(2) ok3 by (auto simp: note_alloc_def table_step_def)
    qed
  next
    case False
    let ?s3 = "?s\<lparr>post_window := window_record (ev_size ev) (post_window ?s)\<rparr>"
    have ok3: "summary_ok kn ?s3" using ok by (simp add: summary_ok_def shape_ok_def phase_ok_def)
    have "(s' = ?s3 \<or> s' = check_postspec kn ?s3) \<and> d' = d"
      using False assms(2) by (auto simp: note_alloc_def Let_def split: if_splits)
    then show ?thesis using ok3 check_postspec_ok [OF ok3] by (auto simp: table_step_def)
  qed
qed

lemma note_free_ok:
  assumes "summary_ok kn s"
  shows "summary_ok kn (note_free m ev s)" and "cs_id (note_free m ev s) = cs_id s"
    and "blacklisted (note_free m ev s) = blacklisted s" and "deopt_count (note_free m ev s) = deopt_count s"
    and "cs_phase (note_free m ev s) = cs_phase s"
proof -
  have "length (butlast (lifo_stack s)) \<le> 16" "0 \<notin> set (butlast (lifo_stack s))"
    using assms by (auto simp: summary_ok_def shape_ok_def dest: in_set_butlastD)
  then show "summary_ok kn (note_free m ev s)"
    using assms by (simp add: note_free_def Let_def summary_ok_def shape_ok_def phase_ok_def)
qed (simp_all add: note_free_def Let_def)

section \<open>The state over time\<close>

definition site_ids :: "CallSiteSummary list \<Rightarrow> CallSiteID set" where
  "site_ids ss = cs_id ` set ss"

definition analysis_ok :: "knobs \<Rightarrow> analysis \<Rightarrow> bool" where
  "analysis_ok kn an \<longleftrightarrow>
     (\<forall>s \<in> set (summaries an). summary_ok kn s) \<and> distinct (map cs_id (summaries an)) \<and>
     length (summaries an) \<le> 4096 \<and> dispatch_inv (an_dispatch an) \<and>
     (\<forall>k. dtab.entry_of (dt_table (an_dispatch an)) k \<noteq> None \<longrightarrow> k \<in> site_ids (summaries an))"

lemma find_or_create_Some:
  assumes "find_or_create cs ss = Some (i, ss')"
  shows "i < length ss'" and "cs_id (ss' ! i) = cs" and "ss' = ss \<or> (ss' = ss @ [summary_new cs] \<and> cs \<notin> site_ids ss \<and> length ss < 4096)"
  using assms find_index_SomeD [of "\<lambda>s. cs_id s = cs" ss]
  by (auto simp: find_or_create_def find_site_def MAX_CALL_SITES_def nth_append summary_new_def
      find_index_None_iff site_ids_def not_le split: option.splits if_splits)

lemma summaries_update:
  assumes "\<forall>s \<in> set ss. summary_ok kn s" and "distinct (map cs_id ss)" and "i < length ss"
    and "summary_ok kn s'" and "cs_id s' = cs_id (ss ! i)"
  shows "(\<forall>s \<in> set (ss[i := s']). summary_ok kn s) \<and> map cs_id (ss[i := s']) = map cs_id ss"
proof
  show "\<forall>s \<in> set (ss[i := s']). summary_ok kn s"
    using assms(1,4) set_update_subset_insert [of ss i s'] by auto
  show "map cs_id (ss[i := s']) = map cs_id ss"
    using assms(3,5) by (intro nth_equalityI) (auto simp: nth_list_update)
qed

lemma summaries_extend:
  assumes "\<forall>s \<in> set ss. summary_ok kn s" and "distinct (map cs_id ss)" and "length ss \<le> 4096"
    and "find_or_create cs ss = Some (i, ss')"
  shows "(\<forall>s \<in> set ss'. summary_ok kn s) \<and> distinct (map cs_id ss') \<and> length ss' \<le> 4096 \<and>
    site_ids ss \<subseteq> site_ids ss'"
proof (cases "ss' = ss")
  case True
  then show ?thesis using assms by simp
next
  case False
  then have "ss' = ss @ [summary_new cs]" "cs \<notin> site_ids ss" "length ss < 4096"
    using find_or_create_Some(3) [OF assms(4)] by auto
  moreover have "cs_id (summary_new cs) = cs" by (simp add: summary_new_def)
  ultimately show ?thesis using assms(1,2) by (auto simp: summary_new_ok site_ids_def)
qed

lemma process_free_ok:
  assumes "analysis_ok kn an"
  shows "analysis_ok kn (an\<lparr>summaries := process_free gs ev (summaries an)\<rparr>)"
    and "site_ids (summaries an) \<subseteq> site_ids (process_free gs ev (summaries an))"
proof -
  let ?ss = "summaries an"
  note a = assms [unfolded analysis_ok_def]
  have "\<exists>ss. (\<forall>s \<in> set ss. summary_ok kn s) \<and> distinct (map cs_id ss) \<and> length ss \<le> 4096 \<and>
     site_ids ?ss \<subseteq> site_ids ss \<and>
     (process_free gs ev ?ss = ss \<or> (\<exists>m i. i < length ss \<and> process_free gs ev ?ss = ss[i := note_free m ev (ss ! i)]))"
  proof (cases "ev_ptr ev = 0")
    case True
    then show ?thesis using a by (intro exI [of _ ?ss]) (auto simp: process_free_def)
  next
    case False
    let ?h = "seg_of (ev_ptr ev)"
    show ?thesis
    proof (cases "is_managed ?h gs")
      case m: True
      show ?thesis
      proof (cases "find_or_create (alloc_site (headers gs ?h)) ?ss")
        case None
        then show ?thesis using a False m by (intro exI [of _ ?ss]) (auto simp: process_free_def Let_def)
      next
        case (Some r)
        obtain i ss where r: "r = (i, ss)" by fastforce
        have "process_free gs ev ?ss = ss[i := note_free True ev (ss ! i)]"
          using False m Some r by (simp add: process_free_def Let_def)
        then show ?thesis
          using summaries_extend [OF _ _ _ Some [unfolded r], of kn] find_or_create_Some(1) [OF Some [unfolded r]] a
          by blast
      qed
    next
      case m: False
      show ?thesis
      proof (cases "find_index (\<lambda>s. lifo_stack s \<noteq> [] \<and> last (lifo_stack s) = ev_ptr ev) ?ss")
        case None
        then show ?thesis using a False m by (intro exI [of _ ?ss]) (auto simp: process_free_def Let_def)
      next
        case (Some i)
        then have "process_free gs ev ?ss = ?ss[i := note_free False ev (?ss ! i)]"
          using False m by (simp add: process_free_def Let_def)
        then show ?thesis using find_index_SomeD [OF Some] a by blast
      qed
    qed
  qed
  then obtain ss where ss: "\<forall>s \<in> set ss. summary_ok kn s" "distinct (map cs_id ss)" "length ss \<le> 4096"
    "site_ids ?ss \<subseteq> site_ids ss"
    and r: "process_free gs ev ?ss = ss \<or> (\<exists>m i. i < length ss \<and> process_free gs ev ?ss = ss[i := note_free m ev (ss ! i)])"
    by blast
  have "(\<forall>s \<in> set (process_free gs ev ?ss). summary_ok kn s) \<and> map cs_id (process_free gs ev ?ss) = map cs_id ss"
    using r
  proof
    assume "\<exists>m i. i < length ss \<and> process_free gs ev ?ss = ss[i := note_free m ev (ss ! i)]"
    then obtain m i where i: "i < length ss" "process_free gs ev ?ss = ss[i := note_free m ev (ss ! i)]" by blast
    then have "summary_ok kn (ss ! i)" using ss(1) by simp
    from summaries_update [OF ss(1,2) i(1) note_free_ok(1,2) [OF this]] i(2) show ?thesis by simp
  qed (simp add: ss)
  moreover from this have "site_ids (process_free gs ev ?ss) = site_ids ss"
    unfolding site_ids_def by (metis list.set_map)
  moreover from calculation have "length (process_free gs ev ?ss) = length ss"
    by (metis length_map)
  ultimately show "analysis_ok kn (an\<lparr>summaries := process_free gs ev ?ss\<rparr>)"
    and "site_ids ?ss \<subseteq> site_ids (process_free gs ev ?ss)"
    using a ss by (auto simp: analysis_ok_def)
qed

lemma install_succeeds:
  assumes "analysis_ok kn an" and "site_ids (summaries an) \<subseteq> site_ids ss" and "length ss \<le> 4096"
    and "cs \<noteq> 0" and "cs \<in> site_ids ss"
  shows "\<exists>d'. dispatch_install cs p (an_dispatch an) = Inr d'"
proof (cases "dtab.entry_of (dt_table (an_dispatch an)) cs")
  case None
  let ?K = "site_ids ss - {cs}"
  have "card (site_ids ss) \<le> 4096"
    using assms(3) card_length [of "map cs_id ss"] by (simp add: site_ids_def)
  then have "card ?K < 4096" using assms(5) by (simp add: site_ids_def card_gt_0_iff le_less_trans card_Diff1_less less_le_trans)
  moreover have "k \<in> ?K" if "dtab.entry_of (dt_table (an_dispatch an)) k \<noteq> None" for k
    using that None assms(1,2) by (auto simp: analysis_ok_def)
  ultimately show ?thesis
    using assms(1,4) by (intro dispatch_install_room [of _ _ ?K]) (auto simp: analysis_ok_def site_ids_def)
next
  case (Some e)
  then show ?thesis using assms(1,4) by (intro dispatch_install_present) (auto simp: analysis_ok_def)
qed

lemma note_alloc_Inl:
  assumes "note_alloc kn le ev s cg d = Inl e"
  shows "\<exists>p. dispatch_install (cs_id s) p d = Inl e"
proof -
  from assms obtain t where t: "install_routine le (specialise kn t) cg d = Inl e" "cs_id t = cs_id s"
    by (auto simp: note_alloc_def advance_prespec_def Let_def split: if_splits)
  show ?thesis
    using t by (cases "compile (le (cg_next_index cg)) (routine_of (specialise kn t)) cg")
      (auto simp: install_routine_def split: option.splits sum.splits)
qed

text \<open>No event removes a summary or touches what \<open>reset_call_site\<close> has recorded in it.\<close>

definition same_site :: "CallSiteSummary \<Rightarrow> CallSiteSummary \<Rightarrow> bool" where
  "same_site s t \<longleftrightarrow> cs_id t = cs_id s \<and> deopt_count t = deopt_count s \<and> blacklisted t = blacklisted s"

definition keeps :: "CallSiteSummary list \<Rightarrow> CallSiteSummary list \<Rightarrow> bool" where
  "keeps ss ss' \<longleftrightarrow> (\<forall>s \<in> set ss. \<exists>t \<in> set ss'. same_site s t)"

lemma keeps_refl: "keeps ss ss"
  by (auto simp: keeps_def same_site_def)

lemma keeps_update:
  assumes "set ss \<subseteq> set us" and "same_site (us ! i) t"
  shows "keeps ss (us[i := t])"
  unfolding keeps_def
proof
  fix s
  assume "s \<in> set ss"
  then obtain j where j: "j < length us" "us ! j = s" using assms(1) by (metis in_mono in_set_conv_nth)
  have "us[i := t] ! j \<in> set (us[i := t])" using j by simp
  moreover have "same_site s (us[i := t] ! j)"
    using assms(2) j by (cases "i = j") (auto simp: same_site_def)
  ultimately show "\<exists>t' \<in> set (us[i := t]). same_site s t'" by blast
qed

lemma process_free_keeps: "keeps ss (process_free gs ev ss)"
proof -
  have n: "same_site t (note_free m ev t)" for m t
    by (simp add: same_site_def note_free_def Let_def)
  have "set ss \<subseteq> set us" if "find_or_create cs ss = Some (i, us)" for cs i us
    using find_or_create_Some(3) [OF that] by auto
  then show ?thesis
    by (auto simp: process_free_def Let_def keeps_refl intro!: keeps_update n split: option.splits)
qed

lemma process_event_ok:
  assumes ok: "analysis_ok kn an" and nz: "ev_call_site ev \<noteq> 0"
  shows "\<exists>an'. process_event kn le gs ev an = Inr an' \<and> analysis_ok kn an' \<and>
    site_ids (summaries an) \<subseteq> site_ids (summaries an') \<and>
    keeps (summaries an) (summaries an')"
proof -
  consider (free) "ev_size ev = 0" | (big) "ev_size ev \<noteq> 0" "HIST_MAX_SIZE \<le> ev_size ev"
    | (full) "ev_size ev \<noteq> 0" "\<not> HIST_MAX_SIZE \<le> ev_size ev" "find_or_create (ev_call_site ev) (summaries an) = None"
    | (alloc) i ss where "ev_size ev \<noteq> 0" "\<not> HIST_MAX_SIZE \<le> ev_size ev"
        "find_or_create (ev_call_site ev) (summaries an) = Some (i, ss)"
    by (metis option.exhaust surj_pair)
  then show ?thesis
  proof cases
    case free
    then show ?thesis
      using process_free_ok [OF ok, of gs ev] process_free_keeps [of "summaries an" gs ev] by (simp add: process_event_def)
  next
    case big
    then show ?thesis using ok by (auto simp: process_event_def keeps_refl)
  next
    case full
    then show ?thesis using ok by (auto simp: process_event_def keeps_refl)
  next
    case alloc
    let ?c = "ev_call_site ev"
    note F = find_or_create_Some [OF alloc(3)]
    note a = ok [unfolded analysis_ok_def]
    have E: "(\<forall>s \<in> set ss. summary_ok kn s) \<and> distinct (map cs_id ss) \<and> length ss \<le> 4096 \<and>
        site_ids (summaries an) \<subseteq> site_ids ss"
      using summaries_extend [OF _ _ _ alloc(3)] a by blast
    have in_ss: "?c \<in> site_ids ss" using F(1,2) by (metis image_eqI nth_mem site_ids_def)
    have oks: "summary_ok kn (ss ! i)" using E F(1) by simp
    obtain s' cg' d' where n: "note_alloc kn le ev (ss ! i) (an_codegen an) (an_dispatch an) = Inr (s', cg', d')"
    proof (cases "note_alloc kn le ev (ss ! i) (an_codegen an) (an_dispatch an)")
      case (Inl e)
      then obtain p where "dispatch_install ?c p (an_dispatch an) = Inl e"
        using note_alloc_Inl [OF Inl] F(2) by auto
      then show ?thesis using install_succeeds [OF ok _ _ nz in_ss, of p] E by auto
    next
      case (Inr r)
      then show ?thesis using that by (cases r) auto
    qed
    note N = note_alloc_ok [OF oks n]
    have id: "cs_id s' = cs_id (ss ! i)" using N by simp
    have U: "(\<forall>s \<in> set (ss[i := s']). summary_ok kn s) \<and> map cs_id (ss[i := s']) = map cs_id ss"
      using summaries_update [OF _ _ F(1), of kn s'] E N by blast
    then have ids: "site_ids (ss[i := s']) = site_ids ss" unfolding site_ids_def by (metis list.set_map)
    have D: "dispatch_inv d' \<and> (\<forall>k. dtab.entry_of (dt_table d') k \<noteq> None \<longrightarrow> k \<in> site_ids ss)"
    proof (cases "d' = an_dispatch an")
      case True
      then show ?thesis using a E by auto
    next
      case False
      then obtain p where p: "dispatch_install ?c p (an_dispatch an) = Inr d'"
        using N F(2) by (auto simp: table_step_def)
      show ?thesis using dispatch_install_Inr [OF _ nz p] a in_ss E by auto
    qed
    have "set (summaries an) \<subseteq> set ss" using F(3) by auto
    then have K: "keeps (summaries an) (ss[i := s'])"
      using N by (intro keeps_update) (simp_all add: same_site_def)
    show ?thesis using alloc n U D E ids K
      by (auto simp: process_event_def analysis_ok_def)
  qed
qed

datatype an_step = Event AllocEvent | Reset CallSiteID DeoptReason

fun an_step_run ::
    "knobs \<Rightarrow> (u32 \<Rightarrow> link_env) \<Rightarrow> seg_state \<Rightarrow> an_step \<Rightarrow> analysis \<Rightarrow> dispatch_error + analysis" where
  "an_step_run kn le gs (Event ev) an = process_event kn le gs ev an"
| "an_step_run kn le gs (Reset cs reason) an = Inr (reset_call_site kn cs reason an)"

fun an_run ::
    "knobs \<Rightarrow> (u32 \<Rightarrow> link_env) \<Rightarrow> seg_state \<Rightarrow> an_step list \<Rightarrow> analysis \<Rightarrow> dispatch_error + analysis" where
  "an_run kn le gs [] an = Inr an"
| "an_run kn le gs (x # xs) an =
     (case an_step_run kn le gs x an of Inl e \<Rightarrow> Inl e | Inr an \<Rightarrow> an_run kn le gs xs an)"

fun nonzero_site :: "an_step \<Rightarrow> bool" where
  "nonzero_site (Event ev) = (ev_call_site ev \<noteq> 0)"
| "nonzero_site (Reset cs reason) = True"

fun resets_site :: "CallSiteID \<Rightarrow> an_step \<Rightarrow> bool" where
  "resets_site cs (Event ev) = False"
| "resets_site cs (Reset k reason) = (k = cs)"

definition resets :: "CallSiteID \<Rightarrow> an_step list \<Rightarrow> nat" where
  "resets cs xs = length (filter (resets_site cs) xs)"

definition reset_summary :: "knobs \<Rightarrow> DeoptReason \<Rightarrow> CallSiteSummary \<Rightarrow> CallSiteSummary" where
  "reset_summary kn reason s =
     (let s = s\<lparr>deopt_count := deopt_count s + 1\<rparr>;
          s = (if g_deopt_blacklist_limit kn \<le> deopt_count s then s\<lparr>blacklisted := True\<rparr> else s);
          s = (if reason \<noteq> Other \<or> deopt_reason s = ReasonNone then s\<lparr>deopt_reason := reason\<rparr> else s);
          s = s\<lparr>cs_phase := Deopt, code_page := 0\<rparr>
      in restart_windows s)"

lemma reset_call_site_eq:
  "reset_call_site kn cs reason an =
     (case find_site cs (summaries an) of
        None \<Rightarrow> an
      | Some i \<Rightarrow> an\<lparr>summaries := (summaries an)[i := reset_summary kn reason (summaries an ! i)]\<rparr>)"
  by (simp add: reset_call_site_def reset_summary_def Let_def split: option.split)

lemma reset_summary_fields:
  "cs_id (reset_summary kn reason s) = cs_id s"
  "deopt_count (reset_summary kn reason s) = deopt_count s + 1"
  "blacklisted (reset_summary kn reason s) = (blacklisted s \<or> g_deopt_blacklist_limit kn \<le> deopt_count s + 1)"
  by (simp_all add: reset_summary_def Let_def)

lemma reset_summary_ok: "summary_ok kn s \<Longrightarrow> summary_ok kn (reset_summary kn reason s)"
  unfolding reset_summary_def Let_def
  by (rule restart_windows_ok) (simp add: summary_ok_def shape_ok_def phase_ok_def)

lemma find_site_SomeD: "find_site cs ss = Some i \<Longrightarrow> i < length ss \<and> cs_id (ss ! i) = cs"
  unfolding find_site_def by (drule find_index_SomeD) simp

lemma find_site_None: "find_site cs ss = None \<longleftrightarrow> cs \<notin> site_ids ss"
  by (auto simp: find_site_def find_index_None_iff site_ids_def)

lemma reset_call_site_ok:
  assumes "analysis_ok kn an"
  shows "analysis_ok kn (reset_call_site kn cs reason an)"
    and "site_ids (summaries (reset_call_site kn cs reason an)) = site_ids (summaries an)"
proof -
  have "analysis_ok kn (reset_call_site kn cs reason an) \<and>
    site_ids (summaries (reset_call_site kn cs reason an)) = site_ids (summaries an)"
  proof (cases "find_site cs (summaries an)")
    case None
    then show ?thesis using assms by (simp add: reset_call_site_eq)
  next
    case (Some i)
    let ?ss = "summaries an" and ?s = "reset_summary kn reason (summaries an ! i)"
    have i: "i < length ?ss" using find_site_SomeD [OF Some] by simp
    then have "summary_ok kn (?ss ! i)" using assms by (simp add: analysis_ok_def)
    then have U: "(\<forall>s \<in> set (?ss[i := ?s]). summary_ok kn s) \<and> map cs_id (?ss[i := ?s]) = map cs_id ?ss"
      using assms i by (intro summaries_update) (auto simp: analysis_ok_def reset_summary_ok reset_summary_fields)
    then have "site_ids (?ss[i := ?s]) = site_ids ?ss" unfolding site_ids_def by (metis list.set_map)
    then show ?thesis using assms Some U by (auto simp: analysis_ok_def reset_call_site_eq)
  qed
  then show "analysis_ok kn (reset_call_site kn cs reason an)"
    and "site_ids (summaries (reset_call_site kn cs reason an)) = site_ids (summaries an)" by blast+
qed

lemma an_run_ok:
  assumes "analysis_ok kn an" and "\<forall>x \<in> set xs. nonzero_site x"
  shows "\<exists>an'. an_run kn le gs xs an = Inr an' \<and> analysis_ok kn an'"
  using assms
proof (induction xs arbitrary: an)
  case Nil
  then show ?case by simp
next
  case (Cons x xs)
  have "\<exists>an1. an_step_run kn le gs x an = Inr an1 \<and> analysis_ok kn an1"
    using Cons.prems process_event_ok [OF Cons.prems(1)] reset_call_site_ok(1) [OF Cons.prems(1)]
    by (cases x) (auto, metis)
  then show ?case using Cons by auto
qed

definition analysis_start :: "codegen_state \<Rightarrow> dispatch \<Rightarrow> analysis" where
  "analysis_start cg d = \<lparr>summaries = [], an_codegen = cg, an_dispatch = d\<rparr>"

lemma dispatch_init_empty:
  assumes "dispatch_init a dispatch_static = Inr (a', d)"
  shows "dtab.entry_of (dt_table d) k = None"
proof -
  have t: "dt_table d = replicate 4096 \<lparr>de_fn = 0, de_id = 0\<rparr>"
    using assms by (auto simp: dispatch_init_def TABLE_SIZE_def split: sum.splits prod.splits)
  show ?thesis
    using dtab.entry_of_None_iff [OF dispatch_init_inv [OF assms, unfolded dispatch_inv_def], of k]
    by (simp add: t entry_key_def)
qed

lemma analysis_start_ok:
  assumes "dispatch_init a dispatch_static = Inr (a', d)"
  shows "analysis_ok kn (analysis_start cg d)"
  using dispatch_init_inv [OF assms] dispatch_init_empty [OF assms]
  by (simp add: analysis_ok_def analysis_start_def)

text \<open>
  C18: From start-up, no sequence of events and deoptimisations makes the analysis thread fail
  (with at most 4096 summaries the dispatch table never fills up), and it preserves the
  invariant of the summaries: no site appears twice, the windows, the LIFO stack and the classes
  stay within their arrays, a compiled site has a strategy, and neither a blacklisted site nor
  any site of a trace-only run is compiled or holds a code page.
\<close>

theorem analysis_never_fails:
  assumes "dispatch_init a dispatch_static = Inr (a', d)" and "\<forall>x \<in> set xs. nonzero_site x"
  shows "\<exists>an. an_run kn le gs xs (analysis_start cg d) = Inr an \<and> analysis_ok kn an"
  using an_run_ok [OF analysis_start_ok [OF assms(1)] assms(2)] .

section \<open>The blacklist\<close>

lemma unique_site:
  assumes "analysis_ok kn an" and "s \<in> set (summaries an)" and "t \<in> set (summaries an)" and "cs_id s = cs_id t"
  shows "s = t"
  using assms by (metis analysis_ok_def distinct_map inj_onD)

text \<open>What is known of a site after some steps: \<open>r\<close> deoptimisations since it was seen.\<close>

definition site_at :: "CallSiteID \<Rightarrow> nat \<Rightarrow> bool \<Rightarrow> analysis \<Rightarrow> bool" where
  "site_at cs n b an \<longleftrightarrow>
     (\<exists>s \<in> set (summaries an). cs_id s = cs \<and> unat (deopt_count s) = n \<and> blacklisted s = b)"

lemma site_at_event:
  assumes "analysis_ok kn an" and "ev_call_site ev \<noteq> 0" and "process_event kn le gs ev an = Inr an'"
    and "site_at cs n b an"
  shows "site_at cs n b an'"
  using process_event_ok [OF assms(1,2), of le gs] assms(3,4)
  by (fastforce simp: site_at_def keeps_def same_site_def)

lemma site_at_other:
  assumes "site_at cs n b an" and "k \<noteq> cs"
  shows "site_at cs n b (reset_call_site kn k reason an)"
proof (cases "find_site k (summaries an)")
  case None
  then show ?thesis using assms by (simp add: reset_call_site_eq)
next
  case (Some i)
  obtain s where s: "s \<in> set (summaries an)" "cs_id s = cs" "unat (deopt_count s) = n" "blacklisted s = b"
    using assms(1) by (auto simp: site_at_def)
  obtain j where j: "j < length (summaries an)" "summaries an ! j = s" using s(1) by (metis in_set_conv_nth)
  then have "i \<noteq> j" using find_site_SomeD [OF Some] s(2) assms(2) by auto
  then have "(summaries an)[i := t] ! j = s" for t using j by simp
  then have "s \<in> set ((summaries an)[i := t])" for t using j by (metis length_list_update nth_mem)
  then show ?thesis using Some s by (auto simp: site_at_def reset_call_site_eq)
qed

lemma site_at_reset:
  assumes "analysis_ok kn an" and "site_at cs n b an" and "Suc n < 2 ^ 32"
  shows "site_at cs (if k = cs then Suc n else n)
     (b \<or> (k = cs \<and> unat (g_deopt_blacklist_limit kn) \<le> Suc n)) (reset_call_site kn k reason an)"
proof -
  from assms(2) obtain s where s: "s \<in> set (summaries an)" "cs_id s = cs" "unat (deopt_count s) = n" "blacklisted s = b"
    by (auto simp: site_at_def)
  have u: "unat (deopt_count s + 1) = Suc n" using s(3) assms(3) by (simp add: unat_word_ariths)
  show ?thesis
  proof (cases "find_site k (summaries an)")
    case None
    then have "k \<noteq> cs" using s by (auto simp: find_site_None site_ids_def)
    then show ?thesis using assms(2) None by (simp add: reset_call_site_eq)
  next
    case (Some i)
    note i = find_site_SomeD [OF Some]
    let ?t = "reset_summary kn reason (summaries an ! i)"
    show ?thesis
    proof (cases "k = cs")
      case True
      then have "s = summaries an ! i" using unique_site [OF assms(1) s(1)] i s(2) by simp
      moreover have "?t \<in> set ((summaries an)[i := ?t])" using i by (simp add: set_update_memI)
      ultimately show ?thesis
        using True Some u s by (auto simp: site_at_def reset_call_site_eq reset_summary_fields word_le_nat_alt intro!: bexI [of _ ?t])
    next
      case False
      then show ?thesis using site_at_other [OF assms(2), of k] by simp
    qed
  qed
qed

lemma resets_blacklist:
  assumes "analysis_ok kn an" and "\<forall>x \<in> set xs. nonzero_site x" and "an_run kn le gs xs an = Inr an'"
    and "site_at cs n b an" and "n + resets cs xs < 2 ^ 32"
  shows "\<exists>b'. site_at cs (n + resets cs xs) b' an' \<and> (b \<longrightarrow> b') \<and>
    (0 < resets cs xs \<and> unat (g_deopt_blacklist_limit kn) \<le> n + resets cs xs \<longrightarrow> b') \<and> analysis_ok kn an'"
  using assms
proof (induction xs arbitrary: an n b)
  case Nil
  then show ?case by (auto simp: resets_def)
next
  case (Cons x xs)
  show ?case
  proof (cases x)
    case (Event ev)
    obtain an1 where e: "process_event kn le gs ev an = Inr an1" "analysis_ok kn an1"
      using process_event_ok [OF Cons.prems(1), of ev le gs] Cons.prems(2) Event by auto
    have r: "resets cs (x # xs) = resets cs xs" by (simp add: resets_def Event)
    have "site_at cs n b an1" using site_at_event [OF Cons.prems(1) _ e(1) Cons.prems(4)] Cons.prems(2) Event by simp
    from Cons.IH [OF e(2) _ _ this] Cons.prems Event e(1) show ?thesis unfolding r by simp
  next
    case (Reset k reason)
    define m where "m = (if k = cs then Suc n else n)"
    have r: "n + resets cs (x # xs) = m + resets cs xs" by (simp add: resets_def Reset m_def)
    have sn: "Suc n < 2 ^ 32 \<or> k \<noteq> cs" using Cons.prems(5) unfolding r m_def by (cases "k = cs") auto
    have "site_at cs m (b \<or> (k = cs \<and> unat (g_deopt_blacklist_limit kn) \<le> Suc n)) (reset_call_site kn k reason an)"
      using site_at_reset [OF Cons.prems(1,4), of k reason] sn site_at_other [OF Cons.prems(4), of k] unfolding m_def
      by (cases "k = cs") auto
    from Cons.IH [OF reset_call_site_ok(1) [OF Cons.prems(1)] _ _ this] Cons.prems(2,3,5) Reset
    have ih: "\<exists>b'. site_at cs (m + resets cs xs) b' an' \<and>
       (b \<or> (k = cs \<and> unat (g_deopt_blacklist_limit kn) \<le> Suc n) \<longrightarrow> b') \<and>
       (0 < resets cs xs \<and> unat (g_deopt_blacklist_limit kn) \<le> m + resets cs xs \<longrightarrow> b') \<and> analysis_ok kn an'"
      unfolding r by simp
    have "0 < resets cs (x # xs) \<Longrightarrow> resets cs xs = 0 \<Longrightarrow> k = cs \<and> m = Suc n"
      by (auto simp: resets_def Reset m_def split: if_splits)
    then show ?thesis using ih unfolding r by (cases "resets cs xs = 0") auto
  qed
qed

lemma blacklisted_event:
  assumes "analysis_ok kn an" and "site_at cs n True an" and "cs \<noteq> 0" and "ev_call_site ev \<noteq> 0"
    and "process_event kn le gs ev an = Inr an'"
  shows "dispatch_lookup cs (an_dispatch an') = dispatch_lookup cs (an_dispatch an)"
proof (cases "an_dispatch an' = an_dispatch an")
  case False
  from False assms(5) obtain i ss s' cg' where f: "find_or_create (ev_call_site ev) (summaries an) = Some (i, ss)"
    and n: "note_alloc kn le ev (ss ! i) (an_codegen an) (an_dispatch an) = Inr (s', cg', an_dispatch an')"
    by (auto simp: process_event_def split: if_splits option.splits sum.splits prod.splits)
  note F = find_or_create_Some [OF f]
  have "summary_ok kn (ss ! i)"
    using summaries_extend [OF _ _ _ f, of kn] F(1) assms(1) by (simp add: analysis_ok_def)
  from note_alloc_ok [OF this n] False obtain p where p: "dispatch_install (ev_call_site ev) p (an_dispatch an) = Inr (an_dispatch an')"
    and nb: "\<not> blacklisted (ss ! i)" using F(2) by (auto simp: table_step_def)
  obtain s where s: "s \<in> set (summaries an)" "cs_id s = cs" "blacklisted s"
    using assms(2) by (auto simp: site_at_def)
  have "ev_call_site ev \<noteq> cs"
  proof
    assume c: "ev_call_site ev = cs"
    then have "ss = summaries an" using F(3) s(1,2) by (metis image_eqI site_ids_def)
    then have "ss ! i = s" using unique_site [OF assms(1) _ s(1)] F(1,2) c s(2) by simp
    then show False using nb s(3) by simp
  qed
  then show ?thesis
    using dispatch_lookup_install [OF _ assms(4,3) p] assms(1) by (simp add: analysis_ok_def)
qed simp

lemma blacklisted_run:
  assumes "analysis_ok kn an" and "\<forall>x \<in> set xs. nonzero_site x" and "an_run kn le gs xs an = Inr an'"
    and "site_at cs n True an" and "n + resets cs xs < 2 ^ 32" and "cs \<noteq> 0"
  shows "dispatch_lookup cs (an_dispatch an') = dispatch_lookup cs (an_dispatch an)"
  using assms
proof (induction xs arbitrary: an n)
  case Nil
  then show ?case by simp
next
  case (Cons x xs)
  obtain an1 where s: "an_step_run kn le gs x an = Inr an1" "an_run kn le gs xs an1 = Inr an'"
    using Cons.prems(3) by (auto split: sum.splits)
  have one: "an_run kn le gs [x] an = Inr an1" using s by simp
  have r: "resets cs (x # xs) = resets cs [x] + resets cs xs" by (simp add: resets_def)
  from resets_blacklist [OF Cons.prems(1) _ one Cons.prems(4)] Cons.prems(2,5) r
  have o: "site_at cs (n + resets cs [x]) True an1" "analysis_ok kn an1" by auto
  have "dispatch_lookup cs (an_dispatch an1) = dispatch_lookup cs (an_dispatch an)"
  proof (cases x)
    case (Event ev)
    then show ?thesis
      using blacklisted_event [OF Cons.prems(1,4,6), of ev le gs an1] s(1) Cons.prems(2) by simp
  next
    case (Reset k reason)
    then show ?thesis using s(1) by (auto simp: reset_call_site_eq split: option.splits)
  qed
  then show ?case using Cons.IH [OF o(2) _ s(2) o(1)] Cons.prems(2,5,6) r by simp
qed

lemma site_at_get_phase:
  assumes "analysis_ok kn an" and "site_at cs n True an"
  shows "get_phase cs (summaries an) \<noteq> Compiled"
proof -
  obtain s where s: "s \<in> set (summaries an)" "cs_id s = cs" "blacklisted s"
    using assms(2) by (auto simp: site_at_def)
  then obtain i where i: "find_site cs (summaries an) = Some i"
    using find_site_None [of cs "summaries an"] by (auto simp: site_ids_def)
  then have "summaries an ! i = s" using find_site_SomeD [OF i] unique_site [OF assms(1) _ s(1)] s(2) by simp
  moreover have "cs_phase s \<noteq> Compiled" using assms(1) s by (auto simp: analysis_ok_def summary_ok_def phase_ok_def)
  ultimately show ?thesis by (simp add: get_phase_def site_field_def i)
qed

text \<open>
  C19: Once a known site has been deoptimised as often as the limit says, it is given up for good:
  whatever events and deoptimisations follow, it is never in the Compiled phase and its entry in
  the dispatch table does not change.
\<close>

theorem blacklist_is_final:
  assumes "analysis_ok kn an" and "site_at cs n b an" and "cs \<noteq> 0"
    and "an_run kn le gs xs an = Inr an1" and "an_run kn le gs ys an1 = Inr an2"
    and "\<forall>x \<in> set xs \<union> set ys. nonzero_site x"
    and "0 < resets cs xs" and "unat (g_deopt_blacklist_limit kn) \<le> n + resets cs xs"
    and "n + resets cs xs + resets cs ys < 2 ^ 32"
  shows "get_phase cs (summaries an2) \<noteq> Compiled \<and>
    dispatch_lookup cs (an_dispatch an2) = dispatch_lookup cs (an_dispatch an1)"
proof -
  obtain b' where b: "site_at cs (n + resets cs xs) True an1" "analysis_ok kn an1"
    using resets_blacklist [OF assms(1) _ assms(4,2)] assms(6-9) by auto
  have "\<forall>x \<in> set ys. nonzero_site x" using assms(6) by simp
  from resets_blacklist [OF b(2) this assms(5) b(1)] blacklisted_run [OF b(2) this assms(5) b(1) _ assms(3)] assms(9)
  show ?thesis using site_at_get_phase by auto
qed

end
