(* ===== verification/Convergence.thy ===== *)
theory Convergence
  imports Picker
begin

text \<open>
  The way of a site into compiled code, end to end: a site that keeps allocating one size and
  whose blocks are not freed stays on the generic path for exactly \<open>(K + 1) * N\<close> events, \<open>N\<close> the
  window size and \<open>K\<close> the number of stable windows asked for, and is then compiled as
  \<open>BumpAlloc\<close> and installed.
\<close>

section \<open>One window after the other\<close>

definition other_window :: "CallSiteSummary \<Rightarrow> SizeWindow" where
  "other_window s = windows s ! (1 - active s)"

text \<open>The site after \<open>j\<close> full windows and \<open>i\<close> events of the next one, all of size \<open>sz\<close>.\<close>

definition warming :: "knobs \<Rightarrow> CallSiteID \<Rightarrow> u32 \<Rightarrow> nat \<Rightarrow> nat \<Rightarrow> CallSiteSummary \<Rightarrow> bool" where
  "warming kn cs sz j i s \<longleftrightarrow>
     cs_id s = cs \<and> cs_phase s = PreSpec \<and> \<not> blacklisted s \<and>
     active s \<le> 1 \<and> length (windows s) = 2 \<and>
     hist_of (replicate i sz) (active_hist s) \<and> unat (sw_count (windows s ! active s)) = i \<and>
     (if j = 0 then sw_count (other_window s) = 0
      else hist_of (replicate (unat (g_window_size kn)) sz) (sw_hist (other_window s)) \<and>
           unat (sw_count (other_window s)) = unat (g_window_size kn)) \<and>
     unat (stable_windows s) = j - 1 \<and>
     unat (event_count s) = j * unat (g_window_size kn) + i \<and>
     free_count s = 0 \<and> pair_count (top_pair s) = 0 \<and> td_total (free_dist s) = 0"

lemma unat_u32_less: "unat (n :: u32) < 2 ^ 32"
proof -
  have "unat n < 2 ^ LENGTH(32)" by (rule unsigned_less)
  then show ?thesis by simp
qed

lemma hist_of_Nil: "hist_of [] hist_empty" "hist_of [] (hist_reset h)"
  by (simp_all add: hist_of_def hist_empty_def hist_reset_def)

lemma warming_new: "warming kn cs sz 0 0 (summary_new cs)"
  by (simp add: warming_def summary_new_def active_hist_def other_window_def window_new_def hist_of_Nil dist_new_def)

lemma warming_event:
  assumes w: "warming kn cs sz j i s" and sz: "sz < 4096" "ev_size ev = sz"
    and len: "j * unat (g_window_size kn) + Suc i < 2 ^ 32"
  shows "warming kn cs sz j (Suc i) (record_active sz (count_alloc ev s))"
proof -
  note a = w [unfolded warming_def other_window_def]
  have act: "active s < length (windows s)" using a by simp
  have "unat (event_count s + 1) = unat (event_count s) + 1"
    using a len by (simp add: unat_word_ariths)
  moreover have "unat (sw_count (windows s ! active s) + 1) = Suc i"
    using a len by (simp add: unat_word_ariths)
  moreover have "hist_of (replicate i sz @ [sz]) (hist_record sz (active_hist s))"
    using a len by (intro hist_record_step sz(1)) simp_all
  moreover have "replicate i sz @ [sz] = replicate (Suc i) sz" by (simp add: replicate_append_same)
  moreover have "active s \<noteq> 1 - active s" by arith
  ultimately show ?thesis
    using a act by (cases "j = 0") (simp_all add: warming_def count_alloc_def record_active_def active_hist_def other_window_def
        window_record_def Let_def del: replicate_Suc)
qed

lemma warming_stable:
  assumes "warming kn cs sz j (unat (g_window_size kn)) s" and "0 < unat (g_window_size kn)"
  shows "window_stable kn s \<longleftrightarrow> 0 < j"
proof (cases "j = 0")
  case True
  then show ?thesis using assms(1) by (simp add: warming_def window_stable_def other_window_def Let_def)
next
  case False
  note a = assms(1) [unfolded warming_def]
  let ?N = "unat (g_window_size kn)"
  have h: "hist_of (replicate ?N sz) (active_hist s)" "hist_of (replicate ?N sz) (sw_hist (other_window s))"
    "unat (sw_count (other_window s)) = ?N" using a False by simp_all
  obtain c where "\<not> overflow (active_hist s)" using single_size_window [OF h(1) assms(2)] by blast
  moreover have "?N < 2 ^ 32" using unat_u32_less [of "g_window_size kn"] by simp
  ultimately have "ks_stable (active_hist s) (sw_hist (other_window s)) (g_ks_alpha kn)"
    using assms(2) by (intro ks_stable_same [OF h(1,2)]) auto
  moreover have "0 < sw_count (other_window s)" using h(3) assms(2) by (simp add: word_less_nat_alt)
  ultimately show ?thesis using False by (simp add: window_stable_def other_window_def Let_def)
qed

lemma warming_flip:
  assumes w: "warming kn cs sz j (unat (g_window_size kn)) s" and m: "unat m = j"
  shows "warming kn cs sz (Suc j) 0 (flip_window (s\<lparr>stable_windows := m\<rparr>))"
proof -
  note a = w [unfolded warming_def]
  have le: "active s \<le> 1" and l: "length (windows s) = 2" using a by simp_all
  then have ba: "1 - (1 - active s) = active s" "active s \<noteq> 1 - active s" by arith+
  show ?thesis
    using a m le l ba by (simp add: warming_def flip_window_def reset_window_def window_reset_def active_hist_def
        other_window_def hist_of_Nil Let_def)
qed

section \<open>The decision\<close>

lemma single_size_picks:
  assumes w: "warming kn cs sz j (unat (g_window_size kn)) s" and N: "0 < unat (g_window_size kn)"
    and ov: "strategy_override kn = Generic"
  shows "candidate (specialise kn s) = BumpAlloc" and "dominant_size (active_hist s) = sz"
proof -
  note a = w [unfolded warming_def]
  let ?N = "unat (g_window_size kn)"
  let ?h = "active_hist s"
  have "hist_of (replicate ?N sz) ?h" using a by simp
  from single_size_window [OF this N] obtain c where
    h: "entries ?h = [\<lparr>m_size = sz, m_count = c\<rparr>]" "unat c = ?N" "unat (total ?h) = ?N" by blast
  have di: "dominant_index ?h = Some 0" by (simp add: dominant_index_def h beats_def)
  show dom: "dominant_size ?h = sz" by (simp add: dominant_size_def di h)
  have "?N \<le> 2 ^ 53" using unat_u32_less [of "g_window_size kn"] by simp
  then have dN: "d_of_nat ?N = of_nat ?N" by (rule d_of_nat_exact)
  have "rnd (95 / 100) \<le> rnd 1" by (rule rnd_mono) simp
  then have "rnd (95 / 100) * of_nat ?N \<le> 1 * of_nat ?N"
    by (intro mult_right_mono of_nat_0_le_iff) (simp add: rnd_numerals)
  then have "fmul (rnd (95 / 100)) (d_of_nat ?N) \<le> rnd (of_nat ?N)"
    unfolding fmul_def dN by (intro rnd_mono) simp
  then have "\<lfloor>fmul (rnd (95 / 100)) (d_of_nat ?N)\<rfloor> \<le> int ?N"
    using dN by (simp add: d_of_nat_def floor_le_iff)
  moreover have "total ?h \<noteq> 0" using h(3) N by auto
  ultimately have mono: "is_monomorphic (rnd (95 / 100)) ?h"
    by (simp add: is_monomorphic_def di h d_to_nat_def nat_le_iff)
  define t where "t = learn_classes (learn_lifetime (s\<lparr>baseline := ?h\<rparr>))"
  have ah: "active_hist t = ?h"
    by (simp add: t_def learn_classes_def learn_lifetime_def active_hist_def Let_def)
  have pos: "0 < event_count s" using a N by (simp add: word_less_nat_alt)
  have "fdiv (d_of_nat 0) x = 0" for x by (simp add: fdiv_def d_of_nat_def)
  moreover have "(0 :: rat) < LIFETIME_REAP_RATIO" "(0 :: rat) < LIFETIME_HOLD_RATIO"
    by (simp_all add: LIFETIME_REAP_RATIO_def LIFETIME_HOLD_RATIO_def rnd_pos)
  ultimately have "lifetime t = Hold"
    using a pos by (simp add: t_def learn_classes_def learn_lifetime_def Let_def)
  moreover have "\<not> paired_pattern t" "\<not> pc_pattern t"
    using a by (simp_all add: t_def learn_classes_def learn_lifetime_def paired_pattern_def pc_pattern_def concentrated_def Let_def)
  ultimately have "pick_strategy kn t = BumpAlloc"
    using mono ov by (simp add: pick_strategy_def ah Let_def)
  then show "candidate (specialise kn s) = BumpAlloc"
    by (simp add: specialise_def t_def Let_def)
qed

lemma single_size_picks_any:
  assumes "warming kn cs sz j (unat (g_window_size kn)) s" and "0 < unat (g_window_size kn)"
    and "strategy_override kn = Generic"
  shows "candidate (specialise kn (s\<lparr>stable_windows := m\<rparr>)) = BumpAlloc"
    and "routine_of (specialise kn (s\<lparr>stable_windows := m\<rparr>)) =
      \<lparr>rs_id = cs, rs_strategy = BumpAlloc, rs_size = sz, rs_class_sizes = [0, 0, 0, 0], rs_class_count = 0\<rparr>"
proof -
  have ah: "active_hist (t\<lparr>stable_windows := m\<rparr>) = active_hist t" for t by (simp add: active_hist_def)
  have ll: "learn_lifetime (t\<lparr>stable_windows := m\<rparr>) = (learn_lifetime t)\<lparr>stable_windows := m\<rparr>" for t
    by (simp add: learn_lifetime_def Let_def)
  have lc: "learn_classes (t\<lparr>stable_windows := m\<rparr>) = (learn_classes t)\<lparr>stable_windows := m\<rparr>" for t
    by (simp add: learn_classes_def ah Let_def)
  have "paired_pattern (t\<lparr>stable_windows := m\<rparr>) = paired_pattern t"
    "pc_pattern (t\<lparr>stable_windows := m\<rparr>) = pc_pattern t" for t
    by (simp_all add: paired_pattern_def pc_pattern_def)
  moreover have "lifetime (t\<lparr>stable_windows := m\<rparr>) = lifetime t"
    "class_count (t\<lparr>stable_windows := m\<rparr>) = class_count t" for t :: CallSiteSummary by simp_all
  ultimately have ps: "pick_strategy kn (t\<lparr>stable_windows := m\<rparr>) = pick_strategy kn t" for t
    by (simp only: pick_strategy_def ah)
  have bl: "(s\<lparr>stable_windows := m\<rparr>)\<lparr>baseline := b\<rparr> = (s\<lparr>baseline := b\<rparr>)\<lparr>stable_windows := m\<rparr>" for b by simp
  have "specialise kn (s\<lparr>stable_windows := m\<rparr>) = (specialise kn s)\<lparr>stable_windows := m\<rparr>"
    unfolding specialise_def Let_def ah bl ll lc ps by simp
  then show "candidate (specialise kn (s\<lparr>stable_windows := m\<rparr>)) = BumpAlloc"
    and "routine_of (specialise kn (s\<lparr>stable_windows := m\<rparr>)) =
      \<lparr>rs_id = cs, rs_strategy = BumpAlloc, rs_size = sz, rs_class_sizes = [0, 0, 0, 0], rs_class_count = 0\<rparr>"
    using single_size_picks [OF assms] assms(1) by (simp_all add: routine_of_def active_hist_def warming_def)
qed

section \<open>The whole way\<close>

definition site_events :: "CallSiteID \<Rightarrow> u32 \<Rightarrow> AllocEvent list \<Rightarrow> bool" where
  "site_events cs sz evs \<longleftrightarrow> (\<forall>ev \<in> set evs. ev_call_site ev = cs \<and> ev_size ev = sz)"

lemma process_event_lone:
  assumes "an = \<lparr>summaries = [s], an_codegen = cg, an_dispatch = d\<rparr>" and "cs_id s = ev_call_site ev"
    and "ev_size ev \<noteq> 0" and "ev_size ev < 4096"
  shows "process_event kn le gs ev an =
    (case note_alloc kn le ev s cg d of Inl e \<Rightarrow> Inl e
     | Inr (s', cg', d') \<Rightarrow> Inr \<lparr>summaries = [s'], an_codegen = cg', an_dispatch = d'\<rparr>)"
  using assms by (simp add: process_event_def find_or_create_def find_site_def HIST_MAX_SIZE_def not_le
      split: sum.split prod.split)

lemma process_event_first:
  assumes "ev_size ev \<noteq> 0" and "ev_size ev < 4096"
  shows "process_event kn le gs ev (analysis_start cg d) =
    process_event kn le gs ev \<lparr>summaries = [summary_new (ev_call_site ev)], an_codegen = cg, an_dispatch = d\<rparr>"
  using assms by (simp add: process_event_def find_or_create_def find_site_def HIST_MAX_SIZE_def not_le
      analysis_start_def MAX_CALL_SITES_def summary_new_def split: sum.split prod.split)

lemma warming_step:
  assumes w: "warming kn cs sz j i s" and ev: "ev_call_site ev = cs" "ev_size ev = sz"
    and sz: "sz \<noteq> 0" "sz < 4096" and i: "i < unat (g_window_size kn)" and K: "j \<le> unat (g_stable_windows kn)"
    and room: "(unat (g_stable_windows kn) + 1) * unat (g_window_size kn) < 2 ^ 32"
    and t: "\<not> g_trace_only kn"
  defines "s' \<equiv> record_active sz (count_alloc ev s)"
  shows "Suc i < unat (g_window_size kn) \<Longrightarrow> note_alloc kn le ev s cg d = Inr (s', cg, d) \<and> warming kn cs sz j (Suc i) s'"
    and "Suc i = unat (g_window_size kn) \<Longrightarrow> j < unat (g_stable_windows kn) \<Longrightarrow>
      \<exists>s2. note_alloc kn le ev s cg d = Inr (s2, cg, d) \<and> warming kn cs sz (Suc j) 0 s2"
    and "Suc i = unat (g_window_size kn) \<Longrightarrow> j = unat (g_stable_windows kn) \<Longrightarrow> 0 < j \<Longrightarrow>
      \<exists>m. note_alloc kn le ev s cg d = install_routine le (specialise kn (s'\<lparr>stable_windows := m\<rparr>)) cg d \<and>
        warming kn cs sz j (unat (g_window_size kn)) s'"
proof -
  let ?N = "unat (g_window_size kn)" and ?K = "unat (g_stable_windows kn)"
  have "j * ?N + Suc i \<le> ?K * ?N + ?N" using K i by (intro add_mono mult_le_mono1) simp_all
  then have len: "j * ?N + Suc i < 2 ^ 32" using room by simp
  have w': "warming kn cs sz j (Suc i) s'"
    unfolding s'_def by (rule warming_event [OF w sz(2) ev(2) len])
  have pre: "cs_phase (count_alloc ev s) = PreSpec" using w by (simp add: warming_def count_alloc_def Let_def)
  have full: "window_full kn (windows s' ! active s') \<longleftrightarrow> ?N \<le> Suc i"
    using w' by (simp add: window_full_def warming_def word_le_nat_alt)
  have n: "note_alloc kn le ev s cg d = (if ?N \<le> Suc i then advance_prespec kn le s' cg d else Inr (s', cg, d))"
    using pre full by (simp add: note_alloc_def ev s'_def)
  show "Suc i < ?N \<Longrightarrow> note_alloc kn le ev s cg d = Inr (s', cg, d) \<and> warming kn cs sz j (Suc i) s'"
    using n w' by simp
  have stable: "window_stable kn s' \<longleftrightarrow> 0 < j" if "Suc i = ?N"
    using warming_stable [of kn cs sz j s'] w' that by simp
  have sw: "unat (stable_windows s') = j - 1" and nb: "\<not> blacklisted s'" using w' by (simp_all add: warming_def)
  have inc: "unat (stable_windows s' + 1) = j" if "0 < j"
  proof -
    have "?N > 0" using i by simp
    then have "j \<le> j * ?N" by simp
    then have "j \<le> j * ?N + Suc i" by (rule trans_le_add1)
    then have "j < 2 ^ 32" using len by (rule le_less_trans)
    then show ?thesis using sw that by (simp add: unat_word_ariths)
  qed
  show "\<exists>s2. note_alloc kn le ev s cg d = Inr (s2, cg, d) \<and> warming kn cs sz (Suc j) 0 s2"
    if N: "Suc i = ?N" and jK: "j < ?K"
  proof (cases "0 < j")
    case True
    have "\<not> g_stable_windows kn \<le> stable_windows s' + 1"
      using inc [OF True] jK by (simp add: word_le_nat_alt)
    then have "note_alloc kn le ev s cg d = Inr (flip_window (s'\<lparr>stable_windows := stable_windows s' + 1\<rparr>), cg, d)"
      using n N stable True by (simp add: advance_prespec_def Let_def)
    then show ?thesis using warming_flip [OF _ inc [OF True], of kn cs sz s'] w' N by auto
  next
    case False
    then have "note_alloc kn le ev s cg d = Inr (flip_window (s'\<lparr>stable_windows := 0\<rparr>), cg, d)"
      using n N stable by (simp add: advance_prespec_def)
    then show ?thesis using warming_flip [of kn cs sz 0 s' 0] w' N False by auto
  qed
  show "\<exists>m. note_alloc kn le ev s cg d = install_routine le (specialise kn (s'\<lparr>stable_windows := m\<rparr>)) cg d \<and>
        warming kn cs sz j ?N s'"
    if N: "Suc i = ?N" and jK: "j = ?K" and j: "0 < j"
  proof -
    have "g_stable_windows kn \<le> stable_windows s' + 1" using inc [OF j] jK by (simp add: word_le_nat_alt)
    then show ?thesis using n N stable j nb t w' by (auto simp: advance_prespec_def Let_def)
  qed
qed

lemma warming_run:
  assumes "site_events cs sz evs" and "warming kn cs sz j i s" and "i < unat (g_window_size kn)"
    and "sz \<noteq> 0" and "sz < 4096" and "\<not> g_trace_only kn"
    and "(unat (g_stable_windows kn) + 1) * unat (g_window_size kn) < 2 ^ 32"
    and "j * unat (g_window_size kn) + i + length evs < (unat (g_stable_windows kn) + 1) * unat (g_window_size kn)"
  shows "\<exists>s' j' i'. process_events kn le gs evs \<lparr>summaries = [s], an_codegen = cg, an_dispatch = d\<rparr> =
      Inr \<lparr>summaries = [s'], an_codegen = cg, an_dispatch = d\<rparr> \<and> warming kn cs sz j' i' s' \<and>
      i' < unat (g_window_size kn) \<and> j' * unat (g_window_size kn) + i' = j * unat (g_window_size kn) + i + length evs"
  using assms
proof (induction evs arbitrary: s j i)
  case Nil
  then show ?case by auto
next
  case (Cons ev evs)
  let ?N = "unat (g_window_size kn)" and ?K = "unat (g_stable_windows kn)"
  have ev: "ev_call_site ev = cs" "ev_size ev = sz" and evs: "site_events cs sz evs"
    using Cons.prems(1) by (simp_all add: site_events_def)
  have "j * ?N < (?K + 1) * ?N" using Cons.prems(8) by linarith
  then have jK: "j \<le> ?K" by (simp only: mult_less_cancel2) linarith
  have cs: "cs_id s = ev_call_site ev" using Cons.prems(2) ev by (simp add: warming_def)
  have n0: "ev_size ev \<noteq> 0" "ev_size ev < 4096" using ev Cons.prems(4,5) by simp_all
  note ws = warming_step [OF Cons.prems(2) ev Cons.prems(4,5,3) jK Cons.prems(7,6), of le cg d]
  have "\<exists>s1 j1 i1. note_alloc kn le ev s cg d = Inr (s1, cg, d) \<and> warming kn cs sz j1 i1 s1 \<and> i1 < ?N \<and>
      j1 * ?N + i1 = j * ?N + Suc i"
  proof (cases "Suc i = ?N")
    case True
    have "j \<noteq> ?K"
    proof
      assume "j = ?K"
      then have "(?K + 1) * ?N \<le> j * ?N + Suc i" using True by simp
      then show False using Cons.prems(8) by simp
    qed
    then obtain s1 where "note_alloc kn le ev s cg d = Inr (s1, cg, d)" "warming kn cs sz (Suc j) 0 s1"
      using ws(2) [OF True] jK by auto
    then show ?thesis using True Cons.prems(3) by (intro exI [of _ s1] exI [of _ "Suc j"] exI [of _ 0]) simp
  next
    case False
    then have lt: "Suc i < ?N" using Cons.prems(3) by simp
    from ws(1) [OF lt] lt show ?thesis by blast
  qed
  then obtain s1 j1 i1 where n: "note_alloc kn le ev s cg d = Inr (s1, cg, d)" "warming kn cs sz j1 i1 s1" "i1 < ?N"
    "j1 * ?N + i1 = j * ?N + Suc i" by blast
  have p: "process_event kn le gs ev \<lparr>summaries = [s], an_codegen = cg, an_dispatch = d\<rparr> =
      Inr \<lparr>summaries = [s1], an_codegen = cg, an_dispatch = d\<rparr>"
    using process_event_lone [OF refl cs n0, of kn le gs cg d] n(1) by simp
  from Cons.IH [OF evs n(2,3) Cons.prems(4-7)] Cons.prems(8) n(4) p show ?case by simp
qed

lemma process_events_append:
  "process_events kn le gs (xs @ ys) an =
     (case process_events kn le gs xs an of Inl e \<Rightarrow> Inl e | Inr an' \<Rightarrow> process_events kn le gs ys an')"
  by (induction xs arbitrary: an) (auto split: sum.splits)

lemma bump_compiles:
  fixes cs :: CallSiteID
  assumes "sz \<noteq> 0" and "sz < 4096" and "cg_next_index cg < 4096" and "le_page le \<noteq> 0"
  defines "spec \<equiv> \<lparr>rs_id = cs, rs_strategy = BumpAlloc, rs_size = sz, rs_class_sizes = [0, 0, 0, 0], rs_class_count = 0\<rparr>"
  shows "\<exists>code cg'. compile le spec cg = (Some (le_page le), cg') \<and>
    emit_routine le spec (cg_next_index cg) = Some code \<and> cg_pages cg' = (le_page le, code) # cg_pages cg"
proof -
  have nr: "\<not> spec_rejected spec" using assms(1,2) by (simp add: spec_rejected_def MAX_SIZE_def spec_def not_le)
  obtain code where "emit_routine le spec (cg_next_index cg) = Some code"
    using emit_routine_Some [OF nr assms(4)] by (auto simp: spec_def)
  then show ?thesis using nr assms(3)
    by (auto simp: compile_def alloc_slot_index_def MAX_COMPILED_SITES_def Let_def not_le)
qed

text \<open>The state before a site's first event, and the runs that start there.\<close>

definition fresh_site :: "CallSiteID \<Rightarrow> codegen_state \<Rightarrow> dispatch \<Rightarrow> analysis" where
  "fresh_site cs cg d = \<lparr>summaries = [summary_new cs], an_codegen = cg, an_dispatch = d\<rparr>"

lemma process_events_fresh_site:
  assumes "site_events cs sz xs" and "xs \<noteq> []" and "sz \<noteq> 0" and "sz < 4096"
  shows "process_events kn le gs xs (analysis_start cg d) = process_events kn le gs xs (fresh_site cs cg d)"
  using assms process_event_first [of "hd xs" kn le gs cg d]
  by (cases xs) (auto simp: site_events_def fresh_site_def)

lemma fresh_site_getters:
  "cs_id s = cs \<Longrightarrow> get_phase cs [s] = cs_phase s" "cs_id s = cs \<Longrightarrow> get_candidate_strategy cs [s] = candidate s"
  by (simp_all add: get_phase_def get_candidate_strategy_def site_field_def find_site_def)

lemma warming_fresh_site:
  assumes "site_events cs sz xs" and "0 < g_window_size kn" and "sz \<noteq> 0" and "sz < 4096" and "\<not> g_trace_only kn"
    and "(unat (g_stable_windows kn) + 1) * unat (g_window_size kn) < 2 ^ 32"
    and "length xs < (unat (g_stable_windows kn) + 1) * unat (g_window_size kn)"
  shows "\<exists>s j i. process_events kn le gs xs (fresh_site cs cg d) =
      Inr \<lparr>summaries = [s], an_codegen = cg, an_dispatch = d\<rparr> \<and>
    warming kn cs sz j i s \<and> i < unat (g_window_size kn) \<and> j * unat (g_window_size kn) + i = length xs"
proof -
  have "0 < unat (g_window_size kn)" using assms(2) by (simp add: word_less_nat_alt)
  from warming_run [OF assms(1) warming_new this assms(3,4,5,6), of le gs cg d] assms(7)
  show ?thesis by (simp add: fresh_site_def)
qed

lemma stays_generic:
  assumes "site_events cs sz evs" and "0 < g_window_size kn" and "sz \<noteq> 0" and "sz < 4096" and "\<not> g_trace_only kn"
    and "(unat (g_stable_windows kn) + 1) * unat (g_window_size kn) < 2 ^ 32"
    and "n < (unat (g_stable_windows kn) + 1) * unat (g_window_size kn)"
  shows "\<exists>an. process_events kn le gs (take n evs) (analysis_start cg d) = Inr an \<and>
      get_phase cs (summaries an) = PreSpec \<and> an_dispatch an = d"
proof (cases "take n evs = []")
  case True
  show ?thesis unfolding True by (simp add: analysis_start_def get_phase_def site_field_def find_site_def)
next
  case False
  have se: "site_events cs sz (take n evs)" using assms(1) by (auto simp: site_events_def dest: in_set_takeD)
  have "length (take n evs) < (unat (g_stable_windows kn) + 1) * unat (g_window_size kn)" using assms(7) by simp
  from warming_fresh_site [OF se assms(2-6) this, of le gs cg d] show ?thesis
    unfolding process_events_fresh_site [OF se False assms(3,4)]
    by (auto simp: warming_def fresh_site_getters)
qed

text \<open>The last event finds the last window one event short.\<close>

lemma last_window_index:
  fixes N K j i :: nat
  assumes "Suc (j * N + i) = (K + 1) * N" and "i < N"
  shows "j = K" and "Suc i = N"
proof -
  have e: "j * N + i + 1 = K * N + N" using assms by simp
  have "j * N < (K + 1) * N" using e by simp
  then have "j \<le> K" by (simp only: mult_less_cancel2) linarith
  moreover have "K * N < (j + 1) * N" using e assms(2) by simp
  then have "K \<le> j" by (simp only: mult_less_cancel2) linarith
  ultimately show "j = K" by simp
  then show "Suc i = N" using e by simp
qed

lemma last_event_compiles:
  assumes st: "dispatch_init a dispatch_static = Inr (a', d)"
    and w: "warming kn cs sz (unat (g_stable_windows kn)) i s" and i: "Suc i = unat (g_window_size kn)"
    and ev: "ev_call_site ev = cs" "ev_size ev = sz" and sz: "sz \<noteq> 0" "sz < 4096" and cs: "cs \<noteq> 0"
    and kn: "0 < g_stable_windows kn" "\<not> g_trace_only kn" "strategy_override kn = Generic"
    and room: "(unat (g_stable_windows kn) + 1) * unat (g_window_size kn) < 2 ^ 32"
    and cg: "cg_next_index cg < 4096" "le_page (le (cg_next_index cg)) \<noteq> 0"
  obtains s' cg' d' code where
    "process_event kn le gs ev \<lparr>summaries = [s], an_codegen = cg, an_dispatch = d\<rparr> =
       Inr \<lparr>summaries = [s'], an_codegen = cg', an_dispatch = d'\<rparr>"
    "cs_id s' = cs" "cs_phase s' = Compiled" "candidate s' = BumpAlloc"
    "dispatch_lookup cs d' = le_page (le (cg_next_index cg))"
    "emit_routine (le (cg_next_index cg)) \<lparr>rs_id = cs, rs_strategy = BumpAlloc, rs_size = sz,
        rs_class_sizes = [0, 0, 0, 0], rs_class_count = 0\<rparr> (cg_next_index cg) = Some code"
    "cg_pages cg' = (le_page (le (cg_next_index cg)), code) # cg_pages cg"
proof -
  let ?s1 = "record_active sz (count_alloc ev s)" and ?le = "le (cg_next_index cg)"
  have N: "0 < unat (g_window_size kn)" and i': "i < unat (g_window_size kn)" using i by simp_all
  have K: "0 < unat (g_stable_windows kn)" using kn(1) by (simp add: word_less_nat_alt)
  from warming_step(3) [OF w ev sz i' _ room kn(2) i refl K, of le cg d]
  obtain m where m: "note_alloc kn le ev s cg d = install_routine le (specialise kn (?s1\<lparr>stable_windows := m\<rparr>)) cg d"
    and w0: "warming kn cs sz (unat (g_stable_windows kn)) (unat (g_window_size kn)) ?s1" by auto
  define s2 where "s2 = ?s1\<lparr>stable_windows := m\<rparr>"
  define spec where "spec = \<lparr>rs_id = cs, rs_strategy = BumpAlloc, rs_size = sz, rs_class_sizes = [0, 0, 0, 0], rs_class_count = (0 :: u8)\<rparr>"
  have spec: "routine_of (specialise kn s2) = spec" and cand: "candidate (specialise kn s2) = BumpAlloc"
    and id2: "cs_id (specialise kn s2) = cs"
    using single_size_picks_any [OF w0 N kn(3), of m] w0 by (simp_all add: s2_def spec_def warming_def)
  obtain code cg' where c: "compile ?le spec cg = (Some (le_page ?le), cg')"
    "emit_routine ?le spec (cg_next_index cg) = Some code" "cg_pages cg' = (le_page ?le, code) # cg_pages cg"
    using bump_compiles [OF sz cg, of cs] unfolding spec_def by blast
  have ok: "analysis_ok kn (analysis_start cg d)" by (rule analysis_start_ok [OF st])
  then have inv: "dispatch_inv d" by (simp add: analysis_ok_def analysis_start_def)
  obtain d' where d': "dispatch_install cs (le_page ?le) d = Inr d'"
    using install_succeeds [OF ok _ _ cs, of "[s2]"] w0
    by (auto simp: site_ids_def s2_def warming_def analysis_start_def)
  have n: "note_alloc kn le ev s cg d = Inr ((specialise kn s2)\<lparr>code_page := le_page ?le\<rparr>, cg', d')"
    using m c d' spec id2 by (simp add: install_routine_def s2_def [symmetric])
  have id: "cs_id s = ev_call_site ev" using w ev by (simp add: warming_def)
  have n0: "ev_size ev \<noteq> 0" "ev_size ev < 4096" using ev sz by simp_all
  show thesis
    by (rule that [of "(specialise kn s2)\<lparr>code_page := le_page ?le\<rparr>" cg' d' code])
      (use process_event_lone [OF refl id n0, of kn le gs cg d] n id2 cand c(2,3)
        dispatch_lookup_install [OF inv cs cs d'] in \<open>simp_all add: spec_def specialise_fields\<close>)
qed

text \<open>
  C3: A site that allocates one size only, with no free observed, stays on the generic path for
  all but the last of its first \<open>(K + 1) * N\<close> events; that event compiles it as \<open>BumpAlloc\<close>, and from
  then on the dispatch table sends the site to the new page, which holds the code emitted for
  this site and size.
\<close>

theorem hold_site_compiles:
  assumes "dispatch_init a dispatch_static = Inr (a', d)"
    and "site_events cs sz evs" and "cs \<noteq> 0" and "sz \<noteq> 0" and "sz < 4096"
    and "0 < g_window_size kn" and "0 < g_stable_windows kn" and "\<not> g_trace_only kn"
    and "strategy_override kn = Generic"
    and "length evs = (unat (g_stable_windows kn) + 1) * unat (g_window_size kn)" and "length evs < 2 ^ 32"
    and "cg_next_index cg < 4096" and "le_page (le (cg_next_index cg)) \<noteq> 0"
  shows "(\<forall>n < length evs. \<exists>an. process_events kn le gs (take n evs) (analysis_start cg d) = Inr an \<and>
      get_phase cs (summaries an) = PreSpec \<and> an_dispatch an = d) \<and>
    (\<exists>an code. process_events kn le gs evs (analysis_start cg d) = Inr an \<and>
      get_phase cs (summaries an) = Compiled \<and> get_candidate_strategy cs (summaries an) = BumpAlloc \<and>
      dispatch_lookup cs (an_dispatch an) = le_page (le (cg_next_index cg)) \<and>
      emit_routine (le (cg_next_index cg)) \<lparr>rs_id = cs, rs_strategy = BumpAlloc, rs_size = sz,
        rs_class_sizes = [0, 0, 0, 0], rs_class_count = 0\<rparr> (cg_next_index cg) = Some code \<and>
      cg_pages (an_codegen an) = (le_page (le (cg_next_index cg)), code) # cg_pages cg)"
proof (intro conjI allI impI)
  let ?N = "unat (g_window_size kn)" and ?K = "unat (g_stable_windows kn)"
  have room: "(?K + 1) * ?N < 2 ^ 32" using assms(10,11) by simp
  show "\<exists>an. process_events kn le gs (take n evs) (analysis_start cg d) = Inr an \<and>
      get_phase cs (summaries an) = PreSpec \<and> an_dispatch an = d" if "n < length evs" for n
    using stays_generic [OF assms(2,6,4,5,8) room] that assms(10) by simp
  have "evs \<noteq> []" using assms(6,10) by (auto simp: word_less_nat_alt)
  then obtain xs ev where evs: "evs = xs @ [ev]" by (cases evs rule: rev_cases) auto
  have se: "site_events cs sz xs" and ev: "ev_call_site ev = cs" "ev_size ev = sz"
    using assms(2) unfolding evs by (simp_all add: site_events_def)
  have lx: "Suc (length xs) = (?K + 1) * ?N" using assms(10) unfolding evs by simp
  then obtain s j i where s: "process_events kn le gs xs (fresh_site cs cg d) =
      Inr \<lparr>summaries = [s], an_codegen = cg, an_dispatch = d\<rparr>"
    "warming kn cs sz j i s" "i < ?N" "j * ?N + i = length xs"
    using warming_fresh_site [OF se assms(6,4,5,8) room, of le gs cg d] by auto
  note ji = last_window_index [OF lx [folded s(4)] s(3)]
  show "\<exists>an code. process_events kn le gs evs (analysis_start cg d) = Inr an \<and>
      get_phase cs (summaries an) = Compiled \<and> get_candidate_strategy cs (summaries an) = BumpAlloc \<and>
      dispatch_lookup cs (an_dispatch an) = le_page (le (cg_next_index cg)) \<and>
      emit_routine (le (cg_next_index cg)) \<lparr>rs_id = cs, rs_strategy = BumpAlloc, rs_size = sz,
        rs_class_sizes = [0, 0, 0, 0], rs_class_count = 0\<rparr> (cg_next_index cg) = Some code \<and>
      cg_pages (an_codegen an) = (le_page (le (cg_next_index cg)), code) # cg_pages cg"
    unfolding process_events_fresh_site [OF assms(2) \<open>evs \<noteq> []\<close> assms(4,5)]
    by (rule last_event_compiles [where le = le and cg = cg, OF assms(1) s(2) [unfolded ji(1)] ji(2) ev assms(4,5,3,7,8,9) room assms(12,13), of gs])
      (auto simp: evs process_events_append s(1) fresh_site_getters)
qed

section \<open>After compilation\<close>

lemma ks_stable_single:
  assumes "hist_of (replicate m s) a" and "hist_of (replicate n s) b" and "0 < m" and "0 < n"
  shows "ks_stable a b alpha"
proof -
  obtain c where a: "entries a = [\<lparr>m_size = s, m_count = c\<rparr>]" "unat c = m" "\<not> overflow a" "unat (total a) = m"
    using single_size_window [OF assms(1,3)] by blast
  obtain d where b: "entries b = [\<lparr>m_size = s, m_count = d\<rparr>]" "unat d = n" "\<not> overflow b" "unat (total b) = n"
    using single_size_window [OF assms(2,4)] by blast
  have p: "0 < d_of_nat m" "0 < d_of_nat n" using assms(3,4) by (simp_all add: d_of_nat_pos)
  then have "ks_walk (d_of_nat m) (d_of_nat n) (sorted_modes CAP a) (sorted_modes CAP b) 0 0 0 = 0"
    unfolding sorted_modes_single [OF a(1)] sorted_modes_single [OF b(1)]
    by (subst ks_walk.simps) (simp add: step_size_def a b fdiv_self ks_walk.simps)
  moreover have "total a \<noteq> 0" "total b \<noteq> 0" using a(4) b(4) assms(3,4) by auto
  ultimately show ?thesis
    using critical_pos [OF p, of alpha] a(3,4) b(3,4) by (simp add: ks_stable_def hist_count_def Let_def)
qed

text \<open>
  When the window of a compiled site is full, and both it and the baseline hold one size each
  (at least 16 events), the site is given up, with the cause recorded and its windows started
  afresh, exactly if the size has changed; never in oracle mode.  Its code page and its entry in
  the dispatch table are left as they are.
\<close>

theorem drift_gives_up_iff_size_changed:
  assumes "hist_of (replicate m a) (baseline s)" and "hist_of (replicate n b) (sw_hist (post_window s))"
    and "16 \<le> m" and "16 \<le> n" and "m < 2 ^ 32" and "n < 2 ^ 32" and "cs_phase s = Compiled"
  shows "cs_phase (check_postspec kn s) = (if a \<noteq> b \<and> \<not> g_oracle_mode kn then Deopt else Compiled) \<and>
    deopt_reason (check_postspec kn s) = (if a \<noteq> b \<and> \<not> g_oracle_mode kn then SizeDrift else deopt_reason s) \<and>
    code_page (check_postspec kn s) = code_page s \<and> sw_count (post_window (check_postspec kn s)) = 0"
proof -
  have "ks_stable (sw_hist (post_window s)) (baseline s) (g_ks_alpha kn) \<longleftrightarrow> a = b"
    using ks_stable_differ [OF assms(2,1) _ assms(4,3,6,5)] ks_stable_single [of n a "sw_hist (post_window s)" m "baseline s"]
      assms(1-4) by auto
  then show ?thesis using assms(7)
    by (simp add: check_postspec_def Let_def window_reset_def restart_windows_def reset_window_def)
qed

section \<open>The capturable share\<close>

lemma capturable_loop_sums:
  assumes "unat t + (\<Sum>s \<leftarrow> ss. unat (event_count s)) < 2 ^ 64" and "unat c \<le> unat t"
  shows "unat (fst (capturable_loop ss t c)) = unat t + (\<Sum>s \<leftarrow> ss. unat (event_count s)) \<and>
    unat (snd (capturable_loop ss t c)) = unat c + (\<Sum>s \<leftarrow> filter (\<lambda>s. cs_phase s = Compiled) ss. unat (event_count s))"
  using assms
proof (induction ss arbitrary: t c)
  case Nil
  then show ?case by simp
next
  case (Cons s ss)
  have t: "unat (t + event_count s) = unat t + unat (event_count s)"
    using Cons.prems(1) by (simp add: unat_word_ariths)
  have c: "unat (c + event_count s) = unat c + unat (event_count s)"
    using Cons.prems by (simp add: unat_word_ariths)
  show ?case
    using Cons.IH [of "t + event_count s" "c + event_count s"] Cons.IH [of "t + event_count s" c] Cons.prems t c
    by auto
qed

text \<open>
  \<open>capturable\<close> reports the number of allocation events of all sites and of the compiled ones,
  as long as the first fits in 64 bits; so the share is at most one.
\<close>

theorem capturable_counts:
  assumes "(\<Sum>s \<leftarrow> ss. unat (event_count s)) < 2 ^ 64"
  shows "unat (fst (capturable ss)) = (\<Sum>s \<leftarrow> ss. unat (event_count s)) \<and>
    unat (snd (capturable ss)) = (\<Sum>s \<leftarrow> filter (\<lambda>s. cs_phase s = Compiled) ss. unat (event_count s)) \<and>
    snd (capturable ss) \<le> fst (capturable ss)"
proof -
  have "(\<Sum>s \<leftarrow> filter P ss. unat (event_count s)) \<le> (\<Sum>s \<leftarrow> ss. unat (event_count s))" for P
    by (induction ss) auto
  then show ?thesis
    using capturable_loop_sums [of 0 ss 0] assms by (simp add: capturable_def word_le_nat_alt)
qed

section \<open>Concrete runs\<close>

definition demo_knobs :: knobs where
  "demo_knobs =
     \<lparr>g_stable_windows = 1, g_window_size = 2, g_ks_alpha = 1 / 20, g_deopt_blacklist_limit = 2,
      g_trace_only = False, g_oracle_mode = False, strategy_override = Generic\<rparr>"

definition demo_alloc :: AllocEvent where
  "demo_alloc = \<lparr>ev_call_site = 7, ev_size = 48, ev_timestamp_ns = 0, ev_thread_id = 1, ev_ptr = 0x5000\<rparr>"

definition demo_table :: "(Arena \<times> dispatch)" where
  "demo_table =
     (\<lparr>arena_base = 0x1000, arena_cursor = 0x11000, arena_end = 0x401000\<rparr>,
      dispatch_static\<lparr>dt_table := replicate 4096 \<lparr>de_fn = 0, de_id = 0\<rparr>\<rparr>)"

lemma demo_init:
  "dispatch_init \<lparr>arena_base = 0x1000, arena_cursor = 0x1000, arena_end = 0x401000\<rparr> dispatch_static = Inr demo_table"
  by (simp add: dispatch_init_def alloc_alloc_def TABLE_SIZE_def demo_table_def Let_def)

lemma demo_init_pair:
  "dispatch_init \<lparr>arena_base = 0x1000, arena_cursor = 0x1000, arena_end = 0x401000\<rparr> dispatch_static =
     Inr (fst demo_table, snd demo_table)"
  by (simp add: demo_init)

lemma demo_start_ok: "analysis_ok kn (analysis_start demo_cg (snd demo_table))"
  by (rule analysis_start_ok [OF demo_init_pair])

theorem thread_dist_sound_witness:
  "top_tid (fold dist_record [1, 2, 1, 3, 1] dist_new) = 1"
  using thread_dist_sound [of "[1, 2, 1, 3, 1]" 1] by simp

theorem analysis_never_fails_witness:
  "\<exists>an. an_run demo_knobs (\<lambda>_. demo_link) demo_segs [Event demo_alloc, Reset 7 Other]
     (analysis_start demo_cg (snd demo_table)) = Inr an \<and> analysis_ok demo_knobs an"
  by (rule analysis_never_fails [OF demo_init_pair])
    (simp add: demo_alloc_def)

theorem hold_site_compiles_witness:
  "\<exists>an. process_events demo_knobs (\<lambda>_. demo_link) demo_segs [demo_alloc, demo_alloc, demo_alloc, demo_alloc]
     (analysis_start demo_cg (snd demo_table)) = Inr an \<and>
     get_phase 7 (summaries an) = Compiled \<and> dispatch_lookup 7 (an_dispatch an) = 0x4000"
proof -
  have e: "site_events 7 48 [demo_alloc, demo_alloc, demo_alloc, demo_alloc]"
    by (simp add: site_events_def demo_alloc_def)
  from hold_site_compiles [OF demo_init_pair e, of demo_knobs demo_cg "\<lambda>_. demo_link" demo_segs]
  show ?thesis by (auto simp: demo_knobs_def demo_cg_def demo_link_def)
qed

theorem capturable_counts_witness:
  "unat (fst (capturable [(summary_new 7)\<lparr>event_count := 5\<rparr>, (summary_new 8)\<lparr>event_count := 6, cs_phase := Compiled\<rparr>])) = 11"
  using capturable_counts [of "[(summary_new 7)\<lparr>event_count := 5\<rparr>, (summary_new 8)\<lparr>event_count := 6, cs_phase := Compiled\<rparr>]"]
  by simp

theorem drift_gives_up_iff_size_changed_witness:
  "cs_phase (check_postspec demo_knobs ((summary_new 7)\<lparr>cs_phase := Compiled,
     baseline := fold hist_record (replicate 16 48) hist_empty,
     post_window := \<lparr>sw_hist = fold hist_record (replicate 16 64) hist_empty, sw_count = 16\<rparr>\<rparr>)) = Deopt"
proof -
  have h: "hist_of (replicate 16 48) (fold hist_record (replicate 16 48) hist_empty)"
    "hist_of (replicate 16 64) (fold hist_record (replicate 16 64) hist_empty)"
    by (rule fold_record_single; simp)+
  have gen: "cs_phase (check_postspec demo_knobs ((summary_new 7)\<lparr>cs_phase := Compiled,
     baseline := A, post_window := \<lparr>sw_hist = B, sw_count = 16\<rparr>\<rparr>)) = Deopt"
    if "hist_of (replicate 16 48) A" and "hist_of (replicate 16 64) B" for A B
    using drift_gives_up_iff_size_changed [of 16 48 "(summary_new 7)\<lparr>cs_phase := Compiled,
      baseline := A, post_window := \<lparr>sw_hist = B, sw_count = 16\<rparr>\<rparr>" 16 64 demo_knobs] that
    by (simp add: demo_knobs_def)
  show ?thesis by (rule gen [OF h])
qed

theorem blacklist_is_final_witness:
  "\<exists>an1 an2. an_run demo_knobs (\<lambda>_. demo_link) demo_segs [Reset 7 Other, Reset 7 SizeDrift]
      \<lparr>summaries = [summary_new 7], an_codegen = demo_cg, an_dispatch = snd demo_table\<rparr> = Inr an1 \<and>
    an_run demo_knobs (\<lambda>_. demo_link) demo_segs [Event demo_alloc] an1 = Inr an2 \<and>
    get_phase 7 (summaries an2) \<noteq> Compiled"
proof -
  let ?an = "\<lparr>summaries = [summary_new 7], an_codegen = demo_cg, an_dispatch = snd demo_table\<rparr>"
  let ?xs = "[Reset 7 Other, Reset 7 SizeDrift]" and ?ys = "[Event demo_alloc]"
  have ok: "analysis_ok demo_knobs ?an"
    using demo_start_ok [of demo_knobs] by (simp add: analysis_ok_def analysis_start_def summary_new_ok site_ids_def)
  obtain an1 where 1: "an_run demo_knobs (\<lambda>_. demo_link) demo_segs ?xs ?an = Inr an1" "analysis_ok demo_knobs an1"
    using an_run_ok [OF ok, of ?xs "\<lambda>_. demo_link" demo_segs] by auto
  obtain an2 where 2: "an_run demo_knobs (\<lambda>_. demo_link) demo_segs ?ys an1 = Inr an2"
    using an_run_ok [OF 1(2), of ?ys "\<lambda>_. demo_link" demo_segs] by (auto simp: demo_alloc_def)
  have "site_at 7 0 False ?an" by (simp add: site_at_def summary_new_def)
  from blacklist_is_final [OF ok this _ 1(1) 2] show ?thesis using 1(1) 2
    by (auto simp: demo_alloc_def resets_def demo_knobs_def)
qed

end
