(* ===== verification/Trace_File.thy ===== *)
theory Trace_File
  imports X86 Convergence
begin

text \<open>
  The binary trace: \<open>src/src/trace/writer.cpp\<close>, which writes the header and one record per event,
  and \<open>src/tools/replay.cpp\<close>, which reads them back into the analysis.  A file is its bytes;
  whether \<open>fopen\<close> succeeds, the clock and the process id are arguments.  The four bytes between
  \<open>thread_id\<close> and \<open>ptr\<close> of a record are padding and may hold anything.
\<close>

section \<open>Paths\<close>

fun strstr_pct :: "string \<Rightarrow> nat option" where
  "strstr_pct (a # b # s) =
     (if a = CHR 0x25 \<and> b = CHR ''p'' then Some 0 else map_option Suc (strstr_pct (b # s)))"
| "strstr_pct _ = None"

function decimal :: "nat \<Rightarrow> string" where
  "decimal n = (if n < 10 then [char_of (48 + n)] else decimal (n div 10) @ [char_of (48 + n mod 10)])"
  by pat_completeness auto
termination
  by (relation "measure id") auto

declare decimal.simps [simp del]

definition resolve_path :: "nat \<Rightarrow> string \<Rightarrow> string option" where
  "resolve_path pid path =
     (case strstr_pct path of
        None \<Rightarrow> Some path
      | Some prefix \<Rightarrow>
          (if 1024 \<le> prefix then None
           else let out = decimal pid @ drop (prefix + 2) path
                in if 1024 \<le> prefix + length out then None else Some (take prefix path @ out)))"

section \<open>The writer\<close>

definition TRACE_MAGIC :: u32 where
  "TRACE_MAGIC = 0x54424A54"

definition TRACE_VERSION :: u32 where
  "TRACE_VERSION = 1"

record TraceHeader =
  th_magic :: u32
  th_version :: u32
  th_start_ns :: u64

definition header_bytes :: "TraceHeader \<Rightarrow> u8 list" where
  "header_bytes h = le32 (th_magic h) @ le32 (th_version h) @ le64 (th_start_ns h)"

definition event_bytes :: "u8 list \<Rightarrow> AllocEvent \<Rightarrow> u8 list" where
  "event_bytes pad ev =
     le32 (ev_call_site ev) @ le32 (ev_size ev) @ le64 (ev_timestamp_ns ev) @ le32 (ev_thread_id ev) @ pad @
     le64 (ev_ptr ev)"

record writer =
  g_file :: "(string \<times> u8 list) option"
  closed_files :: "(string \<times> u8 list) list"

definition writer_open :: "(string \<Rightarrow> bool) \<Rightarrow> u64 \<times> u64 \<Rightarrow> nat \<Rightarrow> string \<Rightarrow> writer \<Rightarrow> writer" where
  "writer_open fopen ts pid path w =
     (case resolve_path pid path of
        None \<Rightarrow> w
      | Some p \<Rightarrow>
          (if \<not> fopen p then w\<lparr>g_file := None\<rparr>
           else w\<lparr>g_file := Some (p, header_bytes \<lparr>th_magic = TRACE_MAGIC, th_version = TRACE_VERSION,
                    th_start_ns = fst ts * 1000000000 + snd ts\<rparr>)\<rparr>))"

definition writer_write :: "u8 list \<Rightarrow> AllocEvent \<Rightarrow> writer \<Rightarrow> writer" where
  "writer_write pad ev w =
     (case g_file w of None \<Rightarrow> w | Some (p, bs) \<Rightarrow> w\<lparr>g_file := Some (p, bs @ event_bytes pad ev)\<rparr>)"

definition writer_close :: "writer \<Rightarrow> writer" where
  "writer_close w =
     (case g_file w of None \<Rightarrow> w | Some f \<Rightarrow> w\<lparr>closed_files := closed_files w @ [f], g_file := None\<rparr>)"

definition writer_active :: "writer \<Rightarrow> bool" where
  "writer_active w \<longleftrightarrow> g_file w \<noteq> None"

section \<open>The replay tool\<close>

datatype replay_error =
    Usage
  | Open_failed
  | Short_header
  | Bad_magic u32
  | Version_mismatch u32
  | Replay_abort dispatch_error

fun parse_args :: "string list \<Rightarrow> string option \<Rightarrow> bool \<Rightarrow> (string option \<times> bool) option" where
  "parse_args [] path oracle = Some (path, oracle)"
| "parse_args (a # as) path oracle =
     (if a = ''--oracle'' then parse_args as path True
      else if path = None then parse_args as (Some a) oracle
      else None)"

fun read_header :: "u8 list \<Rightarrow> (TraceHeader \<times> u8 list) option" where
  "read_header (m0 # m1 # m2 # m3 # v0 # v1 # v2 # v3 # s0 # s1 # s2 # s3 # s4 # s5 # s6 # s7 # bs) =
     Some (\<lparr>th_magic = get32 m0 m1 m2 m3, th_version = get32 v0 v1 v2 v3,
            th_start_ns = get64 s0 s1 s2 s3 s4 s5 s6 s7\<rparr>, bs)"
| "read_header _ = None"

text \<open>\<open>fread\<close> of one record: 32 bytes, or nothing.\<close>

definition read_event :: "u8 list \<Rightarrow> (AllocEvent \<times> u8 list) option" where
  "read_event bs =
     (if length bs < 32 then None
      else Some (\<lparr>ev_call_site = get32 (bs ! 0) (bs ! 1) (bs ! 2) (bs ! 3),
                  ev_size = get32 (bs ! 4) (bs ! 5) (bs ! 6) (bs ! 7),
                  ev_timestamp_ns = get64 (bs ! 8) (bs ! 9) (bs ! 10) (bs ! 11) (bs ! 12) (bs ! 13) (bs ! 14) (bs ! 15),
                  ev_thread_id = get32 (bs ! 16) (bs ! 17) (bs ! 18) (bs ! 19),
                  ev_ptr = get64 (bs ! 24) (bs ! 25) (bs ! 26) (bs ! 27) (bs ! 28) (bs ! 29) (bs ! 30) (bs ! 31)\<rparr>,
                 drop 32 bs))"

function replay_loop ::
    "knobs \<Rightarrow> (u32 \<Rightarrow> link_env) \<Rightarrow> seg_state \<Rightarrow> u8 list \<Rightarrow> nat \<Rightarrow> analysis \<Rightarrow> dispatch_error + (nat \<times> analysis)" where
  "replay_loop kn le gs bs replayed an =
     (case read_event bs of
        None \<Rightarrow> Inr (replayed, an)
      | Some (ev, bs) \<Rightarrow>
          (case process_event kn le gs ev an of
             Inl e \<Rightarrow> Inl e
           | Inr an \<Rightarrow> replay_loop kn le gs bs (replayed + 1) an))"
  by pat_completeness auto
termination
  by (relation "measure (\<lambda>(kn, le, gs, bs, n, an). length bs)") (auto simp: read_event_def split: if_splits)

declare replay_loop.simps [simp del]

definition replay ::
    "knobs \<Rightarrow> (u32 \<Rightarrow> link_env) \<Rightarrow> seg_state \<Rightarrow> (string \<Rightarrow> u8 list option) \<Rightarrow> string list \<Rightarrow> analysis \<Rightarrow>
       replay_error + (nat \<times> analysis \<times> (u64 \<times> u64) option)" where
  "replay kn le gs fopen args an =
     (case parse_args args None False of
        None \<Rightarrow> Inl Usage
      | Some (None, _) \<Rightarrow> Inl Usage
      | Some (Some path, oracle) \<Rightarrow>
          (case fopen path of
             None \<Rightarrow> Inl Open_failed
           | Some bs \<Rightarrow>
               (case read_header bs of
                  None \<Rightarrow> Inl Short_header
                | Some (hdr, bs) \<Rightarrow>
                    if th_magic hdr \<noteq> TRACE_MAGIC then Inl (Bad_magic (th_magic hdr))
                    else if th_version hdr \<noteq> TRACE_VERSION then Inl (Version_mismatch (th_version hdr))
                    else
                      (case replay_loop (kn\<lparr>g_oracle_mode := oracle\<rparr>) le gs bs 0 (reset_state an) of
                         Inl e \<Rightarrow> Inl (Replay_abort e)
                       | Inr (n, an) \<Rightarrow>
                           Inr (n, an, if oracle then Some (capturable (summaries an)) else None)))))"

section \<open>Round trip\<close>

lemma length_bytes: "length (header_bytes h) = 16" "length pad = 4 \<Longrightarrow> length (event_bytes pad ev) = 32"
  by (simp_all add: header_bytes_def event_bytes_def le32_def le64_def)

lemma read_header_bytes: "read_header (header_bytes h @ bs) = Some (h, bs)"
  by (simp add: header_bytes_def le32_def le64_def)

lemma read_event_bytes:
  assumes "length pad = 4"
  shows "read_event (event_bytes pad ev @ bs) = Some (ev, bs)"
proof -
  obtain a b c d where pad: "pad = [a, b, c, d]"
    using assms by (auto simp: length_Suc_conv eval_nat_numeral)
  show ?thesis
    by (simp add: read_event_def event_bytes_def le32_def le64_def pad)
qed

lemma replay_loop_events:
  assumes "\<forall>(pad, ev) \<in> set evs. length pad = 4" and "length tail < 32"
  shows "replay_loop kn le gs (concat (map (\<lambda>(pad, ev). event_bytes pad ev) evs) @ tail) n an =
    map_sum id (Pair (n + length evs)) (process_events kn le gs (map snd evs) an)"
  using assms(1)
proof (induction evs arbitrary: n an)
  case Nil
  then show ?case using assms(2) by (subst replay_loop.simps) (simp add: read_event_def)
next
  case (Cons x evs)
  obtain pad ev where x: "x = (pad, ev)" by fastforce
  then have "length pad = 4" using Cons.prems by simp
  then show ?case using Cons
    by (subst replay_loop.simps) (simp add: x read_event_bytes id_def split: sum.split)
qed

definition write_all :: "(u8 list \<times> AllocEvent) list \<Rightarrow> writer \<Rightarrow> writer" where
  "write_all evs w = fold (\<lambda>(pad, ev). writer_write pad ev) evs w"

lemma write_all_file:
  "g_file w = Some (p, bs) \<Longrightarrow>
     write_all evs w = w\<lparr>g_file := Some (p, bs @ concat (map (\<lambda>(pad, ev). event_bytes pad ev) evs))\<rparr>"
  unfolding write_all_def
proof (induction evs arbitrary: w bs)
  case (Cons x evs)
  obtain pad ev where x: "x = (pad, ev)" by fastforce
  show ?case using Cons.IH [of "writer_write pad ev w" "bs @ event_bytes pad ev"] Cons.prems
    by (simp add: x writer_write_def)
qed simp

text \<open>
  C25: What \<open>writer_open\<close>, \<open>writer_write\<close> and \<open>writer_close\<close> put into a file, the replay tool reads
  back: whatever the padding bytes, and even with a torn record at the end, it feeds the analysis
  exactly the events written, in order, and counts them.
\<close>

theorem trace_file_roundtrip:
  assumes "\<forall>(pad, ev) \<in> set evs. length pad = 4" and "length tail < 32"
    and "resolve_path pid path = Some p" and "fopen p" and "p \<noteq> ''--oracle''"
    and "w = writer_close (write_all evs (writer_open fopen ts pid path w0))"
  shows "g_file w = None \<and> (\<exists>bs. closed_files w = closed_files w0 @ [(p, bs)] \<and>
    replay kn le gs (\<lambda>_. Some (bs @ tail)) (p # (if oracle then [''--oracle''] else [])) an =
      (case process_events (kn\<lparr>g_oracle_mode := oracle\<rparr>) le gs (map snd evs) (reset_state an) of
         Inl e \<Rightarrow> Inl (Replay_abort e)
       | Inr an' \<Rightarrow> Inr (length evs, an', if oracle then Some (capturable (summaries an')) else None)))"
proof -
  let ?h = "\<lparr>th_magic = TRACE_MAGIC, th_version = TRACE_VERSION, th_start_ns = fst ts * 1000000000 + snd ts\<rparr>"
  let ?bs = "concat (map (\<lambda>(pad, ev). event_bytes pad ev) evs)"
  have "g_file (writer_open fopen ts pid path w0) = Some (p, header_bytes ?h)"
    using assms(3,4) by (simp add: writer_open_def)
  note wa = write_all_file [OF this]
  have w: "w = w0\<lparr>closed_files := closed_files w0 @ [(p, header_bytes ?h @ ?bs)], g_file := None\<rparr>"
    unfolding assms(6) wa using assms(3,4) by (simp add: writer_close_def writer_open_def)
  have args: "parse_args (p # (if oracle then [''--oracle''] else [])) None False = Some (Some p, oracle)"
    using assms(5) by simp
  have "replay kn le gs (\<lambda>_. Some ((header_bytes ?h @ ?bs) @ tail)) (p # (if oracle then [''--oracle''] else [])) an =
      (case process_events (kn\<lparr>g_oracle_mode := oracle\<rparr>) le gs (map snd evs) (reset_state an) of
         Inl e \<Rightarrow> Inl (Replay_abort e)
       | Inr an' \<Rightarrow> Inr (length evs, an', if oracle then Some (capturable (summaries an')) else None))"
    unfolding replay_def args
    by (simp add: read_header_bytes replay_loop_events [OF assms(1,2)] split: sum.split)
  then show ?thesis unfolding w by auto
qed

lemma decimal_7: "decimal 7 = ''7''"
  by (subst decimal.simps) (simp add: char_of_def bit_0)

theorem trace_file_roundtrip_witness:
  "\<exists>bs. closed_files (writer_close (write_all [([0, 0, 0, 1], demo_alloc)]
      (writer_open (\<lambda>_. True) (1, 5) 7 ''t.%p'' \<lparr>g_file = None, closed_files = []\<rparr>))) = [(''t.7'', bs)] \<and>
    (\<exists>an. replay demo_knobs (\<lambda>_. demo_link) demo_segs (\<lambda>_. Some (bs @ [1, 2])) [''t.7''] (analysis_start demo_cg (snd demo_table)) =
       Inr (1, an, None))"
proof -
  have p: "resolve_path 7 ''t.%p'' = Some ''t.7''" by (simp add: resolve_path_def decimal_7 Let_def)
  note rt = trace_file_roundtrip [of "[([0, 0, 0, 1], demo_alloc)]" "[1, 2]" 7 "''t.%p''" "''t.7''" "\<lambda>_. True" _ "(1, 5)"
      "\<lparr>g_file = None, closed_files = []\<rparr>" demo_knobs "\<lambda>_. demo_link" demo_segs False "analysis_start demo_cg (snd demo_table)",
      OF _ _ p _ _ refl, simplified]
  have k: "demo_knobs\<lparr>g_oracle_mode := False\<rparr> = demo_knobs" by (simp add: demo_knobs_def)
  have r: "reset_state (analysis_start demo_cg (snd demo_table)) = analysis_start demo_cg (snd demo_table)"
    by (simp add: reset_state_def analysis_start_def)
  obtain an where "process_event demo_knobs (\<lambda>_. demo_link) demo_segs demo_alloc (analysis_start demo_cg (snd demo_table)) = Inr an"
    using an_run_ok [OF demo_start_ok, of "[Event demo_alloc]" demo_knobs "\<lambda>_. demo_link" demo_segs]
    by (auto simp: demo_alloc_def split: sum.splits)
  then show ?thesis using rt unfolding k r by auto
qed

end
