(* ===== verification/Shadow.thy ===== *)
theory Shadow
  imports Open_Addressing Segment
begin

text \<open>
  \<open>src/src/shadow/shadow.cpp\<close>: the validator's table of the live chunks the compiled routines
  have handed out, an open-addressing table with backward-shift deletion.  \<open>abort\<close> is an error
  value; the deletion's loops are partial functions, since they end only when they meet a free
  slot.  \<open>is_managed\<close> reads the segment state, the caller's thread id is an argument.  The table
  is an interpretation of \<open>erasable\<close>; it refines the map of live chunks.
\<close>

section \<open>The table\<close>

record ShadowEntry =
  sh_ptr :: addr
  sh_size :: u64
  sh_alloc_id :: CallSiteID
  sh_alloc_tid :: u32

datatype shadow_error =
    Null_alloc
  | Misaligned_alloc addr
  | Dup_alloc addr ShadowEntry
  | Shadow_table_full addr

definition SHADOW_SIZE :: u64 where
  "SHADOW_SIZE = 131072"

definition hash_ptr :: "addr \<Rightarrow> u64" where
  "hash_ptr p =
     (let v = p;
          v = v XOR drop_bit 21 v;
          v = v * 0xbf58476d1ce4e5b9;
          v = v XOR drop_bit 27 v
      in v AND (SHADOW_SIZE - 1))"

definition next_slot :: "u64 \<Rightarrow> u64" where
  "next_slot i = (i + 1) AND (SHADOW_SIZE - 1)"

definition shadow_empty :: "ShadowEntry list" where
  "shadow_empty = replicate 131072 \<lparr>sh_ptr = 0, sh_size = 0, sh_alloc_id = 0, sh_alloc_tid = 0\<rparr>"

function alloc_scan :: "addr \<Rightarrow> ShadowEntry list \<Rightarrow> u64 \<Rightarrow> nat \<Rightarrow> shadow_error + u64" where
  "alloc_scan p t i scanned =
     (if sh_ptr (t ! unat i) = 0 then Inr i
      else if sh_ptr (t ! unat i) = p then Inl (Dup_alloc p (t ! unat i))
      else if unat SHADOW_SIZE \<le> scanned + 1 then Inl (Shadow_table_full p)
      else alloc_scan p t (next_slot i) (scanned + 1))"
  by pat_completeness auto
termination
  by (relation "measure (\<lambda>(p, t, i, scanned). unat SHADOW_SIZE - scanned)") simp_all

definition validate_alloc ::
    "seg_state \<Rightarrow> u32 \<Rightarrow> CallSiteID \<Rightarrow> u64 \<Rightarrow> addr \<Rightarrow> ShadowEntry list \<Rightarrow> shadow_error + ShadowEntry list" where
  "validate_alloc st tid cs sz p t =
     (if p = 0 then Inl Null_alloc
      else if \<not> is_managed (seg_of p) st then Inr t
      else if p mod 16 \<noteq> 0 then Inl (Misaligned_alloc p)
      else case alloc_scan p t (hash_ptr p) 0 of
             Inl e \<Rightarrow> Inl e
           | Inr i \<Rightarrow> Inr (t[unat i := \<lparr>sh_ptr = p, sh_size = sz, sh_alloc_id = cs, sh_alloc_tid = tid\<rparr>]))"

function free_scan :: "addr \<Rightarrow> ShadowEntry list \<Rightarrow> u64 \<Rightarrow> nat \<Rightarrow> u64 option" where
  "free_scan p t i scanned =
     (if sh_ptr (t ! unat i) = p then Some i
      else if sh_ptr (t ! unat i) = 0 then None
      else if unat SHADOW_SIZE \<le> scanned + 1 then None
      else free_scan p t (next_slot i) (scanned + 1))"
  by pat_completeness auto
termination
  by (relation "measure (\<lambda>(p, t, i, scanned). unat SHADOW_SIZE - scanned)") simp_all

declare alloc_scan.simps [simp del] free_scan.simps [simp del]

partial_function (option) free_slot :: "ShadowEntry list \<Rightarrow> u64 \<Rightarrow> u64 option" where
  "free_slot t k = (if sh_ptr (t ! unat k) \<noteq> 0 then free_slot t (next_slot k) else Some k)"

partial_function (option) shift_loop :: "ShadowEntry list \<Rightarrow> u64 \<Rightarrow> ShadowEntry list option" where
  "shift_loop t j =
     (if sh_ptr (t ! unat j) \<noteq> 0
      then (let e = t ! unat j; t = t[unat j := e\<lparr>sh_ptr := 0\<rparr>]
            in case free_slot t (hash_ptr (sh_ptr e)) of
                 None \<Rightarrow> None
               | Some k \<Rightarrow> shift_loop (t[unat k := e]) (next_slot j))
      else Some t)"

definition validate_free :: "addr \<Rightarrow> ShadowEntry list \<Rightarrow> ShadowEntry list option" where
  "validate_free p t =
     (if p = 0 then Some t
      else case free_scan p t (hash_ptr p) 0 of
             None \<Rightarrow> Some t
           | Some i \<Rightarrow> shift_loop (t[unat i := (t ! unat i)\<lparr>sh_ptr := 0\<rparr>]) (next_slot i))"

section \<open>Interpretation\<close>

definition sh_key :: "ShadowEntry \<Rightarrow> addr option" where
  "sh_key e = (if sh_ptr e = 0 then None else Some (sh_ptr e))"

lemma sh_key_simps [simp]:
  "sh_key e = None \<longleftrightarrow> sh_ptr e = 0" "sh_key e = Some p \<longleftrightarrow> p \<noteq> 0 \<and> sh_ptr e = p"
  by (auto simp: sh_key_def)

lemma unat_and_131071: "unat (x AND (SHADOW_SIZE - 1)) = unat x mod 131072"
proof -
  have "SHADOW_SIZE - 1 = mask 17" by (simp add: SHADOW_SIZE_def mask_eq_exp_minus_1)
  then show ?thesis by (simp add: unat_and_mask)
qed

lemma hash_ptr_less: "unat (hash_ptr p) < 131072"
  by (simp add: hash_ptr_def unat_and_131071 Let_def)

interpretation sh: erasable 131072 "\<lambda>p. unat (hash_ptr p)" sh_key "\<lambda>e. e\<lparr>sh_ptr := 0\<rparr>"
  by unfold_locales (simp_all add: hash_ptr_less)

definition shadow_map :: "ShadowEntry list \<Rightarrow> addr \<Rightarrow> ShadowEntry option" where
  "shadow_map t = sh.entry_of t"

definition shadow_inv :: "ShadowEntry list \<Rightarrow> bool" where
  "shadow_inv t \<longleftrightarrow> sh.probe_inv t"

lemma next_slot_slot:
  assumes "unat i = sh.slot p d"
  shows "unat (next_slot i) = sh.slot p (Suc d)"
proof -
  have "unat i < 131072" using assms sh.slot_less by simp
  then have "unat (i + 1) = unat i + 1" by (intro unat_Suc_no_wrap) simp
  then have "unat (next_slot i) = (unat i + 1) mod 131072" by (simp add: next_slot_def unat_and_131071)
  then show ?thesis using assms by (simp add: sh.slot_def mod_Suc_eq)
qed

lemma hash_slot: "unat (hash_ptr p) = sh.slot p 0"
  using hash_ptr_less [of p] by (simp add: sh.slot_def)

lemma size_131072: "unat SHADOW_SIZE = 131072"
  by (simp add: SHADOW_SIZE_def)

section \<open>The probes\<close>

lemma alloc_scan_eq:
  assumes "p \<noteq> 0" and "m < 131072" and "unat i = sh.slot p m" and "\<And>j. j < m \<Longrightarrow> \<not> sh.hit t p j"
  shows "alloc_scan p t i m =
    (case sh.probe t p of
       None \<Rightarrow> Inl (Shadow_table_full p)
     | Some d \<Rightarrow> (if sh_ptr (t ! sh.slot p d) = 0 then Inr (of_nat (sh.slot p d)) else Inl (Dup_alloc p (t ! sh.slot p d))))"
  using assms(2-4)
proof (induction "131072 - m" arbitrary: m i rule: less_induct)
  case less
  show ?case
  proof (cases "sh.hit t p m")
    case True
    have "sh.probe t p = Some m" using less.prems True by (intro sh.probe_SomeI) auto
    moreover have "of_nat (sh.slot p m) = i" using less.prems(2) [symmetric] by simp
    ultimately show ?thesis using True assms(1) less.prems(2)
      by (subst alloc_scan.simps) (auto simp: sh.hit_def)
  next
    case False
    then have e: "sh_ptr (t ! sh.slot p m) \<noteq> 0" "sh_ptr (t ! sh.slot p m) \<noteq> p"
      using assms(1) by (auto simp: sh.hit_def)
    show ?thesis
    proof (cases "Suc m < 131072")
      case True
      have "alloc_scan p t (next_slot i) (Suc m) = (case sh.probe t p of
         None \<Rightarrow> Inl (Shadow_table_full p)
       | Some d \<Rightarrow> (if sh_ptr (t ! sh.slot p d) = 0 then Inr (of_nat (sh.slot p d)) else Inl (Dup_alloc p (t ! sh.slot p d))))"
        using less.prems True False
        by (intro less.hyps next_slot_slot) (auto simp: less_Suc_eq)
      then show ?thesis using e less.prems(2) True by (subst alloc_scan.simps) (simp add: size_131072)
    next
      case no: False
      then have "sh.probe t p = None" using less.prems(3) False by (intro sh.probe_last [of m]) auto
      then show ?thesis using e less.prems(2) no by (subst alloc_scan.simps) (simp add: size_131072)
    qed
  qed
qed

lemma free_scan_eq:
  assumes "p \<noteq> 0" and "m < 131072" and "unat i = sh.slot p m" and "\<And>j. j < m \<Longrightarrow> \<not> sh.hit t p j"
  shows "free_scan p t i m =
    (case sh.probe t p of
       None \<Rightarrow> None
     | Some d \<Rightarrow> (if sh_ptr (t ! sh.slot p d) = 0 then None else Some (of_nat (sh.slot p d))))"
  using assms(2-4)
proof (induction "131072 - m" arbitrary: m i rule: less_induct)
  case less
  show ?case
  proof (cases "sh.hit t p m")
    case True
    have "sh.probe t p = Some m" using less.prems True by (intro sh.probe_SomeI) auto
    moreover have "of_nat (sh.slot p m) = i" using less.prems(2) [symmetric] by simp
    ultimately show ?thesis using True assms(1) less.prems(2)
      by (subst free_scan.simps) (auto simp: sh.hit_def)
  next
    case False
    then have e: "sh_ptr (t ! sh.slot p m) \<noteq> 0" "sh_ptr (t ! sh.slot p m) \<noteq> p"
      using assms(1) by (auto simp: sh.hit_def)
    show ?thesis
    proof (cases "Suc m < 131072")
      case True
      have "free_scan p t (next_slot i) (Suc m) = (case sh.probe t p of
         None \<Rightarrow> None
       | Some d \<Rightarrow> (if sh_ptr (t ! sh.slot p d) = 0 then None else Some (of_nat (sh.slot p d))))"
        using less.prems True False
        by (intro less.hyps next_slot_slot) (auto simp: less_Suc_eq)
      then show ?thesis using e less.prems(2) True by (subst free_scan.simps) (simp add: size_131072)
    next
      case no: False
      then have "sh.probe t p = None" using less.prems(3) False by (intro sh.probe_last [of m]) auto
      then show ?thesis using e less.prems(2) no by (subst free_scan.simps) (simp add: size_131072)
    qed
  qed
qed

lemma free_slot_eq:
  assumes "sh.first_free t p = Some d" and "m \<le> d" and "unat i = sh.slot p m"
  shows "free_slot t i = Some (of_nat (sh.slot p d))"
  using assms(2,3)
proof (induction "d - m" arbitrary: m i)
  case 0
  then have "m = d" by simp
  then have "of_nat (sh.slot p d) = i" using 0(3) [symmetric] by simp
  then show ?case using sh.first_free_SomeD(2) [OF assms(1)] 0 \<open>m = d\<close> by (subst free_slot.simps) simp
next
  case (Suc x)
  then have "m < d" by simp
  then have "sh_ptr (t ! unat i) \<noteq> 0" using sh.first_free_SomeD(3) [OF assms(1)] Suc.prems(2) by simp
  moreover have "free_slot t (next_slot i) = Some (of_nat (sh.slot p d))"
    using Suc.hyps \<open>m < d\<close> next_slot_slot [OF Suc.prems(2)] by (intro Suc.hyps(1) [of "Suc m"]) simp_all
  ultimately show ?case by (subst free_slot.simps) simp
qed

section \<open>Deletion and refinement\<close>

lemma shift_loop_ok:
  assumes "sh.shifting z a t" and "unat j < 131072" and "sh.off z (unat j) = a"
  shows "\<exists>t'. shift_loop t j = Some t' \<and> sh.probe_inv t' \<and>
    (\<forall>e. sh_key e \<noteq> None \<longrightarrow> (\<exists>i < 131072. t' ! i = e) = (\<exists>i < 131072. t ! i = e))"
  using assms
proof (induction "131071 - a" arbitrary: a t j rule: less_induct)
  case less
  note sh = less.prems(1) and j = less.prems(2,3)
  have z: "z < 131072" using sh by (simp add: sh.shifting_def)
  note stop = sh.shifting_stop [OF sh j]
  show ?case
  proof (cases "sh_key (t ! unat j) = None")
    case True
    then have "unat j = z" using stop by blast
    then have "a = 131071" using sh.off_self [OF z] j(2) by simp
    then have "sh.probe_inv t" using sh.shifting_done [OF sh] by simp
    moreover have "shift_loop t j = Some t" using True by (subst shift_loop.simps) simp
    ultimately show ?thesis by blast
  next
    case False
    then obtain p where p: "sh_key (t ! unat j) = Some p" by blast
    then have pk: "sh_ptr (t ! unat j) = p" "p \<noteq> 0" by simp_all
    let ?t = "t[unat j := (t ! unat j)\<lparr>sh_ptr := 0\<rparr>]"
    obtain d where d: "sh.first_free ?t p = Some d"
      and s: "sh.shifting z (Suc a) (?t[sh.slot p d := t ! unat j])"
      and e: "\<And>e. sh_key e \<noteq> None \<Longrightarrow>
        (\<exists>i < 131072. ?t[sh.slot p d := t ! unat j] ! i = e) = (\<exists>i < 131072. t ! i = e)"
      using sh.shifting_step [OF sh j p] by blast
    have jz: "unat j \<noteq> z" using False stop by blast
    have n: "unat (next_slot j) = Suc (unat j) mod 131072"
    proof -
      have "unat (j + 1) = unat j + 1" using j(1) by (intro unat_Suc_no_wrap) simp
      then show ?thesis by (simp add: next_slot_def unat_and_131071)
    qed
    have "sh.off z (unat (next_slot j)) = Suc a"
      using sh.off_next [OF z j(1) jz] j(2) n by simp
    moreover have "Suc a < 131072" using s by (simp add: sh.shifting_def)
    ultimately have lt: "131071 - Suc a < 131071 - a" by simp
    obtain t' where t': "shift_loop (?t[sh.slot p d := t ! unat j]) (next_slot j) = Some t'" "sh.probe_inv t'"
      "\<forall>e. sh_key e \<noteq> None \<longrightarrow> (\<exists>i < 131072. t' ! i = e) = (\<exists>i < 131072. ?t[sh.slot p d := t ! unat j] ! i = e)"
      using less.hyps [OF lt s _ \<open>sh.off z (unat (next_slot j)) = Suc a\<close>] n by auto
    have "free_slot ?t (hash_ptr p) = Some (of_nat (sh.slot p d))"
      by (rule free_slot_eq [OF d _ hash_slot]) simp
    moreover have "unat (of_nat (sh.slot p d) :: u64) = sh.slot p d"
      using sh.slot_less [of p d] by (simp add: unat_of_nat)
    ultimately have "shift_loop t j = Some t'" using t'(1) pk by (subst shift_loop.simps) (simp add: Let_def)
    moreover have "\<forall>e. sh_key e \<noteq> None \<longrightarrow> (\<exists>i < 131072. t' ! i = e) = (\<exists>i < 131072. t ! i = e)"
    proof (intro allI impI)
      fix x
      assume x: "sh_key x \<noteq> None"
      show "(\<exists>i < 131072. t' ! i = x) = (\<exists>i < 131072. t ! i = x)"
        by (rule trans [OF t'(3) [rule_format, OF x] e [OF x]])
    qed
    ultimately show ?thesis using t'(2) by blast
  qed
qed

lemma validate_free_refines:
  assumes inv: "shadow_inv t" and room: "card (dom (shadow_map t)) < 131072"
  shows "\<exists>t'. validate_free p t = Some t' \<and> shadow_inv t' \<and> shadow_map t' = (shadow_map t)(p := None)"
proof -
  note pi = inv [unfolded shadow_inv_def]
  have keys: "shadow_map t q = Some e \<longleftrightarrow> (\<exists>i < 131072. t ! i = e \<and> sh_key e = Some q)" for q e
    unfolding shadow_map_def by (rule sh.entry_of_iff [OF pi])
  have absent: "validate_free p t = Some t \<Longrightarrow> shadow_map t p = None \<Longrightarrow> ?thesis"
    using inv by (intro exI [of _ t]) (auto simp: fun_upd_idem)
  show ?thesis
  proof (cases "p = 0")
    case True
    have "shadow_map t 0 = None" using keys [of 0] by (cases "shadow_map t 0") auto
    then show ?thesis using True by (intro absent) (simp_all add: validate_free_def)
  next
    case p0: False
    note fs = free_scan_eq [OF p0, of 0 "hash_ptr p" t, OF _ hash_slot]
    show ?thesis
    proof (cases "shadow_map t p")
      case None
      have "free_scan p t (hash_ptr p) 0 = None"
        using fs None sh.probe_SomeD(2) [of t p] unfolding shadow_map_def sh.entry_of_def
        by (auto simp: sh.hit_def p0 split: option.splits if_splits)
      then show ?thesis using None by (intro absent) (simp_all add: validate_free_def p0)
    next
      case (Some e)
      then obtain d where d: "sh.probe t p = Some d" "sh_key (t ! sh.slot p d) = Some p"
        unfolding shadow_map_def sh.entry_of_def by (auto split: option.splits if_splits)
      let ?i = "sh.slot p d" and ?t = "t[sh.slot p d := (t ! sh.slot p d)\<lparr>sh_ptr := 0\<rparr>]"
      have i: "?i < 131072" by (rule sh.slot_less)
      have len: "length t = 131072" using pi by (simp add: sh.probe_inv_def)
      have w: "unat (of_nat ?i :: u64) = ?i" using i by (simp add: unat_of_nat)
      have scan: "free_scan p t (hash_ptr p) 0 = Some (of_nat ?i)" using fs d p0 by simp
      obtain j where j: "j < 131072" "sh_key (t ! j) = None"
        using sh.card_full [OF pi] room unfolding shadow_map_def by (metis less_irrefl)
      then have "j \<noteq> ?i" using d(2) by auto
      then obtain z where z: "z < 131072" "z \<noteq> ?i" "sh_key (t ! z) = None"
        "\<And>j. j < 131072 \<Longrightarrow> sh.off z ?i < sh.off z j \<Longrightarrow> j \<noteq> z \<Longrightarrow> sh_key (t ! j) \<noteq> None"
        using sh.cluster_end [OF i j(1) _ j(2)] by blast
      have st: "sh.shifting z (Suc (sh.off z ?i)) ?t"
        by (rule sh.shifting_start [OF pi i z(1,3,4)]) (use z(2) in auto)
      have n: "unat (next_slot (of_nat ?i)) = Suc ?i mod 131072"
        using next_slot_slot [OF w] by (simp add: sh.slot_Suc)
      have off: "sh.off z (unat (next_slot (of_nat ?i))) = Suc (sh.off z ?i)"
        using sh.off_next [OF z(1) i] z(2) n by simp
      obtain t' where t': "shift_loop ?t (next_slot (of_nat ?i)) = Some t'" "sh.probe_inv t'"
        "\<forall>e. sh_key e \<noteq> None \<longrightarrow> (\<exists>i < 131072. t' ! i = e) = (\<exists>i < 131072. ?t ! i = e)"
        using shift_loop_ok [OF st _ off] n by auto
      have keys': "shadow_map t' q = Some x \<longleftrightarrow> (\<exists>i < 131072. ?t ! i = x \<and> sh_key x = Some q)" for q x
        unfolding shadow_map_def sh.entry_of_iff [OF t'(2)] using t'(3) by force
      have "shadow_map t' q = Some x \<longleftrightarrow> q \<noteq> p \<and> shadow_map t q = Some x" for q x
      proof -
        have "(\<exists>i < 131072. ?t ! i = x \<and> sh_key x = Some q) \<longleftrightarrow>
            (\<exists>i < 131072. i \<noteq> ?i \<and> t ! i = x \<and> sh_key x = Some q)"
        proof -
          have "(?t ! i = x \<and> sh_key x = Some q) = (i \<noteq> ?i \<and> t ! i = x \<and> sh_key x = Some q)" if "i < 131072" for i
            using that len by (cases "i = ?i") auto
          then show ?thesis by blast
        qed
        moreover have "(\<exists>i < 131072. i \<noteq> ?i \<and> t ! i = x \<and> sh_key x = Some q) \<longleftrightarrow>
            q \<noteq> p \<and> (\<exists>i < 131072. t ! i = x \<and> sh_key x = Some q)"
          using sh.keys_unique [OF pi _ i] d(2) by fastforce
        ultimately show ?thesis unfolding keys' keys by simp
      qed
      then have "shadow_map t' = (shadow_map t)(p := None)"
        by (intro ext) (metis fun_upd_apply not_Some_eq)
      moreover have "validate_free p t = Some t'"
        using t'(1) scan w p0 by (simp add: validate_free_def)
      ultimately show ?thesis using t'(2) by (simp add: shadow_inv_def)
    qed
  qed
qed

lemma validate_alloc_refines:
  assumes inv: "shadow_inv t" and p: "p \<noteq> 0" "is_managed (seg_of p) st" "p mod 16 = 0"
    and room: "card (dom (shadow_map t)) < 131072"
  shows "case shadow_map t p of
      Some e \<Rightarrow> validate_alloc st tid cs sz p t = Inl (Dup_alloc p e)
    | None \<Rightarrow> \<exists>t'. validate_alloc st tid cs sz p t = Inr t' \<and> shadow_inv t' \<and>
        shadow_map t' = (shadow_map t)(p \<mapsto> \<lparr>sh_ptr = p, sh_size = sz, sh_alloc_id = cs, sh_alloc_tid = tid\<rparr>)"
proof -
  note pi = inv [unfolded shadow_inv_def]
  obtain d where d: "sh.probe t p = Some d"
    using sh.probe_room [OF pi sh.dom_finite [OF pi]] room unfolding shadow_map_def by blast
  note scan = alloc_scan_eq [OF p(1), of 0 "hash_ptr p" t, OF _ hash_slot, simplified, unfolded d option.case]
  have hit: "sh_ptr (t ! sh.slot p d) = 0 \<or> sh_ptr (t ! sh.slot p d) = p"
    using sh.probe_SomeD(2) [OF d] by (auto simp: sh.hit_def)
  have w: "unat (of_nat (sh.slot p d) :: u64) = sh.slot p d"
    using sh.slot_less [of p d] by (simp add: unat_of_nat)
  have m: "shadow_map t p = (if sh_ptr (t ! sh.slot p d) = 0 then None else Some (t ! sh.slot p d))"
    using hit p(1) by (auto simp: shadow_map_def sh.entry_of_def d)
  show ?thesis
  proof (cases "sh_ptr (t ! sh.slot p d) = 0")
    case True
    let ?e = "\<lparr>sh_ptr = p, sh_size = sz, sh_alloc_id = cs, sh_alloc_tid = tid\<rparr>"
    have k: "sh_key ?e = Some p" using p(1) by simp
    have "shadow_map (t[sh.slot p d := ?e]) = (shadow_map t)(p \<mapsto> ?e)"
      unfolding shadow_map_def using sh.entry_of_update [OF pi d k] by (intro ext) simp
    then show ?thesis using True m p w scan sh.probe_inv_update [OF pi d k]
      by (simp add: validate_alloc_def shadow_inv_def)
  next
    case False
    then show ?thesis using m p scan by (simp add: validate_alloc_def)
  qed
qed

text \<open>A run of the validator, and the same run on the map of live chunks.\<close>

datatype shadow_op =
    Sh_alloc u32 CallSiteID u64 addr
  | Sh_free addr

fun shadow_run :: "seg_state \<Rightarrow> shadow_op list \<Rightarrow> ShadowEntry list \<Rightarrow> (shadow_error + ShadowEntry list) option" where
  "shadow_run st [] t = Some (Inr t)"
| "shadow_run st (Sh_alloc tid cs sz p # ops) t =
     (case validate_alloc st tid cs sz p t of
        Inl e \<Rightarrow> Some (Inl e)
      | Inr t \<Rightarrow> shadow_run st ops t)"
| "shadow_run st (Sh_free p # ops) t =
     (case validate_free p t of None \<Rightarrow> None | Some t \<Rightarrow> shadow_run st ops t)"

fun live_run :: "seg_state \<Rightarrow> shadow_op list \<Rightarrow> (addr \<Rightarrow> ShadowEntry option) \<Rightarrow>
    shadow_error + (addr \<Rightarrow> ShadowEntry option)" where
  "live_run st [] m = Inr m"
| "live_run st (Sh_alloc tid cs sz p # ops) m =
     (if p = 0 then Inl Null_alloc
      else if \<not> is_managed (seg_of p) st then live_run st ops m
      else if p mod 16 \<noteq> 0 then Inl (Misaligned_alloc p)
      else case m p of
             Some e \<Rightarrow> Inl (Dup_alloc p e)
           | None \<Rightarrow> live_run st ops
               (m(p \<mapsto> \<lparr>sh_ptr = p, sh_size = sz, sh_alloc_id = cs, sh_alloc_tid = tid\<rparr>)))"
| "live_run st (Sh_free p # ops) m = live_run st ops (m(p := None))"

fun shadow_allocs :: "shadow_op list \<Rightarrow> nat" where
  "shadow_allocs [] = 0"
| "shadow_allocs (Sh_alloc tid cs sz p # ops) = Suc (shadow_allocs ops)"
| "shadow_allocs (Sh_free p # ops) = shadow_allocs ops"

lemma shadow_run_refines:
  assumes "shadow_inv t" and "card (dom (shadow_map t)) + shadow_allocs ops < 131072"
  shows "map_option (map_sum id shadow_map) (shadow_run st ops t) = Some (live_run st ops (shadow_map t))"
  using assms
proof (induction st ops t rule: shadow_run.induct)
  case (1 st t)
  then show ?case by simp
next
  case (2 st tid cs sz p ops t)
  have fin: "finite (dom (shadow_map t))"
    using sh.dom_finite "2.prems"(1) by (simp add: shadow_inv_def shadow_map_def)
  consider "p = 0" | "p \<noteq> 0" "\<not> is_managed (seg_of p) st" | "p \<noteq> 0" "is_managed (seg_of p) st" "p mod 16 \<noteq> 0"
    | "p \<noteq> 0" "is_managed (seg_of p) st" "p mod 16 = 0"
    by metis
  then show ?case
  proof cases
    case 4
    have room: "card (dom (shadow_map t)) < 131072" using "2.prems"(2) by simp
    note v = validate_alloc_refines [OF "2.prems"(1) 4 room, of tid cs sz]
    show ?thesis
    proof (cases "shadow_map t p")
      case None
      then obtain t' where t': "validate_alloc st tid cs sz p t = Inr t'" "shadow_inv t'"
        "shadow_map t' = (shadow_map t)(p \<mapsto> \<lparr>sh_ptr = p, sh_size = sz, sh_alloc_id = cs, sh_alloc_tid = tid\<rparr>)"
        using v by auto
      have "card (dom (shadow_map t')) \<le> Suc (card (dom (shadow_map t)))"
        using fin by (simp add: t'(3) card_insert_if)
      then have "map_option (map_sum id shadow_map) (shadow_run st ops t') = Some (live_run st ops (shadow_map t'))"
        using "2.prems"(2) by (intro "2.IH" [OF t'(1,2)]) simp
      then show ?thesis unfolding shadow_run.simps live_run.simps t'(1) t'(3) using 4 None by (simp add: id_def)
    next
      case (Some e)
      then show ?thesis using v 4 by simp
    qed
  qed (use 2 in \<open>simp_all add: validate_alloc_def\<close>)
next
  case (3 st p ops t)
  have fin: "finite (dom (shadow_map t))"
    using sh.dom_finite "3.prems"(1) by (simp add: shadow_inv_def shadow_map_def)
  have "card (dom (shadow_map t)) < 131072" using "3.prems"(2) by simp
  then obtain t' where t': "validate_free p t = Some t'" "shadow_inv t'" "shadow_map t' = (shadow_map t)(p := None)"
    using validate_free_refines [OF "3.prems"(1)] by blast
  have "card (dom (shadow_map t')) \<le> card (dom (shadow_map t))"
    using fin unfolding t'(3) by (intro card_mono) auto
  then have "map_option (map_sum id shadow_map) (shadow_run st ops t') = Some (live_run st ops (shadow_map t'))"
    using "3.prems"(2) by (intro "3.IH" [OF t'(1,2)]) simp
  then show ?case unfolding shadow_run.simps live_run.simps t'(1) t'(3) by (simp add: id_def)
qed

lemma shadow_empty_inv: "shadow_inv shadow_empty" "shadow_map shadow_empty = Map.empty"
proof -
  show i: "shadow_inv shadow_empty"
    unfolding shadow_inv_def by (rule sh.probe_inv_empty) (simp_all add: shadow_empty_def)
  show "shadow_map shadow_empty = Map.empty"
    using sh.entry_of_None_iff [OF i [unfolded shadow_inv_def]]
    by (intro ext) (simp add: shadow_map_def shadow_empty_def)
qed

text \<open>
  C24: In runs with fewer than 131072 recorded allocations the validator ends every operation and
  behaves as the map of live chunks: it aborts exactly when a served pointer is null, misaligned
  or already live, naming the entry it collides with, it ignores unmanaged pointers, and a free
  forgets its pointer and no other.
\<close>

theorem shadow_refines_live_map:
  assumes "shadow_allocs ops < 131072"
  shows "map_option (map_sum id shadow_map) (shadow_run st ops shadow_empty) = Some (live_run st ops Map.empty)"
  using shadow_run_refines [OF shadow_empty_inv(1)] assms by (simp add: shadow_empty_inv(2))

theorem shadow_refines_live_map_witness:
  "map_option (map_sum id shadow_map) (shadow_run demo_segs
     [Sh_alloc 1 7 48 0x200080, Sh_free 0x200080, Sh_free 0x300000, Sh_alloc 2 8 48 0x200080, Sh_alloc 1 7 48 0x200080]
     shadow_empty) =
   Some (Inl (Dup_alloc 0x200080 \<lparr>sh_ptr = 0x200080, sh_size = 48, sh_alloc_id = 8, sh_alloc_tid = 2\<rparr>))"
proof -
  have "is_managed (seg_of 0x200080) demo_segs"
    by (simp add: demo_segs_def is_managed_def seg_of_def SEGMENT_MASK_def SEGMENT_SIZE_def SEGMENT_SHIFT_def
      PM_SLOTS_def push_bit_eq_mult drop_bit_eq_div Let_def word_le_nat_alt)
  then show ?thesis
    by (subst shadow_refines_live_map) simp_all
qed

end
