(* ===== verification/Reclaim.thy ===== *)
theory Reclaim
  imports Convergence
begin

text \<open>
  \<open>src/src/deopt/deopt.cpp\<close>: the deopt queue, the threads' epochs and the reclamation of code
  pages, together with the analysis state it drives.  The queue is an interpretation of
  \<open>bounded_queue\<close>.  A call of \<open>handle\<close> or \<open>drain_pending\<close> is a function here; \<open>Safe_Point\<close>
  looks at their interleaving with running threads.
\<close>

section \<open>State and operations\<close>

record DequeuedDeopt =
  dq_id :: CallSiteID
  dq_page :: addr
  dq_reason :: DeoptReason

record PendingReclaim =
  pr_page :: addr
  pr_epoch :: u64

definition MAX_PENDING :: nat where
  "MAX_PENDING = 256"

definition DEOPT_QUEUE_CAP :: u64 where
  "DEOPT_QUEUE_CAP = 256"

text \<open>\<open>thread_list\<close> holds the registered threads, newest first; \<open>th_epochs\<close> their epochs.\<close>

record deopt_state =
  g_epoch :: u64
  g_enabled :: bool
  g_pending :: "PendingReclaim list"
  g_deopt_queue :: "DequeuedDeopt list"
  g_deopt_head :: u64
  g_deopt_tail :: u64
  thread_list :: "u32 list"
  th_epochs :: "u32 \<Rightarrow> u64"

definition deopt_start :: deopt_state where
  "deopt_start =
     \<lparr>g_epoch = 0, g_enabled = True, g_pending = [],
      g_deopt_queue = replicate 256 \<lparr>dq_id = 0, dq_page = 0, dq_reason = ReasonNone\<rparr>,
      g_deopt_head = 0, g_deopt_tail = 0, thread_list = [], th_epochs = (\<lambda>_. 0)\<rparr>"

definition set_enabled :: "bool \<Rightarrow> deopt_state \<Rightarrow> deopt_state" where
  "set_enabled on st = st\<lparr>g_enabled := on\<rparr>"

definition register_thread :: "u32 \<Rightarrow> deopt_state \<Rightarrow> deopt_state" where
  "register_thread tid st = st\<lparr>thread_list := tid # thread_list st\<rparr>"

definition mark_safe_point :: "u32 \<Rightarrow> deopt_state \<Rightarrow> deopt_state" where
  "mark_safe_point tid st =
     (let st = (if tid \<notin> set (thread_list st) then register_thread tid st else st)
      in st\<lparr>th_epochs := (th_epochs st)(tid := g_epoch st)\<rparr>)"

definition dq_push :: "DequeuedDeopt \<Rightarrow> deopt_state \<Rightarrow> deopt_state" where
  "dq_push x st =
     (if g_deopt_tail st - g_deopt_head st < DEOPT_QUEUE_CAP
      then st\<lparr>g_deopt_queue := (g_deopt_queue st)[unat (g_deopt_tail st mod DEOPT_QUEUE_CAP) := x],
              g_deopt_tail := g_deopt_tail st + 1\<rparr>
      else st)"

definition dq_pop :: "deopt_state \<Rightarrow> (DequeuedDeopt \<times> deopt_state) option" where
  "dq_pop st =
     (if g_deopt_head st = g_deopt_tail st then None
      else Some (g_deopt_queue st ! unat (g_deopt_head st mod DEOPT_QUEUE_CAP),
                 st\<lparr>g_deopt_head := g_deopt_head st + 1\<rparr>))"

lemma dq_pop_measure:
  assumes "dq_pop st = Some (d, st')"
  shows "unat (g_deopt_tail st' - g_deopt_head st') < unat (g_deopt_tail st - g_deopt_head st)"
proof -
  let ?n = "g_deopt_tail st - g_deopt_head st"
  have ne: "?n \<noteq> 0" and st': "g_deopt_tail st' = g_deopt_tail st" "g_deopt_head st' = g_deopt_head st + 1"
    using assms by (auto simp: dq_pop_def split: if_splits)
  have e: "g_deopt_tail st' - g_deopt_head st' = ?n - 1" using st' by simp
  have "unat (?n - 1) = unat ?n - 1" using ne by (rule unat_minus_one)
  moreover have "0 < unat ?n" using ne by (simp add: unat_gt_0)
  ultimately show ?thesis unfolding e by linarith
qed

definition handle ::
    "CallSiteID \<Rightarrow> addr \<Rightarrow> DeoptReason \<Rightarrow> deopt_state \<Rightarrow> dispatch \<Rightarrow> deopt_state \<times> dispatch" where
  "handle cs page reason st d =
     (if \<not> g_enabled st then (st, d)
      else (dq_push \<lparr>dq_id = cs, dq_page = page, dq_reason = reason\<rparr> st, dispatch_revert cs d))"

function drain_queue :: "knobs \<Rightarrow> deopt_state \<Rightarrow> analysis \<Rightarrow> deopt_state \<times> analysis" where
  "drain_queue kn st an =
     (case dq_pop st of
        None \<Rightarrow> (st, an)
      | Some (d, st) \<Rightarrow>
          let an = reset_call_site kn (dq_id d) (dq_reason d) an;
              e = g_epoch st;
              st = st\<lparr>g_epoch := e + 1\<rparr>;
              st = (if length (g_pending st) < MAX_PENDING
                    then st\<lparr>g_pending := g_pending st @ [\<lparr>pr_page = dq_page d, pr_epoch = e\<rparr>]\<rparr> else st)
          in drain_queue kn st an)"
  by pat_completeness auto

termination
proof (relation "measure (\<lambda>(kn, st, an). unat (g_deopt_tail st - g_deopt_head st))", goal_cases)
  case (2 kn st an p d st1 x xa xb xc)
  then show ?case using dq_pop_measure [of st d st1] by (auto simp: Let_def)
qed simp

declare drain_queue.simps [simp del]

text \<open>The smallest epoch among the counter and the registered threads.\<close>

fun min_epoch_loop :: "(u32 \<Rightarrow> u64) \<Rightarrow> u32 list \<Rightarrow> u64 \<Rightarrow> u64" where
  "min_epoch_loop ep [] m = m"
| "min_epoch_loop ep (t # ts) m = min_epoch_loop ep ts (if ep t < m then ep t else m)"

fun reclaim_loop :: "u64 \<Rightarrow> PendingReclaim list \<Rightarrow> codegen_state \<Rightarrow> PendingReclaim list \<times> codegen_state" where
  "reclaim_loop m [] cg = ([], cg)"
| "reclaim_loop m (p # ps) cg =
     (if pr_epoch p < m then reclaim_loop m ps (reclaim (pr_page p) cg)
      else let (ps, cg) = reclaim_loop m ps cg in (p # ps, cg))"

definition drain_pending :: "knobs \<Rightarrow> deopt_state \<Rightarrow> analysis \<Rightarrow> deopt_state \<times> analysis" where
  "drain_pending kn st an =
     (let (st, an) = drain_queue kn st an
      in if g_pending st = [] then (st, an)
         else let m = min_epoch_loop (th_epochs st) (thread_list st) (g_epoch st);
                  (ps, cg) = reclaim_loop m (g_pending st) (an_codegen an)
              in (st\<lparr>g_pending := ps\<rparr>, an\<lparr>an_codegen := cg\<rparr>))"

section \<open>The queue\<close>

definition dq_contents :: "deopt_state \<Rightarrow> DequeuedDeopt list" where
  "dq_contents st = slice 256 (g_deopt_queue st) (g_deopt_head st) (g_deopt_tail st)"

definition dq_inv :: "deopt_state \<Rightarrow> bool" where
  "dq_inv st \<longleftrightarrow> length (g_deopt_queue st) = 256 \<and> unat (g_deopt_tail st - g_deopt_head st) \<le> 256"

lemma dvd_256: "(256::nat) dvd 2 ^ 64"
  by simp

lemma length_dq_contents [simp]: "length (dq_contents st) = unat (g_deopt_tail st - g_deopt_head st)"
  by (simp add: dq_contents_def)

lemma dq_slot: "unat (h mod DEOPT_QUEUE_CAP) = unat h mod 256"
  by (simp add: DEOPT_QUEUE_CAP_def unat_mod)

lemma dq_push_room:
  assumes "dq_inv st" and "length (dq_contents st) < 256"
  shows "dq_contents (dq_push x st) = dq_contents st @ [x]" and "dq_inv (dq_push x st)"
proof -
  have n: "unat (g_deopt_tail st - g_deopt_head st) < 256" using assms(2) by simp
  then have room: "g_deopt_tail st - g_deopt_head st < DEOPT_QUEUE_CAP"
    by (simp add: DEOPT_QUEUE_CAP_def word_less_nat_alt)
  have len: "length (g_deopt_queue st) = 256" using assms(1) by (simp add: dq_inv_def)
  have s: "slice 256 ((g_deopt_queue st)[unat (g_deopt_tail st) mod 256 := x]) (g_deopt_head st) (g_deopt_tail st + 1) =
      dq_contents st @ [x]"
    "unat (g_deopt_tail st + 1 - g_deopt_head st) = Suc (unat (g_deopt_tail st - g_deopt_head st))"
    using slice_push [OF dvd_256 _ len n] by (simp_all add: dq_contents_def)
  show "dq_contents (dq_push x st) = dq_contents st @ [x]"
    using room s(1) by (simp add: dq_push_def dq_slot dq_contents_def)
  show "dq_inv (dq_push x st)"
    using room s(2) n len by (simp add: dq_push_def dq_inv_def)
qed

lemma dq_push_full: "256 \<le> length (dq_contents st) \<Longrightarrow> dq_push x st = st"
  by (simp add: dq_push_def DEOPT_QUEUE_CAP_def word_less_nat_alt)

lemma dq_pop_first:
  assumes "dq_inv st" and "dq_contents st = x # xs"
  shows "dq_pop st = Some (x, st\<lparr>g_deopt_head := g_deopt_head st + 1\<rparr>)"
    and "dq_contents (st\<lparr>g_deopt_head := g_deopt_head st + 1\<rparr>) = xs"
    and "dq_inv (st\<lparr>g_deopt_head := g_deopt_head st + 1\<rparr>)"
proof -
  note sl = slice_pop [OF dvd_256 assms(2) [unfolded dq_contents_def]]
  show "dq_pop st = Some (x, st\<lparr>g_deopt_head := g_deopt_head st + 1\<rparr>)"
    using sl(1,2) by (simp add: dq_pop_def dq_slot)
  show "dq_contents (st\<lparr>g_deopt_head := g_deopt_head st + 1\<rparr>) = xs"
    using sl(3) by (simp add: dq_contents_def)
  have "Suc (length xs) \<le> 256"
    using assms(1) arg_cong [OF assms(2), of length] by (simp add: dq_inv_def)
  then show "dq_inv (st\<lparr>g_deopt_head := g_deopt_head st + 1\<rparr>)"
    using assms(1) sl(4) by (simp add: dq_inv_def)
qed

interpretation deoptq: bounded_queue dq_push dq_pop dq_contents dq_inv 256
proof
  fix st x xs
  assume "dq_inv st" and "dq_contents st = x # xs"
  from dq_pop_first [OF this]
  show "\<exists>q'. dq_pop st = Some (x, q') \<and> dq_contents q' = xs \<and> dq_inv q'" by blast
next
  fix st x
  assume "dq_inv st"
  then show "dq_inv (dq_push x st)"
    by (cases "length (dq_contents st) < 256") (auto simp: dq_push_room(2) dq_push_full)
next
  fix st
  assume "dq_contents st = []"
  then have "unat (g_deopt_tail st - g_deopt_head st) = 0"
    by (metis length_0_conv length_dq_contents)
  then show "dq_pop st = None" by (simp add: dq_pop_def unat_eq_0)
qed (auto simp: dq_push_room dq_push_full dq_inv_def)

section \<open>What a drain does\<close>

text \<open>One dequeued request: the site is reset and its page waits under the current epoch.\<close>

definition add_pending :: "addr \<Rightarrow> u64 \<Rightarrow> PendingReclaim list \<Rightarrow> PendingReclaim list" where
  "add_pending p e ps = (if length ps < MAX_PENDING then ps @ [\<lparr>pr_page = p, pr_epoch = e\<rparr>] else ps)"

lemma drain_queue_Nil:
  "dq_inv st \<Longrightarrow> dq_contents st = [] \<Longrightarrow> drain_queue kn st an = (st, an)"
  by (subst drain_queue.simps) (simp add: deoptq.pop_empty)

lemma drain_queue_Cons:
  assumes "dq_inv st" and "dq_contents st = d # ds"
  shows "drain_queue kn st an =
    drain_queue kn (st\<lparr>g_deopt_head := g_deopt_head st + 1, g_epoch := g_epoch st + 1,
        g_pending := add_pending (dq_page d) (g_epoch st) (g_pending st)\<rparr>)
      (reset_call_site kn (dq_id d) (dq_reason d) an)"
  by (subst drain_queue.simps) (simp add: dq_pop_first [OF assms] add_pending_def Let_def)

lemma dq_other_fields [simp]:
  "dq_contents (st\<lparr>g_epoch := e\<rparr>) = dq_contents st" "dq_inv (st\<lparr>g_epoch := e\<rparr>) = dq_inv st"
  "dq_contents (st\<lparr>g_pending := p\<rparr>) = dq_contents st" "dq_inv (st\<lparr>g_pending := p\<rparr>) = dq_inv st"
  "dq_contents (st\<lparr>g_epoch := e, g_pending := p\<rparr>) = dq_contents st" "dq_inv (st\<lparr>g_epoch := e, g_pending := p\<rparr>) = dq_inv st"
  by (simp_all add: dq_contents_def dq_inv_def)

fun pend_all :: "DequeuedDeopt list \<Rightarrow> u64 \<Rightarrow> PendingReclaim list \<Rightarrow> PendingReclaim list" where
  "pend_all [] e ps = ps"
| "pend_all (d # ds) e ps = pend_all ds (e + 1) (add_pending (dq_page d) e ps)"

lemma drain_queue_spec:
  assumes "dq_inv st"
  shows "\<exists>st'. drain_queue kn st an =
      (st', fold (\<lambda>d. reset_call_site kn (dq_id d) (dq_reason d)) (dq_contents st) an) \<and>
    dq_inv st' \<and> dq_contents st' = [] \<and> g_epoch st' = g_epoch st + of_nat (length (dq_contents st)) \<and>
    g_pending st' = pend_all (dq_contents st) (g_epoch st) (g_pending st) \<and>
    thread_list st' = thread_list st \<and> th_epochs st' = th_epochs st \<and> g_enabled st' = g_enabled st"
  using assms
proof (induction "dq_contents st" arbitrary: st an)
  case Nil
  then have c: "dq_contents st = []" by simp
  show ?case using drain_queue_Nil [OF Nil.prems c] Nil.prems
    by (intro exI [of _ st]) (simp add: c del: length_dq_contents)
next
  case (Cons d ds)
  note c = Cons.hyps(2) [symmetric]
  let ?st = "st\<lparr>g_deopt_head := g_deopt_head st + 1, g_epoch := g_epoch st + 1,
        g_pending := add_pending (dq_page d) (g_epoch st) (g_pending st)\<rparr>"
  have q: "dq_contents ?st = ds" "dq_inv ?st"
    using dq_pop_first(2,3) [OF Cons.prems c] by (simp_all add: dq_contents_def dq_inv_def)
  from Cons.hyps(1) [OF q(1) [symmetric] q(2), of "reset_call_site kn (dq_id d) (dq_reason d) an"]
  show ?case unfolding drain_queue_Cons [OF Cons.prems c] c q(1) by (auto simp del: length_dq_contents)
qed

lemma min_epoch_loop_less:
  "e < min_epoch_loop ep ts m \<longleftrightarrow> e < m \<and> (\<forall>t \<in> set ts. e < ep t)"
  by (induction ts arbitrary: m) auto

lemma reclaim_loop_spec:
  "reclaim_loop m ps cg = (filter (\<lambda>p. \<not> pr_epoch p < m) ps,
     fold (\<lambda>p. reclaim (pr_page p)) (filter (\<lambda>p. pr_epoch p < m) ps) cg)"
  by (induction ps arbitrary: cg) auto

lemma reset_call_site_codegen: "an_codegen (reset_call_site kn cs r an) = an_codegen an"
  "an_dispatch (reset_call_site kn cs r an) = an_dispatch an"
  by (simp_all add: reset_call_site_eq split: option.split)

lemma fold_reset_codegen: "an_codegen (fold (\<lambda>d. reset_call_site kn (f d) (g d)) ds an) = an_codegen an"
  by (induction ds arbitrary: an) (simp_all add: reset_call_site_codegen)

lemma pages_after_reclaims:
  "p \<in> set (cg_pages (fold (\<lambda>q. reclaim (pr_page q)) ps cg)) \<longleftrightarrow>
     p \<in> set (cg_pages cg) \<and> fst p \<notin> pr_page ` set ps"
  by (induction ps arbitrary: cg) (auto simp: reclaim_def)

text \<open>
  C20: \<open>drain_pending\<close> empties the queue and resets the queued sites in the order of their deopts.
  Of the pages then pending, it unmaps exactly those whose epoch every registered thread has
  left behind, keeps the others, and touches no other page.
\<close>

theorem drain_pending_reclaims:
  assumes "dq_inv st" and "drain_pending kn st an = (st', an')"
  shows "dq_contents st' = [] \<and> dq_inv st' \<and>
    summaries an' = summaries (fold (\<lambda>d. reset_call_site kn (dq_id d) (dq_reason d)) (dq_contents st) an) \<and>
    (let pending = pend_all (dq_contents st) (g_epoch st) (g_pending st);
         passed = (\<lambda>p. pr_epoch p < g_epoch st' \<and> (\<forall>t \<in> set (thread_list st). pr_epoch p < th_epochs st t))
     in g_pending st' = filter (\<lambda>p. \<not> passed p) pending \<and>
        set (cg_pages (an_codegen an')) =
          {c \<in> set (cg_pages (an_codegen an)). \<forall>p \<in> set pending. passed p \<longrightarrow> fst c \<noteq> pr_page p})"
proof -
  obtain st1 where d: "drain_queue kn st an =
      (st1, fold (\<lambda>d. reset_call_site kn (dq_id d) (dq_reason d)) (dq_contents st) an)"
    and s: "dq_inv st1" "dq_contents st1 = []" "g_pending st1 = pend_all (dq_contents st) (g_epoch st) (g_pending st)"
      "thread_list st1 = thread_list st" "th_epochs st1 = th_epochs st"
    using drain_queue_spec [OF assms(1), of kn an] by blast
  let ?an = "fold (\<lambda>d. reset_call_site kn (dq_id d) (dq_reason d)) (dq_contents st) an"
  let ?m = "min_epoch_loop (th_epochs st) (thread_list st) (g_epoch st1)"
  have r: "st' = st1\<lparr>g_pending := filter (\<lambda>p. \<not> pr_epoch p < ?m) (g_pending st1)\<rparr> \<and>
      summaries an' = summaries ?an \<and>
      an_codegen an' = fold (\<lambda>p. reclaim (pr_page p)) (filter (\<lambda>p. pr_epoch p < ?m) (g_pending st1)) (an_codegen an)"
    using assms(2) s by (cases "g_pending st1 = []")
      (auto simp: drain_pending_def d reclaim_loop_spec fold_reset_codegen Let_def)
  then show ?thesis
    using s by (auto simp: min_epoch_loop_less pages_after_reclaims Let_def)
qed

definition demo_deopt :: deopt_state where
  "demo_deopt = dq_push \<lparr>dq_id = 7, dq_page = 0x9000, dq_reason = SizeDrift\<rparr>
     (mark_safe_point 1 (deopt_start\<lparr>g_pending := [\<lparr>pr_page = 0x8000, pr_epoch = 2\<rparr>], g_epoch := 5\<rparr>))"

lemma demo_deopt_contents:
  "dq_inv demo_deopt" "dq_contents demo_deopt = [\<lparr>dq_id = 7, dq_page = 0x9000, dq_reason = SizeDrift\<rparr>]"
proof -
  let ?s = "mark_safe_point 1 (deopt_start\<lparr>g_pending := [\<lparr>pr_page = 0x8000, pr_epoch = 2\<rparr>], g_epoch := 5\<rparr>)"
  have s: "dq_inv ?s" "dq_contents ?s = []"
    by (simp_all add: mark_safe_point_def register_thread_def deopt_start_def dq_inv_def dq_contents_def slice_def)
  show "dq_inv demo_deopt" "dq_contents demo_deopt = [\<lparr>dq_id = 7, dq_page = 0x9000, dq_reason = SizeDrift\<rparr>]"
    using dq_push_room [OF s(1)] s(2) by (simp_all add: demo_deopt_def)
qed

lemma demo_deopt_fields:
  "g_pending demo_deopt = [\<lparr>pr_page = 0x8000, pr_epoch = 2\<rparr>]" "g_epoch demo_deopt = 5"
  "thread_list demo_deopt = [1]" "th_epochs demo_deopt 1 = 5"
  by (simp_all add: demo_deopt_def mark_safe_point_def register_thread_def deopt_start_def dq_push_def)

lemma drain_pending_reclaims_witness:
  "\<exists>st' an'. drain_pending demo_knobs demo_deopt (analysis_start demo_cg (snd demo_table)) = (st', an') \<and>
     dq_contents st' = [] \<and> g_pending st' = [\<lparr>pr_page = 0x9000, pr_epoch = 5\<rparr>] \<and>
     (\<forall>c \<in> set (cg_pages (an_codegen an')). fst c \<noteq> 0x8000)"
proof -
  obtain st' an' where d: "drain_pending demo_knobs demo_deopt (analysis_start demo_cg (snd demo_table)) = (st', an')"
    by (cases "drain_pending demo_knobs demo_deopt (analysis_start demo_cg (snd demo_table))")
  obtain st1 an1 where q: "drain_queue demo_knobs demo_deopt (analysis_start demo_cg (snd demo_table)) = (st1, an1)"
    "g_epoch st1 = g_epoch demo_deopt + of_nat (length (dq_contents demo_deopt))"
    using drain_queue_spec [OF demo_deopt_contents(1), of demo_knobs "analysis_start demo_cg (snd demo_table)"] by blast
  have "g_epoch st' = g_epoch st1" using d q(1) by (auto simp: drain_pending_def Let_def split: if_splits prod.splits)
  then have e: "g_epoch st' = 6" using q(2) unfolding demo_deopt_contents(2) demo_deopt_fields(2) by simp
  note p = drain_pending_reclaims [OF demo_deopt_contents(1) d]
  have "dq_contents st' = []" using p by blast
  moreover have "g_pending st' = [\<lparr>pr_page = 0x9000, pr_epoch = 5\<rparr>]"
    using p unfolding demo_deopt_contents(2) demo_deopt_fields Let_def e
    by (simp add: add_pending_def MAX_PENDING_def demo_deopt_fields)
  moreover have "\<forall>c \<in> set (cg_pages (an_codegen an')). fst c \<noteq> 0x8000"
    using p unfolding demo_deopt_contents(2) demo_deopt_fields Let_def e
    by (simp add: add_pending_def MAX_PENDING_def demo_deopt_fields)
  ultimately show ?thesis using d by blast
qed

end
