(* ===== verification/Trampoline.thy ===== *)
theory Trampoline
  imports Shadow Reclaim Trace
begin

text \<open>
  \<open>src/src/trace/trampoline.cpp\<close>: the interposed \<open>malloc\<close>, \<open>free\<close> and \<open>realloc\<close> of one thread.
  The functions of libc, the compiled routines and the clock answer through the environment; what
  libc is asked, and the copies the code makes, are appended to a log.  A compiled routine has one
  of three outcomes: a chunk of its segments, a failed size guard, upon which its emitted tail calls
  \<open>deopt::handle\<close> and jumps to the real \<open>malloc\<close>, or a failed assertion of its slow path, which ends
  the process.  What these two functions do is code of this program and defined here.  A failed
  assertion or validation is an error value.
\<close>

section \<open>State\<close>

datatype ext_call =
    Libc_malloc u64
  | Libc_free addr
  | Libc_realloc addr u64
  | Memcpy addr addr u64

datatype FutexState = AWAKE | SLEEPING

definition notify_if_sleeping :: "FutexState \<Rightarrow> FutexState" where
  "notify_if_sleeping w = (if w = SLEEPING then AWAKE else w)"

record process =
  g_initialized :: bool
  g_shutting_down :: bool
  have_malloc :: bool
  have_free :: bool
  have_realloc :: bool
  g_bootstrap_used :: u64
  reentrancy_guard :: bool
  tl_safe_point_counter :: u32
  tl_ic_id :: CallSiteID
  tl_ic_fn :: addr
  tl_ic_gen :: u64
  g_jit_allocs :: u64
  g_generic_allocs :: u64
  futex_word :: FutexState
  pr_dispatch :: dispatch
  pr_deopt :: deopt_state
  pr_trace :: trace_state
  pr_shadow :: "ShadowEntry list"
  pr_jit :: jit_state
  calls :: "ext_call list"

text \<open>
  How a compiled routine leaves: with a chunk and the slots and segments changed, through its deopt
  tail, which passes its site, its page and the reason to \<open>deopt::handle\<close>, or in an assertion of
  \<open>slow_init.cpp\<close> or \<open>segment.cpp\<close>.
\<close>

datatype routine_outcome =
    Chunk addr jit_state
  | Guard_failed CallSiteID addr DeoptReason
  | Assert_failed

record env =
  en_bootstrap :: addr
  en_dlsym :: "string \<Rightarrow> bool"
  en_malloc :: "ext_call list \<Rightarrow> u64 \<Rightarrow> addr"
  en_realloc :: "ext_call list \<Rightarrow> addr \<Rightarrow> u64 \<Rightarrow> addr"
  en_routine :: "addr \<Rightarrow> u64 \<Rightarrow> jit_state \<Rightarrow> routine_outcome"
  en_os :: os_env
  en_thread :: u32
  en_tsc :: u64
  en_shadow :: bool
  en_realloc_ra :: addr

datatype tramp_error =
    Trace_assert arena_error
  | Shadow_abort shadow_error
  | Shadow_hangs
  | Dispatch_abort dispatch_error
  | Routine_assert

definition BOOTSTRAP_SIZE :: u64 where
  "BOOTSTRAP_SIZE = 64 * 1024"

section \<open>Before initialisation\<close>

definition bootstrap_alloc :: "env \<Rightarrow> u64 \<Rightarrow> process \<Rightarrow> addr \<times> process" where
  "bootstrap_alloc en sz st =
     (let aligned = (sz + 15) AND NOT 15;
          off = g_bootstrap_used st;
          st = st\<lparr>g_bootstrap_used := off + aligned\<rparr>
      in (if BOOTSTRAP_SIZE < off + aligned then 0 else en_bootstrap en + off, st))"

definition is_bootstrap :: "env \<Rightarrow> addr \<Rightarrow> bool" where
  "is_bootstrap en p \<longleftrightarrow> en_bootstrap en \<le> p \<and> p < en_bootstrap en + BOOTSTRAP_SIZE"

definition resolve_real_allocators :: "env \<Rightarrow> process \<Rightarrow> process" where
  "resolve_real_allocators en st =
     (if reentrancy_guard st then st
      else let st = (if \<not> have_malloc st then st\<lparr>have_malloc := en_dlsym en ''malloc''\<rparr> else st);
               st = (if \<not> have_free st then st\<lparr>have_free := en_dlsym en ''free''\<rparr> else st);
               st = (if \<not> have_realloc st then st\<lparr>have_realloc := en_dlsym en ''realloc''\<rparr> else st)
           in st)"

definition libc_malloc :: "env \<Rightarrow> u64 \<Rightarrow> process \<Rightarrow> addr \<times> process" where
  "libc_malloc en sz st = (en_malloc en (calls st) sz, st\<lparr>calls := calls st @ [Libc_malloc sz]\<rparr>)"

definition libc_free :: "addr \<Rightarrow> process \<Rightarrow> process" where
  "libc_free p st = st\<lparr>calls := calls st @ [Libc_free p]\<rparr>"

definition libc_realloc :: "env \<Rightarrow> addr \<Rightarrow> u64 \<Rightarrow> process \<Rightarrow> addr \<times> process" where
  "libc_realloc en p sz st = (en_realloc en (calls st) p sz, st\<lparr>calls := calls st @ [Libc_realloc p sz]\<rparr>)"

definition memcpy :: "addr \<Rightarrow> addr \<Rightarrow> u64 \<Rightarrow> process \<Rightarrow> process" where
  "memcpy dst src n st = st\<lparr>calls := calls st @ [Memcpy dst src n]\<rparr>"

section \<open>malloc\<close>

definition cached_lookup :: "CallSiteID \<Rightarrow> process \<Rightarrow> addr \<times> process" where
  "cached_lookup cs st =
     (let cur_gen = dt_generation (pr_dispatch st)
      in if cs = tl_ic_id st \<and> cur_gen = tl_ic_gen st then (tl_ic_fn st, st)
         else let fn = dispatch_lookup cs (pr_dispatch st)
              in (fn, st\<lparr>tl_ic_id := cs, tl_ic_fn := fn, tl_ic_gen := cur_gen\<rparr>))"

definition trace_alloc :: "env \<Rightarrow> CallSiteID \<Rightarrow> u64 \<Rightarrow> addr \<Rightarrow> process \<Rightarrow> tramp_error + process" where
  "trace_alloc en cs sz p st =
     (case record_alloc (en_thread en) (en_tsc en) cs sz p (pr_trace st) of
        Inl e \<Rightarrow> Inl (Trace_assert e)
      | Inr (wake, tr) \<Rightarrow>
          Inr (st\<lparr>pr_trace := tr,
                  futex_word := (if wake then notify_if_sleeping (futex_word st) else futex_word st)\<rparr>))"

definition trace_free :: "env \<Rightarrow> CallSiteID \<Rightarrow> addr \<Rightarrow> process \<Rightarrow> tramp_error + process" where
  "trace_free en cs p st =
     (case record_free (en_thread en) (en_tsc en) cs p (pr_trace st) of
        Inl e \<Rightarrow> Inl (Trace_assert e)
      | Inr (wake, tr) \<Rightarrow>
          Inr (st\<lparr>pr_trace := tr,
                  futex_word := (if wake then notify_if_sleeping (futex_word st) else futex_word st)\<rparr>))"

definition shadow_alloc :: "env \<Rightarrow> CallSiteID \<Rightarrow> u64 \<Rightarrow> addr \<Rightarrow> process \<Rightarrow> tramp_error + process" where
  "shadow_alloc en cs sz p st =
     (if \<not> en_shadow en then Inr st
      else case validate_alloc (sg (pr_jit st)) (os_tid (en_os en)) cs sz p (pr_shadow st) of
             Inl e \<Rightarrow> Inl (Shadow_abort e)
           | Inr t \<Rightarrow> Inr (st\<lparr>pr_shadow := t\<rparr>))"

definition shadow_free :: "env \<Rightarrow> addr \<Rightarrow> process \<Rightarrow> tramp_error + process" where
  "shadow_free en p st =
     (if \<not> en_shadow en then Inr st
      else case validate_free p (pr_shadow st) of
             None \<Rightarrow> Inl Shadow_hangs
           | Some t \<Rightarrow> Inr (st\<lparr>pr_shadow := t\<rparr>))"

text \<open>The instrumented part of \<open>malloc\<close>, between setting and clearing the guard.\<close>

definition safe_point_tick :: "env \<Rightarrow> process \<Rightarrow> process" where
  "safe_point_tick en st =
     (let st = st\<lparr>tl_safe_point_counter := tl_safe_point_counter st + 1\<rparr>
      in if tl_safe_point_counter st AND 31 = 0
         then st\<lparr>pr_deopt := mark_safe_point (en_thread en) (pr_deopt st)\<rparr> else st)"

definition run_routine :: "env \<Rightarrow> addr \<Rightarrow> u64 \<Rightarrow> process \<Rightarrow> tramp_error + (addr \<times> process)" where
  "run_routine en fn sz st =
     (case en_routine en fn sz (pr_jit st) of
        Chunk p jit \<Rightarrow> Inr (p, st\<lparr>pr_jit := jit\<rparr>)
      | Guard_failed cs page reason \<Rightarrow>
          let (dp, d) = handle cs page reason (pr_deopt st) (pr_dispatch st)
          in Inr (libc_malloc en sz (st\<lparr>pr_deopt := dp, pr_dispatch := d\<rparr>))
      | Assert_failed \<Rightarrow> Inl Routine_assert)"

definition serve :: "env \<Rightarrow> CallSiteID \<Rightarrow> u64 \<Rightarrow> addr \<Rightarrow> process \<Rightarrow> tramp_error + (addr \<times> process)" where
  "serve en cs sz fn st =
     (if fn \<noteq> 0
      then run_routine en fn sz (st\<lparr>g_jit_allocs := g_jit_allocs st + 1\<rparr>)
      else let st = st\<lparr>g_generic_allocs := g_generic_allocs st + 1\<rparr>;
               (p, st) = libc_malloc en sz st
           in case trace_alloc en cs sz p st of Inl e \<Rightarrow> Inl e | Inr st \<Rightarrow> Inr (p, st))"

definition malloc :: "env \<Rightarrow> addr \<Rightarrow> u64 \<Rightarrow> process \<Rightarrow> tramp_error + (addr \<times> process)" where
  "malloc en ra sz st =
     (if \<not> g_initialized st
      then let st = (if \<not> have_malloc st then resolve_real_allocators en st else st)
           in Inr (if have_malloc st then libc_malloc en sz st else bootstrap_alloc en sz st)
      else if g_shutting_down st then Inr (libc_malloc en sz st)
      else if reentrancy_guard st then Inr (libc_malloc en sz st)
      else
        let st = safe_point_tick en (st\<lparr>reentrancy_guard := True\<rparr>);
            cs = hash_return_addr ra;
            (fn, st) = cached_lookup cs st
        in case serve en cs sz fn st of
             Inl e \<Rightarrow> Inl e
           | Inr (p, st) \<Rightarrow>
               (case shadow_alloc en cs sz p st of
                  Inl e \<Rightarrow> Inl e
                | Inr st \<Rightarrow> Inr (p, st\<lparr>reentrancy_guard := False\<rparr>)))"

section \<open>free and realloc\<close>

definition free :: "env \<Rightarrow> addr \<Rightarrow> addr \<Rightarrow> process \<Rightarrow> tramp_error + process" where
  "free en ra p st =
     (if is_bootstrap en p then Inr st
      else if \<not> g_initialized st
      then let st = (if \<not> have_free st then resolve_real_allocators en st else st)
           in Inr (if have_free st then libc_free p st else st)
      else if g_shutting_down st
      then (if p \<noteq> 0 \<and> is_managed (seg_of p) (sg (pr_jit st)) then Inr st else Inr (libc_free p st))
      else if reentrancy_guard st \<or> \<not> have_free st
      then Inr (if have_free st then libc_free p st else st)
      else
        let st = st\<lparr>reentrancy_guard := True\<rparr>; cs = hash_return_addr ra
        in case trace_free en cs p st of
             Inl e \<Rightarrow> Inl e
           | Inr st \<Rightarrow>
               (case shadow_free en p st of
                  Inl e \<Rightarrow> Inl e
                | Inr st \<Rightarrow>
                    let s = seg_of p;
                        st = (if p = 0 then st
                              else if is_managed s (sg (pr_jit st))
                              then st\<lparr>pr_jit := free_managed (en_os en) s p (pr_jit st)\<rparr>
                              else libc_free p st)
                    in Inr (st\<lparr>reentrancy_guard := False\<rparr>)))"

definition managed_cap :: "addr \<Rightarrow> process \<Rightarrow> u64" where
  "managed_cap p st =
     (let s = seg_of p; h = headers (sg (pr_jit st)) s
      in if 0 < chunk_size h then ucast (chunk_size h) else segment_end s - p)"

definition realloc :: "env \<Rightarrow> addr \<Rightarrow> addr \<Rightarrow> u64 \<Rightarrow> process \<Rightarrow> tramp_error + (addr \<times> process)" where
  "realloc en ra p sz st =
     (if is_bootstrap en p
      then (case malloc en (en_realloc_ra en) sz st of
              Inl e \<Rightarrow> Inl e
            | Inr (out, st) \<Rightarrow>
                let avail = en_bootstrap en + BOOTSTRAP_SIZE - p
                in Inr (out, if out \<noteq> 0 then memcpy out p (if sz < avail then sz else avail) st else st))
      else if \<not> g_initialized st
      then let st = (if \<not> have_realloc st then resolve_real_allocators en st else st)
           in Inr (if have_realloc st then libc_realloc en p sz st
                   else if p \<noteq> 0 then (p, st) else bootstrap_alloc en sz st)
      else if g_shutting_down st then Inr (libc_realloc en p sz st)
      else if reentrancy_guard st then Inr (libc_realloc en p sz st)
      else if p = 0 then malloc en (en_realloc_ra en) sz st
      else if is_managed (seg_of p) (sg (pr_jit st))
      then (if sz = 0
            then (case free en (en_realloc_ra en) p st of Inl e \<Rightarrow> Inl e | Inr st \<Rightarrow> Inr (0, st))
            else
              let cap = managed_cap p st;
                  n = (if sz < cap then sz else cap)
              in case malloc en (en_realloc_ra en) sz st of
                   Inl e \<Rightarrow> Inl e
                 | Inr (out, st) \<Rightarrow>
                     (case free en (en_realloc_ra en) p (if out \<noteq> 0 then memcpy out p n st else st) of
                        Inl e \<Rightarrow> Inl e
                      | Inr st \<Rightarrow> Inr (out, st)))
      else Inr (libc_realloc en p sz st))"

section \<open>The inline cache\<close>

text \<open>
  The calls of one thread between installs and reverts by others.  A routine whose guard fails
  reverts its own site through \<open>deopt::handle\<close>.
\<close>

datatype tramp_op =
    Do_malloc addr u64
  | Do_free addr addr
  | Do_realloc addr addr u64
  | Other_install CallSiteID addr
  | Other_revert CallSiteID

fun tramp_step :: "env \<Rightarrow> tramp_op \<Rightarrow> process \<Rightarrow> tramp_error + process" where
  "tramp_step en (Do_malloc ra sz) st = map_sum id snd (malloc en ra sz st)"
| "tramp_step en (Do_free ra p) st = free en ra p st"
| "tramp_step en (Do_realloc ra p sz) st = map_sum id snd (realloc en ra p sz st)"
| "tramp_step en (Other_install cs fn) st =
     (case dispatch_install cs fn (pr_dispatch st) of
        Inl e \<Rightarrow> Inl (Dispatch_abort e)
      | Inr d \<Rightarrow> Inr (st\<lparr>pr_dispatch := d\<rparr>))"
| "tramp_step en (Other_revert cs) st = Inr (st\<lparr>pr_dispatch := dispatch_revert cs (pr_dispatch st)\<rparr>)"

fun tramp_run :: "env \<Rightarrow> tramp_op list \<Rightarrow> process \<Rightarrow> tramp_error + process" where
  "tramp_run en [] st = Inr st"
| "tramp_run en (x # xs) st = (case tramp_step en x st of Inl e \<Rightarrow> Inl e | Inr st \<Rightarrow> tramp_run en xs st)"

text \<open>The fields the inline cache depends on, and a table that changes at most once.\<close>

definition same_cache :: "process \<Rightarrow> process \<Rightarrow> bool" where
  "same_cache st st' \<longleftrightarrow> tl_ic_id st' = tl_ic_id st \<and> tl_ic_fn st' = tl_ic_fn st \<and> tl_ic_gen st' = tl_ic_gen st"

definition moved :: "dispatch \<Rightarrow> dispatch \<Rightarrow> bool" where
  "moved d d' \<longleftrightarrow> d' = d \<or> dt_generation d' = dt_generation d + 1"

lemma moved_revert: "moved d (dispatch_revert cs d)"
  by (auto simp: moved_def dispatch_revert_def split: option.splits)

lemma moved_install: "dispatch_install cs fn d = Inr d' \<Longrightarrow> moved d d'"
  by (auto simp: moved_def dispatch_install_def split: option.splits)

definition cache_ok :: "nat \<Rightarrow> process \<Rightarrow> bool" where
  "cache_ok n st \<longleftrightarrow> unat (dt_generation (pr_dispatch st)) \<le> n \<and>
     unat (tl_ic_gen st) \<le> unat (dt_generation (pr_dispatch st)) \<and>
     (tl_ic_gen st = dt_generation (pr_dispatch st) \<longrightarrow> tl_ic_fn st = dispatch_lookup (tl_ic_id st) (pr_dispatch st))"

lemma cache_ok_moved:
  assumes "cache_ok n st" and "same_cache st st'" and "moved (pr_dispatch st) (pr_dispatch st')" and "Suc n < 2 ^ 64"
  shows "cache_ok (Suc n) st'"
  using assms(3) unfolding moved_def
proof
  assume "pr_dispatch st' = pr_dispatch st"
  then show ?thesis using assms(1,2) by (simp add: cache_ok_def same_cache_def)
next
  let ?g = "dt_generation (pr_dispatch st)"
  assume g: "dt_generation (pr_dispatch st') = ?g + 1"
  have "unat (?g + 1) = unat ?g + 1" using assms(1,4) by (intro unat_Suc_no_wrap) (simp add: cache_ok_def)
  then have lt: "unat (tl_ic_gen st') < unat (dt_generation (pr_dispatch st'))"
    using assms(1,2) unfolding g by (simp add: cache_ok_def same_cache_def)
  then have "tl_ic_gen st' \<noteq> dt_generation (pr_dispatch st')" by auto
  moreover have "unat (dt_generation (pr_dispatch st')) \<le> Suc n"
    using assms(1) \<open>unat (?g + 1) = unat ?g + 1\<close> unfolding g by (simp add: cache_ok_def)
  ultimately show ?thesis using lt by (simp add: cache_ok_def)
qed

lemma cached_lookup_ok:
  assumes "cache_ok n st"
  shows "fst (cached_lookup cs st) = dispatch_lookup cs (pr_dispatch st)"
    and "cache_ok n (snd (cached_lookup cs st))"
    and "pr_dispatch (snd (cached_lookup cs st)) = pr_dispatch st"
  using assms by (auto simp: cached_lookup_def cache_ok_def Let_def)

text \<open>What each part of a call may do to the cache and the table.\<close>

definition frame :: "process \<Rightarrow> process \<Rightarrow> bool" where
  "frame st st' \<longleftrightarrow> same_cache st st' \<and> pr_dispatch st' = pr_dispatch st"

lemma frame_trans: "frame a b \<Longrightarrow> frame b c \<Longrightarrow> frame a c"
  by (simp add: frame_def same_cache_def)

lemma frame_refl [simp]: "frame a a"
  by (simp add: frame_def same_cache_def)

lemma frame_parts:
  "frame st (resolve_real_allocators en st)" "frame st (snd (libc_malloc en sz st))" "frame st (libc_free p st)"
  "frame st (snd (libc_realloc en p sz st))" "frame st (snd (bootstrap_alloc en sz st))" "frame st (memcpy a b n st)"
  "frame st (safe_point_tick en st)" "frame st (st\<lparr>reentrancy_guard := b'\<rparr>)" "frame st (st\<lparr>pr_jit := j\<rparr>)"
  by (simp_all add: frame_def same_cache_def resolve_real_allocators_def libc_malloc_def libc_free_def
      libc_realloc_def bootstrap_alloc_def memcpy_def safe_point_tick_def Let_def)

lemma frame_trace:
  "trace_alloc en cs sz p st = Inr st' \<Longrightarrow> frame st st'" "trace_free en cs p st = Inr st' \<Longrightarrow> frame st st'"
  "shadow_alloc en cs sz p st = Inr st' \<Longrightarrow> frame st st'" "shadow_free en p st = Inr st' \<Longrightarrow> frame st st'"
  by (auto simp: frame_def same_cache_def trace_alloc_def trace_free_def shadow_alloc_def shadow_free_def
      split: sum.splits if_splits option.splits)

lemma cache_ok_frame: "frame st st' \<Longrightarrow> cache_ok n st' = cache_ok n st"
  by (simp add: frame_def same_cache_def cache_ok_def)

lemma cache_ok_mono: "cache_ok n st \<Longrightarrow> n \<le> m \<Longrightarrow> cache_ok m st"
  by (auto simp: cache_ok_def)

lemma cache_ok_later: "cache_ok n st \<Longrightarrow> frame st st' \<Longrightarrow> cache_ok (Suc n) st'"
  by (simp add: cache_ok_frame cache_ok_mono [of n _ "Suc n"])

lemma handle_cases:
  assumes "handle cs page r dp d = (dp', d')"
  shows "dp' = dp \<and> d' = d \<or>
    dp' = dq_push \<lparr>dq_id = cs, dq_page = page, dq_reason = r\<rparr> dp \<and> d' = dispatch_revert cs d"
  using assms by (auto simp: handle_def split: if_splits)

lemma handle_moved: "handle cs page r dp d = (dp', d') \<Longrightarrow> moved d d'"
  using handle_cases [of cs page r dp d dp' d'] moved_revert by (auto simp: moved_def)

text \<open>A routine that returns handed out a chunk, or went through its deopt tail to libc.\<close>

lemma run_routine_cases:
  assumes "run_routine en fn sz st = Inr (p, st')"
  obtains (chunk) jit where "en_routine en fn sz (pr_jit st) = Chunk p jit" "st' = st\<lparr>pr_jit := jit\<rparr>"
  | (deopt) cs page r dp d where "en_routine en fn sz (pr_jit st) = Guard_failed cs page r"
      "handle cs page r (pr_deopt st) (pr_dispatch st) = (dp, d)" "p = en_malloc en (calls st) sz"
      "st' = st\<lparr>pr_deopt := dp, pr_dispatch := d, calls := calls st @ [Libc_malloc sz]\<rparr>"
  using assms
  by (cases "en_routine en fn sz (pr_jit st)") (auto simp: run_routine_def libc_malloc_def split: prod.splits)

lemma serve_cache:
  assumes "serve en cs sz fn st = Inr (p, st')"
  shows "same_cache st st' \<and> moved (pr_dispatch st) (pr_dispatch st')"
proof (cases "fn = 0")
  case True
  let ?st = "snd (libc_malloc en sz (st\<lparr>g_generic_allocs := g_generic_allocs st + 1\<rparr>))"
  have "frame (st\<lparr>g_generic_allocs := g_generic_allocs st + 1\<rparr>) ?st" by (rule frame_parts)
  then have "frame st ?st" by (simp add: frame_def same_cache_def)
  moreover have "frame ?st st'"
    using assms True by (auto simp: serve_def Let_def split: sum.splits prod.splits intro: frame_trace)
  ultimately have "frame st st'" by (rule frame_trans)
  then show ?thesis by (simp add: frame_def moved_def)
next
  case False
  then have "run_routine en fn sz (st\<lparr>g_jit_allocs := g_jit_allocs st + 1\<rparr>) = Inr (p, st')"
    using assms by (simp add: serve_def)
  then show ?thesis
  proof (cases rule: run_routine_cases)
    case (chunk jit)
    then show ?thesis by (simp add: same_cache_def moved_def)
  next
    case (deopt cs page r dp d)
    then show ?thesis using handle_moved by (simp add: same_cache_def)
  qed
qed

lemma malloc_cases:
  assumes "malloc en ra sz st = Inr (p, st')"
  obtains (direct) "frame st st'" "\<not> (g_initialized st \<and> \<not> g_shutting_down st \<and> \<not> reentrancy_guard st)"
  | (served) st1 fn st2 st3 where "g_initialized st" "\<not> g_shutting_down st" "\<not> reentrancy_guard st"
      "st1 = safe_point_tick en (st\<lparr>reentrancy_guard := True\<rparr>)"
      "cached_lookup (hash_return_addr ra) st1 = (fn, st2)"
      "serve en (hash_return_addr ra) sz fn st2 = Inr (p, st3)"
      "\<exists>st4. shadow_alloc en (hash_return_addr ra) sz p st3 = Inr st4 \<and> st' = st4\<lparr>reentrancy_guard := False\<rparr>"
proof (cases "g_initialized st \<and> \<not> g_shutting_down st \<and> \<not> reentrancy_guard st")
  case True
  then show ?thesis using assms served
    by (auto simp: malloc_def Let_def split: sum.splits prod.splits)
next
  case False
  have "frame st st'"
  proof (cases "g_initialized st")
    case True
    then have "st' = snd (libc_malloc en sz st)"
      using assms False unfolding malloc_def by (metis Inr_inject snd_conv)
    then show ?thesis by (simp add: frame_parts)
  next
    case no: False
    let ?st = "if \<not> have_malloc st then resolve_real_allocators en st else st"
    have "frame st ?st" by (simp add: frame_parts)
    moreover have "st' = (if have_malloc ?st then snd (libc_malloc en sz ?st) else snd (bootstrap_alloc en sz ?st))"
      using assms no by (auto simp: malloc_def Let_def split: if_splits)
    then have "frame ?st st'" by (simp add: frame_parts)
    ultimately show ?thesis by (rule frame_trans)
  qed
  then show ?thesis using False direct by blast
qed

lemma malloc_cache:
  assumes "malloc en ra sz st = Inr (p, st')" and "cache_ok n st" and "Suc n < 2 ^ 64"
  shows "cache_ok (Suc n) st'"
  using assms(1)
proof (cases rule: malloc_cases)
  case direct
  then show ?thesis using cache_ok_later assms(2) by blast
next
  case (served st1 fn st2 st3)
  have "frame st (st\<lparr>reentrancy_guard := True\<rparr>)" "frame (st\<lparr>reentrancy_guard := True\<rparr>) st1"
    unfolding served(4) by (rule frame_parts)+
  then have "cache_ok n st1" using cache_ok_frame assms(2) by blast
  then have "cache_ok n st2" using cached_lookup_ok(2) served(5) by (metis snd_conv)
  moreover have "same_cache st2 st3 \<and> moved (pr_dispatch st2) (pr_dispatch st3)"
    by (rule serve_cache [OF served(6)])
  ultimately have "cache_ok (Suc n) st3" using cache_ok_moved assms(3) by blast
  moreover obtain st4 where st4: "shadow_alloc en (hash_return_addr ra) sz p st3 = Inr st4" "st' = st4\<lparr>reentrancy_guard := False\<rparr>"
    using served(7) by blast
  moreover have "frame st3 st'" unfolding st4(2) by (rule frame_trans [OF frame_trace(3) [OF st4(1)] frame_parts(8)])
  ultimately show ?thesis using cache_ok_frame by blast
qed

lemma free_cases:
  assumes "free en ra p st = Inr st'"
  obtains (bootstrap) "is_bootstrap en p" "st' = st"
  | (early) st1 where "\<not> is_bootstrap en p" "\<not> g_initialized st"
      "st1 = (if \<not> have_free st then resolve_real_allocators en st else st)"
      "st' = (if have_free st1 then libc_free p st1 else st1)"
  | (late) "\<not> is_bootstrap en p" "g_initialized st" "g_shutting_down st"
      "st' = (if p \<noteq> 0 \<and> is_managed (seg_of p) (sg (pr_jit st)) then st else libc_free p st)"
  | (nested) "\<not> is_bootstrap en p" "g_initialized st" "\<not> g_shutting_down st" "reentrancy_guard st \<or> \<not> have_free st"
      "st' = (if have_free st then libc_free p st else st)"
  | (recorded) st1 st2 where "\<not> is_bootstrap en p" "g_initialized st" "\<not> g_shutting_down st" "\<not> reentrancy_guard st"
      "have_free st" "trace_free en (hash_return_addr ra) p (st\<lparr>reentrancy_guard := True\<rparr>) = Inr st1"
      "shadow_free en p st1 = Inr st2"
      "st' = (if p = 0 then st2
              else if is_managed (seg_of p) (sg (pr_jit st2))
              then st2\<lparr>pr_jit := free_managed (en_os en) (seg_of p) p (pr_jit st2)\<rparr>
              else libc_free p st2)\<lparr>reentrancy_guard := False\<rparr>"
  using assms unfolding free_def by (auto simp: Let_def split: if_splits sum.splits)

lemma free_frame:
  assumes "free en ra p st = Inr st'"
  shows "frame st st'"
  using assms
proof (cases rule: free_cases)
  case (early st1)
  have "frame st st1" "frame st1 st'" unfolding early(3,4) by (simp_all add: frame_parts)
  then show ?thesis by (rule frame_trans)
next
  case (recorded st1 st2)
  have "frame st st1" by (rule frame_trans [OF frame_parts(8) frame_trace(2) [OF recorded(6)]])
  moreover have "frame st1 st2" by (rule frame_trace(4) [OF recorded(7)])
  moreover have "frame st2 st'"
    unfolding recorded(8) by (rule frame_trans [OF _ frame_parts(8)]) (simp add: frame_parts)
  ultimately show ?thesis by (blast intro: frame_trans)
qed (simp_all add: frame_parts)

text \<open>A call of \<open>realloc\<close> is at most one call of \<open>malloc\<close> and steps that leave the cache alone.\<close>

lemma realloc_cases:
  assumes "realloc en ra p sz st = Inr (q, st')"
  obtains (direct) "frame st st'"
  | (malloc) s1 where "malloc en (en_realloc_ra en) sz st = Inr (q, s1)" "frame s1 st'"
proof (cases "is_bootstrap en p")
  case True
  then obtain s1 where s1: "malloc en (en_realloc_ra en) sz st = Inr (q, s1)"
    "\<exists>n. st' = (if q \<noteq> 0 then memcpy q p n s1 else s1)"
    using assms by (auto simp: realloc_def Let_def split: sum.splits prod.splits if_splits)
  then show ?thesis using malloc [OF s1(1)] frame_parts(6) frame_refl by metis
next
  case nb: False
  show ?thesis
  proof (cases "g_initialized st")
    case False
    let ?s = "if \<not> have_realloc st then resolve_real_allocators en st else st"
    have s: "frame st ?s" by (simp add: frame_parts)
    have "st' = snd (libc_realloc en p sz ?s) \<or> st' = ?s \<or> st' = snd (bootstrap_alloc en sz ?s)"
      using assms nb False unfolding realloc_def Let_def by (smt (verit) Inr_inject snd_conv)
    then have "frame ?s st'" by (auto simp: frame_parts)
    then show ?thesis using frame_trans [OF s] direct by blast
  next
    case init: True
    consider "st' = snd (libc_realloc en p sz st)" | "malloc en (en_realloc_ra en) sz st = Inr (q, st')"
      | "free en (en_realloc_ra en) p st = Inr st'"
      | s1 n where "malloc en (en_realloc_ra en) sz st = Inr (q, s1)"
          "free en (en_realloc_ra en) p (if q \<noteq> 0 then memcpy q p n s1 else s1) = Inr st'"
      using assms nb init unfolding realloc_def
      by (auto simp: Let_def split: sum.splits prod.splits if_splits dest: arg_cong [of _ _ snd])
    then show ?thesis
    proof cases
      case (4 s1 n)
      have "frame s1 (if q \<noteq> 0 then memcpy q p n s1 else s1)" by (simp add: frame_parts)
      then show ?thesis using malloc [OF 4(1)] free_frame [OF 4(2)] frame_trans by blast
    qed (use direct malloc free_frame frame_parts(4) frame_refl in metis)+
  qed
qed

lemma realloc_cache:
  assumes "realloc en ra p sz st = Inr (q, st')" and "cache_ok n st" and "Suc n < 2 ^ 64"
  shows "cache_ok (Suc n) st'"
  using assms(1)
proof (cases rule: realloc_cases)
  case direct
  then show ?thesis by (rule cache_ok_later [OF assms(2)])
next
  case (malloc s1)
  then show ?thesis using malloc_cache [OF malloc(1) assms(2,3)] cache_ok_frame by blast
qed

lemma tramp_step_cache:
  assumes "tramp_step en x st = Inr st'" and "cache_ok n st" and "Suc n < 2 ^ 64"
  shows "cache_ok (Suc n) st'"
proof (cases x)
  case (Do_malloc ra sz)
  then show ?thesis using assms(1) malloc_cache [OF _ assms(2,3)]
    by (cases "malloc en ra sz st") auto
next
  case (Do_free ra p)
  then show ?thesis using assms(1) free_frame cache_ok_later [OF assms(2)] by simp
next
  case (Do_realloc ra p sz)
  then show ?thesis using assms(1) realloc_cache [OF _ assms(2,3)]
    by (cases "realloc en ra p sz st") auto
next
  case (Other_install cs fn)
  then obtain d where d: "dispatch_install cs fn (pr_dispatch st) = Inr d" "st' = st\<lparr>pr_dispatch := d\<rparr>"
    using assms(1) by (auto split: sum.splits)
  then show ?thesis
    using cache_ok_moved [OF assms(2) _ _ assms(3), of st'] moved_install [OF d(1)] by (simp add: same_cache_def)
next
  case (Other_revert cs)
  then show ?thesis
    using cache_ok_moved [OF assms(2) _ _ assms(3), of st'] moved_revert assms(1) by (auto simp: same_cache_def)
qed

lemma tramp_run_cache:
  "tramp_run en xs st = Inr st' \<Longrightarrow> cache_ok n st \<Longrightarrow> n + length xs < 2 ^ 64 \<Longrightarrow>
     cache_ok (n + length xs) st'"
proof (induction xs arbitrary: st n)
  case (Cons x xs)
  then obtain s1 where s1: "tramp_step en x st = Inr s1" "tramp_run en xs s1 = Inr st'" by (auto split: sum.splits)
  have "cache_ok (Suc n) s1" using tramp_step_cache [OF s1(1) Cons.prems(2)] Cons.prems(3) by simp
  then show ?case using Cons.IH [OF s1(2), of "Suc n"] Cons.prems(3) by simp
qed simp

text \<open>
  C6: The inline cache is transparent: after any sequence of this thread's calls and other threads'
  installs and reverts, fewer than 2^64 - 1 of them, the cached lookup in \<open>malloc\<close> yields
  what the dispatch table holds for the call site at that moment.
\<close>

theorem inline_cache_transparent:
  assumes "tramp_run en xs st = Inr st'"
    and "dt_generation (pr_dispatch st) = 1" and "tl_ic_gen st = 0" and "length xs < 2 ^ 64 - 1"
  shows "fst (cached_lookup cs st') = dispatch_lookup cs (pr_dispatch st')"
proof -
  have "cache_ok 1 st" using assms(2,3) by (simp add: cache_ok_def)
  then have "cache_ok (1 + length xs) st'"
    using assms(4) by (intro tramp_run_cache [OF assms(1)]) simp_all
  then show ?thesis by (rule cached_lookup_ok(1))
qed

section \<open>Who serves and who frees\<close>

lemma cached_lookup_fields:
  assumes "cached_lookup cs st = (fn, st')"
  shows "calls st' = calls st" "pr_jit st' = pr_jit st" "pr_deopt st' = pr_deopt st" "pr_dispatch st' = pr_dispatch st"
    "pr_trace st' = pr_trace st" "g_jit_allocs st' = g_jit_allocs st" "g_generic_allocs st' = g_generic_allocs st"
    "tl_safe_point_counter st' = tl_safe_point_counter st" "pr_shadow st' = pr_shadow st" "g_initialized st' = g_initialized st"
  using assms by (auto simp: cached_lookup_def Let_def split: if_splits)

lemma shadow_alloc_fields:
  assumes "shadow_alloc en cs sz p st = Inr st'"
  shows "\<exists>t. st' = st\<lparr>pr_shadow := t\<rparr>"
proof (cases "en_shadow en")
  case True
  then show ?thesis using assms by (auto simp: shadow_alloc_def split: sum.splits)
next
  case False
  then have "st' = st\<lparr>pr_shadow := pr_shadow st\<rparr>" using assms by (simp add: shadow_alloc_def)
  then show ?thesis ..
qed

lemma shadow_free_fields:
  assumes "shadow_free en p st = Inr st'"
  shows "\<exists>t. st' = st\<lparr>pr_shadow := t\<rparr>"
proof (cases "en_shadow en")
  case True
  then show ?thesis using assms by (auto simp: shadow_free_def split: option.splits)
next
  case False
  then have "st' = st\<lparr>pr_shadow := pr_shadow st\<rparr>" using assms by (simp add: shadow_free_def)
  then show ?thesis ..
qed

lemma trace_fields:
  "trace_alloc en cs sz p st = Inr st' \<Longrightarrow> \<exists>tr w. st' = st\<lparr>pr_trace := tr, futex_word := w\<rparr>"
  "trace_free en cs p st = Inr st' \<Longrightarrow> \<exists>tr w. st' = st\<lparr>pr_trace := tr, futex_word := w\<rparr>"
  by (auto simp: trace_alloc_def trace_free_def split: sum.splits)

lemma trace_alloc_recorded:
  assumes "trace_alloc en cs sz p st = Inr st'"
  shows "\<exists>wake. record_alloc (en_thread en) (en_tsc en) cs sz p (pr_trace st) = Inr (wake, pr_trace st')"
proof (cases "record_alloc (en_thread en) (en_tsc en) cs sz p (pr_trace st)")
  case (Inl e)
  then show ?thesis using assms by (simp add: trace_alloc_def)
next
  case (Inr r)
  then obtain wake tr where r: "record_alloc (en_thread en) (en_tsc en) cs sz p (pr_trace st) = Inr (wake, tr)"
    by (metis prod.collapse)
  have "Inr st' = (Inr (st\<lparr>pr_trace := tr,
      futex_word := (if wake then notify_if_sleeping (futex_word st) else futex_word st)\<rparr>) :: tramp_error + process)"
    using assms unfolding trace_alloc_def r by (simp only: sum.case prod.case)
  then have "pr_trace st' = tr" by simp
  then show ?thesis using r by simp
qed

lemma safe_point_tick_fields [simp]:
  "calls (safe_point_tick en st) = calls st" "pr_jit (safe_point_tick en st) = pr_jit st"
  "pr_dispatch (safe_point_tick en st) = pr_dispatch st" "pr_trace (safe_point_tick en st) = pr_trace st"
  "g_jit_allocs (safe_point_tick en st) = g_jit_allocs st" "g_generic_allocs (safe_point_tick en st) = g_generic_allocs st"
  "tl_ic_id (safe_point_tick en st) = tl_ic_id st" "tl_ic_fn (safe_point_tick en st) = tl_ic_fn st"
  "tl_ic_gen (safe_point_tick en st) = tl_ic_gen st"
  "tl_safe_point_counter (safe_point_tick en st) = tl_safe_point_counter st + 1"
  "pr_deopt (safe_point_tick en (st\<lparr>reentrancy_guard := b\<rparr>)) = pr_deopt (safe_point_tick en st)"
  by (simp_all add: safe_point_tick_def Let_def)

lemma cached_lookup_tick:
  "fst (cached_lookup cs (safe_point_tick en (st\<lparr>reentrancy_guard := b\<rparr>))) = fst (cached_lookup cs st)"
  by (simp add: cached_lookup_def Let_def)

lemma malloc_served:
  assumes "malloc en ra sz st = Inr (p, st')"
    and "g_initialized st" and "\<not> g_shutting_down st" and "\<not> reentrancy_guard st"
    and "fn = fst (cached_lookup (hash_return_addr ra) st)"
    and "dp = pr_deopt (safe_point_tick en st)"
  shows "\<not> reentrancy_guard st' \<and> tl_safe_point_counter st' = tl_safe_point_counter st + 1 \<and>
    (if fn \<noteq> 0
     then pr_trace st' = pr_trace st \<and> g_jit_allocs st' = g_jit_allocs st + 1 \<and>
       g_generic_allocs st' = g_generic_allocs st \<and>
       (case en_routine en fn sz (pr_jit st) of
          Chunk q jit \<Rightarrow> p = q \<and> pr_jit st' = jit \<and> calls st' = calls st \<and>
            pr_deopt st' = dp \<and> pr_dispatch st' = pr_dispatch st
        | Guard_failed cs page r \<Rightarrow> p = en_malloc en (calls st) sz \<and> calls st' = calls st @ [Libc_malloc sz] \<and>
            pr_jit st' = pr_jit st \<and> (pr_deopt st', pr_dispatch st') = handle cs page r dp (pr_dispatch st)
        | Assert_failed \<Rightarrow> False)
     else p = en_malloc en (calls st) sz \<and> calls st' = calls st @ [Libc_malloc sz] \<and>
       (\<exists>wake. record_alloc (en_thread en) (en_tsc en) (hash_return_addr ra) sz p (pr_trace st) = Inr (wake, pr_trace st')) \<and>
       pr_jit st' = pr_jit st \<and> pr_dispatch st' = pr_dispatch st \<and> pr_deopt st' = dp \<and>
       g_jit_allocs st' = g_jit_allocs st \<and> g_generic_allocs st' = g_generic_allocs st + 1)"
  using assms(1)
proof (cases rule: malloc_cases)
  case direct
  then show ?thesis using assms by simp
next
  case (served st1 fn' st2 st3)
  have fn: "fn' = fn" using served(4,5) assms(5) cached_lookup_tick by (metis fst_conv)
  note f = cached_lookup_fields [OF served(5)]
  obtain s where s: "shadow_alloc en (hash_return_addr ra) sz p st3 = Inr s" "st' = s\<lparr>reentrancy_guard := False\<rparr>"
    using served(7) by blast
  obtain t where "s = st3\<lparr>pr_shadow := t\<rparr>" using shadow_alloc_fields [OF s(1)] by blast
  then have st4: "st' = st3\<lparr>pr_shadow := t, reentrancy_guard := False\<rparr>" using s(2) by simp
  have dp: "pr_deopt st1 = dp" unfolding served(4) assms(6) by (rule safe_point_tick_fields(11))
  show ?thesis
  proof (cases "fn = 0")
    case True
    let ?st = "snd (libc_malloc en sz (st2\<lparr>g_generic_allocs := g_generic_allocs st2 + 1\<rparr>))"
    have tr: "trace_alloc en (hash_return_addr ra) sz p ?st = Inr st3" and p: "p = en_malloc en (calls st2) sz"
      using served(6) True fn by (auto simp: serve_def libc_malloc_def Let_def split: sum.splits)
    obtain t' w where e: "st3 = ?st\<lparr>pr_trace := t', futex_word := w\<rparr>" using trace_fields(1) [OF tr] by blast
    have "pr_trace ?st = pr_trace st" using f(5) served(4) by (simp add: libc_malloc_def)
    then have rec: "\<exists>wake. record_alloc (en_thread en) (en_tsc en) (hash_return_addr ra) sz p (pr_trace st) = Inr (wake, pr_trace st3)"
      using trace_alloc_recorded [OF tr] by metis
    have "calls st3 = calls st @ [Libc_malloc sz] \<and> pr_jit st3 = pr_jit st \<and> pr_dispatch st3 = pr_dispatch st \<and>
        pr_deopt st3 = dp \<and> g_jit_allocs st3 = g_jit_allocs st \<and> g_generic_allocs st3 = g_generic_allocs st + 1 \<and>
        tl_safe_point_counter st3 = tl_safe_point_counter st + 1"
      unfolding e using f dp served(4) by (simp add: libc_malloc_def)
    moreover have "p = en_malloc en (calls st) sz" using p f(1) served(4) by simp
    ultimately show ?thesis unfolding st4 using True rec by simp
  next
    case False
    then have run: "run_routine en fn sz (st2\<lparr>g_jit_allocs := g_jit_allocs st2 + 1\<rparr>) = Inr (p, st3)"
      using served(6) fn by (simp add: serve_def)
    have cnt: "tl_safe_point_counter st2 = tl_safe_point_counter st + 1" using f(8) served(4) by simp
    from run show ?thesis
      by (cases rule: run_routine_cases) (use False f dp served(4) cnt in \<open>simp_all add: st4\<close>)
  qed
qed

lemma free_owner:
  assumes "free en ra p st = Inr st'"
  shows "(is_bootstrap en p \<longrightarrow> st' = st) \<and>
    reentrancy_guard st' = reentrancy_guard st \<and> (calls st' = calls st \<or> calls st' = calls st @ [Libc_free p]) \<and>
    (g_initialized st \<and> \<not> reentrancy_guard st \<and> have_free st \<and> \<not> is_bootstrap en p \<and> p \<noteq> 0 \<longrightarrow>
      (if is_managed (seg_of p) (sg (pr_jit st))
       then calls st' = calls st \<and>
         pr_jit st' = (if g_shutting_down st then pr_jit st else free_managed (en_os en) (seg_of p) p (pr_jit st))
       else calls st' = calls st @ [Libc_free p] \<and> pr_jit st' = pr_jit st))"
  using assms
proof (cases rule: free_cases)
  case (recorded st1 st2)
  obtain tr w where st1: "st1 = st\<lparr>reentrancy_guard := True, pr_trace := tr, futex_word := w\<rparr>"
    using trace_fields(2) [OF recorded(6)] by auto
  obtain t where "st2 = st1\<lparr>pr_shadow := t\<rparr>" using shadow_free_fields [OF recorded(7)] by blast
  then have f: "calls st2 = calls st" "pr_jit st2 = pr_jit st" by (simp_all add: st1)
  show ?thesis using recorded(1-5) f unfolding recorded(8) by (simp add: libc_free_def)
qed (auto simp: libc_free_def resolve_real_allocators_def Let_def)

text \<open>
  C27: An instrumented \<open>malloc\<close> that returns clears its guard, counts the call towards the 32nd safe
  point, and takes one of three ways.  Without a routine for its call site it asks libc once, counts
  a generic allocation and records the event.  With one it counts a JIT allocation and records no event: either the
  routine hands out a chunk of its own, and libc is not asked, or its size guard fails, and then
  \<open>deopt::handle\<close> queues the site and reverts its entry, and libc is asked exactly once, without
  a generic allocation being counted.  It returns in no way when the routine fails an assertion.
\<close>

theorem malloc_served_once:
  assumes "malloc en ra sz st = Inr (p, st')"
    and "g_initialized st" and "\<not> g_shutting_down st" and "\<not> reentrancy_guard st"
    and "fn = fst (cached_lookup (hash_return_addr ra) st)"
    and "dp = pr_deopt (safe_point_tick en st)"
  shows "\<not> reentrancy_guard st' \<and> tl_safe_point_counter st' = tl_safe_point_counter st + 1 \<and>
    (if fn \<noteq> 0
     then pr_trace st' = pr_trace st \<and> g_jit_allocs st' = g_jit_allocs st + 1 \<and>
       g_generic_allocs st' = g_generic_allocs st \<and>
       (case en_routine en fn sz (pr_jit st) of
          Chunk q jit \<Rightarrow> p = q \<and> pr_jit st' = jit \<and> calls st' = calls st \<and>
            pr_deopt st' = dp \<and> pr_dispatch st' = pr_dispatch st
        | Guard_failed cs page r \<Rightarrow> p = en_malloc en (calls st) sz \<and> calls st' = calls st @ [Libc_malloc sz] \<and>
            pr_jit st' = pr_jit st \<and> (pr_deopt st', pr_dispatch st') = handle cs page r dp (pr_dispatch st)
        | Assert_failed \<Rightarrow> False)
     else p = en_malloc en (calls st) sz \<and> calls st' = calls st @ [Libc_malloc sz] \<and>
       (\<exists>wake. record_alloc (en_thread en) (en_tsc en) (hash_return_addr ra) sz p (pr_trace st) = Inr (wake, pr_trace st')) \<and>
       pr_jit st' = pr_jit st \<and> pr_dispatch st' = pr_dispatch st \<and> pr_deopt st' = dp \<and>
       g_jit_allocs st' = g_jit_allocs st \<and> g_generic_allocs st' = g_generic_allocs st + 1)"
  using assms by (rule malloc_served)

text \<open>
  C23: \<open>free\<close> never passes a bootstrap chunk to libc and, outside initialisation and nested calls,
  never a chunk of a managed segment: such a chunk goes to \<open>free_managed\<close>, or is dropped after
  shutdown.  Every other pointer but null reaches libc exactly once, and the guard is as before.
\<close>

theorem free_goes_to_owner:
  assumes "free en ra p st = Inr st'"
  shows "(is_bootstrap en p \<longrightarrow> st' = st) \<and>
    reentrancy_guard st' = reentrancy_guard st \<and> (calls st' = calls st \<or> calls st' = calls st @ [Libc_free p]) \<and>
    (g_initialized st \<and> \<not> reentrancy_guard st \<and> have_free st \<and> \<not> is_bootstrap en p \<and> p \<noteq> 0 \<longrightarrow>
      (if is_managed (seg_of p) (sg (pr_jit st))
       then calls st' = calls st \<and>
         pr_jit st' = (if g_shutting_down st then pr_jit st else free_managed (en_os en) (seg_of p) p (pr_jit st))
       else calls st' = calls st @ [Libc_free p] \<and> pr_jit st' = pr_jit st))"
  using assms by (rule free_owner)

section \<open>realloc of a managed chunk\<close>

lemma serve_flags:
  assumes "serve en cs sz fn st = Inr (p, st')"
  shows "g_initialized st' = g_initialized st \<and> g_shutting_down st' = g_shutting_down st \<and> have_free st' = have_free st"
proof (cases "fn = 0")
  case True
  then show ?thesis using assms
    by (auto simp: serve_def libc_malloc_def Let_def split: sum.splits dest!: trace_fields(1))
next
  case False
  then have "run_routine en fn sz (st\<lparr>g_jit_allocs := g_jit_allocs st + 1\<rparr>) = Inr (p, st')"
    using assms by (simp add: serve_def)
  then show ?thesis by (cases rule: run_routine_cases) simp_all
qed

lemma malloc_flags:
  assumes "malloc en ra sz st = Inr (p, st')" and "g_initialized st"
  shows "g_initialized st' = g_initialized st" "g_shutting_down st' = g_shutting_down st" "have_free st' = have_free st"
proof -
  have "g_initialized st' = g_initialized st \<and> g_shutting_down st' = g_shutting_down st \<and> have_free st' = have_free st"
  proof (cases "g_shutting_down st \<or> reentrancy_guard st")
    case True
    then have "st' = snd (libc_malloc en sz st)"
      using assms unfolding malloc_def by (metis Inr_inject snd_conv)
    then show ?thesis by (simp add: libc_malloc_def)
  next
    case False
    from assms(1) show ?thesis
    proof (cases rule: malloc_cases)
      case direct
      then show ?thesis using False assms(2) by simp
    next
      case (served st1 fn st2 st3)
      obtain s where s: "shadow_alloc en (hash_return_addr ra) sz p st3 = Inr s" "st' = s\<lparr>reentrancy_guard := False\<rparr>"
        using served(7) by blast
      obtain t where "s = st3\<lparr>pr_shadow := t\<rparr>" using shadow_alloc_fields [OF s(1)] by blast
      moreover have "g_initialized st2 = g_initialized st \<and> g_shutting_down st2 = g_shutting_down st \<and> have_free st2 = have_free st"
        using served(4,5) by (auto simp: cached_lookup_def safe_point_tick_def Let_def split: if_splits)
      moreover have "g_initialized st3 = g_initialized st2 \<and> g_shutting_down st3 = g_shutting_down st2 \<and> have_free st3 = have_free st2"
        by (rule serve_flags [OF served(6)])
      ultimately show ?thesis using s(2) by simp
    qed
  qed
  then show "g_initialized st' = g_initialized st" "g_shutting_down st' = g_shutting_down st" "have_free st' = have_free st"
    by simp_all
qed

lemma segment_end_unat:
  assumes "seg_ok (seg_of p)"
  shows "unat p \<le> unat (segment_end (seg_of p))"
proof -
  have "unat (seg_of p) = unat p div 0x200000 * 0x200000"
    by (simp add: seg_of_def SEGMENT_MASK_eq unat_and_not_mask)
  moreover have "unat (segment_end (seg_of p)) = unat (seg_of p) + 0x200000" by (rule unat_payload(2) [OF assms])
  moreover have "unat p mod 0x200000 < 0x200000" by simp
  moreover have "unat p = unat p div 0x200000 * 0x200000 + unat p mod 0x200000" by simp
  ultimately show ?thesis by linarith
qed

lemma unat_managed_cap:
  assumes "seg_ok (seg_of p)"
  shows "unat (managed_cap p st) =
    (if chunk_size (headers (sg (pr_jit st)) (seg_of p)) = 0 then unat (segment_end (seg_of p)) - unat p
     else unat (chunk_size (headers (sg (pr_jit st)) (seg_of p))))"
  using segment_end_unat [OF assms]
  by (simp add: managed_cap_def Let_def unat_ucast_up unat_minus_no_wrap word_le_nat_alt word_gt_0)

text \<open>
  C28: \<open>realloc\<close> of a managed chunk to a size other than zero allocates, copies into the new chunk the
  smaller of the requested size and the old chunk's capacity, and frees the old chunk, as long as
  the allocation left its segment managed.  The capacity is the segment's chunk size; for a segment
  of variable sizes, whose chunk size is 0, it is what lies between the pointer and the segment's
  end.  So the copy reads no byte behind the old chunk, nor behind its segment when the chunk lies
  in it.  The old chunk is freed also when the allocation failed, where C leaves the old block
  alone.
\<close>

theorem realloc_moves_managed_chunk:
  assumes "realloc en ra p sz st = Inr (out, st')"
    and "g_initialized st" and "\<not> g_shutting_down st" and "\<not> reentrancy_guard st" and "have_free st"
    and "\<not> is_bootstrap en p" and "p \<noteq> 0" and "sz \<noteq> 0" and "is_managed (seg_of p) (sg (pr_jit st))" and "seg_ok (seg_of p)"
    and "h = headers (sg (pr_jit st)) (seg_of p)"
  shows "\<exists>st1 n. malloc en (en_realloc_ra en) sz st = Inr (out, st1) \<and>
    unat n = min (unat sz) (if chunk_size h = 0 then unat (segment_end (seg_of p)) - unat p else unat (chunk_size h)) \<and>
    (unat p + unat (chunk_size h) \<le> unat (segment_end (seg_of p)) \<longrightarrow> unat p + unat n \<le> unat (segment_end (seg_of p))) \<and>
    (is_managed (seg_of p) (sg (pr_jit st1)) \<longrightarrow>
       calls st' = calls st1 @ (if out \<noteq> 0 then [Memcpy out p n] else []) \<and>
       pr_jit st' = free_managed (en_os en) (seg_of p) p (pr_jit st1))"
proof -
  let ?n = "if sz < managed_cap p st then sz else managed_cap p st"
  obtain st1 where m: "malloc en (en_realloc_ra en) sz st = Inr (out, st1)"
    and f: "free en (en_realloc_ra en) p (if out \<noteq> 0 then memcpy out p ?n st1 else st1) = Inr st'"
    using assms(1-9) unfolding realloc_def by (auto simp: Let_def split: sum.splits prod.splits if_splits)
  have g: "\<not> reentrancy_guard st1" using malloc_served [OF m assms(2-4) refl refl] by simp
  note fl = malloc_flags [OF m assms(2)]
  let ?s = "if out \<noteq> 0 then memcpy out p ?n st1 else st1"
  have s: "g_initialized ?s" "\<not> g_shutting_down ?s" "\<not> reentrancy_guard ?s" "have_free ?s" "pr_jit ?s = pr_jit st1"
    "calls ?s = calls st1 @ (if out \<noteq> 0 then [Memcpy out p ?n] else [])"
    using fl g assms(2,3,5) by (simp_all add: memcpy_def)
  have "is_managed (seg_of p) (sg (pr_jit st1)) \<Longrightarrow> calls st' = calls ?s \<and>
      pr_jit st' = free_managed (en_os en) (seg_of p) p (pr_jit st1)"
    using free_owner [OF f] s assms(6,7) by simp
  moreover have n: "unat ?n = min (unat sz)
      (if chunk_size h = 0 then unat (segment_end (seg_of p)) - unat p else unat (chunk_size h))"
    unfolding assms(11) unat_managed_cap [OF assms(10), symmetric] by (simp add: word_less_nat_alt min_def)
  moreover have "unat p + unat ?n \<le> unat (segment_end (seg_of p))"
    if "unat p + unat (chunk_size h) \<le> unat (segment_end (seg_of p))"
    using that segment_end_unat [OF assms(10)] unfolding n by auto
  ultimately show ?thesis using m s(6) by metis
qed

section \<open>The bootstrap arena\<close>

fun bootstrap_run :: "env \<Rightarrow> u64 list \<Rightarrow> process \<Rightarrow> addr list \<times> process" where
  "bootstrap_run en [] st = ([], st)"
| "bootstrap_run en (sz # szs) st =
     (let (p, st) = bootstrap_alloc en sz st; (ps, st) = bootstrap_run en szs st in (p # ps, st))"

lemma align_16:
  fixes sz :: u64
  assumes "unat sz + 15 < 2 ^ 64"
  shows "unat ((sz + 15) AND NOT 15) mod 16 = 0" and "unat sz \<le> unat ((sz + 15) AND NOT 15)"
    and "unat ((sz + 15) AND NOT 15) \<le> unat sz + 15"
proof -
  have m: "(15 :: u64) = mask 4" by (simp add: mask_eq_exp_minus_1)
  have e: "unat ((sz + 15) AND NOT 15) = (unat sz + 15) div 16 * 16"
    unfolding m using unat_align_up [of sz 4] assms by simp
  show "unat ((sz + 15) AND NOT 15) mod 16 = 0" "unat sz \<le> unat ((sz + 15) AND NOT 15)"
    "unat ((sz + 15) AND NOT 15) \<le> unat sz + 15" unfolding e by presburger+
qed

definition bootstrap_chunk_ok :: "env \<Rightarrow> nat \<Rightarrow> addr \<Rightarrow> u64 \<Rightarrow> bool" where
  "bootstrap_chunk_ok en used p sz \<longleftrightarrow> unat p mod 16 = 0 \<and> unat (en_bootstrap en) + used \<le> unat p \<and>
     unat p + unat sz \<le> unat (en_bootstrap en) + 65536"

lemma bootstrap_alloc_chunk:
  assumes base: "unat (en_bootstrap en) mod 16 = 0" "unat (en_bootstrap en) + 65536 < 2 ^ 64"
    and used: "unat (g_bootstrap_used st) mod 16 = 0" "unat (g_bootstrap_used st) + unat sz + 15 < 2 ^ 64"
    and r: "bootstrap_alloc en sz st = (p, st')"
  shows "p \<noteq> 0 \<Longrightarrow> bootstrap_chunk_ok en (unat (g_bootstrap_used st)) p sz \<and>
      unat p + unat sz \<le> unat (en_bootstrap en) + unat (g_bootstrap_used st')"
    and "unat (g_bootstrap_used st') mod 16 = 0"
    and "unat (g_bootstrap_used st) \<le> unat (g_bootstrap_used st')"
    and "unat (g_bootstrap_used st') \<le> unat (g_bootstrap_used st) + unat sz + 15"
proof -
  let ?a = "(sz + 15) AND NOT 15" and ?u = "g_bootstrap_used st"
  have a': "unat ?a mod 16 = 0" "unat sz \<le> unat ?a" "unat ?a \<le> unat sz + 15"
    using align_16 [of sz] used(2) by simp_all
  have st': "g_bootstrap_used st' = ?u + ?a" and p: "p = (if BOOTSTRAP_SIZE < ?u + ?a then 0 else en_bootstrap en + ?u)"
    using r by (auto simp: bootstrap_alloc_def Let_def)
  have s: "unat (?u + ?a) = unat ?u + unat ?a" using a'(3) used(2) by (intro unat_plus_no_wrap) simp
  show "unat (g_bootstrap_used st') mod 16 = 0" using a'(1) used(1) unfolding st' s by presburger
  show "unat ?u \<le> unat (g_bootstrap_used st')" "unat (g_bootstrap_used st') \<le> unat ?u + unat sz + 15"
    using a'(3) unfolding st' s by simp_all
  assume "p \<noteq> 0"
  then have fit: "unat ?u + unat ?a \<le> 65536" and pe: "p = en_bootstrap en + ?u"
    using p s by (auto simp: BOOTSTRAP_SIZE_def word_less_nat_alt split: if_splits)
  have up: "unat p = unat (en_bootstrap en) + unat ?u"
    unfolding pe using fit base(2) by (intro unat_plus_no_wrap) simp
  show "bootstrap_chunk_ok en (unat ?u) p sz \<and> unat p + unat sz \<le> unat (en_bootstrap en) + unat (g_bootstrap_used st')"
    unfolding bootstrap_chunk_ok_def up st' s using fit a'(2) base(1) used(1) by (simp add: mod_add_eq [symmetric])
qed

lemma bootstrap_run_chunks:
  assumes base: "unat (en_bootstrap en) mod 16 = 0" "unat (en_bootstrap en) + 65536 < 2 ^ 64"
  shows "unat (g_bootstrap_used st) mod 16 = 0 \<Longrightarrow>
    unat (g_bootstrap_used st) + (\<Sum>sz \<leftarrow> szs. unat sz + 15) < 2 ^ 64 \<Longrightarrow> bootstrap_run en szs st = (ps, st') \<Longrightarrow>
    length ps = length szs \<and>
    (\<forall>(p, sz) \<in> set (zip ps szs). p \<noteq> 0 \<longrightarrow> bootstrap_chunk_ok en (unat (g_bootstrap_used st)) p sz) \<and>
    sorted_wrt (\<lambda>(p, sz) (q, _). p \<noteq> 0 \<longrightarrow> q \<noteq> 0 \<longrightarrow> unat p + unat sz \<le> unat q) (zip ps szs)"
proof (induction szs arbitrary: st ps)
  case (Cons sz szs)
  obtain p st1 where a: "bootstrap_alloc en sz st = (p, st1)" by fastforce
  obtain ps' where r: "bootstrap_run en szs st1 = (ps', st')" "ps = p # ps'"
    using Cons.prems(3) a by (auto simp: Let_def split: prod.splits)
  have "unat (g_bootstrap_used st) + unat sz + 15 < 2 ^ 64" using Cons.prems(2) by simp
  note c = bootstrap_alloc_chunk [OF base Cons.prems(1) this a]
  have "unat (g_bootstrap_used st1) + (\<Sum>sz \<leftarrow> szs. unat sz + 15) < 2 ^ 64" using Cons.prems(2) c(4) by simp
  note ih = Cons.IH [OF c(2) this r(1)]
  have weak: "bootstrap_chunk_ok en (unat (g_bootstrap_used st)) q s" if "bootstrap_chunk_ok en (unat (g_bootstrap_used st1)) q s" for q s
    using that c(3) by (simp add: bootstrap_chunk_ok_def)
  have after: "unat p + unat sz \<le> unat q" if "p \<noteq> 0" "bootstrap_chunk_ok en (unat (g_bootstrap_used st1)) q s" for q s
    using c(1) that by (simp add: bootstrap_chunk_ok_def)
  show ?case unfolding r(2) using ih c(1) weak after by (auto 0 3)
qed simp

text \<open>
  The chunks of the bootstrap arena are 16-aligned, lie in the arena and do not overlap, whatever
  sizes are requested before initialisation, as long as their sum does not wrap.
\<close>

theorem bootstrap_chunks_disjoint:
  assumes "unat (en_bootstrap en) mod 16 = 0" and "unat (en_bootstrap en) + 65536 < 2 ^ 64" and "g_bootstrap_used st = 0"
    and "(\<Sum>sz \<leftarrow> szs. unat sz + 15) < 2 ^ 64" and "bootstrap_run en szs st = (ps, st')"
  shows "(\<forall>(p, sz) \<in> set (zip ps szs). p \<noteq> 0 \<longrightarrow> unat p mod 16 = 0 \<and> unat (en_bootstrap en) \<le> unat p \<and>
      unat p + unat sz \<le> unat (en_bootstrap en) + 65536) \<and>
    sorted_wrt (\<lambda>(p, sz) (q, _). p \<noteq> 0 \<longrightarrow> q \<noteq> 0 \<longrightarrow> unat p + unat sz \<le> unat q) (zip ps szs)"
  using bootstrap_run_chunks [OF assms(1,2) _ _ assms(5)] assms(3,4) by (auto simp: bootstrap_chunk_ok_def)

section \<open>Concrete calls\<close>

definition demo_proc_env :: env where
  "demo_proc_env =
     \<lparr>en_bootstrap = 0x10000, en_dlsym = (\<lambda>_. True), en_malloc = (\<lambda>_ _. 0x9000), en_realloc = (\<lambda>_ p _. p),
      en_routine = (\<lambda>fn sz jit. if sz \<le> 48 then Chunk 0x7000 jit
                              else Guard_failed (hash_return_addr 0x401000) 0x4000 SizeDrift),
      en_os = demo_env, en_thread = 1, en_tsc = 0,
      en_shadow = False, en_realloc_ra = 0x401000\<rparr>"

definition demo_process :: process where
  "demo_process =
     \<lparr>g_initialized = True, g_shutting_down = False, have_malloc = True, have_free = True, have_realloc = True,
      g_bootstrap_used = 0, reentrancy_guard = False, tl_safe_point_counter = 0,
      tl_ic_id = hash_return_addr 0x401000, tl_ic_fn = 0x4000, tl_ic_gen = 1,
      g_jit_allocs = 0, g_generic_allocs = 0, futex_word = AWAKE, pr_dispatch = snd demo_table, pr_deopt = deopt_start,
      pr_trace = \<lparr>ts_arena = g_arena_zero, ts_rings = [ring_new], ts_ring_of = (\<lambda>_. Some 0)\<rparr>,
      pr_shadow = shadow_empty, pr_jit = demo_retired, calls = []\<rparr>"

lemma trace_free_runs:
  "ts_ring_of (pr_trace st) (en_thread en) = Some k \<Longrightarrow> \<exists>st'. trace_free en cs p st = Inr st'"
  by (simp add: trace_free_def record_free_def record_event_def get_ring_def Let_def split: prod.split)

lemma demo_segment: "is_managed 0x400000 demo_segs" "seg_of 0x400080 = 0x400000"
  by (simp_all add: demo_segs_def is_managed_def seg_of_def SEGMENT_MASK_def SEGMENT_SIZE_def SEGMENT_SHIFT_def
      PM_SLOTS_def push_bit_eq_mult drop_bit_eq_div Let_def word_le_nat_alt)

lemma demo_hash: "hash_return_addr 0x401000 \<noteq> 0"
  by (simp add: hash_return_addr_def drop_bit_eq_div Let_def)

lemma demo_malloc: "\<exists>st'. malloc demo_proc_env 0x401000 48 demo_process = Inr (0x7000, st')"
  by (simp add: malloc_def demo_process_def demo_proc_env_def cached_lookup_def safe_point_tick_def serve_def run_routine_def
      shadow_alloc_def demo_table_def dispatch_static_def Let_def)

theorem inline_cache_transparent_witness:
  "\<exists>st'. tramp_run demo_proc_env [Other_install (hash_return_addr 0x401000) 0x4000, Do_malloc 0x401000 48]
      (demo_process\<lparr>tl_ic_gen := 0\<rparr>) = Inr st' \<and>
    fst (cached_lookup (hash_return_addr 0x401000) st') = 0x4000"
proof -
  let ?cs = "hash_return_addr 0x401000" and ?st = "demo_process\<lparr>tl_ic_gen := 0\<rparr>"
  have ok: "analysis_ok demo_knobs (analysis_start demo_cg (snd demo_table))" by (rule demo_start_ok)
  then have inv: "dispatch_inv (snd demo_table)" by (simp add: analysis_ok_def analysis_start_def)
  obtain d where d: "dispatch_install ?cs 0x4000 (snd demo_table) = Inr d"
    using install_succeeds [OF ok _ _ demo_hash, where ss = "[summary_new ?cs]"]
    by (auto simp: analysis_start_def site_ids_def summary_new_def)
  have l: "dispatch_lookup ?cs d = 0x4000" using dispatch_lookup_install [OF inv demo_hash demo_hash d] by simp
  have g: "dt_generation d = 2"
    using d by (auto simp: dispatch_install_def demo_table_def dispatch_static_def split: option.splits)
  have "\<exists>st'. malloc demo_proc_env 0x401000 48 (?st\<lparr>pr_dispatch := d\<rparr>) = Inr (0x7000, st') \<and> pr_dispatch st' = d"
    using l g by (simp add: malloc_def demo_process_def demo_proc_env_def cached_lookup_def safe_point_tick_def serve_def run_routine_def
      shadow_alloc_def Let_def)
  then obtain st' where st': "malloc demo_proc_env 0x401000 48 (?st\<lparr>pr_dispatch := d\<rparr>) = Inr (0x7000, st')" "pr_dispatch st' = d"
    by blast
  have run: "tramp_run demo_proc_env [Other_install ?cs 0x4000, Do_malloc 0x401000 48] ?st = Inr st'"
    using d st'(1) by (simp add: demo_process_def)
  have "fst (cached_lookup ?cs st') = dispatch_lookup ?cs (pr_dispatch st')"
    by (rule inline_cache_transparent [OF run])
      (simp_all add: demo_process_def demo_table_def dispatch_static_def)
  then show ?thesis using run st'(2) l by auto
qed

theorem malloc_served_once_witness:
  "\<exists>st' st''. malloc demo_proc_env 0x401000 48 demo_process = Inr (0x7000, st') \<and> g_jit_allocs st' = 1 \<and> calls st' = [] \<and>
     malloc demo_proc_env 0x401000 64 demo_process = Inr (0x9000, st'') \<and> g_jit_allocs st'' = 1 \<and>
     calls st'' = [Libc_malloc 64] \<and> dq_contents (pr_deopt st'') = [\<lparr>dq_id = hash_return_addr 0x401000, dq_page = 0x4000, dq_reason = SizeDrift\<rparr>]"
proof -
  obtain st' where st': "malloc demo_proc_env 0x401000 48 demo_process = Inr (0x7000, st')" using demo_malloc by blast
  have "\<exists>st''. malloc demo_proc_env 0x401000 64 demo_process = Inr (0x9000, st'')"
    by (simp add: malloc_def demo_process_def demo_proc_env_def cached_lookup_def safe_point_tick_def serve_def run_routine_def
        libc_malloc_def shadow_alloc_def demo_table_def dispatch_static_def Let_def split: prod.split)
  then obtain st'' where st'': "malloc demo_proc_env 0x401000 64 demo_process = Inr (0x9000, st'')" by blast
  have fn: "fst (cached_lookup (hash_return_addr 0x401000) demo_process) = 0x4000"
    by (simp add: cached_lookup_def demo_process_def demo_table_def dispatch_static_def Let_def)
  have dp: "pr_deopt (safe_point_tick demo_proc_env demo_process) = deopt_start"
    by (simp add: safe_point_tick_def demo_process_def Let_def)
  have "g_jit_allocs st' = 1 \<and> calls st' = []"
    using malloc_served_once [OF st' _ _ _ refl refl] unfolding fn by (simp add: demo_process_def demo_proc_env_def)
  moreover have "g_jit_allocs st'' = 1 \<and> calls st'' = [Libc_malloc 64] \<and>
      dq_contents (pr_deopt st'') = [\<lparr>dq_id = hash_return_addr 0x401000, dq_page = 0x4000, dq_reason = SizeDrift\<rparr>]"
    using malloc_served_once [OF st'' _ _ _ refl refl] unfolding fn dp
    by (simp add: demo_process_def demo_proc_env_def handle_def deopt_start_def dq_push_def dq_contents_def slice_def DEOPT_QUEUE_CAP_def)
  ultimately show ?thesis using st' st'' by blast
qed

theorem free_goes_to_owner_witness:
  "\<exists>st'. free demo_proc_env 0x401100 0x400080 demo_process = Inr st' \<and> calls st' = [] \<and>
     live_chunks (headers (sg (pr_jit st')) 0x400000) = 0"
proof -
  obtain s1 where s1: "trace_free demo_proc_env (hash_return_addr 0x401100) 0x400080 (demo_process\<lparr>reentrancy_guard := True\<rparr>) = Inr s1"
    using trace_free_runs [of "demo_process\<lparr>reentrancy_guard := True\<rparr>" demo_proc_env 0] by (auto simp: demo_process_def)
  have nb: "\<not> is_bootstrap demo_proc_env 0x400080"
    by (simp add: is_bootstrap_def demo_proc_env_def BOOTSTRAP_SIZE_def)
  have "\<exists>st'. free demo_proc_env 0x401100 0x400080 demo_process = Inr st'"
    using nb s1 by (simp add: free_def shadow_free_def demo_process_def demo_proc_env_def Let_def)
  then obtain st' where st': "free demo_proc_env 0x401100 0x400080 demo_process = Inr st'" by blast
  have "calls st' = calls demo_process \<and>
      pr_jit st' = free_managed demo_env 0x400000 0x400080 demo_retired"
    using free_goes_to_owner [OF st'] nb demo_segment
    by (simp add: demo_process_def demo_retired_def demo_proc_env_def)
  then show ?thesis using st'
    by (simp add: demo_process_def demo_retired_def demo_segs_def free_managed_def dec_live_def upd_header_def new_header_def)
qed

theorem bootstrap_chunks_disjoint_witness:
  "\<exists>st'. bootstrap_run demo_proc_env [24, 65500, 40] demo_process = ([0x10000, 0x10020, 0], st') \<and>
   sorted_wrt (\<lambda>(p, sz) (q, _). p \<noteq> 0 \<longrightarrow> q \<noteq> 0 \<longrightarrow> unat p + unat sz \<le> unat q)
     (zip [0x10000, 0x10020, 0 :: addr] [24, 65500, 40 :: u64])"
proof -
  have "\<exists>st'. bootstrap_run demo_proc_env [24, 65500, 40] demo_process = ([0x10000, 0x10020, 0], st')"
    by (simp add: bootstrap_alloc_def BOOTSTRAP_SIZE_def demo_proc_env_def demo_process_def Let_def)
  then obtain st' where r: "bootstrap_run demo_proc_env [24, 65500, 40] demo_process = ([0x10000, 0x10020, 0], st')" ..
  show ?thesis
    using bootstrap_chunks_disjoint [OF _ _ _ _ r] r by (simp add: demo_proc_env_def demo_process_def)
qed

theorem realloc_moves_managed_chunk_witness:
  "\<exists>st'. realloc demo_proc_env 0x401200 0x400080 96 demo_process = Inr (0x9000, st') \<and>
     live_chunks (headers (sg (pr_jit st')) 0x400000) = 0 \<and> calls st' = [Libc_malloc 96, Memcpy 0x9000 0x400080 64]"
proof -
  have nb: "\<not> is_bootstrap demo_proc_env 0x400080"
    by (simp add: is_bootstrap_def demo_proc_env_def BOOTSTRAP_SIZE_def)
  have "\<exists>st1. malloc demo_proc_env 0x401000 96 demo_process = Inr (0x9000, st1) \<and> pr_jit st1 = demo_retired \<and>
      calls st1 = [Libc_malloc 96] \<and> pr_trace st1 = pr_trace demo_process \<and> \<not> reentrancy_guard st1 \<and> g_initialized st1 \<and>
      \<not> g_shutting_down st1 \<and> have_free st1"
    by (simp add: malloc_def demo_process_def demo_proc_env_def cached_lookup_def safe_point_tick_def serve_def run_routine_def
        libc_malloc_def shadow_alloc_def demo_table_def dispatch_static_def Let_def split: prod.split)
  then obtain st1 where m: "malloc demo_proc_env 0x401000 96 demo_process = Inr (0x9000, st1)" and
    s1: "pr_jit st1 = demo_retired" "calls st1 = [Libc_malloc 96]" "pr_trace st1 = pr_trace demo_process" "\<not> reentrancy_guard st1"
      "g_initialized st1" "\<not> g_shutting_down st1" "have_free st1" by blast
  have f: "\<exists>st'. free demo_proc_env 0x401000 0x400080 (memcpy 0x9000 0x400080 n st1) = Inr st'" for n
  proof -
    obtain s2 where "trace_free demo_proc_env (hash_return_addr 0x401000) 0x400080
        ((memcpy 0x9000 0x400080 n st1)\<lparr>reentrancy_guard := True\<rparr>) = Inr s2"
      using trace_free_runs [of "(memcpy 0x9000 0x400080 n st1)\<lparr>reentrancy_guard := True\<rparr>" demo_proc_env 0] s1(3)
      by (auto simp: demo_process_def memcpy_def)
    then show ?thesis using nb s1(4-7)
      by (simp add: free_def shadow_free_def memcpy_def demo_proc_env_def Let_def)
  qed
  have man: "is_managed (seg_of 0x400080) (sg (pr_jit demo_process))"
    using demo_segment by (simp add: demo_process_def demo_retired_def)
  have ra: "en_realloc_ra demo_proc_env = 0x401000" by (simp add: demo_proc_env_def)
  have fl: "g_initialized demo_process" "\<not> g_shutting_down demo_process" "\<not> reentrancy_guard demo_process" "have_free demo_process"
    by (simp_all add: demo_process_def)
  let ?cap = "managed_cap 0x400080 demo_process"
  obtain st' where f': "free demo_proc_env 0x401000 0x400080
      (memcpy 0x9000 0x400080 (if 96 < ?cap then 96 else ?cap) st1) = Inr st'" using f by blast
  have r: "realloc demo_proc_env 0x401200 0x400080 96 demo_process = Inr (0x9000, st')"
    unfolding realloc_def using nb fl man m f' by (simp add: ra Let_def)
  have ok: "seg_ok (seg_of 0x400080)" using demo_segs_inv demo_segment by (simp add: seg_inv_def demo_segs_def)
  have h: "chunk_size (headers (sg (pr_jit demo_process)) (seg_of 0x400080)) = 64"
    by (simp add: demo_segment demo_process_def demo_retired_def demo_segs_def new_header_def)
  obtain st2 n where p: "malloc demo_proc_env 0x401000 96 demo_process = Inr (0x9000, st2)" "unat n = 64"
    "is_managed (seg_of 0x400080) (sg (pr_jit st2)) \<longrightarrow>
       calls st' = calls st2 @ [Memcpy 0x9000 0x400080 n] \<and>
       pr_jit st' = free_managed demo_env (seg_of 0x400080) 0x400080 (pr_jit st2)"
    using realloc_moves_managed_chunk [OF r fl nb _ _ man ok refl] unfolding h by (auto simp: ra) (auto simp: demo_proc_env_def)
  have "st2 = st1" and n: "n = 64" using p(1,2) m by (simp_all add: word_unat_eq_iff)
  then have "calls st' = [Libc_malloc 96, Memcpy 0x9000 0x400080 64] \<and>
      pr_jit st' = free_managed demo_env 0x400000 0x400080 demo_retired"
    using p(3) s1 demo_segment by (simp add: demo_retired_def)
  then show ?thesis using r
    by (auto simp: demo_retired_def demo_segs_def free_managed_def dec_live_def upd_header_def new_header_def)
qed

end
