(* ===== verification/Background.thy ===== *)
theory Background
  imports Trace_File Trampoline
begin

text \<open>
  The background thread (\<open>src/src/analysis/analysis.cpp\<close>, lines 224-274): drain the rings into the
  analysis and the trace file, reclaim pages and segments, back off while idle, drain once more on
  shutdown.  What other threads do between two iterations, the answers of the operating system and
  the flag \<open>g_running\<close> come as a list of inputs, so that the loop is a recursion over it.  Within
  one drain no new events arrive: a later push is part of the next input.
\<close>

section \<open>Draining\<close>

record background =
  bg_trace :: trace_state
  bg_deopt :: deopt_state
  bg_analysis :: analysis
  bg_seg :: seg_state
  bg_writer :: writer
  g_events_processed :: u64

record tools =
  to_knobs :: knobs
  to_link :: "u32 \<Rightarrow> link_env"
  to_pad :: "AllocEvent \<Rightarrow> u8 list"

definition take_event :: "tools \<Rightarrow> AllocEvent \<Rightarrow> background \<Rightarrow> dispatch_error + background" where
  "take_event to ev st =
     (case process_event (to_knobs to) (to_link to) (bg_seg st) ev (bg_analysis st) of
        Inl e \<Rightarrow> Inl e
      | Inr an \<Rightarrow>
          let st = st\<lparr>bg_analysis := an\<rparr>;
              st = (if writer_active (bg_writer st)
                    then st\<lparr>bg_writer := writer_write (to_pad to ev) ev (bg_writer st)\<rparr> else st)
          in Inr (st\<lparr>g_events_processed := g_events_processed st + 1\<rparr>))"

lemma ring_pop_measure:
  assumes "ring_pop rb = Some (ev, rb')"
  shows "unat (rb_head rb' - rb_tail rb') < unat (rb_head rb - rb_tail rb)"
proof -
  let ?n = "rb_head rb - rb_tail rb"
  have ne: "?n \<noteq> 0" and e: "rb_head rb' - rb_tail rb' = ?n - 1"
    using assms by (auto simp: ring_pop_def Let_def split: if_splits)
  have "unat (?n - 1) = unat ?n - 1" using ne by (rule unat_minus_one)
  moreover have "0 < unat ?n" using ne by (simp add: unat_gt_0)
  ultimately show ?thesis unfolding e by linarith
qed

function drain_ring :: "tools \<Rightarrow> RingBuffer \<Rightarrow> bool \<Rightarrow> background \<Rightarrow> dispatch_error + (RingBuffer \<times> bool \<times> background)" where
  "drain_ring to rb found st =
     (case ring_pop rb of
        None \<Rightarrow> Inr (rb, found, st)
      | Some (ev, rb) \<Rightarrow>
          (case take_event to ev st of Inl e \<Rightarrow> Inl e | Inr st \<Rightarrow> drain_ring to rb True st))"
  by pat_completeness auto
termination
  by (relation "measure (\<lambda>(to, rb, found, st). unat (rb_head rb - rb_tail rb))") (auto dest: ring_pop_measure)

declare drain_ring.simps [simp del]

fun drain_rings :: "tools \<Rightarrow> RingBuffer list \<Rightarrow> bool \<Rightarrow> background \<Rightarrow> dispatch_error + (RingBuffer list \<times> bool \<times> background)" where
  "drain_rings to [] found st = Inr ([], found, st)"
| "drain_rings to (rb # rbs) found st =
     (case drain_ring to rb found st of
        Inl e \<Rightarrow> Inl e
      | Inr (rb, found, st) \<Rightarrow>
          (case drain_rings to rbs found st of
             Inl e \<Rightarrow> Inl e
           | Inr (rbs, found, st) \<Rightarrow> Inr (rb # rbs, found, st)))"

definition drain_all :: "tools \<Rightarrow> background \<Rightarrow> dispatch_error + (bool \<times> background)" where
  "drain_all to st =
     (case drain_rings to (ts_rings (bg_trace st)) False st of
        Inl e \<Rightarrow> Inl e
      | Inr (rbs, found, st) \<Rightarrow> Inr (found, st\<lparr>bg_trace := (bg_trace st)\<lparr>ts_rings := rbs\<rparr>\<rparr>))"

section \<open>The loop\<close>

datatype pause = Nanosleep u32 | Futex_wait

record bg_input =
  in_running :: bool
  in_still_running :: bool
  in_os :: os_env
  in_mode :: ReapMode
  in_others :: "background \<Rightarrow> background"

definition run_drain_pending :: "tools \<Rightarrow> background \<Rightarrow> background" where
  "run_drain_pending to st =
     (let (dp, an) = drain_pending (to_knobs to) (bg_deopt st) (bg_analysis st)
      in st\<lparr>bg_deopt := dp, bg_analysis := an\<rparr>)"

definition run_reaper :: "os_env \<Rightarrow> ReapMode \<Rightarrow> background \<Rightarrow> background" where
  "run_reaper os mode st =
     st\<lparr>bg_seg := snd (reaper_sweep os mode (Some (reap_predicate (summaries (bg_analysis st)))) (bg_seg st))\<rparr>"

definition background_iteration ::
    "tools \<Rightarrow> os_env \<Rightarrow> ReapMode \<Rightarrow> background \<Rightarrow> dispatch_error + (bool \<times> background)" where
  "background_iteration to os mode st = drain_all to (run_reaper os mode (run_drain_pending to st))"

definition final_drain :: "tools \<Rightarrow> background \<Rightarrow> dispatch_error + background" where
  "final_drain to st = map_sum id snd (drain_all to (run_drain_pending to st))"

definition next_backoff :: "u32 \<Rightarrow> u32" where
  "next_backoff b = (if b * 2 < 500 then b * 2 else 500)"

fun background_loop ::
    "tools \<Rightarrow> bg_input list \<Rightarrow> u32 \<Rightarrow> background \<Rightarrow> dispatch_error + (pause list \<times> background)" where
  "background_loop to [] b st = map_sum id (Pair []) (final_drain to st)"
| "background_loop to (i # is) b st =
     (if \<not> in_running i then map_sum id (Pair []) (final_drain to (in_others i st))
      else
        case background_iteration to (in_os i) (in_mode i) (in_others i st) of
          Inl e \<Rightarrow> Inl e
        | Inr (found, st) \<Rightarrow>
            if found then background_loop to is 1 st
            else if b < 500
            then map_sum id (apfst (Cons (Nanosleep b))) (background_loop to is (next_backoff b) st)
            else if \<not> in_still_running i then map_sum id (Pair []) (final_drain to st)
            else map_sum id (apfst (Cons Futex_wait)) (background_loop to is b st))"

section \<open>Draining is processing in order\<close>

fun take_events :: "tools \<Rightarrow> AllocEvent list \<Rightarrow> background \<Rightarrow> dispatch_error + background" where
  "take_events to [] st = Inr st"
| "take_events to (ev # evs) st = (case take_event to ev st of Inl e \<Rightarrow> Inl e | Inr st \<Rightarrow> take_events to evs st)"

lemma take_events_append:
  "take_events to (xs @ ys) st = (case take_events to xs st of Inl e \<Rightarrow> Inl e | Inr st \<Rightarrow> take_events to ys st)"
  by (induction xs arbitrary: st) (auto split: sum.split)

lemma drain_ring_spec:
  "ring_inv rb \<Longrightarrow>
    (case take_events to (ring_contents rb) st of
       Inl e \<Rightarrow> drain_ring to rb found st = Inl e
     | Inr st' \<Rightarrow> \<exists>rb'. drain_ring to rb found st = Inr (rb', found \<or> ring_contents rb \<noteq> [], st') \<and>
         ring_inv rb' \<and> ring_contents rb' = [])"
proof (induction "ring_contents rb" arbitrary: rb found st)
  case Nil
  then have c: "ring_contents rb = []" by simp
  have "drain_ring to rb found st = Inr (rb, found, st)"
    using trace_ring.pop_empty [OF Nil.prems c] by (subst drain_ring.simps) simp
  then show ?case using c Nil.prems by simp
next
  case (Cons ev evs)
  note c = Cons.hyps(2) [symmetric]
  obtain rb1 where p: "ring_pop rb = Some (ev, rb1)" "ring_contents rb1 = evs" "ring_inv rb1"
    using trace_ring.pop_first [OF Cons.prems c] by blast
  have d: "drain_ring to rb found st = (case take_event to ev st of Inl e \<Rightarrow> Inl e | Inr st \<Rightarrow> drain_ring to rb1 True st)"
    by (subst drain_ring.simps) (simp add: p(1))
  show ?case
  proof (cases "take_event to ev st")
    case (Inl e)
    then show ?thesis unfolding c d by simp
  next
    case (Inr s1)
    then show ?thesis
      using Cons.hyps(1) [OF p(2) [symmetric] p(3), where st = s1 and found = True] unfolding c d p(2)
      by (auto split: sum.splits)
  qed
qed

lemma drain_rings_spec:
  "\<forall>rb \<in> set rbs. ring_inv rb \<Longrightarrow>
    (case take_events to (concat (map ring_contents rbs)) st of
       Inl e \<Rightarrow> drain_rings to rbs found st = Inl e
     | Inr st' \<Rightarrow> \<exists>rbs'. drain_rings to rbs found st = Inr (rbs', found \<or> concat (map ring_contents rbs) \<noteq> [], st') \<and>
         length rbs' = length rbs \<and> (\<forall>rb \<in> set rbs'. ring_inv rb \<and> ring_contents rb = []))"
proof (induction rbs arbitrary: found st)
  case (Cons rb rbs)
  have inv: "ring_inv rb" and invs: "\<forall>rb \<in> set rbs. ring_inv rb" using Cons.prems by simp_all
  show ?case
  proof (cases "take_events to (ring_contents rb) st")
    case (Inl e)
    then show ?thesis using drain_ring_spec [OF inv, where to = to and st = st and found = found] by (simp add: take_events_append)
  next
    case (Inr s1)
    then obtain rb' where d: "drain_ring to rb found st = Inr (rb', found \<or> ring_contents rb \<noteq> [], s1)"
      "ring_inv rb'" "ring_contents rb' = []"
      using drain_ring_spec [OF inv, where to = to and st = st and found = found] by auto
    show ?thesis
      using Cons.IH [OF invs, where st = s1 and found = "found \<or> ring_contents rb \<noteq> []"] d Inr
      by (auto simp: take_events_append split: sum.splits)
  qed
qed simp

lemma take_event_trace: "take_event to ev st = Inr st' \<Longrightarrow> bg_trace st' = bg_trace st \<and> bg_deopt st' = bg_deopt st \<and> bg_seg st' = bg_seg st"
  by (auto simp: take_event_def Let_def split: sum.splits if_splits)

lemma take_events_trace: "take_events to evs st = Inr st' \<Longrightarrow> bg_trace st' = bg_trace st \<and> bg_deopt st' = bg_deopt st \<and> bg_seg st' = bg_seg st"
proof (induction evs arbitrary: st)
  case (Cons ev evs)
  then show ?case using take_event_trace [of to ev st] by (auto split: sum.splits)
qed simp

lemma drain_all_spec:
  assumes "\<forall>rb \<in> set (ts_rings (bg_trace st)). ring_inv rb"
  shows "case take_events to (concat (map ring_contents (ts_rings (bg_trace st)))) st of
       Inl e \<Rightarrow> drain_all to st = Inl e
     | Inr st' \<Rightarrow> \<exists>rbs. drain_all to st =
         Inr (concat (map ring_contents (ts_rings (bg_trace st))) \<noteq> [], st'\<lparr>bg_trace := (bg_trace st)\<lparr>ts_rings := rbs\<rparr>\<rparr>) \<and>
         length rbs = length (ts_rings (bg_trace st)) \<and> (\<forall>rb \<in> set rbs. ring_inv rb \<and> ring_contents rb = [])"
  using drain_rings_spec [OF assms, where to = to and st = st and found = False] take_events_trace [of to _ st]
  by (auto simp: drain_all_def split: sum.splits)

lemma drain_pending_dq:
  assumes "dq_inv dp" and "drain_pending kn dp an = (dp', an')"
  shows "dq_inv dp' \<and> dq_contents dp' = []"
proof -
  obtain d1 an1 where d: "drain_queue kn dp an = (d1, an1)" "dq_inv d1" "dq_contents d1 = []"
    using drain_queue_spec [OF assms(1), of kn an] by blast
  then show ?thesis using assms(2)
    by (auto simp: drain_pending_def Let_def split: if_splits prod.splits)
qed

lemma drain_queue_ok:
  "analysis_ok kn an \<Longrightarrow> analysis_ok kn (snd (drain_queue kn dp an))"
proof (induction kn dp an rule: drain_queue.induct)
  case (1 kn dp an)
  show ?case
    using 1 reset_call_site_ok(1) [OF "1.prems"]
    by (subst drain_queue.simps) (auto simp: Let_def split: option.split)
qed

lemma drain_pending_ok:
  "analysis_ok kn an \<Longrightarrow> analysis_ok kn (snd (drain_pending kn dp an))"
  using drain_queue_ok [of kn an dp]
  by (auto simp: drain_pending_def analysis_ok_def Let_def split: prod.split)

text \<open>
  The state between two iterations: rings and deopt queue are well formed, the waiting events have
  call sites, and the analysis satisfies its invariant.
\<close>

definition bg_ok :: "knobs \<Rightarrow> background \<Rightarrow> bool" where
  "bg_ok kn st \<longleftrightarrow>
     (\<forall>rb \<in> set (ts_rings (bg_trace st)). ring_inv rb \<and> (\<forall>ev \<in> set (ring_contents rb). ev_call_site ev \<noteq> 0)) \<and>
     dq_inv (bg_deopt st) \<and> analysis_ok kn (bg_analysis st)"

definition rings_empty :: "background \<Rightarrow> bool" where
  "rings_empty st \<longleftrightarrow> (\<forall>rb \<in> set (ts_rings (bg_trace st)). ring_contents rb = [])"

lemma run_drain_pending_ok:
  assumes "bg_ok (to_knobs to) st"
  shows "bg_ok (to_knobs to) (run_drain_pending to st)" and "dq_contents (bg_deopt (run_drain_pending to st)) = []"
  using assms drain_pending_dq [of "bg_deopt st" "to_knobs to" "bg_analysis st"]
    drain_pending_ok [of "to_knobs to" "bg_analysis st" "bg_deopt st"]
  by (auto simp: bg_ok_def run_drain_pending_def split: prod.splits)

lemma run_reaper_ok: "bg_ok kn (run_reaper os mode st) = bg_ok kn st"
  by (simp add: run_reaper_def bg_ok_def)

lemma take_events_ok:
  "analysis_ok (to_knobs to) (bg_analysis st) \<Longrightarrow> \<forall>ev \<in> set evs. ev_call_site ev \<noteq> 0 \<Longrightarrow>
   \<exists>st'. take_events to evs st = Inr st' \<and> analysis_ok (to_knobs to) (bg_analysis st')"
proof (induction evs arbitrary: st)
  case (Cons ev evs)
  obtain an where "process_event (to_knobs to) (to_link to) (bg_seg st) ev (bg_analysis st) = Inr an"
    "analysis_ok (to_knobs to) an"
    using process_event_ok [OF Cons.prems(1)] Cons.prems(2) by fastforce
  then have "\<exists>s1. take_event to ev st = Inr s1 \<and> analysis_ok (to_knobs to) (bg_analysis s1)"
    by (simp add: take_event_def Let_def)
  then show ?case using Cons.IH Cons.prems(2) by fastforce
qed simp

text \<open>A drain of a good state never fails.\<close>

lemma drain_all_ok:
  assumes "bg_ok (to_knobs to) st"
  shows "\<exists>found st'. drain_all to st = Inr (found, st') \<and> bg_ok (to_knobs to) st' \<and> rings_empty st' \<and>
    bg_deopt st' = bg_deopt st"
proof -
  let ?evs = "concat (map ring_contents (ts_rings (bg_trace st)))"
  have inv: "\<forall>rb \<in> set (ts_rings (bg_trace st)). ring_inv rb"
    and an: "analysis_ok (to_knobs to) (bg_analysis st)" and nz: "\<forall>ev \<in> set ?evs. ev_call_site ev \<noteq> 0"
    using assms by (auto simp: bg_ok_def)
  obtain s1 where s1: "take_events to ?evs st = Inr s1" "analysis_ok (to_knobs to) (bg_analysis s1)"
    using take_events_ok [OF an nz] by blast
  obtain rbs where "drain_all to st = Inr (?evs \<noteq> [], s1\<lparr>bg_trace := (bg_trace st)\<lparr>ts_rings := rbs\<rparr>\<rparr>)"
    "\<forall>rb \<in> set rbs. ring_inv rb \<and> ring_contents rb = []"
    using drain_all_spec [OF inv, of to] s1(1) by auto
  moreover have "bg_deopt s1 = bg_deopt st" using take_events_trace [OF s1(1)] by simp
  ultimately show ?thesis using assms s1(2) by (auto simp: bg_ok_def rings_empty_def)
qed

lemma background_iteration_ok:
  assumes "bg_ok (to_knobs to) st"
  shows "\<exists>found st'. background_iteration to os mode st = Inr (found, st') \<and> bg_ok (to_knobs to) st' \<and> rings_empty st'"
  using drain_all_ok [of to "run_reaper os mode (run_drain_pending to st)"] run_drain_pending_ok(1) [OF assms]
  by (auto simp: background_iteration_def run_reaper_ok)

lemma final_drain_ok:
  assumes "bg_ok (to_knobs to) st"
  shows "\<exists>st'. final_drain to st = Inr st' \<and> rings_empty st' \<and> dq_contents (bg_deopt st') = [] \<and>
    bg_ok (to_knobs to) st'"
proof -
  obtain found st' where "drain_all to (run_drain_pending to st) = Inr (found, st')"
    "bg_ok (to_knobs to) st'" "rings_empty st'" "bg_deopt st' = bg_deopt (run_drain_pending to st)"
    using drain_all_ok [OF run_drain_pending_ok(1) [OF assms]] by blast
  then show ?thesis using run_drain_pending_ok(2) [OF assms] by (simp add: final_drain_def)
qed

lemma next_backoff_bounds:
  assumes "1 \<le> b" and "b < 500"
  shows "1 \<le> next_backoff b \<and> next_backoff b \<le> 500"
proof -
  have "unat b < 500" "1 \<le> unat b" using assms by (simp_all add: word_less_nat_alt word_le_nat_alt)
  then have "unat (b * 2) = unat b * 2" by (subst unat_mult_lem [THEN iffD1]) simp_all
  then show ?thesis using \<open>1 \<le> unat b\<close> by (simp add: next_backoff_def word_le_nat_alt word_less_nat_alt)
qed

definition loop_ends :: "tools \<Rightarrow> dispatch_error + (pause list \<times> background) \<Rightarrow> bool" where
  "loop_ends to r \<longleftrightarrow>
     (\<exists>ps st'. r = Inr (ps, st') \<and> rings_empty st' \<and> dq_contents (bg_deopt st') = [] \<and>
        bg_ok (to_knobs to) st' \<and> (\<forall>d. Nanosleep d \<in> set ps \<longrightarrow> 1 \<le> d \<and> d < 500))"

lemma loop_ends_final: "bg_ok (to_knobs to) st \<Longrightarrow> loop_ends to (map_sum id (Pair []) (final_drain to st))"
  using final_drain_ok [of to st] by (auto simp: loop_ends_def)

lemma loop_ends_pause:
  "loop_ends to r \<Longrightarrow> (\<forall>d. p = Nanosleep d \<longrightarrow> 1 \<le> d \<and> d < 500) \<Longrightarrow> loop_ends to (map_sum id (apfst (Cons p)) r)"
  by (auto simp: loop_ends_def)

lemma background_loop_ok:
  "\<forall>i \<in> set is. \<forall>st. bg_ok (to_knobs to) st \<longrightarrow> bg_ok (to_knobs to) (in_others i st) \<Longrightarrow>
   bg_ok (to_knobs to) st \<Longrightarrow> 1 \<le> b \<Longrightarrow> b \<le> 500 \<Longrightarrow> loop_ends to (background_loop to is b st)"
proof (induction "is" arbitrary: b st)
  case Nil
  then show ?case using loop_ends_final by simp
next
  case (Cons i "is")
  have oth: "bg_ok (to_knobs to) (in_others i st)" using Cons.prems(1,2) by simp
  obtain found s1 where d: "background_iteration to (in_os i) (in_mode i) (in_others i st) = Inr (found, s1)"
    "bg_ok (to_knobs to) s1"
    using background_iteration_ok [OF oth] by blast
  have again: "loop_ends to (background_loop to is b' s1)" if "1 \<le> b'" "b' \<le> 500" for b'
    using Cons.IH [OF _ d(2) that] Cons.prems(1) by simp
  show ?case
    using d loop_ends_final [OF oth] loop_ends_final [OF d(2)] again [of 1] again [OF Cons.prems(3,4)]
      again [of "next_backoff b"] next_backoff_bounds [OF Cons.prems(3)] Cons.prems(3)
    by (auto intro!: loop_ends_pause)
qed

section \<open>Properties\<close>

text \<open>
  C26: A drain feeds the analysis every waiting event exactly once, ring by ring from the newest
  thread's and in order within a ring, appends each to an open trace file, counts it, empties the
  rings, and reports whether there was any.
\<close>

theorem drain_all_in_order:
  assumes "\<forall>rb \<in> set (ts_rings (bg_trace st)). ring_inv rb"
  shows "case take_events to (concat (map ring_contents (ts_rings (bg_trace st)))) st of
       Inl e \<Rightarrow> drain_all to st = Inl e
     | Inr st' \<Rightarrow> \<exists>rbs. drain_all to st =
         Inr (concat (map ring_contents (ts_rings (bg_trace st))) \<noteq> [], st'\<lparr>bg_trace := (bg_trace st)\<lparr>ts_rings := rbs\<rparr>\<rparr>) \<and>
         length rbs = length (ts_rings (bg_trace st)) \<and> (\<forall>rb \<in> set rbs. ring_inv rb \<and> ring_contents rb = [])"
  by (rule drain_all_spec [OF assms])

text \<open>
  C8: The background loop never aborts and always returns once it observes the stop flag: whatever
  the other threads did between its iterations (as long as they keep the state well formed), it
  leaves, on each of its exits, empty rings, an empty deopt queue and a well-formed analysis; while
  it ran, every sleep was between 1 and 499 microseconds.
\<close>

theorem background_loop_returns:
  assumes "bg_ok (to_knobs to) st" and "1 \<le> b" and "b \<le> 500"
    and "\<forall>i \<in> set is. \<forall>st. bg_ok (to_knobs to) st \<longrightarrow> bg_ok (to_knobs to) (in_others i st)"
  shows "\<exists>ps st'. background_loop to is b st = Inr (ps, st') \<and>
    (\<forall>rb \<in> set (ts_rings (bg_trace st')). ring_contents rb = []) \<and> dq_contents (bg_deopt st') = [] \<and>
    analysis_ok (to_knobs to) (bg_analysis st') \<and> (\<forall>d. Nanosleep d \<in> set ps \<longrightarrow> 1 \<le> d \<and> d < 500)"
  using background_loop_ok [OF assms(4,1-3)] by (auto simp: loop_ends_def rings_empty_def bg_ok_def)

definition demo_tools :: tools where
  "demo_tools = \<lparr>to_knobs = demo_knobs, to_link = (\<lambda>_. demo_link), to_pad = (\<lambda>_. [0, 0, 0, 0])\<rparr>"

definition demo_background :: "AllocEvent list \<Rightarrow> background" where
  "demo_background evs =
     \<lparr>bg_trace = \<lparr>ts_arena = g_arena_zero, ts_rings = [fold (\<lambda>ev rb. snd (ring_push ev rb)) evs ring_new],
                  ts_ring_of = (\<lambda>_. Some 0)\<rparr>,
      bg_deopt = deopt_start, bg_analysis = analysis_start demo_cg (snd demo_table), bg_seg = demo_segs,
      bg_writer = \<lparr>g_file = None, closed_files = []\<rparr>, g_events_processed = 0\<rparr>"

lemma demo_ring:
  "ring_inv (snd (ring_push demo_alloc ring_new))" "ring_contents (snd (ring_push demo_alloc ring_new)) = [demo_alloc]"
  using trace_ring.push_inv [OF ring_new_inv] trace_ring.push_room [OF ring_new_inv] by (simp_all add: ring_new_contents)

theorem drain_all_in_order_witness:
  "\<exists>st'. drain_all demo_tools (demo_background [demo_alloc]) = Inr (True, st') \<and> g_events_processed st' = 1"
proof -
  let ?st = "demo_background [demo_alloc]"
  have c: "concat (map ring_contents (ts_rings (bg_trace ?st))) = [demo_alloc]"
    using demo_ring by (simp add: demo_background_def)
  obtain an where an: "process_event demo_knobs (\<lambda>_. demo_link) demo_segs demo_alloc (analysis_start demo_cg (snd demo_table)) = Inr an"
    using an_run_ok [OF demo_start_ok, of "[Event demo_alloc]" demo_knobs "\<lambda>_. demo_link" demo_segs]
    by (auto simp: demo_alloc_def split: sum.splits)
  then have "\<exists>s1. take_events demo_tools [demo_alloc] ?st = Inr s1 \<and> g_events_processed s1 = 1"
    by (simp add: take_event_def demo_tools_def demo_background_def writer_active_def Let_def)
  then obtain s1 where "take_events demo_tools [demo_alloc] ?st = Inr s1" "g_events_processed s1 = 1" by blast
  moreover have "\<forall>rb \<in> set (ts_rings (bg_trace ?st)). ring_inv rb" using demo_ring by (simp add: demo_background_def)
  ultimately show ?thesis using drain_all_in_order [of ?st demo_tools] unfolding c by auto
qed

definition demo_input :: bg_input where
  "demo_input = \<lparr>in_running = True, in_still_running = True, in_os = demo_env, in_mode = Conservative, in_others = id\<rparr>"

theorem background_loop_returns_witness:
  "\<exists>ps st'. background_loop demo_tools [demo_input] 500 (demo_background [demo_alloc]) = Inr (ps, st') \<and>
     dq_contents (bg_deopt st') = [] \<and> (\<forall>rb \<in> set (ts_rings (bg_trace st')). ring_contents rb = [])"
proof -
  have "bg_ok (to_knobs demo_tools) (demo_background [demo_alloc])"
    using demo_ring by (simp add: bg_ok_def demo_background_def dq_inv_def deopt_start_def demo_start_ok demo_alloc_def)
  from background_loop_returns [OF this, of 500 "[demo_input]"] show ?thesis by (auto simp: demo_input_def)
qed

end
