(* ===== verification/Bench_Replay.thy ===== *)
theory Bench_Replay
  imports Trace_File Trampoline
begin

text \<open>
  The replay benchmark (\<open>src/tools/bound_bench.cpp\<close>): it turns a recorded trace into operations on
  numbered slots, runs them against one backend, and frees what the trace leaked.  \<open>Bench_Main\<close>
  composes these parts.  The tool's own copy of the trampoline's preamble uses
  the fields of \<open>process\<close>.
\<close>

section \<open>Resolving a trace\<close>

datatype Backend = Glibc | Bound | Sim

datatype OpKind = AllocOp | FreeOp

record Op =
  op_kind :: OpKind
  op_id :: CallSiteID
  op_size :: u32
  op_slot :: u32
  op_fn :: addr

record Resolved =
  ops :: "Op list"
  leaked :: "u32 list"
  n_allocs :: u32
  total_frees_seen :: u64
  matched_frees :: u64

record resolver =
  re_out :: Resolved
  re_freed :: "bool list"
  re_live :: "addr \<Rightarrow> u32 option"

definition resolver_start :: resolver where
  "resolver_start =
     \<lparr>re_out = \<lparr>ops = [], leaked = [], n_allocs = 0, total_frees_seen = 0, matched_frees = 0\<rparr>,
      re_freed = [], re_live = (\<lambda>_. None)\<rparr>"

definition resolve_event :: "AllocEvent \<Rightarrow> resolver \<Rightarrow> resolver" where
  "resolve_event ev st =
     (let r = re_out st
      in if ev_size ev \<noteq> 0
         then let slot = n_allocs r
              in st\<lparr>re_out := r\<lparr>n_allocs := n_allocs r + 1,
                       ops := ops r @ [\<lparr>op_kind = AllocOp, op_id = ev_call_site ev, op_size = ev_size ev,
                                        op_slot = slot, op_fn = 0\<rparr>]\<rparr>,
                    re_freed := re_freed st @ [False],
                    re_live := (if ev_ptr ev \<noteq> 0 then (re_live st)(ev_ptr ev \<mapsto> slot) else re_live st)\<rparr>
         else let r = r\<lparr>total_frees_seen := total_frees_seen r + 1\<rparr>
              in case re_live st (ev_ptr ev) of
                   None \<Rightarrow> st\<lparr>re_out := r\<rparr>
                 | Some slot \<Rightarrow>
                     st\<lparr>re_out := r\<lparr>ops := ops r @ [\<lparr>op_kind = FreeOp, op_id = 0, op_size = 0,
                                                  op_slot = slot, op_fn = 0\<rparr>],
                                   matched_frees := matched_frees r + 1\<rparr>,
                        re_freed := (re_freed st)[unat slot := True],
                        re_live := (re_live st)(ev_ptr ev := None)\<rparr>)"

definition resolve :: "AllocEvent list \<Rightarrow> Resolved" where
  "resolve evs =
     (let st = fold resolve_event evs resolver_start; r = re_out st
      in r\<lparr>leaked := filter (\<lambda>s. \<not> re_freed st ! unat s) (map of_nat [0..<unat (n_allocs r)])\<rparr>)"

function read_events :: "u8 list \<Rightarrow> AllocEvent list" where
  "read_events bs = (case read_event bs of None \<Rightarrow> [] | Some (ev, bs) \<Rightarrow> ev # read_events bs)"
  by pat_completeness auto
termination
  by (relation "measure length") (auto simp: read_event_def split: if_splits)

declare read_events.simps [simp del]

definition read_trace :: "u8 list option \<Rightarrow> AllocEvent list option" where
  "read_trace file =
     (case file of
        None \<Rightarrow> None
      | Some bs \<Rightarrow>
          (case read_header bs of
             None \<Rightarrow> None
           | Some (hdr, bs) \<Rightarrow>
               if th_magic hdr \<noteq> TRACE_MAGIC then None
               else if th_version hdr \<noteq> TRACE_VERSION then None
               else Some (read_events bs)))"

section \<open>Running the operations\<close>

definition glibc_alloc :: "env \<Rightarrow> u32 \<Rightarrow> process \<Rightarrow> addr \<times> process" where
  "glibc_alloc en sz st = libc_malloc en (ucast sz) st"

definition call_routine :: "env \<Rightarrow> addr \<Rightarrow> u32 \<Rightarrow> process \<Rightarrow> tramp_error + (addr \<times> process)" where
  "call_routine en fn sz st =
     (if fn \<noteq> 0 then run_routine en fn (ucast sz) st else Inr (libc_malloc en (ucast sz) st))"

definition sim_alloc :: "env \<Rightarrow> CallSiteID \<Rightarrow> u32 \<Rightarrow> process \<Rightarrow> tramp_error + (addr \<times> process)" where
  "sim_alloc en cs sz st =
     (if reentrancy_guard st then Inr (libc_malloc en (ucast sz) st)
      else
        let st = safe_point_tick en (st\<lparr>reentrancy_guard := True\<rparr>);
            (fn, st) = cached_lookup cs st
        in case call_routine en fn sz st of
             Inl e \<Rightarrow> Inl e
           | Inr (p, st) \<Rightarrow> Inr (p, st\<lparr>reentrancy_guard := False\<rparr>))"

definition managed_aware_free :: "env \<Rightarrow> addr \<Rightarrow> process \<Rightarrow> process" where
  "managed_aware_free en p st =
     (if p = 0 then st
      else let s = seg_of p
           in if is_managed s (sg (pr_jit st))
              then st\<lparr>pr_jit := free_managed (en_os en) s p (pr_jit st)\<rparr>
              else libc_free p st)"

text \<open>A routine whose slow path fails its assertion ends the benchmark: \<open>Inl\<close>.\<close>

definition run_op :: "Backend \<Rightarrow> env \<Rightarrow> Op \<Rightarrow> addr list \<times> process \<Rightarrow> tramp_error + (addr list \<times> process)" where
  "run_op be en op = (\<lambda>(live, st).
     (case op_kind op of
        AllocOp \<Rightarrow>
          (case (case be of
                   Glibc \<Rightarrow> Inr (glibc_alloc en (op_size op) st)
                 | Bound \<Rightarrow> call_routine en (op_fn op) (op_size op) st
                 | Sim \<Rightarrow> sim_alloc en (op_id op) (op_size op) st) of
             Inl e \<Rightarrow> Inl e
           | Inr (p, st) \<Rightarrow> Inr (live[unat (op_slot op) := p], st))
      | FreeOp \<Rightarrow>
          Inr (live, (case be of
                        Glibc \<Rightarrow> libc_free (live ! unat (op_slot op)) st
                      | _ \<Rightarrow> managed_aware_free en (live ! unat (op_slot op)) st))))"

fun run_pass :: "Backend \<Rightarrow> env \<Rightarrow> Op list \<Rightarrow> addr list \<times> process \<Rightarrow> tramp_error + (addr list \<times> process)" where
  "run_pass be en [] s = Inr s"
| "run_pass be en (op # xs) s = (case run_op be en op s of Inl e \<Rightarrow> Inl e | Inr s \<Rightarrow> run_pass be en xs s)"

definition reclaim_slot :: "Backend \<Rightarrow> env \<Rightarrow> u32 \<Rightarrow> addr list \<times> process \<Rightarrow> addr list \<times> process" where
  "reclaim_slot be en s = (\<lambda>(live, st).
     (if live ! unat s = 0 then (live, st)
      else (live[unat s := 0],
            (case be of Glibc \<Rightarrow> libc_free (live ! unat s) st
                      | _ \<Rightarrow> managed_aware_free en (live ! unat s) st))))"

definition reclaim_leaked :: "Backend \<Rightarrow> env \<Rightarrow> u32 list \<Rightarrow> addr list \<times> process \<Rightarrow> addr list \<times> process" where
  "reclaim_leaked be en ls = fold (reclaim_slot be en) ls"

definition bench_reap_pred :: "CallSiteSummary list \<Rightarrow> CallSiteID \<Rightarrow> bool" where
  "bench_reap_pred ss site = (get_lifetime_tag site ss = Reap)"

definition resolve_fns :: "dispatch \<Rightarrow> Op list \<Rightarrow> Op list" where
  "resolve_fns d xs =
     map (\<lambda>op. if op_kind op = AllocOp then op\<lparr>op_fn := dispatch_lookup (op_id op) d\<rparr> else op) xs"

section \<open>Slots\<close>

definition slots_of :: "OpKind \<Rightarrow> Op list \<Rightarrow> u32 list" where
  "slots_of k xs = map op_slot (filter (\<lambda>op. op_kind op = k) xs)"

lemma slots_of_append [simp]: "slots_of k (xs @ ys) = slots_of k xs @ slots_of k ys"
  by (simp add: slots_of_def)

lemma slots_of_simps [simp]:
  "slots_of k [] = []" "slots_of k (op # xs) = (if op_kind op = k then [op_slot op] else []) @ slots_of k xs"
  by (simp_all add: slots_of_def)

text \<open>A slot is freed only behind its allocation.\<close>

definition ordered :: "Op list \<Rightarrow> bool" where
  "ordered xs \<longleftrightarrow> (\<forall>i < length xs. op_kind (xs ! i) = FreeOp \<longrightarrow>
     op_slot (xs ! i) \<in> set (slots_of AllocOp (take i xs)))"

definition resolver_inv :: "nat \<Rightarrow> resolver \<Rightarrow> bool" where
  "resolver_inv k st \<longleftrightarrow>
     (let xs = ops (re_out st); n = unat (n_allocs (re_out st))
      in n = length (re_freed st) \<and> n \<le> k \<and> slots_of AllocOp xs = map of_nat [0..<n] \<and>
         distinct (slots_of FreeOp xs) \<and> ordered xs \<and>
         (\<forall>s. s \<in> set (slots_of FreeOp xs) \<longleftrightarrow> unat s < n \<and> re_freed st ! unat s) \<and>
         (\<forall>p s. re_live st p = Some s \<longrightarrow> unat s < n \<and> \<not> re_freed st ! unat s) \<and>
         (\<forall>p q s. re_live st p = Some s \<longrightarrow> re_live st q = Some s \<longrightarrow> p = q))"

lemma ordered_snoc:
  "ordered xs \<Longrightarrow> (op_kind op = FreeOp \<longrightarrow> op_slot op \<in> set (slots_of AllocOp xs)) \<Longrightarrow> ordered (xs @ [op])"
  by (auto simp: ordered_def nth_append less_Suc_eq)

lemma resolver_invD:
  assumes "resolver_inv k st"
  shows "unat (n_allocs (re_out st)) = length (re_freed st)" and "unat (n_allocs (re_out st)) \<le> k"
    and "slots_of AllocOp (ops (re_out st)) = map of_nat [0..<unat (n_allocs (re_out st))]"
    and "distinct (slots_of FreeOp (ops (re_out st)))" and "ordered (ops (re_out st))"
    and "\<And>s. s \<in> set (slots_of FreeOp (ops (re_out st))) \<longleftrightarrow>
           unat s < unat (n_allocs (re_out st)) \<and> re_freed st ! unat s"
    and "\<And>p s. re_live st p = Some s \<Longrightarrow> unat s < unat (n_allocs (re_out st)) \<and> \<not> re_freed st ! unat s"
    and "\<And>p q s. re_live st p = Some s \<Longrightarrow> re_live st q = Some s \<Longrightarrow> p = q"
  using assms unfolding resolver_inv_def Let_def by blast+

lemma resolve_alloc_inv:
  assumes inv: "resolver_inv k st" and k: "Suc k < 2 ^ 32" and ev: "ev_size ev \<noteq> 0"
  shows "resolver_inv (Suc k) (resolve_event ev st)"
proof -
  note d = resolver_invD [OF inv]
  have n1: "unat (n_allocs (re_out st) + 1) = Suc (length (re_freed st))"
    using d(1,2) k by (subst unat_Suc_no_wrap) simp_all
  have w: "of_nat (length (re_freed st)) = n_allocs (re_out st)" unfolding d(1) [symmetric] by simp
  have new: "re_live st p \<noteq> Some (n_allocs (re_out st))" for p using d(7) by blast
  show ?thesis
    using ev d(1-4) ordered_snoc [OF d(5)] d(6-8) new
    unfolding resolver_inv_def resolve_event_def Let_def
    by (auto simp: n1 w nth_append less_Suc_eq split: if_splits)
qed

lemma resolve_unknown_free_inv:
  "resolver_inv k st \<Longrightarrow> ev_size ev = 0 \<Longrightarrow> re_live st (ev_ptr ev) = None \<Longrightarrow>
   resolver_inv (Suc k) (resolve_event ev st)"
  unfolding resolver_inv_def resolve_event_def Let_def by auto

lemma resolve_free_inv:
  assumes inv: "resolver_inv k st" and ev: "ev_size ev = 0" and live: "re_live st (ev_ptr ev) = Some s"
  shows "resolver_inv (Suc k) (resolve_event ev st)"
proof -
  let ?n = "unat (n_allocs (re_out st))"
  note d = resolver_invD [OF inv]
  note s = d(7) [OF live]
  let ?op = "\<lparr>op_kind = FreeOp, op_id = 0, op_size = 0, op_slot = s, op_fn = 0\<rparr>"
  have "s \<in> set (slots_of AllocOp (ops (re_out st)))"
    unfolding d(3) using s by (auto intro!: image_eqI [of _ _ "unat s"])
  then have o': "ordered (ops (re_out st) @ [?op])" by (intro ordered_snoc [OF d(5)]) simp
  have nf: "s \<notin> set (slots_of FreeOp (ops (re_out st)))" using d(6) s by blast
  have e: "resolve_event ev st = st\<lparr>re_out := (re_out st)\<lparr>total_frees_seen := total_frees_seen (re_out st) + 1,
        ops := ops (re_out st) @ [?op], matched_frees := matched_frees (re_out st) + 1\<rparr>,
      re_freed := (re_freed st)[unat s := True], re_live := (re_live st)(ev_ptr ev := None)\<rparr>"
    using ev live by (simp add: resolve_event_def Let_def)
  have up: "(re_freed st)[unat s := True] ! unat t \<longleftrightarrow> t = s \<or> re_freed st ! unat t"
    if "unat t < ?n" for t
    using that s d(1) by (auto simp: nth_list_update word_unat_eq_iff)
  have fr: "t \<in> set (slots_of FreeOp (ops (re_out st) @ [?op])) \<longleftrightarrow>
      unat t < ?n \<and> (re_freed st)[unat s := True] ! unat t" for t
    using d(6) [of t] up [of t] s by auto
  have lv: "unat t < ?n \<and> \<not> (re_freed st)[unat s := True] ! unat t"
    if "p \<noteq> ev_ptr ev" "re_live st p = Some t" for p t
    using d(7) [OF that(2)] d(8) [OF live, of p] that up by blast
  show ?thesis
    unfolding resolver_inv_def e Let_def using d(1-4) d(8) o' nf fr lv by simp
qed

lemma resolve_event_inv:
  "resolver_inv k st \<Longrightarrow> Suc k < 2 ^ 32 \<Longrightarrow> resolver_inv (Suc k) (resolve_event ev st)"
  using resolve_alloc_inv resolve_unknown_free_inv resolve_free_inv
  by (cases "ev_size ev = 0"; cases "re_live st (ev_ptr ev)") blast+

lemma resolver_fold_inv:
  "resolver_inv k st \<Longrightarrow> k + length evs < 2 ^ 32 \<Longrightarrow> resolver_inv (k + length evs) (fold resolve_event evs st)"
proof (induction evs arbitrary: k st)
  case (Cons ev evs)
  have "resolver_inv (Suc k) (resolve_event ev st)" using Cons.prems by (intro resolve_event_inv) simp_all
  from Cons.IH [OF this] show ?case using Cons.prems(2) by simp
qed simp

text \<open>
  In a resolved trace the allocations take the slots 0, 1, 2, ... in order, every free refers to an
  earlier allocation, no slot is freed twice, and the slots no free mentions are exactly the leaked
  ones: one pass together with the reclamation of the leaks frees every slot exactly once.
\<close>

theorem bench_slots_freed_once:
  assumes "length evs < 2 ^ 32" and "r = resolve evs"
  shows "slots_of AllocOp (ops r) = map of_nat [0..<unat (n_allocs r)] \<and> ordered (ops r) \<and>
    distinct (slots_of FreeOp (ops r) @ leaked r) \<and>
    set (slots_of FreeOp (ops r) @ leaked r) = set (slots_of AllocOp (ops r))"
proof -
  let ?st = "fold resolve_event evs resolver_start"
  have "resolver_inv 0 resolver_start"
    by (simp add: resolver_inv_def resolver_start_def ordered_def)
  then have inv: "resolver_inv (length evs) ?st" using resolver_fold_inv [of 0 resolver_start evs] assms(1) by simp
  let ?n = "unat (n_allocs (re_out ?st))"
  have al: "slots_of AllocOp (ops (re_out ?st)) = map of_nat [0..<?n]" and o: "ordered (ops (re_out ?st))"
    and d: "distinct (slots_of FreeOp (ops (re_out ?st)))"
    and fr: "\<And>s. s \<in> set (slots_of FreeOp (ops (re_out ?st))) \<longleftrightarrow> unat s < ?n \<and> re_freed ?st ! unat s"
    using inv unfolding resolver_inv_def Let_def by blast+
  have r: "ops r = ops (re_out ?st)" "n_allocs r = n_allocs (re_out ?st)"
    "leaked r = filter (\<lambda>s. \<not> re_freed ?st ! unat s) (map of_nat [0..<?n])"
    unfolding assms(2) by (simp_all add: resolve_def Let_def)
  have u: "unat (of_nat i :: u32) = i" if "i < ?n" for i
    using that unat_u32_less [of "n_allocs (re_out ?st)"] by (simp add: unat_of_nat)
  have "inj_on (of_nat :: nat \<Rightarrow> u32) {0..<?n}" by (rule inj_onI) (metis u atLeastLessThan_iff)
  then have dm: "distinct (map of_nat [0..<?n] :: u32 list)" by (simp add: distinct_map)
  have mem: "s \<in> set (map of_nat [0..<?n]) \<longleftrightarrow> unat s < ?n" for s :: u32
    using u by (auto intro!: image_eqI [of _ _ "unat s"])
  show ?thesis
    unfolding r using al o d fr dm mem by auto
qed

definition demo_trace :: "AllocEvent list" where
  "demo_trace =
     [demo_alloc\<lparr>ev_ptr := 0x10\<rparr>, demo_alloc\<lparr>ev_ptr := 0x20\<rparr>, demo_alloc\<lparr>ev_size := 0, ev_ptr := 0x10\<rparr>,
      demo_alloc\<lparr>ev_ptr := 0x10\<rparr>, demo_alloc\<lparr>ev_size := 0, ev_ptr := 0x30\<rparr>]"

theorem bench_slots_freed_once_witness:
  "leaked (resolve demo_trace) = [1, 2] \<and> slots_of FreeOp (ops (resolve demo_trace)) = [0] \<and>
   distinct (slots_of FreeOp (ops (resolve demo_trace)) @ leaked (resolve demo_trace)) \<and> n_allocs (resolve demo_trace) = 3"
proof -
  have u3: "[0..<3] = [0, 1, 2]" by (simp add: upt_rec)
  have r: "leaked (resolve demo_trace) = [1, 2]" "slots_of FreeOp (ops (resolve demo_trace)) = [0]"
    "n_allocs (resolve demo_trace) = 3"
    using u3 by (simp_all add: resolve_def resolve_event_def resolver_start_def demo_trace_def demo_alloc_def Let_def)
  have "length demo_trace < 2 ^ 32" by (simp add: demo_trace_def)
  from bench_slots_freed_once [OF this refl] show ?thesis using r by blast
qed

end
