(* ===== verification/System.thy ===== *)
theory System
  imports Background
begin

text \<open>
  The running program: the constructor and destructor of \<open>src/src/trace/trampoline.cpp\<close>, any number
  of application threads that call \<open>malloc\<close>, \<open>free\<close> and \<open>realloc\<close>, and the background thread.  The
  calls and the iterations of the background loop interleave as whole operations; what happens
  inside them is the subject of \<open>Trace\<close>, \<open>Remote_Free\<close> and \<open>Safe_Point\<close>.
\<close>

section \<open>State\<close>

text \<open>The \<open>thread_local\<close> variables of one thread.\<close>

record thread_vars =
  tv_guard :: bool
  tv_counter :: u32
  tv_ic_id :: CallSiteID
  tv_ic_fn :: addr
  tv_ic_gen :: u64
  tv_bumps :: "u32 \<Rightarrow> BumpSlot"
  tv_freelists :: "u32 \<Rightarrow> FreeListSlot"
  tv_arenas :: "u32 \<Rightarrow> ArenaSlot"
  tv_multi_freelists :: "u32 \<Rightarrow> MultiFreeListSlot"

definition thread_start :: thread_vars where
  "thread_start =
     \<lparr>tv_guard = False, tv_counter = 0, tv_ic_id = 0, tv_ic_fn = 0, tv_ic_gen = 0,
      tv_bumps = (\<lambda>_. \<lparr>bs_ptr = 0, bs_end = 0\<rparr>), tv_freelists = (\<lambda>_. \<lparr>fs_head = 0, fs_segs = 0\<rparr>),
      tv_arenas = (\<lambda>_. \<lparr>as_ptr = 0, as_end = 0, as_base = 0\<rparr>),
      tv_multi_freelists = (\<lambda>_. \<lparr>ms_heads = (\<lambda>_. 0), ms_segs = (\<lambda>_. 0)\<rparr>)\<rparr>"

definition vars_of :: "process \<Rightarrow> thread_vars" where
  "vars_of p =
     \<lparr>tv_guard = reentrancy_guard p, tv_counter = tl_safe_point_counter p, tv_ic_id = tl_ic_id p,
      tv_ic_fn = tl_ic_fn p, tv_ic_gen = tl_ic_gen p, tv_bumps = tl_bumps (pr_jit p),
      tv_freelists = tl_freelists (pr_jit p), tv_arenas = tl_arenas (pr_jit p),
      tv_multi_freelists = tl_multi_freelists (pr_jit p)\<rparr>"

definition switch_to :: "thread_vars \<Rightarrow> process \<Rightarrow> process" where
  "switch_to v p =
     p\<lparr>reentrancy_guard := tv_guard v, tl_safe_point_counter := tv_counter v, tl_ic_id := tv_ic_id v,
       tl_ic_fn := tv_ic_fn v, tl_ic_gen := tv_ic_gen v,
       pr_jit := (pr_jit p)\<lparr>tl_bumps := tv_bumps v, tl_freelists := tv_freelists v, tl_arenas := tv_arenas v,
                            tl_multi_freelists := tv_multi_freelists v\<rparr>\<rparr>"

lemma switch_to_vars_of [simp]: "switch_to (vars_of p) p = p"
  by (simp add: switch_to_def vars_of_def)

record system =
  sy_proc :: process
  sy_vars :: "u32 \<Rightarrow> thread_vars"
  sy_summaries :: "CallSiteSummary list"
  sy_codegen :: codegen_state
  sy_knobs :: knobs
  sy_writer :: writer
  sy_events :: u64
  g_running :: bool

text \<open>The part of the state the background thread works on, and its results put back.\<close>

definition bg_view :: "system \<Rightarrow> background" where
  "bg_view s =
     \<lparr>bg_trace = pr_trace (sy_proc s), bg_deopt = pr_deopt (sy_proc s),
      bg_analysis = \<lparr>summaries = sy_summaries s, an_codegen = sy_codegen s, an_dispatch = pr_dispatch (sy_proc s)\<rparr>,
      bg_seg = sg (pr_jit (sy_proc s)), bg_writer = sy_writer s, g_events_processed = sy_events s\<rparr>"

definition bg_store :: "background \<Rightarrow> system \<Rightarrow> system" where
  "bg_store b s =
     s\<lparr>sy_proc := (sy_proc s)\<lparr>pr_trace := bg_trace b, pr_deopt := bg_deopt b,
                    pr_dispatch := an_dispatch (bg_analysis b),
                    pr_jit := (pr_jit (sy_proc s))\<lparr>sg := bg_seg b,
                       g_slot_to_site := cg_slot_to_site (an_codegen (bg_analysis b))\<rparr>\<rparr>,
       sy_summaries := summaries (bg_analysis b), sy_codegen := an_codegen (bg_analysis b),
       sy_writer := bg_writer b, sy_events := g_events_processed b\<rparr>"

lemma bg_view_store [simp]: "bg_view (bg_store b s) = b"
  by (simp add: bg_view_def bg_store_def)

section \<open>Start-up and shutdown\<close>

record boot =
  bo_mmap :: "addr option"
  bo_getenv :: "string \<Rightarrow> string option"
  bo_strtod :: "string \<Rightarrow> double"
  bo_fopen :: "string \<Rightarrow> bool"
  bo_clock :: "u64 \<times> u64"
  bo_pid :: nat

record world =
  w_env :: "u32 \<Rightarrow> env"
  w_link :: "u32 \<Rightarrow> link_env"
  w_pad :: "AllocEvent \<Rightarrow> u8 list"

definition tools_of :: "world \<Rightarrow> system \<Rightarrow> tools" where
  "tools_of w s = \<lparr>to_knobs = sy_knobs s, to_link = w_link w, to_pad = w_pad w\<rparr>"

text \<open>The static initialisers, in the order of the subsystems.\<close>

definition process_static :: process where
  "process_static =
     \<lparr>g_initialized = False, g_shutting_down = False, have_malloc = False, have_free = False, have_realloc = False,
      g_bootstrap_used = 0, reentrancy_guard = False, tl_safe_point_counter = 0, tl_ic_id = 0, tl_ic_fn = 0,
      tl_ic_gen = 0, g_jit_allocs = 0, g_generic_allocs = 0, futex_word = AWAKE, pr_dispatch = dispatch_static,
      pr_deopt = deopt_start,
      pr_trace = \<lparr>ts_arena = g_arena_zero, ts_rings = [], ts_ring_of = (\<lambda>_. None)\<rparr>,
      pr_shadow = shadow_empty,
      pr_jit = \<lparr>sg = \<lparr>headers = new_header Generic 0 0 0 0, g_index = [], pagemap = None, words = (\<lambda>_. 0), syscalls = []\<rparr>,
                tl_bumps = tv_bumps thread_start, tl_freelists = tv_freelists thread_start,
                tl_arenas = tv_arenas thread_start, tl_multi_freelists = tv_multi_freelists thread_start,
                g_slot_to_site = (\<lambda>_. 0)\<rparr>,
      calls = []\<rparr>"

definition system_static :: system where
  "system_static =
     \<lparr>sy_proc = process_static, sy_vars = (\<lambda>_. thread_start), sy_summaries = [],
      sy_codegen = \<lparr>cg_next_index = 0, cg_slot_to_site = (\<lambda>_. 0), cg_pages = []\<rparr>,
      sy_knobs = analysis_knobs (\<lambda>_. 0) (\<lambda>_. None), sy_writer = \<lparr>g_file = None, closed_files = []\<rparr>,
      sy_events = 0, g_running = False\<rparr>"

definition start_background_thread :: "system \<Rightarrow> system" where
  "start_background_thread s = s\<lparr>g_running := True\<rparr>"

definition tbjit_init :: "env \<Rightarrow> boot \<Rightarrow> system \<Rightarrow> arena_error + system" where
  "tbjit_init en bt s =
     (let p = resolve_real_allocators en (sy_proc s)
      in case alloc_init (bo_mmap bt) (ts_arena (pr_trace p)) of
           Inl e \<Rightarrow> Inl e
         | Inr a \<Rightarrow>
             (case dispatch_init a (pr_dispatch p) of
                Inl e \<Rightarrow> Inl e
              | Inr (a, d) \<Rightarrow>
                  (case alloc_init (bo_mmap bt) a of
                     Inl e \<Rightarrow> Inl e
                   | Inr a \<Rightarrow>
                       let p = p\<lparr>pr_dispatch := d, pr_trace := (pr_trace p)\<lparr>ts_arena := a\<rparr>\<rparr>;
                           s = s\<lparr>sy_proc := p, sy_knobs := analysis_knobs (bo_strtod bt) (bo_getenv bt), sy_summaries := []\<rparr>;
                           s = start_background_thread s;
                           s = (case bo_getenv bt ''TBJIT_TRACE'' of
                                  None \<Rightarrow> s
                                | Some path \<Rightarrow>
                                    s\<lparr>sy_writer := writer_open (bo_fopen bt) (bo_clock bt) (bo_pid bt) path (sy_writer s)\<rparr>)
                       in Inr (s\<lparr>sy_proc := (sy_proc s)\<lparr>g_initialized := True\<rparr>\<rparr>))))"

text \<open>Joining the background thread waits for the final drain behind its loop.\<close>

definition stop_background_thread :: "world \<Rightarrow> system \<Rightarrow> dispatch_error + system" where
  "stop_background_thread w s =
     (let s = s\<lparr>g_running := False, sy_proc := (sy_proc s)\<lparr>futex_word := AWAKE\<rparr>\<rparr>
      in map_sum id (\<lambda>b. bg_store b s) (final_drain (tools_of w s) (bg_view s)))"

definition tbjit_fini :: "world \<Rightarrow> system \<Rightarrow> dispatch_error + system" where
  "tbjit_fini w s =
     (case stop_background_thread w (s\<lparr>sy_proc := (sy_proc s)\<lparr>g_shutting_down := True\<rparr>\<rparr>) of
        Inl e \<Rightarrow> Inl e
      | Inr s \<Rightarrow> Inr (s\<lparr>sy_writer := writer_close (sy_writer s)\<rparr>))"

section \<open>Steps\<close>

datatype sys_op =
    Call u32 tramp_op
  | Background_step os_env ReapMode

datatype sys_error = App_abort tramp_error | Background_abort dispatch_error

definition thread_call :: "world \<Rightarrow> u32 \<Rightarrow> tramp_op \<Rightarrow> system \<Rightarrow> sys_error + system" where
  "thread_call w t op s =
     (case tramp_step (w_env w t) op (switch_to (sy_vars s t) (sy_proc s)) of
        Inl e \<Rightarrow> Inl (App_abort e)
      | Inr p \<Rightarrow> Inr (s\<lparr>sy_proc := p, sy_vars := (sy_vars s)(t := vars_of p)\<rparr>))"

definition background_step :: "world \<Rightarrow> os_env \<Rightarrow> ReapMode \<Rightarrow> system \<Rightarrow> sys_error + system" where
  "background_step w os mode s =
     (case background_iteration (tools_of w s) os mode (bg_view s) of
        Inl e \<Rightarrow> Inl (Background_abort e)
      | Inr (found, b) \<Rightarrow> Inr (bg_store b s))"

fun sys_step :: "world \<Rightarrow> sys_op \<Rightarrow> system \<Rightarrow> sys_error + system" where
  "sys_step w (Call t op) s = thread_call w t op s"
| "sys_step w (Background_step os mode) s = background_step w os mode s"

fun sys_run :: "world \<Rightarrow> sys_op list \<Rightarrow> system \<Rightarrow> sys_error + system" where
  "sys_run w [] s = Inr s"
| "sys_run w (x # xs) s = (case sys_step w x s of Inl e \<Rightarrow> Inl e | Inr s \<Rightarrow> sys_run w xs s)"

section \<open>How far the table moves\<close>

text \<open>At most \<open>k\<close> installs and reverts lead from one table to the other.\<close>

definition moved_by :: "nat \<Rightarrow> dispatch \<Rightarrow> dispatch \<Rightarrow> bool" where
  "moved_by k d d' \<longleftrightarrow>
     (d' = d \<or> unat (dt_generation d) < unat (dt_generation d')) \<and>
     unat (dt_generation d') \<le> unat (dt_generation d) + k"

lemma moved_by_refl [simp]: "moved_by k d d"
  by (simp add: moved_by_def)

lemma moved_by_trans: "moved_by j a b \<Longrightarrow> moved_by k b c \<Longrightarrow> moved_by (j + k) a c"
  by (auto simp: moved_by_def)

lemma moved_by_mono: "moved_by j a b \<Longrightarrow> j \<le> k \<Longrightarrow> moved_by k a b"
  by (auto simp: moved_by_def)

lemma moved_by_moved:
  assumes "moved d d'" and "Suc (unat (dt_generation d)) < 2 ^ 64"
  shows "moved_by 1 d d'"
proof -
  have "unat (dt_generation d + 1) = Suc (unat (dt_generation d))" using assms(2) by (subst unat_Suc_no_wrap) simp_all
  then show ?thesis using assms(1) by (auto simp: moved_def moved_by_def)
qed

lemma cache_ok_moved_by:
  assumes "cache_ok n st" and "same_cache st st'" and "moved_by k (pr_dispatch st) (pr_dispatch st')"
  shows "cache_ok (n + k) st'"
  using assms by (auto simp: cache_ok_def same_cache_def moved_by_def)

lemma moved_refl: "moved d d"
  by (simp add: moved_def)

lemma note_alloc_moved: "note_alloc kn le ev s cg d = Inr (s', cg', d') \<Longrightarrow> moved d d'"
  by (auto simp: note_alloc_def advance_prespec_def install_routine_def moved_def Let_def
      dest: moved_install [unfolded moved_def] split: if_splits sum.splits prod.splits option.splits)

lemma process_event_moved:
  "process_event kn le gs ev an = Inr an' \<Longrightarrow> moved (an_dispatch an) (an_dispatch an')"
  by (auto simp: process_event_def moved_refl split: if_splits sum.splits option.splits)
    (rule note_alloc_moved)

lemma take_event_moved:
  "take_event to ev st = Inr st' \<Longrightarrow> moved (an_dispatch (bg_analysis st)) (an_dispatch (bg_analysis st'))"
  by (auto simp: take_event_def Let_def intro: process_event_moved split: sum.splits if_splits)

lemma take_events_moved:
  "take_events to evs st = Inr st' \<Longrightarrow>
   unat (dt_generation (an_dispatch (bg_analysis st))) + length evs < 2 ^ 64 \<Longrightarrow>
   moved_by (length evs) (an_dispatch (bg_analysis st)) (an_dispatch (bg_analysis st'))"
proof (induction evs arbitrary: st)
  case (Cons ev evs)
  let ?d = "\<lambda>st. an_dispatch (bg_analysis st)"
  obtain s1 where s1: "take_event to ev st = Inr s1" "take_events to evs s1 = Inr st'"
    using Cons.prems(1) by (auto split: sum.splits)
  have m: "moved_by 1 (?d st) (?d s1)" using moved_by_moved [OF take_event_moved [OF s1(1)]] Cons.prems(2) by simp
  then have "unat (dt_generation (?d s1)) + length evs < 2 ^ 64" using Cons.prems(2) by (simp add: moved_by_def)
  from moved_by_trans [OF m Cons.IH [OF s1(2) this]] show ?case by simp
qed simp

section \<open>Recording\<close>

definition rings_ok :: "trace_state \<Rightarrow> bool" where
  "rings_ok tr \<longleftrightarrow> (\<forall>rb \<in> set (ts_rings tr). ring_inv rb \<and> (\<forall>ev \<in> set (ring_contents rb). ev_call_site ev \<noteq> 0))"

definition waiting :: "trace_state \<Rightarrow> nat" where
  "waiting tr = (\<Sum>rb \<leftarrow> ts_rings tr. length (ring_contents rb))"

text \<open>The arena has room for the rings of those threads of \<open>T\<close> that have none yet.\<close>

definition ring_room :: "u32 set \<Rightarrow> trace_state \<Rightarrow> bool" where
  "ring_room T tr \<longleftrightarrow>
     arena_inv (ts_arena tr) \<and> unat (arena_cursor (ts_arena tr)) mod 8 = 0 \<and> finite T \<and>
     unat (arena_cursor (ts_arena tr)) + 32792 * card {t \<in> T. ts_ring_of tr t = None} \<le> unat (arena_end (ts_arena tr)) \<and>
     (\<forall>t k. ts_ring_of tr t = Some k \<longrightarrow> k < length (ts_rings tr))"

lemma get_ring_ok:
  assumes "ring_room T tr" and "rings_ok tr" and "t \<in> T"
  shows "\<exists>k tr'. get_ring t tr = Inr (k, tr') \<and> k < length (ts_rings tr') \<and> ring_room T tr' \<and> rings_ok tr' \<and>
    waiting tr' = waiting tr"
proof (cases "ts_ring_of tr t")
  case (Some k)
  then show ?thesis using assms by (auto simp: get_ring_def ring_room_def)
next
  case None
  let ?a = "ts_arena tr" and ?N = "\<lambda>tr. {u \<in> T. ts_ring_of tr u = None}"
  have room: "arena_inv ?a" "unat (arena_cursor ?a) mod 8 = 0" "finite T"
    "unat (arena_cursor ?a) + 32792 * card (?N tr) \<le> unat (arena_end ?a)"
    "\<And>u k. ts_ring_of tr u = Some k \<Longrightarrow> k < length (ts_rings tr)"
    using assms(1) by (auto simp: ring_room_def)
  have t: "t \<in> ?N tr" using None assms(3) by simp
  then have "0 < card (?N tr)" using room(3) by (auto simp: card_gt_0_iff)
  then have "unat (arena_cursor ?a) + unat sizeof_RingBuffer \<le> unat (arena_end ?a)"
    using room(4) by (simp add: unat_sizeof_RingBuffer)
  then obtain p a' where a': "alloc_alloc sizeof_RingBuffer 8 ?a = Inr (p, a')"
    using alloc_alloc_8(1) [OF room(1,2), of sizeof_RingBuffer] by (auto simp: unat_sizeof_RingBuffer)
  have new: "arena_inv a'" "unat (arena_cursor a') = unat (arena_cursor ?a) + 32792" "arena_end a' = arena_end ?a"
    using alloc_alloc_8(2) [OF room(1,2) _ a'] by (simp_all add: unat_sizeof_RingBuffer)
  let ?tr = "tr\<lparr>ts_arena := a', ts_rings := ring_new # ts_rings tr, ts_ring_of := (ts_ring_of tr)(t \<mapsto> length (ts_rings tr))\<rparr>"
  have "?N ?tr = ?N tr - {t}" by auto
  then have "card (?N tr) = Suc (card (?N ?tr))" using t room(3) \<open>0 < card (?N tr)\<close> by simp
  then have "ring_room T ?tr"
    using room new by (auto simp: ring_room_def less_SucI)
  moreover have "get_ring t tr = Inr (length (ts_rings tr), ?tr)" using None a' by (simp add: get_ring_def Let_def)
  ultimately show ?thesis using assms(2) by (simp add: rings_ok_def waiting_def ring_new_inv ring_new_contents del: length_ring_contents)
qed

lemma ring_push_ok:
  assumes "ring_inv rb"
  shows "ring_inv (snd (ring_push ev rb))" and "set (ring_contents (snd (ring_push ev rb))) \<subseteq> insert ev (set (ring_contents rb))"
    and "length (ring_contents (snd (ring_push ev rb))) \<le> Suc (length (ring_contents rb))"
  using trace_ring.push_inv [OF assms]
  by (cases "length (ring_contents rb) < 1024";
      auto simp: ring_push_room [OF assms] ring_push_full [OF assms] simp del: length_ring_contents)+

lemma record_event_ok:
  assumes "ring_room T tr" and "rings_ok tr" and "t \<in> T" and "ev_call_site ev \<noteq> 0"
  shows "\<exists>wake tr'. record_event t ev tr = Inr (wake, tr') \<and> ring_room T tr' \<and> rings_ok tr' \<and> waiting tr' \<le> Suc (waiting tr)"
proof -
  obtain k tr1 where g: "get_ring t tr = Inr (k, tr1)" "k < length (ts_rings tr1)" "ring_room T tr1" "rings_ok tr1"
    "waiting tr1 = waiting tr" using get_ring_ok [OF assms(1-3)] by blast
  let ?i = "ring_pos tr1 k" and ?rs = "ts_rings tr1"
  have i: "?i < length ?rs" using g(2) by (simp add: ring_pos_def)
  obtain wake rb where p: "ring_push ev (?rs ! ?i) = (wake, rb)" by fastforce
  have inv: "ring_inv (?rs ! ?i)" using g(4) i by (simp add: rings_ok_def)
  note push = ring_push_ok [OF inv, of ev, unfolded p snd_conv]
  let ?tr = "tr1\<lparr>ts_rings := ?rs[?i := rb]\<rparr>"
  have "\<forall>ev \<in> set (ring_contents rb). ev_call_site ev \<noteq> 0" using push(2) assms(4) g(4) nth_mem [OF i] by (fastforce simp: rings_ok_def)
  then have "rings_ok ?tr"
    using g(4) push(1) set_update_subset_insert [of ?rs ?i rb] by (auto simp: rings_ok_def)
  moreover have "ring_room T ?tr" using g(3) by (simp add: ring_room_def)
  moreover have "waiting ?tr \<le> Suc (waiting tr1)"
    using push(3) i elem_le_sum_list [of ?i "map (\<lambda>rb. length (ring_contents rb)) ?rs"]
    by (simp add: waiting_def map_update sum_list_update del: length_ring_contents)
  ultimately show ?thesis using g p by (simp add: record_event_def Let_def)
qed

section \<open>Calls of the allocation functions\<close>

text \<open>
  A thread's environment: validation by \<open>TBJIT_VALIDATE\<close> is off, and a routine that deoptimises
  names a compiled site, whose hash is not the table's empty key.  A routine may fail an assertion
  of its slow path, when the system has no memory for a segment.
\<close>

definition env_ok :: "u32 set \<Rightarrow> env \<Rightarrow> bool" where
  "env_ok T en \<longleftrightarrow> en_thread en \<in> T \<and> \<not> en_shadow en \<and> hash_return_addr (en_realloc_ra en) \<noteq> 0 \<and>
     (\<forall>fn sz jit cs page r. en_routine en fn sz jit = Guard_failed cs page r \<longrightarrow> cs \<noteq> 0)"

definition may_assert :: "env \<Rightarrow> bool" where
  "may_assert en \<longleftrightarrow> (\<exists>fn sz jit. en_routine en fn sz jit = Assert_failed)"

text \<open>A call that returns with \<open>Q\<close>, or is stopped by a routine's assertion.\<close>

definition ends_ok :: "env \<Rightarrow> tramp_error + 'a \<Rightarrow> ('a \<Rightarrow> bool) \<Rightarrow> bool" where
  "ends_ok en r Q \<longleftrightarrow> (case r of Inl e \<Rightarrow> e = Routine_assert \<and> may_assert en | Inr x \<Rightarrow> Q x)"

lemma ends_ok_simps [simp]:
  "ends_ok en (Inr x) Q = Q x" "ends_ok en (Inl e) Q = (e = Routine_assert \<and> may_assert en)"
  by (simp_all add: ends_ok_def)

lemma ends_ok_cases:
  assumes "ends_ok en r Q"
  obtains (aborts) "r = Inl Routine_assert" "may_assert en" | (returns) x where "r = Inr x" "Q x"
  using assms by (cases r) (auto simp: ends_ok_def)

lemma ends_ok_mono: "ends_ok en r P \<Longrightarrow> (\<And>x. P x \<Longrightarrow> Q x) \<Longrightarrow> ends_ok en r Q"
  by (cases r) simp_all

definition table_in :: "CallSiteID set \<Rightarrow> dispatch \<Rightarrow> bool" where
  "table_in K d \<longleftrightarrow> dispatch_inv d \<and> (\<forall>k. dtab.entry_of (dt_table d) k \<noteq> None \<longrightarrow> k \<in> K)"

text \<open>
  \<open>n\<close> bounds the generation counter together with the events still to be processed, each of which
  can install at most one routine.
\<close>

definition proc_ok :: "u32 set \<Rightarrow> CallSiteID set \<Rightarrow> nat \<Rightarrow> process \<Rightarrow> bool" where
  "proc_ok T K n st \<longleftrightarrow>
     rings_ok (pr_trace st) \<and> ring_room T (pr_trace st) \<and> dq_inv (pr_deopt st) \<and> table_in K (pr_dispatch st) \<and>
     unat (dt_generation (pr_dispatch st)) + waiting (pr_trace st) \<le> n"

definition quiet :: "process \<Rightarrow> process \<Rightarrow> bool" where
  "quiet st st' \<longleftrightarrow> pr_trace st' = pr_trace st \<and> pr_dispatch st' = pr_dispatch st \<and>
     (dq_inv (pr_deopt st) \<longrightarrow> dq_inv (pr_deopt st'))"

lemma quiet_trans: "quiet a b \<Longrightarrow> quiet b c \<Longrightarrow> quiet a c"
  by (simp add: quiet_def)

lemma quiet_parts:
  "quiet st st" "quiet st (resolve_real_allocators en st)" "quiet st (snd (libc_malloc en sz st))" "quiet st (libc_free p st)"
  "quiet st (snd (libc_realloc en p sz st))" "quiet st (snd (bootstrap_alloc en sz st))" "quiet st (memcpy a b n st)"
  "quiet st (safe_point_tick en st)" "quiet st (st\<lparr>reentrancy_guard := b'\<rparr>)" "quiet st (st\<lparr>pr_jit := j\<rparr>)"
  "quiet st (snd (cached_lookup cs st))"
  by (simp_all add: quiet_def resolve_real_allocators_def libc_malloc_def libc_free_def libc_realloc_def
      bootstrap_alloc_def memcpy_def safe_point_tick_def cached_lookup_def mark_safe_point_def register_thread_def
      dq_inv_def Let_def)

lemma proc_ok_quiet: "proc_ok T K n st \<Longrightarrow> quiet st st' \<Longrightarrow> proc_ok T K n st'"
  by (simp add: proc_ok_def quiet_def)

lemma proc_ok_mono: "proc_ok T K n st \<Longrightarrow> n \<le> m \<Longrightarrow> proc_ok T K m st"
  by (auto simp: proc_ok_def)

lemma table_in_revert: "table_in K d \<Longrightarrow> cs \<noteq> 0 \<Longrightarrow> table_in K (dispatch_revert cs d)"
  using dispatch_revert_inv [of d cs] by (auto simp: table_in_def split: if_splits)

lemma trace_alloc_ok:
  assumes "proc_ok T K n st" and "en_thread en \<in> T" and "cs \<noteq> 0"
  shows "\<exists>st'. trace_alloc en cs sz p st = Inr st' \<and> proc_ok T K (Suc n) st' \<and> pr_dispatch st' = pr_dispatch st"
proof -
  let ?ev = "\<lparr>ev_call_site = cs, ev_size = ucast sz, ev_timestamp_ns = en_tsc en, ev_thread_id = en_thread en, ev_ptr = p\<rparr>"
  obtain wake tr where "record_event (en_thread en) ?ev (pr_trace st) = Inr (wake, tr)"
    "ring_room T tr" "rings_ok tr" "waiting tr \<le> Suc (waiting (pr_trace st))"
    using record_event_ok [of T "pr_trace st" "en_thread en" ?ev] assms by (auto simp: proc_ok_def)
  then show ?thesis using assms(1) by (auto simp: trace_alloc_def record_alloc_def proc_ok_def)
qed

lemma trace_free_ok:
  assumes "proc_ok T K n st" and "en_thread en \<in> T" and "cs \<noteq> 0"
  shows "\<exists>st'. trace_free en cs p st = Inr st' \<and> proc_ok T K (Suc n) st' \<and> pr_dispatch st' = pr_dispatch st"
proof -
  let ?ev = "\<lparr>ev_call_site = cs, ev_size = 0, ev_timestamp_ns = en_tsc en, ev_thread_id = en_thread en, ev_ptr = p\<rparr>"
  obtain wake tr where "record_event (en_thread en) ?ev (pr_trace st) = Inr (wake, tr)"
    "ring_room T tr" "rings_ok tr" "waiting tr \<le> Suc (waiting (pr_trace st))"
    using record_event_ok [of T "pr_trace st" "en_thread en" ?ev] assms by (auto simp: proc_ok_def)
  then show ?thesis using assms(1) by (auto simp: trace_free_def record_free_def proc_ok_def)
qed

text \<open>Where a call of the allocation functions may leave the shared structures.\<close>

abbreviation next_ok :: "u32 set \<Rightarrow> CallSiteID set \<Rightarrow> nat \<Rightarrow> process \<Rightarrow> process \<Rightarrow> bool" where
  "next_ok T K n st st' \<equiv> proc_ok T K n st' \<and> moved_by 1 (pr_dispatch st) (pr_dispatch st')"

lemma handle_ok:
  assumes "handle cs page r dp d = (dp', d')" and "dq_inv dp" and "table_in K d" and "cs \<noteq> 0"
  shows "dq_inv dp' \<and> table_in K d' \<and> moved d d'"
proof -
  have "dq_inv (dq_push x dp)" for x
    using assms(2) dq_push_room(2) dq_push_full by (metis not_less)
  then show ?thesis
    using handle_cases [OF assms(1)] assms(2-4) table_in_revert handle_moved [OF assms(1)] by blast
qed

lemma run_routine_ok:
  assumes ok: "proc_ok T K n st" and en: "env_ok T en" and n: "Suc n < 2 ^ 64"
  shows "ends_ok en (run_routine en fn sz st) (\<lambda>(p, st'). next_ok T K (Suc n) st st')"
proof (cases "en_routine en fn sz (pr_jit st)")
  case (Chunk p jit)
  then show ?thesis using ok by (simp add: run_routine_def proc_ok_def)
next
  case (Guard_failed cs page r)
  obtain dp d where h: "handle cs page r (pr_deopt st) (pr_dispatch st) = (dp, d)" by fastforce
  have "cs \<noteq> 0" using en Guard_failed unfolding env_ok_def by blast
  then have o: "dq_inv dp" "table_in K d" "moved (pr_dispatch st) d"
    using handle_ok [OF h, of K] ok by (auto simp: proc_ok_def)
  have g: "Suc (unat (dt_generation (pr_dispatch st))) < 2 ^ 64" using ok n unfolding proc_ok_def by linarith
  have mv: "moved_by 1 (pr_dispatch st) d" by (rule moved_by_moved [OF o(3) g])
  then show ?thesis using Guard_failed h ok o(1,2)
    by (simp add: run_routine_def libc_malloc_def proc_ok_def moved_by_def)
next
  case Assert_failed
  then show ?thesis by (auto simp: run_routine_def may_assert_def)
qed

lemma serve_ok:
  assumes ok: "proc_ok T K n st" and en: "env_ok T en" and "cs \<noteq> 0" and n: "Suc n < 2 ^ 64"
  shows "ends_ok en (serve en cs sz fn st) (\<lambda>(p, st'). next_ok T K (Suc n) st st')"
proof (cases "fn = 0")
  case True
  obtain p s1 where m: "libc_malloc en sz (st\<lparr>g_generic_allocs := g_generic_allocs st + 1\<rparr>) = (p, s1)" by fastforce
  then have q: "quiet st s1" by (auto simp: libc_malloc_def quiet_def)
  obtain st' where "trace_alloc en cs sz p s1 = Inr st'" "proc_ok T K (Suc n) st'" "pr_dispatch st' = pr_dispatch s1"
    using trace_alloc_ok [OF proc_ok_quiet [OF ok q]] en assms(3) unfolding env_ok_def by blast
  then show ?thesis using True m q by (simp add: serve_def Let_def quiet_def)
next
  case False
  let ?s = "st\<lparr>g_jit_allocs := g_jit_allocs st + 1\<rparr>"
  have "quiet st ?s" by (simp add: quiet_def)
  from run_routine_ok [OF proc_ok_quiet [OF ok this] en n, of fn sz] show ?thesis using False by (simp add: serve_def)
qed

lemma malloc_ok:
  assumes ok: "proc_ok T K n st" and en: "env_ok T en" and cs: "hash_return_addr ra \<noteq> 0" and n: "Suc n < 2 ^ 64"
  shows "ends_ok en (malloc en ra sz st) (\<lambda>(p, st'). next_ok T K (Suc n) st st')"
proof (cases "g_initialized st \<and> \<not> g_shutting_down st \<and> \<not> reentrancy_guard st")
  case True
  let ?s1 = "safe_point_tick en (st\<lparr>reentrancy_guard := True\<rparr>)"
  obtain fn s2 where l: "cached_lookup (hash_return_addr ra) ?s1 = (fn, s2)" by fastforce
  have q: "quiet st s2"
    using quiet_trans [OF quiet_trans [OF quiet_parts(9) quiet_parts(8)] quiet_parts(11)] l by (metis snd_conv)
  have d: "pr_dispatch s2 = pr_dispatch st" using q by (simp add: quiet_def)
  from serve_ok [OF proc_ok_quiet [OF ok q] en cs n, of sz fn] show ?thesis
  proof (cases rule: ends_ok_cases)
    case aborts
    then show ?thesis using True l by (simp add: malloc_def Let_def)
  next
    case (returns x)
    obtain p s3 where x: "x = (p, s3)" by fastforce
    have "malloc en ra sz st = Inr (p, s3\<lparr>reentrancy_guard := False\<rparr>)"
      using True l returns(1) x en by (simp add: malloc_def shadow_alloc_def env_ok_def Let_def)
    then show ?thesis using returns(2) x d proc_ok_quiet [OF _ quiet_parts(9), of T K "Suc n" s3 False] by simp
  qed
next
  case False
  let ?s = "if \<not> g_initialized st \<and> \<not> have_malloc st then resolve_real_allocators en st else st"
  have "malloc en ra sz st = Inr (if \<not> g_initialized st \<and> \<not> have_malloc ?s then bootstrap_alloc en sz ?s else libc_malloc en sz ?s)"
    using False by (cases "g_initialized st"; cases "g_shutting_down st") (simp_all add: malloc_def Let_def)
  moreover obtain p st' where x: "(if \<not> g_initialized st \<and> \<not> have_malloc ?s then bootstrap_alloc en sz ?s else libc_malloc en sz ?s) = (p, st')"
    by fastforce
  moreover have q: "quiet ?s st'" using x quiet_parts(3) [of ?s en sz] quiet_parts(6) [of ?s en sz] by (auto split: if_splits)
  moreover have "quiet st ?s" by (simp add: quiet_parts)
  then have "quiet st st'" using q by (rule quiet_trans)
  ultimately have "malloc en ra sz st = Inr (p, st')" "quiet st st'" by simp_all
  then show ?thesis using proc_ok_mono [OF proc_ok_quiet [OF ok], of st' "Suc n"] by (auto simp: quiet_def)
qed

lemma free_ok:
  assumes ok: "proc_ok T K n st" and en: "env_ok T en" and cs: "hash_return_addr ra \<noteq> 0"
  shows "\<exists>st'. free en ra p st = Inr st' \<and> proc_ok T K (Suc n) st' \<and> pr_dispatch st' = pr_dispatch st"
proof (cases "\<not> is_bootstrap en p \<and> g_initialized st \<and> \<not> g_shutting_down st \<and> \<not> reentrancy_guard st \<and> have_free st")
  case True
  obtain s1 where s1: "trace_free en (hash_return_addr ra) p (st\<lparr>reentrancy_guard := True\<rparr>) = Inr s1"
    "proc_ok T K (Suc n) s1" "pr_dispatch s1 = pr_dispatch st"
    using trace_free_ok [OF proc_ok_quiet [OF ok quiet_parts(9)]] en cs unfolding env_ok_def by fastforce
  let ?s2 = "if p = 0 then s1
             else if is_managed (seg_of p) (sg (pr_jit s1))
             then s1\<lparr>pr_jit := free_managed (en_os en) (seg_of p) p (pr_jit s1)\<rparr> else libc_free p s1"
  have "free en ra p st = Inr (?s2\<lparr>reentrancy_guard := False\<rparr>)"
    using True s1(1) en by (simp add: free_def shadow_free_def env_ok_def Let_def)
  moreover have "quiet s1 (?s2\<lparr>reentrancy_guard := False\<rparr>)"
    by (rule quiet_trans [of _ ?s2]) (simp_all add: quiet_parts)
  ultimately show ?thesis using proc_ok_quiet [OF s1(2)] s1(3) by (simp add: quiet_def)
next
  case False
  let ?s = "if \<not> is_bootstrap en p \<and> \<not> g_initialized st \<and> \<not> have_free st then resolve_real_allocators en st else st"
  have "\<exists>st'. free en ra p st = Inr st' \<and> quiet ?s st'"
    using False quiet_parts(1,4) by (auto simp: free_def Let_def)
  moreover have "quiet st ?s" by (simp add: quiet_parts)
  ultimately obtain st' where "free en ra p st = Inr st'" "quiet st st'" using quiet_trans by blast
  then show ?thesis using proc_ok_mono [OF proc_ok_quiet [OF ok], of st' "Suc n"] by (auto simp: quiet_def)
qed

text \<open>
  A call of \<open>realloc\<close> leaves the structures alone, is a call of \<open>free\<close>, or begins with a call of
  \<open>malloc\<close>, which is the only part that can be stopped.
\<close>

lemma realloc_direct:
  assumes "\<not> is_bootstrap en p" and "\<not> g_initialized st \<or> g_shutting_down st \<or> reentrancy_guard st \<or>
    p \<noteq> 0 \<and> \<not> is_managed (seg_of p) (sg (pr_jit st))"
  shows "\<exists>q s. realloc en ra p sz st = Inr (q, s) \<and> quiet st s"
proof (cases "g_initialized st")
  case False
  let ?s = "if \<not> have_realloc st then resolve_real_allocators en st else st"
  let ?r = "if have_realloc ?s then libc_realloc en p sz ?s else if p \<noteq> 0 then (p, ?s) else bootstrap_alloc en sz ?s"
  have r: "realloc en ra p sz st = Inr (fst ?r, snd ?r)" using False assms(1) by (simp add: realloc_def Let_def)
  have "quiet st (snd ?r)" by (rule quiet_trans [of _ ?s]) (simp_all add: quiet_parts)
  with r show ?thesis by blast
next
  case True
  then have "realloc en ra p sz st = Inr (fst (libc_realloc en p sz st), snd (libc_realloc en p sz st))"
    using assms by (auto simp: realloc_def Let_def)
  then show ?thesis using quiet_parts(5) by blast
qed

lemma realloc_shapes:
  obtains (direct) q s where "realloc en ra p sz st = Inr (q, s)" "quiet st s"
  | (frees) "realloc en ra p sz st = map_sum id (\<lambda>s. (0, s)) (free en (en_realloc_ra en) p st)"
  | (copies) k where "realloc en ra p sz st = map_sum id (\<lambda>(q, s). (q, if q \<noteq> 0 then memcpy q p k s else s))
        (malloc en (en_realloc_ra en) sz st)"
  | (allocs) "realloc en ra p sz st = malloc en (en_realloc_ra en) sz st"
  | (moves) k where "realloc en ra p sz st =
        (case malloc en (en_realloc_ra en) sz st of
           Inl e \<Rightarrow> Inl e
         | Inr (q, s) \<Rightarrow> map_sum id (\<lambda>s. (q, s)) (free en (en_realloc_ra en) p (if q \<noteq> 0 then memcpy q p k s else s)))"
proof -
  let ?ra = "en_realloc_ra en"
  consider (boot) "is_bootstrap en p"
    | (libc) "\<not> is_bootstrap en p" "\<not> g_initialized st \<or> g_shutting_down st \<or> reentrancy_guard st \<or>
        p \<noteq> 0 \<and> \<not> is_managed (seg_of p) (sg (pr_jit st))"
    | (null) "\<not> is_bootstrap en p" "g_initialized st" "\<not> g_shutting_down st" "\<not> reentrancy_guard st" "p = 0"
    | (moved) "\<not> is_bootstrap en p" "g_initialized st" "\<not> g_shutting_down st" "\<not> reentrancy_guard st" "p \<noteq> 0"
        "is_managed (seg_of p) (sg (pr_jit st))" by blast
  then show ?thesis
  proof cases
    case boot
    let ?avail = "en_bootstrap en + BOOTSTRAP_SIZE - p"
    show ?thesis
      by (rule copies [of "if sz < ?avail then sz else ?avail"])
        (use boot in \<open>auto simp: realloc_def Let_def split: sum.split\<close>)
  next
    case libc
    then show ?thesis using realloc_direct direct by metis
  next
    case null
    show ?thesis by (rule allocs) (use null in \<open>simp add: realloc_def\<close>)
  next
    case moved
    let ?k = "if sz < managed_cap p st then sz else managed_cap p st"
    show ?thesis
    proof (cases "sz = 0")
      case True
      show ?thesis by (rule frees) (use moved True in \<open>auto simp: realloc_def Let_def split: sum.split\<close>)
    next
      case False
      show ?thesis
        by (rule moves [of ?k]) (use moved False in \<open>auto simp: realloc_def Let_def split: sum.split\<close>)
    qed
  qed
qed

lemma realloc_ok:
  assumes ok: "proc_ok T K n st" and en: "env_ok T en" and n: "Suc (Suc n) < 2 ^ 64"
  shows "ends_ok en (realloc en ra p sz st) (\<lambda>(q, st'). next_ok T K (Suc (Suc n)) st st')"
proof -
  let ?ra = "en_realloc_ra en"
  have ra: "hash_return_addr ?ra \<noteq> 0" using en by (simp add: env_ok_def)
  have m: "ends_ok en (malloc en ?ra sz st) (\<lambda>(q, s). next_ok T K (Suc n) st s)"
    by (rule malloc_ok [OF ok en ra]) (use n in simp)
  have copy: "quiet s (if q \<noteq> 0 then memcpy q p k s else s)" for q k s by (simp add: quiet_parts)
  show ?thesis
  proof (cases rule: realloc_shapes [of en ra p sz st])
    case (direct q s)
    then show ?thesis using proc_ok_mono [OF proc_ok_quiet [OF ok direct(2)], of "Suc (Suc n)"] by (simp add: quiet_def)
  next
    case frees
    obtain s where "free en ?ra p st = Inr s" "proc_ok T K (Suc n) s" "pr_dispatch s = pr_dispatch st"
      using free_ok [OF ok en ra] by blast
    then show ?thesis using frees proc_ok_mono [of T K "Suc n" s "Suc (Suc n)"] by simp
  next
    case (copies k)
    from m show ?thesis
    proof (cases rule: ends_ok_cases)
      case (returns x)
      obtain q s where x: "x = (q, s)" by fastforce
      have "proc_ok T K (Suc (Suc n)) (if q \<noteq> 0 then memcpy q p k s else s)"
        by (rule proc_ok_mono [OF proc_ok_quiet [OF _ copy [of s q k]], of T K "Suc n"]) (use returns(2) x in simp_all)
      then show ?thesis using copies returns copy [of s q k] by (simp add: x quiet_def)
    qed (simp add: copies)
  next
    case allocs
    show ?thesis unfolding allocs using m by (rule ends_ok_mono) (auto intro: proc_ok_mono)
  next
    case (moves k)
    from m show ?thesis
    proof (cases rule: ends_ok_cases)
      case (returns x)
      obtain q s where x: "x = (q, s)" by fastforce
      have "proc_ok T K (Suc n) (if q \<noteq> 0 then memcpy q p k s else s)"
        using returns(2) proc_ok_quiet [OF _ copy] by (simp add: x)
      from free_ok [OF this en ra, of p] show ?thesis
        using moves returns copy [of s q k] by (auto simp: x quiet_def)
    qed (simp add: moves)
  qed
qed

text \<open>A call by a program: its return address is not hashed to the table's empty key.\<close>

fun call_ok :: "tramp_op \<Rightarrow> bool" where
  "call_ok (Do_malloc ra sz) = (hash_return_addr ra \<noteq> 0)"
| "call_ok (Do_free ra p) = (hash_return_addr ra \<noteq> 0)"
| "call_ok (Do_realloc ra p sz) = True"
| "call_ok (Other_install cs fn) = False"
| "call_ok (Other_revert cs) = False"

lemma ends_ok_map_sum: "ends_ok en (map_sum id f r) Q = ends_ok en r (\<lambda>x. Q (f x))"
  by (cases r) simp_all

lemma tramp_step_ok:
  assumes "proc_ok T K n st" and "env_ok T en" and "call_ok op" and "Suc (Suc n) < 2 ^ 64"
  shows "ends_ok en (tramp_step en op st) (next_ok T K (Suc (Suc n)) st)"
proof (cases op)
  case (Do_malloc ra sz)
  have "ends_ok en (malloc en ra sz st) (\<lambda>(p, st'). next_ok T K (Suc n) st st')"
    using malloc_ok [OF assms(1,2)] assms(3,4) Do_malloc by simp
  then have "ends_ok en (malloc en ra sz st) (\<lambda>x. next_ok T K (Suc (Suc n)) st (snd x))"
    by (rule ends_ok_mono) (auto intro: proc_ok_mono)
  then show ?thesis using Do_malloc by (simp add: ends_ok_map_sum)
next
  case (Do_free ra p)
  obtain st' where "free en ra p st = Inr st'" "proc_ok T K (Suc n) st'" "pr_dispatch st' = pr_dispatch st"
    using free_ok [OF assms(1,2), of ra p] assms(3) Do_free by auto
  then show ?thesis using Do_free proc_ok_mono [of T K "Suc n" st' "Suc (Suc n)"] by simp
next
  case (Do_realloc ra p sz)
  have "ends_ok en (realloc en ra p sz st) (\<lambda>x. next_ok T K (Suc (Suc n)) st (snd x))"
    using realloc_ok [OF assms(1,2,4), of ra p sz] by (rule ends_ok_mono) auto
  then show ?thesis using Do_realloc by (simp add: ends_ok_map_sum)
qed (use assms(3) in simp_all)

section \<open>Invariant of the running program\<close>

definition sys_ok :: "u32 set \<Rightarrow> nat \<Rightarrow> system \<Rightarrow> bool" where
  "sys_ok T n s \<longleftrightarrow>
     proc_ok T (site_ids (sy_summaries s)) n (sy_proc s) \<and> analysis_ok (sy_knobs s) (bg_analysis (bg_view s)) \<and>
     (\<forall>t. cache_ok n (switch_to (sy_vars s t) (sy_proc s)))"

lemma sys_ok_bg: "sys_ok T n s \<Longrightarrow> bg_ok (sy_knobs s) (bg_view s)"
  by (auto simp: sys_ok_def proc_ok_def bg_ok_def bg_view_def rings_ok_def)

lemma switch_to_parts [simp]:
  "pr_trace (switch_to v p) = pr_trace p" "pr_dispatch (switch_to v p) = pr_dispatch p" "pr_deopt (switch_to v p) = pr_deopt p"
  by (simp_all add: switch_to_def)

lemma cache_ok_advance:
  assumes "cache_ok n (switch_to v p)" and "moved_by k (pr_dispatch p) (pr_dispatch p')"
    and "unat (dt_generation (pr_dispatch p')) \<le> m"
  shows "cache_ok m (switch_to v p')"
  using assms by (auto simp: cache_ok_def switch_to_def moved_by_def)

lemma thread_call_ok:
  assumes ok: "sys_ok T n s" and en: "env_ok T (w_env w t)" and op: "call_ok op" and n: "Suc (Suc n) < 2 ^ 64"
  obtains (aborts) "thread_call w t op s = Inl (App_abort Routine_assert)" "may_assert (w_env w t)"
  | (returns) s' where "thread_call w t op s = Inr s'" "sys_ok T (Suc (Suc n)) s'"
proof -
  let ?p = "switch_to (sy_vars s t) (sy_proc s)" and ?K = "site_ids (sy_summaries s)"
  have pok: "proc_ok T ?K n ?p" using ok by (simp add: sys_ok_def proc_ok_def)
  from tramp_step_ok [OF this en op n] show ?thesis
  proof (cases rule: ends_ok_cases)
    case aborts
    then show ?thesis using that(1) by (simp add: thread_call_def)
  next
    case (returns p)
    let ?s = "s\<lparr>sy_proc := p, sy_vars := (sy_vars s)(t := vars_of p)\<rparr>"
    have p: "proc_ok T ?K (Suc (Suc n)) p" "moved_by 1 (pr_dispatch (sy_proc s)) (pr_dispatch p)"
      using returns(2) by simp_all
    have own: "cache_ok (Suc (Suc n)) p"
      using tramp_step_cache [OF returns(1)] ok n cache_ok_mono [of "Suc n" p "Suc (Suc n)"] by (auto simp: sys_ok_def)
    have "unat (dt_generation (pr_dispatch p)) \<le> Suc (Suc n)" using p(1) by (simp add: proc_ok_def)
    then have "cache_ok (Suc (Suc n)) (switch_to (sy_vars s u) p)" for u
      using cache_ok_advance [OF _ p(2)] ok unfolding sys_ok_def by blast
    then have "\<forall>u. cache_ok (Suc (Suc n)) (switch_to (sy_vars ?s u) (sy_proc ?s))" using own by simp
    moreover have "analysis_ok (sy_knobs s) (bg_analysis (bg_view ?s))"
      using ok p(1) by (simp add: sys_ok_def proc_ok_def table_in_def analysis_ok_def bg_view_def)
    ultimately have "sys_ok T (Suc (Suc n)) ?s" using p(1) by (simp add: sys_ok_def)
    then show ?thesis using that(2) returns(1) by (simp add: thread_call_def)
  qed
qed

lemma drain_queue_dispatch: "an_dispatch (snd (drain_queue kn dp an)) = an_dispatch an"
proof (induction kn dp an rule: drain_queue.induct)
  case (1 kn dp an)
  then show ?case
    by (subst drain_queue.simps) (auto simp: Let_def reset_call_site_eq split: option.split)
qed

lemma run_drain_pending_parts:
  "bg_trace (run_drain_pending to st) = bg_trace st"
  "an_dispatch (bg_analysis (run_drain_pending to st)) = an_dispatch (bg_analysis st)"
  using drain_queue_dispatch [of "to_knobs to" "bg_deopt st" "bg_analysis st"]
  by (auto simp: run_drain_pending_def drain_pending_def Let_def split: prod.splits)

lemma background_iteration_moved:
  assumes "background_iteration to os mode st = Inr (found, st')" and "rings_ok (bg_trace st)"
    and "unat (dt_generation (an_dispatch (bg_analysis st))) + waiting (bg_trace st) < 2 ^ 64"
  shows "moved_by (waiting (bg_trace st)) (an_dispatch (bg_analysis st)) (an_dispatch (bg_analysis st'))"
    and "ts_arena (bg_trace st') = ts_arena (bg_trace st)" and "ts_ring_of (bg_trace st') = ts_ring_of (bg_trace st)"
    and "length (ts_rings (bg_trace st')) = length (ts_rings (bg_trace st))"
proof -
  let ?s = "run_reaper os mode (run_drain_pending to st)" and ?evs = "concat (map ring_contents (ts_rings (bg_trace st)))"
  have s: "bg_trace ?s = bg_trace st" "an_dispatch (bg_analysis ?s) = an_dispatch (bg_analysis st)"
    by (simp_all add: run_reaper_def run_drain_pending_parts)
  have len: "length ?evs = waiting (bg_trace st)" by (simp add: waiting_def length_concat comp_def)
  have d: "drain_all to ?s = Inr (found, st')" using assms(1) by (simp add: background_iteration_def)
  have inv: "\<forall>rb \<in> set (ts_rings (bg_trace ?s)). ring_inv rb" using assms(2) s(1) by (simp add: rings_ok_def)
  obtain s1 where s1: "take_events to ?evs ?s = Inr s1"
    using drain_all_spec [OF inv, of to] d unfolding s(1) by (cases "take_events to ?evs ?s") auto
  obtain rbs where r: "st' = s1\<lparr>bg_trace := (bg_trace st)\<lparr>ts_rings := rbs\<rparr>\<rparr>" "length rbs = length (ts_rings (bg_trace st))"
    using drain_all_spec [OF inv, of to] d s1 unfolding s(1) by auto
  show "moved_by (waiting (bg_trace st)) (an_dispatch (bg_analysis st)) (an_dispatch (bg_analysis st'))"
    using take_events_moved [OF s1] assms(3) r(1) unfolding s(2) len by simp
  show "ts_arena (bg_trace st') = ts_arena (bg_trace st)" "ts_ring_of (bg_trace st') = ts_ring_of (bg_trace st)"
    "length (ts_rings (bg_trace st')) = length (ts_rings (bg_trace st))" using r by simp_all
qed

lemma background_step_ok:
  assumes ok: "sys_ok T n s" and n: "n < 2 ^ 64"
  shows "\<exists>s'. background_step w os mode s = Inr s' \<and> sys_ok T n s'"
proof -
  let ?to = "tools_of w s" and ?b = "bg_view s" and ?d = "pr_dispatch (sy_proc s)" and ?tr = "pr_trace (sy_proc s)"
  have k: "to_knobs ?to = sy_knobs s" by (simp add: tools_of_def)
  obtain found b where b: "background_iteration ?to os mode ?b = Inr (found, b)" "bg_ok (sy_knobs s) b" "rings_empty b"
    using background_iteration_ok [of ?to ?b] sys_ok_bg [OF ok] unfolding k by blast
  have v: "bg_trace ?b = ?tr" "an_dispatch (bg_analysis ?b) = ?d" by (simp_all add: bg_view_def)
  have pr: "rings_ok ?tr" "ring_room T ?tr" "unat (dt_generation ?d) + waiting ?tr \<le> n"
    using ok by (simp_all add: sys_ok_def proc_ok_def)
  note m = background_iteration_moved [OF b(1), unfolded v, OF pr(1) le_less_trans [OF pr(3) n]]
  let ?s = "bg_store b s"
  have g: "unat (dt_generation (an_dispatch (bg_analysis b))) \<le> n" using m(1) pr(3) by (simp add: moved_by_def)
  have w0: "waiting (bg_trace b) = 0" using b(3) by (auto simp: waiting_def rings_empty_def simp del: length_ring_contents)
  have "ring_room T (bg_trace b)" using pr(2) m(2-4) by (simp add: ring_room_def)
  then have "proc_ok T (site_ids (sy_summaries ?s)) n (sy_proc ?s)"
    using b(2) w0 g by (auto simp: proc_ok_def bg_store_def bg_ok_def rings_ok_def table_in_def analysis_ok_def)
  moreover have "cache_ok n (switch_to (sy_vars ?s t) (sy_proc ?s))" for t
    using cache_ok_advance [of n "sy_vars s t" "sy_proc s" _ "sy_proc ?s" n] ok m(1) g
    by (auto simp: sys_ok_def bg_store_def)
  moreover have "analysis_ok (sy_knobs ?s) (bg_analysis (bg_view ?s))" using b(2) by (simp add: bg_ok_def) (simp add: bg_store_def)
  ultimately have "sys_ok T n ?s" by (simp add: sys_ok_def)
  then show ?thesis using b(1) by (simp add: background_step_def)
qed

fun step_ok :: "world \<Rightarrow> u32 set \<Rightarrow> sys_op \<Rightarrow> bool" where
  "step_ok w T (Call t op) = (env_ok T (w_env w t) \<and> call_ok op)"
| "step_ok w T (Background_step os mode) = True"

text \<open>A run ends, or an assertion of a routine stops it.\<close>

definition asserts_in :: "world \<Rightarrow> sys_op list \<Rightarrow> bool" where
  "asserts_in w xs \<longleftrightarrow> (\<exists>t op. Call t op \<in> set xs \<and> may_assert (w_env w t))"

lemma sys_run_ok:
  "sys_ok T n s \<Longrightarrow> \<forall>x \<in> set xs. step_ok w T x \<Longrightarrow> n + 2 * length xs < 2 ^ 64 \<Longrightarrow>
   (sys_run w xs s = Inl (App_abort Routine_assert) \<and> asserts_in w xs) \<or>
   (\<exists>s'. sys_run w xs s = Inr s' \<and> sys_ok T (n + 2 * length xs) s')"
proof (induction xs arbitrary: s n)
  case (Cons x xs)
  have "sys_step w x s = Inl (App_abort Routine_assert) \<and> asserts_in w (x # xs) \<or>
      (\<exists>s1. sys_step w x s = Inr s1 \<and> sys_ok T (Suc (Suc n)) s1)"
  proof (cases x)
    case (Call t op)
    then have en: "env_ok T (w_env w t)" "call_ok op" using Cons.prems(2) by simp_all
    have "Suc (Suc n) < 2 ^ 64" using Cons.prems(3) by simp
    show ?thesis
    proof (rule thread_call_ok [OF Cons.prems(1) en \<open>Suc (Suc n) < 2 ^ 64\<close>], goal_cases)
      case 1
      then show ?thesis using Call by (auto simp: asserts_in_def)
    next
      case (2 s1)
      then show ?thesis using Call by simp
    qed
  next
    case (Background_step os mode)
    obtain s1 where s1: "background_step w os mode s = Inr s1" "sys_ok T n s1"
      using background_step_ok [OF Cons.prems(1)] Cons.prems(3) by fastforce
    have "sys_ok T (Suc (Suc n)) s1"
      using s1(2) proc_ok_mono [of T _ n] cache_ok_mono [of n] unfolding sys_ok_def by (meson le_SucI order_refl)
    then show ?thesis using s1(1) Background_step by simp
  qed
  then show ?case
  proof
    assume "\<exists>s1. sys_step w x s = Inr s1 \<and> sys_ok T (Suc (Suc n)) s1"
    then obtain s1 where s1: "sys_step w x s = Inr s1" "sys_ok T (Suc (Suc n)) s1" by blast
    have "asserts_in w xs \<Longrightarrow> asserts_in w (x # xs)" by (auto simp: asserts_in_def)
    then show ?case using Cons.IH [OF s1(2)] Cons.prems(2,3) s1(1) by auto
  qed simp
qed simp

lemma tbjit_init_ok:
  assumes m: "bo_mmap bt = Some m" "m \<noteq> 0" "unat m + 2 ^ 22 \<le> 2 ^ 47" "unat m mod 8 = 0"
    and T: "finite T" "card T \<le> 125"
  shows "\<exists>s0. tbjit_init en bt system_static = Inr s0 \<and> sys_ok T 1 s0"
proof -
  let ?a0 = "\<lparr>arena_base = m, arena_cursor = m, arena_end = m + ARENA_SIZE\<rparr>"
  have a0: "alloc_init (Some m) g_arena_zero = Inr ?a0" by (simp add: alloc_init_def g_arena_zero_def)
  have inv0: "arena_inv ?a0" "unat (arena_end ?a0) = unat m + 2 ^ 22" using alloc_init_inv [OF a0 m(3)] by simp_all
  have sz: "unat (16 * TABLE_SIZE) = 65536" by (simp add: TABLE_SIZE_def)
  have "unat (arena_cursor ?a0) mod 8 = 0" using m(4) by simp
  note al = alloc_alloc_8 [OF inv0(1) this, of "16 * TABLE_SIZE", unfolded sz]
  obtain p a where a: "alloc_alloc (16 * TABLE_SIZE) 8 ?a0 = Inr (p, a)" using al(1) inv0(2) by auto
  then have a1: "arena_inv a" "unat (arena_cursor a) = unat m + 65536" "arena_end a = m + ARENA_SIZE"
    using al(2) by simp_all
  have base: "arena_base a = m" using a by (auto simp: alloc_alloc_def Let_def split: if_splits)
  obtain d where d: "dispatch_init ?a0 dispatch_static = Inr (a, d)" using a by (simp add: dispatch_init_def)
  have again: "alloc_init (Some m) a = Inr a" using base m(2) by (simp add: alloc_init_def)
  have start: "pr_trace (resolve_real_allocators en process_static) = \<lparr>ts_arena = g_arena_zero, ts_rings = [], ts_ring_of = (\<lambda>_. None)\<rparr>"
    "pr_dispatch (resolve_real_allocators en process_static) = dispatch_static"
    "pr_deopt (resolve_real_allocators en process_static) = deopt_start"
    by (simp_all add: resolve_real_allocators_def process_static_def Let_def)
  obtain s0 where s0: "tbjit_init en bt system_static = Inr s0"
    "pr_trace (sy_proc s0) = \<lparr>ts_arena = a, ts_rings = [], ts_ring_of = (\<lambda>_. None)\<rparr>"
    "pr_dispatch (sy_proc s0) = d" "pr_deopt (sy_proc s0) = deopt_start" "sy_summaries s0 = []"
    "sy_vars s0 = (\<lambda>_. thread_start)"
    using a0 d again m(1) start
    by (simp add: tbjit_init_def system_static_def start_background_thread_def Let_def split: option.split)
  have gen: "dt_generation d = 1" using d by (auto simp: dispatch_init_def dispatch_static_def split: sum.splits prod.splits)
  have "analysis_ok kn (analysis_start cg d)" for kn cg by (rule analysis_start_ok [OF d])
  then have an: "analysis_ok (sy_knobs s0) (bg_analysis (bg_view s0))" and tab: "table_in {} d"
    using s0 by (simp_all add: bg_view_def analysis_start_def table_in_def analysis_ok_def site_ids_def)
  have "unat (arena_end a) = unat m + 2 ^ 22" using inv0(2) a1(3) by simp
  moreover have "(unat m + 65536) mod 8 = 0" using m(4) by presburger
  ultimately have "ring_room T (pr_trace (sy_proc s0))" using a1(1,2) m(4) T s0(2) by (simp add: ring_room_def)
  moreover have "dq_inv deopt_start" by (simp add: dq_inv_def deopt_start_def)
  ultimately have "proc_ok T (site_ids (sy_summaries s0)) 1 (sy_proc s0)"
    using s0 gen tab by (simp add: proc_ok_def rings_ok_def waiting_def site_ids_def)
  moreover have "cache_ok 1 (switch_to (sy_vars s0 t) (sy_proc s0))" for t
    using s0 gen by (simp add: cache_ok_def switch_to_def thread_start_def)
  ultimately show ?thesis using s0(1) an by (auto simp: sys_ok_def)
qed

lemma take_events_count:
  "take_events to evs st = Inr st' \<Longrightarrow> g_events_processed st' = g_events_processed st + of_nat (length evs)"
proof (induction evs arbitrary: st)
  case (Cons ev evs)
  obtain s1 where s1: "take_event to ev st = Inr s1" "take_events to evs s1 = Inr st'"
    using Cons.prems by (auto split: sum.splits)
  then show ?case using Cons.IH [OF s1(2)]
    by (auto simp: take_event_def Let_def split: sum.splits if_splits)
qed simp

lemma final_drain_count:
  assumes "\<forall>rb \<in> set (ts_rings (bg_trace st)). ring_inv rb" and "final_drain to st = Inr st'"
  shows "g_events_processed st' = g_events_processed st + of_nat (waiting (bg_trace st))"
proof -
  let ?s = "run_drain_pending to st" and ?evs = "concat (map ring_contents (ts_rings (bg_trace st)))"
  have tr: "bg_trace ?s = bg_trace st" "g_events_processed ?s = g_events_processed st"
    by (simp_all add: run_drain_pending_parts) (simp add: run_drain_pending_def split: prod.split)
  have len: "length ?evs = waiting (bg_trace st)" by (simp add: waiting_def length_concat comp_def)
  obtain x where d: "drain_all to ?s = Inr x" "st' = snd x"
    using assms(2) unfolding final_drain_def by (cases "drain_all to ?s") auto
  have inv: "\<forall>rb \<in> set (ts_rings (bg_trace ?s)). ring_inv rb" using assms(1) tr by simp
  obtain s1 where s1: "take_events to ?evs ?s = Inr s1"
    using drain_all_spec [OF inv, of to] d unfolding tr by (cases "take_events to ?evs ?s") auto
  have "g_events_processed st' = g_events_processed s1"
    using drain_all_spec [OF inv, of to] d s1 unfolding tr by auto
  then show ?thesis using take_events_count [OF s1] tr(2) len by simp
qed

lemma tbjit_fini_ok:
  assumes "sys_ok T n s"
  shows "\<exists>s'. tbjit_fini w s = Inr s' \<and> rings_empty (bg_view s') \<and> dq_contents (pr_deopt (sy_proc s')) = [] \<and>
    sy_events s' = sy_events s + of_nat (waiting (pr_trace (sy_proc s))) \<and>
    g_file (sy_writer s') = None \<and> g_shutting_down (sy_proc s') \<and> \<not> g_running s'"
proof -
  let ?s = "s\<lparr>g_running := False, sy_proc := (sy_proc s)\<lparr>g_shutting_down := True, futex_word := AWAKE\<rparr>\<rparr>"
  have v: "bg_view ?s = bg_view s" and k: "to_knobs (tools_of w ?s) = sy_knobs s"
    by (simp_all add: bg_view_def tools_of_def)
  note ok = sys_ok_bg [OF assms]
  obtain b where b: "final_drain (tools_of w ?s) (bg_view s) = Inr b" "rings_empty b" "dq_contents (bg_deopt b) = []"
    using final_drain_ok [of "tools_of w ?s" "bg_view s"] ok unfolding k by blast
  have "g_events_processed b = sy_events s + of_nat (waiting (pr_trace (sy_proc s)))"
    using final_drain_count [OF _ b(1)] ok by (simp add: bg_ok_def bg_view_def)
  moreover have f: "tbjit_fini w s = Inr ((bg_store b ?s)\<lparr>sy_writer := writer_close (sy_writer (bg_store b ?s))\<rparr>)"
    using b(1) v by (simp add: tbjit_fini_def stop_background_thread_def Let_def)
  ultimately show ?thesis using b(2,3) by (simp add: rings_empty_def bg_view_def bg_store_def writer_close_def split: option.split)
qed

section \<open>Properties\<close>

text \<open>
  C5: From the static initialisers on, start-up succeeds and the program ends in no abort of its own
  bookkeeping: for up to 125 threads, with validation off and code pages that can be mapped, every
  interleaving of their calls of \<open>malloc\<close>, \<open>free\<close> and \<open>realloc\<close> with iterations of the background loop
  either runs through or is stopped by the assertion of a compiled routine's slow path, that its
  segment could be mapped; where no routine of the calling threads fails it, the run goes through.  A
  run that goes through leaves rings, deopt queue, analysis and dispatch table well formed, and every
  thread's inline cache answers as the dispatch table does at that moment.
\<close>

theorem system_never_aborts:
  assumes "bo_mmap bt = Some m" and "m \<noteq> 0" and "unat m + 2 ^ 22 \<le> 2 ^ 47" and "unat m mod 8 = 0"
    and "finite T" and "card T \<le> 125" and "\<forall>x \<in> set xs. step_ok w T x" and "2 * length xs + 1 < 2 ^ 64"
  shows "\<exists>s0. tbjit_init en bt system_static = Inr s0 \<and>
    (case sys_run w xs s0 of
       Inl e \<Rightarrow> e = App_abort Routine_assert \<and> asserts_in w xs
     | Inr s \<Rightarrow> bg_ok (sy_knobs s) (bg_view s) \<and>
         (\<forall>t cs. fst (cached_lookup cs (switch_to (sy_vars s t) (sy_proc s))) = dispatch_lookup cs (pr_dispatch (sy_proc s))))"
proof -
  obtain s0 where s0: "tbjit_init en bt system_static = Inr s0" "sys_ok T 1 s0"
    using tbjit_init_ok [OF assms(1-6)] by blast
  have cache: "fst (cached_lookup cs (switch_to (sy_vars s t) (sy_proc s))) = dispatch_lookup cs (pr_dispatch (sy_proc s))"
    if "sys_ok T (1 + 2 * length xs) s" for s t cs
    using cached_lookup_ok(1) [of _ "switch_to (sy_vars s t) (sy_proc s)"] that by (auto simp: sys_ok_def)
  from sys_run_ok [OF s0(2) assms(7)] assms(8)
  consider "sys_run w xs s0 = Inl (App_abort Routine_assert)" "asserts_in w xs"
    | s where "sys_run w xs s0 = Inr s" "sys_ok T (1 + 2 * length xs) s" by auto
  then show ?thesis
  proof cases
    case 1
    then show ?thesis using s0(1) by simp
  next
    case (2 s)
    then show ?thesis using s0(1) cache [OF 2(2)] sys_ok_bg [OF 2(2)] by simp
  qed
qed

text \<open>
  C22: Whatever ran before, the destructor returns: it processes every event that still waits, counts
  it, leaves the rings and the deopt queue empty, closes the trace file and stops the background
  thread, with the shutdown flag set.
\<close>

theorem shutdown_loses_nothing:
  assumes "bo_mmap bt = Some m" and "m \<noteq> 0" and "unat m + 2 ^ 22 \<le> 2 ^ 47" and "unat m mod 8 = 0"
    and "finite T" and "card T \<le> 125" and "\<forall>x \<in> set xs. step_ok w T x" and "2 * length xs + 1 < 2 ^ 64"
    and "tbjit_init en bt system_static = Inr s0" and "sys_run w xs s0 = Inr s"
  shows "\<exists>s'. tbjit_fini w s = Inr s' \<and> (\<forall>rb \<in> set (ts_rings (pr_trace (sy_proc s'))). ring_contents rb = []) \<and>
    dq_contents (pr_deopt (sy_proc s')) = [] \<and>
    sy_events s' = sy_events s + of_nat (waiting (pr_trace (sy_proc s))) \<and>
    g_file (sy_writer s') = None \<and> g_shutting_down (sy_proc s') \<and> \<not> g_running s'"
proof -
  have "sys_ok T 1 s0" using tbjit_init_ok [OF assms(1-6), of en] assms(9) by simp
  then have "sys_ok T (1 + 2 * length xs) s" using sys_run_ok [OF _ assms(7)] assms(8,10) by fastforce
  from tbjit_fini_ok [OF this] show ?thesis by (auto simp: rings_empty_def bg_view_def)
qed

definition demo_world :: world where
  "demo_world = \<lparr>w_env = (\<lambda>_. demo_proc_env), w_link = (\<lambda>_. demo_link), w_pad = (\<lambda>_. [0, 0, 0, 0])\<rparr>"

definition demo_boot :: boot where
  "demo_boot = \<lparr>bo_mmap = Some 0x10000, bo_getenv = (\<lambda>_. None), bo_strtod = (\<lambda>_. 0), bo_fopen = (\<lambda>_. True),
                bo_clock = (0, 0), bo_pid = 7\<rparr>"

definition demo_steps :: "sys_op list" where
  "demo_steps =
     [Call 1 (Do_malloc 0x401000 48), Background_step demo_env Conservative, Call 2 (Do_free 0x401000 0x9000)]"

lemma demo_steps_ok: "\<forall>x \<in> set demo_steps. step_ok demo_world {1} x"
proof -
  have h: "hash_return_addr 0x401000 \<noteq> 0" by (simp add: hash_return_addr_def Let_def)
  have "env_ok {1} demo_proc_env"
    unfolding env_ok_def using h by (simp add: demo_proc_env_def)
  then show ?thesis using h by (simp add: demo_steps_def demo_world_def)
qed

lemma demo_never_asserts: "\<not> asserts_in demo_world xs"
  by (simp add: asserts_in_def may_assert_def demo_world_def demo_proc_env_def)

theorem system_never_aborts_witness:
  "\<exists>s0 s. tbjit_init demo_proc_env demo_boot system_static = Inr s0 \<and> sys_run demo_world demo_steps s0 = Inr s \<and>
     bg_ok (sy_knobs s) (bg_view s)"
proof -
  obtain s0 where s0: "tbjit_init demo_proc_env demo_boot system_static = Inr s0"
    and r: "case sys_run demo_world demo_steps s0 of Inl e \<Rightarrow> e = App_abort Routine_assert \<and> asserts_in demo_world demo_steps
      | Inr s \<Rightarrow> bg_ok (sy_knobs s) (bg_view s)"
    using system_never_aborts [OF _ _ _ _ _ _ demo_steps_ok, where bt = demo_boot and m = "0x10000" and en = demo_proc_env]
    by (fastforce simp: demo_boot_def demo_steps_def split: sum.splits)
  then show ?thesis using demo_never_asserts by (cases "sys_run demo_world demo_steps s0") auto
qed

theorem shutdown_loses_nothing_witness:
  "\<exists>s0 s s'. tbjit_init demo_proc_env demo_boot system_static = Inr s0 \<and> sys_run demo_world demo_steps s0 = Inr s \<and>
     tbjit_fini demo_world s = Inr s' \<and> dq_contents (pr_deopt (sy_proc s')) = []"
proof -
  have b: "bo_mmap demo_boot = Some 0x10000" by (simp add: demo_boot_def)
  obtain s0 where s0: "tbjit_init demo_proc_env demo_boot system_static = Inr s0" "sys_ok {1} 1 s0"
    using tbjit_init_ok [OF b, of "{1}"] by auto
  obtain s where s: "sys_run demo_world demo_steps s0 = Inr s"
    using sys_run_ok [OF s0(2) demo_steps_ok] demo_never_asserts by (auto simp: demo_steps_def)
  have "2 * length demo_steps + 1 < 2 ^ 64" by (simp add: demo_steps_def)
  from shutdown_loses_nothing [OF b _ _ _ _ _ demo_steps_ok this s0(1) s] s0(1) s show ?thesis by auto
qed

end
