(* ===== verification/Bench_Main.thy ===== *)
theory Bench_Main
  imports Bench_Replay System "HOL-Library.Multiset"
begin

text \<open>
  The replay benchmark as a whole (\<open>main\<close> of \<open>src/tools/bound_bench.cpp\<close>): arguments, label,
  set-up, learning pass, replayed passes and the statistics of the printed row.  The clock, the
  resident set and the size of a summary are arguments.
\<close>

section \<open>Arguments\<close>

record bench_args =
  ba_trace :: "string option"
  ba_backend :: Backend
  ba_name :: string
  ba_passes :: int
  ba_label :: string
  ba_tsv_header :: bool
  ba_profile :: bool

definition bench_defaults :: bench_args where
  "bench_defaults =
     \<lparr>ba_trace = None, ba_backend = Bound, ba_name = ''bound'', ba_passes = 12, ba_label = [],
      ba_tsv_header = False, ba_profile = False\<rparr>"

definition atoi :: "string \<Rightarrow> int" where
  "atoi v =
     (let v = dropWhile is_space_char v; neg = (v \<noteq> [] \<and> hd v = CHR ''-'');
          v = (if v \<noteq> [] \<and> (hd v = CHR ''-'' \<or> hd v = CHR ''+'') then tl v else v);
          n = int (digits_value (takeWhile is_digit_char v))
      in if neg then - n else n)"

definition backend_of :: "string \<Rightarrow> Backend option" where
  "backend_of s =
     (if s = ''glibc'' then Some Glibc else if s = ''bound'' then Some Bound
      else if s = ''sim'' then Some Sim else None)"

definition parse_single :: "string \<Rightarrow> bench_args \<Rightarrow> bench_args option" where
  "parse_single x a =
     (if x = ''--tsv-header'' then Some (a\<lparr>ba_tsv_header := True\<rparr>)
      else if x = ''--profile'' then Some (a\<lparr>ba_profile := True\<rparr>)
      else if ba_trace a = None then Some (a\<lparr>ba_trace := Some x\<rparr>)
      else None)"

text \<open>An option that takes a value counts as one only when an argument follows it.\<close>

fun parse_bench :: "string list \<Rightarrow> bench_args \<Rightarrow> bench_args option" where
  "parse_bench [] a = Some a"
| "parse_bench [x] a = parse_single x a"
| "parse_bench (x # y # ys) a =
     (if x = ''--backend''
      then (case backend_of y of None \<Rightarrow> None
            | Some b \<Rightarrow> parse_bench ys (a\<lparr>ba_backend := b, ba_name := y\<rparr>))
      else if x = ''--passes'' then parse_bench ys (a\<lparr>ba_passes := max 1 (atoi y)\<rparr>)
      else if x = ''--label'' then parse_bench ys (a\<lparr>ba_label := y\<rparr>)
      else case parse_single x a of None \<Rightarrow> None | Some a \<Rightarrow> parse_bench (y # ys) a)"

text \<open>Without a label: the file name of the trace, up to its last dot.\<close>

definition bench_label :: "string \<Rightarrow> string \<Rightarrow> string" where
  "bench_label label path =
     (if label \<noteq> [] then label
      else let b = rev (takeWhile (\<lambda>c. c \<noteq> CHR ''/'') (rev path))
           in if CHR ''.'' \<in> set b then rev (tl (dropWhile (\<lambda>c. c \<noteq> CHR ''.'') (rev b))) else b)"

section \<open>Set-up\<close>

definition set_oracle_mode :: "bool \<Rightarrow> knobs \<Rightarrow> knobs" where
  "set_oracle_mode on kn = kn\<lparr>g_oracle_mode := on\<rparr>"

record bench_input =
  bi_file :: "string \<Rightarrow> u8 list option"
  bi_mmap :: "addr option"
  bi_env :: env
  bi_link :: "u32 \<Rightarrow> link_env"
  bi_reap_mode :: "string option"
  bi_summary_size :: nat
  bi_rss_before :: int
  bi_rss_after :: int
  bi_elapsed :: "nat \<Rightarrow> double"

datatype bench_error = Bench_init arena_error | Bench_abort dispatch_error | Bench_routine tramp_error

text \<open>The subsystems the tool initialises, and oracle mode for the backends that compile.\<close>

definition bench_init :: "bench_input \<Rightarrow> Backend \<Rightarrow> system \<Rightarrow> bench_error + system" where
  "bench_init bi be s =
     (let p = sy_proc s
      in case alloc_init (bi_mmap bi) (ts_arena (pr_trace p)) of
           Inl e \<Rightarrow> Inl (Bench_init e)
         | Inr a \<Rightarrow>
             (case dispatch_init a (pr_dispatch p) of
                Inl e \<Rightarrow> Inl (Bench_init e)
              | Inr (a, d) \<Rightarrow>
                  let p = p\<lparr>pr_dispatch := d, pr_trace := (pr_trace p)\<lparr>ts_arena := a\<rparr>\<rparr>;
                      s = s\<lparr>sy_summaries := []\<rparr>
                  in Inr (if be = Glibc then s\<lparr>sy_proc := p\<rparr>
                          else s\<lparr>sy_knobs := set_oracle_mode True (sy_knobs s),
                                 sy_proc := p\<lparr>pr_deopt := set_enabled False (pr_deopt p)\<rparr>\<rparr>)))"

definition bench_learn :: "bench_input \<Rightarrow> Backend \<Rightarrow> AllocEvent list \<Rightarrow> system \<Rightarrow> bench_error + system" where
  "bench_learn bi be evs s =
     (if be = Glibc then Inr s
      else let b = bg_view s
           in case process_events (sy_knobs s) (bi_link bi) (bg_seg b) evs (bg_analysis b) of
                Inl e \<Rightarrow> Inl (Bench_abort e)
              | Inr an \<Rightarrow> Inr (bg_store (b\<lparr>bg_analysis := an\<rparr>) s))"

section \<open>Passes\<close>

text \<open>A replay of the operations, then the leaked chunks are freed.\<close>

definition bench_pass ::
    "Backend \<Rightarrow> env \<Rightarrow> Resolved \<Rightarrow> addr list \<times> process \<Rightarrow> tramp_error + (addr list \<times> process)" where
  "bench_pass be en r s = map_sum id (reclaim_leaked be en (leaked r)) (run_pass be en (ops r) s)"

fun bench_rounds ::
    "Backend \<Rightarrow> env \<Rightarrow> Resolved \<Rightarrow> nat \<Rightarrow> addr list \<times> process \<Rightarrow> tramp_error + (addr list \<times> process)" where
  "bench_rounds be en r 0 s = Inr s"
| "bench_rounds be en r (Suc k) s = (case bench_pass be en r s of Inl e \<Rightarrow> Inl e | Inr s \<Rightarrow> bench_rounds be en r k s)"

definition bench_reap :: "Backend \<Rightarrow> env \<Rightarrow> ReapMode \<Rightarrow> CallSiteSummary list \<Rightarrow> addr list \<times> process \<Rightarrow> addr list \<times> process" where
  "bench_reap be en mode ss = (\<lambda>(live, st).
     (live, if be = Glibc then st
            else let g = snd (reaper_sweep (en_os en) mode (Some (bench_reap_pred ss)) (sg (pr_jit st)))
                 in st\<lparr>pr_jit := (pr_jit st)\<lparr>sg := g\<rparr>\<rparr>))"

text \<open>
  The footprint pass with one sweep before its leaks are freed, three passes to warm up, the timed
  passes, and a profiled one, which replays the operations as the others do.
\<close>

definition bench_passes ::
    "Backend \<Rightarrow> env \<Rightarrow> ReapMode \<Rightarrow> CallSiteSummary list \<Rightarrow> Resolved \<Rightarrow> nat \<Rightarrow> bool \<Rightarrow>
      addr list \<times> process \<Rightarrow> tramp_error + (addr list \<times> process)" where
  "bench_passes be en mode ss r passes profile s =
     (case run_pass be en (ops r) s of
        Inl e \<Rightarrow> Inl e
      | Inr s \<Rightarrow>
          let s = reclaim_leaked be en (leaked r) (bench_reap be en mode ss s)
          in bench_rounds be en r (3 + passes + (if profile then 1 else 0)) s)"

section \<open>The row\<close>

definition median :: "double list \<Rightarrow> double" where
  "median xs =
     (let n = length xs
      in if n mod 2 = 1 then xs ! (n div 2) else fmul (1 / 2) (fadd (xs ! (n div 2 - 1)) (xs ! (n div 2))))"

definition mean :: "double list \<Rightarrow> double" where
  "mean xs = fdiv (fold (\<lambda>x m. fadd m x) xs 0) (d_of_nat (length xs))"

text \<open>The square of a difference does not depend on its sign.\<close>

definition square_dev :: "double \<Rightarrow> double \<Rightarrow> double" where
  "square_dev m x = (let d = fsub (max x m) (min x m) in fmul d d)"

definition variance :: "double list \<Rightarrow> double" where
  "variance xs =
     (let n = length xs; v = fold (\<lambda>x v. fadd v (square_dev (mean xs) x)) xs 0
      in if 1 < n then fdiv v (d_of_nat (n - 1)) else 0)"

definition ci95 :: "double list \<Rightarrow> double" where
  "ci95 xs = fdiv (fmul (rnd (196 / 100)) (fsqrt (variance xs))) (fsqrt (d_of_nat (length xs)))"

record bench_row =
  br_backend :: string
  br_label :: string
  br_p50 :: double
  br_ci95 :: double
  br_rss_kb :: int
  br_matched :: double

definition matched_frac :: "Resolved \<Rightarrow> double" where
  "matched_frac r =
     (if total_frees_seen r \<noteq> 0 then fdiv (d_of_nat (unat (matched_frees r))) (d_of_nat (unat (total_frees_seen r)))
      else 1)"

definition footprint_kb :: "bench_input \<Rightarrow> Backend \<Rightarrow> CallSiteSummary list \<Rightarrow> int" where
  "footprint_kb bi be ss =
     max 0 (bi_rss_after bi - bi_rss_before bi) +
     (if be = Glibc then 0 else int (length ss * bi_summary_size bi div 1024))"

datatype bench_result =
    Bench_usage
  | Bench_no_trace
  | Bench_failed bench_error
  | Bench_row bool bench_row

definition bound_bench :: "bench_input \<Rightarrow> string list \<Rightarrow> system \<Rightarrow> bench_result \<times> system" where
  "bound_bench bi argv s =
     (case parse_bench argv bench_defaults of
        None \<Rightarrow> (Bench_usage, s)
      | Some a \<Rightarrow>
          (case ba_trace a of
             None \<Rightarrow> (Bench_usage, s)
           | Some path \<Rightarrow>
               (case read_trace (bi_file bi path) of
                  None \<Rightarrow> (Bench_no_trace, s)
                | Some evs \<Rightarrow>
                    let r = resolve evs; be = ba_backend a;
                        row = \<lparr>br_backend = ba_name a, br_label = bench_label (ba_label a) path, br_p50 = 0,
                               br_ci95 = 0, br_rss_kb = 0, br_matched = matched_frac r\<rparr>
                    in if n_allocs r = 0 then (Bench_row (ba_tsv_header a) row, s)
                       else case bench_init bi be s of
                              Inl e \<Rightarrow> (Bench_failed e, s)
                            | Inr s \<Rightarrow>
                                (case bench_learn bi be evs s of
                                   Inl e \<Rightarrow> (Bench_failed e, s)
                                 | Inr s \<Rightarrow>
                                     let en = (bi_env bi)\<lparr>en_os := (en_os (bi_env bi))\<lparr>os_thp_pred := Some (thp_wants_huge (sy_summaries s))\<rparr>\<rparr>;
                                         r = (if be = Bound then r\<lparr>ops := resolve_fns (pr_dispatch (sy_proc s)) (ops r)\<rparr> else r);
                                         n = nat (ba_passes a);
                                         xs = sort (map (\<lambda>i. fdiv (bi_elapsed bi i) (d_of_nat (unat (n_allocs r)))) [0..<n])
                                     in case bench_passes be en (reap_mode (bi_reap_mode bi)) (sy_summaries s) r n
                                               (ba_profile a) (replicate (unat (n_allocs r)) 0, sy_proc s) of
                                          Inl e \<Rightarrow> (Bench_failed (Bench_routine e), s)
                                        | Inr (live, p) \<Rightarrow>
                                            (Bench_row (ba_tsv_header a)
                                               (row\<lparr>br_p50 := median xs, br_ci95 := ci95 xs,
                                                    br_rss_kb := footprint_kb bi be (sy_summaries s)\<rparr>),
                                             s\<lparr>sy_proc := p\<rparr>)))))"

section \<open>The heap of libc\<close>

text \<open>
  The chunks of libc in the program's hands after a sequence of calls, the last call first; \<open>None\<close>
  once a chunk was freed that libc had not given out.
\<close>

fun heap_after :: "env \<Rightarrow> ext_call list \<Rightarrow> addr multiset option" where
  "heap_after en [] = Some {#}"
| "heap_after en (c # cs) =
     (case heap_after en cs of
        None \<Rightarrow> None
      | Some H \<Rightarrow>
          (case c of
             Libc_malloc n \<Rightarrow> (let p = en_malloc en (rev cs) n in Some (if p = 0 then H else add_mset p H))
           | Libc_free p \<Rightarrow> if p = 0 then Some H else if p \<in># H then Some (H - {#p#}) else None
           | Libc_realloc p n \<Rightarrow>
               (let q = en_realloc en (rev cs) p n
                in if q = 0 then Some H else if p = 0 then Some (add_mset q H)
                   else if p \<in># H then Some (add_mset q (H - {#p#})) else None)
           | Memcpy d s n \<Rightarrow> Some H))"

definition libc_heap :: "env \<Rightarrow> process \<Rightarrow> addr multiset option" where
  "libc_heap en st = heap_after en (rev (calls st))"

text \<open>The chunks of the slots in \<open>A\<close>.\<close>

definition held :: "addr list \<Rightarrow> u32 set \<Rightarrow> addr multiset" where
  "held live A = filter_mset (\<lambda>p. p \<noteq> 0) (image_mset (\<lambda>s. live ! unat s) (mset_set A))"

lemma held_insert: "finite A \<Longrightarrow> s \<notin> A \<Longrightarrow>
   held live (insert s A) = (if live ! unat s = 0 then held live A else add_mset (live ! unat s) (held live A))"
  by (simp add: held_def)

lemma held_update:
  assumes "finite A" and "s \<notin> A"
  shows "held (live[unat s := p]) A = held live A"
proof -
  have "image_mset (\<lambda>t. live[unat s := p] ! unat t) (mset_set A) = image_mset (\<lambda>t. live ! unat t) (mset_set A)"
  proof (rule image_mset_cong)
    fix t assume "t \<in># mset_set A"
    then have "unat s \<noteq> unat t" using assms by (metis finite_set_mset_mset_set word_unat_eq_iff)
    then show "live[unat s := p] ! unat t = live ! unat t" by simp
  qed
  then show ?thesis by (simp add: held_def)
qed

lemma held_remove: "finite A \<Longrightarrow> s \<in> A \<Longrightarrow>
   held live A = (if live ! unat s = 0 then held live (A - {s}) else add_mset (live ! unat s) (held live (A - {s})))"
  using held_insert [of "A - {s}" s live] by (simp add: insert_absorb)

definition pass_inv :: "env \<Rightarrow> nat \<Rightarrow> addr multiset \<Rightarrow> u32 set \<Rightarrow> addr list \<times> process \<Rightarrow> bool" where
  "pass_inv en n H A s \<longleftrightarrow>
     finite A \<and> length (fst s) = n \<and> (\<forall>x \<in> A. unat x < n) \<and> libc_heap en (snd s) = Some (H + held (fst s) A)"

text \<open>With the libc backend no routine runs, and an operation always returns.\<close>

definition glibc_op :: "env \<Rightarrow> Op \<Rightarrow> addr list \<times> process \<Rightarrow> addr list \<times> process" where
  "glibc_op en op = (\<lambda>(live, st).
     (case op_kind op of
        AllocOp \<Rightarrow> (let (p, st) = glibc_alloc en (op_size op) st in (live[unat (op_slot op) := p], st))
      | FreeOp \<Rightarrow> (live, libc_free (live ! unat (op_slot op)) st)))"

lemma run_op_glibc: "run_op Glibc en op s = Inr (glibc_op en op s)"
  by (cases s; cases "op_kind op") (simp_all add: run_op_def glibc_op_def split: prod.split)

lemma run_pass_glibc: "run_pass Glibc en xs s = Inr (fold (glibc_op en) xs s)"
  by (induction xs arbitrary: s) (simp_all add: run_op_glibc)

lemma glibc_alloc_step:
  assumes "pass_inv en n H A s" and "op_kind op = AllocOp" and "op_slot op \<notin> A" and "unat (op_slot op) < n"
  shows "pass_inv en n H (insert (op_slot op) A) (glibc_op en op s)"
  using assms
  by (cases s) (auto simp: pass_inv_def glibc_op_def glibc_alloc_def libc_malloc_def libc_heap_def held_insert held_update
      split_beta)

lemma glibc_free_step:
  assumes "pass_inv en n H A s" and "op_kind op = FreeOp" and "op_slot op \<in> A"
  shows "pass_inv en n H (A - {op_slot op}) (glibc_op en op s)"
  using assms held_remove [of A "op_slot op" "fst s"]
  by (cases s) (auto simp: pass_inv_def glibc_op_def libc_free_def libc_heap_def)

lemma glibc_reclaim_step:
  assumes "pass_inv en n H A s" and "x \<in> A"
  shows "pass_inv en n H (A - {x}) (reclaim_slot Glibc en x s)"
  using assms held_remove [of A x "fst s"]
  by (cases s) (auto simp: pass_inv_def reclaim_slot_def libc_free_def libc_heap_def held_update)

lemma ordered_snocD:
  assumes "ordered (xs @ [op])"
  shows "ordered xs" and "op_kind op = FreeOp \<Longrightarrow> op_slot op \<in> set (slots_of AllocOp xs)"
proof -
  have *: "op_slot ((xs @ [op]) ! i) \<in> set (slots_of AllocOp (take i (xs @ [op])))"
    if "i < Suc (length xs)" "op_kind ((xs @ [op]) ! i) = FreeOp" for i
    using assms that by (auto simp: ordered_def)
  then show "ordered xs" unfolding ordered_def by (metis append_same_eq less_SucI nth_append take_append
        append_Nil2 diff_is_0_eq' less_imp_le take_0)
  show "op_kind op = FreeOp \<Longrightarrow> op_slot op \<in> set (slots_of AllocOp xs)" using * [of "length xs"] by simp
qed

lemma ordered_frees:
  assumes "ordered xs"
  shows "set (slots_of FreeOp xs) \<subseteq> set (slots_of AllocOp xs)"
proof
  fix x assume "x \<in> set (slots_of FreeOp xs)"
  then obtain i where i: "i < length xs" "op_kind (xs ! i) = FreeOp" "x = op_slot (xs ! i)"
    by (auto simp: slots_of_def in_set_conv_nth)
  then have "x \<in> set (slots_of AllocOp (take i xs))" using assms by (simp add: ordered_def)
  then show "x \<in> set (slots_of AllocOp xs)" by (auto simp: slots_of_def dest: in_set_takeD)
qed

lemma glibc_run_pass:
  assumes "pass_inv en n H {} s" and "ordered xs" and "distinct (slots_of AllocOp xs)"
    and "distinct (slots_of FreeOp xs)" and "\<forall>x \<in> set (slots_of AllocOp xs). unat x < n"
  shows "pass_inv en n H (set (slots_of AllocOp xs) - set (slots_of FreeOp xs)) (fold (glibc_op en) xs s)"
  using assms(2-)
proof (induction xs rule: rev_induct)
  case Nil
  then show ?case using assms(1) by simp
next
  case (snoc op xs)
  let ?A = "set (slots_of AllocOp xs) - set (slots_of FreeOp xs)" and ?s = "fold (glibc_op en) xs s"
  note o = ordered_snocD [OF snoc.prems(1)]
  have ih: "pass_inv en n H ?A ?s" by (rule snoc.IH [OF o(1)]) (use snoc.prems in auto)
  have r: "fold (glibc_op en) (xs @ [op]) s = glibc_op en op ?s" by simp
  have freed: "set (slots_of FreeOp xs) \<subseteq> set (slots_of AllocOp xs)"
    by (rule ordered_frees [OF o(1)])
  show ?case
  proof (cases "op_kind op")
    case AllocOp
    then have new: "op_slot op \<notin> set (slots_of AllocOp xs)" "unat (op_slot op) < n" using snoc.prems(2,4) by auto
    then have "pass_inv en n H (insert (op_slot op) ?A) (glibc_op en op ?s)"
      using glibc_alloc_step [OF ih AllocOp] by simp
    moreover have "insert (op_slot op) ?A =
        set (slots_of AllocOp (xs @ [op])) - set (slots_of FreeOp (xs @ [op]))"
      using AllocOp new(1) freed by auto
    ultimately show ?thesis unfolding r by simp
  next
    case FreeOp
    then have "op_slot op \<in> ?A" using o(2) snoc.prems(3) by auto
    from glibc_free_step [OF ih FreeOp this]
    have "pass_inv en n H (?A - {op_slot op}) (glibc_op en op ?s)" .
    moreover have "?A - {op_slot op} = set (slots_of AllocOp (xs @ [op])) - set (slots_of FreeOp (xs @ [op]))"
      using FreeOp by auto
    ultimately show ?thesis unfolding r by simp
  qed
qed

lemma glibc_reclaim:
  "pass_inv en n H A s \<Longrightarrow> distinct ls \<Longrightarrow> set ls \<subseteq> A \<Longrightarrow> pass_inv en n H (A - set ls) (reclaim_leaked Glibc en ls s)"
proof (induction ls arbitrary: A s)
  case (Cons x ls)
  have "pass_inv en n H (A - {x}) (reclaim_slot Glibc en x s)"
    using Cons.prems by (intro glibc_reclaim_step) simp_all
  then have "pass_inv en n H (A - {x} - set ls) (reclaim_leaked Glibc en ls (reclaim_slot Glibc en x s))"
    by (rule Cons.IH) (use Cons.prems in auto)
  moreover have "A - {x} - set ls = A - set (x # ls)" by auto
  ultimately show ?case by (simp add: reclaim_leaked_def)
qed (simp add: reclaim_leaked_def)


lemma glibc_bench_pass:
  assumes "length evs < 2 ^ 32" and "r = resolve evs" and "pass_inv en (unat (n_allocs r)) H {} s"
  shows "\<exists>s'. bench_pass Glibc en r s = Inr s' \<and> pass_inv en (unat (n_allocs r)) H {} s'"
proof -
  let ?n = "unat (n_allocs r)" and ?A = "set (slots_of AllocOp (ops r)) - set (slots_of FreeOp (ops r))"
  have r: "slots_of AllocOp (ops r) = map of_nat [0..<?n]" "ordered (ops r)"
    "distinct (slots_of FreeOp (ops r) @ leaked r)"
    "set (slots_of FreeOp (ops r) @ leaked r) = set (slots_of AllocOp (ops r))"
    using bench_slots_freed_once [OF assms(1,2)] by blast+
  have u: "unat (of_nat i :: u32) = i" if "i < ?n" for i
    using that unat_u32_less [of "n_allocs r"] by (simp add: unat_of_nat)
  have "inj_on (of_nat :: nat \<Rightarrow> u32) {0..<?n}" by (rule inj_onI) (metis u atLeastLessThan_iff)
  then have d: "distinct (slots_of AllocOp (ops r))" unfolding r(1) by (simp add: distinct_map)
  have lt: "\<forall>x \<in> set (slots_of AllocOp (ops r)). unat x < ?n" unfolding r(1) using u by auto
  have "pass_inv en ?n H ?A (fold (glibc_op en) (ops r) s)"
    using r(3) by (intro glibc_run_pass [OF assms(3) r(2) d _ lt]) simp
  moreover have leak: "set (leaked r) = ?A" "distinct (leaked r)" using r(3,4) by auto
  ultimately have "pass_inv en ?n H (?A - set (leaked r)) (reclaim_leaked Glibc en (leaked r) (fold (glibc_op en) (ops r) s))"
    by (intro glibc_reclaim) simp_all
  then show ?thesis unfolding leak by (simp add: bench_pass_def run_pass_glibc)
qed

text \<open>
  C31: With the libc backend the benchmark runs through and balances the heap: over the footprint pass, the warm-up,
  the timed passes and the profiled one it frees every chunk it got from libc exactly once, it
  never frees a chunk libc has not given out, and it leaves no chunk behind, whatever libc
  answers, null included.
\<close>

theorem bench_balances_heap:
  assumes "length evs < 2 ^ 32" and "r = resolve evs" and "libc_heap en st = Some H"
  shows "\<exists>live st'. bench_passes Glibc en mode ss r passes profile (replicate (unat (n_allocs r)) 0, st) = Inr (live, st') \<and>
    libc_heap en st' = Some H"
proof -
  let ?s = "(replicate (unat (n_allocs r)) 0, st)" and ?n = "unat (n_allocs r)"
  have inv: "pass_inv en ?n H {} ?s" using assms(3) by (simp add: pass_inv_def held_def)
  have rounds: "pass_inv en ?n H {} s \<Longrightarrow> \<exists>s'. bench_rounds Glibc en r k s = Inr s' \<and> pass_inv en ?n H {} s'" for k s
  proof (induction k arbitrary: s)
    case (Suc k)
    obtain s1 where "bench_pass Glibc en r s = Inr s1" "pass_inv en ?n H {} s1"
      using glibc_bench_pass [OF assms(1,2) Suc.prems] by blast
    then show ?case using Suc.IH by simp
  qed simp
  obtain s1 where s1: "bench_pass Glibc en r ?s = Inr s1" "pass_inv en ?n H {} s1"
    using glibc_bench_pass [OF assms(1,2) inv] by blast
  have "bench_reap Glibc en mode ss s = s" for s by (cases s) (simp add: bench_reap_def)
  then have "bench_passes Glibc en mode ss r passes profile ?s =
      bench_rounds Glibc en r (3 + passes + (if profile then 1 else 0)) s1"
    using s1(1) by (simp add: bench_passes_def bench_pass_def run_pass_glibc Let_def)
  moreover obtain live st' where "bench_rounds Glibc en r (3 + passes + (if profile then 1 else 0)) s1 = Inr (live, st')"
    "pass_inv en ?n H {} (live, st')" using rounds [OF s1(2)] by (metis prod.exhaust)
  ultimately show ?thesis by (auto simp: pass_inv_def held_def)
qed

theorem bench_balances_heap_witness:
  "\<exists>live st'. bench_passes Glibc demo_proc_env Eager [] (resolve demo_trace) 12 True (replicate 3 0, process_static) =
     Inr (live, st') \<and> libc_heap demo_proc_env st' = Some {#}"
proof -
  have n: "unat (n_allocs (resolve demo_trace)) = 3"
    by (simp add: resolve_def resolve_event_def resolver_start_def demo_trace_def demo_alloc_def Let_def)
  have "libc_heap demo_proc_env process_static = Some {#}" by (simp add: libc_heap_def process_static_def)
  moreover have "length demo_trace < 2 ^ 32" by (simp add: demo_trace_def)
  ultimately show ?thesis using bench_balances_heap [OF _ refl] n by metis
qed

end
