(* ===== verification/Scan.thy ===== *)
theory Scan
  imports Prelude
begin

text \<open>
  What the sources use of \<open>fscanf\<close> and \<open>sscanf\<close>: one \<open>%ld\<close> conversion, with the blanks before it.
  The value is unbounded; the kernel's files keep within \<open>long\<close>.
\<close>

definition is_space :: "char \<Rightarrow> bool" where
  "is_space c \<longleftrightarrow> c \<in> {CHR '' '', CHR 0x09, CHR 0x0A, CHR 0x0B, CHR 0x0C, CHR 0x0D}"

definition is_digit :: "char \<Rightarrow> bool" where
  "is_digit c \<longleftrightarrow> c \<in> set ''0123456789''"

definition digits_value :: "string \<Rightarrow> int" where
  "digits_value ds = foldl (\<lambda>n c. 10 * n + (of_char c - 48)) 0 ds"

text \<open>Blanks, a sign, digits: the value and what follows; without digits the conversion fails.\<close>

definition scan_long :: "string \<Rightarrow> (int \<times> string) option" where
  "scan_long xs =
     (let xs = dropWhile is_space xs;
          neg = (xs \<noteq> [] \<and> hd xs = CHR ''-'');
          ys = (if xs \<noteq> [] \<and> hd xs \<in> {CHR ''-'', CHR ''+''} then tl xs else xs);
          ds = takeWhile is_digit ys
      in if ds = [] then None
         else Some (if neg then - digits_value ds else digits_value ds, dropWhile is_digit ys))"

lemma scan_long_example: "scan_long '' -12 kB'' = Some (-12, '' kB'')"
  by (simp add: scan_long_def is_space_def is_digit_def digits_value_def of_char_def)

end
