(* ===== verification/Bench_Profile.thy ===== *)
theory Bench_Profile
  imports Bench_Main Scan
begin

text \<open>
  The profiled pass of the replay benchmark (\<open>profile_pass\<close> of \<open>src/tools/bound_bench.cpp\<close>) and the
  readings the benchmark takes of the process: the resident set and the clock.  The time stamp
  counter and the texts of the kernel's files are arguments.
\<close>

section \<open>Readings\<close>

definition current_rss_kb :: "string option \<Rightarrow> int \<Rightarrow> int" where
  "current_rss_kb statm pagesize =
     (case statm of
        None \<Rightarrow> 0
      | Some text \<Rightarrow>
          (case scan_long text of
             None \<Rightarrow> 0
           | Some (pages, rest) \<Rightarrow>
               (case scan_long rest of None \<Rightarrow> 0 | Some (rss, rest) \<Rightarrow> rss * (pagesize div 1024))))"

definition now_ns :: "int \<Rightarrow> int \<Rightarrow> double" where
  "now_ns sec nsec = rnd (fmul (rnd (of_int sec)) 1000000000 + rnd (of_int nsec))"

section \<open>The profiled pass\<close>

record cycle_profile =
  a_cyc :: u64
  f_cyc :: u64
  a_n :: u64
  f_n :: u64
  jit_n :: u64
  tsc_reads :: nat

definition profile_start :: cycle_profile where
  "profile_start = \<lparr>a_cyc = 0, f_cyc = 0, a_n = 0, f_n = 0, jit_n = 0, tsc_reads = 0\<rparr>"

text \<open>\<open>tsc k\<close> is what the \<open>k\<close>-th \<open>rdtscp\<close> answers.\<close>

definition profile_op ::
    "Backend \<Rightarrow> env \<Rightarrow> (nat \<Rightarrow> u64) \<Rightarrow> Op \<Rightarrow> cycle_profile \<times> addr list \<times> process \<Rightarrow>
      tramp_error + (cycle_profile \<times> addr list \<times> process)" where
  "profile_op be en tsc op = (\<lambda>(c, live, st).
     let t0 = tsc (tsc_reads c); t1 = tsc (tsc_reads c + 1); c = c\<lparr>tsc_reads := tsc_reads c + 2\<rparr>
     in if op_kind op = AllocOp
        then (case (case be of
                      Glibc \<Rightarrow> Inr (glibc_alloc en (op_size op) st)
                    | Bound \<Rightarrow> if op_fn op \<noteq> 0 then call_routine en (op_fn op) (op_size op) st
                               else Inr (libc_malloc en (ucast (op_size op)) st)
                    | Sim \<Rightarrow> sim_alloc en (op_id op) (op_size op) st) of
                Inl e \<Rightarrow> Inl e
              | Inr (p, st) \<Rightarrow>
                  let c = c\<lparr>a_cyc := a_cyc c + (t1 - t0), a_n := a_n c + 1\<rparr>
                  in Inr (if op_fn op \<noteq> 0 then c\<lparr>jit_n := jit_n c + 1\<rparr> else c, live[unat (op_slot op) := p], st))
        else let p = live ! unat (op_slot op);
                 st = (if be = Glibc then libc_free p st else managed_aware_free en p st)
             in Inr (c\<lparr>f_cyc := f_cyc c + (t1 - t0), f_n := f_n c + 1\<rparr>, live, st))"

fun profile_ops ::
    "Backend \<Rightarrow> env \<Rightarrow> (nat \<Rightarrow> u64) \<Rightarrow> Op list \<Rightarrow> cycle_profile \<times> addr list \<times> process \<Rightarrow>
      tramp_error + (cycle_profile \<times> addr list \<times> process)" where
  "profile_ops be en tsc [] s = Inr s"
| "profile_ops be en tsc (op # xs) s = (case profile_op be en tsc op s of Inl e \<Rightarrow> Inl e | Inr s \<Rightarrow> profile_ops be en tsc xs s)"

definition profile_pass ::
    "Backend \<Rightarrow> env \<Rightarrow> (nat \<Rightarrow> u64) \<Rightarrow> Op list \<Rightarrow> addr list \<times> process \<Rightarrow>
      tramp_error + (cycle_profile \<times> addr list \<times> process)" where
  "profile_pass be en tsc xs s = profile_ops be en tsc xs (profile_start, s)"

record profile_line =
  pl_backend :: string
  pl_label :: string
  pl_alloc :: double
  pl_free :: double
  pl_segments :: nat
  pl_jit_served :: double

definition per_op :: "u64 \<Rightarrow> u64 \<Rightarrow> double" where
  "per_op x n = (if n \<noteq> 0 then fdiv (d_of_nat (unat x)) (d_of_nat (unat n)) else 0)"

definition profile_report :: "string \<Rightarrow> string \<Rightarrow> cycle_profile \<Rightarrow> process \<Rightarrow> profile_line" where
  "profile_report backend_name label c st =
     \<lparr>pl_backend = backend_name, pl_label = label, pl_alloc = per_op (a_cyc c) (a_n c),
      pl_free = per_op (f_cyc c) (f_n c), pl_segments = segment_count (sg (pr_jit st)),
      pl_jit_served = per_op (jit_n c) (a_n c)\<rparr>"

section \<open>What it measures\<close>

text \<open>One operation: the clock is read twice, the counters of its kind move, the rest is \<open>run_op\<close>.\<close>

definition counted :: "(nat \<Rightarrow> u64) \<Rightarrow> Op \<Rightarrow> cycle_profile \<Rightarrow> cycle_profile" where
  "counted tsc op c =
     (let d = tsc (Suc (tsc_reads c)) - tsc (tsc_reads c); c = c\<lparr>tsc_reads := tsc_reads c + 2\<rparr>
      in if op_kind op = AllocOp
         then c\<lparr>a_cyc := a_cyc c + d, a_n := a_n c + 1, jit_n := jit_n c + (if op_fn op \<noteq> 0 then 1 else 0)\<rparr>
         else c\<lparr>f_cyc := f_cyc c + d, f_n := f_n c + 1\<rparr>)"

lemma profile_op_replays:
  "profile_op be en tsc op (c, s) = map_sum id (Pair (counted tsc op c)) (run_op be en op s)"
  by (cases s; cases be; cases "op_kind op")
    (auto simp: profile_op_def run_op_def call_routine_def counted_def Let_def split: sum.split prod.split)

text \<open>
  The profiled pass stops where the replay stops; when the replay returns, so does it, with the same
  heap and with counters that add up.
\<close>

definition profiled ::
    "(nat \<Rightarrow> u64) \<Rightarrow> Op list \<Rightarrow> cycle_profile \<Rightarrow> cycle_profile \<Rightarrow> bool" where
  "profiled tsc xs c c' \<longleftrightarrow>
     a_n c' = a_n c + of_nat (length (slots_of AllocOp xs)) \<and>
     f_n c' = f_n c + of_nat (length (slots_of FreeOp xs)) \<and>
     jit_n c' = jit_n c + of_nat (length (filter (\<lambda>op. op_kind op = AllocOp \<and> op_fn op \<noteq> 0) xs)) \<and>
     tsc_reads c' = tsc_reads c + 2 * length xs \<and>
     a_cyc c' + f_cyc c' = a_cyc c + f_cyc c +
       (\<Sum>i < length xs. tsc (Suc (tsc_reads c + 2 * i)) - tsc (tsc_reads c + 2 * i))"

lemma profiled_Cons:
  assumes "profiled tsc xs (counted tsc op c) c'"
  shows "profiled tsc (op # xs) c c'"
proof -
  let ?c = "counted tsc op c"
  note c' = assms [unfolded profiled_def]
  have t: "tsc_reads ?c = tsc_reads c + 2"
    and cy: "a_cyc ?c + f_cyc ?c = a_cyc c + f_cyc c + (tsc (Suc (tsc_reads c)) - tsc (tsc_reads c))"
    and an: "a_n ?c = a_n c + (if op_kind op = AllocOp then 1 else 0)"
    and fn: "f_n ?c = f_n c + (if op_kind op = FreeOp then 1 else 0)"
    and jn: "jit_n ?c = jit_n c + (if op_kind op = AllocOp \<and> op_fn op \<noteq> 0 then 1 else 0)"
    by (cases "op_kind op"; simp add: counted_def Let_def)+
  define d where "d = (\<lambda>i. tsc (Suc (tsc_reads c + 2 * i)) - tsc (tsc_reads c + 2 * i))"
  have s1: "(\<Sum>i < length xs. tsc (Suc (tsc_reads ?c + 2 * i)) - tsc (tsc_reads ?c + 2 * i)) = (\<Sum>i < length xs. d (Suc i))"
    by (simp add: t d_def)
  have s2: "tsc (Suc (tsc_reads c)) - tsc (tsc_reads c) = d 0" by (simp add: d_def)
  have "a_cyc c' + f_cyc c' = a_cyc c + f_cyc c + d 0 + (\<Sum>i < length xs. d (Suc i))" unfolding c'[THEN conjunct2, THEN conjunct2, THEN conjunct2, THEN conjunct2] cy s1 s2 ..
  also have "\<dots> = a_cyc c + f_cyc c + (\<Sum>i < length (op # xs). d i)"
    by (simp only: list.size(4) One_nat_def add_Suc_right add_0_right sum.lessThan_Suc_shift add.assoc)
  finally have "a_cyc c' + f_cyc c' = a_cyc c + f_cyc c + (\<Sum>i < length (op # xs). d i)" .
  then have cycles: "a_cyc c' + f_cyc c' = a_cyc c + f_cyc c +
      (\<Sum>i < length (op # xs). tsc (Suc (tsc_reads c + 2 * i)) - tsc (tsc_reads c + 2 * i))" unfolding d_def .
  show ?thesis unfolding profiled_def
    by (intro conjI cycles) (use c' t an fn jn in \<open>simp_all add: add.assoc\<close>)
qed

lemma profile_ops_replays:
  "case run_pass be en xs s of
     Inl e \<Rightarrow> profile_ops be en tsc xs (c, s) = Inl e
   | Inr s' \<Rightarrow> \<exists>c'. profile_ops be en tsc xs (c, s) = Inr (c', s') \<and> profiled tsc xs c c'"
proof (induction xs arbitrary: c s)
  case Nil
  then show ?case by (simp add: profiled_def)
next
  case (Cons op xs)
  show ?case
  proof (cases "run_op be en op s")
    case (Inl e)
    then show ?thesis by (simp add: profile_op_replays)
  next
    case (Inr s1)
    then show ?thesis using Cons.IH [of "counted tsc op c" s1] profiled_Cons
      by (auto simp: profile_op_replays split: sum.splits)
  qed
qed

text \<open>
  The profiled pass does to the heap what a timed pass does, so it is one more replay, and stops
  where that stops; its counters are the operations of each kind, and the cycles of both kinds add
  up to the time between each pair of readings.
\<close>

theorem profile_pass_replays:
  "case run_pass be en xs s of
     Inl e \<Rightarrow> profile_pass be en tsc xs s = Inl e
   | Inr s' \<Rightarrow> \<exists>c. profile_pass be en tsc xs s = Inr (c, s') \<and>
       a_n c = of_nat (length (slots_of AllocOp xs)) \<and> f_n c = of_nat (length (slots_of FreeOp xs)) \<and>
       jit_n c = of_nat (length (filter (\<lambda>op. op_kind op = AllocOp \<and> op_fn op \<noteq> 0) xs)) \<and>
       a_cyc c + f_cyc c = (\<Sum>i < length xs. tsc (2 * i + 1) - tsc (2 * i))"
  using profile_ops_replays [where be = be and en = en and xs = xs and s = s and c = profile_start and tsc = tsc]
  by (auto simp: profile_pass_def profile_start_def profiled_def split: sum.split)

end
