(* ===== verification/Chunk_Safety.thy ===== *)
theory Chunk_Safety
  imports Emitter Slow_Init
begin

text \<open>
  The chunks of a free-list slot, or of one class of a multi-size slot, over its whole life: the
  owning thread allocates (the fast path of the emitted routine, or the refill), any thread frees,
  the reaper sweeps, and other slots work on their own segments.  The steps keep a ghost set of the chunks the program holds.
\<close>

section \<open>Geometry of chunks\<close>

definition chunks_of :: "u32 \<Rightarrow> addr \<Rightarrow> addr set" where
  "chunks_of sz s = set (chunk_list (payload_start s) (ucast sz) (0x1FFFC0 div unat sz))"

definition size_ok :: "u32 \<Rightarrow> bool" where
  "size_ok sz \<longleftrightarrow> 8 \<le> sz \<and> unat sz \<le> 0x1FFFC0"

lemma size_okD: "size_ok sz \<Longrightarrow> sz \<noteq> 0 \<and> 8 \<le> unat sz \<and> unat sz \<le> 0x1FFFC0"
  by (auto simp: size_ok_def word_le_nat_alt)

lemma unat_chunks:
  fixes sz :: u32
  assumes "seg_ok s"
  shows "map unat (chunk_list (payload_start s) (ucast sz) (0x1FFFC0 div unat sz)) =
    map (\<lambda>k. unat s + 64 + k * unat sz) [0..<0x1FFFC0 div unat sz]"
proof -
  let ?n = "0x1FFFC0 div unat sz"
  have u: "unat (ucast sz :: u64) = unat sz" by (simp add: unat_ucast_up)
  have "?n * unat sz \<le> 0x1FFFC0" by (rule div_times_less_eq_dividend)
  moreover have "unat s < 281474976710656" using assms by (simp add: seg_ok_def)
  ultimately have "unat s + 64 + ?n * unat sz < 18446744073709551616" by linarith
  then have "unat (payload_start s) + ?n * unat (ucast sz :: u64) < 2 ^ 64"
    by (simp only: u unat_payload(1) [OF assms]) simp
  from map_unat_chunk_list [OF this] show ?thesis by (simp add: u unat_payload(1) [OF assms])
qed

lemma chunk_position:
  assumes "seg_ok s" and "c \<in> chunks_of sz s"
  obtains k where "k < 0x1FFFC0 div unat sz" and "unat c = unat s + 64 + k * unat sz"
proof -
  have "unat c \<in> set (map unat (chunk_list (payload_start s) (ucast sz) (0x1FFFC0 div unat sz)))"
    using assms(2) by (simp add: chunks_of_def)
  then show ?thesis using that unfolding unat_chunks [OF assms(1)] by auto
qed

lemma chunks_distinct:
  assumes "seg_ok s" and "size_ok sz"
  shows "distinct (chunk_list (payload_start s) (ucast sz) (0x1FFFC0 div unat sz))"
    and "card (chunks_of sz s) = 0x1FFFC0 div unat sz"
proof -
  have "distinct (map (\<lambda>k. unat s + 64 + k * unat sz) [0..<0x1FFFC0 div unat sz])"
    using size_okD [OF assms(2)] by (auto simp: distinct_map inj_on_def)
  then show d: "distinct (chunk_list (payload_start s) (ucast sz) (0x1FFFC0 div unat sz))"
    unfolding unat_chunks [OF assms(1), symmetric] by (simp add: distinct_map)
  have "length (chunk_list (payload_start s) (ucast sz) (0x1FFFC0 div unat sz)) = 0x1FFFC0 div unat sz"
    by (simp add: chunk_list_def)
  then show "card (chunks_of sz s) = 0x1FFFC0 div unat sz"
    unfolding chunks_of_def distinct_card [OF d] .
qed

lemma chunk_bounds:
  assumes "seg_ok s" and "c \<in> chunks_of sz s"
  shows "unat s + 64 \<le> unat c" and "unat c + unat sz \<le> unat s + 0x200000" and "c \<noteq> 0"
    and "0 < unat sz \<Longrightarrow> seg_of c = s"
proof -
  obtain k where k: "k < 0x1FFFC0 div unat sz" "unat c = unat s + 64 + k * unat sz"
    using chunk_position [OF assms] .
  have "Suc k * unat sz \<le> 0x1FFFC0 div unat sz * unat sz" using k(1) by (intro mult_le_mono1) simp
  also have "\<dots> \<le> 0x1FFFC0" by (rule div_times_less_eq_dividend)
  finally have le: "k * unat sz + unat sz \<le> 0x1FFFC0" by simp
  show "unat s + 64 \<le> unat c" and e: "unat c + unat sz \<le> unat s + 0x200000" using k(2) le by simp_all
  then show "c \<noteq> 0" by auto
  show "0 < unat sz \<Longrightarrow> seg_of c = s"
    using assms(1) k(2) e by (intro seg_of_eq) (simp_all add: seg_ok_def in_segment_def)
qed

definition extent :: "u32 \<Rightarrow> addr \<Rightarrow> nat set" where
  "extent sz c = {unat c ..< unat c + unat sz}"

lemma segments_apart:
  assumes "seg_ok s" and "seg_ok t" and "s \<noteq> t"
  shows "unat s + 0x200000 \<le> unat t \<or> unat t + 0x200000 \<le> unat s"
proof -
  have s: "unat s = seg_no s * 0x200000" and t: "unat t = seg_no t * 0x200000"
    using assms(1,2) by (auto simp: seg_ok_def seg_aligned_def seg_no_def)
  have "seg_no s \<noteq> seg_no t" using seg_no_inj assms by blast
  then consider "Suc (seg_no s) \<le> seg_no t" | "Suc (seg_no t) \<le> seg_no s" by linarith
  then show ?thesis
  proof cases
    case 1
    from mult_le_mono1 [OF this, of "0x200000"] show ?thesis unfolding s t by simp
  next
    case 2
    from mult_le_mono1 [OF this, of "0x200000"] show ?thesis unfolding s t by simp
  qed
qed

lemma chunks_apart:
  assumes "seg_ok s" and "seg_ok t" and "c \<in> chunks_of sz s" and "d \<in> chunks_of sz t" and "c \<noteq> d"
  shows "extent sz c \<inter> extent sz d = {}"
proof (cases "s = t")
  case True
  obtain k where k: "unat c = unat s + 64 + k * unat sz" using chunk_position [OF assms(1,3)] .
  obtain l where l: "unat d = unat s + 64 + l * unat sz" using chunk_position [OF assms(2,4)] True by blast
  have "k \<noteq> l" using k l assms(5) by (auto simp: word_unat_eq_iff)
  then consider "Suc k \<le> l" | "Suc l \<le> k" by linarith
  then show ?thesis
  proof cases
    case 1
    from mult_le_mono1 [OF this, of "unat sz"] show ?thesis using k l by (auto simp: extent_def)
  next
    case 2
    from mult_le_mono1 [OF this, of "unat sz"] show ?thesis using k l by (auto simp: extent_def)
  qed
next
  case False
  from segments_apart [OF assms(1,2) this] show ?thesis
    using chunk_bounds(1,2) [OF assms(1,3)] chunk_bounds(1,2) [OF assms(2,4)] by (auto simp: extent_def)
qed

section \<open>Steps\<close>

text \<open>
  The routine of \<open>ThreadLocalFreeList\<close> for the compiled size: pop the head of the slot's list, or
  refill.
\<close>

definition freelist_alloc :: "os_env \<Rightarrow> u32 \<Rightarrow> u32 \<Rightarrow> jit_state \<Rightarrow> (addr \<times> jit_state) option" where
  "freelist_alloc env index sz st =
     (let slot = tl_freelists st index; h = fs_head slot
      in if h \<noteq> 0
         then Some (h, st\<lparr>tl_freelists := (tl_freelists st)(index := slot\<lparr>fs_head := words (sg st) h\<rparr>)\<rparr>)
         else freelist_refill env index sz st)"

text \<open>The routine of \<open>MultiSizeFreeList\<close> for its class number \<open>cls\<close>: the same on the class's own list.\<close>

definition multi_alloc :: "os_env \<Rightarrow> u32 \<Rightarrow> u32 \<Rightarrow> u32 \<Rightarrow> jit_state \<Rightarrow> (addr \<times> jit_state) option" where
  "multi_alloc env index sz cls st =
     (let m = tl_multi_freelists st index; h = ms_heads m (unat cls)
      in if h \<noteq> 0
         then Some (h, st\<lparr>tl_multi_freelists := (tl_multi_freelists st)
                         (index := m\<lparr>ms_heads := (ms_heads m)(unat cls := words (sg st) h)\<rparr>)\<rparr>)
         else multi_refill env index sz cls st)"

text \<open>
  What \<open>mmap\<close> promises when it succeeds: a fresh range in user space, apart from every segment in
  use.
\<close>

definition mmap_fresh :: "os_env \<Rightarrow> seg_state \<Rightarrow> bool" where
  "mmap_fresh env g \<longleftrightarrow>
     (\<exists>lo. os_mmap env = Some lo \<and> lo \<noteq> 0 \<and> unat lo + 0x400000 \<le> 2 ^ 47 \<and>
        (\<forall>a. seg_ok a \<longrightarrow> is_managed a g \<longrightarrow>
           {unat a ..< unat a + 0x200000} \<inter> {unat lo ..< unat lo + 0x400000} = {}))"

definition mmap_sound :: "os_env \<Rightarrow> seg_state \<Rightarrow> bool" where
  "mmap_sound env g \<longleftrightarrow> os_mmap env = None \<or> mmap_fresh env g"

lemma mmap_fresh_sound: "mmap_fresh env g \<Longrightarrow> mmap_sound env g"
  by (simp add: mmap_sound_def)

lemma alloc_segment_refused: "os_mmap env = None \<Longrightarrow> alloc_segment env s slot site csize g = (None, g)"
  by (simp add: alloc_segment_def aligned_mmap_2mib_def)

text \<open>The slot of a \<open>ThreadLocalFreeList\<close> site, or one class of a \<open>MultiSizeFreeList\<close> site.\<close>

record slot_config =
  sc_index :: u32
  sc_size :: u32
  sc_tid :: u32
  sc_class :: "u32 option"

definition config_ok :: "slot_config \<Rightarrow> bool" where
  "config_ok cfg \<longleftrightarrow> size_ok (sc_size cfg) \<and> (\<forall>k. sc_class cfg = Some k \<longrightarrow> k < MULTI_MAX_CLASSES)"

definition slot_view :: "slot_config \<Rightarrow> jit_state \<Rightarrow> FreeListSlot" where
  "slot_view cfg st =
     (case sc_class cfg of
        None \<Rightarrow> tl_freelists st (sc_index cfg)
      | Some k \<Rightarrow> let m = tl_multi_freelists st (sc_index cfg)
                 in \<lparr>fs_head = ms_heads m (unat k), fs_segs = ms_segs m (unat k)\<rparr>)"

definition set_slot :: "slot_config \<Rightarrow> FreeListSlot \<Rightarrow> jit_state \<Rightarrow> jit_state" where
  "set_slot cfg slot st =
     (case sc_class cfg of
        None \<Rightarrow> st\<lparr>tl_freelists := (tl_freelists st)(sc_index cfg := slot)\<rparr>
      | Some k \<Rightarrow>
          let m = tl_multi_freelists st (sc_index cfg)
          in st\<lparr>tl_multi_freelists := (tl_multi_freelists st)
               (sc_index cfg := \<lparr>ms_heads = (ms_heads m)(unat k := fs_head slot),
                                ms_segs = (ms_segs m)(unat k := fs_segs slot)\<rparr>)\<rparr>)"

definition slot_strategy :: "slot_config \<Rightarrow> Strategy" where
  "slot_strategy cfg = (case sc_class cfg of None \<Rightarrow> ThreadLocalFreeList | Some k \<Rightarrow> MultiSizeFreeList)"

definition slot_class :: "slot_config \<Rightarrow> u8" where
  "slot_class cfg = (case sc_class cfg of None \<Rightarrow> 0 | Some k \<Rightarrow> ucast k)"

definition slot_alloc :: "os_env \<Rightarrow> slot_config \<Rightarrow> jit_state \<Rightarrow> (addr \<times> jit_state) option" where
  "slot_alloc env cfg st =
     (case sc_class cfg of
        None \<Rightarrow> freelist_alloc env (sc_index cfg) (sc_size cfg) st
      | Some k \<Rightarrow> multi_alloc env (sc_index cfg) (sc_size cfg) k st)"

lemma set_slot_simps [simp]:
  "slot_view cfg (set_slot cfg slot st) = slot" "sg (set_slot cfg slot st) = sg st"
  "slot_view cfg (st\<lparr>sg := g\<rparr>) = slot_view cfg st" "set_slot cfg slot (st\<lparr>sg := g\<rparr>) = (set_slot cfg slot st)\<lparr>sg := g\<rparr>"
  "g_slot_to_site (set_slot cfg slot st) = g_slot_to_site st" "set_slot cfg slot (set_slot cfg slot' st) = set_slot cfg slot st"
  by (simp_all add: set_slot_def slot_view_def Let_def split: option.split)

lemma config_okD: "config_ok cfg \<Longrightarrow> size_ok (sc_size cfg)"
  by (simp add: config_ok_def)

lemma ms_heads_update: "m\<lparr>ms_heads := f\<rparr> = \<lparr>ms_heads = f, ms_segs = ms_segs m\<rparr>"
  by (cases m) simp

text \<open>Both routines are a pop of the slot's list or a refill of its class.\<close>

lemma slot_alloc_pop:
  assumes "fs_head (slot_view cfg st) = h" and "h \<noteq> 0"
  shows "slot_alloc env cfg st = Some (h, set_slot cfg ((slot_view cfg st)\<lparr>fs_head := words (sg st) h\<rparr>) st)"
  using assms by (cases "sc_class cfg")
    (auto simp: slot_alloc_def slot_view_def set_slot_def freelist_alloc_def multi_alloc_def ms_heads_update Let_def)

lemma slot_alloc_refill:
  assumes "config_ok cfg" and "fs_head (slot_view cfg st) = 0"
  shows "slot_alloc env cfg st =
    map_option (\<lambda>(chunk, head, segs, g). (chunk, set_slot cfg \<lparr>fs_head = head, fs_segs = segs\<rparr> (st\<lparr>sg := g\<rparr>)))
      (refill_class (slot_strategy cfg) (slot_class cfg) env (sc_index cfg) (g_slot_to_site st (sc_index cfg))
        (sc_size cfg) (fs_segs (slot_view cfg st)) (sg st))"
proof -
  have "\<not> sc_size cfg < 8" using assms(1) by (simp add: config_ok_def size_ok_def not_less)
  then show ?thesis
    using assms by (cases "sc_class cfg")
      (auto simp: slot_alloc_def slot_view_def set_slot_def slot_strategy_def slot_class_def freelist_alloc_def
        multi_alloc_def freelist_refill_def multi_refill_def config_ok_def Let_def split: option.split)
qed

text \<open>
  Another slot at work: its effect on the state leaves alone this slot, the headers of the slot's
  segments and the links inside them, and keeps those segments managed.
\<close>

definition own_segment :: "slot_config \<Rightarrow> SegmentHeader \<Rightarrow> bool" where
  "own_segment cfg h \<longleftrightarrow> strategy h = slot_strategy cfg \<and> chunk_size h = sc_size cfg \<and>
     slot_index h = sc_index cfg \<and> owner_tid h = sc_tid cfg \<and> class_idx h = slot_class cfg"

lemma free_own:
  assumes "own_segment cfg (headers (sg st) s)" and "config_ok cfg"
  shows "free_managed env s p st =
    (if retired (headers (sg st) s) then st\<lparr>sg := dec_live s (sg st)\<rparr>
     else if owner_tid (headers (sg st) s) = os_tid env
     then set_slot cfg ((slot_view cfg st)\<lparr>fs_head := p\<rparr>) (st\<lparr>sg := set_word p (fs_head (slot_view cfg st)) (sg st)\<rparr>)
     else st\<lparr>sg := mpsc_push s p (sg st)\<rparr>)"
proof (cases "sc_class cfg")
  case None
  then show ?thesis using assms(1)
    by (simp add: own_segment_def slot_strategy_def slot_view_def set_slot_def free_managed_def Let_def)
next
  case (Some k)
  then have "k < 4" using assms(2) by (simp add: config_ok_def MULTI_MAX_CLASSES_def)
  then have "unat (ucast k :: u8) = unat k" by (simp add: unsigned_ucast_eq take_bit_nat_eq_self word_less_nat_alt)
  then show ?thesis using assms(1) Some
    by (simp add: own_segment_def slot_strategy_def slot_class_def slot_view_def set_slot_def free_managed_def
      ms_heads_update Let_def)
qed

definition others_only :: "slot_config \<Rightarrow> jit_state \<Rightarrow> jit_state \<Rightarrow> bool" where
  "others_only cfg st st' \<longleftrightarrow>
     seg_inv (sg st') \<and> slot_view cfg st' = slot_view cfg st \<and>
     (\<forall>s. seg_ok s \<longrightarrow> is_managed s (sg st) \<longrightarrow> own_segment cfg (headers (sg st) s) \<longrightarrow>
        is_managed s (sg st') \<and> headers (sg st') s = headers (sg st) s \<and>
        (\<forall>c \<in> chunks_of (sc_size cfg) s. words (sg st') c = words (sg st) c))"

inductive slot_step :: "slot_config \<Rightarrow> jit_state \<times> addr set \<Rightarrow> jit_state \<times> addr set \<Rightarrow> bool" for cfg where
  allocate: "slot_alloc env cfg st = Some (c, st') \<Longrightarrow>
     mmap_sound env (sg st) \<Longrightarrow> os_tid env = sc_tid cfg \<Longrightarrow> slot_step cfg (st, live) (st', insert c live)"
| deallocate: "p \<in> live \<Longrightarrow> slot_step cfg (st, live) (free_managed env (seg_of p) p st, live - {p})"
| sweep: "reaper_sweep env mode pred (sg st) = (n, g) \<Longrightarrow> slot_step cfg (st, live) (st\<lparr>sg := g\<rparr>, live)"
| elsewhere: "others_only cfg st st' \<Longrightarrow> slot_step cfg (st, live) (st', live)"

inductive slot_reach :: "slot_config \<Rightarrow> jit_state \<Rightarrow> jit_state \<times> addr set \<Rightarrow> bool" for cfg st0 where
  slot_start: "slot_reach cfg st0 (st0, {})"
| slot_next: "slot_reach cfg st0 s \<Longrightarrow> slot_step cfg s s' \<Longrightarrow> slot_reach cfg st0 s'"

section \<open>Invariant\<close>

text \<open>
  \<open>segs\<close> are the slot's segments.  All but the active one are retired and count the chunks the
  program holds; of the active one the program holds exactly the chunks on neither list.
\<close>

definition slot_lists :: "slot_config \<Rightarrow> jit_state \<Rightarrow> addr set \<Rightarrow> addr list \<Rightarrow> addr list \<Rightarrow> bool" where
  "slot_lists cfg st live xs ys \<longleftrightarrow>
     (let slot = slot_view cfg st; a = fs_segs slot
      in linked (words (sg st)) (fs_head slot) xs \<and>
         (if a = 0 then xs = [] \<and> ys = [] else linked (words (sg st)) (remote_head (headers (sg st) a)) ys) \<and>
         distinct (xs @ ys) \<and> set xs \<union> set ys = (if a = 0 then {} else chunks_of (sc_size cfg) a - live))"

definition slot_segs :: "slot_config \<Rightarrow> jit_state \<Rightarrow> addr set \<Rightarrow> addr set \<Rightarrow> bool" where
  "slot_segs cfg st live segs \<longleftrightarrow>
     (let a = fs_segs (slot_view cfg st)
      in (\<forall>s \<in> segs. seg_ok s \<and> is_managed s (sg st) \<and> own_segment cfg (headers (sg st) s) \<and>
            (if s = a then \<not> retired (headers (sg st) s)
             else retired (headers (sg st) s) \<and>
               unat (live_chunks (headers (sg st) s)) = card (live \<inter> chunks_of (sc_size cfg) s))) \<and>
         (a \<noteq> 0 \<longrightarrow> a \<in> segs) \<and> live \<subseteq> (\<Union>s \<in> segs. chunks_of (sc_size cfg) s))"

definition slot_inv :: "slot_config \<Rightarrow> jit_state \<times> addr set \<Rightarrow> bool" where
  "slot_inv cfg s \<longleftrightarrow> (case s of (st, live) \<Rightarrow>
     seg_inv (sg st) \<and> (\<exists>segs xs ys. slot_segs cfg st live segs \<and> slot_lists cfg st live xs ys))"

lemma chunk_segment_unique:
  "seg_ok s \<Longrightarrow> seg_ok t \<Longrightarrow> size_ok sz \<Longrightarrow> c \<in> chunks_of sz s \<Longrightarrow> c \<in> chunks_of sz t \<Longrightarrow> s = t"
  using chunk_bounds(4) size_okD by (metis gr0I not_numeral_le_zero)

lemma slot_inv_pop:
  assumes sz: "size_ok (sc_size cfg)" and segs: "slot_segs cfg st live segs" and lists: "slot_lists cfg st live (c # xs) ys"
    and st': "st' = set_slot cfg ((slot_view cfg st)\<lparr>fs_head := words (sg st) c\<rparr>) st"
  shows "slot_segs cfg st' (insert c live) segs" and "slot_lists cfg st' (insert c live) xs ys"
    and "c \<notin> live" and "\<exists>s \<in> segs. c \<in> chunks_of (sc_size cfg) s"
proof -
  let ?a = "fs_segs (slot_view cfg st)" and ?C = "chunks_of (sc_size cfg)"
  have a: "?a \<noteq> 0" using lists by (auto simp: slot_lists_def Let_def split: if_splits)
  have l: "linked (words (sg st)) (words (sg st) c) xs" "linked (words (sg st)) (remote_head (headers (sg st) ?a)) ys"
    "distinct ((c # xs) @ ys)" "set (c # xs) \<union> set ys = ?C ?a - live"
    using lists a by (auto simp: slot_lists_def Let_def)
  have c: "c \<in> ?C ?a" "c \<notin> live" using l(4) by auto
  have aseg: "?a \<in> segs" using segs a by (simp add: slot_segs_def Let_def)
  then have ok: "\<And>s. s \<in> segs \<Longrightarrow> seg_ok s" using segs by (auto simp: slot_segs_def Let_def)
  show "c \<notin> live" by (rule c(2))
  show "\<exists>s \<in> segs. c \<in> ?C s" using aseg c(1) by blast
  have other: "c \<notin> ?C s" if "s \<in> segs" "s \<noteq> ?a" for s
    using chunk_segment_unique [OF ok [OF that(1)] ok [OF aseg] sz _ c(1)] that(2) by blast
  have "insert c live \<inter> ?C s = live \<inter> ?C s" if "s \<in> segs" "s \<noteq> ?a" for s using other [OF that] by blast
  then show "slot_segs cfg st' (insert c live) segs"
    using segs aseg c(1) by (auto simp: slot_segs_def Let_def st')
  have "set xs \<union> set ys = ?C ?a - insert c live" using l(3,4) by auto
  then show "slot_lists cfg st' (insert c live) xs ys"
    using a l by (simp add: slot_lists_def Let_def st')
qed

lemma slot_inv_harvest:
  assumes sz: "size_ok (sc_size cfg)" and segs: "slot_segs cfg st live segs" and lists: "slot_lists cfg st live [] (c # ys)"
    and a: "a = fs_segs (slot_view cfg st)"
    and st': "st' = set_slot cfg \<lparr>fs_head = words (sg st) c, fs_segs = a\<rparr>
               (st\<lparr>sg := upd_header a (\<lambda>h. h\<lparr>remote_head := 0\<rparr>) (sg st)\<rparr>)"
  shows "slot_segs cfg st' (insert c live) segs" and "slot_lists cfg st' (insert c live) ys []"
    and "c \<notin> live" and "\<exists>s \<in> segs. c \<in> chunks_of (sc_size cfg) s"
proof -
  let ?st = "set_slot cfg \<lparr>fs_head = c, fs_segs = a\<rparr> (st\<lparr>sg := upd_header a (\<lambda>h. h\<lparr>remote_head := 0\<rparr>) (sg st)\<rparr>)"
  have a0: "a \<noteq> 0" using lists a by (auto simp: slot_lists_def Let_def split: if_splits)
  have l: "linked (words (sg st)) (remote_head (headers (sg st) a)) (c # ys)" "distinct (c # ys)"
    "set (c # ys) = chunks_of (sc_size cfg) a - live"
    using lists a0 a by (simp_all add: slot_lists_def Let_def)
  have s1: "slot_segs cfg ?st live segs"
    using segs a by (auto simp: slot_segs_def Let_def upd_header_def own_segment_def is_managed_def)
  have l1: "slot_lists cfg ?st live (c # ys) []"
    using l a0 by (simp add: slot_lists_def Let_def upd_header_def)
  have e: "st' = set_slot cfg ((slot_view cfg ?st)\<lparr>fs_head := words (sg ?st) c\<rparr>) ?st"
    by (simp add: st' upd_header_def)
  from slot_inv_pop [OF sz s1 l1 e]
  show "slot_segs cfg st' (insert c live) segs" and "slot_lists cfg st' (insert c live) ys []"
    and "c \<notin> live" and "\<exists>s \<in> segs. c \<in> chunks_of (sc_size cfg) s" by blast+
qed

lemma fresh_range:
  assumes inv: "seg_inv (sg st)" and segs: "slot_segs cfg st live segs" and fresh: "mmap_fresh env (sg st)"
  obtains lo where "os_mmap env = Some lo" and "unat lo + 0x400000 \<le> 2 ^ 47" and "lo \<noteq> 0"
    and "\<forall>b \<in> set (g_index (sg st)). \<not> (unat lo \<le> unat b \<and> unat b < unat lo + 0x400000)"
    and "\<forall>b \<in> segs. \<not> (unat lo \<le> unat b \<and> unat b < unat lo + 0x400000)"
    and "fs_segs (slot_view cfg st) = 0 \<or>
      \<not> (unat lo \<le> unat (fs_segs (slot_view cfg st)) \<and>
         unat (fs_segs (slot_view cfg st)) < unat lo + 0x400000)"
proof -
  obtain lo where lo: "os_mmap env = Some lo" "unat lo + 0x400000 \<le> 2 ^ 47" "lo \<noteq> 0"
    and apart: "\<And>b. seg_ok b \<Longrightarrow> is_managed b (sg st) \<Longrightarrow>
      {unat b ..< unat b + 0x200000} \<inter> {unat lo ..< unat lo + 0x400000} = {}"
    using fresh unfolding mmap_fresh_def by blast
  have out: "\<not> (unat lo \<le> unat b \<and> unat b < unat lo + 0x400000)" if "seg_ok b" "is_managed b (sg st)" for b
  proof
    assume "unat lo \<le> unat b \<and> unat b < unat lo + 0x400000"
    then have "unat b \<in> {unat b ..< unat b + 0x200000} \<inter> {unat lo ..< unat lo + 0x400000}" by simp
    then show False using apart [OF that] by blast
  qed
  have "\<forall>b \<in> segs. \<not> (unat lo \<le> unat b \<and> unat b < unat lo + 0x400000)"
    using segs out by (auto simp: slot_segs_def Let_def)
  moreover have "\<forall>b \<in> set (g_index (sg st)). \<not> (unat lo \<le> unat b \<and> unat b < unat lo + 0x400000)"
    using inv out by (auto simp: seg_inv_def)
  ultimately show ?thesis using that lo segs by (auto simp: slot_segs_def Let_def)
qed

lemma slot_inv_carve:
  assumes sz: "size_ok (sc_size cfg)" and inv: "seg_inv (sg st)" and segs: "slot_segs cfg st live segs"
    and lists: "slot_lists cfg st live [] []" and fresh: "mmap_fresh env (sg st)" and tid: "os_tid env = sc_tid cfg"
    and a: "a = fs_segs (slot_view cfg st)"
    and r: "refill_class (slot_strategy cfg) (slot_class cfg) env (sc_index cfg) site (sc_size cfg) a (sg st) = Some (c, head, s, g)"
    and st': "st' = set_slot cfg \<lparr>fs_head = head, fs_segs = s\<rparr> (st\<lparr>sg := g\<rparr>)"
  shows "seg_inv g" and "slot_segs cfg st' (insert c live) (insert s segs)"
    and "\<exists>xs. slot_lists cfg st' (insert c live) xs []" and "c \<notin> live" and "c \<in> chunks_of (sc_size cfg) s"
proof -
  let ?C = "chunks_of (sc_size cfg)"
  obtain lo where lo: "os_mmap env = Some lo" "unat lo + 0x400000 \<le> 2 ^ 47" "lo \<noteq> 0"
    and idx: "\<forall>b \<in> set (g_index (sg st)). \<not> (unat lo \<le> unat b \<and> unat b < unat lo + 0x400000)"
    and out: "\<forall>b \<in> segs. \<not> (unat lo \<le> unat b \<and> unat b < unat lo + 0x400000)"
    and aout: "a = 0 \<or> \<not> (unat lo \<le> unat a \<and> unat a < unat lo + 0x400000)"
    unfolding a by (rule fresh_range [OF inv segs fresh])
  have seg: "seg_ok b" "is_managed b (sg st)" "own_segment cfg (headers (sg st) b)" if "b \<in> segs" for b
    using segs that by (auto simp: slot_segs_def Let_def)
  have aseg: "a \<noteq> 0 \<Longrightarrow> a \<in> segs" using segs a by (simp add: slot_segs_def Let_def)
  have empty: "a = 0 \<or> remote_head (headers (sg st) a) = 0 \<and> ?C a \<subseteq> live"
    using lists a by (auto simp: slot_lists_def Let_def split: if_splits)
  then have act: "a = 0 \<or> \<not> (unat lo \<le> unat a \<and> unat a < unat lo + 0x400000) \<and> remote_head (headers (sg st) a) = 0"
    using aout by blast
  obtain xs where x: "linked (words g) head xs" "c # xs = rev (chunk_list (payload_start s) (ucast (sc_size cfg)) (0x1FFFC0 div unat (sc_size cfg)))"
    and s: "seg_ok s" "is_managed s g" "seg_inv g" "a \<noteq> s" "unat lo \<le> unat s" "unat s < unat lo + 0x400000"
    and hs: "headers g s = (new_header (slot_strategy cfg) (sc_index cfg) site (os_tid env) (sc_size cfg) s)\<lparr>class_idx := slot_class cfg, next_in_site := a\<rparr>"
    and ha: "a \<noteq> 0 \<longrightarrow> headers g a = (headers (sg st) a)\<lparr>live_chunks := chunks_in_segment (headers (sg st) a), retired := True\<rparr>"
    and ho: "\<forall>b. b \<noteq> s \<longrightarrow> b \<noteq> a \<longrightarrow> headers g b = headers (sg st) b"
    and man: "\<forall>b. seg_ok b \<longrightarrow> b \<noteq> s \<longrightarrow> is_managed b g = is_managed b (sg st)"
    using refill_class_carves [OF inv lo idx _ _ act, of "sc_size cfg" "slot_strategy cfg" "slot_class cfg" "sc_index cfg" site]
      size_okD [OF sz] r by auto
  show "seg_inv g" by (rule s(3))
  have "set (c # xs) = ?C s" unfolding x(2) by (simp add: chunks_of_def)
  moreover have "distinct (c # xs)" unfolding x(2) by (simp add: chunks_distinct(1) [OF s(1) sz])
  ultimately have C: "?C s = insert c (set xs)" "c \<notin> set xs" "distinct xs" by auto
  then show "c \<in> ?C s" by simp
  have new: "s \<notin> segs" using out s(5,6) by blast
  have disj: "?C s \<inter> ?C b = {}" if "b \<in> segs" for b
    using chunk_segment_unique [OF s(1) seg(1) [OF that] sz] new that by blast
  have live: "live \<subseteq> (\<Union>b \<in> segs. ?C b)" using segs by (simp add: slot_segs_def Let_def)
  then have "live \<inter> ?C s = {}" using disj by blast
  then show "c \<notin> live" using C(1) by blast
  have s0: "s \<noteq> 0" using s(1) by (simp add: seg_ok_def)
  have "set xs = ?C s - insert c live" using C \<open>live \<inter> ?C s = {}\<close> by blast
  then show "\<exists>xs. slot_lists cfg st' (insert c live) xs []"
    using x(1) C(3) s0 hs by (intro exI [of _ xs]) (simp add: slot_lists_def Let_def st' new_header_def)
  have keep: "insert c live \<inter> ?C b = live \<inter> ?C b" if "b \<in> segs" for b using disj [OF that] C(1) by blast
  have count: "unat (chunks_in_segment (headers (sg st) a)) = card (live \<inter> ?C a)" if "a \<noteq> 0"
  proof -
    have "chunk_size (headers (sg st) a) = sc_size cfg" using seg(3) [OF aseg [OF that]] by (simp add: own_segment_def)
    then have "unat (chunks_in_segment (headers (sg st) a)) = card (?C a)"
      using unat_chunks_in_segment chunks_distinct(2) [OF seg(1) [OF aseg [OF that]] sz] size_okD [OF sz] by metis
    moreover have "live \<inter> ?C a = ?C a" using empty that by blast
    ultimately show ?thesis by simp
  qed
  have old: "seg_ok b \<and> is_managed b g \<and> own_segment cfg (headers g b) \<and> retired (headers g b) \<and>
      unat (live_chunks (headers g b)) = card (live \<inter> ?C b)" if "b \<in> segs" for b
  proof (cases "b = a")
    case True
    then have "a \<noteq> 0" using seg(1) [OF that] by (auto simp: seg_ok_def)
    then show ?thesis using True seg [OF that] man s(4) ha count by (simp add: own_segment_def)
  next
    case False
    moreover have "b \<noteq> s" using that new by blast
    moreover have "retired (headers (sg st) b) \<and> unat (live_chunks (headers (sg st) b)) = card (live \<inter> ?C b)"
      using segs that False a by (auto simp: slot_segs_def Let_def)
    ultimately show ?thesis using seg [OF that] man ho by simp
  qed
  have "own_segment cfg (headers g s) \<and> \<not> retired (headers g s)" using hs tid by (simp add: own_segment_def new_header_def)
  then show "slot_segs cfg st' (insert c live) (insert s segs)"
    using old s(1,2) new live keep C(1) by (auto simp: slot_segs_def Let_def st' subset_iff)
qed

lemma slot_inv_allocate:
  assumes inv: "slot_inv cfg (st, live)" and ok: "config_ok cfg" and sound: "mmap_sound env (sg st)"
    and tid: "os_tid env = sc_tid cfg" and al: "slot_alloc env cfg st = Some (c, st')"
  shows "slot_inv cfg (st', insert c live) \<and> c \<notin> live"
proof -
  note sz = config_okD [OF ok]
  let ?slot = "slot_view cfg st"
  obtain segs xs ys where i: "seg_inv (sg st)" "slot_segs cfg st live segs" "slot_lists cfg st live xs ys"
    using inv by (auto simp: slot_inv_def)
  show ?thesis
  proof (cases xs)
    case (Cons h xs')
    then have "fs_head ?slot = h" "h \<noteq> 0" using i(3) by (auto simp: slot_lists_def Let_def)
    then have c: "h = c" "st' = set_slot cfg (?slot\<lparr>fs_head := words (sg st) c\<rparr>) st"
      using al slot_alloc_pop [of cfg st h env] by auto
    show ?thesis
      using slot_inv_pop [OF sz i(2) i(3) [unfolded Cons c(1)] c(2)] i(1) c(2) by (auto simp: slot_inv_def)
  next
    case Nil
    let ?a = "fs_segs ?slot"
    have "fs_head ?slot = 0" using i(3) Nil by (simp add: slot_lists_def Let_def)
    then obtain head segs' g where r: "refill_class (slot_strategy cfg) (slot_class cfg) env (sc_index cfg) (g_slot_to_site st (sc_index cfg))
        (sc_size cfg) ?a (sg st) = Some (c, head, segs', g)"
      and st': "st' = set_slot cfg \<lparr>fs_head = head, fs_segs = segs'\<rparr> (st\<lparr>sg := g\<rparr>)"
      using al slot_alloc_refill [OF ok] by auto
    show ?thesis
    proof (cases ys)
      case Nil': Nil
      have fresh: "mmap_fresh env (sg st)"
      proof (rule ccontr)
        assume "\<not> ?thesis"
        then have none: "os_mmap env = None" using sound by (simp add: mmap_sound_def)
        have "?a \<noteq> 0 \<longrightarrow> remote_head (headers (sg st) ?a) = 0"
          using i(3) Nil' by (auto simp: slot_lists_def Let_def split: if_splits)
        then show False using r
          by (auto simp: refill_class_def mpsc_harvest_def alloc_segment_refused [OF none] Let_def split: if_splits)
      qed
      show ?thesis
        using slot_inv_carve [OF sz i(1,2) _ fresh tid refl r st'] i(3) Nil Nil' unfolding slot_inv_def by (auto simp: st')
    next
      case (Cons h ys')
      then have a: "?a \<noteq> 0" and h: "remote_head (headers (sg st) ?a) = h" "h \<noteq> 0"
        using i(3) by (auto simp: slot_lists_def Let_def split: if_splits)
      then have e: "h = c" "head = words (sg st) c" "segs' = ?a" "g = upd_header ?a (\<lambda>h. h\<lparr>remote_head := 0\<rparr>) (sg st)"
        using r by (auto simp: refill_class_def mpsc_harvest_def upd_header_def Let_def)
      have st2: "st' = set_slot cfg \<lparr>fs_head = words (sg st) c, fs_segs = ?a\<rparr>
          (st\<lparr>sg := upd_header ?a (\<lambda>h. h\<lparr>remote_head := 0\<rparr>) (sg st)\<rparr>)"
        using st' e by simp
      have "seg_inv (sg st')" using i(1) seg_inv_cong [of "sg st'" "sg st"] by (simp add: st2 upd_header_def)
      then show ?thesis
        using slot_inv_harvest [OF sz i(2) i(3) [unfolded Nil Cons e(1)] refl st2] by (auto simp: slot_inv_def)
    qed
  qed
qed

lemma slot_inv_deallocate:
  assumes inv: "slot_inv cfg (st, live)" and ok: "config_ok cfg" and p: "p \<in> live"
  shows "slot_inv cfg (free_managed env (seg_of p) p st, live - {p})"
proof -
  note sz = config_okD [OF ok]
  let ?slot = "slot_view cfg st" and ?C = "chunks_of (sc_size cfg)"
  let ?a = "fs_segs ?slot" and ?st = "free_managed env (seg_of p) p st"
  obtain segs xs ys where i: "seg_inv (sg st)" "slot_segs cfg st live segs" "slot_lists cfg st live xs ys"
    using inv by (auto simp: slot_inv_def)
  have seg: "seg_ok b" "is_managed b (sg st)" "own_segment cfg (headers (sg st) b)" if "b \<in> segs" for b
    using i(2) that by (auto simp: slot_segs_def Let_def)
  obtain s where s: "s \<in> segs" "p \<in> ?C s" using i(2) p by (auto simp: slot_segs_def Let_def)
  have so: "seg_of p = s" and p0: "p \<noteq> 0"
    using chunk_bounds(3,4) [OF seg(1) [OF s(1)] s(2)] size_okD [OF sz] by simp_all
  have s0: "s \<noteq> 0" using seg(1) [OF s(1)] by (simp add: seg_ok_def)
  note h = free_own [OF seg(3) [OF s(1)] ok, of env p, folded so]
  have other: "(live - {p}) \<inter> ?C b = live \<inter> ?C b" if "b \<in> segs" "b \<noteq> s" for b
    using chunk_segment_unique [OF seg(1) [OF that(1)] seg(1) [OF s(1)] sz _ s(2)] that(2) by blast
  show ?thesis
  proof (cases "s = ?a")
    case True
    have nr: "\<not> retired (headers (sg st) s)" using i(2) s(1) True by (auto simp: slot_segs_def Let_def)
    have l: "linked (words (sg st)) (fs_head ?slot) xs" "linked (words (sg st)) (remote_head (headers (sg st) s)) ys"
      "distinct (xs @ ys)" "set xs \<union> set ys = ?C s - live"
      using i(3) s0 True by (simp_all add: slot_lists_def Let_def)
    have np: "p \<notin> set xs" "p \<notin> set ys" using l(4) p by blast+
    have C: "insert p (set xs \<union> set ys) = ?C s - (live - {p})" using l(4) s(2) p by blast
    show ?thesis
    proof (cases "owner_tid (headers (sg st) s) = os_tid env")
      case local: True
      have st: "?st = set_slot cfg (?slot\<lparr>fs_head := p\<rparr>) (st\<lparr>sg := set_word p (fs_head ?slot) (sg st)\<rparr>)"
        using h nr local by (simp add: so)
      have "slot_lists cfg ?st (live - {p}) (p # xs) ys"
        using l np p0 s0 C True by (auto simp: slot_lists_def Let_def st set_word_def linked_frame)
      moreover have "slot_segs cfg ?st (live - {p}) segs"
        using i(2) other True by (auto simp: slot_segs_def Let_def st set_word_def own_segment_def is_managed_def)
      moreover have "seg_inv (sg ?st)" using i(1) seg_inv_cong [of "sg ?st" "sg st"] by (simp add: st set_word_def)
      ultimately show ?thesis by (auto simp: slot_inv_def)
    next
      case remote: False
      have st: "?st = st\<lparr>sg := mpsc_push s p (sg st)\<rparr>" using h nr remote by (simp add: so)
      have "slot_lists cfg ?st (live - {p}) xs (p # ys)"
        using l np p0 s0 C True
        by (auto simp: slot_lists_def Let_def st mpsc_push_def upd_header_def linked_frame)
      moreover have "slot_segs cfg ?st (live - {p}) segs"
        using i(2) other True
        by (auto simp: slot_segs_def Let_def st mpsc_push_def upd_header_def own_segment_def is_managed_def)
      moreover have "seg_inv (sg ?st)"
        using i(1) seg_inv_cong [of "sg ?st" "sg st"] by (simp add: st mpsc_push_def upd_header_def Let_def)
      ultimately show ?thesis by (auto simp: slot_inv_def)
    qed
  next
    case False
    have rt: "retired (headers (sg st) s)" "unat (live_chunks (headers (sg st) s)) = card (live \<inter> ?C s)"
      using i(2) s(1) False by (auto simp: slot_segs_def Let_def)
    have st: "?st = st\<lparr>sg := dec_live s (sg st)\<rparr>" using h rt(1) by (simp add: so)
    have fin: "finite (live \<inter> ?C s)" by (simp add: chunks_of_def)
    have "(live - {p}) \<inter> ?C s = (live \<inter> ?C s) - {p}" by blast
    then have card: "card ((live - {p}) \<inter> ?C s) = card (live \<inter> ?C s) - 1" using fin p s(2) by simp
    have "live_chunks (headers (sg st) s) \<noteq> 0" using rt(2) fin p s(2) by (auto simp: card_eq_0_iff)
    then have "unat (live_chunks (headers (sg st) s) - 1) = card ((live - {p}) \<inter> ?C s)"
      using unat_minus_one rt(2) card by metis
    then have "slot_segs cfg ?st (live - {p}) segs"
      using i(2) other False by (auto simp: slot_segs_def Let_def st dec_live_def upd_header_def own_segment_def is_managed_def)
    moreover have "slot_lists cfg ?st (live - {p}) xs ys"
    proof -
      have "p \<notin> ?C ?a" if "?a \<noteq> 0"
        using chunk_segment_unique [OF seg(1) seg(1) [OF s(1)] sz _ s(2)] that False i(2) by (auto simp: slot_segs_def Let_def)
      then have "?a \<noteq> 0 \<Longrightarrow> ?C ?a - (live - {p}) = ?C ?a - live" by blast
      then show ?thesis using i(3) False by (auto simp: slot_lists_def Let_def st dec_live_def upd_header_def)
    qed
    moreover have "seg_inv (sg ?st)" using i(1) seg_inv_cong [of "sg ?st" "sg st"] by (simp add: st dec_live_def upd_header_def)
    ultimately show ?thesis by (auto simp: slot_inv_def)
  qed
qed

lemma fold_decommit_frame:
  "words (fold (decommit_segment env) el g) = words g \<and> pagemap (fold (decommit_segment env) el g) = pagemap g \<and>
   g_index (fold (decommit_segment env) el g) = g_index g \<and>
   (\<forall>a. \<exists>d. headers (fold (decommit_segment env) el g) a = (headers g a)\<lparr>decommitted := d\<rparr>)"
proof (induction el arbitrary: g)
  case Nil
  have "\<exists>d. h = h\<lparr>decommitted := d\<rparr>" for h :: SegmentHeader by (intro exI [of _ "decommitted h"]) simp
  then show ?case by simp
next
  case (Cons a el)
  have "\<exists>d. h = h\<lparr>decommitted := d\<rparr>" for h :: SegmentHeader by (intro exI [of _ "decommitted h"]) simp
  then have d: "words (decommit_segment env a g) = words g \<and>
      (\<forall>b. \<exists>d. headers (decommit_segment env a g) b = (headers g b)\<lparr>decommitted := d\<rparr>)"
    by (auto simp: decommit_segment_def upd_header_def log_call_def Let_def)
  have "\<exists>d. headers (fold (decommit_segment env) el (decommit_segment env a g)) b = (headers g b)\<lparr>decommitted := d\<rparr>" for b
  proof -
    obtain d1 where "headers (decommit_segment env a g) b = (headers g b)\<lparr>decommitted := d1\<rparr>" using d by blast
    moreover obtain d2 where "headers (fold (decommit_segment env) el (decommit_segment env a g)) b =
        (headers (decommit_segment env a g) b)\<lparr>decommitted := d2\<rparr>" using Cons.IH by blast
    ultimately show ?thesis by auto
  qed
  then show ?case using Cons.IH [of "decommit_segment env a g"] d by simp
qed

lemma fold_free_words: "words (fold free_segment el g) = words g"
  by (induction el arbitrary: g) (simp_all add: free_segment_def unregister_segment_def log_call_def Let_def
      split: option.split)

lemma sweep_frame:
  assumes inv: "seg_inv g" and r: "reaper_sweep env mode pred g = (n, g')"
  shows "\<exists>dead. seg_inv g' \<and> words g' = words g \<and>
    (\<forall>a \<in> dead. retired (headers g a) \<and> live_chunks (headers g a) = 0) \<and>
    (\<forall>a. seg_ok a \<longrightarrow> a \<notin> dead \<longrightarrow> is_managed a g \<longrightarrow> is_managed a g') \<and>
    (\<forall>a. \<exists>d. headers g' a = (headers g a)\<lparr>decommitted := d\<rparr>)"
proof (cases "mode = Madvise")
  case True
  have g': "g' = fold (decommit_segment env) (reaped mode pred g) g"
    using r True by (simp add: reaper_sweep_def reaped_def Let_def)
  note f = fold_decommit_frame [of env "reaped mode pred g" g, folded g']
  have "seg_inv g'" using inv f seg_inv_cong [of g' g] by simp
  then show ?thesis using f is_managed_cong [of g' g] by (intro exI [of _ "{}"]) simp
next
  case False
  have g': "g' = fold free_segment (reaped mode pred g) g" using reaper_sweep_free [OF False] r by simp
  have ok: "\<forall>a \<in> set (reaped mode pred g). seg_ok a" by (rule reaped_ok [OF inv])
  then have z: "0 \<notin> set (reaped mode pred g)" by (auto simp: seg_ok_def)
  have i: "pm_ready g" "distinct (g_index g)" using inv by (auto simp: seg_inv_def)
  note f = fold_free_index [OF i(2) z, folded g'] pfree.inv_fold_del [OF i(1) ok, folded g']
  have man: "\<forall>a. seg_ok a \<longrightarrow> (is_managed a g' \<longleftrightarrow> is_managed a g \<and> a \<notin> set (reaped mode pred g))"
    using pfree.member_fold_del [OF i(1) ok] g' by auto
  moreover have "seg_inv g'" using f man inv by (auto simp: seg_inv_def)
  moreover have "headers g' = headers g" using f by simp
  moreover have "\<exists>d. h = h\<lparr>decommitted := d\<rparr>" for h :: SegmentHeader by (intro exI [of _ "decommitted h"]) simp
  ultimately show ?thesis
    by (intro exI [of _ "set (reaped mode pred g)"])
      (auto simp: g' fold_free_words reaped_def eligible_iff)
qed

lemma slot_inv_sweep:
  assumes inv: "slot_inv cfg (st, live)" and r: "reaper_sweep env mode pred (sg st) = (n, g)"
  shows "slot_inv cfg (st\<lparr>sg := g\<rparr>, live)"
proof -
  let ?a = "fs_segs (slot_view cfg st)" and ?C = "chunks_of (sc_size cfg)"
  obtain segs xs ys where i: "seg_inv (sg st)" "slot_segs cfg st live segs" "slot_lists cfg st live xs ys"
    using inv by (auto simp: slot_inv_def)
  obtain dead where d: "seg_inv g" "words g = words (sg st)"
    and gone: "\<forall>a \<in> dead. retired (headers (sg st) a) \<and> live_chunks (headers (sg st) a) = 0"
    and man: "\<forall>a. seg_ok a \<longrightarrow> a \<notin> dead \<longrightarrow> is_managed a (sg st) \<longrightarrow> is_managed a g"
    and hd: "\<And>a. \<exists>d. headers g a = (headers (sg st) a)\<lparr>decommitted := d\<rparr>"
    using sweep_frame [OF i(1) r] by auto
  have h: "retired (headers g a) = retired (headers (sg st) a)" "live_chunks (headers g a) = live_chunks (headers (sg st) a)"
    "own_segment cfg (headers g a) = own_segment cfg (headers (sg st) a)"
    "remote_head (headers g a) = remote_head (headers (sg st) a)" for a
    using hd [of a] by (auto simp: own_segment_def)
  have "live \<inter> ?C s = {}" if "s \<in> segs" "s \<in> dead" for s
  proof -
    have "s \<noteq> ?a" using i(2) that gone by (auto simp: slot_segs_def Let_def)
    then have "unat (live_chunks (headers (sg st) s)) = card (live \<inter> ?C s)"
      using i(2) that by (auto simp: slot_segs_def Let_def)
    then show ?thesis using gone that by (auto simp: chunks_of_def)
  qed
  then have "live \<subseteq> (\<Union>s \<in> segs - dead. ?C s)" using i(2) by (fastforce simp: slot_segs_def Let_def)
  moreover have "?a \<noteq> 0 \<longrightarrow> ?a \<in> segs - dead" using i(2) gone by (auto simp: slot_segs_def Let_def)
  ultimately have "slot_segs cfg (st\<lparr>sg := g\<rparr>) live (segs - dead)"
    using i(2) man by (auto simp: slot_segs_def Let_def h)
  moreover have "slot_lists cfg (st\<lparr>sg := g\<rparr>) live xs ys" using i(3) by (simp add: slot_lists_def Let_def h d(2))
  ultimately show ?thesis using d(1) by (auto simp: slot_inv_def)
qed

lemma linked_cong: "\<forall>c \<in> set xs. nx c = nx' c \<Longrightarrow> linked nx h xs = linked nx' h xs"
  by (induction xs arbitrary: h) auto

lemma slot_inv_elsewhere:
  assumes inv: "slot_inv cfg (st, live)" and o: "others_only cfg st st'"
  shows "slot_inv cfg (st', live)"
proof -
  let ?a = "fs_segs (slot_view cfg st)" and ?C = "chunks_of (sc_size cfg)"
  obtain segs xs ys where i: "seg_inv (sg st)" "slot_segs cfg st live segs" "slot_lists cfg st live xs ys"
    using inv by (auto simp: slot_inv_def)
  have seg: "seg_ok s \<and> is_managed s (sg st) \<and> own_segment cfg (headers (sg st) s)" if "s \<in> segs" for s
    using i(2) that by (auto simp: slot_segs_def Let_def)
  have same: "is_managed s (sg st')" "headers (sg st') s = headers (sg st) s"
    "\<forall>c \<in> ?C s. words (sg st') c = words (sg st) c" if "s \<in> segs" for s
    using o seg [OF that] by (auto simp: others_only_def)
  have slot: "slot_view cfg st' = slot_view cfg st" "seg_inv (sg st')"
    using o by (auto simp: others_only_def)
  have "slot_segs cfg st' live segs" using i(2) same slot by (auto simp: slot_segs_def Let_def)
  moreover have "slot_lists cfg st' live xs ys"
  proof (cases "?a = 0")
    case True
    then show ?thesis using i(3) slot by (auto simp: slot_lists_def Let_def)
  next
    case False
    then have "?a \<in> segs" using i(2) by (simp add: slot_segs_def Let_def)
    moreover have "set xs \<union> set ys \<subseteq> ?C ?a" using i(3) False by (auto simp: slot_lists_def Let_def)
    ultimately have e: "\<forall>c \<in> set xs \<union> set ys. words (sg st') c = words (sg st) c"
      and r: "headers (sg st') ?a = headers (sg st) ?a" using same by blast+
    have "linked (words (sg st')) h xs = linked (words (sg st)) h xs"
      "linked (words (sg st')) h ys = linked (words (sg st)) h ys" for h
      using e by (auto intro!: linked_cong)
    then show ?thesis using i(3) slot(1) r False by (simp add: slot_lists_def Let_def)
  qed
  ultimately show ?thesis using slot(2) by (auto simp: slot_inv_def)
qed

lemma slot_alloc_succeeds:
  assumes inv: "slot_inv cfg (st, live)" and ok: "config_ok cfg" and fresh: "mmap_fresh env (sg st)"
  shows "\<exists>c st'. slot_alloc env cfg st = Some (c, st')"
proof (cases "fs_head (slot_view cfg st) = 0")
  case False
  then show ?thesis using slot_alloc_pop [OF refl] by blast
next
  case True
  note sz = config_okD [OF ok]
  let ?a = "fs_segs (slot_view cfg st)"
  have "\<exists>r. refill_class (slot_strategy cfg) (slot_class cfg) env (sc_index cfg) (g_slot_to_site st (sc_index cfg)) (sc_size cfg)
      ?a (sg st) = Some r"
  proof (cases "?a = 0 \<or> remote_head (headers (sg st) ?a) = 0")
    case False
    then show ?thesis by (simp add: refill_class_def mpsc_harvest_def Let_def)
  next
    case empty: True
    obtain segs where i: "seg_inv (sg st)" "slot_segs cfg st live segs" using inv by (auto simp: slot_inv_def)
    obtain lo where lo: "os_mmap env = Some lo" "unat lo + 0x400000 \<le> 2 ^ 47" "lo \<noteq> 0"
      "\<forall>b \<in> set (g_index (sg st)). \<not> (unat lo \<le> unat b \<and> unat b < unat lo + 0x400000)"
      "?a = 0 \<or> \<not> (unat lo \<le> unat ?a \<and> unat ?a < unat lo + 0x400000)"
      using fresh_range [OF i fresh] .
    show ?thesis
      using refill_class_carves [OF i(1) lo(1-4), of "sc_size cfg" ?a "slot_strategy cfg" "slot_class cfg" "sc_index cfg"
          "g_slot_to_site st (sc_index cfg)"] size_okD [OF sz] lo(5) empty by blast
  qed
  then show ?thesis using slot_alloc_refill [OF ok True] by auto
qed

lemma slot_inv_step:
  assumes "slot_step cfg s s'" and "slot_inv cfg s" and "config_ok cfg"
  shows "slot_inv cfg s'"
  using assms
proof (cases rule: slot_step.cases)
  case allocate
  then show ?thesis using slot_inv_allocate assms(2,3) by blast
next
  case deallocate
  then show ?thesis using slot_inv_deallocate assms(2,3) by blast
next
  case sweep
  then show ?thesis using slot_inv_sweep assms(2) by blast
next
  case elsewhere
  then show ?thesis using slot_inv_elsewhere assms(2) by blast
qed

definition slot_fresh :: "slot_config \<Rightarrow> jit_state \<Rightarrow> bool" where
  "slot_fresh cfg st \<longleftrightarrow> seg_inv (sg st) \<and> slot_view cfg st = \<lparr>fs_head = 0, fs_segs = 0\<rparr>"

lemma slot_inv_start: "slot_fresh cfg st \<Longrightarrow> slot_inv cfg (st, {})"
  unfolding slot_inv_def slot_fresh_def prod.case slot_segs_def slot_lists_def Let_def
  by (intro conjI exI [of _ "{}"] exI [of _ "[]"]) simp_all

lemma slot_reach_inv:
  "slot_reach cfg st0 s \<Longrightarrow> slot_fresh cfg st0 \<Longrightarrow> config_ok cfg \<Longrightarrow> slot_inv cfg s"
  by (induction rule: slot_reach.induct) (auto intro: slot_inv_start slot_inv_step)

lemma slot_inv_live:
  assumes "slot_inv cfg (st, live)" and "size_ok (sc_size cfg)" and "d \<in> live"
  shows "seg_ok (seg_of d) \<and> d \<in> chunks_of (sc_size cfg) (seg_of d) \<and> is_managed (seg_of d) (sg st)"
proof -
  obtain s where s: "seg_ok s" "is_managed s (sg st)" "d \<in> chunks_of (sc_size cfg) s"
    using assms(1,3) by (fastforce simp: slot_inv_def slot_segs_def Let_def)
  moreover have "seg_of d = s" using chunk_bounds(4) [OF s(1,3)] size_okD [OF assms(2)] by simp
  ultimately show ?thesis by simp
qed

text \<open>
  C2: After any sequence of allocations from a free-list slot, or from one class of a multi-size
  slot, frees by any thread, sweeps of the reaper in any mode and work of other slots and classes,
  the next allocation succeeds and its chunk overlaps
  no chunk the program still holds; every chunk held lies behind the header of a segment that is
  still registered.
\<close>

theorem freelist_chunks_exclusive:
  assumes "slot_fresh cfg st0" and "config_ok cfg" and "slot_reach cfg st0 (st, live)"
    and "mmap_fresh env (sg st)" and "os_tid env = sc_tid cfg"
  shows "\<exists>c st'. slot_alloc env cfg st = Some (c, st') \<and> c \<notin> live \<and>
    (\<forall>d \<in> live. extent (sc_size cfg) c \<inter> extent (sc_size cfg) d = {}) \<and>
    (\<forall>d \<in> insert c live. is_managed (seg_of d) (sg st') \<and>
       unat (seg_of d) + 64 \<le> unat d \<and> unat d + unat (sc_size cfg) \<le> unat (seg_of d) + 0x200000)"
proof -
  have inv: "slot_inv cfg (st, live)" using slot_reach_inv [OF assms(3,1,2)] .
  obtain c st' where al: "slot_alloc env cfg st = Some (c, st')"
    using slot_alloc_succeeds [OF inv assms(2,4)] by blast
  have inv': "slot_inv cfg (st', insert c live)" and new: "c \<notin> live"
    using slot_inv_allocate [OF inv assms(2) mmap_fresh_sound [OF assms(4)] assms(5) al] by simp_all
  note h = slot_inv_live [OF inv' config_okD [OF assms(2)]]
  have "extent (sc_size cfg) c \<inter> extent (sc_size cfg) d = {}" if "d \<in> live" for d
    using chunks_apart [of "seg_of c" "seg_of d" c _ d] h [of c] h [of d] that new by auto
  moreover have "\<forall>d \<in> insert c live. is_managed (seg_of d) (sg st') \<and>
       unat (seg_of d) + 64 \<le> unat d \<and> unat d + unat (sc_size cfg) \<le> unat (seg_of d) + 0x200000"
    using h chunk_bounds(1,2) by blast
  ultimately show ?thesis using al new by blast
qed

definition demo_slot :: slot_config where
  "demo_slot = \<lparr>sc_index = 3, sc_size = 48, sc_tid = 1, sc_class = None\<rparr>"

lemma demo_slot_simps [simp]:
  "sc_index demo_slot = 3" "sc_size demo_slot = 48" "sc_tid demo_slot = 1" "sc_class demo_slot = None" "size_ok 48" "config_ok demo_slot"
  "slot_alloc env demo_slot st = freelist_alloc env 3 48 st"
  "os_tid (demo_mmap lo) = 1" "slot_fresh demo_slot demo_jit"
  using demo_jit_inv(1) by (simp_all add: demo_slot_def size_ok_def config_ok_def slot_alloc_def demo_mmap_def demo_env_def slot_fresh_def slot_view_def)
    (simp add: demo_jit_def)

lemma demo_unmanaged: "\<not> is_managed a (sg demo_jit)"
  by (simp add: is_managed_def demo_jit_def pm_bit_def Let_def)

lemma demo_first:
  "\<exists>c st s. freelist_alloc (demo_mmap 0x10000000) 3 48 demo_jit = Some (c, st) \<and> seg_ok s \<and>
     0x10000000 \<le> unat s \<and> unat s < 0x10400000 \<and> (\<forall>a. seg_ok a \<longrightarrow> a \<noteq> s \<longrightarrow> \<not> is_managed a (sg st))"
proof -
  obtain c head s g where
    "refill_class ThreadLocalFreeList 0 (demo_mmap 0x10000000) 3 (g_slot_to_site demo_jit 3) 48 0 (sg demo_jit)
       = Some (c, head, s, g)" "seg_ok s" "0x10000000 \<le> unat s" "unat s < 0x10400000"
    "\<forall>a. seg_ok a \<longrightarrow> a \<noteq> s \<longrightarrow> is_managed a g = is_managed a (sg demo_jit)"
    using refill_class_carves [OF demo_jit_inv(1) demo_mapping(1-4), of 48 0 ThreadLocalFreeList 0 3 "g_slot_to_site demo_jit 3"]
    using demo_mapping(6) by auto
  moreover have "tl_freelists demo_jit 3 = \<lparr>fs_head = 0, fs_segs = 0\<rparr>" by (simp add: demo_jit_def)
  ultimately show ?thesis
    using demo_unmanaged
    by (intro exI [of _ c] exI [of _ "demo_jit\<lparr>sg := g, tl_freelists := (tl_freelists demo_jit)(3 := \<lparr>fs_head = head, fs_segs = s\<rparr>)\<rparr>"]
        exI [of _ s]) (simp add: freelist_alloc_def freelist_refill_def Let_def)
qed

theorem freelist_chunks_exclusive_witness:
  "\<exists>c st c2 st2. slot_reach demo_slot demo_jit (st, {c}) \<and>
     freelist_alloc (demo_mmap 0x20000000) 3 48 st = Some (c2, st2) \<and> extent 48 c2 \<inter> extent 48 c = {}"
proof -
  obtain c st s where c: "freelist_alloc (demo_mmap 0x10000000) 3 48 demo_jit = Some (c, st)"
    and s: "seg_ok s" "0x10000000 \<le> unat s" "unat s < 0x10400000"
    and un: "\<forall>a. seg_ok a \<longrightarrow> a \<noteq> s \<longrightarrow> \<not> is_managed a (sg st)"
    using demo_first by blast
  have f1: "mmap_fresh (demo_mmap 0x10000000) (sg demo_jit)"
    using demo_mapping demo_unmanaged unfolding mmap_fresh_def by blast
  have f2: "mmap_fresh (demo_mmap 0x20000000) (sg st)"
    unfolding mmap_fresh_def using s un
    by (intro exI [of _ "0x20000000"]) (auto simp: demo_mmap_def)
  have r: "slot_reach demo_slot demo_jit (st, {c})"
    using slot_next [OF slot_start allocate] c mmap_fresh_sound [OF f1] by simp
  from freelist_chunks_exclusive [OF _ _ r, of "demo_mmap 0x20000000"] f2
  have "\<exists>c2 st2. freelist_alloc (demo_mmap 0x20000000) 3 48 st = Some (c2, st2) \<and> extent 48 c2 \<inter> extent 48 c = {}"
    by auto
  with r show ?thesis by blast
qed

end
