(* ===== verification/Bump_Safety.thy ===== *)
theory Bump_Safety
  imports Chunk_Safety
begin

text \<open>
  The chunks of one thread's BumpAlloc or PairedStack slot over its whole life.  The thread allocates
  through the emitted bump path or the first-time slow path, any thread frees, the reaper sweeps,
  and all other work goes on: other slots, and other threads in their own segments of the same site.
\<close>

section \<open>Steps\<close>

text \<open>
  The bump routine for the compiled size: advance within the region, set the slot up when it is
  unset, and otherwise give up, so that the call is served by libc.
\<close>

definition bump_alloc :: "Strategy \<Rightarrow> os_env \<Rightarrow> u32 \<Rightarrow> u32 \<Rightarrow> jit_state \<Rightarrow> (addr \<times> jit_state) option" where
  "bump_alloc strat env index sz st =
     (let slot = tl_bumps st index; p = bs_ptr slot
      in if p + ucast sz < bs_end slot then Some (p, jit_bump index sz st)
         else if p = 0 then bump_segment strat env index sz st
         else None)"

text \<open>
  The segment of this thread's slot.  Other threads that run the same routine have segments of the
  same strategy, size and index, with their own thread as owner, and take the bump pointers of
  those back; \<open>tl_bumps\<close> is the copy of this thread.
\<close>

definition own_bump :: "Strategy \<Rightarrow> slot_config \<Rightarrow> SegmentHeader \<Rightarrow> bool" where
  "own_bump strat cfg h \<longleftrightarrow> strategy h = strat \<and> chunk_size h = sc_size cfg \<and> slot_index h = sc_index cfg \<and>
     owner_tid h = sc_tid cfg \<and> \<not> retired h"

definition bump_others_only :: "Strategy \<Rightarrow> slot_config \<Rightarrow> jit_state \<Rightarrow> jit_state \<Rightarrow> bool" where
  "bump_others_only strat cfg st st' \<longleftrightarrow>
     seg_inv (sg st') \<and> tl_bumps st' (sc_index cfg) = tl_bumps st (sc_index cfg) \<and>
     (\<forall>s. seg_ok s \<longrightarrow> is_managed s (sg st) \<longrightarrow> own_bump strat cfg (headers (sg st) s) \<longrightarrow>
        is_managed s (sg st') \<and> headers (sg st') s = headers (sg st) s)"

inductive bump_step :: "Strategy \<Rightarrow> slot_config \<Rightarrow> jit_state \<times> addr set \<Rightarrow> jit_state \<times> addr set \<Rightarrow> bool" for strat cfg where
  bump_allocate: "bump_alloc strat env (sc_index cfg) (sc_size cfg) st = Some (c, st') \<Longrightarrow>
     os_tid env = sc_tid cfg \<Longrightarrow> mmap_sound env (sg st) \<Longrightarrow> bump_step strat cfg (st, live) (st', insert c live)"
| bump_deallocate: "p \<in> live \<Longrightarrow> bump_step strat cfg (st, live) (free_managed env (seg_of p) p st, live - {p})"
| bump_sweep: "reaper_sweep env mode pred (sg st) = (n, g) \<Longrightarrow> bump_step strat cfg (st, live) (st\<lparr>sg := g\<rparr>, live)"
| bump_elsewhere: "bump_others_only strat cfg st st' \<Longrightarrow> bump_step strat cfg (st, live) (st', live)"

inductive bump_reach :: "Strategy \<Rightarrow> slot_config \<Rightarrow> jit_state \<Rightarrow> jit_state \<times> addr set \<Rightarrow> bool" for strat cfg st0 where
  bump_start: "bump_reach strat cfg st0 (st0, {})"
| bump_next: "bump_reach strat cfg st0 s \<Longrightarrow> bump_step strat cfg s s' \<Longrightarrow> bump_reach strat cfg st0 s'"

text \<open>
  A free by another thread, which runs on that thread's copy of the slots, is such other work: the
  rewind changes the header of a segment that thread owns.
\<close>

lemma foreign_free_elsewhere:
  assumes "seg_inv (sg st)" and "os_tid env \<noteq> sc_tid cfg"
    and "strategy (headers (sg st) s) \<in> {BumpAlloc, PairedStack}"
  shows "bump_others_only strat cfg st (st\<lparr>sg := sg (free_managed env s p (st\<lparr>tl_bumps := theirs\<rparr>))\<rparr>)"
proof (cases "sg (free_managed env s p (st\<lparr>tl_bumps := theirs\<rparr>)) = sg st")
  case True
  then show ?thesis using assms(1) by (simp add: bump_others_only_def)
next
  case False
  then obtain q where own: "owner_tid (headers (sg st) s) = os_tid env"
    and e: "sg (free_managed env s p (st\<lparr>tl_bumps := theirs\<rparr>)) = upd_header s (\<lambda>h. h\<lparr>bump_ptr := q\<rparr>) (sg st)"
    using assms(3) by (auto simp: free_managed_def paired_lifo_rewind_def Let_def split: if_splits)
  have "seg_inv (upd_header s (\<lambda>h. h\<lparr>bump_ptr := q\<rparr>) (sg st))"
    using assms(1) seg_inv_cong [of "upd_header s (\<lambda>h. h\<lparr>bump_ptr := q\<rparr>) (sg st)" "sg st"] by (simp add: upd_header_def)
  then show ?thesis unfolding e using own assms(2)
    by (auto simp: bump_others_only_def own_bump_def upd_header_def is_managed_def)
qed

section \<open>Invariant\<close>

text \<open>Chunk number \<open>j\<close> of a segment.\<close>

definition chunk_no :: "u32 \<Rightarrow> addr \<Rightarrow> nat \<Rightarrow> nat" where
  "chunk_no sz s j = unat s + 64 + j * unat sz"

definition bump_region :: "Strategy \<Rightarrow> slot_config \<Rightarrow> jit_state \<Rightarrow> addr set \<Rightarrow> addr \<Rightarrow> nat \<Rightarrow> bool" where
  "bump_region strat cfg st live s k \<longleftrightarrow>
     (let slot = tl_bumps st (sc_index cfg)
      in seg_ok s \<and> is_managed s (sg st) \<and> own_bump strat cfg (headers (sg st) s) \<and>
         unat (bs_ptr slot) = chunk_no (sc_size cfg) s k \<and> bs_end slot = segment_end s \<and>
         k * unat (sc_size cfg) \<le> 0x1FFFC0 \<and>
         (\<forall>c \<in> live. \<exists>j < k. unat c = chunk_no (sc_size cfg) s j))"

definition bump_inv :: "Strategy \<Rightarrow> slot_config \<Rightarrow> jit_state \<times> addr set \<Rightarrow> bool" where
  "bump_inv strat cfg s \<longleftrightarrow> (case s of (st, live) \<Rightarrow>
     seg_inv (sg st) \<and>
     (tl_bumps st (sc_index cfg) = \<lparr>bs_ptr = 0, bs_end = 0\<rparr> \<and> live = {} \<or> (\<exists>s k. bump_region strat cfg st live s k)))"

lemma mmap_fresh_index:
  assumes "seg_inv g" and "mmap_fresh env g"
  obtains lo where "os_mmap env = Some lo" and "unat lo + 0x400000 \<le> 2 ^ 47" and "lo \<noteq> 0"
    and "\<forall>a \<in> set (g_index g). \<not> (unat lo \<le> unat a \<and> unat a < unat lo + 0x400000)"
proof -
  obtain lo where lo: "os_mmap env = Some lo" "unat lo + 0x400000 \<le> 2 ^ 47" "lo \<noteq> 0"
    and apart: "\<And>b. seg_ok b \<Longrightarrow> is_managed b g \<Longrightarrow>
      {unat b ..< unat b + 0x200000} \<inter> {unat lo ..< unat lo + 0x400000} = {}"
    using assms(2) unfolding mmap_fresh_def by blast
  have "\<not> (unat lo \<le> unat a \<and> unat a < unat lo + 0x400000)" if "a \<in> set (g_index g)" for a
  proof
    assume "unat lo \<le> unat a \<and> unat a < unat lo + 0x400000"
    then have "unat a \<in> {unat a ..< unat a + 0x200000} \<inter> {unat lo ..< unat lo + 0x400000}" by simp
    moreover have "seg_ok a" "is_managed a g" using assms(1) that by (auto simp: seg_inv_def)
    ultimately show False using apart by blast
  qed
  with lo show ?thesis using that by blast
qed

lemma bump_inv_allocate:
  assumes inv: "bump_inv strat cfg (st, live)" and sz: "0 < unat (sc_size cfg)" "unat (sc_size cfg) \<le> 0x1FFFC0"
    and tid: "os_tid env = sc_tid cfg" and sound: "mmap_sound env (sg st)"
    and al: "bump_alloc strat env (sc_index cfg) (sc_size cfg) st = Some (c, st')"
  shows "bump_inv strat cfg (st', insert c live) \<and> c \<notin> live"
proof -
  let ?i = "sc_index cfg" and ?sz = "sc_size cfg"
  let ?slot = "tl_bumps st ?i"
  have u: "unat (ucast ?sz :: u64) = unat ?sz" by (simp add: unat_ucast_up)
  have si: "seg_inv (sg st)" using inv by (simp add: bump_inv_def)
  show ?thesis
  proof (cases "?slot = \<lparr>bs_ptr = 0, bs_end = 0\<rparr>")
    case True
    then have e: "bump_segment strat env ?i ?sz st = Some (c, st')"
      using al by (simp add: bump_alloc_def)
    have live: "live = {}"
    proof (rule ccontr)
      assume "live \<noteq> {}"
      then obtain s k where "bump_region strat cfg st live s k" using inv by (auto simp: bump_inv_def)
      then have "unat (bs_ptr ?slot) = chunk_no ?sz s k" by (simp add: bump_region_def Let_def)
      then show False using True by (simp add: chunk_no_def)
    qed
    have fresh: "mmap_fresh env (sg st)"
    proof (rule ccontr)
      assume "\<not> ?thesis"
      then have none: "os_mmap env = None" using sound by (simp add: mmap_sound_def)
      then show False using e by (simp add: bump_segment_def alloc_segment_refused [OF none])
    qed
    obtain lo where lo: "os_mmap env = Some lo" "unat lo + 0x400000 \<le> 2 ^ 47" "lo \<noteq> 0"
      "\<forall>a \<in> set (g_index (sg st)). \<not> (unat lo \<le> unat a \<and> unat a < unat lo + 0x400000)"
      by (rule mmap_fresh_index [OF si fresh])
    from bump_segment_ok [OF si lo, of strat ?i ?sz] e obtain s where
      c: "c = payload_start s" and s: "seg_ok s" "seg_inv (sg st')" "is_managed s (sg st')"
      and h: "headers (sg st') = (headers (sg st))(s := (new_header strat ?i (g_slot_to_site st ?i)
        (os_tid env) ?sz s)\<lparr>bump_ptr := payload_start s + ucast ?sz\<rparr>)"
      and t: "tl_bumps st' = (tl_bumps st)(?i := \<lparr>bs_ptr = payload_start s + ucast ?sz, bs_end = segment_end s\<rparr>)"
      by auto
    have p: "unat (payload_start s) = unat s + 64" by (rule unat_payload(1) [OF s(1)])
    have "unat s < 281474976710656" using s(1) by (simp add: seg_ok_def)
    then have "unat (payload_start s + ucast ?sz) = unat s + 64 + unat ?sz"
      using sz(2) p u by (subst unat_add_lem [THEN iffD1]) simp_all
    then have "bump_region strat cfg st' (insert c live) s 1"
      using s h t live c p sz(2) by (simp add: bump_region_def chunk_no_def own_bump_def new_header_def tid)
    then show ?thesis using s(2) live by (auto simp: bump_inv_def)
  next
    case False
    then obtain s k where r: "bump_region strat cfg st live s k" using inv by (auto simp: bump_inv_def)
    then have s: "seg_ok s" and ptr: "unat (bs_ptr ?slot) = unat s + 64 + k * unat ?sz" and e: "bs_end ?slot = segment_end s"
      and k: "k * unat ?sz \<le> 0x1FFFC0" by (simp_all add: bump_region_def chunk_no_def Let_def)
    have "bs_ptr ?slot \<noteq> 0" using ptr by auto
    then have g: "bs_ptr ?slot + ucast ?sz < bs_end ?slot" and c: "c = bs_ptr ?slot" and st': "st' = jit_bump ?i ?sz st"
      using al by (auto simp: bump_alloc_def Let_def split: if_splits)
    have "unat s < 281474976710656" using s by (simp add: seg_ok_def)
    then have n: "unat (bs_ptr ?slot + ucast ?sz) = unat s + 64 + Suc k * unat ?sz"
      using sz(2) ptr u k by (subst unat_add_lem [THEN iffD1]) simp_all
    have "unat (segment_end s) = unat s + 0x200000" by (rule unat_payload(2) [OF s])
    then have "Suc k * unat ?sz \<le> 0x1FFFC0" using g n e by (simp add: word_less_nat_alt)
    moreover have "\<forall>d \<in> insert c live. \<exists>j < Suc k. unat d = unat s + 64 + j * unat ?sz"
      using r ptr c by (auto simp: bump_region_def chunk_no_def Let_def less_Suc_eq)
    ultimately have "bump_region strat cfg st' (insert c live) s (Suc k)"
      using r n by (simp add: bump_region_def chunk_no_def Let_def st' jit_bump_def)
    moreover have "c \<notin> live"
    proof
      assume "c \<in> live"
      then obtain j where "j < k" "unat c = unat s + 64 + j * unat ?sz"
        using r by (auto simp: bump_region_def chunk_no_def Let_def)
      then show False using ptr c sz(1) by simp
    qed
    ultimately show ?thesis using si by (auto simp: bump_inv_def st' jit_bump_def)
  qed
qed

lemma bump_inv_cases:
  assumes "bump_inv strat cfg (st, live)" and "live \<noteq> {}"
  obtains s k where "bump_region strat cfg st live s k"
  using assms by (auto simp: bump_inv_def)

text \<open>
  A free in a BumpAlloc slot changes nothing; in a PairedStack slot the owner's free of the last
  chunk takes the pointer back by one chunk.
\<close>

lemma bump_inv_deallocate:
  assumes inv: "bump_inv strat cfg (st, live)" and sz: "0 < unat (sc_size cfg)" "unat (sc_size cfg) \<le> 0x1FFFC0"
    and p: "p \<in> live" and strat: "strat \<in> {BumpAlloc, PairedStack}"
  shows "bump_inv strat cfg (free_managed env (seg_of p) p st, live - {p})"
proof -
  let ?i = "sc_index cfg" and ?sz = "sc_size cfg"
  let ?slot = "tl_bumps st ?i" and ?st' = "free_managed env (seg_of p) p st"
  have si: "seg_inv (sg st)" using inv by (simp add: bump_inv_def)
  obtain s k where r: "bump_region strat cfg st live s k" using bump_inv_cases [OF inv] p by blast
  then have s: "seg_ok s" and own: "own_bump strat cfg (headers (sg st) s)"
    and ptr: "unat (bs_ptr ?slot) = unat s + 64 + k * unat ?sz"
    and k: "k * unat ?sz \<le> 0x1FFFC0" and pos: "\<forall>c \<in> live. \<exists>j < k. unat c = unat s + 64 + j * unat ?sz"
    by (simp_all add: bump_region_def chunk_no_def Let_def)
  obtain j where j: "j < k" "unat p = unat s + 64 + j * unat ?sz" using pos p by blast
  have "Suc j * unat ?sz \<le> k * unat ?sz" using j(1) by (intro mult_le_mono1) simp
  then have "seg_of p = s" using s j(2) sz k
    by (intro seg_of_eq) (simp_all add: seg_ok_def in_segment_def)
  then have h: "strategy (headers (sg st) (seg_of p)) = strat" "chunk_size (headers (sg st) (seg_of p)) = ?sz"
    "slot_index (headers (sg st) (seg_of p)) = ?i" using own by (auto simp: own_bump_def)
  have less: "bump_region strat cfg st (live - {p}) s k" using r by (auto simp: bump_region_def Let_def)
  show ?thesis
  proof (cases "?st' = st")
    case True
    then show ?thesis using less si by (auto simp: bump_inv_def)
  next
    case False
    let ?st2 = "st\<lparr>tl_bumps := (tl_bumps st)(?i := ?slot\<lparr>bs_ptr := p\<rparr>),
                  sg := upd_header s (\<lambda>h. h\<lparr>bump_ptr := p\<rparr>) (sg st)\<rparr>"
    have e: "?st' = ?st2" and top: "bs_ptr ?slot - ucast ?sz = p"
      using False strat h \<open>seg_of p = s\<close>
      by (auto simp: free_managed_def paired_lifo_rewind_def Let_def split: if_splits)
    have u: "unat (ucast ?sz :: u64) = unat ?sz" by (simp add: unat_ucast_up)
    have "unat ?sz \<le> unat (bs_ptr ?slot)" using ptr j(1) \<open>Suc j * unat ?sz \<le> k * unat ?sz\<close> by simp
    then have "unat p = unat (bs_ptr ?slot) - unat ?sz"
      using top u unat_sub [of "ucast ?sz" "bs_ptr ?slot"] by (simp add: word_le_nat_alt)
    then have "Suc j * unat ?sz = k * unat ?sz" using ptr j(2) \<open>unat ?sz \<le> unat (bs_ptr ?slot)\<close> by simp
    then have kj: "k = Suc j" using sz(1) by (metis mult_cancel2 not_less_zero)
    have rest: "\<exists>l < j. unat c = unat s + 64 + l * unat ?sz" if c: "c \<in> live - {p}" for c
    proof -
      obtain l where l: "l < k" "unat c = unat s + 64 + l * unat ?sz" using pos c by blast
      then have "l \<noteq> j" using j(2) c by (auto simp: word_unat_eq_iff)
      then show ?thesis using l kj by (intro exI [of _ l]) simp
    qed
    have man: "is_managed s (sg ?st2) = is_managed s (sg st)"
      by (simp add: is_managed_def upd_header_def)
    have "own_bump strat cfg (headers (sg ?st2) s)" using own by (simp add: upd_header_def own_bump_def)
    then have "bump_region strat cfg ?st2 (live - {p}) s j"
      using r rest man k kj j(2) unfolding bump_region_def chunk_no_def Let_def by simp
    moreover have "seg_inv (sg ?st2)" using si seg_inv_cong [of "sg ?st2" "sg st"] by (simp add: upd_header_def)
    ultimately show ?thesis unfolding e by (auto simp: bump_inv_def)
  qed
qed

lemma bump_inv_sweep:
  assumes inv: "bump_inv strat cfg (st, live)" and r: "reaper_sweep env mode pred (sg st) = (n, g)"
  shows "bump_inv strat cfg (st\<lparr>sg := g\<rparr>, live)"
proof -
  have si: "seg_inv (sg st)" using inv by (simp add: bump_inv_def)
  obtain dead where d: "seg_inv g"
    and gone: "\<forall>a \<in> dead. retired (headers (sg st) a) \<and> live_chunks (headers (sg st) a) = 0"
    and man: "\<forall>a. seg_ok a \<longrightarrow> a \<notin> dead \<longrightarrow> is_managed a (sg st) \<longrightarrow> is_managed a g"
    and hd: "\<And>a. \<exists>d. headers g a = (headers (sg st) a)\<lparr>decommitted := d\<rparr>"
    using sweep_frame [OF si r] by auto
  have own: "own_bump strat cfg (headers g a) = own_bump strat cfg (headers (sg st) a)" for a
    using hd [of a] by (auto simp: own_bump_def)
  have "bump_region strat cfg (st\<lparr>sg := g\<rparr>) live s k" if "bump_region strat cfg st live s k" for s k
  proof -
    have "s \<notin> dead" using that gone by (auto simp: bump_region_def own_bump_def Let_def)
    then show ?thesis using that man by (simp add: bump_region_def Let_def own)
  qed
  then show ?thesis using inv d by (auto simp: bump_inv_def)
qed

lemma bump_inv_elsewhere:
  assumes "bump_inv strat cfg (st, live)" and "bump_others_only strat cfg st st'"
  shows "bump_inv strat cfg (st', live)"
proof -
  have "bump_region strat cfg st' live s k" if "bump_region strat cfg st live s k" for s k
    using that assms(2) by (auto simp: bump_region_def bump_others_only_def Let_def)
  then show ?thesis using assms unfolding bump_inv_def bump_others_only_def prod.case by metis
qed

lemma bump_inv_step:
  assumes "bump_step strat cfg s s'" and "bump_inv strat cfg s"
    and "0 < unat (sc_size cfg)" and "unat (sc_size cfg) \<le> 0x1FFFC0" and "strat \<in> {BumpAlloc, PairedStack}"
  shows "bump_inv strat cfg s'"
  using assms(1)
proof cases
  case bump_allocate
  then show ?thesis using bump_inv_allocate [OF _ assms(3,4)] assms(2) by blast
next
  case bump_deallocate
  then show ?thesis using bump_inv_deallocate [OF _ assms(3,4)] assms(2,5) by blast
next
  case bump_sweep
  then show ?thesis using bump_inv_sweep assms(2) by blast
next
  case bump_elsewhere
  then show ?thesis using bump_inv_elsewhere assms(2) by blast
qed

definition bump_fresh :: "slot_config \<Rightarrow> jit_state \<Rightarrow> bool" where
  "bump_fresh cfg st \<longleftrightarrow> seg_inv (sg st) \<and> tl_bumps st (sc_index cfg) = \<lparr>bs_ptr = 0, bs_end = 0\<rparr>"

lemma bump_reach_inv:
  assumes "bump_reach strat cfg st0 s" and "bump_fresh cfg st0"
    and "0 < unat (sc_size cfg)" and "unat (sc_size cfg) \<le> 0x1FFFC0" and "strat \<in> {BumpAlloc, PairedStack}"
  shows "bump_inv strat cfg s"
  using assms
proof (induction rule: bump_reach.induct)
  case bump_start
  then show ?case by (simp add: bump_inv_def bump_fresh_def)
next
  case (bump_next s s')
  then show ?case using bump_inv_step by blast
qed

section \<open>Exclusive chunks\<close>

lemma chunk_no_apart:
  assumes "unat c = chunk_no sz s i" and "unat d = chunk_no sz s j" and "c \<noteq> d"
  shows "extent sz c \<inter> extent sz d = {}"
proof -
  have "i \<noteq> j" using assms by (auto simp: word_unat_eq_iff)
  then consider "Suc i \<le> j" | "Suc j \<le> i" by linarith
  then show ?thesis
  proof cases
    case 1
    then have "Suc i * unat sz \<le> j * unat sz" by (rule mult_le_mono1)
    then show ?thesis using assms(1,2) by (auto simp: extent_def chunk_no_def)
  next
    case 2
    then have "Suc j * unat sz \<le> i * unat sz" by (rule mult_le_mono1)
    then show ?thesis using assms(1,2) by (auto simp: extent_def chunk_no_def)
  qed
qed

text \<open>
  C7: After any sequence of allocations by a thread from its BumpAlloc or PairedStack slot, frees of
  its chunks by any thread, sweeps of the reaper, and other work that leaves this thread's copy of the
  slot and the segments it owns for it alone - other slots, and other threads allocating and freeing
  in their own segments of the same site, whose bump pointers those frees take back - a chunk the
  slot hands out overlaps no chunk of this slot the program still holds, also where a PairedStack
  slot has taken its pointer back for chunks that were freed; every chunk held lies behind the header
  of one segment that is still registered, and inside it.
\<close>

theorem bump_chunks_exclusive:
  assumes "bump_fresh cfg st0" and "sc_size cfg \<noteq> 0" and "unat (sc_size cfg) \<le> 0x1FFFC0"
    and "strat \<in> {BumpAlloc, PairedStack}" and "bump_reach strat cfg st0 (st, live)"
    and "os_tid env = sc_tid cfg" and "mmap_sound env (sg st)"
    and "bump_alloc strat env (sc_index cfg) (sc_size cfg) st = Some (c, st')"
  shows "c \<notin> live \<and> (\<forall>d \<in> live. extent (sc_size cfg) c \<inter> extent (sc_size cfg) d = {}) \<and>
    (\<exists>s. is_managed s (sg st') \<and>
      (\<forall>d \<in> insert c live. seg_of d = s \<and> unat s + 64 \<le> unat d \<and> unat d + unat (sc_size cfg) \<le> unat s + 0x200000))"
proof -
  let ?sz = "sc_size cfg"
  have sz: "0 < unat ?sz" using assms(2) by (simp add: unat_gt_0)
  have inv: "bump_inv strat cfg (st, live)" using bump_reach_inv [OF assms(5,1) sz assms(3,4)] .
  have inv': "bump_inv strat cfg (st', insert c live)" and new: "c \<notin> live"
    using bump_inv_allocate [OF inv sz assms(3,6-8)] by simp_all
  obtain s k where r: "bump_region strat cfg st' (insert c live) s k" using bump_inv_cases [OF inv'] by blast
  then have s: "seg_ok s" "is_managed s (sg st')" and k: "k * unat ?sz \<le> 0x1FFFC0"
    and pos: "\<And>d. d \<in> insert c live \<Longrightarrow> \<exists>j < k. unat d = chunk_no ?sz s j"
    unfolding bump_region_def Let_def by blast+
  have "extent ?sz c \<inter> extent ?sz d = {}" if "d \<in> live" for d
    using pos [of c] pos [of d] that new chunk_no_apart by blast
  moreover have "seg_of d = s \<and> unat s + 64 \<le> unat d \<and> unat d + unat ?sz \<le> unat s + 0x200000"
    if d: "d \<in> insert c live" for d
  proof -
    obtain j where j: "j < k" "unat d = chunk_no ?sz s j" using pos [OF d] by blast
    then have "Suc j * unat ?sz \<le> k * unat ?sz" by (intro mult_le_mono1) simp
    then have b: "unat s + 64 \<le> unat d" "unat d + unat ?sz \<le> unat s + 0x200000"
      using j(2) k by (simp_all add: chunk_no_def)
    then have "seg_of d = s" using s(1) sz by (intro seg_of_eq) (simp_all add: seg_ok_def in_segment_def)
    with b show ?thesis by simp
  qed
  ultimately show ?thesis using s(2) new by blast
qed

theorem bump_chunks_exclusive_witness:
  "\<exists>c st c2 st2. bump_reach PairedStack demo_slot demo_jit (st, {c}) \<and>
     bump_alloc PairedStack (demo_mmap 0x20000000) 3 48 st = Some (c2, st2) \<and> extent 48 c2 \<inter> extent 48 c = {}"
proof -
  let ?e = "demo_mmap 0x10000000"
  have z: "tl_bumps demo_jit 3 = \<lparr>bs_ptr = 0, bs_end = 0\<rparr>" by (simp add: demo_jit_def)
  obtain s st where e: "bump_segment PairedStack ?e 3 48 demo_jit = Some (payload_start s, st)" and s: "seg_ok s"
    "0x10000000 \<le> unat s" "unat s < 0x10400000" "set (g_index (sg st)) \<subseteq> insert s (set (g_index (sg demo_jit)))"
    and t: "tl_bumps st = (tl_bumps demo_jit)(3 := \<lparr>bs_ptr = payload_start s + 48, bs_end = segment_end s\<rparr>)"
    and i: "seg_inv (sg st)" and fr: "\<forall>a. seg_ok a \<longrightarrow> a \<noteq> s \<longrightarrow> is_managed a (sg st) = is_managed a (sg demo_jit)"
    using bump_segment_ok [OF demo_jit_inv(1) demo_mapping(1-4), of PairedStack 3 48] demo_mapping by auto
  let ?c = "payload_start s"
  have al: "bump_alloc PairedStack ?e 3 48 demo_jit = Some (?c, st)" using e z by (simp add: bump_alloc_def)
  have f1: "mmap_fresh ?e (sg demo_jit)"
    using demo_mapping demo_unmanaged unfolding mmap_fresh_def by blast
  have r: "bump_reach PairedStack demo_slot demo_jit (st, {?c})"
    using bump_next [OF bump_start bump_allocate] al mmap_fresh_sound [OF f1] by simp
  have un: "a = s" if "seg_ok a" "is_managed a (sg st)" for a
    using fr demo_unmanaged that by blast
  have f2: "mmap_fresh (demo_mmap 0x20000000) (sg st)"
    unfolding mmap_fresh_def using s un
    by (intro exI [of _ "0x20000000"]) (auto simp: demo_mmap_def)
  have p: "unat ?c = unat s + 64" "unat (segment_end s) = unat s + 0x200000" using unat_payload [OF s(1)] .
  have "unat (?c + 48) = unat s + 112" using p s by (subst unat_add_lem [THEN iffD1]) simp_all
  moreover have "unat (96 + ?c) = unat s + 160" using p s by (subst unat_add_lem [THEN iffD1]) simp_all
  ultimately have "bump_alloc PairedStack (demo_mmap 0x20000000) 3 48 st = Some (?c + 48, jit_bump 3 48 st)"
    using t p by (simp add: bump_alloc_def word_less_nat_alt Let_def)
  with bump_chunks_exclusive [OF _ _ _ _ r, of "demo_mmap 0x20000000" "?c + 48"] mmap_fresh_sound [OF f2]
  have "extent 48 (?c + 48) \<inter> extent 48 ?c = {}" using demo_jit_inv(1) z by (simp add: bump_fresh_def)
  with r \<open>bump_alloc PairedStack (demo_mmap 0x20000000) 3 48 st = Some (?c + 48, jit_bump 3 48 st)\<close>
  show ?thesis by blast
qed

section \<open>The emitted bump routine\<close>

definition shows_bump :: "u32 \<Rightarrow> u32 \<Rightarrow> u32 \<Rightarrow> 'e x86_scheme \<Rightarrow> jit_state \<Rightarrow> bool" where
  "shows_bump ptr_off end_off index s st \<longleftrightarrow>
     rd64 (mem s) (fs_at ptr_off s) = bs_ptr (tl_bumps st index) \<and>
     rd64 (mem s) (fs_at end_off s) = bs_end (tl_bumps st index)"

text \<open>
  The emitted routine called with the compiled size does what \<open>bump_alloc\<close> does: within the region
  it returns the chunk and leaves the advanced pointer in memory; on an unset slot it calls the
  first-time handler; otherwise it deoptimises the site.
\<close>

lemma bump_code_simulates:
  assumes code: "is = bump_code buf ptr_off end_off index sz site handler init fallback"
    and "sysv_callee ext" and "entry_ok buf (fs_at ptr_off s) s" and "sz < 0x80000000" and "rdi s = ucast sz"
    and "shows_bump ptr_off end_off index s st"
    and "8 \<le> fs_at end_off s - fs_at ptr_off s" and "8 \<le> fs_at ptr_off s - fs_at end_off s"
  shows "\<exists>r. run 20 ext buf (assemble is) s = Some r \<and>
    (let p = bs_ptr (tl_bumps st index)
     in if p + ucast sz < bs_end (tl_bumps st index)
        then \<exists>s'. r = Returned s' \<and> rax s' = p \<and> returned_to_caller s s' \<and>
          bump_alloc strat env index sz st = Some (p, jit_bump index sz st) \<and>
          shows_bump ptr_off end_off index s' (jit_bump index sz st)
        else if p = 0
        then refills ext init index sz None s r \<and> bump_alloc strat env index sz st = bump_segment strat env index sz st
        else deopts ext handler site buf RegionExhaust fallback s r \<and> bump_alloc strat env index sz st = None)"
proof -
  let ?slot = "tl_bumps st index"
  obtain r where r: "run 20 ext buf (assemble is) s = Some r"
    "bump_spec ext buf ptr_off end_off index sz site handler init fallback s r"
    using sysv_callee.bump_runs [OF assms(2-4) code] by blast
  show ?thesis
  proof (cases "bs_ptr ?slot + ucast sz < bs_end ?slot")
    case False
    then show ?thesis using r assms(5,6)
      by (intro exI [of _ r], cases "bs_ptr ?slot = 0")
        (simp_all add: bump_spec_def shows_bump_def bump_alloc_def Let_def)
  next
    case True
    then have "pops (fs_at ptr_off s) (bs_ptr ?slot) (bs_ptr ?slot + ucast sz) s r"
      using r(2) assms(5,6) by (simp add: bump_spec_def shows_bump_def Let_def)
    then obtain s' where s': "r = Returned s'" "rax s' = bs_ptr ?slot" "returned_to_caller s s'"
      "mem s' = wr64 (mem s) (fs_at ptr_off s) (bs_ptr ?slot + ucast sz)" by (auto simp: pops_def)
    have "fs_at off s' = fs_at off s" for off using s'(3) by (simp add: returned_to_caller_def fs_at_def)
    then have "shows_bump ptr_off end_off index s' (jit_bump index sz st)"
      using assms(6-8) s'(4)
      by (simp add: shows_bump_def jit_bump_def rd64_wr64_same rd64_wr64_disjoint)
    then show ?thesis using r(1) s' True by (intro exI [of _ r]) (simp add: bump_alloc_def Let_def)
  qed
qed

end
