(* ===== verification/Event_Stamp.thy ===== *)
theory Event_Stamp
  imports Trace
begin

text \<open>
  The stamps of an event in \<open>src/src/trace/trace.cpp\<close>: the time stamp counter and the thread's
  number, which the other theories take as arguments.
\<close>

section \<open>The time stamp\<close>

definition rdtsc :: "u32 \<Rightarrow> u32 \<Rightarrow> u64" where
  "rdtsc lo hi = push_bit 32 (ucast hi) OR ucast lo"

lemma rdtsc_halves: "ucast (rdtsc lo hi) = lo" "ucast (drop_bit 32 (rdtsc lo hi)) = hi"
  unfolding rdtsc_def by (rule bit_word_eqI; auto simp: bit_simps dest: bit_imp_le_length; fail)+

section \<open>Thread numbers\<close>

text \<open>\<open>ti_id\<close> is the threads' local variable, unset before a thread's first event.\<close>

record thread_ids =
  ti_counter :: u32
  ti_id :: "nat \<rightharpoonup> u32"

definition thread_ids_start :: thread_ids where
  "thread_ids_start = \<lparr>ti_counter = 0, ti_id = Map.empty\<rparr>"

definition next_thread_id :: "nat \<Rightarrow> thread_ids \<Rightarrow> u32 \<times> thread_ids" where
  "next_thread_id t s =
     (case ti_id s t of
        Some i \<Rightarrow> (i, s)
      | None \<Rightarrow> (ti_counter s, \<lparr>ti_counter = ti_counter s + 1, ti_id = (ti_id s)(t \<mapsto> ti_counter s)\<rparr>))"

lemma dom_next_thread_id: "dom (ti_id (snd (next_thread_id t s))) = insert t (dom (ti_id s))"
  by (auto simp: next_thread_id_def split: option.split)

definition thread_ids_inv :: "thread_ids \<Rightarrow> bool" where
  "thread_ids_inv s \<longleftrightarrow> finite (dom (ti_id s)) \<and> inj_on (ti_id s) (dom (ti_id s)) \<and>
     ti_counter s = of_nat (card (dom (ti_id s))) \<and>
     (\<forall>i \<in> ran (ti_id s). unat i < card (dom (ti_id s)))"

lemma next_thread_id_inv:
  assumes "thread_ids_inv s" and "card (dom (ti_id s)) < 2 ^ 32"
  shows "thread_ids_inv (snd (next_thread_id t s))"
proof (cases "ti_id s t")
  case (Some i)
  then show ?thesis using assms(1) by (simp add: next_thread_id_def)
next
  case None
  let ?n = "card (dom (ti_id s))"
  have n: "unat (ti_counter s) = ?n" using assms by (simp add: thread_ids_inv_def unat_of_nat)
  have "ti_counter s \<notin> ran (ti_id s)" using assms(1) n by (auto simp: thread_ids_inv_def)
  then have "ti_id s x \<noteq> Some (ti_counter s)" for x by (blast intro: ranI)
  then have "inj_on ((ti_id s)(t \<mapsto> ti_counter s)) (insert t (dom (ti_id s)))"
    using assms(1) None by (auto simp: thread_ids_inv_def inj_on_def)
  moreover have "card (insert t (dom (ti_id s))) = Suc ?n"
    using assms(1) None by (simp add: thread_ids_inv_def card_insert_if domIff)
  moreover have "ran ((ti_id s)(t \<mapsto> ti_counter s)) = insert (ti_counter s) (ran (ti_id s))"
    using None by (rule ran_map_upd)
  ultimately show ?thesis
    using assms(1) None n by (auto simp: thread_ids_inv_def next_thread_id_def add.commute less_Suc_eq)
qed

text \<open>
  With at most \<open>2 ^ 32\<close> threads recording, whatever the order of their events, a thread keeps the
  number of its first event and no two threads share one.
\<close>

theorem thread_numbers_distinct:
  assumes "card (set ts) \<le> 2 ^ 32" and "s = fold (\<lambda>t s. snd (next_thread_id t s)) ts thread_ids_start"
    and "t \<in> set ts" and "u \<in> set ts"
  shows "ti_id s t \<noteq> None \<and> snd (next_thread_id t s) = s \<and>
    (fst (next_thread_id t s) = fst (next_thread_id u s) \<longleftrightarrow> t = u)"
proof -
  have "thread_ids_inv s' \<and> dom (ti_id s') = set xs"
    if "card (set xs) \<le> 2 ^ 32" "s' = fold (\<lambda>t s. snd (next_thread_id t s)) xs thread_ids_start" for xs s'
    using that
  proof (induction xs arbitrary: s' rule: rev_induct)
    case Nil
    then show ?case by (simp add: thread_ids_inv_def thread_ids_start_def)
  next
    case (snoc x xs)
    let ?s = "fold (\<lambda>t s. snd (next_thread_id t s)) xs thread_ids_start"
    have "card (set xs) \<le> card (set (xs @ [x]))" by (rule card_mono) auto
    then have i: "thread_ids_inv ?s" "dom (ti_id ?s) = set xs" using snoc.IH [OF _ refl] snoc.prems(1) by simp_all
    have s': "s' = snd (next_thread_id x ?s)" using snoc.prems(2) by simp
    show ?case
    proof (cases "x \<in> set xs")
      case True
      then obtain n where "ti_id ?s x = Some n" using i(2) by blast
      then have "s' = ?s" by (simp add: s' next_thread_id_def)
      then show ?thesis using i True by (simp add: insert_absorb)
    next
      case False
      then have "card (set xs) < 2 ^ 32" using snoc.prems(1) by simp
      then have "thread_ids_inv s'" using next_thread_id_inv [OF i(1)] i(2) s' by simp
      then show ?thesis using i(2) by (simp add: s' dom_next_thread_id)
    qed
  qed
  from this [OF assms(1,2)] have i: "thread_ids_inv s" "dom (ti_id s) = set ts" by simp_all
  obtain a b where ab: "ti_id s t = Some a" "ti_id s u = Some b" using assms(3,4) i(2) by blast
  have "inj_on (ti_id s) (set ts)" using i by (simp add: thread_ids_inv_def)
  from inj_on_eq_iff [OF this assms(3,4)] have "a = b \<longleftrightarrow> t = u" by (simp only: ab option.inject)
  then show ?thesis using ab by (simp add: next_thread_id_def)
qed

end
