(* ===== verification/Workload.thy ===== *)
theory Workload
  imports Double Prelude
begin

text \<open>
  The single-threaded benchmark programs of \<open>src/bench\<close>: \<open>monomorphic\<close>, \<open>bimodal\<close>, \<open>mixed\<close>,
  \<open>pulse\<close>, \<open>hold\<close>, \<open>lifo\<close> and \<open>arena\<close>, over any allocator.  \<open>malloc\<close> and \<open>free\<close> are those of the
  process, libc's or the preloaded library's, so an allocator is an argument; so is the clock.
  \<open>escape\<close> only keeps the compiler from removing the accesses.
\<close>

section \<open>A benchmark process\<close>

record 'h allocator =
  am_malloc :: "u64 \<Rightarrow> 'h \<Rightarrow> addr \<times> 'h"
  am_free :: "addr \<Rightarrow> 'h \<Rightarrow> 'h"

record timespec =
  tv_sec :: int
  tv_nsec :: int

record bench_line =
  bl_label :: string
  bl_ns :: double
  bl_iters :: nat
  bl_extra :: string

record 'h workload =
  wl_heap :: 'h
  wl_bytes :: "addr \<Rightarrow> u8"
  wl_sink :: u64
  wl_clock :: nat
  wl_naps :: "nat list"
  wl_out :: "bench_line list"

text \<open>The ends of a program: \<open>return\<close> or \<open>exit\<close> with a code, or a read through a null pointer.\<close>

datatype halt = Exit int | Null_read

type_synonym 'h run = "(halt \<times> 'h workload) + 'h workload"

text \<open>A piece of a program that also keeps a local value.\<close>

type_synonym ('p, 'h) loop = "'p \<times> 'h workload \<Rightarrow> (halt \<times> 'h workload) + ('p \<times> 'h workload)"

fun for_each :: "('i \<Rightarrow> 's \<Rightarrow> 'e + 's) \<Rightarrow> 'i list \<Rightarrow> 's \<Rightarrow> 'e + 's" where
  "for_each f [] s = Inr s"
| "for_each f (i # is) s = (case f i s of Inl e \<Rightarrow> Inl e | Inr s \<Rightarrow> for_each f is s)"

section \<open>The shared header\<close>

definition g_pattern :: u8 where
  "g_pattern = 0xAB"

definition elapsed_ns :: "timespec \<Rightarrow> timespec \<Rightarrow> double" where
  "elapsed_ns a b =
     rnd (fmul (rnd (of_int (tv_sec b - tv_sec a))) 1000000000 + of_int (tv_nsec b - tv_nsec a))"

definition nap :: "nat \<Rightarrow> 'h workload \<Rightarrow> 'h workload" where
  "nap ns w = w\<lparr>wl_naps := wl_naps w @ [ns]\<rparr>"

definition pace :: "nat \<Rightarrow> 'h workload \<Rightarrow> 'h workload" where
  "pace i w = (if i mod 1024 = 1023 then nap 250000 w else w)"

definition report_line :: "string \<Rightarrow> double \<Rightarrow> nat \<Rightarrow> string \<Rightarrow> 'h workload \<Rightarrow> 'h workload" where
  "report_line label ns iters extra w =
     w\<lparr>wl_out := wl_out w @ [\<lparr>bl_label = label, bl_ns = fdiv ns (d_of_nat iters), bl_iters = iters, bl_extra = extra\<rparr>]\<rparr>"

definition clock_gettime :: "(nat \<Rightarrow> timespec) \<Rightarrow> 'h workload \<Rightarrow> timespec \<times> 'h workload" where
  "clock_gettime clock w = (clock (wl_clock w), w\<lparr>wl_clock := wl_clock w + 1\<rparr>)"

definition memset :: "addr \<Rightarrow> u8 \<Rightarrow> u64 \<Rightarrow> 'h workload \<Rightarrow> 'h workload" where
  "memset p v n w = w\<lparr>wl_bytes := (\<lambda>a. if a - p < n then v else wl_bytes w a)\<rparr>"

definition add_sink :: "u64 \<Rightarrow> 'h workload \<Rightarrow> 'h workload" where
  "add_sink v w = w\<lparr>wl_sink := wl_sink w + v\<rparr>"

definition release :: "'h allocator \<Rightarrow> addr \<Rightarrow> 'h workload \<Rightarrow> 'h workload" where
  "release al p w = w\<lparr>wl_heap := am_free al p (wl_heap w)\<rparr>"

definition obtain_chunk :: "'h allocator \<Rightarrow> u64 \<Rightarrow> 'h workload \<Rightarrow> addr \<times> 'h workload" where
  "obtain_chunk al n w = (case am_malloc al n (wl_heap w) of (p, h) \<Rightarrow> (p, w\<lparr>wl_heap := h\<rparr>))"

text \<open>The body's head in most programs: allocate, end with code 1 on null, fill.\<close>

definition fresh_chunk :: "'h allocator \<Rightarrow> u64 \<Rightarrow> 'h workload \<Rightarrow> (halt \<times> 'h workload) + (addr \<times> 'h workload)" where
  "fresh_chunk al n w =
     (let (p, w) = obtain_chunk al n w
      in if p = 0 then Inl (Exit 1, w) else Inr (p, memset p g_pattern n w))"

definition byte_at :: "'h workload \<Rightarrow> addr \<Rightarrow> u64" where
  "byte_at w a = ucast (wl_bytes w a)"

section \<open>The programs\<close>

definition timed ::
    "(nat \<Rightarrow> timespec) \<Rightarrow> ('p, 'h) loop \<Rightarrow> 'p \<times> 'h workload \<Rightarrow> (halt \<times> 'h workload) + (double \<times> 'p \<times> 'h workload)" where
  "timed clock m = (\<lambda>(s, w).
     let (a, w) = clock_gettime clock w
     in case m (s, w) of
          Inl e \<Rightarrow> Inl e
        | Inr (s, w) \<Rightarrow> let (b, w) = clock_gettime clock w in Inr (elapsed_ns a b, s, w))"

text \<open>Warm-up, measurement and the two lines printed at the end.\<close>

definition two_phases ::
    "(nat \<Rightarrow> timespec) \<Rightarrow> ('p, 'h) loop \<Rightarrow> nat \<Rightarrow> string \<Rightarrow> ('p, 'h) loop \<Rightarrow> nat \<Rightarrow> string \<Rightarrow> ('p, 'h) loop" where
  "two_phases clock warm n x steady m y s =
     (case timed clock warm s of
        Inl e \<Rightarrow> Inl e
      | Inr (t, s) \<Rightarrow>
          (case timed clock steady s of
             Inl e \<Rightarrow> Inl e
           | Inr (u, s, w) \<Rightarrow> Inr (s, report_line ''steady:'' u m y (report_line ''warmup:'' t n x w))))"

text \<open>A loop body that keeps nothing from one iteration to the next, and one that naps in between.\<close>

definition plain :: "('h workload \<Rightarrow> 'h run) \<Rightarrow> (unit, 'h) loop" where
  "plain f = (\<lambda>(u, w). map_sum id (Pair u) (f w))"

definition paced :: "nat \<Rightarrow> ('p, 'h) loop \<Rightarrow> ('p, 'h) loop" where
  "paced i f s = map_sum id (map_prod id (pace i)) (f s)"

definition exit_0 :: "(halt \<times> 'h workload) + ('p \<times> 'h workload) \<Rightarrow> halt \<times> 'h workload" where
  "exit_0 r = (case r of Inl e \<Rightarrow> e | Inr (s, w) \<Rightarrow> (Exit 0, w))"

definition monomorphic_iter :: "'h allocator \<Rightarrow> 'h workload \<Rightarrow> 'h run" where
  "monomorphic_iter al w =
     (case fresh_chunk al 48 w of
        Inl e \<Rightarrow> Inl e
      | Inr (p, w) \<Rightarrow> Inr (release al p (add_sink (byte_at w p + byte_at w (p + 47)) w)))"

definition monomorphic :: "'h allocator \<Rightarrow> (nat \<Rightarrow> timespec) \<Rightarrow> 'h workload \<Rightarrow> halt \<times> 'h workload" where
  "monomorphic al clock w =
     exit_0 (two_phases clock
       (for_each (\<lambda>i. paced i (plain (monomorphic_iter al))) [0..<30000]) 30000 '', 48B, paced''
       (for_each (\<lambda>i. plain (monomorphic_iter al)) [0..<1000000]) 1000000 '', 48B'' ((), w))"

text \<open>One iteration of \<open>bimodal\<close>, \<open>mixed\<close> and \<open>pulse\<close>, for the size it asks for.\<close>

definition churn_iter :: "'h allocator \<Rightarrow> u64 \<Rightarrow> 'h workload \<Rightarrow> 'h run" where
  "churn_iter al sz w =
     (case fresh_chunk al sz w of
        Inl e \<Rightarrow> Inl e
      | Inr (p, w) \<Rightarrow> Inr (release al p (add_sink (byte_at w p) w)))"

definition bimodal_size :: "nat \<Rightarrow> u64" where
  "bimodal_size i = [32, 96] ! (i mod 2)"

definition bimodal :: "'h allocator \<Rightarrow> (nat \<Rightarrow> timespec) \<Rightarrow> 'h workload \<Rightarrow> halt \<times> 'h workload" where
  "bimodal al clock w =
     exit_0 (two_phases clock
       (for_each (\<lambda>i. paced i (plain (churn_iter al (bimodal_size i)))) [0..<30000]) 30000 '', 32/96B alternating, paced''
       (for_each (\<lambda>i. plain (churn_iter al (bimodal_size i))) [0..<1000000]) 1000000 '', 32/96B alternating'' ((), w))"

definition mixed_size :: "nat \<Rightarrow> u64" where
  "mixed_size i = [32, 64, 128] ! (i mod 3)"

definition mixed :: "'h allocator \<Rightarrow> (nat \<Rightarrow> timespec) \<Rightarrow> 'h workload \<Rightarrow> halt \<times> 'h workload" where
  "mixed al clock w =
     exit_0 (two_phases clock
       (for_each (\<lambda>i. paced i (plain (churn_iter al (mixed_size i)))) [0..<30000]) 30000 '', 32/64/128B rotating, paced''
       (for_each (\<lambda>i. plain (churn_iter al (mixed_size i))) [0..<600000]) 600000 '', 32/64/128B rotating'' ((), w))"

definition run_one_burst :: "'h allocator \<Rightarrow> (unit, 'h) loop" where
  "run_one_burst al = for_each (\<lambda>i. plain (churn_iter al 48)) [0..<200]"

text \<open>The second loop adds up the times of the bursts alone.\<close>

definition pulse_burst :: "'h allocator \<Rightarrow> (nat \<Rightarrow> timespec) \<Rightarrow> (double, 'h) loop" where
  "pulse_burst al clock = (\<lambda>(ns, w).
     case timed clock (run_one_burst al) ((), w) of
       Inl e \<Rightarrow> Inl e
     | Inr (t, u, w) \<Rightarrow> Inr (fadd ns t, nap 500000 w))"

definition pulse :: "'h allocator \<Rightarrow> (nat \<Rightarrow> timespec) \<Rightarrow> 'h workload \<Rightarrow> halt \<times> 'h workload" where
  "pulse al clock w =
     exit_0 (case timed clock (for_each (\<lambda>b s. map_sum id (map_prod id (nap 500000)) (run_one_burst al s)) [0..<50]) ((), w) of
        Inl e \<Rightarrow> Inl e
      | Inr (t, u, w) \<Rightarrow>
          (case for_each (\<lambda>b. pulse_burst al clock) [0..<5000] (0, w) of
             Inl e \<Rightarrow> Inl e
           | Inr (ns, w) \<Rightarrow>
               Inr (u, report_line ''steady:'' ns (5000 * 200) '', 48B bursts of 200, 500us quiet (excludes idle)''
                 (report_line ''warmup:'' (fsub t (50 * 500000)) (50 * 200) '', 48B bursts of 200, 500us quiet'' w))))"

text \<open>\<open>hold\<close> pushes every chunk to \<open>kept\<close> and frees them after the last line.\<close>

definition hold_iter :: "'h allocator \<Rightarrow> (addr list, 'h) loop" where
  "hold_iter al = (\<lambda>(kept, w).
     case fresh_chunk al 48 w of
       Inl e \<Rightarrow> Inl e
     | Inr (p, w) \<Rightarrow> Inr (kept @ [p], add_sink (byte_at w p) w))"

definition hold :: "'h allocator \<Rightarrow> (nat \<Rightarrow> timespec) \<Rightarrow> 'h workload \<Rightarrow> halt \<times> 'h workload" where
  "hold al clock w =
     exit_0 (map_sum id (\<lambda>(kept, w). (kept, fold (release al) kept w))
       (two_phases clock
         (for_each (\<lambda>i. paced i (hold_iter al)) [0..<30000]) 30000 '', 48B, no-free, paced''
         (for_each (\<lambda>i. hold_iter al) [0..<500000]) 500000 '', 48B, no-free'' ([], w)))"

definition do_alloc :: "'h allocator \<Rightarrow> 'h workload \<Rightarrow> addr \<times> 'h workload" where
  "do_alloc al w =
     (let (p, w) = obtain_chunk al 48 w in (p, if p = 0 then w else memset p g_pattern 48 w))"

definition lifo_take :: "'h allocator \<Rightarrow> nat \<Rightarrow> (addr list, 'h) loop" where
  "lifo_take al d = (\<lambda>(stack, w).
     let (p, w) = do_alloc al w
     in if p = 0 then Inl (Null_read, w) else Inr (stack[d := p], add_sink (byte_at w p) w))"

definition one_cycle :: "'h allocator \<Rightarrow> (addr list, 'h) loop" where
  "one_cycle al s =
     map_sum id (\<lambda>(stack, w). (stack, fold (\<lambda>d. release al (stack ! d)) (rev [0..<8]) w))
       (for_each (lifo_take al) [0..<8] s)"

text \<open>The local arrays \<open>stack\<close> and \<open>batch\<close> start with unknown contents.\<close>

definition lifo :: "'h allocator \<Rightarrow> (nat \<Rightarrow> timespec) \<Rightarrow> addr list \<Rightarrow> 'h workload \<Rightarrow> halt \<times> 'h workload" where
  "lifo al clock stack w =
     exit_0 (two_phases clock
       (for_each (\<lambda>c. paced c (one_cycle al)) [0..<4000]) (4000 * 8 * 2) '', nested LIFO depth 8, paced''
       (for_each (\<lambda>c. one_cycle al) [0..<100000]) (100000 * 8 * 2) '', nested LIFO depth 8'' (stack, w))"

definition arena_take :: "'h allocator \<Rightarrow> nat \<Rightarrow> (addr list, 'h) loop" where
  "arena_take al i = (\<lambda>(batch, w).
     case fresh_chunk al 48 w of
       Inl e \<Rightarrow> Inl e
     | Inr (p, w) \<Rightarrow> Inr (batch[i := p], add_sink (byte_at w p) w))"

definition arena_cycle :: "'h allocator \<Rightarrow> (addr list, 'h) loop" where
  "arena_cycle al s =
     map_sum id (\<lambda>(batch, w). (batch, fold (\<lambda>i. release al (batch ! i)) [0..<200] w))
       (for_each (arena_take al) [0..<200] s)"

definition arena :: "'h allocator \<Rightarrow> (nat \<Rightarrow> timespec) \<Rightarrow> addr list \<Rightarrow> 'h workload \<Rightarrow> halt \<times> 'h workload" where
  "arena al clock batch w =
     exit_0 (two_phases clock
       (for_each (\<lambda>c. paced c (arena_cycle al)) [0..<100]) (100 * 200) '', 48B batches of 200, paced''
       (for_each (\<lambda>c. arena_cycle al) [0..<5000]) (5000 * 200) '', 48B batches of 200'' (batch, w))"

section \<open>All programs\<close>

datatype program =
    Bench_monomorphic | Bench_bimodal | Bench_mixed | Bench_pulse | Bench_hold | Bench_lifo | Bench_arena

text \<open>\<open>scratch\<close> is the unknown contents of the local array that \<open>lifo\<close> and \<open>arena\<close> declare.\<close>

primrec run_program :: "program \<Rightarrow> 'h allocator \<Rightarrow> (nat \<Rightarrow> timespec) \<Rightarrow> addr list \<Rightarrow> 'h workload \<Rightarrow> halt \<times> 'h workload" where
  "run_program Bench_monomorphic al clock scratch = monomorphic al clock"
| "run_program Bench_bimodal al clock scratch = bimodal al clock"
| "run_program Bench_mixed al clock scratch = mixed al clock"
| "run_program Bench_pulse al clock scratch = pulse al clock"
| "run_program Bench_hold al clock scratch = hold al clock"
| "run_program Bench_lifo al clock scratch = lifo al clock scratch"
| "run_program Bench_arena al clock scratch = arena al clock scratch"

primrec scratch_length :: "program \<Rightarrow> nat" where
  "scratch_length Bench_monomorphic = 0"
| "scratch_length Bench_bimodal = 0"
| "scratch_length Bench_mixed = 0"
| "scratch_length Bench_pulse = 0"
| "scratch_length Bench_hold = 0"
| "scratch_length Bench_lifo = 8"
| "scratch_length Bench_arena = 200"

primrec request_sizes :: "program \<Rightarrow> u64 set" where
  "request_sizes Bench_monomorphic = {48}"
| "request_sizes Bench_bimodal = {32, 96}"
| "request_sizes Bench_mixed = {32, 64, 128}"
| "request_sizes Bench_pulse = {48}"
| "request_sizes Bench_hold = {48}"
| "request_sizes Bench_lifo = {48}"
| "request_sizes Bench_arena = {48}"

text \<open>The bytes read: \<open>0xAB\<close> once per chunk, in \<open>monomorphic\<close> twice.\<close>

primrec sink_total :: "program \<Rightarrow> u64" where
  "sink_total Bench_monomorphic = 1030000 * 342"
| "sink_total Bench_bimodal = 1030000 * 171"
| "sink_total Bench_mixed = 630000 * 171"
| "sink_total Bench_pulse = 1010000 * 171"
| "sink_total Bench_hold = 530000 * 171"
| "sink_total Bench_lifo = 832000 * 171"
| "sink_total Bench_arena = 1020000 * 171"

text \<open>How a program ends when \<open>malloc\<close> answers null: only \<open>lifo\<close> does not ask.\<close>

definition on_refusal :: "program \<Rightarrow> halt" where
  "on_refusal prog = (if prog = Bench_lifo then Null_read else Exit 1)"

section \<open>Loops\<close>

definition results :: "('e \<Rightarrow> bool) \<Rightarrow> ('s \<Rightarrow> bool) \<Rightarrow> 'e + 's \<Rightarrow> bool" where
  "results Q P r \<longleftrightarrow> (case r of Inl e \<Rightarrow> Q e | Inr s \<Rightarrow> P s)"

lemma results_simps [simp]: "results Q P (Inl e) = Q e" "results Q P (Inr s) = P s"
  by (simp_all add: results_def)

lemma results_map: "results Q P (map_sum id f r) = results Q (\<lambda>s. P (f s)) r"
  by (cases r) simp_all

lemma results_mono: "results Q P r \<Longrightarrow> (\<And>s. P s \<Longrightarrow> P' s) \<Longrightarrow> results Q P' r"
  by (cases r) simp_all

text \<open>An assertion that counts the iterations done.\<close>

lemma for_each_count:
  assumes "\<And>i s. m \<le> i \<Longrightarrow> i < n \<Longrightarrow> P i s \<Longrightarrow> results Q (P (Suc i)) (f i s)" and "m \<le> n" and "P m s"
  shows "results Q (P n) (for_each f [m..<n] s)"
  using assms
proof (induction "n - m" arbitrary: m s)
  case 0
  then show ?case by simp
next
  case (Suc k)
  have r: "results Q (P (Suc m)) (f m s)" using Suc.prems(1) [of m s] Suc.prems(3) Suc.hyps(2) by simp
  have "[m..<n] = m # [Suc m..<n]" using Suc.hyps(2) by (simp add: upt_conv_Cons)
  moreover have "results Q (P n) (for_each f [Suc m..<n] s')" if "P (Suc m) s'" for s'
    using Suc.hyps(1) [of "Suc m" s'] Suc.hyps(2) Suc.prems(1) that by simp
  ultimately show ?case using r by (cases "f m s") simp_all
qed

section \<open>Any allocator that keeps its contract\<close>

text \<open>
  What the programs rely on: a chunk given out is none that is in use, a freed one is in use no
  more, and null is answered only in a state in which the allocator may refuse.
\<close>

locale heap_contract =
  fixes al :: "'h allocator"
    and sizes :: "u64 set"
    and ok :: "'h \<Rightarrow> bool"
    and live :: "'h \<Rightarrow> addr set"
    and may_refuse :: "'h \<Rightarrow> bool"
  assumes malloc_law: "ok h \<Longrightarrow> n \<in> sizes \<Longrightarrow> am_malloc al n h = (p, h') \<Longrightarrow>
      ok h' \<and> (if p = 0 then may_refuse h' \<and> live h' = live h else p \<notin> live h \<and> live h' = insert p (live h))"
    and free_law: "ok h \<Longrightarrow> p \<in> live h \<Longrightarrow> ok (am_free al p h) \<and> live (am_free al p h) = live h - {p}"
begin

text \<open>The process holds the chunks \<open>L\<close>, has printed nothing and added \<open>v\<close> to the sink since \<open>w0\<close>.\<close>

definition holds :: "'h workload \<Rightarrow> addr set \<Rightarrow> u64 \<Rightarrow> 'h workload \<Rightarrow> bool" where
  "holds w0 L v w \<longleftrightarrow> ok (wl_heap w) \<and> live (wl_heap w) = L \<and> wl_sink w = wl_sink w0 + v \<and> wl_out w = wl_out w0"

definition refused :: "halt \<Rightarrow> halt \<times> 'h workload \<Rightarrow> bool" where
  "refused h e \<longleftrightarrow> may_refuse (wl_heap (snd e)) \<and> ok (wl_heap (snd e)) \<and> fst e = h"

lemma holds_quiet [simp]:
  "holds w0 L v (nap ns w) = holds w0 L v w" "holds w0 L v (pace i w) = holds w0 L v w"
  "holds w0 L v (snd (clock_gettime clock w)) = holds w0 L v w"
  by (simp_all add: holds_def nap_def pace_def clock_gettime_def)

lemma holds_sink: "holds w0 L v w \<Longrightarrow> holds w0 L (v + x) (add_sink x w)"
  by (simp add: holds_def add_sink_def)

lemma holds_release: "holds w0 L v w \<Longrightarrow> p \<in> L \<Longrightarrow> holds w0 (L - {p}) v (release al p w)"
  using free_law by (auto simp: holds_def release_def)

lemma holds_obtain:
  assumes "holds w0 L v w" and "n \<in> sizes" and "obtain_chunk al n w = (p, w')"
  shows "ok (wl_heap w')" and "p = 0 \<Longrightarrow> may_refuse (wl_heap w')"
    and "p \<noteq> 0 \<Longrightarrow> p \<notin> L \<and> holds w0 (insert p L) v w'"
proof -
  obtain h where h: "am_malloc al n (wl_heap w) = (p, h)" "w' = w\<lparr>wl_heap := h\<rparr>"
    using assms(3) by (auto simp: obtain_chunk_def split: prod.splits)
  have l: "ok (wl_heap w)" using assms(1) by (simp add: holds_def)
  note m = malloc_law [OF l assms(2) h(1)]
  show "ok (wl_heap w')" using m h(2) by simp
  show "p = 0 \<Longrightarrow> may_refuse (wl_heap w')" using m h(2) by simp
  show "p \<noteq> 0 \<Longrightarrow> p \<notin> L \<and> holds w0 (insert p L) v w'"
    using m h(2) assms(1) by (simp add: holds_def)
qed

lemma memset_bytes: "k < n \<Longrightarrow> byte_at (memset p v n w) (p + k) = ucast v"
  by (simp add: byte_at_def memset_def)

lemma holds_memset: "holds w0 L v (memset p b n w) = holds w0 L v w"
  by (simp add: holds_def memset_def)

lemma holds_fresh:
  assumes "holds w0 L v w" and "n \<in> sizes"
  shows "results (refused (Exit 1)) (\<lambda>(p, w'). p \<notin> L \<and> holds w0 (insert p L) v w' \<and> (\<forall>k < n. byte_at w' (p + k) = 171))
    (fresh_chunk al n w)"
proof -
  obtain p w' where o: "obtain_chunk al n w = (p, w')" by fastforce
  note h = holds_obtain [OF assms o]
  show ?thesis
  proof (cases "p = 0")
    case True
    have "refused (Exit 1) (Exit 1, w')" unfolding refused_def using h(1) h(2) [OF True] by simp
    then show ?thesis using True by (simp add: fresh_chunk_def o)
  next
    case False
    then show ?thesis using h(3) by (simp add: fresh_chunk_def o memset_bytes holds_memset g_pattern_def)
  qed
qed

lemma churn_iter_holds:
  assumes "holds w0 {} v w" and "n \<in> sizes" and "0 < n"
  shows "results (refused (Exit 1)) (holds w0 {} (v + 171)) (churn_iter al n w)"
  using holds_fresh [OF assms(1,2)] assms(3) holds_release [of w0 _ "v + 171"] holds_sink
  by (cases "fresh_chunk al n w") (force simp: churn_iter_def)+

text \<open>Between two iterations: the local value \<open>s\<close> is as expected and accounts for the chunks held.\<close>

definition stage :: "'h workload \<Rightarrow> ('p \<Rightarrow> bool) \<Rightarrow> ('p \<Rightarrow> addr set) \<Rightarrow> u64 \<Rightarrow> 'p \<times> 'h workload \<Rightarrow> bool" where
  "stage w0 S L v sw \<longleftrightarrow> S (fst sw) \<and> holds w0 (L (fst sw)) v (snd sw)"

definition printed :: "'h workload \<Rightarrow> addr set \<Rightarrow> u64 \<Rightarrow> 'h workload \<Rightarrow> bool" where
  "printed w0 L v w \<longleftrightarrow> ok (wl_heap w) \<and> live (wl_heap w) = L \<and> wl_sink w = wl_sink w0 + v \<and>
     map bl_label (wl_out w) = map bl_label (wl_out w0) @ [''warmup:'', ''steady:'']"

definition completes :: "halt \<Rightarrow> 'h workload \<Rightarrow> u64 \<Rightarrow> halt \<times> 'h workload \<Rightarrow> bool" where
  "completes h w0 v e \<longleftrightarrow> fst e = Exit 0 \<and> printed w0 {} v (snd e) \<or> refused h e"

lemma stage_loop:
  assumes step: "\<And>i v s. stage w0 S L v s \<Longrightarrow> results (refused h) (stage w0 S L (v + x)) (f i s)" and "stage w0 S L v s"
  shows "results (refused h) (stage w0 S L (v + of_nat n * x)) (for_each f [0..<n] s)"
proof (rule for_each_count [where P = "\<lambda>i. stage w0 S L (v + of_nat i * x)"])
  show "results (refused h) (stage w0 S L (v + of_nat (Suc i) * x)) (f i s)"
    if "stage w0 S L (v + of_nat i * x) s" for i s
    using step [OF that, of i] by (simp add: algebra_simps)
qed (use assms(2) in simp_all)

lemma stage_paced:
  assumes "results (refused h) (stage w0 S L v) (f s)"
  shows "results (refused h) (stage w0 S L v) (paced i f s)"
  using assms by (cases "f s") (simp_all add: paced_def stage_def)

lemma stage_timed:
  assumes "\<And>s. stage w0 S L v s \<Longrightarrow> results (refused h) (stage w0 S' L' v') (m s)" and "stage w0 S L v s"
  shows "results (refused h) (\<lambda>(t, s). stage w0 S' L' v' s) (timed clock m s)"
proof -
  obtain p w where s: "s = (p, w)" by fastforce
  have "stage w0 S L v (p, w\<lparr>wl_clock := wl_clock w + 1\<rparr>)" using assms(2) s by (simp add: stage_def holds_def)
  from assms(1) [OF this] show ?thesis
    by (cases "m (p, w\<lparr>wl_clock := wl_clock w + 1\<rparr>)")
      (auto simp: s timed_def clock_gettime_def stage_def holds_def)
qed

lemma holds_reports:
  "holds w0 L v w \<Longrightarrow> printed w0 L v (report_line ''steady:'' u m y (report_line ''warmup:'' t n x w))"
  by (simp add: holds_def printed_def report_line_def)

lemma two_phases_stage:
  assumes step: "\<And>i v s. stage w0 S L v s \<Longrightarrow> results (refused h) (stage w0 S L (v + x)) (f i s)"
    and "S p" and "holds w0 (L p) 0 w0"
  shows "results (refused h) (\<lambda>(s, w). S s \<and> printed w0 (L s) (of_nat (n + m) * x) w)
    (two_phases clock (for_each (\<lambda>i. paced i (f i)) [0..<n]) N xs (for_each f [0..<m]) M ys (p, w0))"
proof -
  have 1: "results (refused h) (\<lambda>(t, s). stage w0 S L (of_nat n * x) s)
      (timed clock (for_each (\<lambda>i. paced i (f i)) [0..<n]) (p, w0))"
  proof (rule stage_timed)
    show "stage w0 S L 0 (p, w0)" using assms(2,3) by (simp add: stage_def)
    show "results (refused h) (stage w0 S L (of_nat n * x)) (for_each (\<lambda>i. paced i (f i)) [0..<n] s)"
      if "stage w0 S L 0 s" for s
      using stage_loop [where f = "\<lambda>i. paced i (f i)" and n = n, OF stage_paced [OF step] that] by simp
  qed
  have 2: "results (refused h) (\<lambda>(t, s). stage w0 S L (of_nat (n + m) * x) s) (timed clock (for_each f [0..<m]) s)"
    if "stage w0 S L (of_nat n * x) s" for s
  proof (rule stage_timed [OF _ that])
    show "results (refused h) (stage w0 S L (of_nat (n + m) * x)) (for_each f [0..<m] s)"
      if "stage w0 S L (of_nat n * x) s" for s
      using stage_loop [where n = m, OF step that] by (simp add: algebra_simps)
  qed
  show ?thesis
  proof (cases "timed clock (for_each (\<lambda>i. paced i (f i)) [0..<n]) (p, w0)")
    case (Inl e)
    then show ?thesis using 1 by (simp add: two_phases_def)
  next
    case (Inr r)
    obtain t s where r: "r = (t, s)" by (cases r)
    then have "results (refused h) (\<lambda>(t, s). stage w0 S L (of_nat (n + m) * x) s) (timed clock (for_each f [0..<m]) s)"
      using 1 2 Inr by simp
    then show ?thesis using Inr r holds_reports
      by (cases "timed clock (for_each f [0..<m]) s") (auto simp: two_phases_def stage_def)
  qed
qed

lemma completes_exit:
  assumes "results (refused h) (\<lambda>(s, w). printed w0 {} v w) r"
  shows "completes h w0 v (exit_0 r)"
  using assms by (cases r) (auto simp: exit_0_def completes_def)

lemma stage_plain:
  assumes "holds w0 {} v w \<Longrightarrow> results (refused h) (holds w0 {} v') (f w)" and "stage w0 S (\<lambda>_. {}) v (u, w)"
  shows "results (refused h) (stage w0 S (\<lambda>_. {}) v') (plain f (u, w))"
  using assms by (cases "f w") (simp_all add: stage_def plain_def)

lemma churn_completes:
  assumes "\<And>i v w. holds w0 {} v w \<Longrightarrow> results (refused h) (holds w0 {} (v + x)) (f i w)" and "holds w0 {} 0 w0"
  shows "completes h w0 (of_nat (n + m) * x)
    (exit_0 (two_phases clock (for_each (\<lambda>i. paced i (plain (f i))) [0..<n]) N xs
       (for_each (\<lambda>i. plain (f i)) [0..<m]) M ys ((), w0)))"
proof -
  have "results (refused h) (stage w0 (\<lambda>_. True) (\<lambda>_. {}) (v + x)) (plain (f i) s)"
    if "stage w0 (\<lambda>_. True) (\<lambda>_. {}) v s" for i v s
    using stage_plain [OF assms(1)] that by (cases s) simp
  from two_phases_stage [OF this, where p = "()" and n = n and m = m] show ?thesis
    using assms(2) by (intro completes_exit) simp
qed

lemma fold_release:
  "distinct ps \<Longrightarrow> set ps \<subseteq> L \<Longrightarrow> holds w0 L v w \<Longrightarrow> holds w0 (L - set ps) v (fold (release al) ps w)"
proof (induction ps arbitrary: L w)
  case Nil
  then show ?case by simp
next
  case (Cons p ps)
  have "holds w0 (L - {p}) v (release al p w)" using Cons.prems holds_release by simp
  moreover have "set ps \<subseteq> L - {p}" using Cons.prems by auto
  moreover have "L - {p} - set ps = L - set (p # ps)" by auto
  ultimately show ?case using Cons.IH [of "L - {p}" "release al p w"] Cons.prems(1) by simp
qed

text \<open>A cycle that fills an array of \<open>k\<close> chunks one index after the other.\<close>

lemma fill_array:
  assumes g: "\<And>d ps w v L. holds w0 L v w \<Longrightarrow>
      results (refused h) (\<lambda>(ps', w'). \<exists>p. p \<notin> L \<and> ps' = ps[d := p] \<and> holds w0 (insert p L) (v + x) w') (g d (ps, w))"
    and "length ps = k" and "holds w0 {} v w"
  shows "results (refused h) (\<lambda>(ps, w). length ps = k \<and> distinct ps \<and> holds w0 (set ps) (v + of_nat k * x) w)
    (for_each g [0..<k] (ps, w))"
proof -
  define P where "P d = (\<lambda>(qs, w'). length qs = k \<and> distinct (take d qs) \<and> holds w0 (set (take d qs)) (v + of_nat d * x) w')" for d
  have "results (refused h) (P k) (for_each g [0..<k] (ps, w))"
  proof (rule for_each_count)
    fix d s
    assume d: "d < k" and p: "P d s"
    obtain qs w' where s: "s = (qs, w')" by fastforce
    have q: "length qs = k" "distinct (take d qs)" "holds w0 (set (take d qs)) (v + of_nat d * x) w'"
      using p by (simp_all add: P_def s)
    have "P (Suc d) s'" if "case s' of (ps', w') \<Rightarrow> \<exists>p. p \<notin> set (take d qs) \<and> ps' = qs[d := p] \<and>
        holds w0 (insert p (set (take d qs))) (v + of_nat d * x + x) w'" for s'
      using that q d by (auto simp: P_def take_Suc_conv_app_nth algebra_simps)
    then show "results (refused h) (P (Suc d)) (g d s)" unfolding s using results_mono [OF g [OF q(3)]] by blast
  qed (use assms(2,3) in \<open>simp_all add: P_def\<close>)
  then show ?thesis by (rule results_mono) (auto simp: P_def)
qed

lemma arena_take_holds:
  assumes "48 \<in> sizes" and "holds w0 L v w"
  shows "results (refused (Exit 1)) (\<lambda>(ps', w'). \<exists>p. p \<notin> L \<and> ps' = ps[d := p] \<and> holds w0 (insert p L) (v + 171) w')
    (arena_take al d (ps, w))"
proof -
  have "results (refused (Exit 1)) (\<lambda>(p, w'). p \<notin> L \<and> holds w0 (insert p L) (v + 171) (add_sink (byte_at w' p) w')) (fresh_chunk al 48 w)"
  proof (rule results_mono [OF holds_fresh [OF assms(2,1)]])
    fix s
    assume "case s of (p, w') \<Rightarrow> p \<notin> L \<and> holds w0 (insert p L) v w' \<and> (\<forall>k < 48. byte_at w' (p + k) = 171)"
    then obtain p w' where s: "s = (p, w')" "p \<notin> L" and h: "holds w0 (insert p L) v w'"
      and b: "\<forall>k < 48. byte_at w' (p + k) = 171" by (cases s) simp
    have "byte_at w' p = 171" using b [rule_format, of 0] by simp
    then show "case s of (p, w') \<Rightarrow> p \<notin> L \<and> holds w0 (insert p L) (v + 171) (add_sink (byte_at w' p) w')"
      using holds_sink [OF h, of 171] s by simp
  qed
  then show ?thesis by (cases "fresh_chunk al 48 w") (auto simp: arena_take_def)
qed

lemma lifo_take_holds:
  assumes "48 \<in> sizes" and "holds w0 L v w"
  shows "results (refused Null_read) (\<lambda>(ps', w'). \<exists>p. p \<notin> L \<and> ps' = ps[d := p] \<and> holds w0 (insert p L) (v + 171) w')
    (lifo_take al d (ps, w))"
proof -
  obtain p w' where o: "obtain_chunk al 48 w = (p, w')" by fastforce
  note h = holds_obtain [OF assms(2,1) o]
  show ?thesis
  proof (cases "p = 0")
    case True
    have "refused Null_read (Null_read, w')" unfolding refused_def using h(1) h(2) [OF True] by simp
    then show ?thesis using True by (simp add: lifo_take_def do_alloc_def o)
  next
    case False
    then have "holds w0 (insert p L) v (memset p 171 48 w')" using h(3) by (simp add: holds_memset)
    from holds_sink [OF this, of 171] False h(3) show ?thesis using memset_bytes [of 0 48 p 171 w']
      by (auto simp: lifo_take_def do_alloc_def o g_pattern_def)
  qed
qed

lemma cycle_stage:
  assumes "\<And>d ps w v L. holds w0 L v w \<Longrightarrow>
      results (refused h) (\<lambda>(ps', w'). \<exists>p. p \<notin> L \<and> ps' = ps[d := p] \<and> holds w0 (insert p L) (v + x) w') (g d (ps, w))"
    and "stage w0 (\<lambda>ps. length ps = k) (\<lambda>_. {}) v s"
    and free: "\<And>ps w. length ps = k \<Longrightarrow> \<exists>qs. set qs = set ps \<and> length qs = k \<and> r ps w = fold (release al) qs w"
  shows "results (refused h) (stage w0 (\<lambda>ps. length ps = k) (\<lambda>_. {}) (v + of_nat k * x))
    (map_sum id (\<lambda>(ps, w). (ps, r ps w)) (for_each g [0..<k] s))"
proof -
  obtain ps w where s: "s = (ps, w)" by fastforce
  have "results (refused h) (\<lambda>(ps, w). length ps = k \<and> distinct ps \<and> holds w0 (set ps) (v + of_nat k * x) w) (for_each g [0..<k] s)"
    using fill_array [where g = g and k = k and ps = ps and v = v and w = w, OF assms(1)] assms(2) by (simp add: s stage_def)
  then show ?thesis unfolding results_map
  proof (rule results_mono, clarify)
    fix qs w'
    assume q: "k = length qs" "distinct qs" "holds w0 (set qs) (v + of_nat (length qs) * x) w'"
    obtain us where u: "set us = set qs" "length us = k" "r qs w' = fold (release al) us w'" using free q(1) by metis
    then have "distinct us" using q(1,2) by (metis card_distinct distinct_card)
    then have "holds w0 {} (v + of_nat (length qs) * x) (r qs w')" using fold_release [OF _ _ q(3), of us] u by simp
    then show "stage w0 (\<lambda>ps. length ps = length qs) (\<lambda>_. {}) (v + of_nat (length qs) * x) (qs, r qs w')"
      by (simp add: stage_def)
  qed
qed

lemma fold_nth: "length ps = k \<Longrightarrow> fold (\<lambda>i. f (ps ! i)) [0..<k] w = fold f ps w"
  using map_nth [of ps] fold_map [of f "nth ps" "[0..<k]"] by (simp add: comp_def)

lemma fold_nth_rev: "length ps = k \<Longrightarrow> fold (\<lambda>i. f (ps ! i)) (rev [0..<k]) w = fold f (rev ps) w"
  using map_nth [of ps] fold_map [of f "nth ps" "rev [0..<k]"] by (simp add: comp_def rev_map [symmetric] del: rev_map)

lemma arena_cycle_stage:
  assumes "48 \<in> sizes" and "stage w0 (\<lambda>ps. length ps = 200) (\<lambda>_. {}) v s"
  shows "results (refused (Exit 1)) (stage w0 (\<lambda>ps. length ps = 200) (\<lambda>_. {}) (v + 34200)) (arena_cycle al s)"
proof -
  have "\<exists>qs. set qs = set ps \<and> length qs = 200 \<and> fold (\<lambda>i. release al (ps ! i)) [0..<200] w = fold (release al) qs w"
    if "length ps = 200" for ps w
    using fold_nth [OF that] that by (intro exI [of _ ps]) (simp del: upt.simps)
  from cycle_stage [where g = "arena_take al", OF arena_take_holds [OF assms(1)] assms(2) this]
  have "results (refused (Exit 1)) (stage w0 (\<lambda>ps. length ps = 200) (\<lambda>_. {}) (v + of_nat 200 * 171)) (arena_cycle al s)"
    unfolding arena_cycle_def .
  then show ?thesis by simp
qed

lemma one_cycle_stage:
  assumes "48 \<in> sizes" and "stage w0 (\<lambda>ps. length ps = 8) (\<lambda>_. {}) v s"
  shows "results (refused Null_read) (stage w0 (\<lambda>ps. length ps = 8) (\<lambda>_. {}) (v + 1368)) (one_cycle al s)"
proof -
  have "\<exists>qs. set qs = set ps \<and> length qs = 8 \<and> fold (\<lambda>i. release al (ps ! i)) (rev [0..<8]) w = fold (release al) qs w"
    if "length ps = 8" for ps w
    using fold_nth_rev [OF that] that by (intro exI [of _ "rev ps"]) (simp del: upt.simps)
  from cycle_stage [where g = "lifo_take al", OF lifo_take_holds [OF assms(1)] assms(2) this]
  have "results (refused Null_read) (stage w0 (\<lambda>ps. length ps = 8) (\<lambda>_. {}) (v + of_nat 8 * 171)) (one_cycle al s)"
    unfolding one_cycle_def .
  then show ?thesis by simp
qed

lemma cycles_complete:
  assumes "\<And>i v s. stage w0 S (\<lambda>_. {}) v s \<Longrightarrow> results (refused h) (stage w0 S (\<lambda>_. {}) (v + x)) (f i s)"
    and "S p" and "holds w0 {} 0 w0"
  shows "completes h w0 (of_nat (n + m) * x)
    (exit_0 (two_phases clock (for_each (\<lambda>i. paced i (f i)) [0..<n]) N xs (for_each f [0..<m]) M ys (p, w0)))"
proof (rule completes_exit, rule results_mono)
  show "results (refused h) (\<lambda>(s, w). S s \<and> printed w0 {} (of_nat (n + m) * x) w)
    (two_phases clock (for_each (\<lambda>i. paced i (f i)) [0..<n]) N xs (for_each f [0..<m]) M ys (p, w0))"
    by (rule two_phases_stage [OF assms(1,2)]) (use assms(3) in simp_all)
qed auto

lemma monomorphic_iter_holds:
  assumes "48 \<in> sizes" and "holds w0 {} v w"
  shows "results (refused (Exit 1)) (holds w0 {} (v + 342)) (monomorphic_iter al w)"
proof (cases "fresh_chunk al 48 w")
  case (Inl e)
  then show ?thesis using holds_fresh [OF assms(2,1)] by (simp add: monomorphic_iter_def)
next
  case (Inr r)
  obtain p w' where r: "r = (p, w')" by (cases r)
  then have h: "holds w0 {p} v w'" and b: "\<forall>k < 48. byte_at w' (p + k) = 171"
    using holds_fresh [OF assms(2,1)] Inr by simp_all
  have "byte_at w' p + byte_at w' (p + 47) = 342" using b [rule_format, of 0] b [rule_format, of 47] by simp
  then show ?thesis using holds_release [OF holds_sink [OF h, of 342], of p] Inr r
    by (simp add: monomorphic_iter_def)
qed

lemma hold_iter_stage:
  assumes "48 \<in> sizes" and "stage w0 distinct set v s"
  shows "results (refused (Exit 1)) (stage w0 distinct set (v + 171)) (hold_iter al s)"
proof -
  obtain kept w where s: "s = (kept, w)" by (cases s)
  have h: "distinct kept" "holds w0 (set kept) v w" using assms(2) by (simp_all add: s stage_def)
  show ?thesis
  proof (cases "fresh_chunk al 48 w")
    case (Inl e)
    then show ?thesis using holds_fresh [OF h(2) assms(1)] by (simp add: hold_iter_def s)
  next
    case (Inr r)
    obtain p w' where r: "r = (p, w')" by (cases r)
    then have h': "p \<notin> set kept" "holds w0 (insert p (set kept)) v w'" and b: "\<forall>k < 48. byte_at w' (p + k) = 171"
      using holds_fresh [OF h(2) assms(1)] Inr by simp_all
    have "byte_at w' p = 171" using b [rule_format, of 0] by simp
    then show ?thesis using holds_sink [OF h'(2), of 171] h(1) h'(1) Inr r
      by (simp add: hold_iter_def s stage_def)
  qed
qed

lemma printed_release:
  "distinct ps \<Longrightarrow> printed w0 (set ps) v w \<Longrightarrow> printed w0 {} v (fold (release al) ps w)"
proof -
  have "printed w0 L v w \<Longrightarrow> distinct ps \<Longrightarrow> set ps \<subseteq> L \<Longrightarrow> printed w0 (L - set ps) v (fold (release al) ps w)" for L
  proof (induction ps arbitrary: L w)
    case (Cons p ps)
    have "printed w0 (L - {p}) v (release al p w)"
      using Cons.prems free_law by (simp add: printed_def release_def)
    moreover have "set ps \<subseteq> L - {p}" using Cons.prems by auto
    moreover have "L - {p} - set ps = L - set (p # ps)" by auto
    ultimately show ?case using Cons.IH [of "L - {p}" "release al p w"] Cons.prems(2) by simp
  qed simp
  from this [of "set ps"] show "distinct ps \<Longrightarrow> printed w0 (set ps) v w \<Longrightarrow> ?thesis" by simp
qed

lemma programs_complete:
  assumes "holds w0 {} 0 w0"
  shows "48 \<in> sizes \<Longrightarrow> completes (Exit 1) w0 (1030000 * 342) (monomorphic al clock w0)"
    and "{32, 96} \<subseteq> sizes \<Longrightarrow> completes (Exit 1) w0 (1030000 * 171) (bimodal al clock w0)"
    and "{32, 64, 128} \<subseteq> sizes \<Longrightarrow> completes (Exit 1) w0 (630000 * 171) (mixed al clock w0)"
    and "48 \<in> sizes \<Longrightarrow> completes (Exit 1) w0 (530000 * 171) (hold al clock w0)"
    and "48 \<in> sizes \<Longrightarrow> length ps = 8 \<Longrightarrow> completes Null_read w0 (104000 * 1368) (lifo al clock ps w0)"
    and "48 \<in> sizes \<Longrightarrow> length ps = 200 \<Longrightarrow> completes (Exit 1) w0 (5100 * 34200) (arena al clock ps w0)"
proof -
  show "completes (Exit 1) w0 (1030000 * 342) (monomorphic al clock w0)" if "48 \<in> sizes"
    using churn_completes [where f = "\<lambda>i. monomorphic_iter al" and n = 30000 and m = 1000000, OF monomorphic_iter_holds [OF that] assms]
    by (simp add: monomorphic_def del: upt.simps)
  have sz: "bimodal_size i \<in> {32, 96} \<and> mixed_size i \<in> {32, 64, 128}" for i
  proof -
    have "i mod 2 = 0 \<or> i mod 2 = 1" "i mod 3 = 0 \<or> i mod 3 = 1 \<or> i mod 3 = 2" by arith+
    then show ?thesis by (auto simp: bimodal_size_def mixed_size_def)
  qed
  show "completes (Exit 1) w0 (1030000 * 171) (bimodal al clock w0)" if "{32, 96} \<subseteq> sizes"
  proof -
    have i: "bimodal_size i \<in> sizes" "0 < bimodal_size i" for i using sz [of i] that by auto
    show ?thesis
      using churn_completes [where f = "\<lambda>i. churn_iter al (bimodal_size i)" and n = 30000 and m = 1000000, OF churn_iter_holds [OF _ i] assms]
      by (simp add: bimodal_def del: upt.simps)
  qed
  show "completes (Exit 1) w0 (630000 * 171) (mixed al clock w0)" if "{32, 64, 128} \<subseteq> sizes"
  proof -
    have i: "mixed_size i \<in> sizes" "0 < mixed_size i" for i using sz [of i] that by auto
    show ?thesis
      using churn_completes [where f = "\<lambda>i. churn_iter al (mixed_size i)" and n = 30000 and m = 600000, OF churn_iter_holds [OF _ i] assms]
      by (simp add: mixed_def del: upt.simps)
  qed
  show "completes (Exit 1) w0 (530000 * 171) (hold al clock w0)" if "48 \<in> sizes"
  proof -
    have "results (refused (Exit 1)) (\<lambda>(s, w). distinct s \<and> printed w0 (set s) (530000 * 171) w)
      (two_phases clock
         (for_each (\<lambda>i. paced i (hold_iter al)) [0..<30000]) 30000 '', 48B, no-free, paced''
         (for_each (\<lambda>i. hold_iter al) [0..<500000]) 500000 '', 48B, no-free'' ([], w0))"
      using two_phases_stage [where f = "\<lambda>i. hold_iter al" and n = 30000 and m = 500000 and p = "[]", OF hold_iter_stage [OF that]] assms
      by (simp del: upt.simps)
    then show ?thesis unfolding hold_def
      by (intro completes_exit) (auto simp: results_map printed_release elim!: results_mono)
  qed
  show "completes Null_read w0 (104000 * 1368) (lifo al clock ps w0)" if "48 \<in> sizes" "length ps = 8"
    using cycles_complete [where f = "\<lambda>i. one_cycle al" and n = 4000 and m = 100000 and p = ps, OF one_cycle_stage [OF that(1)] that(2) assms]
    by (simp add: lifo_def del: upt.simps)
  show "completes (Exit 1) w0 (5100 * 34200) (arena al clock ps w0)" if "48 \<in> sizes" "length ps = 200"
    using cycles_complete [where f = "\<lambda>i. arena_cycle al" and n = 100 and m = 5000 and p = ps, OF arena_cycle_stage [OF that(1)] that(2) assms]
    by (simp add: arena_def del: upt.simps)
qed

lemma burst_stage:
  assumes "48 \<in> sizes" and "stage w0 S (\<lambda>_. {}) v s"
  shows "results (refused (Exit 1)) (stage w0 S (\<lambda>_. {}) (v + 34200)) (run_one_burst al s)"
proof -
  have "results (refused (Exit 1)) (stage w0 S (\<lambda>_. {}) (v + 171)) (plain (churn_iter al 48) s)"
    if "stage w0 S (\<lambda>_. {}) v s" for v and s :: "unit \<times> 'h workload"
    using stage_plain [OF churn_iter_holds [OF _ assms(1)]] that by (cases s) simp
  from stage_loop [where f = "\<lambda>i. plain (churn_iter al 48)" and n = 200, OF this assms(2)]
  have "results (refused (Exit 1)) (stage w0 S (\<lambda>_. {}) (v + of_nat 200 * 171)) (run_one_burst al s)"
    unfolding run_one_burst_def .
  then show ?thesis by simp
qed

lemma pulse_burst_stage:
  assumes "48 \<in> sizes" and "stage w0 S (\<lambda>_. {}) v s" and "S = (\<lambda>_. True)"
  shows "results (refused (Exit 1)) (stage w0 S (\<lambda>_. {}) (v + 34200)) (pulse_burst al clock s)"
proof -
  obtain ns w where s: "s = (ns, w)" by (cases s)
  have "stage w0 (\<lambda>_. True) (\<lambda>_. {}) v ((), w)" using assms(2) by (simp add: s stage_def)
  have "results (refused (Exit 1)) (\<lambda>(t, s). stage w0 (\<lambda>_. True) (\<lambda>_. {}) (v + 34200) s) (timed clock (run_one_burst al) ((), w))"
    by (rule stage_timed [OF _ \<open>stage w0 (\<lambda>_. True) (\<lambda>_. {}) v ((), w)\<close>]) (rule burst_stage [OF assms(1)])
  then show ?thesis
    by (cases "timed clock (run_one_burst al) ((), w)") (auto simp: s pulse_burst_def stage_def assms(3))
qed

lemma pulse_completes:
  assumes "holds w0 {} 0 w0" and "48 \<in> sizes"
  shows "completes (Exit 1) w0 (5050 * 34200) (pulse al clock w0)"
proof -
  let ?T = "\<lambda>_. True" and ?warm = "for_each (\<lambda>b s. map_sum id (map_prod id (nap 500000)) (run_one_burst al s)) [0..<50]"
  have nap: "stage w0 S L v (map_prod id (nap ns) s) = stage w0 S L v s" for S L v ns and s :: "'p \<times> 'h workload"
    by (cases s) (simp add: stage_def)
  have b: "results (refused (Exit 1)) (stage w0 ?T (\<lambda>_. {}) (v + 34200)) (map_sum id (map_prod id (nap 500000)) (run_one_burst al s))"
    if "stage w0 ?T (\<lambda>_. {}) v s" for v s
    using burst_stage [OF assms(2) that] by (simp add: results_map nap)
  have 1: "results (refused (Exit 1)) (\<lambda>(t, s). stage w0 ?T (\<lambda>_. {}) (50 * 34200) s) (timed clock ?warm ((), w0))"
  proof (rule stage_timed)
    show "stage w0 ?T (\<lambda>_. {}) 0 ((), w0)" using assms(1) by (simp add: stage_def)
    show "results (refused (Exit 1)) (stage w0 ?T (\<lambda>_. {}) (50 * 34200)) (?warm s)" if "stage w0 ?T (\<lambda>_. {}) 0 s" for s
      using stage_loop [where n = 50, OF b that] by (simp del: upt.simps)
  qed
  show ?thesis
  proof (cases "timed clock ?warm ((), w0)")
    case (Inl e)
    then show ?thesis using 1 by (simp add: pulse_def exit_0_def completes_def del: upt.simps)
  next
    case (Inr r)
    obtain t u w where r: "r = (t, u, w)" by (metis prod.exhaust)
    then have "stage w0 ?T (\<lambda>_. {}) (50 * 34200) (0 :: double, w)" using 1 Inr by (simp add: stage_def del: upt.simps)
    from stage_loop [where f = "\<lambda>b. pulse_burst al clock" and n = 5000, OF pulse_burst_stage [OF assms(2) _ refl] this]
    have 2: "results (refused (Exit 1)) (stage w0 ?T (\<lambda>_. {}) (5050 * 34200))
        (for_each (\<lambda>b. pulse_burst al clock) [0..<5000] (0, w))"
      by (simp del: upt.simps)
    show ?thesis
    proof (cases "for_each (\<lambda>b. pulse_burst al clock) [0..<5000] (0, w)")
      case (Inl e)
      then show ?thesis using 2 Inr r by (simp add: pulse_def exit_0_def completes_def \<open>timed _ _ _ = _\<close> del: upt.simps)
    next
      case (Inr q)
      obtain ns w' where q: "q = (ns, w')" by (cases q)
      then show ?thesis using 2 Inr \<open>timed _ _ _ = _\<close> r holds_reports
        by (simp add: pulse_def exit_0_def completes_def stage_def del: upt.simps)
    qed
  qed
qed

lemma run_program_completes:
  assumes "holds w0 {} 0 w0" and "request_sizes prog \<subseteq> sizes" and "length scratch = scratch_length prog"
  shows "completes (on_refusal prog) w0 (sink_total prog) (run_program prog al clock scratch w0)"
  using assms programs_complete [OF assms(1)] pulse_completes [OF assms(1)]
  by (cases prog) (simp_all add: on_refusal_def)

end

end
