(* ===== verification/Lifetime_Probe.thy ===== *)
theory Lifetime_Probe
  imports Scan Workload
begin

text \<open>
  The probe \<open>src/bench/gate1_lifetime_probe.c\<close>: a held set that lives to the end, a window of
  chunks replaced in turn, and one row that sets the resident set against the bytes it calls live.
  The allocator and the texts of \<open>/proc/self/smaps_rollup\<close> are arguments.
\<close>

section \<open>Reading smaps_rollup\<close>

text \<open>
  \<open>sscanf\<close> into \<open>val\<close>: without a number nothing is stored.  C leaves a number outside \<open>long\<close>
  undefined; here it is kept as it is.
\<close>

definition scan_ld :: "string \<Rightarrow> int \<Rightarrow> int" where
  "scan_ld xs val = (case scan_long xs of None \<Rightarrow> val | Some (n, rest) \<Rightarrow> n)"

text \<open>The file's lines as \<open>fgets\<close> returns them; no file is \<open>None\<close>.\<close>

fun find_field :: "string \<Rightarrow> string list \<Rightarrow> int \<Rightarrow> int" where
  "find_field key [] val = val"
| "find_field key (l # ls) val =
     (if take (length key) l = key then scan_ld (drop (length key) l) val else find_field key ls val)"

definition read_smaps_kb :: "string list option \<Rightarrow> string \<Rightarrow> int" where
  "read_smaps_kb file key = (case file of None \<Rightarrow> -1 | Some ls \<Rightarrow> find_field key ls (-1))"

section \<open>The program\<close>

text \<open>The first byte of every page is written, and then the first one is read.\<close>

definition touch_page :: "addr \<Rightarrow> nat \<Rightarrow> 'h workload \<Rightarrow> 'h workload" where
  "touch_page p k w =
     (let i = (of_nat k * 4096 :: u64)
      in w\<lparr>wl_bytes := (wl_bytes w)(p + i := ucast (i XOR 0x5a))\<rparr>)"

definition xor_sink :: "u8 \<Rightarrow> 'h workload \<Rightarrow> 'h workload" where
  "xor_sink v w = w\<lparr>wl_sink := wl_sink w XOR ucast v\<rparr>"

definition touch :: "addr \<Rightarrow> u64 \<Rightarrow> 'h workload \<Rightarrow> 'h workload" where
  "touch p bytes w =
     (let w = fold (touch_page p) [0..<(unat bytes + 4095) div 4096] w
      in xor_sink (wl_bytes w p) w)"

record probe_args =
  held_count :: u64
  held_kb :: u64
  churn_window :: u64
  churn_kb :: u64
  probe_iters :: u64

text \<open>The command line, with \<open>strtoul\<close> done; each missing argument has its default.\<close>

definition parse_probe_args :: "u64 list \<Rightarrow> probe_args" where
  "parse_probe_args argv =
     (let arg = (\<lambda>i d. if i < length argv then argv ! i else d)
      in \<lparr>held_count = arg 0 64, held_kb = arg 1 64, churn_window = arg 2 256, churn_kb = arg 3 4,
          probe_iters = arg 4 2000000\<rparr>)"

record probe_row =
  pr_live :: int
  pr_rss :: int
  pr_anon :: int
  pr_thp :: int
  pr_slack :: int

text \<open>
  The ends of the program; a division by zero stops it before the row, a read outside the held
  array after it.  \<open>Printed\<close> shows the row and the two arrays as the program leaves them.
\<close>

datatype probe_end =
    Perror string
  | Div_by_zero
  | Printed probe_row "addr list" "addr list"
  | Read_outside probe_row

text \<open>\<open>calloc\<close> of an array of pointers: null when the product overflows or there is no memory.\<close>

definition calloc_ptrs :: "'h allocator \<Rightarrow> u64 \<Rightarrow> 'h workload \<Rightarrow> addr list option \<times> 'h workload" where
  "calloc_ptrs al n w =
     (if 2 ^ 64 \<le> unat n * 8 then (None, w)
      else let (p, w) = obtain_chunk al (n * 8) w
           in (if p = 0 then None else Some (replicate (unat n) 0), w))"

definition hold_one ::
    "'h allocator \<Rightarrow> u64 \<Rightarrow> nat \<Rightarrow> addr list \<times> 'h workload \<Rightarrow> (probe_end \<times> 'h workload) + addr list \<times> 'h workload" where
  "hold_one al bytes i s =
     (case s of (held, w) \<Rightarrow>
        let (p, w) = obtain_chunk al bytes w
        in if p = 0 then Inl (Perror ''malloc held'', w) else Inr (held[i := p], touch p bytes w))"

definition churn_one ::
    "'h allocator \<Rightarrow> u64 \<Rightarrow> u64 \<Rightarrow> nat \<Rightarrow> addr list \<times> 'h workload \<Rightarrow> (probe_end \<times> 'h workload) + addr list \<times> 'h workload" where
  "churn_one al window bytes i s =
     (case s of (win, w) \<Rightarrow>
        if window = 0 then Inl (Div_by_zero, w)
        else let k = i mod unat window;
                 w = (if win ! k \<noteq> 0 then release al (win ! k) w else w);
                 (p, w) = obtain_chunk al bytes w
             in Inr (win[k := p], if p \<noteq> 0 then touch p bytes w else w))"

definition make_row :: "probe_args \<Rightarrow> string list option \<Rightarrow> string list option \<Rightarrow> string list option \<Rightarrow> probe_row" where
  "make_row a f1 f2 f3 =
     (let live = sint (held_count a * held_kb a + churn_window a * churn_kb a);
          rss = read_smaps_kb f1 ''Rss:'';
          anon = read_smaps_kb f2 ''Anonymous:'';
          thp = read_smaps_kb f3 ''AnonHugePages:''
      in \<lparr>pr_live = live, pr_rss = rss, pr_anon = anon, pr_thp = thp, pr_slack = (if 0 \<le> rss then rss - live else -1)\<rparr>)"

text \<open>\<open>smaps\<close> is what \<open>/proc/self/smaps_rollup\<close> shows at each of the three reads.\<close>

definition lifetime_probe ::
    "'h allocator \<Rightarrow> (nat \<Rightarrow> string list option) \<Rightarrow> u64 list \<Rightarrow> 'h workload \<Rightarrow> probe_end \<times> 'h workload" where
  "lifetime_probe al smaps argv w =
     (let a = parse_probe_args argv; held_bytes = held_kb a * 1024; churn_bytes = churn_kb a * 1024
      in case calloc_ptrs al (held_count a) w of
           (None, w) \<Rightarrow> (Perror ''calloc held'', w)
         | (Some held, w) \<Rightarrow>
             (case for_each (hold_one al held_bytes) [0..<unat (held_count a)] (held, w) of
                Inl e \<Rightarrow> e
              | Inr (held, w) \<Rightarrow>
                  (case calloc_ptrs al (churn_window a) w of
                     (None, w) \<Rightarrow> (Perror ''calloc win'', w)
                   | (Some win, w) \<Rightarrow>
                       (case for_each (churn_one al (churn_window a) churn_bytes) [0..<unat (probe_iters a)] (win, w) of
                          Inl e \<Rightarrow> e
                        | Inr (win, w) \<Rightarrow>
                            let row = make_row a (smaps 0) (smaps 1) (smaps 2)
                            in (if held_count a = 0 then Read_outside row else Printed row held win, w)))))"

section \<open>A metered allocator\<close>

text \<open>
  To compare the row with what the process really holds, the allocator under the probe keeps books:
  the bytes requested for every chunk in use, and how many requests it answered with null.
\<close>

record 'h metered =
  mt_heap :: 'h
  mt_ledger :: "addr \<rightharpoonup> nat"
  mt_refused :: nat

definition metered :: "'h allocator \<Rightarrow> 'h metered allocator" where
  "metered al = \<lparr>
     am_malloc = (\<lambda>n m. case am_malloc al n (mt_heap m) of (p, h) \<Rightarrow>
       (p, if p = 0 then m\<lparr>mt_heap := h, mt_refused := mt_refused m + 1\<rparr>
           else m\<lparr>mt_heap := h, mt_ledger := (mt_ledger m)(p \<mapsto> unat n)\<rparr>)),
     am_free = (\<lambda>p m. m\<lparr>mt_heap := am_free al p (mt_heap m), mt_ledger := (mt_ledger m)(p := None)\<rparr>)\<rparr>"

abbreviation ledger :: "'h metered workload \<Rightarrow> addr \<rightharpoonup> nat" where
  "ledger w \<equiv> mt_ledger (wl_heap w)"

abbreviation denied :: "'h metered workload \<Rightarrow> nat" where
  "denied w \<equiv> mt_refused (wl_heap w)"

text \<open>The bytes of the chunks a process has taken since \<open>w\<close> and still holds in \<open>w'\<close>.\<close>

definition bytes_since :: "'h metered workload \<Rightarrow> 'h metered workload \<Rightarrow> nat" where
  "bytes_since w w' = (\<Sum>p \<in> dom (ledger w') - dom (ledger w). the (ledger w' p))"

text \<open>The array \<open>ws\<close> holds, beside nulls, distinct chunks of \<open>b\<close> bytes: all that \<open>L'\<close> has more than \<open>L\<close>.\<close>

definition fills :: "(addr \<rightharpoonup> nat) \<Rightarrow> nat \<Rightarrow> addr list \<Rightarrow> (addr \<rightharpoonup> nat) \<Rightarrow> bool" where
  "fills L b ws L' \<longleftrightarrow> L' = (\<lambda>p. if p \<in> set ws - {0} then Some b else L p) \<and>
     (set ws - {0}) \<inter> dom L = {} \<and> inj_on (nth ws) {k. k < length ws \<and> ws ! k \<noteq> 0}"

lemma fills_start: "fills L b (replicate n 0) L"
  by (auto simp: fills_def inj_on_def)

lemma fills_image: "set ws - {0} = nth ws ` {k. k < length ws \<and> ws ! k \<noteq> 0}"
  by (auto simp: in_set_conv_nth)

lemma fills_card: "fills L b ws L' \<Longrightarrow> card (set ws - {0}) = card {k. k < length ws \<and> ws ! k \<noteq> 0}"
  unfolding fills_image by (auto simp: fills_def intro: card_image)

lemma fills_dom: "fills L b ws L' \<Longrightarrow> dom L' = dom L \<union> (set ws - {0})"
  by (auto simp: fills_def split: if_splits)

lemma fills_at:
  "fills L b ws L' \<Longrightarrow> p \<in> set ws \<Longrightarrow> p \<noteq> 0 \<Longrightarrow> L' p = Some b"
  "fills L b ws L' \<Longrightarrow> p \<in> dom L \<Longrightarrow> L' p = L p"
  by (auto simp: fills_def)

lemma set_update_null: "i < length ws \<Longrightarrow> ws ! i = 0 \<Longrightarrow> set (ws[i := p]) - {0} = insert p (set ws - {0}) - {0}"
  for ws :: "addr list"
  by (auto simp: set_update_memI in_set_conv_nth nth_list_update split: if_splits)

lemma fills_put:
  assumes f: "fills L b ws L'" and i: "i < length ws" "ws ! i = 0" and p: "p \<noteq> 0" "L' p = None"
  shows "fills L b (ws[i := p]) (L'(p \<mapsto> b))"
proof -
  have n: "p \<notin> set ws" "L p = None" using f p by (auto simp: fills_def split: if_splits)
  have s: "set (ws[i := p]) - {0} = insert p (set ws - {0})" using set_update_null [OF i, of p] p(1) by auto
  have "inj_on (nth (ws[i := p])) {k. k < length (ws[i := p]) \<and> ws[i := p] ! k \<noteq> 0}"
    using f n(1) i(1) by (auto simp: fills_def inj_on_def nth_list_update)
  moreover have "L'(p \<mapsto> b) = (\<lambda>q. if q \<in> insert p (set ws - {0}) then Some b else L q)"
    using f by (auto simp: fills_def)
  ultimately show ?thesis using f n(2) unfolding fills_def s by auto
qed

lemma fills_drop:
  assumes f: "fills L b ws L'" and i: "i < length ws" "ws ! i \<noteq> 0"
  shows "fills L b (ws[i := 0]) (L'(ws ! i := None))"
proof -
  have j: "k = i" if "k < length ws" "ws ! k = ws ! i" for k
    using f i that by (auto simp: fills_def inj_on_def)
  have s: "set (ws[i := 0]) - {0} = set ws - {0} - {ws ! i}"
    using i j by (fastforce simp: in_set_conv_nth nth_list_update split: if_splits)
  have "inj_on (nth (ws[i := 0])) {k. k < length (ws[i := 0]) \<and> ws[i := 0] ! k \<noteq> 0}"
    using f i(1) by (auto simp: fills_def inj_on_def nth_list_update split: if_splits)
  moreover have "ws ! i \<in> set ws - {0}" using i by simp
  then have "L (ws ! i) = None" using f unfolding fills_def by blast
  ultimately show ?thesis using f unfolding fills_def s by auto
qed

lemma touch_heap [simp]: "wl_heap (touch p b w) = wl_heap w"
proof -
  have "wl_heap (fold (touch_page p) ks w) = wl_heap w" for ks
    by (induction ks arbitrary: w) (simp_all add: touch_page_def Let_def)
  then show ?thesis by (simp add: touch_def xor_sink_def Let_def)
qed

section \<open>The probe over an allocator that keeps its contract\<close>

lemma results_never: "results (\<lambda>_. False) P r \<Longrightarrow> \<exists>s. r = Inr s \<and> P s"
  by (cases r) simp_all

text \<open>What a run that gets past the churn has taken and still holds.\<close>

definition holds_window :: "probe_args \<Rightarrow> 'h metered workload \<Rightarrow> 'h metered workload \<Rightarrow> addr list \<Rightarrow> addr list \<Rightarrow> bool" where
  "holds_window a w w' held win \<longleftrightarrow>
     length held = unat (held_count a) \<and> 0 \<notin> set held \<and> distinct held \<and> length win = unat (churn_window a) \<and>
     (denied w' = denied w \<longrightarrow> (0 \<notin> set win \<longleftrightarrow> unat (churn_window a) \<le> unat (probe_iters a))) \<and>
     card (set win - {0}) = card {k. k < length win \<and> win ! k \<noteq> 0} \<and>
     (\<forall>p \<in> set held. ledger w' p = Some (unat (held_kb a * 1024))) \<and>
     (\<forall>p \<in> set win - {0}. ledger w' p = Some (unat (churn_kb a * 1024))) \<and>
     bytes_since w w' = 8 * unat (held_count a) + 8 * unat (churn_window a) +
       unat (held_count a) * unat (held_kb a * 1024) + card (set win - {0}) * unat (churn_kb a * 1024)"

context heap_contract
begin

definition booked :: "'h metered workload \<Rightarrow> bool" where
  "booked w \<longleftrightarrow> ok (mt_heap (wl_heap w)) \<and> dom (ledger w) = live (mt_heap (wl_heap w))"

lemma booked_touch [simp]: "booked (touch p b w) = booked w"
  by (simp add: booked_def)

lemma metered_obtain:
  assumes "booked w" and "n \<in> sizes" and "obtain_chunk (metered al) n w = (p, w')"
  shows "booked w'"
    and "p = 0 \<Longrightarrow> ledger w' = ledger w \<and> denied w' = Suc (denied w)"
    and "p \<noteq> 0 \<Longrightarrow> ledger w p = None \<and> ledger w' = (ledger w)(p \<mapsto> unat n) \<and> denied w' = denied w"
proof -
  obtain q h where m: "am_malloc al n (mt_heap (wl_heap w)) = (q, h)" by fastforce
  have l: "ok h \<and> (if q = 0 then may_refuse h \<and> live h = live (mt_heap (wl_heap w))
      else q \<notin> live (mt_heap (wl_heap w)) \<and> live h = insert q (live (mt_heap (wl_heap w))))"
    using malloc_law [OF _ assms(2) m] assms(1) by (simp add: booked_def)
  have w': "q = p" "w' = w\<lparr>wl_heap := if p = 0 then (wl_heap w)\<lparr>mt_heap := h, mt_refused := denied w + 1\<rparr>
      else (wl_heap w)\<lparr>mt_heap := h, mt_ledger := (ledger w)(p \<mapsto> unat n)\<rparr>\<rparr>"
    using assms(3) m by (auto simp: obtain_chunk_def metered_def)
  show "booked w'" using l w' assms(1) by (auto simp: booked_def)
  show "p = 0 \<Longrightarrow> ledger w' = ledger w \<and> denied w' = Suc (denied w)" using w' by simp
  show "p \<noteq> 0 \<Longrightarrow> ledger w p = None \<and> ledger w' = (ledger w)(p \<mapsto> unat n) \<and> denied w' = denied w"
    using w' l assms(1) by (auto simp: booked_def)
qed

lemma metered_release:
  assumes "booked w" and "ledger w p \<noteq> None"
  shows "booked (release (metered al) p w)"
    and "ledger (release (metered al) p w) = (ledger w)(p := None)"
    and "denied (release (metered al) p w) = denied w"
proof -
  have "p \<in> live (mt_heap (wl_heap w))" using assms by (auto simp: booked_def)
  then show "booked (release (metered al) p w)"
    using free_law [of "mt_heap (wl_heap w)" p] assms(1) by (simp add: booked_def release_def metered_def)
qed (simp_all add: release_def metered_def)

lemma metered_calloc:
  assumes "booked w" and "n * 8 \<in> sizes" and "unat n < 2 ^ 61" and "calloc_ptrs (metered al) n w = (r, w')"
  shows "booked w'" and "r = None \<Longrightarrow> denied w < denied w'"
    and "r = Some ps \<Longrightarrow> ps = replicate (unat n) 0 \<and> denied w' = denied w \<and>
      (\<exists>q. ledger w q = None \<and> ledger w' = (ledger w)(q \<mapsto> 8 * unat n))"
proof -
  obtain p w1 where o: "obtain_chunk (metered al) (n * 8) w = (p, w1)" by fastforce
  note m = metered_obtain [OF assms(1,2) o]
  have r: "r = (if p = 0 then None else Some (replicate (unat n) 0))" "w1 = w'"
    using assms(3,4) o by (simp_all add: calloc_ptrs_def)
  have u: "unat (n * 8) = 8 * unat n" using assms(3) by (simp add: unat_word_ariths)
  show "booked w'" using m(1) r by simp
  show "r = None \<Longrightarrow> denied w < denied w'" using m(2) r by (simp split: if_splits)
  show "r = Some ps \<Longrightarrow> ps = replicate (unat n) 0 \<and> denied w' = denied w \<and>
      (\<exists>q. ledger w q = None \<and> ledger w' = (ledger w)(q \<mapsto> 8 * unat n))"
    using m(3) r by (auto simp: u split: if_splits)
qed

lemma hold_filled:
  assumes "b \<in> sizes" and "booked w0" and "length ps = n" and "\<forall>k < n. ps ! k = 0" and "fills L (unat b) ps (ledger w0)"
  shows "results (\<lambda>(e, w). (\<exists>s. e = Perror s) \<and> denied w0 < denied w)
    (\<lambda>(held, w). booked w \<and> length held = n \<and> fills L (unat b) held (ledger w) \<and> denied w = denied w0 \<and> (\<forall>k < n. held ! k \<noteq> 0))
    (for_each (hold_one (metered al) b) [0..<n] (ps, w0))"
proof -
  let ?P = "\<lambda>i (held, w). booked w \<and> length held = n \<and> fills L (unat b) held (ledger w) \<and> denied w = denied w0 \<and>
    (\<forall>k < n. held ! k \<noteq> 0 \<longleftrightarrow> k < i)"
  let ?Q = "\<lambda>(e, w). (\<exists>s. e = Perror s) \<and> denied w0 < denied w"
  have "results ?Q (?P n) (for_each (hold_one (metered al) b) [0..<n] (ps, w0))"
  proof (rule for_each_count [where P = ?P])
    fix i s assume i: "i < n" and s: "?P i s"
    obtain held w where e: "s = (held, w)" by (cases s)
    obtain p w' where o: "obtain_chunk (metered al) b w = (p, w')" by fastforce
    have w: "booked w" "length held = n" "fills L (unat b) held (ledger w)" "denied w = denied w0" "held ! i = 0"
      "\<forall>k < n. held ! k \<noteq> 0 \<longleftrightarrow> k < i" using s i by (auto simp: e)
    note m = metered_obtain [OF w(1) assms(1) o]
    show "results ?Q (?P (Suc i)) (hold_one (metered al) b i s)"
    proof (cases "p = 0")
      case True
      then show ?thesis using m(2) w(4) by (simp add: e hold_one_def o)
    next
      case False
      have "fills L (unat b) (held[i := p]) (ledger w')"
        using fills_put [OF w(3) _ w(5) False] m(3) [OF False] w(2) i by simp
      then show ?thesis using False m(1) m(3) w i by (simp add: e hold_one_def o nth_list_update less_Suc_eq)
    qed
  qed (use assms in auto)
  then show ?thesis by (rule results_mono) auto
qed

lemma churn_step:
  assumes "b \<in> sizes" and "booked w" and "length win = unat m" and "0 < unat m" and "fills L (unat b) win (ledger w)"
  shows "\<exists>p w'. churn_one (metered al) m b i (win, w) = Inr (win[i mod unat m := p], w') \<and> booked w' \<and>
    fills L (unat b) (win[i mod unat m := p]) (ledger w') \<and>
    denied w' = (if p = 0 then Suc (denied w) else denied w)"
proof -
  let ?k = "i mod unat m"
  let ?w = "if win ! ?k \<noteq> 0 then release (metered al) (win ! ?k) w else w"
  have k: "?k < length win" and m0: "m \<noteq> 0" using assms(3,4) by (auto simp: unat_gt_0)
  have w: "booked ?w \<and> fills L (unat b) (win[?k := 0]) (ledger ?w) \<and> denied ?w = denied w"
  proof (cases "win ! ?k = 0")
    case True
    then have "win[?k := 0] = win" by (metis list_update_id)
    then show ?thesis using assms(2,5) True by simp
  next
    case False
    have "ledger w (win ! ?k) \<noteq> None" using fills_at(1) [OF assms(5) nth_mem [OF k] False] by simp
    from metered_release [OF assms(2) this] show ?thesis using False fills_drop [OF assms(5) k False] by simp
  qed
  obtain p w' where o: "obtain_chunk (metered al) b ?w = (p, w')" by fastforce
  note r = metered_obtain [OF conjunct1 [OF w] assms(1) o]
  let ?w' = "if p \<noteq> 0 then touch p b w' else w'"
  have c: "churn_one (metered al) m b i (win, w) = Inr (win[?k := p], ?w')"
    using o m0 by (simp add: churn_one_def Let_def)
  show ?thesis
  proof (cases "p = 0")
    case True
    then show ?thesis using c r(1,2) w by (intro exI [of _ p] exI [of _ ?w']) simp
  next
    case False
    have "fills L (unat b) (win[?k := 0, ?k := p]) (ledger w')"
      using fills_put [of L "unat b" "win[?k := 0]" "ledger ?w" ?k p] w False r(3) [OF False] k by simp
    then show ?thesis using c r(1,3) w False by (intro exI [of _ p] exI [of _ ?w']) simp
  qed
qed

text \<open>While no request is refused, the first \<open>i\<close> slots of the window are filled after \<open>i\<close> turns.\<close>

lemma churn_filled:
  assumes "b \<in> sizes" and "booked w0" and "length ps = unat m" and "0 < unat m" and "\<forall>k < unat m. ps ! k = 0"
    and "fills L (unat b) ps (ledger w0)"
  shows "results (\<lambda>_. False)
    (\<lambda>(win, w). booked w \<and> length win = unat m \<and> fills L (unat b) win (ledger w) \<and> denied w0 \<le> denied w \<and>
       (denied w = denied w0 \<longrightarrow> (\<forall>k < unat m. win ! k \<noteq> 0 \<longleftrightarrow> k < n)))
    (for_each (churn_one (metered al) m b) [0..<n] (ps, w0))"
proof -
  let ?P = "\<lambda>i (win, w). booked w \<and> length win = unat m \<and> fills L (unat b) win (ledger w) \<and> denied w0 \<le> denied w \<and>
    (denied w = denied w0 \<longrightarrow> (\<forall>k < unat m. win ! k \<noteq> 0 \<longleftrightarrow> k < i))"
  show ?thesis
  proof (rule for_each_count [where P = ?P])
    fix i s assume s: "?P i s"
    obtain win w where e: "s = (win, w)" by (cases s)
    let ?k = "i mod unat m"
    have w: "booked w" "length win = unat m" "fills L (unat b) win (ledger w)" "denied w0 \<le> denied w"
      and f: "denied w = denied w0 \<Longrightarrow> \<forall>k < unat m. win ! k \<noteq> 0 \<longleftrightarrow> k < i" using s by (auto simp: e)
    obtain p w' where c: "churn_one (metered al) m b i (win, w) = Inr (win[?k := p], w')"
      and w': "booked w'" "fills L (unat b) (win[?k := p]) (ledger w')"
        "denied w' = (if p = 0 then Suc (denied w) else denied w)"
      using churn_step [OF assms(1) w(1,2) assms(4) w(3), of i] by blast
    have "(k = ?k \<or> k < i) \<longleftrightarrow> k < Suc i" if "k < unat m" for k
      using that by (cases "i < unat m") auto
    then have "\<forall>k < unat m. win[?k := p] ! k \<noteq> 0 \<longleftrightarrow> k < Suc i" if "denied w' = denied w0"
      using f that w(2,4) w'(3) by (auto simp: nth_list_update split: if_splits)
    then show "results (\<lambda>_. False) (?P (Suc i)) (churn_one (metered al) m b i s)"
      using c w' w(2,4) by (simp add: e)
  qed (use assms in auto)
qed

text \<open>The books at the end: two arrays, the held set and what the window holds.\<close>

lemma bytes_of_arrays:
  assumes "ledger w q1 = None" and "fills ((ledger w)(q1 \<mapsto> x)) hb held L2"
    and "L2 q2 = None" and "fills (L2(q2 \<mapsto> y)) cb win (ledger w')"
  shows "bytes_since w w' = x + y + card (set held - {0}) * hb + card (set win - {0}) * cb"
    and "\<And>p. p \<in> set held \<Longrightarrow> p \<noteq> 0 \<Longrightarrow> ledger w p = None \<and> ledger w' p = Some hb"
    and "\<And>p. p \<in> set win \<Longrightarrow> p \<noteq> 0 \<Longrightarrow> ledger w p = None \<and> ledger w' p = Some cb"
proof -
  let ?H = "set held - {0}" and ?W = "set win - {0}"
  have d: "dom L2 = insert q1 (dom (ledger w)) \<union> ?H" "dom (ledger w') = insert q2 (dom L2) \<union> ?W"
    using fills_dom [OF assms(2)] fills_dom [OF assms(4)] by simp_all
  have disj: "?H \<inter> insert q1 (dom (ledger w)) = {}" "?W \<inter> insert q2 (dom L2) = {}"
    using assms(2,4) by (auto simp: fills_def)
  have q: "q1 \<notin> dom (ledger w)" "q2 \<notin> dom L2" using assms(1,3) by auto
  have at: "ledger w' p = (L2(q2 \<mapsto> y)) p" if "p \<in> insert q2 (dom L2)" for p
    using fills_at(2) [OF assms(4), of p] that by simp
  have at1: "ledger w' q1 = Some x" "ledger w' q2 = Some y"
    using at [of q1] at [of q2] fills_at(2) [OF assms(2), of q1] d q by auto
  have at2: "ledger w' p = Some hb" if "p \<in> ?H" for p
    using at [of p] fills_at(1) [OF assms(2), of p] that d q by auto
  have at3: "ledger w' p = Some cb" if "p \<in> ?W" for p
    using fills_at(1) [OF assms(4), of p] that by auto
  have n: "dom (ledger w') - dom (ledger w) = insert q1 (insert q2 (?H \<union> ?W))"
    using d disj q by auto
  have "bytes_since w w' = x + (y + (\<Sum>p \<in> ?H \<union> ?W. the (ledger w' p)))"
  proof -
    have "q1 \<notin> insert q2 (?H \<union> ?W)" "q2 \<notin> ?H \<union> ?W" using d disj q by auto
    then show ?thesis unfolding bytes_since_def n using at1 by simp
  qed
  also have "(\<Sum>p \<in> ?H \<union> ?W. the (ledger w' p)) = (\<Sum>p \<in> ?H. the (ledger w' p)) + (\<Sum>p \<in> ?W. the (ledger w' p))"
    using d disj by (intro sum.union_disjoint) auto
  finally show "bytes_since w w' = x + y + card ?H * hb + card ?W * cb" using at2 at3 by simp
  show "ledger w p = None \<and> ledger w' p = Some hb" if "p \<in> set held" "p \<noteq> 0" for p
    using at2 [of p] that disj by auto
  show "ledger w p = None \<and> ledger w' p = Some cb" if "p \<in> set win" "p \<noteq> 0" for p
    using at3 [of p] that d disj by auto
qed

text \<open>A run up to the churn: it ends with a refused request, or holds the filled set and an empty window.\<close>

lemma probe_setup:
  assumes "booked w" and "a = parse_probe_args argv"
    and sz: "{held_count a * 8, held_kb a * 1024, churn_window a * 8} \<subseteq> sizes"
    and cnt: "unat (held_count a) < 2 ^ 61" "unat (churn_window a) < 2 ^ 61"
  shows "(\<exists>s w'. lifetime_probe (metered al) smaps argv w = (Perror s, w') \<and> denied w < denied w') \<or>
    (\<exists>q1 held (w2 :: 'h metered workload) q2 w3. ledger w q1 = None \<and> length held = unat (held_count a) \<and> 0 \<notin> set held \<and>
       fills ((ledger w)(q1 \<mapsto> 8 * unat (held_count a))) (unat (held_kb a * 1024)) held (ledger w2) \<and>
       ledger w2 q2 = None \<and> ledger w3 = (ledger w2)(q2 \<mapsto> 8 * unat (churn_window a)) \<and> booked w3 \<and> denied w3 = denied w \<and>
       lifetime_probe (metered al) smaps argv w =
         (case for_each (churn_one (metered al) (churn_window a) (churn_kb a * 1024)) [0..<unat (probe_iters a)]
             (replicate (unat (churn_window a)) 0, w3) of
            Inl e \<Rightarrow> e
          | Inr (win, w) \<Rightarrow>
              let row = make_row a (smaps 0) (smaps 1) (smaps 2)
              in (if held_count a = 0 then Read_outside row else Printed row held win, w)))"
    proof -
  let ?h = "unat (held_count a)" and ?hb = "held_kb a * 1024"
  note def = lifetime_probe_def Let_def assms(2) [symmetric]
  obtain r1 w1 where c1: "calloc_ptrs (metered al) (held_count a) w = (r1, w1)" by fastforce
  note k1 = metered_calloc [OF assms(1) _ cnt(1) c1]
  show ?thesis
  proof (cases r1)
    case None
    then show ?thesis using c1 k1(2) sz by (simp add: def del: upt.simps)
  next
    case r1: (Some ps)
    then obtain q1 where q1: "ledger w q1 = None" "ledger w1 = (ledger w)(q1 \<mapsto> 8 * ?h)"
      and ps: "ps = replicate ?h 0" and d1: "denied w1 = denied w" and b1: "booked w1"
      using k1 sz by auto
    have f1: "fills ((ledger w)(q1 \<mapsto> 8 * ?h)) (unat ?hb) ps (ledger w1)" unfolding q1(2) ps by (rule fills_start)
    have hf: "results (\<lambda>(e, w). (\<exists>s. e = Perror s) \<and> denied w1 < denied w)
        (\<lambda>(held, v). booked v \<and> length held = ?h \<and> fills ((ledger w)(q1 \<mapsto> 8 * ?h)) (unat ?hb) held (ledger v) \<and>
           denied v = denied w1 \<and> (\<forall>k < ?h. held ! k \<noteq> 0))
        (for_each (hold_one (metered al) ?hb) [0..<?h] (ps, w1))"
      by (rule hold_filled [OF _ b1 _ _ f1]) (use sz ps in simp_all)
    show ?thesis
    proof (cases "for_each (hold_one (metered al) ?hb) [0..<?h] (ps, w1)")
      case (Inl x)
      then show ?thesis using hf c1 r1 d1 by (cases x) (auto simp: def simp del: upt.simps)
    next
      case h: (Inr x)
      obtain held w2 where x: "x = (held, w2)" by (cases x)
      have w2: "booked w2" "length held = ?h" "fills ((ledger w)(q1 \<mapsto> 8 * ?h)) (unat ?hb) held (ledger w2)"
        "denied w2 = denied w" "0 \<notin> set held" using hf h d1 by (auto simp: x in_set_conv_nth)
      obtain r3 w3 where c3: "calloc_ptrs (metered al) (churn_window a) w2 = (r3, w3)" by fastforce
      note k3 = metered_calloc [OF w2(1) _ cnt(2) c3]
      note start = c1 r1 h x c3
      show ?thesis
      proof (cases r3)
        case None
        then show ?thesis using start k3(2) sz w2(4) by (simp add: def del: upt.simps)
      next
        case (Some qs)
        then obtain q2 where q2: "ledger w2 q2 = None" "ledger w3 = (ledger w2)(q2 \<mapsto> 8 * unat (churn_window a))"
          and qs: "qs = replicate (unat (churn_window a)) 0" and w3: "denied w3 = denied w" "booked w3"
          using k3 sz w2(4) by auto
        have "lifetime_probe (metered al) smaps argv w =
         (case for_each (churn_one (metered al) (churn_window a) (churn_kb a * 1024)) [0..<unat (probe_iters a)]
             (replicate (unat (churn_window a)) 0, w3) of
            Inl e \<Rightarrow> e
          | Inr (win, w) \<Rightarrow>
              let row = make_row a (smaps 0) (smaps 1) (smaps 2)
              in (if held_count a = 0 then Read_outside row else Printed row held win, w))"
          using start Some by (simp add: def qs del: upt.simps)
        then show ?thesis using q1(1) w2 q2 w3 by blast
      qed
    qed
  qed
qed

lemma churn_ends:
  assumes "b \<in> sizes" and "booked w" and "fills L (unat b) (replicate (unat m) 0) (ledger w)" and "m = 0 \<longrightarrow> n = 0"
  shows "\<exists>win w'. for_each (churn_one (metered al) m b) [0..<n] (replicate (unat m) 0, w) = Inr (win, w') \<and>
    length win = unat m \<and> fills L (unat b) win (ledger w') \<and>
    (denied w' = denied w \<longrightarrow> (0 \<notin> set win \<longleftrightarrow> unat m \<le> n))"
proof (cases "m = 0")
  case True
  then show ?thesis using assms(3,4) by simp
next
  case False
  then have "0 < unat m" by (simp add: unat_gt_0)
  from results_never [OF churn_filled [OF assms(1,2) _ this _ assms(3), of n]]
  obtain win w' where r: "for_each (churn_one (metered al) m b) [0..<n] (replicate (unat m) 0, w) = Inr (win, w')"
    and w: "length win = unat m" "fills L (unat b) win (ledger w')"
      "denied w' = denied w \<longrightarrow> (\<forall>k < unat m. win ! k \<noteq> 0 \<longleftrightarrow> k < n)" by auto
  have "0 \<notin> set win \<longleftrightarrow> unat m \<le> n" if "denied w' = denied w"
  proof -
    have "0 \<notin> set win \<longleftrightarrow> (\<forall>k < unat m. k < n)" using w(1,3) that by (auto simp: in_set_conv_nth)
    also have "\<dots> \<longleftrightarrow> unat m \<le> n" by (meson leI less_irrefl less_le_trans)
    finally show ?thesis .
  qed
  then show ?thesis using r w(1,2) by blast
qed

text \<open>
  A run from any state of the books: with every request granted it prints its row unless the
  arguments are bad, and whenever it does, the books hold the two arrays, the held set and the
  filled slots of the window.
\<close>

lemma probe_run:
  assumes "booked w" and a: "a = parse_probe_args argv"
    and sz: "{held_count a * 8, held_kb a * 1024, churn_window a * 8, churn_kb a * 1024} \<subseteq> sizes"
    and cnt: "unat (held_count a) < 2 ^ 61" "unat (churn_window a) < 2 ^ 61"
    and run: "lifetime_probe (metered al) smaps argv w = (e, w')"
  shows "(denied w < denied w' \<and> (\<exists>s. e = Perror s)) \<or>
    (e = Div_by_zero \<and> churn_window a = 0 \<and> probe_iters a \<noteq> 0) \<or>
    (\<exists>row held win. row = make_row a (smaps 0) (smaps 1) (smaps 2) \<and>
       e = (if held_count a = 0 then Read_outside row else Printed row held win) \<and>
       (churn_window a = 0 \<longrightarrow> probe_iters a = 0) \<and>
       holds_window a w w' held win)"
    (is "?refused \<or> ?zero \<or> ?ok")
proof -
  let ?h = "unat (held_count a)" and ?m = "unat (churn_window a)" and ?n = "unat (probe_iters a)"
  let ?row = "make_row a (smaps 0) (smaps 1) (smaps 2)" and ?cb = "churn_kb a * 1024"
  have sz': "{held_count a * 8, held_kb a * 1024, churn_window a * 8} \<subseteq> sizes" using sz by simp
  consider ?refused
    | q1 held q2 and w2 w3 :: "'h metered workload" where "ledger w q1 = None" "length held = ?h" "0 \<notin> set held"
      "fills ((ledger w)(q1 \<mapsto> 8 * ?h)) (unat (held_kb a * 1024)) held (ledger w2)"
      "ledger w2 q2 = None" "ledger w3 = (ledger w2)(q2 \<mapsto> 8 * ?m)" "booked w3" "denied w3 = denied w"
      "(e, w') = (case for_each (churn_one (metered al) (churn_window a) ?cb) [0..<?n] (replicate ?m 0, w3) of
         Inl e \<Rightarrow> e
       | Inr (win, w) \<Rightarrow> let row = ?row in (if held_count a = 0 then Read_outside row else Printed row held win, w))"
    using probe_setup [OF assms(1) a sz' cnt, of smaps] unfolding run by blast
  then show ?thesis
  proof cases
    case 2
    have f3: "fills ((ledger w2)(q2 \<mapsto> 8 * ?m)) (unat ?cb) (replicate ?m 0) (ledger w3)" unfolding 2(6) by (rule fills_start)
    show ?thesis
    proof (cases "churn_window a = 0 \<and> probe_iters a \<noteq> 0")
      case True
      then have "[0..<?n] = 0 # [1..<?n]" by (simp add: upt_conv_Cons unat_gt_0)
      then show ?thesis using 2(9) True by (simp add: churn_one_def)
    next
      case False
      then have cb: "?cb \<in> sizes" and z: "churn_window a = 0 \<longrightarrow> ?n = 0" using sz by auto
      obtain win w4 where l: "for_each (churn_one (metered al) (churn_window a) ?cb) [0..<?n] (replicate ?m 0, w3) = Inr (win, w4)"
        and w4: "length win = ?m" "fills ((ledger w2)(q2 \<mapsto> 8 * ?m)) (unat ?cb) win (ledger w4)"
          "denied w4 = denied w3 \<longrightarrow> (0 \<notin> set win \<longleftrightarrow> ?m \<le> ?n)"
        using churn_ends [OF cb 2(7) f3 z] by blast
      have e: "e = (if held_count a = 0 then Read_outside ?row else Printed ?row held win)" "w' = w4"
        using 2(9) l by (simp_all add: Let_def)
      note books = bytes_of_arrays [OF 2(1,4,5) w4(2)]
      have h: "set held - {0} = set held" using 2(3) by simp
      have "held ! k \<noteq> 0" if "k < length held" for k using that 2(3) by (metis nth_mem)
      then have dh: "distinct held" using 2(4) by (auto simp: fills_def distinct_conv_nth inj_on_def)
      then have "card (set held - {0}) = ?h" using distinct_card [OF dh] 2(2) h by simp
      then have "holds_window a w w' held win"
        using e 2(2,3,8) dh w4(1,3) books fills_card [OF w4(2)] by (auto simp: holds_window_def h)
      then show ?thesis using e(1) False by blast
    qed
  qed blast
qed

end

section \<open>What the row says\<close>

lemma sint_small: "unat x = n \<Longrightarrow> n < 2 ^ 63 \<Longrightarrow> sint x = int n" for x :: u64
  by (simp add: sint_uint uint_nat signed_take_bit_int_eq_self)

lemma make_row_live:
  assumes "unat (held_count a) * unat (held_kb a) + unat (churn_window a) * unat (churn_kb a) < 2 ^ 63"
  shows "pr_live (make_row a f1 f2 f3) =
    int (unat (held_count a) * unat (held_kb a) + unat (churn_window a) * unat (churn_kb a))"
proof -
  have "unat (held_count a * held_kb a + churn_window a * churn_kb a) =
      unat (held_count a) * unat (held_kb a) + unat (churn_window a) * unat (churn_kb a)"
    using assms by (simp add: unat_word_ariths)
  then show ?thesis using sint_small [OF _ assms] by (simp add: make_row_def Let_def)
qed

lemma unat_kb: "unat k < 2 ^ 54 \<Longrightarrow> unat (k * 1024) = 1024 * unat k" for k :: u64
  by (simp add: unat_word_ariths)

lemma kib_difference: "int (x + m) * 1024 = int (8 * y + 1024 * (x + n)) - int (8 * y) \<longleftrightarrow> m = n"
  by (auto simp: algebra_simps)

lemma window_full:
  fixes win :: "addr list"
  assumes "card (set win - {0}) = card {k. k < length win \<and> win ! k \<noteq> 0}"
  shows "card (set win - {0}) = length win \<longleftrightarrow> 0 \<notin> set win"
proof
  assume "0 \<notin> set win"
  then have "win ! k \<noteq> 0" if "k < length win" for k using that by (metis nth_mem)
  then have "{k. k < length win \<and> win ! k \<noteq> 0} = {..<length win}" by auto
  then show "card (set win - {0}) = length win" using assms by simp
next
  assume "card (set win - {0}) = length win"
  then have "{k. k < length win \<and> win ! k \<noteq> 0} = {..<length win}"
    using assms by (intro card_subset_eq) auto
  then show "0 \<notin> set win" by (auto simp: in_set_conv_nth)
qed

text \<open>
  C40: Over any allocator that keeps its contract (no chunk in use is given out twice; a request may
  be refused) and with arguments whose products do not wrap, the probe prints its row unless a
  request was refused while it set up.  Then the held set is full of chunks of \<open>held_kb\<close> KiB, the
  window holds chunks of \<open>churn_kb\<close> KiB, and the live KiB it prints are those of the chunks it has
  taken and not freed, less its two pointer arrays, exactly when the window is full (or its chunks
  are empty).  With every request granted the window is full exactly when the turns went round it
  once; with fewer turns the row counts chunks that were never allocated.
\<close>

theorem probe_live_exact:
  assumes "heap_contract al sizes ok live may_refuse"
    and "ok (mt_heap (wl_heap w))" and "dom (mt_ledger (wl_heap w)) = live (mt_heap (wl_heap w))"
    and "a = parse_probe_args argv" and "held_count a \<noteq> 0" and "churn_window a \<noteq> 0"
    and "{held_count a * 8, held_kb a * 1024, churn_window a * 8, churn_kb a * 1024} \<subseteq> sizes"
    and "unat (held_count a) < 2 ^ 61" and "unat (churn_window a) < 2 ^ 61"
    and "unat (held_kb a) < 2 ^ 54" and "unat (churn_kb a) < 2 ^ 54"
    and "unat (held_count a) * unat (held_kb a) + unat (churn_window a) * unat (churn_kb a) < 2 ^ 63"
    and "lifetime_probe (metered al) smaps argv w = (e, w')"
  shows "(\<exists>s. e = Perror s \<and> mt_refused (wl_heap w) < mt_refused (wl_heap w')) \<or>
    (\<exists>row held win. e = Printed row held win \<and>
       length held = unat (held_count a) \<and> distinct held \<and> length win = unat (churn_window a) \<and>
       (\<forall>p \<in> set held. p \<noteq> 0 \<and> mt_ledger (wl_heap w') p = Some (unat (held_kb a) * 1024)) \<and>
       (\<forall>p \<in> set win. p \<noteq> 0 \<longrightarrow> mt_ledger (wl_heap w') p = Some (unat (churn_kb a) * 1024)) \<and>
       (pr_live row * 1024 = int (bytes_since w w') - int (8 * (unat (held_count a) + unat (churn_window a))) \<longleftrightarrow>
          0 \<notin> set win \<or> churn_kb a = 0) \<and>
       (mt_refused (wl_heap w') = mt_refused (wl_heap w) \<longrightarrow>
          (0 \<notin> set win \<longleftrightarrow> unat (churn_window a) \<le> unat (probe_iters a))))"
proof -
  have b: "heap_contract.booked ok live w" using assms(1-3) by (simp add: heap_contract.booked_def)
  consider "\<exists>s. e = Perror s \<and> mt_refused (wl_heap w) < mt_refused (wl_heap w')"
    | held win where "e = Printed (make_row a (smaps 0) (smaps 1) (smaps 2)) held win" "holds_window a w w' held win"
    using heap_contract.probe_run [OF assms(1) b assms(4,7,8,9,13)] assms(5,6) by auto
  then show ?thesis
  proof cases
    case 2
    let ?c = "card (set win - {0})" and ?k = "unat (churn_kb a)" and ?row = "make_row a (smaps 0) (smaps 1) (smaps 2)"
    have "bytes_since w w' = 8 * (unat (held_count a) + unat (churn_window a)) + 1024 * (unat (held_count a) * unat (held_kb a) + ?c * ?k)"
    proof -
      have "bytes_since w w' = 8 * unat (held_count a) + 8 * unat (churn_window a) +
          unat (held_count a) * (1024 * unat (held_kb a)) + ?c * (1024 * ?k)"
        using 2(2) unat_kb [OF assms(10)] unat_kb [OF assms(11)] by (simp only: holds_window_def)
      then show ?thesis by simp
    qed
    moreover have "pr_live ?row = int (unat (held_count a) * unat (held_kb a) + length win * ?k)"
      using make_row_live [OF assms(12)] 2(2) by (simp add: holds_window_def)
    ultimately have "pr_live ?row * 1024 = int (bytes_since w w') - int (8 * (unat (held_count a) + unat (churn_window a))) \<longleftrightarrow>
        length win * ?k = ?c * ?k" by (simp only: kib_difference)
    also have "\<dots> \<longleftrightarrow> 0 \<notin> set win \<or> churn_kb a = 0"
      using window_full [of win] 2(2) by (auto simp: holds_window_def unat_eq_0)
    finally show ?thesis using 2
      by (intro disjI2 exI [of _ ?row] exI [of _ held] exI [of _ win])
        (auto simp: holds_window_def unat_kb [OF assms(10)] unat_kb [OF assms(11)])
  qed simp
qed

text \<open>The allocator of the examples: every request gets the next address, until the addresses are used up.\<close>

definition next_address :: "(nat \<times> addr list) allocator" where
  "next_address = \<lparr>
     am_malloc = (\<lambda>n (k, xs). if k < 2 ^ 48 then (of_nat (16 * (k + 1)), k + 1, of_nat (16 * (k + 1)) # xs) else (0, k, xs)),
     am_free = (\<lambda>p (k, xs). (k, filter (\<lambda>q. q \<noteq> p) xs))\<rparr>"

definition handed_out :: "nat \<times> addr list \<Rightarrow> bool" where
  "handed_out h \<longleftrightarrow> fst h \<le> 2 ^ 48 \<and> (\<forall>q \<in> set (snd h). unat q \<le> 16 * fst h)"

lemma unat_next: "k < 2 ^ 48 \<Longrightarrow> unat (of_nat (16 * (k + 1)) :: addr) = 16 * (k + 1)"
  by (simp only: unat_of_nat) simp

interpretation bump_addresses: heap_contract next_address UNIV handed_out "set \<circ> snd" "\<lambda>h. fst h = 2 ^ 48"
proof (unfold_locales, goal_cases)
  case (1 h n p h')
  obtain k xs where h: "h = (k, xs)" by (cases h)
  show ?case
  proof (cases "k < 2 ^ 48")
    case True
    have u: "unat (of_nat (16 * (k + 1)) :: addr) = 16 * (k + 1)" by (rule unat_next [OF True])
    then have "(of_nat (16 * (k + 1)) :: addr) \<noteq> 0" by (metis unat_0 Suc_eq_plus1 mult_eq_0_iff nat.distinct(1) zero_neq_numeral)
    moreover have "(of_nat (16 * (k + 1)) :: addr) \<notin> set xs" using 1(1) u by (auto simp: h handed_out_def)
    moreover have "unat q \<le> 16 * (k + 1)" if "q \<in> set xs" for q
      using 1(1) that by (fastforce simp: h handed_out_def)
    ultimately show ?thesis using 1(1,3) True u by (auto simp: h next_address_def handed_out_def)
  next
    case False
    then show ?thesis using 1(1,3) by (auto simp: h next_address_def handed_out_def)
  qed
next
  case (2 h p)
  then show ?case by (cases h) (auto simp: next_address_def handed_out_def)
qed

definition idle_workload :: "(nat \<times> addr list) metered workload" where
  "idle_workload = \<lparr>wl_heap = \<lparr>mt_heap = (0, []), mt_ledger = Map.empty, mt_refused = 0\<rparr>, wl_bytes = (\<lambda>_. 0),
     wl_sink = 0, wl_clock = 0, wl_naps = [], wl_out = []\<rparr>"

text \<open>Two held chunks of 4 KiB, a window of eight and three turns: 40 KiB are printed and 20 are held.\<close>

lemma short_churn_refused: "mt_refused (wl_heap (snd (lifetime_probe (metered next_address) (\<lambda>_. None) [2, 4, 8, 4, 3] idle_workload))) = 0"
  by (simp add: lifetime_probe_def parse_probe_args_def Let_def calloc_ptrs_def obtain_chunk_def metered_def next_address_def
      hold_one_def churn_one_def idle_workload_def upt_rec)

lemma probe_live_exact_witness:
  "\<exists>row held win w'. lifetime_probe (metered next_address) (\<lambda>_. None) [2, 4, 8, 4, 3] idle_workload = (Printed row held win, w') \<and>
     length held = 2 \<and> (\<forall>p \<in> set held. mt_ledger (wl_heap w') p = Some 4096) \<and> 0 \<in> set win \<and>
     pr_live row * 1024 \<noteq> int (bytes_since idle_workload w') - 80"
proof -
  let ?r = "lifetime_probe (metered next_address) (\<lambda>_. None) [2, 4, 8, 4, 3] idle_workload"
  have "handed_out (mt_heap (wl_heap idle_workload))"
    and "dom (mt_ledger (wl_heap idle_workload)) = (set \<circ> snd) (mt_heap (wl_heap idle_workload))"
    by (simp_all add: idle_workload_def handed_out_def)
  from probe_live_exact [OF bump_addresses.heap_contract_axioms this refl, of "[2, 4, 8, 4, 3]" "\<lambda>_. None" "fst ?r" "snd ?r"]
  show ?thesis using short_churn_refused
    by (cases ?r) (auto simp: parse_probe_args_def idle_workload_def)
qed

text \<open>
  Two arguments stop the probe: without a held chunk it reads outside the held array after printing
  its row, and with turns to take in an empty window it divides by zero and prints nothing.
\<close>

theorem probe_bad_arguments:
  assumes "heap_contract al sizes ok live may_refuse"
    and "ok (mt_heap (wl_heap w))" and "dom (mt_ledger (wl_heap w)) = live (mt_heap (wl_heap w))"
    and "a = parse_probe_args argv"
    and "{held_count a * 8, held_kb a * 1024, churn_window a * 8, churn_kb a * 1024} \<subseteq> sizes"
    and "unat (held_count a) < 2 ^ 61" and "unat (churn_window a) < 2 ^ 61"
    and "lifetime_probe (metered al) smaps argv w = (e, w')"
  shows "(\<exists>s. e = Perror s \<and> mt_refused (wl_heap w) < mt_refused (wl_heap w')) \<or>
    ((e = Div_by_zero \<longleftrightarrow> churn_window a = 0 \<and> probe_iters a \<noteq> 0) \<and>
     ((\<exists>row. e = Read_outside row) \<longleftrightarrow> held_count a = 0 \<and> (churn_window a = 0 \<longrightarrow> probe_iters a = 0)))"
proof -
  have b: "heap_contract.booked ok live w" using assms(1-3) by (simp add: heap_contract.booked_def)
  show ?thesis using heap_contract.probe_run [OF assms(1) b assms(4-8)] by (auto split: if_splits)
qed

lemma no_window_refused:
  "mt_refused (wl_heap (snd (lifetime_probe (metered next_address) (\<lambda>_. None) [1, 4, 0, 4, 1] idle_workload))) = 0"
  by (simp add: lifetime_probe_def parse_probe_args_def Let_def calloc_ptrs_def obtain_chunk_def metered_def next_address_def
      hold_one_def churn_one_def idle_workload_def upt_rec)

lemma probe_bad_arguments_witness:
  "fst (lifetime_probe (metered next_address) (\<lambda>_. None) [1, 4, 0, 4, 1] idle_workload) = Div_by_zero"
proof -
  let ?r = "lifetime_probe (metered next_address) (\<lambda>_. None) [1, 4, 0, 4, 1] idle_workload"
  have "handed_out (mt_heap (wl_heap idle_workload))"
    and "dom (mt_ledger (wl_heap idle_workload)) = (set \<circ> snd) (mt_heap (wl_heap idle_workload))"
    by (simp_all add: idle_workload_def handed_out_def)
  from probe_bad_arguments [OF bump_addresses.heap_contract_axioms this refl, of "[1, 4, 0, 4, 1]" "\<lambda>_. None" "fst ?r" "snd ?r"]
  show ?thesis using no_window_refused
    by (cases ?r) (auto simp: parse_probe_args_def idle_workload_def)
qed

end
