(* ===== verification/Micro_Bench.thy ===== *)
theory Micro_Bench
  imports Bump_Safety Codegen Workload
begin

text \<open>
  The microbenchmark \<open>src/bench/micro_jit_direct.cpp\<close>: a compiled BumpAlloc routine called in a
  loop without the interposed \<open>malloc\<close>, rewound to its first chunk before every trial, and the same
  loop over libc's \<open>malloc\<close> for comparison.
\<close>

section \<open>The program\<close>

definition TRIALS :: nat where
  "TRIALS = 25"

definition ITERS :: nat where
  "ITERS = 30000"

definition median_of :: "double list \<Rightarrow> double \<times> double list" where
  "median_of samples =
     (let xs = sort samples; n = length xs
      in (if odd n then xs ! (n div 2) else fmul (1 / 2) (fadd (xs ! (n div 2 - 1)) (xs ! (n div 2))), xs))"

record micro_line =
  ml_label :: string
  ml_med :: double
  ml_trials :: nat
  ml_iters :: nat
  ml_lo :: double
  ml_hi :: double

definition micro_report :: "string \<Rightarrow> double list \<Rightarrow> micro_line" where
  "micro_report label samples =
     (let (med, xs) = median_of samples
      in \<lparr>ml_label = label, ml_med = med, ml_trials = TRIALS, ml_iters = ITERS, ml_lo = xs ! 0,
          ml_hi = xs ! (TRIALS - 1)\<rparr>)"

definition micro_spec :: RoutineSpec where
  "micro_spec =
     \<lparr>rs_id = 0xfeedface, rs_strategy = BumpAlloc, rs_size = 48, rs_class_sizes = [0, 0, 0, 0], rs_class_count = 0\<rparr>"

text \<open>
  \<open>n\<close> calls of the routine, with the chunks they return.  \<open>None\<close> is a call that leaves the routine:
  it has used up the region and goes to \<open>deopt::handle\<close> and to \<open>g_real_malloc\<close>.
\<close>

fun jit_calls :: "os_env \<Rightarrow> u32 \<Rightarrow> nat \<Rightarrow> jit_state \<Rightarrow> (addr list \<times> jit_state) option" where
  "jit_calls env index 0 st = Some ([], st)"
| "jit_calls env index (Suc n) st =
     (case bump_alloc BumpAlloc env index 48 st of
        None \<Rightarrow> None
      | Some (p, st) \<Rightarrow> map_option (map_prod (Cons p) id) (jit_calls env index n st))"

definition rewind_bump :: "u32 \<Rightarrow> addr \<Rightarrow> jit_state \<Rightarrow> jit_state" where
  "rewind_bump slot base st = st\<lparr>tl_bumps := (tl_bumps st)(slot := (tl_bumps st slot)\<lparr>bs_ptr := base\<rparr>)\<rparr>"

text \<open>One sample: the \<open>t\<close>-th trial reads the clock twice.\<close>

definition trial_sample :: "(nat \<Rightarrow> timespec) \<Rightarrow> nat \<Rightarrow> double" where
  "trial_sample clock t = fdiv (elapsed_ns (clock (2 * t)) (clock (2 * t + 1))) (d_of_nat ITERS)"

fun jit_trials ::
    "os_env \<Rightarrow> u32 \<Rightarrow> u32 \<Rightarrow> addr \<Rightarrow> (nat \<Rightarrow> timespec) \<Rightarrow> nat list \<Rightarrow> jit_state \<Rightarrow>
      ((double \<times> addr list) list \<times> jit_state) option" where
  "jit_trials env index slot base clock [] st = Some ([], st)"
| "jit_trials env index slot base clock (t # ts) st =
     (case jit_calls env index ITERS (rewind_bump slot base st) of
        None \<Rightarrow> None
      | Some (ps, st) \<Rightarrow>
          map_option (map_prod (Cons (trial_sample clock t, ps)) id) (jit_trials env index slot base clock ts st))"

text \<open>
  \<open>run_jit_direct\<close>, by a thread whose slot for the next index is unset: the ways it ends, and on
  success the chunks of every trial beside the line.
\<close>

datatype micro_end =
    Compile_failed
  | First_null
  | Left_routine
  | Ran micro_line "addr list list"

definition run_jit_direct ::
    "link_env \<Rightarrow> os_env \<Rightarrow> (nat \<Rightarrow> timespec) \<Rightarrow> codegen_state \<Rightarrow> jit_state \<Rightarrow> micro_end" where
  "run_jit_direct le env clock cg st =
     (let index = cg_next_index cg
      in case compile le micro_spec cg of
           (None, cg) \<Rightarrow> Compile_failed
         | (Some page, cg) \<Rightarrow>
             (case bump_alloc BumpAlloc env index 48 st of
                None \<Rightarrow> First_null
              | Some (base, st) \<Rightarrow>
                  if base = 0 then First_null
                  else let slot = slot_index (headers (sg st) (seg_of base))
                       in case jit_trials env index slot base clock [0..<TRIALS] st of
                            None \<Rightarrow> Left_routine
                          | Some (rs, st) \<Rightarrow> Ran (micro_report ''jit_direct'' (map fst rs)) (map snd rs)))"

fun glibc_calls :: "'h allocator \<Rightarrow> nat \<Rightarrow> 'h \<Rightarrow> 'h" where
  "glibc_calls al 0 h = h"
| "glibc_calls al (Suc n) h = glibc_calls al n (snd (am_malloc al 48 h))"

definition run_glibc_reference :: "'h allocator \<Rightarrow> (nat \<Rightarrow> timespec) \<Rightarrow> 'h \<Rightarrow> micro_line \<times> 'h" where
  "run_glibc_reference al clock h =
     (micro_report ''glibc_ref '' (map (trial_sample clock) [0..<TRIALS]), (glibc_calls al ITERS ^^ TRIALS) h)"

text \<open>\<open>main\<close>: the exit code, and the lines of the measurements that were printed.\<close>

definition micro_main ::
    "link_env \<Rightarrow> os_env \<Rightarrow> (nat \<Rightarrow> timespec) \<Rightarrow> codegen_state \<Rightarrow> jit_state \<Rightarrow> 'h allocator \<Rightarrow> 'h \<Rightarrow>
      (int \<times> micro_line list) option" where
  "micro_main le env clock cg st al h =
     (case run_jit_direct le env clock cg st of
        Ran l ps \<Rightarrow> Some (0, [l, fst (run_glibc_reference al (\<lambda>i. clock (i + 2 * TRIALS)) h)])
      | Left_routine \<Rightarrow> None
      | _ \<Rightarrow> Some (1, []))"

section \<open>The loop stays in the region\<close>

lemma jit_calls_bump:
  assumes "unat (bs_ptr (tl_bumps st i)) = unat s + 64 + k * 48" and "bs_end (tl_bumps st i) = segment_end s"
    and "seg_ok s" and "(k + n) * 48 + 64 < 0x200000"
  shows "\<exists>st'. jit_calls env i n st = Some (map (\<lambda>j. bs_ptr (tl_bumps st i) + of_nat j * 48) [0..<n], st') \<and>
    bs_end (tl_bumps st' i) = segment_end s \<and> sg st' = sg st"
  using assms
proof (induction n arbitrary: st k)
  case 0
  then show ?case by simp
next
  case (Suc n)
  let ?p = "bs_ptr (tl_bumps st i)" and ?st = "jit_bump i 48 st"
  have "unat s < 2 ^ 48" using Suc.prems(3) by (simp add: seg_ok_def)
  moreover have e: "unat (segment_end s) = unat s + 0x200000" using unat_payload(2) [OF Suc.prems(3)] .
  moreover have "Suc k * 48 \<le> (k + Suc n) * 48" by (intro mult_le_mono1) simp
  ultimately have u: "unat (?p + 48) = unat s + 64 + Suc k * 48" using Suc.prems(1,4)
    by (subst unat_add_lem [THEN iffD1]) simp_all
  then have "?p + ucast (48 :: u32) < bs_end (tl_bumps st i)"
    using Suc.prems(2,4) e by (simp add: word_less_nat_alt)
  then have a: "bump_alloc BumpAlloc env i 48 st = Some (?p, ?st)" by (simp add: bump_alloc_def Let_def)
  have t: "tl_bumps ?st i = \<lparr>bs_ptr = ?p + 48, bs_end = segment_end s\<rparr>" "sg ?st = sg st"
    using Suc.prems(2) by (simp_all add: jit_bump_def)
  obtain st' where st': "jit_calls env i n ?st = Some (map (\<lambda>j. ?p + 48 + of_nat j * 48) [0..<n], st')"
    "bs_end (tl_bumps st' i) = segment_end s" "sg st' = sg st"
    using Suc.IH [of ?st "Suc k"] u t Suc.prems(3,4) by auto
  have "[0..<Suc n] = 0 # map Suc [0..<n]" by (simp add: map_Suc_upt upt_conv_Cons del: upt_Suc)
  then have "?p # map (\<lambda>j. ?p + 48 + of_nat j * 48) [0..<n] = map (\<lambda>j. ?p + of_nat j * 48) [0..<Suc n]"
    by (simp add: algebra_simps del: upt_Suc)
  then show ?case using a st' by (simp del: upt_Suc)
qed

lemma jit_trials_bump:
  assumes "base = payload_start s" and "bs_end (tl_bumps st i) = segment_end s" and "seg_ok s"
  shows "\<exists>st'. jit_trials env i i base clock ts st =
    Some (map (\<lambda>t. (trial_sample clock t, map (\<lambda>j. base + of_nat j * 48) [0..<ITERS])) ts, st')"
  using assms(2)
proof (induction ts arbitrary: st)
  case (Cons t ts)
  have "unat base = unat s + 64" using assms(1) unat_payload(1) [OF assms(3)] by simp
  then obtain st' where st': "jit_calls env i ITERS (rewind_bump i base st) =
      Some (map (\<lambda>j. base + of_nat j * 48) [0..<ITERS], st')" "bs_end (tl_bumps st' i) = segment_end s"
    using jit_calls_bump [of "rewind_bump i base st" i s 0 ITERS env] Cons.prems assms(3)
    by (auto simp: rewind_bump_def ITERS_def simp del: upt.simps jit_calls.simps)
  then show ?case using Cons.IH [OF st'(2)] by auto
qed simp

lemma micro_report_range:
  assumes "length xs = TRIALS" and "l = micro_report label xs"
  shows "x \<in> set xs \<Longrightarrow> ml_lo l \<le> x \<and> x \<le> ml_hi l" and "ml_lo l \<le> ml_med l \<and> ml_med l \<le> ml_hi l"
proof -
  have l: "ml_lo l = sort xs ! 0" "ml_hi l = sort xs ! 24" "ml_med l = sort xs ! 12" and n: "length (sort xs) = 25"
    using assms by (simp_all add: micro_report_def median_of_def TRIALS_def Let_def)
  have mono: "sort xs ! i \<le> sort xs ! j" if "i \<le> j" "j < 25" for i j
    using that n by (intro sorted_nth_mono) simp_all
  show "ml_lo l \<le> ml_med l \<and> ml_med l \<le> ml_hi l" using mono by (simp add: l)
  assume "x \<in> set xs"
  then have "x \<in> set (sort xs)" by simp
  then obtain i where i: "i < 25" "x = sort xs ! i" using n by (auto simp: in_set_conv_nth simp del: set_sort)
  then have "sort xs ! 0 \<le> x" "x \<le> sort xs ! 24" using mono [of 0 i] mono [of i 24] by simp_all
  then show "ml_lo l \<le> x \<and> x \<le> ml_hi l" using l by simp
qed

text \<open>
  C39: On a thread whose slot is unset, with address space for the segment, \<open>run_jit_direct\<close> never
  leaves the routine: each of the 25 trials hands out the same 30000 chunks, one behind the other
  from the segment's payload on and all inside the segment, and the printed range is the smallest
  and the largest sample, with the median between them.
\<close>

theorem micro_jit_stays_in_segment:
  assumes "cg_next_index cg < 4096" and "le_page le \<noteq> 0" and "seg_inv (sg st)"
    and "tl_bumps st (cg_next_index cg) = \<lparr>bs_ptr = 0, bs_end = 0\<rparr>" and "mmap_fresh env (sg st)"
  shows "\<exists>s l. seg_ok s \<and>
    run_jit_direct le env clock cg st =
      Ran l (replicate 25 (map (\<lambda>j. payload_start s + of_nat j * 48) [0..<30000])) \<and>
    (\<forall>j < 30000. unat (payload_start s + of_nat j * 48) = unat s + 64 + j * 48 \<and>
       unat s + 64 + j * 48 + 48 \<le> unat s + 0x200000) \<and>
    (\<forall>t < 25. ml_lo l \<le> trial_sample clock t \<and> trial_sample clock t \<le> ml_hi l) \<and>
    ml_lo l \<le> ml_med l \<and> ml_med l \<le> ml_hi l"
proof -
  let ?i = "cg_next_index cg"
  obtain cg' where c: "compile le micro_spec cg = (Some (le_page le), cg')"
    using compile_succeeds_iff [of le micro_spec cg] assms(1,2) by (cases "compile le micro_spec cg") (simp add: micro_spec_def)
  obtain lo where lo: "os_mmap env = Some lo" "unat lo + 0x400000 \<le> 2 ^ 47" "lo \<noteq> 0"
    "\<forall>a \<in> set (g_index (sg st)). \<not> (unat lo \<le> unat a \<and> unat a < unat lo + 0x400000)"
    by (rule mmap_fresh_index [OF assms(3,5)])
  obtain s st1 where b: "bump_segment BumpAlloc env ?i 48 st = Some (payload_start s, st1)" and s: "seg_ok s"
    and h: "slot_index (headers (sg st1) s) = ?i" and t: "bs_end (tl_bumps st1 ?i) = segment_end s"
    using bump_segment_ok [OF assms(3) lo, of BumpAlloc ?i 48] by (auto simp: new_header_def)
  have a: "bump_alloc BumpAlloc env ?i 48 st = Some (payload_start s, st1)"
    using b assms(4) by (simp add: bump_alloc_def)
  have p: "unat (payload_start s) = unat s + 64" by (rule unat_payload(1) [OF s])
  have sb: "unat s < 2 ^ 48" using s by (simp add: seg_ok_def)
  have so: "seg_of (payload_start s) = s" using s p by (intro seg_of_eq) (simp_all add: seg_ok_def in_segment_def)
  have nz: "payload_start s \<noteq> 0" using p by auto
  obtain st2 where j: "jit_trials env ?i ?i (payload_start s) clock [0..<TRIALS] st1 =
      Some (map (\<lambda>t. (trial_sample clock t, map (\<lambda>j. payload_start s + of_nat j * 48) [0..<ITERS])) [0..<TRIALS], st2)"
    using jit_trials_bump [OF refl t s] by blast
  define xs where "xs = map (trial_sample clock) [0..<TRIALS]"
  let ?l = "micro_report ''jit_direct'' xs"
  have "run_jit_direct le env clock cg st =
      Ran ?l (map (\<lambda>t. map (\<lambda>j. payload_start s + of_nat j * 48) [0..<ITERS]) [0..<TRIALS])"
    by (simp add: run_jit_direct_def c a nz so h j xs_def comp_def del: upt.simps)
  then have r: "run_jit_direct le env clock cg st =
      Ran ?l (replicate 25 (map (\<lambda>j. payload_start s + of_nat j * 48) [0..<30000]))"
    by (simp add: map_replicate_const ITERS_def TRIALS_def del: upt.simps)
  have "unat (payload_start s + of_nat j * 48) = unat s + 64 + j * 48" if "j < 30000" for j
  proof -
    have "unat (of_nat (j * 48) :: addr) = j * 48" using that by (simp add: unat_of_nat del: of_nat_mult)
    then show ?thesis using that p sb by (subst unat_add_lem [THEN iffD1]) simp_all
  qed
  moreover have "length xs = TRIALS" by (simp add: xs_def)
  moreover have "trial_sample clock t \<in> set xs" if "t < 25" for t using that by (simp add: xs_def TRIALS_def)
  ultimately show ?thesis using s r micro_report_range [of xs ?l] by (intro exI [of _ s] exI [of _ ?l]) auto
qed

lemma micro_jit_stays_in_segment_witness:
  "\<exists>s l. seg_ok s \<and> run_jit_direct demo_link (demo_mmap 0x10000000) (\<lambda>i. \<lparr>tv_sec = 0, tv_nsec = int i\<rparr>) demo_cg demo_jit =
      Ran l (replicate 25 (map (\<lambda>j. payload_start s + of_nat j * 48) [0..<30000]))"
proof -
  have "tl_bumps demo_jit (cg_next_index demo_cg) = \<lparr>bs_ptr = 0, bs_end = 0\<rparr>" by (simp add: demo_jit_def)
  moreover have "mmap_fresh (demo_mmap 0x10000000) (sg demo_jit)"
    using demo_mapping demo_unmanaged unfolding mmap_fresh_def by blast
  moreover have "cg_next_index demo_cg < 4096" "le_page demo_link \<noteq> 0" by (simp_all add: demo_cg_def demo_link_def)
  ultimately show ?thesis
    using micro_jit_stays_in_segment [OF _ _ demo_jit_inv(1)] by blast
qed

end
