(* ===== verification/Parking.thy ===== *)
theory Parking
  imports Background
begin

text \<open>
  How the background thread parks (\<open>src/src/analysis/futex.h\<close> and \<open>background_loop\<close>): one step is
  one shared access of the background thread, of a recording thread or of the thread that stops the
  library.  A ring is the number of its waiting events.  \<open>FUTEX_WAIT\<close> sleeps if the word still holds
  the expected value, and ends by a \<open>FUTEX_WAKE\<close> or the timeout; accesses are in program order.
\<close>

section \<open>Steps\<close>

datatype bg_place =
    Top
  | Scan "nat list" bool
  | Check
  | Cas
  | Sys
  | Asleep
  | Ret
  | Final "nat list"
  | Done

text \<open>A recording thread behind a push, and the stopping thread, which starts at \<open>W_flag\<close>.\<close>

datatype waker = W_idle | W_load | W_store | W_wake | W_flag | W_join

record park =
  pk_word :: FutexState
  pk_running :: bool
  pk_backoff :: u32
  pk_bg :: bg_place
  pk_rings :: "nat \<Rightarrow> nat"
  pk_threads :: "nat \<Rightarrow> waker"
  pk_stopper :: waker

definition park_start :: park where
  "park_start =
     \<lparr>pk_word = AWAKE, pk_running = True, pk_backoff = 1, pk_bg = Top, pk_rings = (\<lambda>_. 0),
      pk_threads = (\<lambda>_. W_idle), pk_stopper = W_flag\<rparr>"

text \<open>\<open>futex_wait\<close>; the step out of \<open>Asleep\<close> is the timeout.\<close>

definition futex_wait_step :: "park \<Rightarrow> park" where
  "futex_wait_step s =
     (case pk_bg s of
        Cas \<Rightarrow> s\<lparr>pk_word := (if pk_word s = AWAKE then SLEEPING else pk_word s), pk_bg := Sys\<rparr>
      | Sys \<Rightarrow> s\<lparr>pk_bg := (if pk_word s = SLEEPING then Asleep else Ret)\<rparr>
      | Asleep \<Rightarrow> s\<lparr>pk_bg := Ret\<rparr>
      | Ret \<Rightarrow> s\<lparr>pk_word := AWAKE, pk_bg := Top\<rparr>
      | _ \<Rightarrow> s)"

text \<open>The loop around it.\<close>

definition background_wait_step :: "nat list \<Rightarrow> park \<Rightarrow> park" where
  "background_wait_step rs s =
     (case pk_bg s of
        Top \<Rightarrow> s\<lparr>pk_bg := (if pk_running s then Scan rs False else Final rs)\<rparr>
      | Scan (r # ps) found \<Rightarrow>
          (if 0 < pk_rings s r
           then s\<lparr>pk_rings := (pk_rings s)(r := pk_rings s r - 1), pk_bg := Scan (r # ps) True\<rparr>
           else s\<lparr>pk_bg := Scan ps found\<rparr>)
      | Scan [] found \<Rightarrow>
          (if found then s\<lparr>pk_backoff := 1, pk_bg := Top\<rparr>
           else if pk_backoff s < 500 then s\<lparr>pk_backoff := next_backoff (pk_backoff s), pk_bg := Top\<rparr>
           else s\<lparr>pk_bg := Check\<rparr>)
      | Check \<Rightarrow> s\<lparr>pk_bg := (if pk_running s then Cas else Final rs)\<rparr>
      | Final (r # ps) \<Rightarrow>
          (if 0 < pk_rings s r then s\<lparr>pk_rings := (pk_rings s)(r := pk_rings s r - 1)\<rparr>
           else s\<lparr>pk_bg := Final ps\<rparr>)
      | Final [] \<Rightarrow> s\<lparr>pk_bg := Done\<rparr>
      | Done \<Rightarrow> s
      | _ \<Rightarrow> futex_wait_step s)"

definition push_event :: "nat \<Rightarrow> park \<Rightarrow> park" where
  "push_event t s =
     (let n = pk_rings s t
      in if 1024 \<le> n then s
         else s\<lparr>pk_rings := (pk_rings s)(t := n + 1),
                pk_threads := (if n = 0 then (pk_threads s)(t := W_load) else pk_threads s)\<rparr>)"

text \<open>One access of \<open>futex_wake\<close>, whoever calls it, and the place behind it.\<close>

definition wake_access :: "waker \<Rightarrow> waker \<Rightarrow> park \<Rightarrow> waker \<times> park" where
  "wake_access back w s =
     (case w of
        W_load \<Rightarrow> (if pk_word s = SLEEPING then W_store else back, s)
      | W_flag \<Rightarrow> (W_store, s\<lparr>pk_running := False\<rparr>)
      | W_store \<Rightarrow> (W_wake, s\<lparr>pk_word := AWAKE\<rparr>)
      | W_wake \<Rightarrow> (back, s\<lparr>pk_bg := (if pk_bg s = Asleep then Ret else pk_bg s)\<rparr>)
      | _ \<Rightarrow> (w, s))"

definition notify_step :: "nat \<Rightarrow> park \<Rightarrow> park" where
  "notify_step t s =
     (let (w, s') = wake_access W_idle (pk_threads s t) s in s'\<lparr>pk_threads := (pk_threads s')(t := w)\<rparr>)"

definition stop_step :: "park \<Rightarrow> park" where
  "stop_step s = (let (w, s') = wake_access W_join (pk_stopper s) s in s'\<lparr>pk_stopper := w\<rparr>)"

inductive park_step :: "nat list \<Rightarrow> park \<Rightarrow> park \<Rightarrow> bool" for rs where
  background: "park_step rs s (background_wait_step rs s)"
| push: "t \<in> set rs \<Longrightarrow> pk_threads s t = W_idle \<Longrightarrow> park_step rs s (push_event t s)"
| notify: "pk_threads s t \<noteq> W_idle \<Longrightarrow> park_step rs s (notify_step t s)"
| stop: "park_step rs s (stop_step s)"

inductive park_reach :: "nat list \<Rightarrow> park \<Rightarrow> bool" for rs where
  park_init: "park_reach rs park_start"
| park_next: "park_reach rs s \<Longrightarrow> park_step rs s s' \<Longrightarrow> park_reach rs s'"

section \<open>Asleep means reachable by a wake\<close>

text \<open>
  While the background thread sleeps, the word says so, or a thread that has reset it is about to
  wake the sleeper.
\<close>

definition park_inv :: "park \<Rightarrow> bool" where
  "park_inv s \<longleftrightarrow>
     (pk_bg s = Asleep \<longrightarrow> pk_word s = SLEEPING \<or> (\<exists>t. pk_threads s t = W_wake) \<or> pk_stopper s = W_wake) \<and>
     (\<forall>t. pk_threads s t \<in> {W_idle, W_load, W_store, W_wake}) \<and>
     pk_stopper s \<in> {W_flag, W_store, W_wake, W_join} \<and> (pk_running s \<longleftrightarrow> pk_stopper s = W_flag) \<and>
     (pk_running s \<longrightarrow> pk_bg s \<noteq> Done \<and> (\<forall>ps. pk_bg s \<noteq> Final ps))"

lemma park_step_inv:
  assumes "park_step rs s s'" and "park_inv s"
  shows "park_inv s'"
  using assms
proof (cases rule: park_step.cases)
  case background
  then show ?thesis using assms(2)
    by (cases "pk_bg s") (auto simp: park_inv_def background_wait_step_def futex_wait_step_def split: list.splits if_splits)
next
  case (push t)
  have e: "pk_bg s' = pk_bg s" "pk_word s' = pk_word s" "pk_stopper s' = pk_stopper s" "pk_running s' = pk_running s"
    using push(1) by (simp_all add: push_event_def Let_def)
  have "pk_threads s ta = W_wake \<Longrightarrow> pk_threads s' ta = W_wake" for ta
    using push(1,3) by (auto simp: push_event_def Let_def)
  moreover have "pk_threads s' ta \<in> {W_idle, W_load, W_store, W_wake}" for ta
    using push(1) assms(2) by (simp add: park_inv_def push_event_def Let_def)
  ultimately show ?thesis using assms(2) unfolding park_inv_def e by blast
next
  case (notify t)
  have inv: "pk_bg s = Asleep \<longrightarrow> pk_word s = SLEEPING \<or> (\<exists>t. pk_threads s t = W_wake) \<or> pk_stopper s = W_wake"
    and th: "\<And>t. pk_threads s t \<in> {W_idle, W_load, W_store, W_wake}"
    and rest: "pk_stopper s \<in> {W_flag, W_store, W_wake, W_join}" "pk_running s \<longleftrightarrow> pk_stopper s = W_flag"
      "pk_running s \<longrightarrow> pk_bg s \<noteq> Done \<and> (\<forall>ps. pk_bg s \<noteq> Final ps)"
    using assms(2) unfolding park_inv_def by blast+
  consider "pk_threads s t = W_load" | "pk_threads s t = W_store" | "pk_threads s t = W_wake"
    using th [of t] notify(2) by auto
  then show ?thesis
  proof cases
    case 1
    then obtain w where w: "s' = s\<lparr>pk_threads := (pk_threads s)(t := w)\<rparr>" "w \<in> {W_idle, W_store}"
      using notify(1) by (auto simp: notify_step_def wake_access_def)
    have "pk_threads s ta = W_wake \<Longrightarrow> pk_threads s' ta = W_wake" for ta using w 1 by auto
    moreover have "pk_threads s' ta \<in> {W_idle, W_load, W_store, W_wake}" for ta using w th [of ta] by auto
    moreover have e: "pk_bg s' = pk_bg s" "pk_word s' = pk_word s" "pk_stopper s' = pk_stopper s" "pk_running s' = pk_running s"
      by (simp_all add: w(1))
    ultimately show ?thesis unfolding park_inv_def e using inv rest by blast
  next
    case 2
    then have s': "s' = s\<lparr>pk_word := AWAKE, pk_threads := (pk_threads s)(t := W_wake)\<rparr>"
      using notify(1) by (simp add: notify_step_def wake_access_def)
    have "pk_threads s' t = W_wake" by (simp add: s')
    moreover have "pk_threads s' ta \<in> {W_idle, W_load, W_store, W_wake}" for ta using s' th [of ta] by auto
    ultimately show ?thesis unfolding park_inv_def using rest s' by auto
  next
    case 3
    then have s': "s' = s\<lparr>pk_bg := (if pk_bg s = Asleep then Ret else pk_bg s), pk_threads := (pk_threads s)(t := W_idle)\<rparr>"
      using notify(1) by (simp add: notify_step_def wake_access_def)
    have "pk_threads s' ta \<in> {W_idle, W_load, W_store, W_wake}" for ta using s' th [of ta] by auto
    moreover have "pk_bg s' \<noteq> Asleep" by (simp add: s')
    ultimately show ?thesis unfolding park_inv_def using rest s' by auto
  qed
next
  case stop
  then show ?thesis using assms(2)
    by (auto simp: park_inv_def stop_step_def wake_access_def split: if_splits)
qed

lemma park_reach_inv: "park_reach rs s \<Longrightarrow> park_inv s"
proof (induction rule: park_reach.induct)
  case park_init
  show ?case by (simp add: park_inv_def park_start_def)
next
  case (park_next s s')
  then show ?case using park_step_inv by blast
qed

section \<open>The background thread alone\<close>

abbreviation alone :: "nat list \<Rightarrow> nat \<Rightarrow> park \<Rightarrow> park" where
  "alone rs k \<equiv> background_wait_step rs ^^ k"

text \<open>The sleeps that end by a timeout among the next \<open>k\<close> steps.\<close>

fun timeouts :: "nat list \<Rightarrow> nat \<Rightarrow> park \<Rightarrow> nat" where
  "timeouts rs 0 s = 0"
| "timeouts rs (Suc k) s = (if pk_bg s = Asleep then 1 else 0) + timeouts rs k (background_wait_step rs s)"

lemma alone_Suc: "alone rs (Suc k) s = alone rs k (background_wait_step rs s)"
  by (simp add: funpow_swap1)

lemma alone_add: "alone rs (j + k) s = alone rs k (alone rs j s)"
  by (metis add.commute comp_apply funpow_add)

lemma timeouts_add: "timeouts rs (j + k) s = timeouts rs j s + timeouts rs k (alone rs j s)"
  by (induction j arbitrary: s) (simp_all add: alone_Suc del: funpow.simps)

lemma scan_drains:
  "pk_bg s = Scan ps found \<Longrightarrow> \<exists>k q f. alone rs k s = s\<lparr>pk_rings := q, pk_bg := Scan [] f\<rparr> \<and> timeouts rs k s = 0 \<and>
     (\<forall>r \<in> set ps. q r = 0) \<and> (\<forall>r. q r \<le> pk_rings s r)"
proof (induction ps arbitrary: s found)
  case Nil
  then show ?case by (intro exI [of _ 0] exI [of _ "pk_rings s"] exI [of _ found]) simp
next
  case (Cons r ps)
  show ?case
    using Cons.prems
  proof (induction "pk_rings s r" arbitrary: s found)
    case 0
    let ?s = "background_wait_step rs s"
    have s: "?s = s\<lparr>pk_bg := Scan ps found\<rparr>" using 0 by (simp add: background_wait_step_def futex_wait_step_def)
    then obtain k q f where "alone rs k ?s = ?s\<lparr>pk_rings := q, pk_bg := Scan [] f\<rparr>" "timeouts rs k ?s = 0"
      "\<forall>r \<in> set ps. q r = 0" "\<forall>r. q r \<le> pk_rings ?s r" using Cons.IH [of ?s found] by auto
    moreover have "q r = 0" using calculation(4) s 0(1) by (metis le_zero_eq park.select_convs(5) park.surjective park.update_convs(4))
    ultimately show ?case using s 0(2) by (intro exI [of _ "Suc k"] exI [of _ q] exI [of _ f]) (simp add: alone_Suc del: funpow.simps)
  next
    case (Suc n)
    let ?s = "background_wait_step rs s"
    have s: "?s = s\<lparr>pk_rings := (pk_rings s)(r := n), pk_bg := Scan (r # ps) True\<rparr>"
      using Suc(2,3) by (simp add: background_wait_step_def futex_wait_step_def flip: Suc(2))
    then obtain k q f where "alone rs k ?s = ?s\<lparr>pk_rings := q, pk_bg := Scan [] f\<rparr>" "timeouts rs k ?s = 0"
      "\<forall>r \<in> set (r # ps). q r = 0" "\<forall>r. q r \<le> pk_rings ?s r" using Suc(1) [of ?s True] by auto
    moreover have "\<forall>r. q r \<le> pk_rings s r" using calculation(4) s Suc(2)
      by (metis fun_upd_apply le_Suc_eq park.select_convs(5) park.surjective park.update_convs(5) park.update_convs(4))
    ultimately show ?case using s Suc(3) by (intro exI [of _ "Suc k"] exI [of _ q] exI [of _ f]) (simp add: alone_Suc del: funpow.simps)
  qed
qed

text \<open>Where the loop turns: back to its head, or into the final drain.\<close>

definition at_turn :: "nat list \<Rightarrow> park \<Rightarrow> bool" where
  "at_turn rs s \<longleftrightarrow> pk_bg s = Top \<or> pk_bg s = Final rs \<and> \<not> pk_running s"

definition turns :: "nat list \<Rightarrow> park \<Rightarrow> bool" where
  "turns rs s \<longleftrightarrow>
     (\<exists>k. at_turn rs (alone rs k s) \<and> pk_running (alone rs k s) = pk_running s \<and> timeouts rs k s \<le> 1)"

lemma turnsI: "at_turn rs (alone rs k s) \<Longrightarrow> pk_running (alone rs k s) = pk_running s \<Longrightarrow> timeouts rs k s \<le> 1 \<Longrightarrow> turns rs s"
  unfolding turns_def by blast

lemma turns_after:
  assumes "turns rs (alone rs j s)" and "timeouts rs j s = 0" and "pk_running (alone rs j s) = pk_running s"
  shows "turns rs s"
proof -
  obtain k where "at_turn rs (alone rs k (alone rs j s))" "pk_running (alone rs k (alone rs j s)) = pk_running (alone rs j s)"
    "timeouts rs k (alone rs j s) \<le> 1" using assms(1) unfolding turns_def by blast
  then show ?thesis using assms(2,3) by (intro turnsI [of rs "j + k"]) (simp_all add: alone_add timeouts_add)
qed

lemma turns_ret: "pk_bg s = Ret \<Longrightarrow> turns rs s"
  by (rule turnsI [of rs 1]) (simp_all add: at_turn_def background_wait_step_def futex_wait_step_def)

lemma turns_asleep:
  assumes "pk_bg s = Asleep"
  shows "turns rs s"
  using assms
  by (intro turnsI [of rs 2]) (simp_all add: at_turn_def eval_nat_numeral alone_Suc background_wait_step_def futex_wait_step_def del: funpow.simps(2))

lemma one_step: "pk_bg s \<noteq> Asleep \<Longrightarrow> turns rs (background_wait_step rs s) \<Longrightarrow>
    pk_running (background_wait_step rs s) = pk_running s \<Longrightarrow> turns rs s"
  using turns_after [of rs 1 s] by simp

lemma turns_sys:
  assumes "pk_bg s = Sys"
  shows "turns rs s"
proof (cases "pk_word s")
  case AWAKE
  have "turns rs (background_wait_step rs s)" by (rule turns_ret) (simp add: background_wait_step_def futex_wait_step_def assms AWAKE)
  then show ?thesis by (rule one_step [rotated]) (simp_all add: background_wait_step_def futex_wait_step_def assms)
next
  case SLEEPING
  have "turns rs (background_wait_step rs s)" by (rule turns_asleep) (simp add: background_wait_step_def futex_wait_step_def assms SLEEPING)
  then show ?thesis by (rule one_step [rotated]) (simp_all add: background_wait_step_def futex_wait_step_def assms)
qed

lemma turns_cas:
  assumes "pk_bg s = Cas"
  shows "turns rs s"
proof -
  have "turns rs (background_wait_step rs s)" by (rule turns_sys) (simp add: background_wait_step_def futex_wait_step_def assms)
  then show ?thesis by (rule one_step [rotated]) (simp_all add: background_wait_step_def futex_wait_step_def assms)
qed

lemma turns_check:
  assumes "pk_bg s = Check"
  shows "turns rs s"
proof (cases "pk_running s")
  case True
  have "turns rs (background_wait_step rs s)" by (rule turns_cas) (simp add: background_wait_step_def futex_wait_step_def assms True)
  then show ?thesis by (rule one_step [rotated]) (simp_all add: background_wait_step_def futex_wait_step_def assms)
next
  case False
  then show ?thesis using assms
    by (intro turnsI [of rs 1]) (simp_all add: at_turn_def background_wait_step_def futex_wait_step_def)
qed

lemma turns_scanned:
  assumes "pk_bg s = Scan [] f"
  shows "turns rs s"
proof (cases "f \<or> pk_backoff s < 500")
  case True
  then have "\<not> f \<longrightarrow> pk_backoff s < 500" by blast
  then show ?thesis using assms
    by (intro turnsI [of rs 1]) (auto simp: at_turn_def background_wait_step_def futex_wait_step_def)
next
  case False
  have "turns rs (background_wait_step rs s)" by (rule turns_check) (use False in \<open>simp add: background_wait_step_def futex_wait_step_def assms\<close>)
  then show ?thesis by (rule one_step [rotated]) (use False in \<open>simp_all add: background_wait_step_def futex_wait_step_def assms\<close>)
qed

lemma turns_scan:
  assumes "pk_bg s = Scan ps f"
  shows "turns rs s"
proof -
  obtain k q f' where k: "alone rs k s = s\<lparr>pk_rings := q, pk_bg := Scan [] f'\<rparr>" "timeouts rs k s = 0"
    using scan_drains [OF assms, of rs] by blast
  have "turns rs (alone rs k s)" by (rule turns_scanned [of _ f']) (simp add: k(1))
  then show ?thesis by (rule turns_after) (simp_all add: k)
qed

lemma turns_always: "pk_bg s \<noteq> Done \<Longrightarrow> \<forall>ps. pk_bg s \<noteq> Final ps \<Longrightarrow> turns rs s"
proof (cases "pk_bg s")
  case Top
  then show ?thesis by (intro turnsI [of rs 0]) (simp_all add: at_turn_def)
qed (simp_all add: turns_ret turns_asleep turns_sys turns_cas turns_check turns_scan)

lemma top_drains:
  assumes "pk_bg s = Top" and "pk_running s"
  shows "\<exists>k. timeouts rs k s = 0 \<and> (\<forall>r \<in> set rs. pk_rings (alone rs k s) r = 0)"
proof -
  have t: "pk_bg (background_wait_step rs s) = Scan rs False" using assms by (simp add: background_wait_step_def futex_wait_step_def)
  obtain k q f where "alone rs k (background_wait_step rs s) = (background_wait_step rs s)\<lparr>pk_rings := q, pk_bg := Scan [] f\<rparr>"
    "timeouts rs k (background_wait_step rs s) = 0" "\<forall>r \<in> set rs. q r = 0" using scan_drains [OF t, of rs] by blast
  then show ?thesis using assms by (intro exI [of _ "Suc k"]) (simp add: alone_Suc del: funpow.simps)
qed

lemma final_ends: "pk_bg s = Final ps \<Longrightarrow> \<exists>k. pk_bg (alone rs k s) = Done \<and> timeouts rs k s = 0"
proof (induction ps arbitrary: s)
  case Nil
  then show ?case by (intro exI [of _ 1]) (simp add: background_wait_step_def futex_wait_step_def)
next
  case (Cons r ps)
  show ?case
    using Cons.prems
  proof (induction "pk_rings s r" arbitrary: s)
    case 0
    then have "pk_bg (background_wait_step rs s) = Final ps" by (simp add: background_wait_step_def futex_wait_step_def)
    from Cons.IH [OF this] 0(2) obtain k where "pk_bg (alone rs k (background_wait_step rs s)) = Done"
      "timeouts rs k (background_wait_step rs s) = 0" by blast
    then show ?case using 0(2) by (intro exI [of _ "Suc k"]) (simp add: alone_Suc del: funpow.simps)
  next
    case (Suc n)
    have "n = pk_rings (background_wait_step rs s) r" "pk_bg (background_wait_step rs s) = Final (r # ps)"
      using Suc(2,3) by (simp_all add: background_wait_step_def futex_wait_step_def flip: Suc(2))
    from Suc(1) [OF this] Suc(3) obtain k where "pk_bg (alone rs k (background_wait_step rs s)) = Done"
      "timeouts rs k (background_wait_step rs s) = 0" by blast
    then show ?case using Suc(3) by (intro exI [of _ "Suc k"]) (simp add: alone_Suc del: funpow.simps)
  qed
qed

text \<open>
  C33: A parked background thread always recovers.  Left alone, while the library runs, it has drained
  every ring after at most one timeout; once the library stops, it finishes after at most one
  timeout.  A thread that records into its empty ring while the background thread sleeps wakes it
  with its next three accesses, unless another thread is about to.
\<close>

theorem parked_thread_recovers:
  assumes "park_reach rs s"
  shows "(pk_running s \<longrightarrow> (\<exists>k. timeouts rs k s \<le> 1 \<and> (\<forall>r \<in> set rs. pk_rings (alone rs k s) r = 0))) \<and>
    (\<not> pk_running s \<longrightarrow> (\<exists>k. timeouts rs k s \<le> 1 \<and> pk_bg (alone rs k s) = Done)) \<and>
    (\<forall>t. pk_bg s = Asleep \<longrightarrow> pk_rings s t = 0 \<longrightarrow> pk_threads s t = W_idle \<longrightarrow>
       (let s' = (notify_step t ^^ 3) (push_event t s)
        in pk_bg s' \<noteq> Asleep \<or> (\<exists>u. u \<noteq> t \<and> pk_threads s' u = W_wake) \<or> pk_stopper s' = W_wake))"
proof (intro conjI impI allI)
  note inv = park_reach_inv [OF assms]
  assume run: "pk_running s"
  then have "turns rs s" using inv by (intro turns_always) (auto simp: park_inv_def)
  then obtain k where k: "pk_bg (alone rs k s) = Top" "pk_running (alone rs k s)" "timeouts rs k s \<le> 1"
    using run by (auto simp: turns_def at_turn_def)
  from top_drains [OF k(1,2)] obtain j where j: "timeouts rs j (alone rs k s) = 0"
    "\<forall>r \<in> set rs. pk_rings (alone rs j (alone rs k s)) r = 0" by blast
  then show "\<exists>k. timeouts rs k s \<le> 1 \<and> (\<forall>r \<in> set rs. pk_rings (alone rs k s) r = 0)"
    using k(3) by (intro exI [of _ "k + j"]) (simp add: alone_add timeouts_add)
next
  assume stop: "\<not> pk_running s"
  show "\<exists>k. timeouts rs k s \<le> 1 \<and> pk_bg (alone rs k s) = Done"
  proof (cases "pk_bg s = Done \<or> (\<exists>ps. pk_bg s = Final ps)")
    case True
    then show ?thesis
    proof
      assume "pk_bg s = Done"
      then show ?thesis by (intro exI [of _ 0]) simp
    qed (use final_ends [of s _ rs] in force)
  next
    case False
    then have "turns rs s" by (intro turns_always) auto
    then obtain k where k: "at_turn rs (alone rs k s)" "\<not> pk_running (alone rs k s)" "timeouts rs k s \<le> 1"
      using stop by (auto simp: turns_def)
    let ?t = "alone rs k s"
    obtain i where i: "pk_bg (alone rs i ?t) = Final rs" "timeouts rs i ?t = 0"
    proof (cases "pk_bg ?t = Top")
      case True
      then show ?thesis using that [of 1] k(2) by (simp add: background_wait_step_def futex_wait_step_def)
    next
      case False
      then show ?thesis using that [of 0] k(1) by (simp add: at_turn_def)
    qed
    from final_ends [OF i(1)] obtain j where j: "pk_bg (alone rs j (alone rs i ?t)) = Done" "timeouts rs j (alone rs i ?t) = 0"
      by blast
    then show ?thesis using k(3) i(2) by (intro exI [of _ "k + (i + j)"]) (simp add: alone_add timeouts_add)
  qed
next
  fix t assume a: "pk_bg s = Asleep" "pk_rings s t = 0" "pk_threads s t = W_idle"
  have p: "push_event t s = s\<lparr>pk_rings := (pk_rings s)(t := 1), pk_threads := (pk_threads s)(t := W_load)\<rparr>"
    using a(2) by (simp add: push_event_def)
  show "let s' = (notify_step t ^^ 3) (push_event t s)
      in pk_bg s' \<noteq> Asleep \<or> (\<exists>u. u \<noteq> t \<and> pk_threads s' u = W_wake) \<or> pk_stopper s' = W_wake"
  proof (cases "pk_word s")
    case SLEEPING
    then show ?thesis unfolding p by (simp add: eval_nat_numeral notify_step_def wake_access_def)
  next
    case AWAKE
    then have "(\<exists>u. pk_threads s u = W_wake) \<or> pk_stopper s = W_wake"
      using park_reach_inv [OF assms] a(1) unfolding park_inv_def by simp
    moreover have "u \<noteq> t" if "pk_threads s u = W_wake" for u using that a(3) by auto
    ultimately have "(\<exists>u. u \<noteq> t \<and> pk_threads s u = W_wake) \<or> pk_stopper s = W_wake" by blast
    moreover have "(notify_step t ^^ 3) (push_event t s) = (push_event t s)\<lparr>pk_threads := pk_threads s\<rparr>"
      unfolding p using AWAKE a(3) by (simp add: eval_nat_numeral notify_step_def wake_access_def fun_upd_idem)
    ultimately show ?thesis by (auto simp: p)
  qed
qed


section \<open>The missed wake-up\<close>

lemma park_reach_alone: "park_reach rs s \<Longrightarrow> park_reach rs (alone rs k s)"
  by (induction k) (auto intro: park_next background)

lemma idle_round:
  assumes "park_reach [0] (park_start\<lparr>pk_backoff := b\<rparr>)" and "b < 500"
  shows "park_reach [0] (park_start\<lparr>pk_backoff := next_backoff b\<rparr>)"
proof -
  have "alone [0] 3 (park_start\<lparr>pk_backoff := b\<rparr>) = park_start\<lparr>pk_backoff := next_backoff b\<rparr>"
    using assms(2) by (simp add: eval_nat_numeral alone_Suc background_wait_step_def futex_wait_step_def park_start_def del: funpow.simps(2))
  then show ?thesis using park_reach_alone [OF assms(1), of 3] by simp
qed

lemma about_to_park: "park_reach [0] (park_start\<lparr>pk_backoff := 500, pk_bg := Cas\<rparr>)"
proof -
  have start: "park_start\<lparr>pk_backoff := 1\<rparr> = park_start" by (simp add: park_start_def)
  have n: "next_backoff 1 = 2" "next_backoff 2 = 4" "next_backoff 4 = 8" "next_backoff 8 = 16" "next_backoff 16 = 32"
    "next_backoff 32 = 64" "next_backoff 64 = 128" "next_backoff 128 = 256" "next_backoff 256 = 500"
    by (simp_all add: next_backoff_def)
  have "park_reach [0] (park_start\<lparr>pk_backoff := 500\<rparr>)"
    using idle_round [of 1] idle_round [of 2] idle_round [of 4] idle_round [of 8] idle_round [of 16] idle_round [of 32]
      idle_round [of 64] idle_round [of 128] idle_round [of 256] park_init [of "[0]"]
    unfolding n start by simp
  moreover have "alone [0] 3 (park_start\<lparr>pk_backoff := 500\<rparr>) = park_start\<lparr>pk_backoff := 500, pk_bg := Check\<rparr>"
    by (simp add: eval_nat_numeral alone_Suc background_wait_step_def futex_wait_step_def park_start_def del: funpow.simps(2))
  ultimately have "park_reach [0] (park_start\<lparr>pk_backoff := 500, pk_bg := Check\<rparr>)"
    using park_reach_alone [of "[0]" _ 3] by metis
  from park_next [OF this background] show ?thesis by (simp add: background_wait_step_def futex_wait_step_def park_start_def)
qed


lemma missed_event:
  "\<exists>s. park_reach [0] s \<and> pk_bg s = Asleep \<and> pk_running s \<and> pk_rings s 0 = 1 \<and> pk_threads s 0 = W_idle"
proof -
  let ?p = "park_start\<lparr>pk_backoff := 500, pk_bg := Cas\<rparr>"
  let ?a = "alone [0] 2 (notify_step 0 (push_event 0 ?p))"
  have "park_reach [0] (push_event 0 ?p)"
    by (rule park_next [OF about_to_park push]) (simp_all add: park_start_def)
  then have "park_reach [0] (notify_step 0 (push_event 0 ?p))"
    by (rule park_next [OF _ notify]) (simp add: push_event_def park_start_def)
  then have "park_reach [0] ?a" by (rule park_reach_alone)
  moreover have "pk_bg ?a = Asleep" "pk_running ?a" "pk_rings ?a 0 = 1" "pk_threads ?a 0 = W_idle"
    by (simp_all add: eval_nat_numeral background_wait_step_def futex_wait_step_def notify_step_def wake_access_def push_event_def park_start_def)
  ultimately show ?thesis by blast
qed

lemma missed_stop:
  "\<exists>s. park_reach [0] s \<and> pk_bg s = Asleep \<and> pk_stopper s = W_join \<and> pk_threads s 0 = W_idle"
proof -
  let ?b = "alone [0] 2 (stop_step (stop_step (stop_step (park_start\<lparr>pk_backoff := 500, pk_bg := Cas\<rparr>))))"
  have "park_reach [0] ?b" by (intro park_reach_alone park_next [OF _ stop] about_to_park)
  moreover have "pk_bg ?b = Asleep" "pk_stopper ?b = W_join" "pk_threads ?b 0 = W_idle"
    by (simp_all add: eval_nat_numeral background_wait_step_def futex_wait_step_def stop_step_def wake_access_def park_start_def)
  ultimately show ?thesis by blast
qed

text \<open>
  The check before parking does not close the gap in front of \<open>FUTEX_WAIT\<close>.  An event recorded
  there is not announced, and neither is any event behind it; a stop whose wake falls there leaves
  the background thread asleep while the stopping thread waits to join it.  Only the timeout ends
  either sleep.
\<close>

theorem parking_misses_wakeup:
  "(\<exists>s. park_reach [0] s \<and> pk_bg s = Asleep \<and> pk_running s \<and> 0 < pk_rings s 0 \<and> pk_threads s 0 = W_idle \<and>
      pk_threads (push_event 0 s) 0 = W_idle) \<and>
   (\<exists>s. park_reach [0] s \<and> pk_bg s = Asleep \<and> pk_stopper s = W_join \<and> pk_threads s 0 = W_idle)"
proof (intro conjI missed_stop)
  obtain s where s: "park_reach [0] s" "pk_bg s = Asleep" "pk_running s" "pk_rings s 0 = 1" "pk_threads s 0 = W_idle"
    using missed_event by blast
  then have "pk_threads (push_event 0 s) 0 = W_idle" by (simp add: push_event_def)
  then show "\<exists>s. park_reach [0] s \<and> pk_bg s = Asleep \<and> pk_running s \<and> 0 < pk_rings s 0 \<and>
      pk_threads s 0 = W_idle \<and> pk_threads (push_event 0 s) 0 = W_idle"
    using s by (intro exI [of _ s]) simp
qed

text \<open>The sleeper that missed an event drains it after the timeout.\<close>

theorem parked_thread_recovers_witness:
  "\<exists>s k. park_reach [0] s \<and> pk_bg s = Asleep \<and> pk_rings s 0 = 1 \<and>
     timeouts [0] k s \<le> 1 \<and> pk_rings (alone [0] k s) 0 = 0"
proof -
  obtain s where s: "park_reach [0] s" "pk_bg s = Asleep" "pk_running s" "pk_rings s 0 = 1"
    using missed_event by blast
  with parked_thread_recovers [OF s(1)] show ?thesis by auto
qed

end
