(* ===== verification/Dump.thy ===== *)
theory Dump
  imports Convergence "HOL-Library.Multiset"
begin

text \<open>
  The figures of the report (\<open>src/src/analysis/dump.cpp\<close>): the names it prints, the rows of the
  per-site table, the summary counts, and the order statistics of the compilation points, which
  the code sorts with an insertion sort in place.  \<open>Report\<close> turns them into text.
\<close>

section \<open>Names and rows\<close>

primrec strategy_code :: "Strategy \<Rightarrow> nat" where
  "strategy_code Generic = 0"
| "strategy_code BumpAlloc = 1"
| "strategy_code ThreadLocalFreeList = 2"
| "strategy_code EpochArena = 3"
| "strategy_code PairedStack = 4"
| "strategy_code ProducerConsumer = 5"
| "strategy_code MultiSizeFreeList = 6"

primrec lifetime_code :: "LifetimeTag \<Rightarrow> nat" where
  "lifetime_code Unknown = 0"
| "lifetime_code Reap = 1"
| "lifetime_code Hold = 2"

primrec strategy_name :: "Strategy \<Rightarrow> string" where
  "strategy_name BumpAlloc = ''BumpAlloc''"
| "strategy_name ThreadLocalFreeList = ''TLFreeList''"
| "strategy_name EpochArena = ''EpochArena''"
| "strategy_name PairedStack = ''PairedStack''"
| "strategy_name ProducerConsumer = ''ProducerConsumer''"
| "strategy_name MultiSizeFreeList = ''MultiSizeFreeList''"
| "strategy_name Generic = ''-''"

primrec lifetime_name :: "LifetimeTag \<Rightarrow> string" where
  "lifetime_name Reap = ''Reap''"
| "lifetime_name Hold = ''Hold''"
| "lifetime_name Unknown = ''Unknown''"

definition phase_name :: "Phase \<Rightarrow> bool \<Rightarrow> string" where
  "phase_name p bl =
     (if bl then ''Blacklisted''
      else if p = Compiled then ''Compiled''
      else if p = Deopt then ''Deopt''
      else ''PreSpec'')"

primrec deopt_reason_name :: "DeoptReason \<Rightarrow> string" where
  "deopt_reason_name SizeDrift = ''SizeDrift''"
| "deopt_reason_name RegionExhaust = ''RegionExhaust''"
| "deopt_reason_name ThreadShift = ''ThreadShift''"
| "deopt_reason_name LifoViolation = ''LifoViolation''"
| "deopt_reason_name Other = ''Other''"
| "deopt_reason_name ReasonNone = ''None''"

record site_row =
  row_id :: CallSiteID
  row_events :: u64
  row_p50 :: u32
  row_p95 :: u32
  row_p99 :: u32
  row_first_compile :: "u64 option"
  row_phase :: string
  row_strategy :: string

definition site_row_of :: "CallSiteSummary \<Rightarrow> site_row" where
  "site_row_of s =
     (let h = (if cs_phase s = Compiled then baseline s else sw_hist (windows s ! active s))
      in \<lparr>row_id = cs_id s, row_events = event_count s,
          row_p50 = quantile (rnd (50 / 100)) h, row_p95 = quantile (rnd (95 / 100)) h,
          row_p99 = quantile (rnd (99 / 100)) h,
          row_first_compile = (if first_compile_events s = 0 then None else Some (first_compile_events s)),
          row_phase = phase_name (cs_phase s) (blacklisted s), row_strategy = strategy_name (candidate s)\<rparr>)"

definition per_site_table :: "CallSiteSummary list \<Rightarrow> site_row list" where
  "per_site_table ss = map site_row_of ss"

section \<open>The summary\<close>

record Summary =
  su_total :: nat
  su_compiled :: nat
  su_blacklist :: nat
  su_prespec :: nat
  su_deopt :: nat
  by_strategy :: "nat list"
  by_lifetime :: "nat list"
  total_events :: u64
  total_frees :: u64

definition summary_zero :: Summary where
  "summary_zero =
     \<lparr>su_total = 0, su_compiled = 0, su_blacklist = 0, su_prespec = 0, su_deopt = 0,
      by_strategy = replicate 7 0, by_lifetime = replicate 3 0, total_events = 0, total_frees = 0\<rparr>"

definition bump :: "nat \<Rightarrow> nat list \<Rightarrow> nat list" where
  "bump i xs = (if i < length xs then xs[i := xs ! i + 1] else xs)"

definition add_site :: "CallSiteSummary \<Rightarrow> Summary \<Rightarrow> Summary" where
  "add_site s r =
     (let r = r\<lparr>su_total := su_total r + 1, total_events := total_events r + event_count s,
                total_frees := total_frees r + free_count s\<rparr>;
          r = (if blacklisted s then r\<lparr>su_blacklist := su_blacklist r + 1\<rparr>
               else if cs_phase s = Compiled then r\<lparr>su_compiled := su_compiled r + 1\<rparr>
               else if cs_phase s = Deopt then r\<lparr>su_deopt := su_deopt r + 1\<rparr>
               else r\<lparr>su_prespec := su_prespec r + 1\<rparr>)
      in if cs_phase s = Compiled \<and> \<not> blacklisted s
         then r\<lparr>by_strategy := bump (strategy_code (candidate s)) (by_strategy r),
                by_lifetime := bump (lifetime_code (lifetime s)) (by_lifetime r)\<rparr>
         else r)"

definition build_summary :: "CallSiteSummary list \<Rightarrow> Summary" where
  "build_summary ss = fold add_site ss summary_zero"

section \<open>Order statistics\<close>

text \<open>The inner loop carries \<open>v\<close> down from position \<open>j\<close>; the outer one inserts position \<open>i\<close>.\<close>

fun sink :: "u64 list \<Rightarrow> u64 \<Rightarrow> nat \<Rightarrow> u64 list" where
  "sink xs v 0 = xs[0 := v]"
| "sink xs v (Suc j) = (if v < xs ! j then sink (xs[Suc j := xs ! j]) v j else xs[Suc j := v])"

lemma length_sink [simp]: "length (sink xs v j) = length xs"
  by (induction xs v j rule: sink.induct) simp_all

function insertion_sort :: "nat \<Rightarrow> u64 list \<Rightarrow> u64 list" where
  "insertion_sort i xs = (if i < length xs then insertion_sort (Suc i) (sink xs (xs ! i) i) else xs)"
  by pat_completeness auto
termination
  by (relation "measure (\<lambda>(i, xs). length xs - i)") auto

declare insertion_sort.simps [simp del]

record compile_stats =
  fce_min :: u64
  fce_p50 :: u64
  fce_p95 :: u64
  fce_max :: u64
  fce_n :: nat

definition compile_points :: "CallSiteSummary list \<Rightarrow> u64 list" where
  "compile_points ss = filter (\<lambda>v. v \<noteq> 0) (map first_compile_events ss)"

definition events_to_specialize :: "CallSiteSummary list \<Rightarrow> compile_stats option" where
  "events_to_specialize ss =
     (if 0 < su_compiled (build_summary ss)
      then let fces = insertion_sort 1 (compile_points ss); n = length fces
           in Some \<lparr>fce_min = (if n \<noteq> 0 then fces ! 0 else 0),
                    fce_p50 = (if n \<noteq> 0 then fces ! (n div 2) else 0),
                    fce_p95 = (if n \<noteq> 0 then fces ! (n * 95 div 100) else 0),
                    fce_max = (if n \<noteq> 0 then fces ! (n - 1) else 0), fce_n = n\<rparr>
      else None)"

section \<open>Every site is counted once\<close>

lemma length_bump [simp]: "length (bump i xs) = length xs"
  by (simp add: bump_def)

lemma sum_bump: "i < length xs \<Longrightarrow> sum_list (bump i xs) = sum_list xs + 1"
proof (induction xs arbitrary: i)
  case (Cons x xs)
  then show ?case by (cases i) (auto simp: bump_def)
qed simp

lemma nth_bump: "i < length xs \<Longrightarrow> bump i xs ! j = (if j = i then xs ! j + 1 else xs ! j)"
  by (simp add: bump_def)

lemma code_less: "strategy_code c < 7" "lifetime_code l < 3"
  by (cases c; simp) (cases l; simp)

definition jitted :: "CallSiteSummary \<Rightarrow> bool" where
  "jitted s \<longleftrightarrow> cs_phase s = Compiled \<and> \<not> blacklisted s"

lemma fold_add_site:
  assumes "length (by_strategy r) = 7" and "length (by_lifetime r) = 3"
  shows "su_total (fold add_site ss r) = su_total r + length ss"
    and "su_blacklist (fold add_site ss r) = su_blacklist r + length (filter blacklisted ss)"
    and "su_compiled (fold add_site ss r) = su_compiled r + length (filter jitted ss)"
    and "su_deopt (fold add_site ss r) = su_deopt r + length (filter (\<lambda>s. \<not> blacklisted s \<and> cs_phase s = Deopt) ss)"
    and "su_prespec (fold add_site ss r) = su_prespec r + length (filter (\<lambda>s. \<not> blacklisted s \<and> cs_phase s = PreSpec) ss)"
    and "length (by_strategy (fold add_site ss r)) = 7" and "length (by_lifetime (fold add_site ss r)) = 3"
    and "by_strategy (fold add_site ss r) ! strategy_code c =
      by_strategy r ! strategy_code c + length (filter (\<lambda>s. jitted s \<and> candidate s = c) ss)"
    and "by_lifetime (fold add_site ss r) ! lifetime_code l =
      by_lifetime r ! lifetime_code l + length (filter (\<lambda>s. jitted s \<and> lifetime s = l) ss)"
proof -
  have inj: "strategy_code a = strategy_code b \<longleftrightarrow> a = b" "lifetime_code x = lifetime_code y \<longleftrightarrow> x = y" for a b x y
    by (cases a; cases b; simp) (cases x; cases y; simp)
  have ph: "cs_phase s = PreSpec \<longleftrightarrow> cs_phase s \<noteq> Compiled \<and> cs_phase s \<noteq> Deopt" for s
    by (cases "cs_phase s") simp_all
  have "su_total (fold add_site ss r) = su_total r + length ss \<and>
    su_blacklist (fold add_site ss r) = su_blacklist r + length (filter blacklisted ss) \<and>
    su_compiled (fold add_site ss r) = su_compiled r + length (filter jitted ss) \<and>
    su_deopt (fold add_site ss r) = su_deopt r + length (filter (\<lambda>s. \<not> blacklisted s \<and> cs_phase s = Deopt) ss) \<and>
    su_prespec (fold add_site ss r) = su_prespec r + length (filter (\<lambda>s. \<not> blacklisted s \<and> cs_phase s = PreSpec) ss) \<and>
    length (by_strategy (fold add_site ss r)) = 7 \<and> length (by_lifetime (fold add_site ss r)) = 3 \<and>
    by_strategy (fold add_site ss r) ! strategy_code c =
      by_strategy r ! strategy_code c + length (filter (\<lambda>s. jitted s \<and> candidate s = c) ss) \<and>
    by_lifetime (fold add_site ss r) ! lifetime_code l =
      by_lifetime r ! lifetime_code l + length (filter (\<lambda>s. jitted s \<and> lifetime s = l) ss)"
    using assms
  proof (induction ss arbitrary: r)
    case (Cons s ss)
    have b: "by_strategy (add_site s r) ! strategy_code c =
        by_strategy r ! strategy_code c + (if jitted s \<and> candidate s = c then 1 else 0)"
      "by_lifetime (add_site s r) ! lifetime_code l =
        by_lifetime r ! lifetime_code l + (if jitted s \<and> lifetime s = l then 1 else 0)"
      using Cons.prems code_less inj by (auto simp: add_site_def jitted_def nth_bump Let_def)
    have "length (by_strategy (add_site s r)) = 7" "length (by_lifetime (add_site s r)) = 3"
      using Cons.prems by (simp_all add: add_site_def Let_def)
    note ih = Cons.IH [OF this]
    show ?case using ih b ph [of s]
      by (simp add: add_site_def jitted_def Let_def)
  qed simp
  then show "su_total (fold add_site ss r) = su_total r + length ss"
    and "su_blacklist (fold add_site ss r) = su_blacklist r + length (filter blacklisted ss)"
    and "su_compiled (fold add_site ss r) = su_compiled r + length (filter jitted ss)"
    and "su_deopt (fold add_site ss r) = su_deopt r + length (filter (\<lambda>s. \<not> blacklisted s \<and> cs_phase s = Deopt) ss)"
    and "su_prespec (fold add_site ss r) = su_prespec r + length (filter (\<lambda>s. \<not> blacklisted s \<and> cs_phase s = PreSpec) ss)"
    and "length (by_strategy (fold add_site ss r)) = 7" and "length (by_lifetime (fold add_site ss r)) = 3"
    and "by_strategy (fold add_site ss r) ! strategy_code c =
      by_strategy r ! strategy_code c + length (filter (\<lambda>s. jitted s \<and> candidate s = c) ss)"
    and "by_lifetime (fold add_site ss r) ! lifetime_code l =
      by_lifetime r ! lifetime_code l + length (filter (\<lambda>s. jitted s \<and> lifetime s = l) ss)"
    by blast+
qed

lemma phases_partition:
  "length ss = length (filter jitted ss) + length (filter blacklisted ss) +
     length (filter (\<lambda>s. \<not> blacklisted s \<and> cs_phase s = Deopt) ss) +
     length (filter (\<lambda>s. \<not> blacklisted s \<and> cs_phase s = PreSpec) ss)"
proof (induction ss)
  case (Cons s ss)
  then show ?case by (cases "cs_phase s") (auto simp: jitted_def)
qed simp

text \<open>
  The summary counts every site in exactly one of its four phases, and every compiled site that is
  not blacklisted once under its strategy and once under its lifetime.
\<close>

theorem summary_counts_every_site:
  "su_total (build_summary ss) = length ss \<and>
   su_compiled (build_summary ss) + su_blacklist (build_summary ss) + su_deopt (build_summary ss) +
     su_prespec (build_summary ss) = length ss \<and>
   su_compiled (build_summary ss) = length (filter jitted ss) \<and>
   su_blacklist (build_summary ss) = length (filter blacklisted ss) \<and>
   (\<forall>c. by_strategy (build_summary ss) ! strategy_code c = length (filter (\<lambda>s. jitted s \<and> candidate s = c) ss)) \<and>
   (\<forall>l. by_lifetime (build_summary ss) ! lifetime_code l = length (filter (\<lambda>s. jitted s \<and> lifetime s = l) ss))"
proof -
  have z: "length (by_strategy summary_zero) = 7" "length (by_lifetime summary_zero) = 3"
    by (simp_all add: summary_zero_def)
  have n: "by_strategy summary_zero ! strategy_code c = 0" "by_lifetime summary_zero ! lifetime_code l = 0" for c l
    using code_less by (simp_all add: summary_zero_def)
  show ?thesis
    using phases_partition [of ss] unfolding build_summary_def
    by (simp add: fold_add_site [OF z] n) (simp add: summary_zero_def)
qed

section \<open>The sort\<close>

lemma sink_eq:
  "j < length xs \<Longrightarrow> sorted (take j xs) \<Longrightarrow>
     sink xs v j = filter (\<lambda>x. x \<le> v) (take j xs) @ v # filter (\<lambda>x. v < x) (take j xs) @ drop (Suc j) xs"
proof (induction xs v j rule: sink.induct)
  case (1 xs v)
  then show ?case by (cases xs) simp_all
next
  case (2 xs v j)
  have j: "j < length xs" using "2.prems"(1) by simp
  have t: "take (Suc j) xs = take j xs @ [xs ! j]" using j by (rule take_Suc_conv_app_nth)
  have s: "sorted (take j xs)" "\<forall>x \<in> set (take j xs). x \<le> xs ! j"
    using "2.prems"(2) unfolding t sorted_append by simp_all
  show ?case
  proof (cases "v < xs ! j")
    case True
    have "drop (Suc j) (xs[Suc j := xs ! j]) = xs ! j # drop (Suc (Suc j)) xs"
      using "2.prems"(1) by (simp add: drop_update_swap upd_conv_take_nth_drop)
    then show ?thesis using "2.IH" [OF True] s(1) j True by (simp add: t)
  next
    case False
    then have "filter (\<lambda>x. x \<le> v) (take (Suc j) xs) = take (Suc j) xs" "filter (\<lambda>x. v < x) (take (Suc j) xs) = []"
      using s(2) unfolding t by (auto simp: filter_id_conv filter_empty_conv)
    then show ?thesis using False "2.prems"(1) by (simp add: upd_conv_take_nth_drop)
  qed
qed

lemma insertion_sort_sorts:
  "sorted (take i xs) \<Longrightarrow> i \<le> length xs \<Longrightarrow> sorted (insertion_sort i xs) \<and> mset (insertion_sort i xs) = mset xs"
proof (induction i xs rule: insertion_sort.induct)
  case (1 i xs)
  show ?case
  proof (cases "i < length xs")
    case True
    let ?ys = "take i xs" and ?v = "xs ! i"
    let ?new = "filter (\<lambda>x. x \<le> ?v) ?ys @ ?v # filter (\<lambda>x. ?v < x) ?ys"
    have e: "sink xs ?v i = ?new @ drop (Suc i) xs" using sink_eq [OF True "1.prems"(1)] by simp
    have m: "mset ?new = add_mset ?v (mset ?ys)"
      using multiset_partition [of "mset ?ys" "\<lambda>x. x \<le> ?v"] by (simp add: not_le mset_filter)
    have "length ?new = Suc i" using mset_eq_length [OF m [folded mset.simps(2)]] True by simp
    moreover have "length a = n \<Longrightarrow> take n (a @ b) = a" for n and a b :: "u64 list" by auto
    ultimately have "take (Suc i) (sink xs ?v i) = ?new" unfolding e by blast
    moreover have "sorted ?new"
      using "1.prems"(1) by (auto simp: sorted_append sorted_wrt_filter intro: order_trans less_imp_le)
    moreover have "mset (sink xs ?v i) = mset xs"
    proof -
      have "mset xs = add_mset ?v (mset ?ys) + mset (drop (Suc i) xs)"
        using arg_cong [OF id_take_nth_drop [OF True], of mset] by simp
      then show ?thesis using m unfolding e mset_append by simp
    qed
    ultimately have "sorted (insertion_sort (Suc i) (sink xs ?v i)) \<and> mset (insertion_sort (Suc i) (sink xs ?v i)) = mset xs"
      using "1.IH" [OF True] True by simp
    then show ?thesis using True by (subst (1 2) insertion_sort.simps) simp
  next
    case False
    then show ?thesis using "1.prems" by (subst (1 2) insertion_sort.simps) simp
  qed
qed

lemma insertion_sort_eq: "insertion_sort 1 xs = sort xs"
proof (cases xs)
  case Nil
  then show ?thesis by (subst insertion_sort.simps) simp
next
  case (Cons x ys)
  then have "sorted (take 1 xs)" "1 \<le> length xs" by simp_all
  from insertion_sort_sorts [OF this] show ?thesis by (metis properties_for_sort)
qed

lemma sorted_ends:
  fixes ws :: "u64 list"
  assumes "sorted ws" and "ws \<noteq> []"
  shows "ws ! 0 = Min (set ws) \<and> ws ! (length ws - 1) = Max (set ws)"
proof
  show "ws ! 0 = Min (set ws)"
    using assms by (intro Min_eqI [symmetric]) (auto simp: in_set_conv_nth sorted_iff_nth_mono)
  have "length ws - 1 < length ws" using assms(2) by simp
  then have "ws ! (length ws - 1) \<in> set ws" by (rule nth_mem)
  then show "ws ! (length ws - 1) = Max (set ws)"
    using assms by (intro Max_eqI [symmetric]) (auto simp: in_set_conv_nth sorted_iff_nth_mono)
qed

text \<open>
  C29: The figures "events to specialise" are order statistics of the sites' compilation points: the
  in-place insertion sort agrees with a reference sort, its array never holds more entries than
  there are sites, every index is in range, and minimum and maximum are the true ones.
\<close>

theorem events_to_specialize_order_statistics:
  assumes "events_to_specialize ss = Some r"
  shows "fce_n r = length (compile_points ss) \<and> fce_n r \<le> length ss \<and>
    (0 < fce_n r \<longrightarrow>
      fce_min r = Min (set (compile_points ss)) \<and> fce_max r = Max (set (compile_points ss)) \<and>
      fce_p50 r = sort (compile_points ss) ! (fce_n r div 2) \<and> fce_n r div 2 < fce_n r \<and>
      fce_p95 r = sort (compile_points ss) ! (fce_n r * 95 div 100) \<and> fce_n r * 95 div 100 < fce_n r)"
proof -
  let ?vs = "compile_points ss"
  have ne: "sort ?vs = [] \<longleftrightarrow> ?vs = []" by (metis length_0_conv length_sort)
  have n: "fce_n r = length ?vs"
    and f: "?vs \<noteq> [] \<Longrightarrow> fce_min r = sort ?vs ! 0 \<and> fce_max r = sort ?vs ! (length ?vs - 1) \<and>
      fce_p50 r = sort ?vs ! (length ?vs div 2) \<and> fce_p95 r = sort ?vs ! (length ?vs * 95 div 100)"
    using assms by (auto simp: ne events_to_specialize_def insertion_sort_eq [unfolded One_nat_def] Let_def split: if_splits)
  have le: "length ?vs \<le> length ss" by (simp add: compile_points_def le_trans [OF length_filter_le])
  have ends: "sort ?vs ! 0 = Min (set ?vs) \<and> sort ?vs ! (length ?vs - 1) = Max (set ?vs)" if "?vs \<noteq> []"
    using sorted_ends [OF sorted_sort, of ?vs] ne that by simp
  have "length ?vs * 95 div 100 < length ?vs" if "0 < length ?vs" using that by linarith
  then show ?thesis using n f ends le by auto
qed

theorem events_to_specialize_order_statistics_witness:
  "\<exists>r. events_to_specialize [(summary_new 7)\<lparr>cs_phase := Compiled, first_compile_events := 9\<rparr>,
      (summary_new 8)\<lparr>cs_phase := Deopt, first_compile_events := 4\<rparr>] = Some r \<and> fce_min r = 4 \<and> fce_max r = 9"
proof -
  let ?ss = "[(summary_new 7)\<lparr>cs_phase := Compiled, first_compile_events := 9\<rparr>,
      (summary_new 8)\<lparr>cs_phase := Deopt, first_compile_events := 4\<rparr>]"
  have vs: "compile_points ?ss = [9, 4]" by (simp add: compile_points_def)
  have "\<exists>r. events_to_specialize ?ss = Some r"
    by (simp add: events_to_specialize_def build_summary_def add_site_def summary_zero_def summary_new_def Let_def)
  then obtain r where r: "events_to_specialize ?ss = Some r" ..
  from events_to_specialize_order_statistics [OF r] r show ?thesis unfolding vs by auto
qed

end
