(* ===== verification/Report.thy ===== *)
theory Report
  imports Dump System
begin

text \<open>
  The text of the report (\<open>src/src/analysis/dump.cpp\<close>): the table and the summary on standard
  error, and the JSON file that \<open>TBJIT_DUMP_JSON\<close> asks for.  The formats of \<open>fprintf\<close> are written
  out as string functions; the JSON text is compared with a grammar of JSON.
\<close>

section \<open>Formats\<close>

definition nl :: string where
  "nl = [CHR 0x0A]"

definition pad_left :: "nat \<Rightarrow> string \<Rightarrow> string" where
  "pad_left w s = replicate (w - length s) CHR '' '' @ s"

definition pad_right :: "nat \<Rightarrow> string \<Rightarrow> string" where
  "pad_right w s = s @ replicate (w - length s) CHR '' ''"

function hexadecimal :: "nat \<Rightarrow> string" where
  "hexadecimal n =
     (let d = n mod 16; c = char_of (if d < 10 then 48 + d else 87 + d)
      in if n < 16 then [c] else hexadecimal (n div 16) @ [c])"
  by pat_completeness auto
termination
  by (relation "measure id") auto

declare hexadecimal.simps [simp del]

text \<open>\<open>%.1f\<close> of a nonnegative double: the exact value to one decimal, ties to even.\<close>

definition fixed1 :: "double \<Rightarrow> string" where
  "fixed1 d = (let t = nat (round_even (d * 10)) in decimal (t div 10) @ ''.'' @ decimal (t mod 10))"

definition show64 :: "u64 \<Rightarrow> string" where
  "show64 n = decimal (unat n)"

definition show32 :: "u32 \<Rightarrow> string" where
  "show32 n = decimal (unat n)"

section \<open>The table\<close>

definition table_line ::
    "string \<Rightarrow> string \<Rightarrow> string \<Rightarrow> string \<Rightarrow> string \<Rightarrow> string \<Rightarrow> string \<Rightarrow> string \<Rightarrow> string" where
  "table_line site events p50 p95 p99 jit phase strat =
     pad_right 18 site @ '' '' @ pad_left 10 events @ '' '' @ pad_left 6 p50 @ '' '' @ pad_left 6 p95 @ '' '' @
     pad_left 6 p99 @ ''  '' @ pad_left 10 jit @ ''  '' @ pad_right 12 phase @ ''  '' @ strat @ nl"

text \<open>The buffer of the compilation point holds 15 characters.\<close>

definition row_text :: "site_row \<Rightarrow> string" where
  "row_text r =
     table_line (''0x'' @ pad_right 16 (hexadecimal (unat (row_id r)))) (show64 (row_events r))
       (show32 (row_p50 r)) (show32 (row_p95 r)) (show32 (row_p99 r))
       (case row_first_compile r of None \<Rightarrow> ''-'' | Some n \<Rightarrow> take 15 (show64 n))
       (row_phase r) (row_strategy r)"

definition table_text :: "CallSiteSummary list \<Rightarrow> string" where
  "table_text ss =
     nl @ table_line ''CALL SITE'' ''EVENTS'' ''P50'' ''P95'' ''P99'' ''JIT@EVENTS'' ''PHASE'' ''STRATEGY'' @
     table_line ''----------'' ''------'' ''---'' ''---'' ''---'' ''----------'' ''-----'' ''--------'' @
     concat (map row_text (per_site_table ss))"

section \<open>The summary\<close>

definition percent :: "nat \<Rightarrow> nat \<Rightarrow> double" where
  "percent tot n = (if tot = 0 then 0 else fdiv (fmul 100 (d_of_nat n)) (d_of_nat tot))"

definition share :: "nat \<Rightarrow> nat \<Rightarrow> string" where
  "share tot n = decimal n @ '' ('' @ fixed1 (percent tot n) @ ''%)'' @ nl"

text \<open>The enumerators in the order of their codes.\<close>

definition strategies :: "Strategy list" where
  "strategies = [Generic, BumpAlloc, ThreadLocalFreeList, EpochArena, PairedStack, ProducerConsumer,
     MultiSizeFreeList]"

definition lifetimes :: "LifetimeTag list" where
  "lifetimes = [Unknown, Reap, Hold]"

definition strategy_counts :: "Summary \<Rightarrow> (string \<times> nat) list" where
  "strategy_counts su = map (\<lambda>c. (strategy_name c, by_strategy su ! strategy_code c)) strategies"

definition lifetime_counts :: "Summary \<Rightarrow> (string \<times> nat) list" where
  "lifetime_counts su = map (\<lambda>l. (lifetime_name l, by_lifetime su ! lifetime_code l)) lifetimes"

definition distribution_text :: "nat \<Rightarrow> (string \<times> nat) list \<Rightarrow> string" where
  "distribution_text compiled cs =
     concat (map (\<lambda>(name, n). ''  '' @ pad_right 20 name @ '' '' @ share compiled n)
       (filter (\<lambda>(name, n). n \<noteq> 0) cs))"

definition summary_text :: "u64 \<Rightarrow> u64 \<Rightarrow> CallSiteSummary list \<Rightarrow> string" where
  "summary_text jit_n gen_n ss =
     (let su = build_summary ss; tot = jit_n + gen_n
      in nl @ ''jit_allocs:     '' @ show64 jit_n @ nl @ ''generic_allocs: '' @ show64 gen_n @ nl @
         nl @ ''=== Summary ==='' @ nl @
         ''Sites observed:      '' @ decimal (su_total su) @ nl @
         ''  Compiled:          '' @ share (su_total su) (su_compiled su) @
         ''  Blacklisted:       '' @ share (su_total su) (su_blacklist su) @
         ''  Deopt:             '' @ share (su_total su) (su_deopt su) @
         ''  PreSpec:           '' @ share (su_total su) (su_prespec su) @
         ''Total events:        '' @ show64 tot @ '' ('' @ fixed1 (percent (unat tot) (unat jit_n)) @
         ''% via JIT)'' @ nl @
         (case events_to_specialize ss of
            None \<Rightarrow> []
          | Some c \<Rightarrow>
              ''Events-to-specialize: min='' @ show64 (fce_min c) @ ''  p50='' @ show64 (fce_p50 c) @
              ''  p95='' @ show64 (fce_p95 c) @ ''  max='' @ show64 (fce_max c) @
              ''  (n='' @ decimal (fce_n c) @ '')'' @ nl) @
         nl @ ''=== Strategy distribution (compiled sites) ==='' @ nl @
         distribution_text (su_compiled su) (strategy_counts su) @
         nl @ ''=== Lifetime distribution (compiled sites) ==='' @ nl @
         distribution_text (su_compiled su) (lifetime_counts su))"

section \<open>The JSON file\<close>

definition quoted :: "string \<Rightarrow> string" where
  "quoted s = CHR 0x22 # s @ [CHR 0x22]"

definition field :: "string \<Rightarrow> string \<Rightarrow> string" where
  "field k v = quoted k @ '': '' @ v"

definition bool_text :: "bool \<Rightarrow> string" where
  "bool_text b = (if b then ''true'' else ''false'')"

fun counts_loop :: "bool \<Rightarrow> (string \<times> nat) list \<Rightarrow> string" where
  "counts_loop first [] = []"
| "counts_loop first ((name, n) # cs) =
     (if n = 0 then counts_loop first cs
      else (if first then [] else '', '') @ field name (decimal n) @ counts_loop False cs)"

definition site_json :: "CallSiteSummary \<Rightarrow> string" where
  "site_json s =
     (let h = (if cs_phase s = Compiled then baseline s else sw_hist (windows s ! active s))
      in ''    {'' @ field ''id'' (show32 (cs_id s)) @ '', '' @ field ''events'' (show64 (event_count s)) @ '', '' @
         field ''frees'' (show64 (free_count s)) @ '', '' @
         field ''p50'' (show32 (quantile (rnd (50 / 100)) h)) @ '', '' @
         field ''p95'' (show32 (quantile (rnd (95 / 100)) h)) @ '', '' @
         field ''p99'' (show32 (quantile (rnd (99 / 100)) h)) @ '', '' @
         field ''phase'' (quoted (phase_name (cs_phase s) (blacklisted s))) @ '', '' @
         field ''strategy'' (quoted (strategy_name (candidate s))) @ '', '' @
         field ''lifetime'' (quoted (lifetime_name (lifetime s))) @ '', '' @
         field ''deopts'' (show32 (deopt_count s)) @ '', '' @
         field ''deopt_reason'' (quoted (deopt_reason_name (deopt_reason s))) @ '', '' @
         field ''blacklisted'' (bool_text (blacklisted s)) @ '', '' @
         field ''first_compile_events'' (show64 (first_compile_events s)) @ ''}'')"

text \<open>The loop over the sites, with \<open>i\<close> the index and \<open>n\<close> the number of sites.\<close>

fun sites_loop :: "nat \<Rightarrow> nat \<Rightarrow> CallSiteSummary list \<Rightarrow> string" where
  "sites_loop i n [] = []"
| "sites_loop i n (s # ss) = site_json s @ (if i + 1 = n then [] else '','') @ nl @ sites_loop (i + 1) n ss"

definition json_text :: "u64 \<Rightarrow> u64 \<Rightarrow> Summary \<Rightarrow> CallSiteSummary list \<Rightarrow> string" where
  "json_text jit_n gen_n su ss =
     ''{'' @ nl @
     ''  '' @ field ''summary'' (''{'' @ nl @
       ''    '' @ field ''sites_observed'' (decimal (su_total su)) @ '','' @ nl @
       ''    '' @ field ''compiled'' (decimal (su_compiled su)) @ '','' @ nl @
       ''    '' @ field ''blacklisted'' (decimal (su_blacklist su)) @ '','' @ nl @
       ''    '' @ field ''deopt'' (decimal (su_deopt su)) @ '','' @ nl @
       ''    '' @ field ''prespec'' (decimal (su_prespec su)) @ '','' @ nl @
       ''    '' @ field ''jit_allocs'' (show64 jit_n) @ '','' @ nl @
       ''    '' @ field ''generic_allocs'' (show64 gen_n) @ '','' @ nl @
       ''    '' @ field ''strategy_counts'' (''{'' @ counts_loop True (strategy_counts su) @ ''}'') @ '','' @ nl @
       ''    '' @ field ''lifetime_counts'' (''{'' @ counts_loop True (lifetime_counts su) @ ''}'') @ nl @
       ''  '' @ ''}'') @ '','' @ nl @
     ''  '' @ field ''sites'' (''['' @ nl @ sites_loop 0 (length ss) ss @ ''  '' @ '']'') @ nl @
     ''}'' @ nl"

text \<open>The name of the file is resolved as the trace writer does it; no file is a file that cannot be opened.\<close>

definition write_json_dump ::
    "(string \<Rightarrow> bool) \<Rightarrow> nat \<Rightarrow> string \<Rightarrow> u64 \<Rightarrow> u64 \<Rightarrow> Summary \<Rightarrow> CallSiteSummary list \<Rightarrow> (string \<times> string) option" where
  "write_json_dump fopen pid path jit_n gen_n su ss =
     (case resolve_path pid path of
        None \<Rightarrow> None
      | Some p \<Rightarrow> if fopen p then Some (p, json_text jit_n gen_n su ss) else None)"

text \<open>The text on standard error, and the JSON file.\<close>

definition dump_stats ::
    "(string \<Rightarrow> bool) \<Rightarrow> nat \<Rightarrow> string option \<Rightarrow> u64 \<Rightarrow> u64 \<Rightarrow> CallSiteSummary list
      \<Rightarrow> string \<times> (string \<times> string) option" where
  "dump_stats fopen pid env jit_n gen_n ss =
     (table_text ss @ summary_text jit_n gen_n ss,
      (case env of None \<Rightarrow> None
       | Some path \<Rightarrow> write_json_dump fopen pid path jit_n gen_n (build_summary ss) ss))"

text \<open>
  The destructor to its end: with \<open>TBJIT_DUMP\<close> set it reports on the state the shutdown left.
\<close>

definition fini_dump :: "boot \<Rightarrow> system \<Rightarrow> (string \<times> (string \<times> string) option) option" where
  "fini_dump bt s =
     (case bo_getenv bt ''TBJIT_DUMP'' of
        None \<Rightarrow> None
      | Some v \<Rightarrow>
          Some (dump_stats (bo_fopen bt) (bo_pid bt) (bo_getenv bt ''TBJIT_DUMP_JSON'')
                  (g_jit_allocs (sy_proc s)) (g_generic_allocs (sy_proc s)) (sy_summaries s)))"

definition tbjit_fini_report ::
    "boot \<Rightarrow> world \<Rightarrow> system \<Rightarrow> dispatch_error + system \<times> (string \<times> (string \<times> string) option) option" where
  "tbjit_fini_report bt w s = map_sum id (\<lambda>s. (s, fini_dump bt s)) (tbjit_fini w s)"

section \<open>A grammar of JSON\<close>

text \<open>
  \<open>reads v s r\<close>: the value \<open>v\<close> stands at the front of \<open>s\<close>, and \<open>r\<close> is what follows it.  White
  space is skipped in front of every token; numbers are unsigned integers without leading zeros,
  and strings have no character that would need an escape.
\<close>

datatype json =
    JNum nat
  | JStr string
  | JBool bool
  | JArr "json list"
  | JObj "(string \<times> json) list"

definition blank :: "char \<Rightarrow> bool" where
  "blank c \<longleftrightarrow> c = CHR '' '' \<or> c = CHR 0x09 \<or> c = CHR 0x0A \<or> c = CHR 0x0D"

definition skip :: "string \<Rightarrow> string" where
  "skip s = dropWhile blank s"

definition digit :: "char \<Rightarrow> bool" where
  "digit c \<longleftrightarrow> 48 \<le> (of_char c :: nat) \<and> (of_char c :: nat) \<le> 57"

definition numeral_text :: "string \<Rightarrow> bool" where
  "numeral_text ds \<longleftrightarrow> ds \<noteq> [] \<and> list_all digit ds \<and> (hd ds = CHR ''0'' \<longrightarrow> length ds = 1)"

definition numeral_value :: "string \<Rightarrow> nat" where
  "numeral_value ds = foldl (\<lambda>n c. 10 * n + (of_char c - 48)) 0 ds"

definition plain :: "string \<Rightarrow> bool" where
  "plain s \<longleftrightarrow> list_all (\<lambda>c. c \<noteq> CHR 0x22 \<and> c \<noteq> CHR 0x5C \<and> 32 \<le> (of_char c :: nat)) s"

inductive reads :: "json \<Rightarrow> string \<Rightarrow> string \<Rightarrow> bool"
  and members :: "(string \<times> json) list \<Rightarrow> string \<Rightarrow> string \<Rightarrow> bool"
  and elements :: "json list \<Rightarrow> string \<Rightarrow> string \<Rightarrow> bool" where
  num: "skip s = ds @ r \<Longrightarrow> numeral_text ds \<Longrightarrow> r = [] \<or> \<not> digit (hd r) \<Longrightarrow> reads (JNum (numeral_value ds)) s r"
| str: "skip s = CHR 0x22 # x @ CHR 0x22 # r \<Longrightarrow> plain x \<Longrightarrow> reads (JStr x) s r"
| true: "skip s = ''true'' @ r \<Longrightarrow> reads (JBool True) s r"
| false: "skip s = ''false'' @ r \<Longrightarrow> reads (JBool False) s r"
| arr_empty: "skip s = CHR ''['' # t \<Longrightarrow> skip t = CHR '']'' # r \<Longrightarrow> reads (JArr []) s r"
| arr: "skip s = CHR ''['' # t \<Longrightarrow> elements vs t r \<Longrightarrow> reads (JArr vs) s r"
| obj_empty: "skip s = CHR ''{'' # t \<Longrightarrow> skip t = CHR ''}'' # r \<Longrightarrow> reads (JObj []) s r"
| obj: "skip s = CHR ''{'' # t \<Longrightarrow> members ms t r \<Longrightarrow> reads (JObj ms) s r"
| last_element: "reads v s t \<Longrightarrow> skip t = CHR '']'' # r \<Longrightarrow> elements [v] s r"
| next_element: "reads v s t \<Longrightarrow> skip t = CHR '','' # u \<Longrightarrow> elements vs u r \<Longrightarrow> elements (v # vs) s r"
| last_member: "skip s = CHR 0x22 # k @ CHR 0x22 # t \<Longrightarrow> plain k \<Longrightarrow> skip t = CHR '':'' # u \<Longrightarrow> reads v u w \<Longrightarrow>
    skip w = CHR ''}'' # r \<Longrightarrow> members [(k, v)] s r"
| next_member: "skip s = CHR 0x22 # k @ CHR 0x22 # t \<Longrightarrow> plain k \<Longrightarrow> skip t = CHR '':'' # u \<Longrightarrow> reads v u w \<Longrightarrow>
    skip w = CHR '','' # x \<Longrightarrow> members ms x r \<Longrightarrow> members ((k, v) # ms) s r"

section \<open>What the dump says\<close>

definition site_value :: "CallSiteSummary \<Rightarrow> json" where
  "site_value s =
     (let r = site_row_of s
      in JObj [(''id'', JNum (unat (cs_id s))), (''events'', JNum (unat (event_count s))),
           (''frees'', JNum (unat (free_count s))), (''p50'', JNum (unat (row_p50 r))),
           (''p95'', JNum (unat (row_p95 r))), (''p99'', JNum (unat (row_p99 r))),
           (''phase'', JStr (row_phase r)), (''strategy'', JStr (row_strategy r)),
           (''lifetime'', JStr (lifetime_name (lifetime s))), (''deopts'', JNum (unat (deopt_count s))),
           (''deopt_reason'', JStr (deopt_reason_name (deopt_reason s))),
           (''blacklisted'', JBool (blacklisted s)),
           (''first_compile_events'', JNum (unat (first_compile_events s)))])"

text \<open>The counts, taken from the sites themselves; a name with count zero is left out.\<close>

definition tally :: "('a \<Rightarrow> string) \<Rightarrow> ('a \<Rightarrow> nat) \<Rightarrow> 'a list \<Rightarrow> json" where
  "tally name cnt xs = JObj (map (\<lambda>x. (name x, JNum (cnt x))) (filter (\<lambda>x. cnt x \<noteq> 0) xs))"

definition dump_value :: "u64 \<Rightarrow> u64 \<Rightarrow> CallSiteSummary list \<Rightarrow> json" where
  "dump_value jit_n gen_n ss =
     (let cnt = \<lambda>P. length (filter P ss)
      in JObj
       [(''summary'', JObj
          [(''sites_observed'', JNum (length ss)), (''compiled'', JNum (cnt jitted)),
           (''blacklisted'', JNum (cnt blacklisted)),
           (''deopt'', JNum (cnt (\<lambda>s. \<not> blacklisted s \<and> cs_phase s = Deopt))),
           (''prespec'', JNum (cnt (\<lambda>s. \<not> blacklisted s \<and> cs_phase s = PreSpec))),
           (''jit_allocs'', JNum (unat jit_n)), (''generic_allocs'', JNum (unat gen_n)),
           (''strategy_counts'', tally strategy_name (\<lambda>c. cnt (\<lambda>s. jitted s \<and> candidate s = c)) strategies),
           (''lifetime_counts'', tally lifetime_name (\<lambda>l. cnt (\<lambda>s. jitted s \<and> lifetime s = l)) lifetimes)]),
        (''sites'', JArr (map site_value ss))])"

section \<open>Reading the text back\<close>

lemma skip_simps [simp]:
  "skip [] = []" "skip (CHR '' '' # s) = skip s" "skip (nl @ s) = skip s"
  "skip (CHR ''{'' # s) = CHR ''{'' # s" "skip (CHR ''['' # s) = CHR ''['' # s"
  "skip (CHR ''}'' # s) = CHR ''}'' # s" "skip (CHR '']'' # s) = CHR '']'' # s"
  "skip (CHR '','' # s) = CHR '','' # s" "skip (CHR '':'' # s) = CHR '':'' # s"
  "skip (CHR 0x22 # s) = CHR 0x22 # s" "skip nl = []"
  by (simp_all add: skip_def blank_def nl_def)

lemma decimal_numeral: "numeral_text (decimal n) \<and> numeral_value (decimal n) = n"
proof (induction n rule: decimal.induct)
  case (1 n)
  show ?case
  proof (cases "n < 10")
    case True
    then show ?thesis
      by (subst (1 2) decimal.simps) (simp add: numeral_text_def numeral_value_def digit_def of_char_of)
  next
    case False
    then have ih: "numeral_text (decimal (n div 10))" "numeral_value (decimal (n div 10)) = n div 10"
      using 1 by simp_all
    have h: "hd (decimal (n div 10)) \<noteq> CHR ''0''"
    proof
      assume z: "hd (decimal (n div 10)) = CHR ''0''"
      then have "length (decimal (n div 10)) = 1" using ih(1) by (simp add: numeral_text_def)
      then obtain c where "decimal (n div 10) = [c]" by (auto simp: length_Suc_conv)
      then have "n div 10 = 0" using ih(2) z by (simp add: numeral_value_def)
      then show False using False by simp
    qed
    have c: "of_char (char_of (48 + n mod 10) :: char) = (48 + n mod 10 :: nat)" by (simp add: of_char_of)
    show ?thesis using False ih h
      by (subst (1 2) decimal.simps)
        (simp add: numeral_text_def numeral_value_def digit_def c)
  qed
qed


lemma skip_nonblank: "\<not> blank c \<Longrightarrow> skip (c # s) = c # s"
  by (simp add: skip_def)

lemma reads_decimal: "r = [] \<or> \<not> digit (hd r) \<Longrightarrow> reads (JNum n) (decimal n @ r) r"
proof -
  assume r: "r = [] \<or> \<not> digit (hd r)"
  obtain c ds where d: "decimal n = c # ds" "digit c"
    using decimal_numeral [of n] by (cases "decimal n") (auto simp: numeral_text_def)
  have "\<not> blank c" using d(2) by (auto simp: digit_def blank_def)
  then have "skip (decimal n @ r) = decimal n @ r" using d(1) by (simp add: skip_nonblank)
  from num [OF this _ r] show ?thesis using decimal_numeral [of n] by simp
qed

lemma reads_quoted: "plain x \<Longrightarrow> reads (JStr x) (quoted x @ r) r"
  by (rule str) (simp_all add: quoted_def)

lemma reads_bool: "reads (JBool b) (bool_text b @ r) r"
  by (cases b) (auto intro!: true false simp: skip_nonblank blank_def bool_text_def)

lemma field_append: "field k v @ t = field k (v @ t)"
  by (simp add: field_def)

lemma skip_field [simp]: "skip (field k v) = field k v"
  by (simp add: field_def quoted_def)

lemma reads_space: "reads v s r \<Longrightarrow> reads v (CHR '' '' # s) r"
  by (cases rule: reads.cases) (auto intro: reads_members_elements.intros)

lemma members_space: "members ms s r \<Longrightarrow> members ms (CHR '' '' # s) r"
  by (cases rule: members.cases) (auto intro: reads_members_elements.intros)

lemma next_field:
  assumes "skip s = field k v" and "plain k" and "reads j v (CHR '','' # t)" and "members ms t r"
  shows "members ((k, j) # ms) s r"
  by (rule next_member [where t = "'': '' @ v" and u = "CHR '' '' # v" and w = "CHR '','' # t" and x = t])
    (use assms reads_space in \<open>simp_all add: field_def quoted_def\<close>)

lemma last_field:
  assumes "skip s = field k v" and "plain k" and "reads j v t" and "skip t = CHR ''}'' # r"
  shows "members [(k, j)] s r"
  by (rule last_member [where t = "'': '' @ v" and u = "CHR '' '' # v" and w = t])
    (use assms reads_space in \<open>simp_all add: field_def quoted_def\<close>)

lemma names_plain [simp]:
  "plain (phase_name p b)" "plain (strategy_name c)" "plain (lifetime_name l)" "plain (deopt_reason_name d)"
proof -
  show "plain (phase_name p b)" by (simp add: phase_name_def plain_def)
  show "plain (strategy_name c)" by (cases c) (simp_all add: plain_def)
  show "plain (lifetime_name l)" by (cases l) (simp_all add: plain_def)
  show "plain (deopt_reason_name d)" by (cases d) (simp_all add: plain_def)
qed

lemma counts_loop_filter: "counts_loop b cs = counts_loop b (filter (\<lambda>x. 0 < snd x) cs)"
  by (induction b cs rule: counts_loop.induct) simp_all

lemma counts_loop_False: "0 < n \<Longrightarrow> counts_loop False ((nm, n) # cs) = '', '' @ counts_loop True ((nm, n) # cs)"
  by simp

lemma counts_loop_members:
  "\<forall>x \<in> set cs. plain (fst x) \<and> 0 < snd x \<Longrightarrow> cs \<noteq> [] \<Longrightarrow>
     members (map (\<lambda>x. (fst x, JNum (snd x))) cs) (counts_loop True cs @ CHR ''}'' # r) r"
proof (induction cs)
  case (Cons x cs)
  obtain nm n where x: "x = (nm, n)" by fastforce
  then have p: "plain nm" and n: "0 < n" using Cons.prems(1) by auto
  have num: "reads (JNum n) (decimal n @ c # t) (c # t)" if "\<not> digit c" for c t
    using that by (intro reads_decimal) simp
  show ?case
  proof (cases cs)
    case Nil
    have "members [(nm, JNum n)] (field nm (decimal n @ CHR ''}'' # r)) r"
      using p by (intro last_field [OF skip_field _ num]) (simp_all add: digit_def)
    then show ?thesis using Nil n by (simp add: x field_append)
  next
    case (Cons y ys)
    then have y: "0 < snd y" using Cons.prems(1) by simp
    have ih: "members (map (\<lambda>x. (fst x, JNum (snd x))) cs) (counts_loop True cs @ CHR ''}'' # r) r"
      using Cons.IH Cons.prems(1) Cons by simp
    have "members ((nm, JNum n) # map (\<lambda>x. (fst x, JNum (snd x))) cs)
        (field nm (decimal n @ CHR '','' # CHR '' '' # counts_loop True cs @ CHR ''}'' # r)) r"
      using p members_space [OF ih] by (intro next_field [OF skip_field _ num]) (simp_all add: digit_def)
    moreover have "counts_loop False cs = '', '' @ counts_loop True cs"
      using counts_loop_False [OF y, of "fst y" ys] Cons by simp
    ultimately show ?thesis using n by (simp add: x field_append)
  qed
qed simp

lemma counts_loop_reads:
  assumes "\<forall>x \<in> set cs. plain (fst x)"
  shows "reads (JObj (map (\<lambda>x. (fst x, JNum (snd x))) (filter (\<lambda>x. 0 < snd x) cs)))
    (''{'' @ counts_loop True cs @ ''}'' @ r) r"
proof (cases "filter (\<lambda>x. 0 < snd x) cs = []")
  case True
  then have "counts_loop True cs = []" using counts_loop_filter [of True cs] by simp
  then show ?thesis unfolding True by (auto intro: obj_empty)
next
  case False
  have "members (map (\<lambda>x. (fst x, JNum (snd x))) (filter (\<lambda>x. 0 < snd x) cs))
      (counts_loop True (filter (\<lambda>x. 0 < snd x) cs) @ CHR ''}'' # r) r"
    using assms False by (intro counts_loop_members) auto
  then show ?thesis
    by (intro obj [where t = "counts_loop True cs @ CHR ''}'' # r"]) (simp_all add: counts_loop_filter [of True cs])
qed


lemma next_front: "reads j v (CHR '','' # t) \<Longrightarrow> plain k \<Longrightarrow> members ms t r \<Longrightarrow> members ((k, j) # ms) (field k v) r"
  by (rule next_field [OF skip_field])

lemma last_front: "reads j v t \<Longrightarrow> plain k \<Longrightarrow> skip t = CHR ''}'' # r \<Longrightarrow> members [(k, j)] (field k v) r"
  by (rule last_field [OF skip_field])

lemma reads_nl: "reads v s r \<Longrightarrow> reads v (nl @ s) r"
  by (cases rule: reads.cases) (auto intro: reads_members_elements.intros)

lemma members_nl: "members ms s r \<Longrightarrow> members ms (nl @ s) r"
  by (cases rule: members.cases) (auto intro: reads_members_elements.intros)

lemma reads_decimal_then: "\<not> digit c \<Longrightarrow> reads (JNum n) (decimal n @ c # r) (c # r)"
  by (rule reads_decimal) simp

text \<open>The rules in the order in which they read a text from its front.\<close>

lemmas json_rules = last_front next_front members_space members_nl reads_decimal_then reads_quoted reads_bool
  names_plain

lemma site_json_reads: "reads (site_value s) (site_json s @ r) r"
proof -
  define h where "h = (if cs_phase s = Compiled then baseline s else sw_hist (windows s ! active s))"
  have v: "site_value s =
      JObj [(''id'', JNum (unat (cs_id s))), (''events'', JNum (unat (event_count s))),
           (''frees'', JNum (unat (free_count s))), (''p50'', JNum (unat (quantile (rnd (50 / 100)) h))),
           (''p95'', JNum (unat (quantile (rnd (95 / 100)) h))), (''p99'', JNum (unat (quantile (rnd (99 / 100)) h))),
           (''phase'', JStr (phase_name (cs_phase s) (blacklisted s))), (''strategy'', JStr (strategy_name (candidate s))),
           (''lifetime'', JStr (lifetime_name (lifetime s))), (''deopts'', JNum (unat (deopt_count s))),
           (''deopt_reason'', JStr (deopt_reason_name (deopt_reason s))),
           (''blacklisted'', JBool (blacklisted s)),
           (''first_compile_events'', JNum (unat (first_compile_events s)))]"
    by (simp add: site_value_def site_row_of_def Let_def h_def)
  show ?thesis
    unfolding v site_json_def Let_def h_def [symmetric] show32_def show64_def
    by (simp only: append.simps append_assoc field_append, rule obj, simp only: skip_simps)
      (rule json_rules | simp add: digit_def plain_def)+
qed


lemma elements_nl: "elements vs s r \<Longrightarrow> elements vs (nl @ s) r"
  by (cases rule: elements.cases) (auto intro: reads_members_elements.intros reads_nl)

lemma sites_loop_reads:
  "ss \<noteq> [] \<Longrightarrow> i + length ss = n \<Longrightarrow>
     elements (map site_value ss) (sites_loop i n ss @ ''  '' @ CHR '']'' # r) r"
proof (induction ss arbitrary: i)
  case (Cons s ss)
  show ?case
  proof (cases ss)
    case Nil
    then show ?thesis using Cons.prems(2) by (auto intro!: last_element site_json_reads)
  next
    case (Cons t ts)
    then have "elements (map site_value ss) (nl @ sites_loop (i + 1) n ss @ ''  '' @ CHR '']'' # r) r"
      using Cons.IH [of "i + 1"] Cons.prems(2) by (intro elements_nl) simp
    moreover have "i + 1 \<noteq> n" using Cons.prems(2) Cons by simp
    ultimately show ?thesis by (auto intro!: next_element site_json_reads)
  qed
qed simp

lemma sites_reads:
  "reads (JArr (map site_value ss))
     (CHR ''['' # nl @ sites_loop 0 (length ss) ss @ CHR '' '' # CHR '' '' # CHR '']'' # r) r"
proof (cases ss)
  case Nil
  then show ?thesis by (auto intro: arr_empty)
next
  case Cons
  then show ?thesis using sites_loop_reads [of ss 0 "length ss" r] by (auto intro!: arr elements_nl)
qed

section \<open>The grammar is deterministic\<close>

lemma numeral_split:
  assumes "numeral_text ds" and "r = [] \<or> \<not> digit (hd r)"
  shows "ds = takeWhile digit (ds @ r)" and "r = dropWhile digit (ds @ r)"
proof -
  have d: "\<forall>c \<in> set ds. digit c" using assms(1) by (simp add: numeral_text_def list_all_iff)
  have "takeWhile digit r = [] \<and> dropWhile digit r = r" using assms(2) by (cases r) auto
  then show "ds = takeWhile digit (ds @ r)" "r = dropWhile digit (ds @ r)" using d by simp_all
qed

lemma numeral_unique:
  "ds @ r = ds' @ r' \<Longrightarrow> numeral_text ds \<Longrightarrow> numeral_text ds' \<Longrightarrow> r = [] \<or> \<not> digit (hd r) \<Longrightarrow>
     r' = [] \<or> \<not> digit (hd r') \<Longrightarrow> ds = ds' \<and> r = r'"
  using numeral_split by metis

lemma plain_split:
  assumes "plain x"
  shows "x = takeWhile (\<lambda>c. c \<noteq> CHR 0x22) (x @ CHR 0x22 # t)"
proof -
  have "\<forall>c \<in> set x. c \<noteq> CHR 0x22" using assms by (simp add: plain_def list_all_iff)
  then show ?thesis by simp
qed

lemma plain_unique: "x @ CHR 0x22 # t = y @ CHR 0x22 # u \<Longrightarrow> plain x \<Longrightarrow> plain y \<Longrightarrow> x = y \<and> t = u"
  using plain_split by (metis append_same_eq list.inject same_append_eq)

lemma numeral_front:
  assumes "numeral_text ds" and "ds @ r = c # s"
  shows "digit c"
  using assms by (cases ds) (auto simp: numeral_text_def)

lemma not_digits [simp]:
  "\<not> digit CHR 0x22" "\<not> digit CHR ''t''" "\<not> digit CHR ''f''" "\<not> digit CHR ''[''" "\<not> digit CHR ''{''"
  by (simp_all add: digit_def)

lemma numeral_not:
  assumes "numeral_text ds" and "\<not> digit c"
  shows "ds @ r \<noteq> c # s" and "c # s \<noteq> ds @ r"
  using assms numeral_front by metis+

text \<open>What can stand behind each first character.\<close>

lemma reads_first:
  "reads v s r \<Longrightarrow> skip s = c # t \<Longrightarrow>
     digit c \<and> (\<exists>ds. skip s = ds @ r \<and> numeral_text ds \<and> (r = [] \<or> \<not> digit (hd r)) \<and> v = JNum (numeral_value ds)) \<or>
     c = CHR 0x22 \<and> (\<exists>x. t = x @ CHR 0x22 # r \<and> plain x \<and> v = JStr x) \<or>
     c = CHR ''t'' \<and> v = JBool True \<and> t = ''rue'' @ r \<or>
     c = CHR ''f'' \<and> v = JBool False \<and> t = ''alse'' @ r \<or>
     c = CHR ''['' \<and> (v = JArr [] \<and> skip t = CHR '']'' # r \<or> (\<exists>vs. v = JArr vs \<and> elements vs t r)) \<or>
     c = CHR ''{'' \<and> (v = JObj [] \<and> skip t = CHR ''}'' # r \<or> (\<exists>ms. v = JObj ms \<and> members ms t r))"
proof (erule reads.cases, goal_cases)
  case (1 s' ds r')
  have "digit c" by (rule numeral_front [of ds r' c t]) (use 1 in simp_all)
  then show ?case using 1 by blast
qed (simp_all, auto)

lemma reads_not_bracket: "reads v s r \<Longrightarrow> skip s \<noteq> CHR '']'' # t"
  using reads_first [of v s r "CHR '']''" t] by (auto simp: digit_def)

lemma elements_first: "elements vs s r \<Longrightarrow> skip s \<noteq> CHR '']'' # t"
  by (erule elements.cases) (simp_all add: reads_not_bracket)

lemma members_first: "members ms s r \<Longrightarrow> skip s \<noteq> CHR ''}'' # t"
  by (erule members.cases) simp_all

lemma reads_numeral:
  assumes "reads v s r" and "skip s = ds @ t" and "numeral_text ds" and "t = [] \<or> \<not> digit (hd t)"
  shows "v = JNum (numeral_value ds) \<and> r = t"
proof -
  obtain c u where c: "skip s = c # u" using assms(2,3) by (cases ds) (auto simp: numeral_text_def)
  have "digit c" using numeral_front assms(2,3) c by metis
  with reads_first [OF assms(1) c] obtain ds' where
    "skip s = ds' @ r" "numeral_text ds'" "r = [] \<or> \<not> digit (hd r)" "v = JNum (numeral_value ds')"
    by auto
  with numeral_unique [of ds t ds' r] assms(2-4) show ?thesis by simp
qed

lemma reads_string: "reads v s r \<Longrightarrow> skip s = CHR 0x22 # x @ CHR 0x22 # t \<Longrightarrow> plain x \<Longrightarrow> v = JStr x \<and> r = t"
  using reads_first [of v s r "CHR 0x22" "x @ CHR 0x22 # t"] plain_unique [of x t _ r] by auto

lemma reads_array:
  "reads v s r \<Longrightarrow> skip s = CHR ''['' # t \<Longrightarrow>
     v = JArr [] \<and> skip t = CHR '']'' # r \<or> (\<exists>vs. v = JArr vs \<and> elements vs t r)"
  using reads_first [of v s r "CHR ''[''" t] by auto

lemma reads_object:
  "reads v s r \<Longrightarrow> skip s = CHR ''{'' # t \<Longrightarrow>
     v = JObj [] \<and> skip t = CHR ''}'' # r \<or> (\<exists>ms. v = JObj ms \<and> members ms t r)"
  using reads_first [of v s r "CHR ''{''" t] by auto

lemma elements_split:
  "elements vs s r \<Longrightarrow> \<exists>v vs' t. vs = v # vs' \<and> reads v s t \<and>
     (vs' = [] \<and> skip t = CHR '']'' # r \<or> (\<exists>u. skip t = CHR '','' # u \<and> elements vs' u r))"
  by (erule elements.cases) auto

lemma members_split:
  "members ms s r \<Longrightarrow> \<exists>k v ms' t u w. ms = (k, v) # ms' \<and> skip s = CHR 0x22 # k @ CHR 0x22 # t \<and> plain k \<and>
     skip t = CHR '':'' # u \<and> reads v u w \<and>
     (ms' = [] \<and> skip w = CHR ''}'' # r \<or> (\<exists>x. skip w = CHR '','' # x \<and> members ms' x r))"
  by (erule members.cases) auto

lemma reads_functional:
  "reads v s r \<Longrightarrow> \<forall>v' r'. reads v' s r' \<longrightarrow> v' = v \<and> r' = r"
  "members ms s r \<Longrightarrow> \<forall>ms' r'. members ms' s r' \<longrightarrow> ms' = ms \<and> r' = r"
  "elements vs s r \<Longrightarrow> \<forall>vs' r'. elements vs' s r' \<longrightarrow> vs' = vs \<and> r' = r"
proof (induction rule: reads_members_elements.inducts)
  case (num s ds r)
  then show ?case using reads_numeral by blast
next
  case (str s x r)
  then show ?case using reads_string by blast
next
  case (true s r)
  then show ?case using reads_first [of _ s _ "CHR ''t''" "''rue'' @ r"] by auto
next
  case (false s r)
  then show ?case using reads_first [of _ s _ "CHR ''f''" "''alse'' @ r"] by auto
next
  case (arr_empty s t r)
  then show ?case using reads_array [OF _ arr_empty(1)] elements_first by fastforce
next
  case (arr s t vs r)
  then show ?case using reads_array [OF _ arr(1)] elements_first by blast
next
  case (obj_empty s t r)
  then show ?case using reads_object [OF _ obj_empty(1)] members_first by fastforce
next
  case (obj s t ms r)
  then show ?case using reads_object [OF _ obj(1)] members_first by blast
next
  case (last_element v s t r)
  show ?case
  proof (intro allI impI)
    fix vs' r' assume "elements vs' s r'"
    from elements_split [OF this] last_element show "vs' = [v] \<and> r' = r" by fastforce
  qed
next
  case (next_element v s t u vs r)
  show ?case
  proof (intro allI impI)
    fix vs' r' assume "elements vs' s r'"
    from elements_split [OF this] obtain v' vs'' t' where e: "vs' = v' # vs''" "reads v' s t'"
      "vs'' = [] \<and> skip t' = CHR '']'' # r' \<or> (\<exists>u. skip t' = CHR '','' # u \<and> elements vs'' u r')"
      by blast
    then have "v' = v" "t' = t" using next_element.IH(1) by blast+
    then have "elements vs'' u r'" using e(3) next_element.hyps by auto
    then show "vs' = v # vs \<and> r' = r" using e(1) \<open>v' = v\<close> next_element.IH(2) by blast
  qed
next
  case (last_member s k t u v w r)
  show ?case
  proof (intro allI impI)
    fix ms' r' assume "members ms' s r'"
    from members_split [OF this] obtain k' v' ms'' t' u' w' where
      m: "ms' = (k', v') # ms''" "skip s = CHR 0x22 # k' @ CHR 0x22 # t'" "plain k'" "skip t' = CHR '':'' # u'"
      "reads v' u' w'" "ms'' = [] \<and> skip w' = CHR ''}'' # r' \<or> (\<exists>x. skip w' = CHR '','' # x \<and> members ms'' x r')"
      by blast
    then have "k' = k" "u' = u" using last_member.hyps plain_unique [of k t k' t'] by auto
    then have "v' = v" "w' = w" using m(5) last_member.IH by blast+
    then show "ms' = [(k, v)] \<and> r' = r" using m(1,6) \<open>k' = k\<close> \<open>w' = w\<close> last_member.hyps members_first by auto
  qed
next
  case (next_member s k t u v w x ms r)
  show ?case
  proof (intro allI impI)
    fix ms' r' assume "members ms' s r'"
    from members_split [OF this] obtain k' v' ms'' t' u' w' where
      m: "ms' = (k', v') # ms''" "skip s = CHR 0x22 # k' @ CHR 0x22 # t'" "plain k'" "skip t' = CHR '':'' # u'"
      "reads v' u' w'" "ms'' = [] \<and> skip w' = CHR ''}'' # r' \<or> (\<exists>x. skip w' = CHR '','' # x \<and> members ms'' x r')"
      by blast
    then have "k' = k" "u' = u" using next_member.hyps plain_unique [of k t k' t'] by auto
    then have "v' = v" "w' = w" using m(5) next_member.IH(1) by blast+
    then show "ms' = (k, v) # ms \<and> r' = r" using m(1,6) \<open>k' = k\<close> \<open>w' = w\<close> next_member.hyps next_member.IH(2) by auto
  qed
qed

section \<open>The dump\<close>

lemma zeros: "length (by_strategy summary_zero) = 7" "length (by_lifetime summary_zero) = 3"
  by (simp_all add: summary_zero_def)

lemma tally_reads:
  assumes "\<And>x. plain (name x)"
  shows "reads (tally name cnt xs) (CHR ''{'' # counts_loop True (map (\<lambda>x. (name x, cnt x)) xs) @ CHR ''}'' # r) r"
proof -
  have "filter (\<lambda>x. 0 < snd x) (map (\<lambda>x. (name x, cnt x)) xs) = map (\<lambda>x. (name x, cnt x)) (filter (\<lambda>x. cnt x \<noteq> 0) xs)"
    by (simp add: filter_map o_def)
  then show ?thesis
    using counts_loop_reads [of "map (\<lambda>x. (name x, cnt x)) xs" r] assms by (simp add: tally_def o_def)
qed

lemma summary_counts:
  defines "cnt \<equiv> \<lambda>P ss. length (filter P ss)"
  shows "su_total (build_summary ss) = length ss" "su_compiled (build_summary ss) = cnt jitted ss"
    "su_blacklist (build_summary ss) = cnt blacklisted ss"
    "su_deopt (build_summary ss) = cnt (\<lambda>s. \<not> blacklisted s \<and> cs_phase s = Deopt) ss"
    "su_prespec (build_summary ss) = cnt (\<lambda>s. \<not> blacklisted s \<and> cs_phase s = PreSpec) ss"
    "strategy_counts (build_summary ss) =
       map (\<lambda>c. (strategy_name c, cnt (\<lambda>s. jitted s \<and> candidate s = c) ss)) strategies"
    "lifetime_counts (build_summary ss) =
       map (\<lambda>l. (lifetime_name l, cnt (\<lambda>s. jitted s \<and> lifetime s = l) ss)) lifetimes"
  unfolding build_summary_def strategy_counts_def lifetime_counts_def cnt_def
  using code_less
  by (simp_all add: fold_add_site [OF zeros]) (simp_all add: summary_zero_def)

lemma json_text_reads:
  "reads (dump_value jit_n gen_n ss) (json_text jit_n gen_n (build_summary ss) ss) nl"
  unfolding dump_value_def json_text_def Let_def show64_def summary_counts
  by (simp only: append.simps append_assoc field_append, rule obj, simp only: skip_simps)
    (rule json_rules tally_reads sites_reads obj | simp add: digit_def plain_def)+

text \<open>
  C32: The file that \<open>TBJIT_DUMP_JSON\<close> asks for holds one JSON value, and the grammar reads no other
  from it: an object with the number of sites in each phase, the counters, the compiled sites by
  strategy and by lifetime with the zeros left out, and one object per site in the order of the
  table.  This holds for every table, the empty one included.
\<close>

theorem json_dump_well_formed:
  assumes "write_json_dump fopen pid path jit_n gen_n (build_summary ss) ss = Some (p, text)"
  shows "resolve_path pid path = Some p \<and> fopen p \<and>
    (\<exists>r. reads (dump_value jit_n gen_n ss) text r \<and> skip r = []) \<and>
    (\<forall>v r. reads v text r \<longrightarrow> v = dump_value jit_n gen_n ss)"
proof -
  have t: "resolve_path pid path = Some p" "fopen p" "text = json_text jit_n gen_n (build_summary ss) ss"
    using assms by (auto simp: write_json_dump_def split: option.splits if_splits)
  have r: "reads (dump_value jit_n gen_n ss) text nl" unfolding t(3) by (rule json_text_reads)
  then show ?thesis using t reads_functional(1) [OF r] skip_simps(11) by blast
qed

theorem json_dump_well_formed_witness:
  "\<exists>text. write_json_dump (\<lambda>_. True) 42 ''d%p.json'' 3 4 (build_summary []) [] = Some (''d42.json'', text) \<and>
     (\<exists>r. reads (dump_value 3 4 []) text r)"
proof -
  have "decimal 42 = ''42''" by (simp add: decimal.simps char_of_def bit_0)
  then have p: "resolve_path 42 ''d%p.json'' = Some ''d42.json''" by (simp add: resolve_path_def)
  then have w: "write_json_dump (\<lambda>_. True) 42 ''d%p.json'' 3 4 (build_summary []) [] =
      Some (''d42.json'', json_text 3 4 (build_summary []) [])" by (simp add: write_json_dump_def)
  from json_dump_well_formed [OF w] w show ?thesis by blast
qed

end
