(* ===== verification/Ring_Bench.thy ===== *)
theory Ring_Bench
  imports Workload
begin

text \<open>
  The two-threaded benchmark \<open>src/bench/producer_consumer.cpp\<close>: a producer that only allocates, a
  consumer that only frees, and the bounded ring of pointers between them, in every interleaving of
  their shared accesses.
\<close>

section \<open>The two threads\<close>

definition RING_LEN :: u64 where
  "RING_LEN = 2 ^ 14"

datatype producer_pc =
    P_alloc nat
  | P_index nat addr
  | P_spin nat addr u64
  | P_put nat addr u64
  | P_publish nat u64
  | P_ended

datatype consumer_pc =
    C_loop u64
  | C_seen u64 u64
  | C_take u64
  | C_free u64 addr
  | C_store u64
  | C_empty u64
  | C_last u64
  | C_ended

text \<open>\<open>pb_issued\<close> and \<open>pb_freed\<close> keep the chunks given out and freed so far, in order.\<close>

record ring_bench =
  pb_ring :: "nat \<Rightarrow> addr"
  pb_head :: u64
  pb_tail :: u64
  pb_done :: bool
  pb_bytes :: "addr \<Rightarrow> u8"
  pb_sink :: u64
  pb_exited :: bool
  pb_producer :: producer_pc
  pb_consumer :: consumer_pc
  pb_issued :: "addr list"
  pb_freed :: "addr list"

definition ring_slot :: "u64 \<Rightarrow> nat" where
  "ring_slot i = unat (i AND (RING_LEN - 1))"

definition ring_bench_start :: "(addr \<Rightarrow> u8) \<Rightarrow> ring_bench" where
  "ring_bench_start bytes =
     \<lparr>pb_ring = (\<lambda>_. 0), pb_head = 0, pb_tail = 0, pb_done = False, pb_bytes = bytes, pb_sink = 0,
      pb_exited = False, pb_producer = P_alloc 0, pb_consumer = C_loop 0, pb_issued = [], pb_freed = []\<rparr>"

text \<open>\<open>prod_alloc\<close>, for the answer \<open>p\<close> of \<open>malloc\<close>: the chunk is filled before anyone sees it.\<close>

definition prod_alloc :: "addr \<Rightarrow> ring_bench \<Rightarrow> ring_bench" where
  "prod_alloc p s =
     (if p = 0 then s
      else s\<lparr>pb_bytes := (\<lambda>a. if a - p < 48 then g_pattern else pb_bytes s a), pb_issued := pb_issued s @ [p]\<rparr>)"

definition cons_free :: "addr \<Rightarrow> ring_bench \<Rightarrow> ring_bench" where
  "cons_free p s = s\<lparr>pb_freed := pb_freed s @ [p]\<rparr>"

text \<open>One access of the producer; \<open>n\<close> is the number of chunks to send.\<close>

fun producer_step :: "nat \<Rightarrow> addr \<Rightarrow> ring_bench \<Rightarrow> ring_bench" where
  "producer_step n p s =
     (case pb_producer s of
        P_alloc i \<Rightarrow>
          if i < n
          then let s = prod_alloc p s
               in if p = 0 then s\<lparr>pb_exited := True\<rparr> else s\<lparr>pb_producer := P_index i p\<rparr>
          else s\<lparr>pb_done := True, pb_producer := P_ended\<rparr>
      | P_index i q \<Rightarrow> s\<lparr>pb_producer := P_spin i q (pb_head s)\<rparr>
      | P_spin i q h \<Rightarrow> if RING_LEN \<le> h - pb_tail s then s else s\<lparr>pb_producer := P_put i q h\<rparr>
      | P_put i q h \<Rightarrow> s\<lparr>pb_ring := (pb_ring s)(ring_slot h := q), pb_producer := P_publish i h\<rparr>
      | P_publish i h \<Rightarrow> s\<lparr>pb_head := h + 1, pb_producer := P_alloc (Suc i)\<rparr>
      | P_ended \<Rightarrow> s)"

fun consumer_step :: "ring_bench \<Rightarrow> ring_bench" where
  "consumer_step s =
     (case pb_consumer s of
        C_loop t \<Rightarrow> s\<lparr>pb_consumer := C_seen t (pb_head s)\<rparr>
      | C_seen t h \<Rightarrow> s\<lparr>pb_consumer := (if t = h then C_empty t else C_take t)\<rparr>
      | C_take t \<Rightarrow>
          let p = pb_ring s (ring_slot t)
          in s\<lparr>pb_sink := pb_sink s + ucast (pb_bytes s p), pb_consumer := C_free t p\<rparr>
      | C_free t p \<Rightarrow> (cons_free p s)\<lparr>pb_consumer := C_store t\<rparr>
      | C_store t \<Rightarrow> s\<lparr>pb_tail := t + 1, pb_consumer := C_loop (t + 1)\<rparr>
      | C_empty t \<Rightarrow> s\<lparr>pb_consumer := (if pb_done s then C_last t else C_loop t)\<rparr>
      | C_last t \<Rightarrow> s\<lparr>pb_consumer := (if t = pb_head s then C_ended else C_loop t)\<rparr>
      | C_ended \<Rightarrow> s)"

declare producer_step.simps [simp del] consumer_step.simps [simp del]

text \<open>The chunks in use: given out and not freed yet.  \<open>malloc\<close> answers null or none of them.\<close>

definition in_use :: "ring_bench \<Rightarrow> addr list" where
  "in_use s = drop (length (pb_freed s)) (pb_issued s)"

inductive ring_bench_step :: "nat \<Rightarrow> ring_bench \<Rightarrow> ring_bench \<Rightarrow> bool" for n where
  produce: "\<not> pb_exited s \<Longrightarrow> p \<notin> set (in_use s) \<Longrightarrow> ring_bench_step n s (producer_step n p s)"
| consume: "\<not> pb_exited s \<Longrightarrow> ring_bench_step n s (consumer_step s)"

abbreviation ring_bench_reach :: "nat \<Rightarrow> (addr \<Rightarrow> u8) \<Rightarrow> ring_bench \<Rightarrow> bool" where
  "ring_bench_reach n bytes s \<equiv> (ring_bench_step n)\<^sup>*\<^sup>* (ring_bench_start bytes) s"

text \<open>The line \<open>main\<close> prints once both threads have joined.\<close>

definition ring_bench_report :: "timespec \<Rightarrow> timespec \<Rightarrow> bench_line" where
  "ring_bench_report t0 t1 =
     \<lparr>bl_label = ''steady:'', bl_ns = fdiv (elapsed_ns t0 t1) (d_of_nat (1000000 * 2)), bl_iters = 1000000 * 2,
      bl_extra = '', 48B producer/consumer, 2 threads''\<rparr>"

section \<open>Invariant\<close>

text \<open>The numbers of chunks published and taken off the ring.\<close>

fun published :: "nat \<Rightarrow> producer_pc \<Rightarrow> nat" where
  "published n (P_alloc i) = i"
| "published n (P_index i p) = i"
| "published n (P_spin i p h) = i"
| "published n (P_put i p h) = i"
| "published n (P_publish i h) = i"
| "published n P_ended = n"

text \<open>What the producer's place says, given the number \<open>m\<close> of released slots.\<close>

fun producer_ok :: "nat \<Rightarrow> nat \<Rightarrow> ring_bench \<Rightarrow> producer_pc \<Rightarrow> bool" where
  "producer_ok n m s (P_alloc i) \<longleftrightarrow> i \<le> n \<and> length (pb_issued s) = i"
| "producer_ok n m s (P_index i p) \<longleftrightarrow> i < n \<and> length (pb_issued s) = Suc i \<and> p = pb_issued s ! i"
| "producer_ok n m s (P_spin i p h) \<longleftrightarrow> i < n \<and> length (pb_issued s) = Suc i \<and> p = pb_issued s ! i \<and> h = of_nat i"
| "producer_ok n m s (P_put i p h) \<longleftrightarrow>
     i < n \<and> length (pb_issued s) = Suc i \<and> p = pb_issued s ! i \<and> h = of_nat i \<and> i < m + 16384"
| "producer_ok n m s (P_publish i h) \<longleftrightarrow>
     i < n \<and> length (pb_issued s) = Suc i \<and> h = of_nat i \<and> i < m + 16384 \<and> pb_ring s (i mod 16384) = pb_issued s ! i"
| "producer_ok n m s P_ended \<longleftrightarrow> length (pb_issued s) = n"

fun consumer_ok :: "nat \<Rightarrow> nat \<Rightarrow> nat \<Rightarrow> ring_bench \<Rightarrow> consumer_pc \<Rightarrow> bool" where
  "consumer_ok n m k s (C_loop t) \<longleftrightarrow> t = of_nat m \<and> length (pb_freed s) = m"
| "consumer_ok n m k s (C_seen t h) \<longleftrightarrow> t = of_nat m \<and> length (pb_freed s) = m \<and> (\<exists>j. m \<le> j \<and> j \<le> k \<and> h = of_nat j)"
| "consumer_ok n m k s (C_take t) \<longleftrightarrow> t = of_nat m \<and> length (pb_freed s) = m \<and> m < k"
| "consumer_ok n m k s (C_free t p) \<longleftrightarrow> t = of_nat m \<and> length (pb_freed s) = m \<and> m < k \<and> p = pb_issued s ! m"
| "consumer_ok n m k s (C_store t) \<longleftrightarrow> t = of_nat m \<and> length (pb_freed s) = Suc m \<and> m < k"
| "consumer_ok n m k s (C_empty t) \<longleftrightarrow> t = of_nat m \<and> length (pb_freed s) = m"
| "consumer_ok n m k s (C_last t) \<longleftrightarrow> t = of_nat m \<and> length (pb_freed s) = m \<and> pb_done s"
| "consumer_ok n m k s C_ended \<longleftrightarrow> length (pb_freed s) = m \<and> m = n \<and> pb_done s"

text \<open>The chunks whose first byte was added to the sink.\<close>

fun consumed :: "nat \<Rightarrow> consumer_pc \<Rightarrow> nat" where
  "consumed m (C_free t p) = Suc m"
| "consumed m (C_store t) = Suc m"
| "consumed m c = m"

definition ring_bench_at :: "nat \<Rightarrow> nat \<Rightarrow> ring_bench \<Rightarrow> bool" where
  "ring_bench_at n m s \<longleftrightarrow>
     (let k = published n (pb_producer s)
      in k \<le> n \<and> m \<le> k \<and> k \<le> m + 16384 \<and> pb_head s = of_nat k \<and> pb_tail s = of_nat m \<and>
         (pb_done s \<longleftrightarrow> pb_producer s = P_ended) \<and>
         producer_ok n m s (pb_producer s) \<and> consumer_ok n m k s (pb_consumer s) \<and>
         (\<forall>j. m \<le> j \<longrightarrow> j < k \<longrightarrow> pb_ring s (j mod 16384) = pb_issued s ! j) \<and>
         pb_freed s = take (length (pb_freed s)) (pb_issued s) \<and>
         (\<forall>p \<in> set (pb_issued s). pb_bytes s p = g_pattern) \<and>
         pb_sink s = of_nat (consumed m (pb_consumer s)) * 171)"

lemma ring_slot_of_nat: "ring_slot (of_nat i) = i mod 16384"
proof -
  have "RING_LEN - 1 = mask 14" by (simp add: RING_LEN_def mask_eq_exp_minus_1)
  then have "ring_slot (of_nat i) = unat (of_nat i :: u64) mod 16384" by (simp add: ring_slot_def unat_and_mask)
  also have "\<dots> = i mod 2 ^ 64 mod 16384" by (simp add: unat_of_nat)
  also have "\<dots> = i mod 16384" by (simp add: mod_mod_cancel)
  finally show ?thesis .
qed

lemma of_nat_u64_eq: "i < 2 ^ 63 \<Longrightarrow> j < 2 ^ 63 \<Longrightarrow> (of_nat i :: u64) = of_nat j \<longleftrightarrow> i = j"
  by (simp add: word_of_nat_eq_iff take_bit_nat_eq_self)

lemma ring_room:
  assumes "m \<le> i" and "i < 2 ^ 63"
  shows "RING_LEN \<le> of_nat i - of_nat m \<longleftrightarrow> m + 16384 \<le> i"
proof -
  have "of_nat i - of_nat m = (of_nat (i - m) :: u64)" using assms(1) by (simp add: of_nat_diff)
  moreover have "unat (of_nat (i - m) :: u64) = i - m" using assms(2) by (simp add: unat_of_nat)
  moreover have "unat RING_LEN = 16384" by (simp add: RING_LEN_def)
  ultimately show ?thesis using assms(1) by (auto simp: word_le_nat_alt)
qed

lemma slots_distinct: "m \<le> j \<Longrightarrow> j < i \<Longrightarrow> i < m + 16384 \<Longrightarrow> j mod 16384 \<noteq> i mod 16384" for i j m :: nat
proof
  assume a: "m \<le> j" "j < i" "i < m + 16384" "j mod 16384 = i mod 16384"
  then have "16384 dvd i - j" by (metis less_imp_le mod_eq_dvd_iff_nat)
  then show False using a by (auto dest: dvd_imp_le)
qed

lemma atD:
  assumes "ring_bench_at n m s" and "k = published n (pb_producer s)"
  shows "k \<le> n" "m \<le> k" "k \<le> m + 16384" "pb_head s = of_nat k" "pb_tail s = of_nat m"
    "pb_done s \<longleftrightarrow> pb_producer s = P_ended" "producer_ok n m s (pb_producer s)" "consumer_ok n m k s (pb_consumer s)"
    "\<And>j. m \<le> j \<Longrightarrow> j < k \<Longrightarrow> pb_ring s (j mod 16384) = pb_issued s ! j"
    "pb_freed s = take (length (pb_freed s)) (pb_issued s)" "\<And>p. p \<in> set (pb_issued s) \<Longrightarrow> pb_bytes s p = g_pattern"
    "pb_sink s = of_nat (consumed m (pb_consumer s)) * 171"
  using assms unfolding ring_bench_at_def Let_def by blast+

lemma atI:
  assumes "k = published n (pb_producer s)"
    and "k \<le> n" "m \<le> k" "k \<le> m + 16384" "pb_head s = of_nat k" "pb_tail s = of_nat m"
    "pb_done s \<longleftrightarrow> pb_producer s = P_ended" "producer_ok n m s (pb_producer s)" "consumer_ok n m k s (pb_consumer s)"
    "\<And>j. m \<le> j \<Longrightarrow> j < k \<Longrightarrow> pb_ring s (j mod 16384) = pb_issued s ! j"
    "pb_freed s = take (length (pb_freed s)) (pb_issued s)" "\<And>p. p \<in> set (pb_issued s) \<Longrightarrow> pb_bytes s p = g_pattern"
    "pb_sink s = of_nat (consumed m (pb_consumer s)) * 171"
  shows "ring_bench_at n m s"
  using assms unfolding ring_bench_at_def Let_def by blast

lemma issued_bounds:
  assumes "ring_bench_at n m s"
  shows "published n (pb_producer s) \<le> length (pb_issued s)" and "length (pb_freed s) \<le> published n (pb_producer s)"
proof -
  note a = atD [OF assms refl]
  show "published n (pb_producer s) \<le> length (pb_issued s)" using a(7) by (cases "pb_producer s") auto
  show "length (pb_freed s) \<le> published n (pb_producer s)" using a(2,8) by (cases "pb_consumer s") auto
qed

lemma consumer_ok_cong:
  assumes "consumer_ok n m k s c" and "k \<le> k'" and "pb_freed s' = pb_freed s" and "pb_done s \<longrightarrow> pb_done s'"
    and "m < k \<longrightarrow> pb_issued s' ! m = pb_issued s ! m"
  shows "consumer_ok n m k' s' c"
proof (cases c)
  case (C_seen t h)
  then obtain j where "m \<le> j" "j \<le> k" "h = of_nat j" "t = of_nat m" "length (pb_freed s) = m" using assms(1) by auto
  then show ?thesis using C_seen assms(2,3) by (auto intro!: exI [of _ j])
qed (use assms in auto)

lemma producer_ok_cong:
  assumes "producer_ok n m s q" and "m \<le> m'" and "pb_issued s' = pb_issued s" and "pb_ring s' = pb_ring s"
  shows "producer_ok n m' s' q"
  using assms by (cases q) auto

text \<open>A producer step that touches neither the ring nor the list of chunks.\<close>

lemma at_producer:
  assumes a: "ring_bench_at n m s" and "published n q = published n (pb_producer s)" and "pb_producer s \<noteq> P_ended"
    and "producer_ok n m s q" and "d \<longleftrightarrow> q = P_ended"
  shows "ring_bench_at n m (s\<lparr>pb_done := d, pb_producer := q\<rparr>)"
proof -
  note b = atD [OF a refl]
  have "producer_ok n m (s\<lparr>pb_done := d, pb_producer := q\<rparr>) q" by (rule producer_ok_cong [OF assms(4)]) simp_all
  moreover have "consumer_ok n m (published n q) (s\<lparr>pb_done := d, pb_producer := q\<rparr>) (pb_consumer s)"
    by (rule consumer_ok_cong [OF b(8)]) (use assms b(6) in simp_all)
  ultimately show ?thesis using b assms(2,5) unfolding ring_bench_at_def Let_def by simp
qed

lemma at_move:
  assumes a: "ring_bench_at n m s" and "published n q = published n (pb_producer s)" and "pb_producer s \<noteq> P_ended"
    and "producer_ok n m s q" and "q \<noteq> P_ended"
  shows "ring_bench_at n m (s\<lparr>pb_producer := q\<rparr>)"
proof -
  have "s\<lparr>pb_producer := q\<rparr> = s\<lparr>pb_done := False, pb_producer := q\<rparr>" using atD(6) [OF a refl] assms(3) by simp
  then show ?thesis using at_producer [OF a assms(2-4), of False] assms(5) by simp
qed

lemma at_issue:
  assumes a: "ring_bench_at n m s" and q: "pb_producer s = P_alloc i" and i: "i < n" and p: "p \<noteq> 0"
  shows "ring_bench_at n m ((prod_alloc p s)\<lparr>pb_producer := P_index i p\<rparr>)"
proof -
  let ?s = "(prod_alloc p s)\<lparr>pb_producer := P_index i p\<rparr>"
  note b = atD [OF a refl, unfolded q published.simps]
  have len: "length (pb_issued s) = i" using b(7) by simp
  have fr: "length (pb_freed s) \<le> i" using issued_bounds(2) [OF a] q by simp
  have iss: "pb_issued ?s = pb_issued s @ [p]" and oth: "pb_ring ?s = pb_ring s" "pb_freed ?s = pb_freed s" "pb_head ?s = pb_head s"
    "pb_tail ?s = pb_tail s" "pb_done ?s = pb_done s" "pb_consumer ?s = pb_consumer s" "pb_producer ?s = P_index i p" "pb_sink ?s = pb_sink s"
    and bt: "pb_bytes ?s = (\<lambda>a. if a - p < 48 then g_pattern else pb_bytes s a)"
    using p by (simp_all add: prod_alloc_def)
  have "producer_ok n m ?s (P_index i p)" using i len by (simp add: iss nth_append)
  moreover have "consumer_ok n m i ?s (pb_consumer s)"
    by (rule consumer_ok_cong [OF b(8)]) (use oth iss len in \<open>simp_all add: nth_append\<close>)
  moreover have "pb_ring s (j mod 16384) = (pb_issued s @ [p]) ! j" if "m \<le> j" "j < i" for j
    using b(9) [OF that] that(2) len by (simp add: nth_append)
  moreover have "\<forall>c \<in> set (pb_issued s @ [p]). pb_bytes ?s c = g_pattern" unfolding bt using b(11) by simp
  moreover have "pb_freed s = take (length (pb_freed s)) (pb_issued s @ [p])" using b(10) fr len by simp
  ultimately show ?thesis using b(1-6,12) q unfolding ring_bench_at_def Let_def iss oth published.simps by simp
qed

lemma at_put:
  assumes a: "ring_bench_at n m s" and q: "pb_producer s = P_put i p h"
  shows "ring_bench_at n m (s\<lparr>pb_ring := (pb_ring s)(ring_slot h := p), pb_producer := P_publish i h\<rparr>)"
proof -
  let ?s = "s\<lparr>pb_ring := (pb_ring s)(ring_slot h := p), pb_producer := P_publish i h\<rparr>"
  note b = atD [OF a refl, unfolded q published.simps]
  have i: "i < n" "length (pb_issued s) = Suc i" "p = pb_issued s ! i" "h = of_nat i" "i < m + 16384" using b(7) by simp_all
  have sl: "ring_slot h = i mod 16384" by (simp add: i(4) ring_slot_of_nat)
  have "consumer_ok n m i ?s (pb_consumer s)" by (rule consumer_ok_cong [OF b(8)]) simp_all
  moreover have "pb_ring ?s (j mod 16384) = pb_issued s ! j" if "m \<le> j" "j < i" for j
    using b(9) [OF that] slots_distinct [OF that i(5)] by (simp add: sl)
  moreover have "producer_ok n m ?s (P_publish i h)" using i sl by simp
  moreover have "\<not> (j mod 16384 = i mod 16384 \<and> m \<le> j \<and> j < i)" for j using slots_distinct [of m j i] i(5) by blast
  ultimately show ?thesis using b sl unfolding ring_bench_at_def Let_def by (simp add: i(4) ring_slot_of_nat)
qed

lemma at_publish:
  assumes a: "ring_bench_at n m s" and q: "pb_producer s = P_publish i h"
  shows "ring_bench_at n m (s\<lparr>pb_head := h + 1, pb_producer := P_alloc (Suc i)\<rparr>)"
proof -
  let ?s = "s\<lparr>pb_head := h + 1, pb_producer := P_alloc (Suc i)\<rparr>"
  note b = atD [OF a refl, unfolded q published.simps]
  have i: "i < n" "length (pb_issued s) = Suc i" "h = of_nat i" "i < m + 16384" "pb_ring s (i mod 16384) = pb_issued s ! i"
    using b(7) by simp_all
  have "consumer_ok n m (Suc i) ?s (pb_consumer s)" by (rule consumer_ok_cong [OF b(8)]) simp_all
  moreover have "pb_ring s (j mod 16384) = pb_issued s ! j" if "m \<le> j" "j < Suc i" for j
    using b(9) [OF that(1)] i(5) that(2) by (cases "j = i") simp_all
  ultimately show ?thesis using b i unfolding ring_bench_at_def Let_def by (simp add: add.commute)
qed

lemma producer_keeps:
  assumes a: "ring_bench_at n m s" and n: "n < 2 ^ 63"
  shows "ring_bench_at n m (producer_step n p s)"
proof -
  note b = atD [OF a refl]
  show ?thesis
  proof (cases "pb_producer s")
    case (P_alloc i)
    show ?thesis
    proof (cases "i < n")
      case True
      have "producer_ok n m (s\<lparr>pb_exited := True\<rparr>) (pb_producer s)" by (rule producer_ok_cong [OF b(7)]) simp_all
      moreover have "consumer_ok n m (published n (pb_producer s)) (s\<lparr>pb_exited := True\<rparr>) (pb_consumer s)"
        by (rule consumer_ok_cong [OF b(8)]) simp_all
      ultimately have "ring_bench_at n m (s\<lparr>pb_exited := True\<rparr>)" using b unfolding ring_bench_at_def Let_def by simp
      then show ?thesis using at_issue [OF a P_alloc True, of p] True P_alloc
        by (cases "p = 0") (simp_all add: producer_step.simps prod_alloc_def)
    next
      case False
      then have "i = n" "length (pb_issued s) = n" using b(7) P_alloc by auto
      then show ?thesis using at_producer [OF a, of P_ended True] P_alloc by (simp add: producer_step.simps)
    qed
  next
    case (P_index i q)
    show ?thesis using at_move [OF a, of "P_spin i q (pb_head s)"] b(4,7) P_index by (simp add: producer_step.simps)
  next
    case (P_spin i q h)
    have h: "h = of_nat i" "i < n" "m \<le> i" using b(2,7) P_spin by simp_all
    show ?thesis
    proof (cases "RING_LEN \<le> h - pb_tail s")
      case True
      then show ?thesis using a P_spin by (simp add: producer_step.simps)
    next
      case False
      then have "i < m + 16384" using ring_room [OF h(3)] h(1,2) n b(5) by simp
      then show ?thesis using at_move [OF a, of "P_put i q h"] b(7) P_spin False by (simp add: producer_step.simps)
    qed
  next
    case (P_put i q h)
    then show ?thesis using at_put [OF a P_put] by (simp add: producer_step.simps)
  next
    case (P_publish i h)
    then show ?thesis using at_publish [OF a P_publish] by (simp add: producer_step.simps)
  next
    case P_ended
    then show ?thesis using a by (simp add: producer_step.simps)
  qed
qed

text \<open>A consumer step that leaves ring, counters and chunks as they are.\<close>

lemma at_consumer:
  assumes a: "ring_bench_at n m s" and "consumer_ok n m (published n (pb_producer s)) s c"
    and "consumed m c = consumed m (pb_consumer s)"
  shows "ring_bench_at n m (s\<lparr>pb_consumer := c\<rparr>)"
proof -
  note b = atD [OF a refl]
  have "producer_ok n m (s\<lparr>pb_consumer := c\<rparr>) (pb_producer s)" by (rule producer_ok_cong [OF b(7)]) simp_all
  moreover have "consumer_ok n m (published n (pb_producer s)) (s\<lparr>pb_consumer := c\<rparr>) c"
    by (rule consumer_ok_cong [OF assms(2)]) simp_all
  ultimately show ?thesis using b assms(3) unfolding ring_bench_at_def Let_def by simp
qed

lemma at_take:
  assumes a: "ring_bench_at n m s" and c: "pb_consumer s = C_take t"
  shows "pb_ring s (ring_slot t) = pb_issued s ! m" and "m < length (pb_issued s)" and "length (pb_freed s) = m"
    and "ring_bench_at n m (consumer_step s)"
proof -
  let ?k = "published n (pb_producer s)"
  note b = atD [OF a refl]
  have t: "t = of_nat m" "length (pb_freed s) = m" "m < ?k" using b(8) c by simp_all
  show p: "pb_ring s (ring_slot t) = pb_issued s ! m" using b(9) [OF le_refl t(3)] by (simp add: t(1) ring_slot_of_nat)
  show l: "m < length (pb_issued s)" using issued_bounds(1) [OF a] t(3) by simp
  show "length (pb_freed s) = m" by (rule t(2))
  define q where "q = pb_ring s (ring_slot t)"
  define s' where "s' = s\<lparr>pb_sink := pb_sink s + ucast (pb_bytes s q), pb_consumer := C_free t q\<rparr>"
  have s': "pb_producer s' = pb_producer s" "pb_consumer s' = C_free t q" "pb_ring s' = pb_ring s" "pb_head s' = pb_head s"
    "pb_tail s' = pb_tail s" "pb_done s' = pb_done s" "pb_issued s' = pb_issued s" "pb_freed s' = pb_freed s"
    "pb_bytes s' = pb_bytes s" "pb_sink s' = pb_sink s + ucast (pb_bytes s q)"
    by (simp_all add: s'_def)
  have q: "q = pb_issued s ! m" by (simp only: q_def p)
  then have "pb_bytes s q = g_pattern" using b(11) l by simp
  then have "ucast (pb_bytes s q) = (171 :: u64)" by (simp add: g_pattern_def)
  moreover have "pb_sink s = of_nat m * 171" using b(12) c by simp
  ultimately have sink: "pb_sink s + ucast (pb_bytes s q) = of_nat (Suc m) * 171" by (simp add: algebra_simps)
  have pr: "producer_ok n m s' (pb_producer s)" by (rule producer_ok_cong [OF b(7)]) (simp_all add: s')
  have co: "consumer_ok n m ?k s' (C_free t q)" using t q by (simp add: s')
  have "ring_bench_at n m s'"
    by (rule atI [of ?k]; (unfold s' consumed.simps)?; (rule refl pr co sink b(1-6,9-11); assumption?))
  then show "ring_bench_at n m (consumer_step s)" using c by (simp add: consumer_step.simps Let_def s'_def q_def)
qed

lemma at_free:
  assumes a: "ring_bench_at n m s" and c: "pb_consumer s = C_free t p"
  shows "p = pb_issued s ! m" and "m < length (pb_issued s)" and "length (pb_freed s) = m"
    and "ring_bench_at n m (consumer_step s)"
proof -
  let ?k = "published n (pb_producer s)" and ?s = "(cons_free p s)\<lparr>pb_consumer := C_store t\<rparr>"
  note b = atD [OF a refl]
  have t: "t = of_nat m" "length (pb_freed s) = m" "m < ?k" "p = pb_issued s ! m" using b(8) c by simp_all
  show "p = pb_issued s ! m" "length (pb_freed s) = m" by (rule t)+
  show l: "m < length (pb_issued s)" using issued_bounds(1) [OF a] t(3) by simp
  have "producer_ok n m ?s (pb_producer s)" by (rule producer_ok_cong [OF b(7)]) (simp_all add: cons_free_def)
  moreover have "pb_freed s @ [p] = take (Suc m) (pb_issued s)" using b(10) t(2,4) l by (simp add: take_Suc_conv_app_nth)
  moreover have "min (length (pb_issued s)) (Suc m) = Suc m" using l by simp
  ultimately have "ring_bench_at n m ?s" using b t c unfolding ring_bench_at_def Let_def by (simp add: cons_free_def)
  then show "ring_bench_at n m (consumer_step s)" using c by (simp add: consumer_step.simps)
qed

lemma at_store:
  assumes a: "ring_bench_at n m s" and c: "pb_consumer s = C_store t"
  shows "ring_bench_at n (Suc m) (consumer_step s)"
proof -
  let ?k = "published n (pb_producer s)" and ?s = "s\<lparr>pb_tail := t + 1, pb_consumer := C_loop (t + 1)\<rparr>"
  note b = atD [OF a refl]
  have t: "t = of_nat m" "length (pb_freed s) = Suc m" "m < ?k" using b(8) c by simp_all
  have "producer_ok n (Suc m) ?s (pb_producer s)" by (rule producer_ok_cong [OF b(7)]) simp_all
  then have "ring_bench_at n (Suc m) ?s"
    using b t c unfolding ring_bench_at_def Let_def by (simp add: algebra_simps)
  then show ?thesis using c by (simp add: consumer_step.simps)
qed

lemma at_seen:
  assumes a: "ring_bench_at n m s" and c: "pb_consumer s = C_seen t h" and n: "n < 2 ^ 63"
  shows "ring_bench_at n m (consumer_step s)"
proof -
  let ?k = "published n (pb_producer s)"
  note b = atD [OF a refl]
  obtain j where j: "t = of_nat m" "length (pb_freed s) = m" "m \<le> j" "j \<le> ?k" "h = of_nat j" using b(8) c by auto
  have "m < 2 ^ 63" "j < 2 ^ 63" using j b(1) n by simp_all
  then have "t = h \<longleftrightarrow> m = j" using of_nat_u64_eq j(1,5) by simp
  then have "consumer_ok n m ?k s (if t = h then C_empty t else C_take t)" using j by simp
  then show ?thesis using at_consumer [OF a, of "if t = h then C_empty t else C_take t"] c by (simp add: consumer_step.simps)
qed

lemma at_last:
  assumes a: "ring_bench_at n m s" and c: "pb_consumer s = C_last t" and n: "n < 2 ^ 63"
  shows "ring_bench_at n m (consumer_step s)"
proof -
  note b = atD [OF a refl]
  have t: "t = of_nat m" "length (pb_freed s) = m" "pb_done s" using b(8) c by simp_all
  then have k: "published n (pb_producer s) = n" using b(6) by simp
  then have "t = pb_head s \<longleftrightarrow> m = n" using of_nat_u64_eq [of m n] b(1,2,4) n t(1) by simp
  then show ?thesis
    using at_consumer [OF a, of "if t = pb_head s then C_ended else C_loop t"] t k c by (auto simp: consumer_step.simps)
qed

lemma consumer_keeps_m:
  assumes a: "ring_bench_at n m s" and n: "n < 2 ^ 63" and "\<nexists>t. pb_consumer s = C_store t"
  shows "ring_bench_at n m (consumer_step s)"
proof (cases "pb_consumer s")
  case (C_loop t)
  note b = atD [OF a refl]
  have "consumer_ok n m (published n (pb_producer s)) s (C_seen t (pb_head s))" using b(2,4,8) C_loop by auto
  then show ?thesis using at_consumer [OF a] C_loop by (simp add: consumer_step.simps)
next
  case (C_seen t h)
  then show ?thesis by (rule at_seen [OF a _ n])
next
  case (C_take t)
  then show ?thesis by (rule at_take(4) [OF a])
next
  case (C_free t p)
  then show ?thesis by (rule at_free(4) [OF a])
next
  case (C_empty t)
  then have "consumer_ok n m (published n (pb_producer s)) s (if pb_done s then C_last t else C_loop t)"
    using atD(8) [OF a refl] by simp
  then show ?thesis using at_consumer [OF a, of "if pb_done s then C_last t else C_loop t"] C_empty
    by (simp add: consumer_step.simps)
next
  case (C_last t)
  then show ?thesis by (rule at_last [OF a _ n])
qed (use a assms(3) in \<open>simp_all add: consumer_step.simps\<close>)

lemma consumer_keeps:
  assumes "ring_bench_at n m s" and "n < 2 ^ 63"
  shows "\<exists>m'. ring_bench_at n m' (consumer_step s)"
  using consumer_keeps_m [OF assms] at_store [OF assms(1)] by blast

lemma start_at: "ring_bench_at n 0 (ring_bench_start bytes)"
  by (simp add: ring_bench_at_def ring_bench_start_def)

lemma reach_at:
  assumes "ring_bench_reach n bytes s" and "n < 2 ^ 63"
  shows "\<exists>m. ring_bench_at n m s"
  using assms(1)
proof (induction rule: rtranclp_induct)
  case base
  then show ?case using start_at by blast
next
  case (step s s')
  then show ?case using producer_keeps consumer_keeps assms(2) by (metis ring_bench_step.cases)
qed

section \<open>Delivery\<close>

lemma in_use_bound:
  assumes a: "ring_bench_at n m s"
  shows "length (in_use s) \<le> 16385"
proof -
  note b = atD [OF a refl]
  have "length (pb_issued s) \<le> Suc (published n (pb_producer s))" using b(7) by (cases "pb_producer s") auto
  moreover have "m \<le> length (pb_freed s)" using b(8) by (cases "pb_consumer s") auto
  ultimately show ?thesis using b(3) by (simp add: in_use_def)
qed

text \<open>
  C37: In every interleaving of fewer than \<open>2 ^ 63\<close> chunks, the consumer frees the chunks in the
  order in which they were given out, each once: the chunk it reads and the one it frees are the
  oldest in use, at most 16385 are in use, and once it ends every chunk has been freed and each
  one's first byte added to the sink.
\<close>

theorem ring_bench_frees_in_order:
  assumes "ring_bench_reach n bytes s" and "n < 2 ^ 63"
  shows "pb_freed s = take (length (pb_freed s)) (pb_issued s) \<and> length (in_use s) \<le> 16385 \<and>
    (case pb_consumer s of
       C_take t \<Rightarrow> in_use s \<noteq> [] \<and> pb_ring s (ring_slot t) = hd (in_use s)
     | C_free t p \<Rightarrow> in_use s \<noteq> [] \<and> p = hd (in_use s)
     | C_ended \<Rightarrow> pb_producer s = P_ended \<and> length (pb_issued s) = n \<and> in_use s = [] \<and> pb_sink s = of_nat n * 171
     | _ \<Rightarrow> True)"
proof -
  obtain m where a: "ring_bench_at n m s" using reach_at [OF assms] by blast
  note b = atD [OF a refl]
  have "length (in_use s) \<le> 16385" by (rule in_use_bound [OF a])
  then show ?thesis
  proof (cases "pb_consumer s")
    case (C_take t)
    then show ?thesis
      using at_take(1-3) [OF a C_take] b(10) [symmetric] in_use_bound [OF a] by (simp add: in_use_def hd_drop_conv_nth)
  next
    case (C_free t p)
    then show ?thesis
      using at_free(1-3) [OF a C_free] b(10) [symmetric] in_use_bound [OF a] by (simp add: in_use_def hd_drop_conv_nth)
  next
    case C_ended
    then show ?thesis using b(6,7,8,12) in_use_bound [OF a] b(10) [symmetric] by (simp add: in_use_def)
  qed (use b(10) [symmetric] in simp_all)
qed

lemma ring_bench_frees_in_order_witness:
  "\<exists>s. ring_bench_reach 1 (\<lambda>_. 0) s \<and> pb_issued s = [48] \<and> pb_freed s = take (length (pb_freed s)) [48] \<and>
     length (in_use s) \<le> 16385"
proof -
  let ?s = "producer_step 1 48 (ring_bench_start (\<lambda>_. 0))"
  have "ring_bench_step 1 (ring_bench_start (\<lambda>_. 0)) ?s"
    by (rule ring_bench_step.produce) (simp_all add: ring_bench_start_def in_use_def)
  then have r: "ring_bench_reach 1 (\<lambda>_. 0) ?s" by simp
  moreover have i: "pb_issued ?s = [48]" by (simp add: producer_step.simps ring_bench_start_def prod_alloc_def)
  moreover have "pb_freed ?s = take (length (pb_freed ?s)) (pb_issued ?s) \<and> length (in_use ?s) \<le> 16385"
    using ring_bench_frees_in_order [OF r] by simp
  ultimately show ?thesis by (metis (no_types))
qed

section \<open>Progress\<close>

fun producer_rank :: "nat \<Rightarrow> producer_pc \<Rightarrow> nat" where
  "producer_rank n (P_alloc i) = 5 * (n - i) + 4"
| "producer_rank n (P_index i p) = 5 * (n - i) + 3"
| "producer_rank n (P_spin i p h) = 5 * (n - i) + 2"
| "producer_rank n (P_put i p h) = 5 * (n - i) + 1"
| "producer_rank n (P_publish i h) = 5 * (n - i)"
| "producer_rank n P_ended = 0"

text \<open>With chunks on the ring the consumer releases a slot; once all \<open>n\<close> are released it ends.\<close>

fun consumer_rank :: "bool \<Rightarrow> consumer_pc \<Rightarrow> nat" where
  "consumer_rank work (C_loop t) = 5"
| "consumer_rank work (C_seen t h) = (if work then if t = h then 8 else 4 else if t = h then 4 else 6)"
| "consumer_rank work (C_take t) = 3"
| "consumer_rank work (C_free t p) = 2"
| "consumer_rank work (C_store t) = 1"
| "consumer_rank work (C_empty t) = (if work then 7 else 2)"
| "consumer_rank work (C_last t) = (if work then 6 else 1)"
| "consumer_rank work C_ended = 0"

definition ring_bench_rank :: "nat \<Rightarrow> nat \<Rightarrow> ring_bench \<Rightarrow> nat" where
  "ring_bench_rank n m s =
     producer_rank n (pb_producer s) + 8 * (n - m) + consumer_rank (m < n) (pb_consumer s)"

lemma fresh_chunk:
  assumes "ring_bench_at n m s"
  obtains p where "p \<noteq> 0" and "p \<notin> set (in_use s)"
proof -
  have "card (insert 0 (set (in_use s))) \<le> Suc (card (set (in_use s)))" by (simp add: card_insert_if)
  also have "\<dots> \<le> Suc (length (in_use s))" using card_length by simp
  finally have "card (insert 0 (set (in_use s))) < card (UNIV :: addr set)"
    using in_use_bound [OF assms] by (simp add: card_word)
  then have "insert 0 (set (in_use s)) \<noteq> UNIV" by auto
  then show ?thesis using that by auto
qed

lemma producer_advances:
  assumes a: "ring_bench_at n m s" and x: "\<not> pb_exited s" and n: "n < 2 ^ 63" and "pb_producer s \<noteq> P_ended"
    and blocked: "\<And>i q h. pb_producer s = P_spin i q h \<Longrightarrow> i < m + 16384"
  obtains p where "p \<notin> set (in_use s)" and "\<not> pb_exited (producer_step n p s)"
    and "ring_bench_rank n m (producer_step n p s) < ring_bench_rank n m s"
proof -
  note b = atD [OF a refl]
  obtain p where p: "p \<noteq> 0" "p \<notin> set (in_use s)" using fresh_chunk [OF a] by blast
  have "\<not> pb_exited (producer_step n p s) \<and> ring_bench_rank n m (producer_step n p s) < ring_bench_rank n m s"
  proof (cases "pb_producer s")
    case (P_alloc i)
    then show ?thesis using x p by (cases "i < n") (simp_all add: producer_step.simps prod_alloc_def ring_bench_rank_def)
  next
    case (P_index i q)
    then show ?thesis using x b(7) by (simp add: producer_step.simps ring_bench_rank_def)
  next
    case (P_spin i q h)
    then have h: "h = of_nat i" "i < n" "m \<le> i" using b(2,7) by simp_all
    then have "\<not> RING_LEN \<le> h - pb_tail s" using ring_room [OF h(3)] blocked [OF P_spin] n b(5) by simp
    then show ?thesis using x P_spin h by (simp add: producer_step.simps ring_bench_rank_def)
  next
    case (P_put i q h)
    then show ?thesis using x b(7) by (simp add: producer_step.simps ring_bench_rank_def)
  next
    case (P_publish i h)
    then have "i < n" using b(7) by simp
    then have "n - i = Suc (n - Suc i)" by simp
    then show ?thesis using x P_publish by (simp add: producer_step.simps ring_bench_rank_def)
  qed (use assms(4) in simp)
  then show ?thesis using that p(2) by blast
qed

lemma consumer_advances:
  assumes a: "ring_bench_at n m s" and x: "\<not> pb_exited s" and n: "n < 2 ^ 63" and e: "pb_consumer s \<noteq> C_ended"
    and w: "m < published n (pb_producer s) \<or> m = n \<and> pb_done s"
  obtains m' where "ring_bench_at n m' (consumer_step s)" and "\<not> pb_exited (consumer_step s)"
    and "ring_bench_rank n m' (consumer_step s) < ring_bench_rank n m s"
proof -
  note b = atD [OF a refl]
  let ?s = "consumer_step s"
  have same: "pb_producer ?s = pb_producer s" "\<not> pb_exited ?s" using x
    by (cases "pb_consumer s"; simp add: consumer_step.simps Let_def cons_free_def)+
  obtain m1 where m1: "ring_bench_at n m1 ?s" using consumer_keeps [OF a n] by blast
  have mn: "m < n \<or> m = n \<and> pb_done s" using w b(1) by auto
  show ?thesis
  proof (cases "\<exists>t. pb_consumer s = C_store t")
    case True
    then obtain t where c: "pb_consumer s = C_store t" by blast
    then have "m < n" using b(1,8) by simp
    then have "ring_bench_rank n (Suc m) ?s < ring_bench_rank n m s"
      using c same(1) by (simp add: ring_bench_rank_def consumer_step.simps)
    then show ?thesis using that at_store [OF a c] same(2) by blast
  next
    case False
    have "ring_bench_at n m ?s" using consumer_keeps_m [OF a n] False by blast
    moreover have "consumer_rank (m < n) (pb_consumer ?s) < consumer_rank (m < n) (pb_consumer s)"
    proof (cases "pb_consumer s")
      case (C_loop t)
      then have "t = of_nat m" using b(8) by simp
      moreover have "m < 2 ^ 63" "published n (pb_producer s) < 2 ^ 63" using b(1,2) n by simp_all
      ultimately have "t = pb_head s \<longleftrightarrow> m = published n (pb_producer s)" using b(4) of_nat_u64_eq by simp
      then show ?thesis using C_loop w b(1,2) by (auto simp: consumer_step.simps)
    next
      case (C_seen t h)
      then show ?thesis using mn by (auto simp: consumer_step.simps)
    next
      case (C_last t)
      then have "t = of_nat m" "published n (pb_producer s) = n" using b(6,8) by auto
      then have "t = pb_head s \<longleftrightarrow> m = n" using of_nat_u64_eq [of m n] b(1,2,4) n by simp
      then show ?thesis using C_last mn by (auto simp: consumer_step.simps)
    qed (use mn e False in \<open>auto simp: consumer_step.simps Let_def cons_free_def\<close>)
    ultimately show ?thesis using that same by (simp add: ring_bench_rank_def)
  qed
qed

lemma ring_bench_can_advance:
  assumes a: "ring_bench_at n m s" and x: "\<not> pb_exited s" and n: "n < 2 ^ 63" and e: "pb_consumer s \<noteq> C_ended"
  shows "\<exists>s' m'. ring_bench_step n s s' \<and> ring_bench_at n m' s' \<and> \<not> pb_exited s' \<and>
           ring_bench_rank n m' s' < ring_bench_rank n m s"
proof (cases "m < published n (pb_producer s) \<or> m = n \<and> pb_done s")
  case True
  then show ?thesis using consumer_advances [OF a x n e] ring_bench_step.consume [OF x] by metis
next
  case False
  note b = atD [OF a refl]
  have "pb_producer s \<noteq> P_ended" using False b(2,6) by auto
  moreover have "i < m + 16384" if "pb_producer s = P_spin i q h" for i q h using False that by simp
  ultimately obtain p where "p \<notin> set (in_use s)" "\<not> pb_exited (producer_step n p s)"
    "ring_bench_rank n m (producer_step n p s) < ring_bench_rank n m s"
    using producer_advances [OF a x n] by blast
  then show ?thesis using ring_bench_step.produce [OF x] producer_keeps [OF a n] by blast
qed

text \<open>
  C38: The two threads cannot block each other: from every reachable state in which \<open>malloc\<close> was
  never refused, the run can go on to its end, with all \<open>n\<close> chunks given out and freed.
\<close>

theorem ring_bench_can_finish:
  assumes "ring_bench_reach n bytes s" and "n < 2 ^ 63" and "\<not> pb_exited s"
  shows "\<exists>s'. (ring_bench_step n)\<^sup>*\<^sup>* s s' \<and> pb_producer s' = P_ended \<and> pb_consumer s' = C_ended \<and>
           length (pb_issued s') = n \<and> pb_freed s' = pb_issued s'"
proof -
  obtain m where "ring_bench_at n m s" using reach_at [OF assms(1,2)] by blast
  then show ?thesis using assms(3)
  proof (induction "ring_bench_rank n m s" arbitrary: m s rule: less_induct)
    case less
    show ?case
    proof (cases "pb_consumer s = C_ended")
      case True
      note b = atD [OF less.prems(1) refl]
      have "pb_producer s = P_ended" "length (pb_issued s) = n" "length (pb_freed s) = n" using b(6,7,8) True by auto
      then show ?thesis using True b(10) by (intro exI [of _ s]) simp
    next
      case False
      then obtain s' m' where "ring_bench_step n s s'" "ring_bench_at n m' s'" "\<not> pb_exited s'"
        "ring_bench_rank n m' s' < ring_bench_rank n m s"
        using ring_bench_can_advance [OF less.prems assms(2)] by blast
      then show ?thesis using less.hyps [of m' s'] by (meson converse_rtranclp_into_rtranclp)
    qed
  qed
qed

lemma ring_bench_can_finish_witness:
  "\<exists>s. (ring_bench_step 3)\<^sup>*\<^sup>* (ring_bench_start (\<lambda>_. 0)) s \<and> pb_consumer s = C_ended \<and> length (pb_freed s) = 3"
  using ring_bench_can_finish [of 3 "\<lambda>_. 0" "ring_bench_start (\<lambda>_. 0)"] by (auto simp: ring_bench_start_def)

end
