(* ===== verification/Safe_Point.thy ===== *)
theory Safe_Point
  imports Reclaim
begin

text \<open>
  Threads that call compiled routines while pages are retired and unmapped: the interleavings of
  \<open>malloc\<close>'s fast path (\<open>src/src/trace/trampoline.cpp\<close>, lines 162-177: safe point, generation,
  inline cache, table lookup, call), of \<open>deopt::handle\<close> called from inside a routine, and of the
  background thread's installs, drains and scans.  One step is one access to shared memory.  The
  dispatch table is the map that \<open>Dispatch\<close> refines it to; the two counters are natural numbers
  (64 bits do not wrap).  Pages are what is executed; a page is \<open>unmapped\<close> from its reclamation
  until \<open>mmap\<close> hands its address out again.
\<close>

section \<open>The protocol\<close>

datatype pc =
    Outside
  | Registering
  | Marking nat
  | Entered CallSiteID nat
  | Running CallSiteID addr
  | Cleared CallSiteID addr
  | Bumped CallSiteID addr
  | Leaving CallSiteID addr

record thread =
  registered :: bool
  t_epoch :: nat
  ic_id :: CallSiteID
  ic_fn :: addr
  ic_gen :: nat
  t_pc :: pc

datatype bg_pc =
    Idle_bg
  | Installed_bg
  | Scanning nat "nat list"

record proto =
  threads :: "nat \<Rightarrow> thread"
  known :: "nat list"
  p_table :: "CallSiteID \<Rightarrow> addr"
  p_gen :: nat
  p_epoch :: nat
  p_queue :: "(CallSiteID \<times> addr) list"
  p_pending :: "(addr \<times> nat) list"
  p_bg :: bg_pc
  p_used :: "addr list"
  p_unmapped :: "addr list"

definition thread_new :: thread where
  "thread_new = \<lparr>registered = False, t_epoch = 0, ic_id = 0, ic_fn = 0, ic_gen = 0, t_pc = Outside\<rparr>"

definition proto_start :: proto where
  "proto_start =
     \<lparr>threads = (\<lambda>_. thread_new), known = [], p_table = (\<lambda>_. 0), p_gen = 1, p_epoch = 0,
      p_queue = [], p_pending = [], p_bg = Idle_bg, p_used = [], p_unmapped = []\<rparr>"

datatype action =
    Register nat
  | Load_epoch nat
  | Store_epoch nat
  | Enter nat CallSiteID
  | Look_up nat
  | Finish nat
  | Clear_entry nat
  | Bump nat
  | Enqueue nat
  | Leave nat
  | Install_fn CallSiteID addr
  | Install_bump
  | Drain_one
  | Scan_start
  | Scan_thread
  | Reclaim_all

definition upd_thread :: "nat \<Rightarrow> (thread \<Rightarrow> thread) \<Rightarrow> proto \<Rightarrow> proto" where
  "upd_thread t f s = s\<lparr>threads := (threads s)(t := f (threads s t))\<rparr>"

definition start_call :: "CallSiteID \<Rightarrow> addr \<Rightarrow> pc" where
  "start_call cs fn = (if fn \<noteq> 0 then Running cs fn else Outside)"

text \<open>
  With \<open>reuse\<close>, \<open>mmap\<close> may return the address of an unmapped page; without, only new ones.
\<close>

fun pstep :: "bool \<Rightarrow> action \<Rightarrow> proto \<Rightarrow> proto option" where
  "pstep reuse (Register t) s =
     (if t_pc (threads s t) = Outside \<and> \<not> registered (threads s t)
      then Some ((upd_thread t (\<lambda>x. x\<lparr>registered := True, t_pc := Registering\<rparr>) s)\<lparr>known := t # known s\<rparr>)
      else None)"
| "pstep reuse (Load_epoch t) s =
     (if t_pc (threads s t) = Registering \<or> (t_pc (threads s t) = Outside \<and> registered (threads s t))
      then Some (upd_thread t (\<lambda>x. x\<lparr>t_pc := Marking (p_epoch s)\<rparr>) s)
      else None)"
| "pstep reuse (Store_epoch t) s =
     (case t_pc (threads s t) of
        Marking e \<Rightarrow> Some (upd_thread t (\<lambda>x. x\<lparr>t_epoch := e, t_pc := Outside\<rparr>) s)
      | _ \<Rightarrow> None)"
| "pstep reuse (Enter t cs) s =
     (if t_pc (threads s t) = Outside
      then Some (upd_thread t (\<lambda>x. x\<lparr>t_pc := Entered cs (p_gen s)\<rparr>) s)
      else None)"
| "pstep reuse (Look_up t) s =
     (case t_pc (threads s t) of
        Entered cs g \<Rightarrow>
          (if cs = ic_id (threads s t) \<and> g = ic_gen (threads s t)
           then Some (upd_thread t (\<lambda>x. x\<lparr>t_pc := start_call cs (ic_fn x)\<rparr>) s)
           else Some (upd_thread t (\<lambda>x. x\<lparr>ic_id := cs, ic_fn := p_table s cs, ic_gen := g,
                                          t_pc := start_call cs (p_table s cs)\<rparr>) s))
      | _ \<Rightarrow> None)"
| "pstep reuse (Finish t) s =
     (case t_pc (threads s t) of
        Running cs p \<Rightarrow> Some (upd_thread t (\<lambda>x. x\<lparr>t_pc := Outside\<rparr>) s)
      | _ \<Rightarrow> None)"
| "pstep reuse (Clear_entry t) s =
     (case t_pc (threads s t) of
        Running cs p \<Rightarrow>
          Some ((upd_thread t (\<lambda>x. x\<lparr>t_pc := Cleared cs p\<rparr>) s)\<lparr>p_table := (p_table s)(cs := 0)\<rparr>)
      | _ \<Rightarrow> None)"
| "pstep reuse (Bump t) s =
     (case t_pc (threads s t) of
        Cleared cs p \<Rightarrow> Some ((upd_thread t (\<lambda>x. x\<lparr>t_pc := Bumped cs p\<rparr>) s)\<lparr>p_gen := p_gen s + 1\<rparr>)
      | _ \<Rightarrow> None)"
| "pstep reuse (Enqueue t) s =
     (case t_pc (threads s t) of
        Bumped cs p \<Rightarrow>
          Some ((upd_thread t (\<lambda>x. x\<lparr>t_pc := Leaving cs p\<rparr>) s)
                  \<lparr>p_queue := (if length (p_queue s) < 256 then p_queue s @ [(cs, p)] else p_queue s)\<rparr>)
      | _ \<Rightarrow> None)"
| "pstep reuse (Leave t) s =
     (case t_pc (threads s t) of
        Leaving cs p \<Rightarrow> Some (upd_thread t (\<lambda>x. x\<lparr>t_pc := Outside\<rparr>) s)
      | _ \<Rightarrow> None)"
| "pstep reuse (Install_fn cs p) s =
     (if p_bg s = Idle_bg \<and> p \<noteq> 0 \<and> (p \<notin> set (p_used s) \<or> (reuse \<and> p \<in> set (p_unmapped s)))
      then Some (s\<lparr>p_table := (p_table s)(cs := p), p_bg := Installed_bg, p_used := p # p_used s,
                   p_unmapped := filter (\<lambda>q. q \<noteq> p) (p_unmapped s)\<rparr>)
      else None)"
| "pstep reuse Install_bump s =
     (if p_bg s = Installed_bg then Some (s\<lparr>p_gen := p_gen s + 1, p_bg := Idle_bg\<rparr>) else None)"
| "pstep reuse Drain_one s =
     (if p_bg s \<noteq> Idle_bg then None
      else case p_queue s of
             [] \<Rightarrow> None
           | (cs, p) # q \<Rightarrow>
               Some (s\<lparr>p_queue := q, p_epoch := p_epoch s + 1,
                       p_pending := (if length (p_pending s) < 256 then p_pending s @ [(p, p_epoch s)]
                                     else p_pending s)\<rparr>))"
| "pstep reuse Scan_start s =
     (if p_bg s = Idle_bg then Some (s\<lparr>p_bg := Scanning (p_epoch s) (known s)\<rparr>) else None)"
| "pstep reuse Scan_thread s =
     (case p_bg s of
        Scanning m (t # ts) \<Rightarrow>
          Some (s\<lparr>p_bg := Scanning (if t_epoch (threads s t) < m then t_epoch (threads s t) else m) ts\<rparr>)
      | _ \<Rightarrow> None)"
| "pstep reuse Reclaim_all s =
     (case p_bg s of
        Scanning m [] \<Rightarrow>
          Some (s\<lparr>p_pending := filter (\<lambda>(p, e). \<not> e < m) (p_pending s), p_bg := Idle_bg,
                  p_unmapped := map fst (filter (\<lambda>(p, e). e < m) (p_pending s)) @ p_unmapped s\<rparr>)
      | _ \<Rightarrow> None)"

inductive preach :: "bool \<Rightarrow> proto \<Rightarrow> bool" for reuse where
  start: "preach reuse proto_start"
| step: "preach reuse s \<Longrightarrow> pstep reuse a s = Some s' \<Longrightarrow> preach reuse s'"

fun pexec :: "bool \<Rightarrow> action list \<Rightarrow> proto \<Rightarrow> proto option" where
  "pexec reuse [] s = Some s"
| "pexec reuse (a # as) s = (case pstep reuse a s of None \<Rightarrow> None | Some s' \<Rightarrow> pexec reuse as s')"

fun page_of :: "pc \<Rightarrow> addr option" where
  "page_of (Running cs p) = Some p"
| "page_of (Cleared cs p) = Some p"
| "page_of (Bumped cs p) = Some p"
| "page_of (Leaving cs p) = Some p"
| "page_of _ = None"

text \<open>The page the thread is executing.\<close>

definition executes :: "proto \<Rightarrow> nat \<Rightarrow> addr \<Rightarrow> bool" where
  "executes s t p \<longleftrightarrow> page_of (t_pc (threads s t)) = Some p"

lemma preach_exec: "preach reuse s \<Longrightarrow> pexec reuse as s = Some s' \<Longrightarrow> preach reuse s'"
proof (induction as arbitrary: s)
  case Nil
  then show ?case by simp
next
  case (Cons a as)
  then show ?case by (auto split: option.splits intro: preach.step)
qed

section \<open>The invariant\<close>

text \<open>
  Two ghost maps: the site a page was installed for, and the generation from which the table no
  longer leads to it (\<open>retired_at\<close>), fixed when a routine's entry is first reverted.
\<close>

record ghost =
  site_of :: "addr \<Rightarrow> CallSiteID"
  retired_at :: "addr \<Rightarrow> nat option"

text \<open>Executing \<open>p\<close>, or about to look up with a generation from before its retirement.\<close>

definition inside :: "ghost \<Rightarrow> thread \<Rightarrow> addr \<Rightarrow> bool" where
  "inside gh x p \<longleftrightarrow> page_of (t_pc x) = Some p \<or>
     (\<exists>cs g G. t_pc x = Entered cs g \<and> retired_at gh p = Some G \<and> g < G)"

definition table_ok :: "ghost \<Rightarrow> proto \<Rightarrow> bool" where
  "table_ok gh s \<longleftrightarrow>
     (\<forall>k. p_table s k \<noteq> 0 \<longrightarrow> p_table s k \<in> set (p_used s) \<and> site_of gh (p_table s k) = k \<and>
        retired_at gh (p_table s k) = None) \<and>
     (\<forall>p G. retired_at gh p = Some G \<longrightarrow> p \<in> set (p_used s) \<and> G \<le> p_gen s \<and> p \<noteq> 0) \<and>
     (\<forall>cs p. (cs, p) \<in> set (p_queue s) \<longrightarrow> retired_at gh p \<noteq> None) \<and>
     (\<forall>p e. (p, e) \<in> set (p_pending s) \<longrightarrow> retired_at gh p \<noteq> None \<and> e < p_epoch s) \<and>
     (\<forall>p \<in> set (p_unmapped s). retired_at gh p \<noteq> None)"

fun pc_ok :: "ghost \<Rightarrow> proto \<Rightarrow> pc \<Rightarrow> bool" where
  "pc_ok gh s Outside = True"
| "pc_ok gh s Registering = True"
| "pc_ok gh s (Marking e) = (e \<le> p_epoch s)"
| "pc_ok gh s (Entered cs g) = (g \<le> p_gen s)"
| "pc_ok gh s (Running cs p) = (p \<noteq> 0 \<and> p \<in> set (p_used s) \<and> site_of gh p = cs)"
| "pc_ok gh s (Cleared cs p) =
     (p \<noteq> 0 \<and> p \<in> set (p_used s) \<and> (\<forall>k. p_table s k \<noteq> p))"
| "pc_ok gh s (Bumped cs p) = (retired_at gh p \<noteq> None)"
| "pc_ok gh s (Leaving cs p) = (retired_at gh p \<noteq> None)"

definition thread_ok :: "ghost \<Rightarrow> proto \<Rightarrow> thread \<Rightarrow> bool" where
  "thread_ok gh s x \<longleftrightarrow>
     pc_ok gh s (t_pc x) \<and> t_epoch x \<le> p_epoch s \<and> ic_gen x \<le> p_gen s \<and>
     (\<forall>e. t_pc x = Marking e \<longrightarrow> registered x \<and> t_epoch x \<le> e) \<and>
     (t_pc x = Registering \<longrightarrow> registered x \<and> t_epoch x = 0) \<and>
     (\<not> registered x \<longrightarrow> t_epoch x = 0) \<and>
     (ic_fn x \<noteq> 0 \<longrightarrow> ic_fn x \<in> set (p_used s) \<and> site_of gh (ic_fn x) = ic_id x) \<and>
     (\<forall>G. retired_at gh (ic_fn x) = Some G \<longrightarrow> ic_gen x < G) \<and>
     (registered x \<longrightarrow>
        (\<forall>p e. (p, e) \<in> set (p_pending s) \<and> inside gh x p \<longrightarrow> t_epoch x \<le> e) \<and>
        (\<forall>p \<in> set (p_unmapped s). \<not> inside gh x p))"

definition scan_ok :: "proto \<Rightarrow> bool" where
  "scan_ok s \<longleftrightarrow>
     (\<forall>t. registered (threads s t) \<longleftrightarrow> t \<in> set (known s)) \<and>
     (\<forall>m ts. p_bg s = Scanning m ts \<longrightarrow> m \<le> p_epoch s \<and>
       (\<forall>t. registered (threads s t) \<longrightarrow> t \<in> set ts \<or> m \<le> t_epoch (threads s t) \<or>
          t_pc (threads s t) = Registering \<or> (\<exists>e. t_pc (threads s t) = Marking e \<and> m \<le> e)))"

definition pinv :: "ghost \<Rightarrow> proto \<Rightarrow> bool" where
  "pinv gh s \<longleftrightarrow> table_ok gh s \<and> (\<forall>t. thread_ok gh s (threads s t)) \<and> scan_ok s"

lemma pinv_start: "pinv \<lparr>site_of = (\<lambda>_. 0), retired_at = (\<lambda>_. None)\<rparr> proto_start"
  by (simp add: pinv_def table_ok_def thread_ok_def scan_ok_def proto_start_def thread_new_def)

lemma upd_thread_simps [simp]:
  "threads (upd_thread t f s) = (threads s)(t := f (threads s t))"
  "known (upd_thread t f s) = known s" "p_table (upd_thread t f s) = p_table s"
  "p_gen (upd_thread t f s) = p_gen s" "p_epoch (upd_thread t f s) = p_epoch s"
  "p_queue (upd_thread t f s) = p_queue s" "p_pending (upd_thread t f s) = p_pending s"
  "p_bg (upd_thread t f s) = p_bg s" "p_used (upd_thread t f s) = p_used s"
  "p_unmapped (upd_thread t f s) = p_unmapped s"
  by (simp_all add: upd_thread_def)

text \<open>A step of one thread that leaves the shared fields alone.\<close>

lemma pc_ok_cong:
  "p_epoch s' = p_epoch s \<Longrightarrow> p_gen s' = p_gen s \<Longrightarrow> p_used s' = p_used s \<Longrightarrow> p_table s' = p_table s \<Longrightarrow>
     pc_ok gh s' pc = pc_ok gh s pc"
  by (cases pc) auto

lemma thread_ok_cong:
  "p_epoch s' = p_epoch s \<Longrightarrow> p_gen s' = p_gen s \<Longrightarrow> p_used s' = p_used s \<Longrightarrow> p_table s' = p_table s \<Longrightarrow>
     p_pending s' = p_pending s \<Longrightarrow> p_unmapped s' = p_unmapped s \<Longrightarrow> thread_ok gh s' x = thread_ok gh s x"
  by (simp add: thread_ok_def pc_ok_cong [of s' s])

lemma local_step:
  assumes i: "pinv gh s" and s': "s' = upd_thread t f s"
    and x: "thread_ok gh s (f (threads s t))"
    and r: "registered (f (threads s t)) = registered (threads s t)"
    and sc: "\<And>m. registered (threads s t) \<Longrightarrow> m \<le> p_epoch s \<Longrightarrow>
      m \<le> t_epoch (threads s t) \<or> t_pc (threads s t) = Registering \<or> (\<exists>e. t_pc (threads s t) = Marking e \<and> m \<le> e) \<Longrightarrow>
      m \<le> t_epoch (f (threads s t)) \<or> t_pc (f (threads s t)) = Registering \<or>
        (\<exists>e. t_pc (f (threads s t)) = Marking e \<and> m \<le> e)"
  shows "pinv gh s'"
proof -
  have c: "thread_ok gh s' y = thread_ok gh s y" for y
    unfolding s' by (rule thread_ok_cong) simp_all
  have "table_ok gh s'" using i by (simp add: pinv_def table_ok_def s')
  moreover have "\<forall>u. thread_ok gh s' (threads s' u)"
    using i x unfolding c by (simp add: pinv_def s')
  moreover have "scan_ok s'"
    unfolding scan_ok_def
  proof (intro conjI allI impI)
    fix u
    show "registered (threads s' u) \<longleftrightarrow> u \<in> set (known s')" using i r by (simp add: pinv_def scan_ok_def s')
  next
    fix m ts
    assume b: "p_bg s' = Scanning m ts"
    then have m: "m \<le> p_epoch s" and old: "\<forall>u. registered (threads s u) \<longrightarrow> u \<in> set ts \<or> m \<le> t_epoch (threads s u) \<or>
          t_pc (threads s u) = Registering \<or> (\<exists>e. t_pc (threads s u) = Marking e \<and> m \<le> e)"
      using i by (simp_all add: pinv_def scan_ok_def s')
    show "m \<le> p_epoch s'" using m by (simp add: s')
    fix u
    assume "registered (threads s' u)"
    then show "u \<in> set ts \<or> m \<le> t_epoch (threads s' u) \<or>
          t_pc (threads s' u) = Registering \<or> (\<exists>e. t_pc (threads s' u) = Marking e \<and> m \<le> e)"
      using old sc [OF _ m] r by (cases "u = t") (auto simp: s')
  qed
  ultimately show ?thesis by (simp add: pinv_def)
qed

lemma inside_simps [simp]:
  "t_pc x = Outside \<Longrightarrow> \<not> inside gh x p" "t_pc x = Registering \<Longrightarrow> \<not> inside gh x p"
  "t_pc x = Marking e \<Longrightarrow> \<not> inside gh x p"
  by (simp_all add: inside_def)

lemma step_Load_epoch:
  assumes "pinv gh s" and "pstep False (Load_epoch t) s = Some s'"
  shows "pinv gh s'"
proof -
  have s': "s' = upd_thread t (\<lambda>x. x\<lparr>t_pc := Marking (p_epoch s)\<rparr>) s"
    and pc: "t_pc (threads s t) = Registering \<or> t_pc (threads s t) = Outside \<and> registered (threads s t)"
    using assms(2) by (auto split: if_splits)
  have ok: "thread_ok gh s (threads s t)" using assms(1) by (simp add: pinv_def)
  have "registered (threads s t)" using ok pc by (auto simp: thread_ok_def)
  then show ?thesis using ok by (intro local_step [OF assms(1) s']) (auto simp: thread_ok_def)
qed

lemma step_Store_epoch:
  assumes "pinv gh s" and "pstep False (Store_epoch t) s = Some s'"
  shows "pinv gh s'"
proof -
  from assms(2) obtain e where pc: "t_pc (threads s t) = Marking e"
    and s': "s' = upd_thread t (\<lambda>x. x\<lparr>t_epoch := e, t_pc := Outside\<rparr>) s"
    by (auto split: pc.splits)
  have "thread_ok gh s (threads s t)" using assms(1) by (simp add: pinv_def)
  then show ?thesis by (intro local_step [OF assms(1) s']) (auto simp: thread_ok_def pc)
qed

lemma step_Enter:
  assumes "pinv gh s" and "pstep False (Enter t cs) s = Some s'"
  shows "pinv gh s'"
proof -
  have pc: "t_pc (threads s t) = Outside" and s': "s' = upd_thread t (\<lambda>x. x\<lparr>t_pc := Entered cs (p_gen s)\<rparr>) s"
    using assms(2) by (auto split: if_splits)
  have ok: "thread_ok gh s (threads s t)" using assms(1) by (simp add: pinv_def)
  have "\<not> inside gh ((threads s t)\<lparr>t_pc := Entered cs (p_gen s)\<rparr>) p" for p
    using assms(1) by (auto simp: inside_def pinv_def table_ok_def not_less)
  then show ?thesis using ok pc by (intro local_step [OF assms(1) s']) (auto simp: thread_ok_def)
qed

lemma step_to_Outside:
  assumes "pinv gh s" and "s' = upd_thread t (\<lambda>x. x\<lparr>t_pc := Outside\<rparr>) s" and "page_of (t_pc (threads s t)) \<noteq> None"
  shows "pinv gh s'"
proof -
  have "thread_ok gh s (threads s t)" using assms(1) by (simp add: pinv_def)
  then show ?thesis using assms(3) by (intro local_step [OF assms(1,2)]) (auto simp: thread_ok_def)
qed

text \<open>A thread that comes no nearer to a retired page keeps the protocol's conditions.\<close>

lemma thread_ok_move:
  assumes ok: "thread_ok gh s x" and tab: "table_ok gh s"
    and same: "registered x' = registered x" "t_epoch x' = t_epoch x"
    and pc: "pc_ok gh s (t_pc x')" "t_pc x' \<noteq> Registering" "\<And>e. t_pc x' \<noteq> Marking e"
    and ic: "ic_gen x' \<le> p_gen s" "ic_fn x' \<noteq> 0 \<Longrightarrow> ic_fn x' \<in> set (p_used s) \<and> site_of gh (ic_fn x') = ic_id x'"
      "\<And>G. retired_at gh (ic_fn x') = Some G \<Longrightarrow> ic_gen x' < G"
    and old: "\<And>p. retired_at gh p \<noteq> None \<Longrightarrow> inside gh x' p \<Longrightarrow> inside gh x p"
  shows "thread_ok gh s x'"
proof -
  have p: "t_epoch x \<le> e" if "registered x" "(p, e) \<in> set (p_pending s)" "inside gh x' p" for p e
  proof -
    have "retired_at gh p \<noteq> None" using tab that(2) unfolding table_ok_def by blast
    then show ?thesis using ok old that unfolding thread_ok_def by blast
  qed
  have u: "\<not> inside gh x' p" if "registered x" "p \<in> set (p_unmapped s)" for p
  proof -
    have "retired_at gh p \<noteq> None" using tab that(2) unfolding table_ok_def by blast
    then show ?thesis using ok old that unfolding thread_ok_def by blast
  qed
  show ?thesis using ok same pc ic p u unfolding thread_ok_def by auto
qed

lemma step_Look_up:
  assumes "pinv gh s" and "pstep False (Look_up t) s = Some s'"
  shows "pinv gh s'"
proof -
  from assms(2) obtain cs g where pc: "t_pc (threads s t) = Entered cs g" by (auto split: pc.splits)
  have ok: "thread_ok gh s (threads s t)" and tab: "table_ok gh s" using assms(1) by (simp_all add: pinv_def)
  show ?thesis
  proof (cases "cs = ic_id (threads s t) \<and> g = ic_gen (threads s t)")
    case True
    then have s': "s' = upd_thread t (\<lambda>x. x\<lparr>t_pc := start_call cs (ic_fn x)\<rparr>) s"
      using assms(2) pc by simp
    have "thread_ok gh s ((threads s t)\<lparr>t_pc := start_call cs (ic_fn (threads s t))\<rparr>)"
      using ok True pc
      by (intro thread_ok_move [OF ok tab]) (auto simp: thread_ok_def inside_def start_call_def split: if_splits)
    then show ?thesis using pc by (intro local_step [OF assms(1) s']) auto
  next
    case False
    then have s': "s' = upd_thread t (\<lambda>x. x\<lparr>ic_id := cs, ic_fn := p_table s cs, ic_gen := g,
        t_pc := start_call cs (p_table s cs)\<rparr>) s"
      using assms(2) pc by auto
    have "retired_at gh 0 = None" using tab by (auto simp: table_ok_def) (metis option.exhaust)
    then have fresh: "retired_at gh (p_table s cs) = None"
      "p_table s cs \<noteq> 0 \<Longrightarrow> p_table s cs \<in> set (p_used s) \<and> site_of gh (p_table s cs) = cs"
      using tab unfolding table_ok_def by (metis, blast)
    have "thread_ok gh s ((threads s t)\<lparr>ic_id := cs, ic_fn := p_table s cs, ic_gen := g,
        t_pc := start_call cs (p_table s cs)\<rparr>)"
      using ok pc fresh
      by (intro thread_ok_move [OF ok tab]) (auto simp: thread_ok_def inside_def start_call_def split: if_splits)
    then show ?thesis using pc by (intro local_step [OF assms(1) s']) auto
  qed
qed

lemma scan_ok_other:
  assumes "scan_ok s" and "p_bg s' = p_bg s" and "known s' = known s" and "p_epoch s \<le> p_epoch s'"
    and "\<And>u. registered (threads s' u) = registered (threads s u)"
    and "\<And>u. t_epoch (threads s' u) = t_epoch (threads s u)"
    and "\<And>u. t_pc (threads s u) = Registering \<Longrightarrow> t_pc (threads s' u) = Registering"
    and "\<And>u e. t_pc (threads s u) = Marking e \<Longrightarrow> t_pc (threads s' u) = Marking e"
  shows "scan_ok s'"
  unfolding scan_ok_def
proof (intro conjI allI impI)
  fix t
  show "registered (threads s' t) \<longleftrightarrow> t \<in> set (known s')" using assms by (simp add: scan_ok_def)
next
  fix m ts
  assume b: "p_bg s' = Scanning m ts"
  then have m: "m \<le> p_epoch s" using assms(1,2) by (simp add: scan_ok_def)
  then show "m \<le> p_epoch s'" using assms(4) by simp
  fix t
  assume r: "registered (threads s' t)"
  then have "t \<in> set ts \<or> m \<le> t_epoch (threads s t) \<or>
      t_pc (threads s t) = Registering \<or> (\<exists>e. t_pc (threads s t) = Marking e \<and> m \<le> e)"
    using assms(1,2,5) b by (simp add: scan_ok_def)
  then show "t \<in> set ts \<or> m \<le> t_epoch (threads s' t) \<or>
      t_pc (threads s' t) = Registering \<or> (\<exists>e. t_pc (threads s' t) = Marking e \<and> m \<le> e)"
    using assms(6-8) by fastforce
qed

lemma step_Register:
  assumes i: "pinv gh s" and "pstep False (Register t) s = Some s'"
  shows "pinv gh s'"
proof -
  have pc: "t_pc (threads s t) = Outside" "\<not> registered (threads s t)"
    and s': "s' = (upd_thread t (\<lambda>x. x\<lparr>registered := True, t_pc := Registering\<rparr>) s)\<lparr>known := t # known s\<rparr>"
    using assms(2) by (auto split: if_splits)
  have c: "thread_ok gh s' y = thread_ok gh s y" for y
    unfolding s' by (rule thread_ok_cong) simp_all
  have tab: "table_ok gh s'" using i by (simp add: pinv_def table_ok_def s')
  have ok: "thread_ok gh s (threads s t)" using i by (simp add: pinv_def)
  have "thread_ok gh s ((threads s t)\<lparr>registered := True, t_pc := Registering\<rparr>)"
    using ok pc by (simp add: thread_ok_def)
  then have th: "\<forall>u. thread_ok gh s' (threads s' u)"
    using i unfolding c by (simp add: pinv_def s')
  have "scan_ok s'" using i pc by (auto simp: pinv_def scan_ok_def s')
  with tab th show ?thesis by (simp add: pinv_def)
qed

text \<open>What the other threads see of a step that leaves queues, pages and epochs alone.\<close>

lemma step_Clear_entry:
  assumes i: "pinv gh s" and "pstep False (Clear_entry t) s = Some s'"
  shows "pinv gh s'"
proof -
  from assms(2) obtain cs p where pc: "t_pc (threads s t) = Running cs p"
    and s': "s' = (upd_thread t (\<lambda>x. x\<lparr>t_pc := Cleared cs p\<rparr>) s)\<lparr>p_table := (p_table s)(cs := 0)\<rparr>"
    by (auto split: pc.splits)
  have ok: "thread_ok gh s (threads s t)" and tab: "table_ok gh s" and sc: "scan_ok s"
    using i by (simp_all add: pinv_def)
  have p: "p \<noteq> 0" "p \<in> set (p_used s)" "site_of gh p = cs" using ok pc by (simp_all add: thread_ok_def)
  have tab': "table_ok gh s'" using tab by (auto simp: table_ok_def s')
  have c: "pc_ok gh s' y" if "pc_ok gh s y" for y
    using that by (cases y) (auto simp: s')
  have ot: "thread_ok gh s' x" if "thread_ok gh s x" for x
    using that c [of "t_pc x"] by (auto simp: thread_ok_def s')
  have "\<forall>k. p_table s' k \<noteq> p" using tab p by (auto simp: table_ok_def s')
  then have "thread_ok gh s' ((threads s t)\<lparr>t_pc := Cleared cs p\<rparr>)"
    using ot [OF ok] p pc by (auto simp: thread_ok_def inside_def s')
  then have "\<forall>u. thread_ok gh s' (threads s' u)" using i ot by (simp add: pinv_def s')
  moreover have "scan_ok s'"
    by (rule scan_ok_other [OF sc]) (auto simp: s' pc)
  ultimately show ?thesis using tab' by (simp add: pinv_def)
qed

text \<open>The first revert of a page's site retires the page, from the next generation on.\<close>

definition retire :: "addr \<Rightarrow> nat \<Rightarrow> ghost \<Rightarrow> ghost" where
  "retire p G gh = gh\<lparr>retired_at := (retired_at gh)(p := Some (case retired_at gh p of None \<Rightarrow> G | Some G' \<Rightarrow> G'))\<rparr>"

lemma retire_simps [simp]:
  "site_of (retire p G gh) = site_of gh"
  "retired_at (retire p G gh) q =
    (if q = p then Some (case retired_at gh p of None \<Rightarrow> G | Some G' \<Rightarrow> G') else retired_at gh q)"
  by (simp_all add: retire_def)

lemma inside_retire: "retired_at gh q \<noteq> None \<Longrightarrow> inside (retire p G gh) x q = inside gh x q"
  by (auto simp: inside_def)

lemma step_Bump:
  assumes i: "pinv gh s" and "pstep False (Bump t) s = Some s'"
  shows "\<exists>gh'. pinv gh' s'"
proof -
  from assms(2) obtain cs p where pc: "t_pc (threads s t) = Cleared cs p"
    and s': "s' = (upd_thread t (\<lambda>x. x\<lparr>t_pc := Bumped cs p\<rparr>) s)\<lparr>p_gen := p_gen s + 1\<rparr>"
    by (auto split: pc.splits)
  have ok: "thread_ok gh s (threads s t)" and tab: "table_ok gh s" and sc: "scan_ok s"
    using i by (simp_all add: pinv_def)
  let ?gh = "retire p (p_gen s + 1) gh"
  have p: "p \<noteq> 0" "p \<in> set (p_used s)" "\<forall>k. p_table s k \<noteq> p" using ok pc by (simp_all add: thread_ok_def)
  have tab': "table_ok ?gh s'" using tab p by (fastforce simp: table_ok_def s' split: option.splits)
  have gone: "retired_at gh q \<noteq> None" if "(q, e) \<in> set (p_pending s) \<or> q \<in> set (p_unmapped s)" for q e
    using tab that unfolding table_ok_def by blast
  have c: "pc_ok ?gh s' y" if "pc_ok gh s y" for y
    using that by (cases y) (auto simp: s')
  have ot: "thread_ok ?gh s' x" if x: "thread_ok gh s x" for x
  proof -
    have "t_epoch x \<le> e" if "registered x" "(q, e) \<in> set (p_pending s)" "inside ?gh x q" for q e
      using x that inside_retire [OF gone [of q e]] unfolding thread_ok_def by blast
    moreover have "\<not> inside ?gh x q" if "registered x" "q \<in> set (p_unmapped s)" for q
      using x that inside_retire [OF gone [of q]] unfolding thread_ok_def by blast
    moreover have "ic_gen x < G" if "retired_at ?gh (ic_fn x) = Some G" for G
      using x that by (auto simp: thread_ok_def split: if_splits option.splits)
    ultimately show ?thesis using x c [of "t_pc x"] by (auto simp: thread_ok_def s')
  qed
  have "thread_ok ?gh s' ((threads s t)\<lparr>t_pc := Bumped cs p\<rparr>)"
    using ot [OF ok] pc by (auto simp: thread_ok_def inside_def s')
  then have "\<forall>u. thread_ok ?gh s' (threads s' u)" using i ot by (simp add: pinv_def s')
  moreover have "scan_ok s'"
    by (rule scan_ok_other [OF sc]) (auto simp: s' pc)
  ultimately have "pinv ?gh s'" using tab' by (simp add: pinv_def)
  then show ?thesis ..
qed

lemma step_Enqueue:
  assumes i: "pinv gh s" and "pstep False (Enqueue t) s = Some s'"
  shows "pinv gh s'"
proof -
  from assms(2) obtain cs p where pc: "t_pc (threads s t) = Bumped cs p"
    and s': "s' = (upd_thread t (\<lambda>x. x\<lparr>t_pc := Leaving cs p\<rparr>) s)
                  \<lparr>p_queue := (if length (p_queue s) < 256 then p_queue s @ [(cs, p)] else p_queue s)\<rparr>"
    by (auto split: pc.splits)
  have ok: "thread_ok gh s (threads s t)" and tab: "table_ok gh s" and sc: "scan_ok s"
    using i by (simp_all add: pinv_def)
  have p: "retired_at gh p \<noteq> None" using ok pc by (simp add: thread_ok_def)
  have "(c, q) \<in> set (p_queue s') \<Longrightarrow> retired_at gh q \<noteq> None" for c q
    using tab p unfolding table_ok_def by (auto simp: s' split: if_splits)
  then have tab': "table_ok gh s'" using tab unfolding table_ok_def by (simp add: s')
  have c: "thread_ok gh s' x = thread_ok gh s x" for x
    by (rule thread_ok_cong) (simp_all add: s')
  have "thread_ok gh s ((threads s t)\<lparr>t_pc := Leaving cs p\<rparr>)"
    using ok pc by (auto simp: thread_ok_def inside_def)
  then have "\<forall>u. thread_ok gh s' (threads s' u)" using i unfolding c by (simp add: pinv_def s')
  moreover have "scan_ok s'"
    by (rule scan_ok_other [OF sc]) (auto simp: s' pc)
  ultimately show ?thesis using tab' by (simp add: pinv_def)
qed

lemma step_Install_fn:
  assumes i: "pinv gh s" and "pstep False (Install_fn cs p) s = Some s'"
  shows "\<exists>gh'. pinv gh' s'"
proof -
  have p: "p \<noteq> 0" "p \<notin> set (p_used s)" and bg: "p_bg s = Idle_bg"
    and s': "s' = s\<lparr>p_table := (p_table s)(cs := p), p_bg := Installed_bg, p_used := p # p_used s,
                   p_unmapped := filter (\<lambda>q. q \<noteq> p) (p_unmapped s)\<rparr>"
    using assms(2) by (auto split: if_splits)
  have tab: "table_ok gh s" and sc: "scan_ok s" using i by (simp_all add: pinv_def)
  let ?gh = "gh\<lparr>site_of := (site_of gh)(p := cs)\<rparr>"
  have n: "retired_at gh p = None" using tab p unfolding table_ok_def by (metis option.exhaust)
  have tab': "table_ok ?gh s'" using tab p n by (fastforce simp: table_ok_def s')
  have c: "pc_ok ?gh s' y" if "pc_ok gh s y" for y
    using that p by (cases y) (auto simp: s')
  have ot: "thread_ok ?gh s' x" if "thread_ok gh s x" for x
    using that p c [of "t_pc x"] by (auto simp: thread_ok_def inside_def s')
  have "\<forall>u. thread_ok ?gh s' (threads s' u)" using i ot by (simp add: pinv_def s')
  moreover have "scan_ok s'" using sc by (simp add: scan_ok_def s')
  ultimately have "pinv ?gh s'" using tab' by (simp add: pinv_def)
  then show ?thesis ..
qed

lemma step_Install_bump:
  assumes i: "pinv gh s" and "pstep False Install_bump s = Some s'"
  shows "pinv gh s'"
proof -
  have s': "s' = s\<lparr>p_gen := p_gen s + 1, p_bg := Idle_bg\<rparr>"
    using assms(2) by (auto split: if_splits)
  have tab': "table_ok gh s'" using i unfolding pinv_def table_ok_def by (auto simp: s' intro: le_SucI)
  have c: "pc_ok gh s' y" if "pc_ok gh s y" for y
    using that by (cases y) (auto simp: s')
  have ot: "thread_ok gh s' x" if "thread_ok gh s x" for x
    using that c [of "t_pc x"] by (auto simp: thread_ok_def s')
  have "\<forall>u. thread_ok gh s' (threads s' u)" using i ot by (simp add: pinv_def s')
  moreover have "scan_ok s'" using i by (simp add: pinv_def scan_ok_def s')
  ultimately show ?thesis using tab' by (simp add: pinv_def)
qed

lemma step_Drain_one:
  assumes i: "pinv gh s" and "pstep False Drain_one s = Some s'"
  shows "pinv gh s'"
proof -
  from assms(2) obtain cs p q where qu: "p_queue s = (cs, p) # q" and bg: "p_bg s = Idle_bg"
    and s': "s' = s\<lparr>p_queue := q, p_epoch := p_epoch s + 1,
                    p_pending := (if length (p_pending s) < 256 then p_pending s @ [(p, p_epoch s)]
                                  else p_pending s)\<rparr>"
    by (auto split: if_splits list.splits prod.splits)
  have tab: "table_ok gh s" and sc: "scan_ok s" using i by (simp_all add: pinv_def)
  have r: "retired_at gh p \<noteq> None" using tab qu unfolding table_ok_def by (metis list.set_intros(1))
  have pe: "(a, e) \<in> set (p_pending s') \<Longrightarrow> (a, e) \<in> set (p_pending s) \<or> a = p \<and> e = p_epoch s" for a e
    by (auto simp: s' split: if_splits)
  have "\<forall>a e. (a, e) \<in> set (p_pending s') \<longrightarrow> retired_at gh a \<noteq> None \<and> e < p_epoch s'"
    using tab r pe unfolding table_ok_def by (fastforce simp: s')
  then have tab': "table_ok gh s'" using tab qu unfolding table_ok_def by (simp add: s')
  have c: "pc_ok gh s' y" if "pc_ok gh s y" for y
    using that by (cases y) (auto simp: s')
  have ot: "thread_ok gh s' x" if x: "thread_ok gh s x" for x
  proof -
    have "t_epoch x \<le> e" if "registered x" "(a, e) \<in> set (p_pending s')" "inside gh x a" for a e
      using x that pe [OF that(2)] unfolding thread_ok_def by blast
    then show ?thesis using x c [of "t_pc x"] unfolding thread_ok_def by (auto simp: s')
  qed
  have "\<forall>u. thread_ok gh s' (threads s' u)" using i ot by (simp add: pinv_def s')
  moreover have "scan_ok s'" using sc bg by (simp add: scan_ok_def s')
  ultimately show ?thesis using tab' by (simp add: pinv_def)
qed

text \<open>The scan and the reclamation leave all but the background's own fields alone.\<close>

lemma step_Scan:
  assumes i: "pinv gh s" and a: "a = Scan_start \<or> a = Scan_thread" and "pstep False a s = Some s'"
  shows "pinv gh s'"
proof -
  obtain bg where s': "s' = s\<lparr>p_bg := bg\<rparr>"
    using a assms(3) by (auto split: if_splits bg_pc.splits list.splits)
  have c: "thread_ok gh s' y = thread_ok gh s y" for y by (rule thread_ok_cong) (simp_all add: s')
  have tab: "table_ok gh s'" using i by (simp add: pinv_def table_ok_def s')
  have th: "\<forall>u. thread_ok gh s' (threads s' u)" using i unfolding c by (simp add: pinv_def s')
  have sc: "scan_ok s" using i by (simp add: pinv_def)
  have "scan_ok s'"
    using a
  proof
    assume "a = Scan_start"
    then show ?thesis using sc assms(3) by (auto simp: scan_ok_def split: if_splits)
  next
    assume "a = Scan_thread"
    then obtain m u ts where b: "p_bg s = Scanning m (u # ts)"
      and s'': "s' = s\<lparr>p_bg := Scanning (if t_epoch (threads s u) < m then t_epoch (threads s u) else m) ts\<rparr>"
      using assms(3) by (auto split: bg_pc.splits list.splits)
    from sc b have "m \<le> p_epoch s" and
      "registered (threads s t) \<Longrightarrow> t = u \<or> t \<in> set ts \<or> m \<le> t_epoch (threads s t) \<or>
        t_pc (threads s t) = Registering \<or> (\<exists>e. t_pc (threads s t) = Marking e \<and> m \<le> e)" for t
      by (auto simp: scan_ok_def)
    then show ?thesis using sc by (fastforce simp: scan_ok_def s'')
  qed
  with tab th show ?thesis by (simp add: pinv_def)
qed

lemma step_Reclaim_all:
  assumes i: "pinv gh s" and "pstep False Reclaim_all s = Some s'"
  shows "pinv gh s'"
proof -
  from assms(2) obtain m where bg: "p_bg s = Scanning m []"
    and s': "s' = s\<lparr>p_pending := filter (\<lambda>(p, e). \<not> e < m) (p_pending s), p_bg := Idle_bg,
                    p_unmapped := map fst (filter (\<lambda>(p, e). e < m) (p_pending s)) @ p_unmapped s\<rparr>"
    by (auto split: bg_pc.splits list.splits)
  have tab: "table_ok gh s" and sc: "scan_ok s" using i by (simp_all add: pinv_def)
  have un: "p \<in> set (p_unmapped s') \<Longrightarrow> p \<in> set (p_unmapped s) \<or> (\<exists>e. (p, e) \<in> set (p_pending s) \<and> e < m)" for p
    by (auto simp: s')
  have "\<forall>p \<in> set (p_unmapped s'). retired_at gh p \<noteq> None"
    using tab un unfolding table_ok_def by blast
  then have tab': "table_ok gh s'" using tab unfolding table_ok_def by (auto simp: s')
  have c: "pc_ok gh s' y = pc_ok gh s y" for y by (cases y) (auto simp: s')
  have "thread_ok gh s' (threads s' u)" for u
  proof -
    have ok: "thread_ok gh s (threads s u)" using i by (simp add: pinv_def)
    have "\<not> inside gh (threads s u) p" if r: "registered (threads s u)" and p: "p \<in> set (p_unmapped s')" for p
      using un [OF p]
    proof
      assume "p \<in> set (p_unmapped s)"
      then show ?thesis using ok r by (simp add: thread_ok_def)
    next
      assume "\<exists>e. (p, e) \<in> set (p_pending s) \<and> e < m"
      then obtain e where e: "(p, e) \<in> set (p_pending s)" "e < m" by blast
      have "m \<le> t_epoch (threads s u) \<or> t_pc (threads s u) = Registering \<or> (\<exists>e. t_pc (threads s u) = Marking e)"
        using sc bg r by (auto simp: scan_ok_def)
      moreover have "inside gh (threads s u) p \<Longrightarrow> t_epoch (threads s u) \<le> e"
        using ok r e unfolding thread_ok_def by blast
      ultimately show ?thesis using e(2) by auto
    qed
    then show ?thesis using ok c unfolding thread_ok_def by (auto simp: s')
  qed
  moreover have "scan_ok s'" using sc by (simp add: scan_ok_def s')
  ultimately show ?thesis using tab' by (simp add: pinv_def)
qed

lemma step_to_Outside':
  assumes "pinv gh s" and "a = Finish t \<or> a = Leave t" and "pstep False a s = Some s'"
  shows "pinv gh s'"
  using assms(2,3) by (intro step_to_Outside [OF assms(1), of s' t]) (auto split: pc.splits)

lemma pinv_step:
  assumes "pinv gh s" and "pstep False a s = Some s'"
  shows "\<exists>gh'. pinv gh' s'"
proof (cases a)
  case (Register t) then show ?thesis using assms step_Register by blast
next
  case (Load_epoch t) then show ?thesis using assms step_Load_epoch by blast
next
  case (Store_epoch t) then show ?thesis using assms step_Store_epoch by blast
next
  case (Enter t cs) then show ?thesis using assms step_Enter by blast
next
  case (Look_up t) then show ?thesis using assms step_Look_up by blast
next
  case (Finish t) then show ?thesis using assms step_to_Outside' by blast
next
  case (Clear_entry t) then show ?thesis using assms step_Clear_entry by blast
next
  case (Bump t) then show ?thesis using assms step_Bump by blast
next
  case (Enqueue t) then show ?thesis using assms step_Enqueue by blast
next
  case (Leave t) then show ?thesis using assms step_to_Outside' by blast
next
  case (Install_fn cs p) then show ?thesis using assms step_Install_fn by blast
next
  case Install_bump then show ?thesis using assms step_Install_bump by blast
next
  case Drain_one then show ?thesis using assms step_Drain_one by blast
next
  case Scan_start then show ?thesis using assms step_Scan by blast
next
  case Scan_thread then show ?thesis using assms step_Scan by blast
next
  case Reclaim_all then show ?thesis using assms step_Reclaim_all by blast
qed

lemma preach_pinv: "preach False s \<Longrightarrow> \<exists>gh. pinv gh s"
proof (induction rule: preach.induct)
  case start
  show ?case using pinv_start by blast
next
  case (step s a s')
  then show ?case using pinv_step by blast
qed

section \<open>Properties\<close>

text \<open>
  C4: As long as \<open>mmap\<close> hands out fresh addresses, no page is unmapped while a thread that has
  registered with the reclaimer executes it: in every interleaving of safe points, inline-cache
  hits and misses, table lookups, deoptimisations, installs, drains and epoch scans.
\<close>

theorem registered_never_in_unmapped_page:
  assumes "preach False s" and "registered (threads s t)" and "executes s t p"
  shows "p \<notin> set (p_unmapped s)"
  using preach_pinv [OF assms(1)] assms(2,3)
  by (auto simp: pinv_def thread_ok_def inside_def executes_def)

text \<open>A thread that passes a safe point and runs a routine while an older page is unmapped.\<close>

definition mark :: "nat \<Rightarrow> action list" where
  "mark t = [Load_epoch t, Store_epoch t]"

definition deopt_by :: "nat \<Rightarrow> action list" where
  "deopt_by t = [Clear_entry t, Bump t, Enqueue t, Leave t]"

definition enter :: "nat \<Rightarrow> CallSiteID \<Rightarrow> action list" where
  "enter t cs = [Enter t cs, Look_up t]"

definition reclaimed_run :: "action list" where
  "reclaimed_run =
     Register 1 # mark 1 @ [Install_fn 5 4096, Install_bump] @ enter 1 5 @ deopt_by 1 @
     [Drain_one] @ mark 1 @ [Scan_start, Scan_thread, Reclaim_all, Install_fn 5 8192, Install_bump] @ enter 1 5"

lemma reclaimed_run_state:
  "case pexec False reclaimed_run proto_start of
     None \<Rightarrow> False
   | Some s \<Rightarrow> registered (threads s 1) \<and> executes s 1 8192 \<and> p_unmapped s = [4096]"
  by code_simp

lemma registered_never_in_unmapped_page_witness:
  "\<exists>s. preach False s \<and> registered (threads s 1) \<and> executes s 1 8192 \<and> 4096 \<in> set (p_unmapped s) \<and>
     8192 \<notin> set (p_unmapped s)"
proof -
  obtain s where s: "pexec False reclaimed_run proto_start = Some s" "registered (threads s 1)"
    "executes s 1 8192" "p_unmapped s = [4096]"
    using reclaimed_run_state by (auto split: option.splits)
  have "preach False s" using s(1) by (rule preach_exec [OF preach.start])
  then show ?thesis using registered_never_in_unmapped_page [of s 1 8192] s by auto
qed

definition double_deopt_run :: "action list" where
  "double_deopt_run =
     [Register 1, Register 2] @ mark 1 @ mark 2 @ [Install_fn 5 4096, Install_bump] @ enter 1 5 @ enter 2 5 @
     deopt_by 1 @ [Drain_one, Scan_start, Scan_thread, Scan_thread, Reclaim_all] @
     deopt_by 2 @ mark 1 @ mark 2 @ [Drain_one, Scan_start, Scan_thread, Scan_thread, Reclaim_all] @
     [Install_fn 6 4096, Install_bump] @ mark 1 @ mark 2 @ enter 1 6 @
     [Scan_start, Scan_thread, Scan_thread, Reclaim_all]"

lemma double_deopt_run_state:
  "case pexec True double_deopt_run proto_start of
     None \<Rightarrow> False
   | Some s \<Rightarrow> registered (threads s 1) \<and> executes s 1 4096 \<and> p_unmapped s = [4096]"
  by code_simp

text \<open>
  C21: With the addresses of unmapped pages reused, the reclaimer can unmap a page that a registered
  thread is executing: two threads deoptimise the same routine, so its page is queued twice; the
  first request unmaps it, a new routine is installed at the same address, and the second
  request unmaps that one.
\<close>

theorem double_deopt_unmaps_live_page:
  "\<exists>s. preach True s \<and> registered (threads s 1) \<and> executes s 1 4096 \<and> 4096 \<in> set (p_unmapped s)"
proof -
  obtain s where s: "pexec True double_deopt_run proto_start = Some s" "registered (threads s 1)"
    "executes s 1 4096" "p_unmapped s = [4096]"
    using double_deopt_run_state by (auto split: option.splits)
  have "preach True s" using s(1) by (rule preach_exec [OF preach.start])
  then show ?thesis using s by auto
qed

text \<open>
  A thread that has made fewer than 32 calls of \<open>malloc\<close> has no epoch, and nothing delays the
  reclamation of the page it executes.
\<close>

definition unregistered_run :: "action list" where
  "unregistered_run =
     [Install_fn 5 4096, Install_bump] @ enter 1 5 @ [Register 2] @ mark 2 @ enter 2 5 @ deopt_by 2 @
     [Drain_one] @ mark 2 @ [Scan_start, Scan_thread, Reclaim_all]"

lemma unregistered_run_state:
  "case pexec False unregistered_run proto_start of
     None \<Rightarrow> False
   | Some s \<Rightarrow> executes s 1 4096 \<and> p_unmapped s = [4096]"
  by code_simp

lemma unregistered_thread_in_unmapped_page:
  "\<exists>s. preach False s \<and> executes s 1 4096 \<and> 4096 \<in> set (p_unmapped s)"
proof -
  obtain s where s: "pexec False unregistered_run proto_start = Some s"
    "executes s 1 4096" "p_unmapped s = [4096]"
    using unregistered_run_state by (auto split: option.splits)
  have "preach False s" using s(1) by (rule preach_exec [OF preach.start])
  then show ?thesis using s by auto
qed

end
