(* ===== verification/Slot_Code.thy ===== *)
theory Slot_Code
  imports Chunk_Safety
begin

text \<open>
  The emitted routines of the two free-list strategies, run on a thread whose memory shows a slot,
  do what \<open>freelist_alloc\<close> and \<open>multi_alloc\<close> do to it.
\<close>

section \<open>The free-list routine\<close>

text \<open>
  The thread's memory shows the slot: its word at the thread-local offset holds the head, and the
  chunks in \<open>cs\<close> hold their links.
\<close>

definition shows_slot :: "addr set \<Rightarrow> u32 \<Rightarrow> u32 \<Rightarrow> 'e x86_scheme \<Rightarrow> jit_state \<Rightarrow> bool" where
  "shows_slot cs off index s st \<longleftrightarrow>
     rd64 (mem s) (fs_at off s) = fs_head (tl_freelists st index) \<and>
     (\<forall>c \<in> cs. rd64 (mem s) c = words (sg st) c)"

text \<open>
  C30: On a thread whose memory shows the slot, the emitted free-list routine called with the
  compiled size does what \<open>freelist_alloc\<close> does: it returns the head of a non-empty list to its
  caller and leaves the memory showing the popped slot; on an empty list it calls
  \<open>freelist_refill\<close> with the slot and the size and returns its result.
\<close>

theorem freelist_code_simulates:
  assumes code: "emit_freelist_alloc buf n off index sz site handler refill fallback = Some code"
    and "sysv_callee ext" and "entry_ok buf (fs_at off s) s" and "sz < 0x80000000" and "rdi s = ucast sz"
    and "shows_slot cs off index s st" and "fs_head (tl_freelists st index) \<in> insert 0 cs"
    and "\<forall>c \<in> cs. 8 \<le> c - fs_at off s \<and> 8 \<le> fs_at off s - c"
    and "freelist_alloc env index sz st = Some (c, st')"
  shows "\<exists>r. run 20 ext buf code s = Some r \<and>
    (if fs_head (tl_freelists st index) \<noteq> 0
     then \<exists>s'. r = Returned s' \<and> rax s' = c \<and> returned_to_caller s s' \<and> shows_slot cs off index s' st'
     else refills ext refill index sz None s r \<and> freelist_refill env index sz st = Some (c, st'))"
proof -
  let ?slot = "tl_freelists st index"
  have code': "code = assemble (freelist_code buf off index sz site handler refill fallback)"
    using code by (auto simp: emit_freelist_alloc_assembles split: if_splits)
  have head: "rd64 (mem s) (fs_at off s) = fs_head ?slot" using assms(6) by (simp add: shows_slot_def)
  obtain r where r: "run 20 ext buf code s = Some r" "freelist_spec ext buf off index sz site handler refill fallback s r"
    using sysv_callee.freelist_runs [OF assms(2-4) refl] unfolding code' by blast
  show ?thesis
  proof (cases "fs_head ?slot = 0")
    case True
    then show ?thesis using r head assms(5,9) by (auto simp: freelist_spec_def freelist_alloc_def Let_def)
  next
    case False
    then have next_word: "rd64 (mem s) (fs_head ?slot) = words (sg st) (fs_head ?slot)"
      using assms(6,7) by (auto simp: shows_slot_def)
    have c: "c = fs_head ?slot" "st' = st\<lparr>tl_freelists := (tl_freelists st)(index := ?slot\<lparr>fs_head := words (sg st) c\<rparr>)\<rparr>"
      using assms(9) False by (auto simp: freelist_alloc_def Let_def)
    have "pops (fs_at off s) c (words (sg st) c) s r"
      using r(2) head False assms(5) next_word c(1) by (simp add: freelist_spec_def Let_def)
    then obtain s' where s': "r = Returned s'" "rax s' = c" "returned_to_caller s s'"
      "mem s' = wr64 (mem s) (fs_at off s) (words (sg st) c)" by (auto simp: pops_def)
    have "fs_at off s' = fs_at off s" using s'(3) by (simp add: returned_to_caller_def fs_at_def)
    then have "shows_slot cs off index s' st'"
      using assms(6,8) s'(4) c(2) by (simp add: shows_slot_def rd64_wr64_same rd64_wr64_disjoint)
    then show ?thesis using r(1) s' False by auto
  qed
qed

text \<open>A slot whose list is the one chunk that the demonstration thread's memory holds.\<close>

theorem freelist_code_simulates_witness:
  "\<exists>code s'. emit_freelist_alloc 0x4000 4096 0 3 64 7 0x100 0x200 0x300 = Some code \<and>
    run 20 demo_ext 0x4000 code (demo_thread 64) = Some (Returned s') \<and> rax s' = 0x10000"
proof -
  let ?st = "demo_jit\<lparr>tl_freelists := (\<lambda>_. \<lparr>fs_head = 0x10000, fs_segs = 0\<rparr>)\<rparr>"
  obtain code where c: "emit_freelist_alloc 0x4000 4096 0 3 64 7 0x100 0x200 0x300 = Some code"
    by (simp add: emit_freelist_alloc_assembles)
  have d: "rd64 (mem (demo_thread 64)) 0x10000 = 0" "fs_at 0 (demo_thread 64) = 0x7000" "rdi (demo_thread 64) = 64"
    by (simp_all add: demo_thread_def fs_at_def sx32_def rd64_wr64_disjoint)
      (simp add: rd64_def get64_def)
  have sh: "shows_slot {0x10000} 0 3 (demo_thread 64) ?st"
    using d demo_words(1) [of 64] by (simp add: shows_slot_def demo_jit_def)
  have al: "freelist_alloc (demo_mmap 0x10000000) 3 64 ?st =
      Some (0x10000, ?st\<lparr>tl_freelists := (\<lambda>_. \<lparr>fs_head = 0x10000, fs_segs = 0\<rparr>)(3 := \<lparr>fs_head = 0, fs_segs = 0\<rparr>)\<rparr>)"
    by (simp add: freelist_alloc_def demo_jit_def)
  from freelist_code_simulates [OF c demo_callee demo_entry [of 64] _ _ sh _ _ al] c show ?thesis
    using d by auto
qed

section \<open>The multi-size routine\<close>

text \<open>The thread's memory shows the heads of the \<open>n\<close> classes, eight bytes apart, and the links of \<open>cs\<close>.\<close>

definition shows_classes :: "addr set \<Rightarrow> u32 \<Rightarrow> nat \<Rightarrow> u32 \<Rightarrow> 'e x86_scheme \<Rightarrow> jit_state \<Rightarrow> bool" where
  "shows_classes cs heads n index s st \<longleftrightarrow>
     (\<forall>i < n. rd64 (mem s) (fs_at (heads + of_nat (i * 8)) s) = ms_heads (tl_multi_freelists st index) i) \<and>
     (\<forall>c \<in> cs. rd64 (mem s) c = words (sg st) c)"

text \<open>
  C34: On a thread whose memory shows the slot, the emitted multi-size routine called with one of
  the learned sizes does what \<open>multi_alloc\<close> does for that class: it pops the class's own list,
  leaving the other classes as they are, or calls \<open>multi_refill\<close> with the slot, the size and the
  number of the class.
\<close>

theorem multi_code_simulates:
  assumes code: "emit_multi_freelist_alloc buf n heads index szs site handler refill fallback = Some code"
    and "sysv_callee ext" and "\<forall>i < length szs. entry_ok buf (fs_at (heads + of_nat (i * 8)) s) s"
    and "\<forall>sz \<in> set szs. sz < 0x80000000" and "find_index (\<lambda>sz. rdi s = ucast sz) szs = Some k"
    and "shows_classes cs heads (length szs) index s st" and "ms_heads (tl_multi_freelists st index) k \<in> insert 0 cs"
    and "\<forall>c \<in> cs. 8 \<le> c - fs_at (heads + of_nat (k * 8)) s \<and> 8 \<le> fs_at (heads + of_nat (k * 8)) s - c"
    and "\<forall>i < length szs. i \<noteq> k \<longrightarrow>
      8 \<le> fs_at (heads + of_nat (i * 8)) s - fs_at (heads + of_nat (k * 8)) s \<and>
      8 \<le> fs_at (heads + of_nat (k * 8)) s - fs_at (heads + of_nat (i * 8)) s"
    and "multi_alloc env index (szs ! k) (of_nat k) st = Some (c, st')"
  shows "\<exists>r. run 20 ext buf code s = Some r \<and>
    (if ms_heads (tl_multi_freelists st index) k \<noteq> 0
     then \<exists>s'. r = Returned s' \<and> rax s' = c \<and> returned_to_caller s s' \<and> shows_classes cs heads (length szs) index s' st'
     else refills ext refill index (szs ! k) (Some (of_nat k)) s r \<and>
       multi_refill env index (szs ! k) (of_nat k) st = Some (c, st'))"
proof -
  let ?m = "tl_multi_freelists st index" and ?a = "fs_at (heads + of_nat (k * 8)) s"
  have n: "code = assemble (multi_code buf heads index szs site handler refill fallback)" "length szs \<le> 4" "szs \<noteq> []"
    using code by (auto simp: emit_multi_freelist_alloc_assembles split: if_splits)
  have "rip s = buf" "rsp s AND 15 = 8" using assms(3) [rule_format, of 0] n(3) by (auto simp: entry_ok_def)
  then obtain r where r: "run 20 ext buf code s = Some r"
    "multi_spec ext buf heads index szs site handler refill fallback s r"
    using sysv_callee.multi_runs [OF assms(2) _ _ assms(4,3) n(2) refl] n(1) by blast
  have k: "k < length szs" using find_index_SomeD [OF assms(5)] by simp
  then have u: "unat (of_nat k :: u32) = k" using n(2) by (simp add: unat_of_nat)
  have cl: "class_spec ext heads index refill k (szs ! k) s r" using r(2) assms(5) by (simp add: multi_spec_def)
  have head: "rd64 (mem s) ?a = ms_heads ?m k" using assms(6) k by (simp add: shows_classes_def)
  show ?thesis
  proof (cases "ms_heads ?m k = 0")
    case True
    then show ?thesis using r(1) cl head assms(10) u by (auto simp: class_spec_def multi_alloc_def Let_def)
  next
    case False
    then have next_word: "rd64 (mem s) (ms_heads ?m k) = words (sg st) (ms_heads ?m k)"
      using assms(6,7) by (auto simp: shows_classes_def)
    have c: "c = ms_heads ?m k" "st' = st\<lparr>tl_multi_freelists := (tl_multi_freelists st)
        (index := ?m\<lparr>ms_heads := (ms_heads ?m)(k := words (sg st) c)\<rparr>)\<rparr>"
      using assms(10) False u by (auto simp: multi_alloc_def Let_def)
    have "pops ?a c (words (sg st) c) s r" using cl head False next_word c(1) by (simp add: class_spec_def Let_def)
    then obtain s' where s': "r = Returned s'" "rax s' = c" "returned_to_caller s s'"
      "mem s' = wr64 (mem s) ?a (words (sg st) c)" by (auto simp: pops_def)
    have "fs_at off s' = fs_at off s" for off using s'(3) by (simp add: returned_to_caller_def fs_at_def)
    then have "shows_classes cs heads (length szs) index s' st'"
      using assms(6,8,9) s'(4) c(2) by (auto simp: shows_classes_def rd64_wr64_same rd64_wr64_disjoint)
    then show ?thesis using r(1) s' False by auto
  qed
qed

text \<open>Two classes; the second one, of 64 bytes, has one free chunk.\<close>

theorem multi_code_simulates_witness:
  "\<exists>code s'. emit_multi_freelist_alloc 0x4000 4096 0 3 [32, 64] 7 0x100 0x200 0x300 = Some code \<and>
    run 20 demo_ext 0x4000 code (demo_thread 64) = Some (Returned s') \<and> rax s' = 0x20000"
proof -
  let ?m = "\<lparr>ms_heads = (\<lambda>i. if i = 0 then 0x10000 else 0x20000), ms_segs = (\<lambda>_. 0)\<rparr>"
  let ?st = "demo_jit\<lparr>tl_multi_freelists := (\<lambda>_. ?m)\<rparr>" and ?s = "demo_thread 64"
  obtain code where c: "emit_multi_freelist_alloc 0x4000 4096 0 3 [32, 64] 7 0x100 0x200 0x300 = Some code"
    by (simp add: emit_multi_freelist_alloc_assembles)
  have a: "fs_at 0 ?s = 0x7000" "fs_at 8 ?s = 0x7008" by (simp_all add: demo_thread_def fs_at_def sx32_def)
  have "rd64 (mem ?s) 0x20000 = 0" by (simp add: demo_thread_def rd64_wr64_disjoint) (simp add: rd64_def get64_def)
  then have sh: "shows_classes {0x20000} 0 (length [32, 64 :: u32]) 3 ?s ?st"
    using demo_words [of 64] by (auto simp: shows_classes_def demo_jit_def less_Suc_eq numeral_2_eq_2)
  have e: "\<forall>i < length [32, 64 :: u32]. entry_ok 0x4000 (fs_at (0 + of_nat (i * 8)) ?s) ?s"
    by (auto simp: less_Suc_eq entry_ok_def demo_thread_def fs_at_def sx32_def)
  have f: "find_index (\<lambda>sz. rdi ?s = ucast sz) [32, 64 :: u32] = Some 1" by (simp add: demo_thread_def)
  have al: "multi_alloc (demo_mmap 0x10000000) 3 ([32, 64] ! 1) (of_nat 1) ?st =
      Some (0x20000, ?st\<lparr>tl_multi_freelists := (\<lambda>_. ?m)(3 := ?m\<lparr>ms_heads := (ms_heads ?m)(1 := 0)\<rparr>)\<rparr>)"
    by (simp add: multi_alloc_def demo_jit_def)
  have o: "\<forall>i < length [32, 64 :: u32]. i \<noteq> 1 \<longrightarrow>
      8 \<le> fs_at (0 + of_nat (i * 8)) ?s - fs_at (0 + of_nat (1 * 8)) ?s \<and>
      8 \<le> fs_at (0 + of_nat (1 * 8)) ?s - fs_at (0 + of_nat (i * 8)) ?s"
    using a by (auto simp: less_Suc_eq)
  have w: "\<forall>c \<in> {0x20000}. 8 \<le> c - fs_at (0 + of_nat (1 * 8)) ?s \<and> 8 \<le> fs_at (0 + of_nat (1 * 8)) ?s - c"
    using a by simp
  have "\<exists>r. run 20 demo_ext 0x4000 code ?s = Some r \<and> (\<exists>s'. r = Returned s' \<and> rax s' = 0x20000)"
    using multi_code_simulates [OF c demo_callee e _ f sh _ w o al] by auto
  with c show ?thesis by blast
qed

end
