(* ===== verification/Workload_Pick.thy ===== *)
theory Workload_Pick
  imports Convergence Workload
begin

text \<open>
  What the analysis makes of the benchmark programs: a site whose chunks are freed in stack order
  from one place is compiled as \<open>PairedStack\<close>, whatever the sizes it asks for, so long as every
  window shows the same mixture.
\<close>

section \<open>Traffic in stack order\<close>

text \<open>
  Events of one allocating and one freeing site and of no other; \<open>stk\<close> holds the chunks in use, the
  last one on top, and every free takes the top.  The chunks come from libc.  At most 16 are in use
  at a time, which is what \<open>lifo_stack\<close> of a summary holds: an overflow forgets the bottom, whose
  free then no longer counts as one in stack order.  Every request is below the 4096 bytes the
  analysis looks at.
\<close>

fun nested :: "seg_state \<Rightarrow> CallSiteID \<Rightarrow> CallSiteID \<Rightarrow> addr list \<Rightarrow> AllocEvent list \<Rightarrow> bool" where
  "nested gs cs fs stk [] \<longleftrightarrow> True"
| "nested gs cs fs stk (ev # evs) \<longleftrightarrow>
     (if ev_size ev = 0
      then stk \<noteq> [] \<and> ev_ptr ev = last stk \<and> ev_call_site ev = fs \<and> \<not> is_managed (seg_of (ev_ptr ev)) gs \<and>
           nested gs cs fs (butlast stk) evs
      else ev_call_site ev = cs \<and> ev_ptr ev \<noteq> 0 \<and> ev_size ev < 4096 \<and> length stk < 16 \<and>
           nested gs cs fs (stk @ [ev_ptr ev]) evs)"

fun stack_after :: "addr list \<Rightarrow> AllocEvent list \<Rightarrow> addr list" where
  "stack_after stk [] = stk"
| "stack_after stk (ev # evs) =
     stack_after (if ev_size ev = 0 then butlast stk else stk @ [ev_ptr ev]) evs"

definition requested :: "AllocEvent list \<Rightarrow> u32 list" where
  "requested evs = filter (\<lambda>n. n \<noteq> 0) (map ev_size evs)"

lemma requested_simps [simp]:
  "requested [] = []" "requested (ev # evs) = (if ev_size ev = 0 then requested evs else ev_size ev # requested evs)"
  "requested (xs @ ys) = requested xs @ requested ys"
  by (simp_all add: requested_def)

lemma stack_after_append [simp]: "stack_after stk (xs @ ys) = stack_after (stack_after stk xs) ys"
  by (induction xs arbitrary: stk) simp_all

lemma nested_append: "nested gs cs fs stk (xs @ ys) \<longleftrightarrow> nested gs cs fs stk xs \<and> nested gs cs fs (stack_after stk xs) ys"
  by (induction xs arbitrary: stk) auto

text \<open>Window \<open>j\<close> of the requested sizes.\<close>

definition window_at :: "nat \<Rightarrow> u32 list \<Rightarrow> nat \<Rightarrow> u32 list" where
  "window_at N zs j = take N (drop (j * N) zs)"

definition same_mixture :: "nat \<Rightarrow> nat \<Rightarrow> u32 list \<Rightarrow> bool" where
  "same_mixture N K zs \<longleftrightarrow>
     (\<forall>j < K. \<forall>x. count_list (window_at N zs (Suc j)) x = count_list (window_at N zs j) x) \<and>
     (\<forall>j \<le> K. card (set (window_at N zs j)) \<le> 64)"

section \<open>The summary along the way\<close>

text \<open>The site after \<open>j\<close> full windows and \<open>i\<close> requests of the next one.\<close>

definition pairing :: "knobs \<Rightarrow> CallSiteID \<Rightarrow> CallSiteID \<Rightarrow> u32 list \<Rightarrow> nat \<Rightarrow> nat \<Rightarrow> addr list \<Rightarrow> CallSiteSummary \<Rightarrow> bool" where
  "pairing kn cs fs zs j i stk s \<longleftrightarrow>
     (let N = unat (g_window_size kn); n = j * N + i
      in cs_id s = cs \<and> cs_phase s = PreSpec \<and> \<not> blacklisted s \<and>
         active s \<le> 1 \<and> length (windows s) = 2 \<and>
         hist_of (take i (drop (j * N) zs)) (active_hist s) \<and> unat (sw_count (windows s ! active s)) = i \<and>
         (if j = 0 then sw_count (other_window s) = 0
          else hist_of (window_at N zs (j - 1)) (sw_hist (other_window s)) \<and> unat (sw_count (other_window s)) = N) \<and>
         unat (stable_windows s) = j - 1 \<and> unat (event_count s) = n \<and>
         lifo_stack s = stk \<and> 0 \<notin> set stk \<and> length stk \<le> n \<and>
         unat (pair_count (top_pair s)) = n - length stk \<and> lifo_count (top_pair s) = pair_count (top_pair s) \<and>
         (pair_count (top_pair s) \<noteq> 0 \<longrightarrow> free_site (top_pair s) = fs))"

lemma pairing_new: "pairing kn cs fs zs 0 0 [] (summary_new cs)"
  by (simp add: pairing_def summary_new_def active_hist_def other_window_def window_new_def hist_of_Nil dist_new_def)

lemma pairing_free:
  assumes p: "pairing kn cs fs zs j i stk s" and stk: "stk \<noteq> []" "ev_ptr ev = last stk" and site: "ev_call_site ev = fs"
    and len: "j * unat (g_window_size kn) + i < 2 ^ 32"
  shows "pairing kn cs fs zs j i (butlast stk) (note_free False ev s)"
proof -
  note a = p [unfolded pairing_def Let_def]
  let ?tp = "top_pair s" and ?n = "j * unat (g_window_size kn) + i"
  have pr: "pair_record fs ?tp = ?tp\<lparr>free_site := fs, pair_count := pair_count ?tp + 1\<rparr>"
    using a by (auto simp: pair_record_def)
  have "0 < length stk" using stk(1) by simp
  then have inc: "unat (pair_count ?tp + 1) = ?n - (length stk - 1)"
  proof -
    have "length stk \<le> ?n" "unat (pair_count ?tp) = ?n - length stk" using a by simp_all
    moreover have "unat (pair_count ?tp + 1) = unat (pair_count ?tp) + 1"
    proof (rule unat_Suc_no_wrap)
      have "?n - length stk + 1 < 2 ^ 32" using \<open>0 < length stk\<close> calculation(1) len by linarith
      then show "unat (pair_count ?tp) + 1 < 2 ^ LENGTH(32)" using calculation(2) by simp
    qed
    ultimately show ?thesis using \<open>0 < length stk\<close> by arith
  qed
  have "0 \<notin> set (butlast stk)" using a by (auto dest: in_set_butlastD)
  moreover have "Suc x - length stk = x - (length stk - Suc 0)" "length stk \<le> x \<Longrightarrow> length stk - Suc 0 \<le> x" for x
    using \<open>0 < length stk\<close> by arith+
  ultimately show ?thesis
    using a stk site inc
    by (cases "j = 0") (simp_all add: pairing_def note_free_def pr active_hist_def other_window_def Let_def)
qed

lemma pairing_alloc:
  assumes p: "pairing kn cs fs zs j i stk s" and ev: "ev_size ev = zs ! (j * unat (g_window_size kn) + i)"
    "ev_size ev < 4096" "ev_ptr ev \<noteq> 0"
    and i: "i < unat (g_window_size kn)" and n: "j * unat (g_window_size kn) + i < length zs" and stk: "length stk < 16"
    and len: "j * unat (g_window_size kn) + Suc i < 2 ^ 32"
  shows "pairing kn cs fs zs j (Suc i) (stk @ [ev_ptr ev]) (record_active (ev_size ev) (count_alloc ev s))"
proof -
  note a = p [unfolded pairing_def Let_def other_window_def]
  have act: "active s < length (windows s)" using a by simp
  have "unat (event_count s + 1) = unat (event_count s) + 1"
    using a len by (simp add: unat_word_ariths)
  moreover have "unat (sw_count (windows s ! active s) + 1) = Suc i"
    using a len by (simp add: unat_word_ariths)
  moreover have "take (Suc i) (drop (j * unat (g_window_size kn)) zs) = take i (drop (j * unat (g_window_size kn)) zs) @ [ev_size ev]"
    using n ev(1) by (simp add: take_Suc_conv_app_nth)
  moreover have "hist_of (take i (drop (j * unat (g_window_size kn)) zs) @ [ev_size ev]) (hist_record (ev_size ev) (active_hist s))"
    using a len ev(2) by (intro hist_record_step) simp_all
  moreover have "active s \<noteq> 1 - active s" by arith
  ultimately show ?thesis
    using a act stk ev(3) by (cases "j = 0")
      (simp_all add: pairing_def count_alloc_def push_lifo_def record_active_def active_hist_def other_window_def
        window_record_def Let_def)
qed

lemma pairing_stable:
  assumes p: "pairing kn cs fs zs j (unat (g_window_size kn)) stk s" and N: "0 < unat (g_window_size kn)"
    and mix: "same_mixture (unat (g_window_size kn)) K zs" and j: "j \<le> K" and len: "(K + 1) * unat (g_window_size kn) \<le> length zs"
  shows "window_stable kn s \<longleftrightarrow> 0 < j"
proof (cases "j = 0")
  case True
  then show ?thesis using p by (simp add: pairing_def window_stable_def other_window_def Let_def)
next
  case False
  note a = p [unfolded pairing_def Let_def]
  let ?N = "unat (g_window_size kn)"
  have h: "hist_of (window_at ?N zs j) (active_hist s)" "hist_of (window_at ?N zs (j - 1)) (sw_hist (other_window s))"
    "unat (sw_count (other_window s)) = ?N" using a False by (simp_all add: window_at_def)
  have "Suc j * ?N \<le> (K + 1) * ?N" using j by (intro mult_le_mono1) simp
  then have "Suc j * ?N \<le> length zs" using len by (rule le_trans)
  then have l: "length (window_at ?N zs j) = ?N" by (simp add: window_at_def)
  have "card (set (window_at ?N zs j)) \<le> 64" using mix j by (simp add: same_mixture_def)
  then have "\<not> overflow (active_hist s)" using h(1) by (simp add: hist_of_def CAP_def)
  moreover have "\<forall>x. count_list (window_at ?N zs j) x = count_list (window_at ?N zs (j - 1)) x"
    using mix j False unfolding same_mixture_def by (metis Suc_diff_1 Suc_le_lessD neq0_conv)
  moreover have "?N < 2 ^ 32" using unat_u32_less [of "g_window_size kn"] by simp
  ultimately have "ks_stable (active_hist s) (sw_hist (other_window s)) (g_ks_alpha kn)"
    using N l by (intro ks_stable_same [OF h(1,2)]) auto
  moreover have "0 < sw_count (other_window s)" using h(3) N by (simp add: word_less_nat_alt)
  ultimately show ?thesis using False by (simp add: window_stable_def other_window_def Let_def)
qed

lemma pairing_flip:
  assumes p: "pairing kn cs fs zs j (unat (g_window_size kn)) stk s" and m: "unat m = j"
  shows "pairing kn cs fs zs (Suc j) 0 stk (flip_window (s\<lparr>stable_windows := m\<rparr>))"
proof -
  note a = p [unfolded pairing_def Let_def]
  have le: "active s \<le> 1" and l: "length (windows s) = 2" using a by simp_all
  then have ba: "1 - (1 - active s) = active s" "active s \<noteq> 1 - active s" by arith+
  show ?thesis
    using a m le l ba by (simp add: pairing_def flip_window_def reset_window_def window_reset_def active_hist_def
        other_window_def hist_of_Nil window_at_def Let_def)
qed

section \<open>One event\<close>

lemma mult_window_less:
  fixes j K N i :: nat
  assumes "j \<le> K" and "i < N"
  shows "j * N + i < (K + 1) * N"
proof -
  have "j * N \<le> K * N" using assms(1) by (rule mult_le_mono1)
  then show ?thesis using assms(2) unfolding add_mult_distrib by linarith
qed

lemma pairing_step:
  assumes p: "pairing kn cs fs zs j i stk s"
    and ev: "ev_size ev = zs ! (j * unat (g_window_size kn) + i)" "ev_size ev \<noteq> 0" "ev_size ev < 4096" "ev_ptr ev \<noteq> 0"
    and stk: "length stk < 16" and i: "i < unat (g_window_size kn)" and K: "j \<le> unat (g_stable_windows kn)"
    and zs: "length zs = (unat (g_stable_windows kn) + 1) * unat (g_window_size kn)" "length zs < 2 ^ 32"
    and mix: "same_mixture (unat (g_window_size kn)) (unat (g_stable_windows kn)) zs" and t: "\<not> g_trace_only kn"
  defines "s' \<equiv> record_active (ev_size ev) (count_alloc ev s)"
  shows "Suc i < unat (g_window_size kn) \<Longrightarrow>
      note_alloc kn le ev s cg d = Inr (s', cg, d) \<and> pairing kn cs fs zs j (Suc i) (stk @ [ev_ptr ev]) s'"
    and "Suc i = unat (g_window_size kn) \<Longrightarrow> j < unat (g_stable_windows kn) \<Longrightarrow>
      \<exists>s2. note_alloc kn le ev s cg d = Inr (s2, cg, d) \<and> pairing kn cs fs zs (Suc j) 0 (stk @ [ev_ptr ev]) s2"
    and "Suc i = unat (g_window_size kn) \<Longrightarrow> j = unat (g_stable_windows kn) \<Longrightarrow> 0 < j \<Longrightarrow>
      \<exists>m. note_alloc kn le ev s cg d = install_routine le (specialise kn (s'\<lparr>stable_windows := m\<rparr>)) cg d \<and>
        pairing kn cs fs zs j (unat (g_window_size kn)) (stk @ [ev_ptr ev]) s'"
proof -
  let ?N = "unat (g_window_size kn)" and ?K = "unat (g_stable_windows kn)" and ?stk = "stk @ [ev_ptr ev]"
  have n: "j * ?N + i < length zs" using mult_window_less [OF K i] zs(1) by simp
  then have len: "j * ?N + Suc i < 2 ^ 32" using zs(2) by simp
  have p': "pairing kn cs fs zs j (Suc i) ?stk s'"
    unfolding s'_def by (rule pairing_alloc [OF p ev(1,3,4) i n stk len])
  have pre: "cs_phase (count_alloc ev s) = PreSpec" using p by (simp add: pairing_def count_alloc_def Let_def)
  have full: "window_full kn (windows s' ! active s') \<longleftrightarrow> ?N \<le> Suc i"
    using p' by (simp add: window_full_def pairing_def word_le_nat_alt Let_def)
  have na: "note_alloc kn le ev s cg d = (if ?N \<le> Suc i then advance_prespec kn le s' cg d else Inr (s', cg, d))"
    using pre full by (simp add: note_alloc_def s'_def)
  show "Suc i < ?N \<Longrightarrow> note_alloc kn le ev s cg d = Inr (s', cg, d) \<and> pairing kn cs fs zs j (Suc i) ?stk s'"
    using na p' by simp
  have stable: "window_stable kn s' \<longleftrightarrow> 0 < j" if "Suc i = ?N"
    using pairing_stable [OF _ _ mix K, of cs fs ?stk s'] p' that zs(1) i by simp
  have sw: "unat (stable_windows s') = j - 1" and nb: "\<not> blacklisted s'" using p' by (simp_all add: pairing_def Let_def)
  have inc: "unat (stable_windows s' + 1) = j" if "0 < j"
  proof -
    have "?N > 0" using i by simp
    then have "j \<le> j * ?N" by simp
    then have "j < 2 ^ 32" using len by linarith
    then show ?thesis using sw that by (simp add: unat_word_ariths)
  qed
  show "\<exists>s2. note_alloc kn le ev s cg d = Inr (s2, cg, d) \<and> pairing kn cs fs zs (Suc j) 0 ?stk s2"
    if N: "Suc i = ?N" and jK: "j < ?K"
  proof (cases "0 < j")
    case True
    have "\<not> g_stable_windows kn \<le> stable_windows s' + 1"
      using inc [OF True] jK by (simp add: word_le_nat_alt)
    then have "note_alloc kn le ev s cg d = Inr (flip_window (s'\<lparr>stable_windows := stable_windows s' + 1\<rparr>), cg, d)"
      using na N stable True by (simp add: advance_prespec_def Let_def)
    then show ?thesis using pairing_flip [OF _ inc [OF True], of kn cs fs zs ?stk s'] p' N by auto
  next
    case False
    then have "note_alloc kn le ev s cg d = Inr (flip_window (s'\<lparr>stable_windows := 0\<rparr>), cg, d)"
      using na N stable by (simp add: advance_prespec_def)
    then show ?thesis using pairing_flip [of kn cs fs zs 0 ?stk s' 0] p' N False by auto
  qed
  show "\<exists>m. note_alloc kn le ev s cg d = install_routine le (specialise kn (s'\<lparr>stable_windows := m\<rparr>)) cg d \<and>
        pairing kn cs fs zs j ?N ?stk s'"
    if N: "Suc i = ?N" and jK: "j = ?K" and j: "0 < j"
  proof -
    have "g_stable_windows kn \<le> stable_windows s' + 1" using inc [OF j] jK by (simp add: word_le_nat_alt)
    then show ?thesis using na N stable j nb t p' by (auto simp: advance_prespec_def Let_def)
  qed
qed

lemma process_free_lone:
  assumes "ev_size ev = 0" and "ev_ptr ev \<noteq> 0" and "\<not> is_managed (seg_of (ev_ptr ev)) gs"
    and "lifo_stack s \<noteq> []" and "last (lifo_stack s) = ev_ptr ev"
  shows "process_event kn le gs ev \<lparr>summaries = [s], an_codegen = cg, an_dispatch = d\<rparr> =
    Inr \<lparr>summaries = [note_free False ev s], an_codegen = cg, an_dispatch = d\<rparr>"
  using assms by (simp add: process_event_def process_free_def Let_def)

section \<open>The run up to the last request\<close>

lemma pairing_run:
  assumes "nested gs cs fs stk evs" and "pairing kn cs fs zs j i stk s" and "i < unat (g_window_size kn)"
    and "drop (j * unat (g_window_size kn) + i) zs = requested evs @ rest" and "rest \<noteq> []"
    and zs: "length zs = (unat (g_stable_windows kn) + 1) * unat (g_window_size kn)" "length zs < 2 ^ 32"
    and mix: "same_mixture (unat (g_window_size kn)) (unat (g_stable_windows kn)) zs" and t: "\<not> g_trace_only kn"
  shows "\<exists>s' j' i'. process_events kn le gs evs \<lparr>summaries = [s], an_codegen = cg, an_dispatch = d\<rparr> =
      Inr \<lparr>summaries = [s'], an_codegen = cg, an_dispatch = d\<rparr> \<and> pairing kn cs fs zs j' i' (stack_after stk evs) s' \<and>
      i' < unat (g_window_size kn) \<and> drop (j' * unat (g_window_size kn) + i') zs = rest"
  using assms(1-5)
proof (induction evs arbitrary: s j i stk)
  case Nil
  then show ?case by auto
next
  case (Cons ev evs)
  let ?N = "unat (g_window_size kn)" and ?K = "unat (g_stable_windows kn)"
  have "j * ?N + i < length zs"
  proof (rule ccontr)
    assume "\<not> ?thesis"
    then have "drop (j * ?N + i) zs = []" by simp
    then show False using Cons.prems(4,5) by simp
  qed
  then have n: "j * ?N + i < length zs" .
  show ?case
  proof (cases "ev_size ev = 0")
    case True
    then have e: "stk \<noteq> []" "ev_ptr ev = last stk" "ev_call_site ev = fs" "\<not> is_managed (seg_of (ev_ptr ev)) gs"
      and nest: "nested gs cs fs (butlast stk) evs" using Cons.prems(1) unfolding nested.simps if_P [OF True] by blast+
    have l: "lifo_stack s = stk" "0 \<notin> set stk" using Cons.prems(2) by (simp_all add: pairing_def Let_def)
    then have p0: "ev_ptr ev \<noteq> 0" using e(1,2) by (metis last_in_set)
    have "j * ?N + i < 2 ^ 32" using n zs(2) by simp
    from pairing_free [OF Cons.prems(2) e(1-3) this]
    have "pairing kn cs fs zs j i (butlast stk) (note_free False ev s)" .
    from Cons.IH [OF nest this Cons.prems(3)] Cons.prems(4,5) True
    show ?thesis using process_free_lone [OF True p0 e(4), of s kn le cg d] l(1) e(1,2) by simp
  next
    case False
    then have e: "ev_call_site ev = cs" "ev_ptr ev \<noteq> 0" "ev_size ev < 4096" "length stk < 16"
      and nest: "nested gs cs fs (stk @ [ev_ptr ev]) evs" using Cons.prems(1) by simp_all
    have dz: "drop (j * ?N + i) zs = ev_size ev # requested evs @ rest" using Cons.prems(4) False by simp
    then have hd: "ev_size ev = zs ! (j * ?N + i)" using n by (metis Cons_nth_drop_Suc list.inject)
    have tl: "drop (j * ?N + Suc i) zs = requested evs @ rest"
      using dz n by (metis Cons_nth_drop_Suc add_Suc_right list.inject)
    have "j * ?N < (?K + 1) * ?N" using n zs(1) by linarith
    then have jK: "j \<le> ?K" by (simp only: mult_less_cancel2) linarith
    have id: "cs_id s = ev_call_site ev" using Cons.prems(2) e(1) by (simp add: pairing_def Let_def)
    note ps = pairing_step [OF Cons.prems(2) hd False e(3,2,4) Cons.prems(3) jK zs mix t, of le cg d]
    have "\<exists>s1 j1 i1. note_alloc kn le ev s cg d = Inr (s1, cg, d) \<and> pairing kn cs fs zs j1 i1 (stk @ [ev_ptr ev]) s1 \<and>
        i1 < ?N \<and> j1 * ?N + i1 = j * ?N + Suc i"
    proof (cases "Suc i = ?N")
      case True
      have "j \<noteq> ?K"
      proof
        assume "j = ?K"
        then have "length zs \<le> j * ?N + Suc i" using True zs(1) by simp
        then show False using tl Cons.prems(5) by simp
      qed
      then obtain s1 where "note_alloc kn le ev s cg d = Inr (s1, cg, d)" "pairing kn cs fs zs (Suc j) 0 (stk @ [ev_ptr ev]) s1"
        using ps(2) [OF True] jK by auto
      then show ?thesis using True Cons.prems(3) by (intro exI [of _ s1] exI [of _ "Suc j"] exI [of _ 0]) simp
    next
      case False
      then have lt: "Suc i < ?N" using Cons.prems(3) by simp
      from ps(1) [OF lt] lt show ?thesis by blast
    qed
    then obtain s1 j1 i1 where s1: "note_alloc kn le ev s cg d = Inr (s1, cg, d)"
      "pairing kn cs fs zs j1 i1 (stk @ [ev_ptr ev]) s1" "i1 < ?N" "j1 * ?N + i1 = j * ?N + Suc i" by blast
    have "process_event kn le gs ev \<lparr>summaries = [s], an_codegen = cg, an_dispatch = d\<rparr> =
        Inr \<lparr>summaries = [s1], an_codegen = cg, an_dispatch = d\<rparr>"
      using process_event_lone [OF refl id False e(3), of kn le gs cg d] s1(1) by simp
    then show ?thesis using Cons.IH [OF nest s1(2,3) _ Cons.prems(5)] tl s1(4) False by simp
  qed
qed

section \<open>The decision\<close>

lemma paired_fields:
  "event_count (learn_classes s) = event_count s" "top_pair (learn_classes s) = top_pair s"
  "event_count (learn_lifetime s) = event_count s" "top_pair (learn_lifetime s) = top_pair s"
  by (simp_all add: learn_classes_def learn_lifetime_def Let_def)

lemma paired_pattern_cong:
  "event_count s = event_count t \<Longrightarrow> top_pair s = top_pair t \<Longrightarrow> paired_pattern s = paired_pattern t"
  by (simp add: paired_pattern_def)

lemma mostly_freed_paired:
  assumes p: "pairing kn cs fs zs j i stk s" and n: "j * unat (g_window_size kn) + i = n" "0 < n" "n < 2 ^ 32"
    and few: "20 * length stk \<le> n"
  shows "paired_pattern s"
proof -
  note a = p [unfolded pairing_def Let_def n(1)]
  let ?F = "n - length stk"
  have F: "unat (pair_count (top_pair s)) = ?F" "unat (lifo_count (top_pair s)) = ?F" "unat (event_count s) = n" using a by simp_all
  have Fpos: "0 < ?F" using few n(2) by linarith
  have small: "?F \<le> 2 ^ 53" "n \<le> 2 ^ 53" using n(3) by simp_all
  have "95 * n \<le> 100 * ?F" using few by linarith
  then have "of_nat (95 * n) \<le> (of_nat (100 * ?F) :: rat)" by (rule of_nat_mono)
  then have q: "(95 / 100 :: rat) \<le> of_nat ?F / of_nat n" using n(2) by (simp add: le_divide_eq del: of_nat_diff)
  have pr: "PAIRED_PAIR_RATIO \<le> fdiv (d_of_nat ?F) (d_of_nat n)"
    unfolding PAIRED_PAIR_RATIO_def fdiv_def d_of_nat_exact [OF small(1)] d_of_nat_exact [OF small(2)]
    by (rule rnd_mono) (rule q)
  have "fdiv (d_of_nat ?F) (d_of_nat ?F) = 1" by (rule fdiv_self) (rule d_of_nat_pos [OF Fpos])
  moreover have "PAIRED_LIFO_RATIO \<le> 1" unfolding PAIRED_LIFO_RATIO_def using rnd_mono [of "95 / 100" 1] by (simp add: rnd_numerals)
  moreover have "0 < event_count s" "0 < pair_count (top_pair s)" using F n(2) Fpos by (simp_all add: word_less_nat_alt)
  ultimately show ?thesis using pr F by (simp add: paired_pattern_def)
qed

lemma paired_specialises:
  assumes "paired_pattern s" and "strategy_override kn = Generic"
  shows "candidate (specialise kn (s\<lparr>stable_windows := m\<rparr>)) = PairedStack"
    and "routine_of (specialise kn (s\<lparr>stable_windows := m\<rparr>)) =
      \<lparr>rs_id = cs_id s, rs_strategy = PairedStack, rs_size = dominant_size (active_hist s),
       rs_class_sizes = [0, 0, 0, 0], rs_class_count = 0\<rparr>"
proof -
  define t where "t = learn_classes (learn_lifetime (s\<lparr>stable_windows := m, baseline := active_hist s\<rparr>))"
  have "paired_pattern t" using assms(1) paired_pattern_cong [of t s] by (simp add: t_def paired_fields)
  then have "pick_strategy kn t = PairedStack" using assms(2) by (simp add: pick_strategy_def)
  moreover have "active_hist (s\<lparr>stable_windows := m\<rparr>) = active_hist s" by (simp add: active_hist_def)
  ultimately show c: "candidate (specialise kn (s\<lparr>stable_windows := m\<rparr>)) = PairedStack"
    by (simp add: specialise_def t_def Let_def)
  show "routine_of (specialise kn (s\<lparr>stable_windows := m\<rparr>)) =
      \<lparr>rs_id = cs_id s, rs_strategy = PairedStack, rs_size = dominant_size (active_hist s),
       rs_class_sizes = [0, 0, 0, 0], rs_class_count = 0\<rparr>"
    using c by (simp add: routine_of_def active_hist_def)
qed

section \<open>The whole way\<close>

lemma paired_compiles:
  fixes cs :: CallSiteID
  assumes "sz \<noteq> 0" and "sz < 4096" and "cg_next_index cg < 4096" and "le_page le \<noteq> 0"
  defines "spec \<equiv> \<lparr>rs_id = cs, rs_strategy = PairedStack, rs_size = sz, rs_class_sizes = [0, 0, 0, 0], rs_class_count = 0\<rparr>"
  shows "\<exists>code cg'. compile le spec cg = (Some (le_page le), cg') \<and>
    emit_routine le spec (cg_next_index cg) = Some code \<and> cg_pages cg' = (le_page le, code) # cg_pages cg"
proof -
  have nr: "\<not> spec_rejected spec" using assms(1,2) by (simp add: spec_rejected_def MAX_SIZE_def spec_def not_le)
  obtain code where "emit_routine le spec (cg_next_index cg) = Some code"
    using emit_routine_Some [OF nr assms(4)] by (auto simp: spec_def)
  then show ?thesis using nr assms(3)
    by (auto simp: compile_def alloc_slot_index_def MAX_COMPILED_SITES_def Let_def not_le)
qed

lemma nested_start:
  assumes "nested gs cs fs [] (ev # evs)"
  shows "process_events kn le gs (ev # evs) (analysis_start cg d) = process_events kn le gs (ev # evs) (fresh_site cs cg d)"
proof -
  have "ev_size ev \<noteq> 0" "ev_size ev < 4096" "ev_call_site ev = cs" using assms by (auto split: if_splits)
  then show ?thesis using process_event_first [of ev kn le gs cg d] by (simp add: fresh_site_def)
qed

lemma requested_bounds:
  assumes "nested gs cs fs stk evs" and "x \<in> set (requested evs)"
  shows "x \<noteq> 0 \<and> x < 4096"
  using assms by (induction evs arbitrary: stk) (auto split: if_splits)

definition most_frequent :: "u32 list \<Rightarrow> u32 \<Rightarrow> bool" where
  "most_frequent ys z \<longleftrightarrow> z \<in> set ys \<and>
     (\<forall>x \<in> set ys. count_list ys x < count_list ys z \<or> count_list ys x = count_list ys z \<and> z \<le> x)"

lemma window_is_counted:
  assumes p: "pairing kn cs fs zs (unat (g_stable_windows kn)) (unat (g_window_size kn)) stk s"
    and N: "0 < unat (g_window_size kn)"
    and zs: "length zs = (unat (g_stable_windows kn) + 1) * unat (g_window_size kn)"
    and mix: "same_mixture (unat (g_window_size kn)) (unat (g_stable_windows kn)) zs"
  shows "most_frequent (window_at (unat (g_window_size kn)) zs (unat (g_stable_windows kn))) (dominant_size (active_hist s))"
    and "dominant_size (active_hist s) \<in> set zs"
proof -
  let ?N = "unat (g_window_size kn)" and ?K = "unat (g_stable_windows kn)"
  have h: "hist_of (window_at ?N zs ?K) (active_hist s)" using p by (simp add: pairing_def window_at_def Let_def)
  have "length (window_at ?N zs ?K) = ?N" using zs by (simp add: window_at_def)
  then have ne: "window_at ?N zs ?K \<noteq> []" using N by auto
  have "\<not> overflow (active_hist s)" using h mix by (simp add: hist_of_def same_mixture_def CAP_def not_less)
  then show z: "most_frequent (window_at ?N zs ?K) (dominant_size (active_hist s))"
    unfolding most_frequent_def using dominant_size_is_mode [OF h ne] by blast
  then show "dominant_size (active_hist s) \<in> set zs"
    using set_take_subset set_drop_subset unfolding most_frequent_def window_at_def by fast
qed

text \<open>The last request finds the summary one event short of its last window.\<close>

lemma last_request:
  assumes "nested gs cs fs [] (evs @ [ev])" and "ev_size ev \<noteq> 0" and "0 < unat (g_window_size kn)" and "\<not> g_trace_only kn"
    and "zs = requested (evs @ [ev])" and "length zs = (unat (g_stable_windows kn) + 1) * unat (g_window_size kn)"
    and "length zs < 2 ^ 32" and "same_mixture (unat (g_window_size kn)) (unat (g_stable_windows kn)) zs"
    and "0 < unat (g_stable_windows kn)"
  obtains s s1 m where "process_events kn le gs evs (fresh_site cs cg d) = Inr \<lparr>summaries = [s], an_codegen = cg, an_dispatch = d\<rparr>"
    and "cs_id s = ev_call_site ev" and "cs_id s1 = cs"
    and "note_alloc kn le ev s cg d = install_routine le (specialise kn (s1\<lparr>stable_windows := m\<rparr>)) cg d"
    and "pairing kn cs fs zs (unat (g_stable_windows kn)) (unat (g_window_size kn)) (stack_after [] (evs @ [ev])) s1"
proof -
  let ?N = "unat (g_window_size kn)" and ?K = "unat (g_stable_windows kn)"
  let ?stk = "stack_after [] evs"
  have nest: "nested gs cs fs [] evs" and last: "ev_call_site ev = cs" "ev_ptr ev \<noteq> 0" "ev_size ev < 4096" "length ?stk < 16"
    using assms(1,2) by (simp_all add: nested_append)
  have zs: "zs = requested evs @ [ev_size ev]" using assms(2,5) by simp
  have "drop (0 * ?N + 0) zs = requested evs @ [ev_size ev]" using zs by simp
  from pairing_run [OF nest pairing_new assms(3) this _ assms(6-8,4), of le cg d]
  obtain s j i where s: "process_events kn le gs evs (fresh_site cs cg d) =
      Inr \<lparr>summaries = [s], an_codegen = cg, an_dispatch = d\<rparr>" "pairing kn cs fs zs j i ?stk s" "i < ?N"
    "drop (j * ?N + i) zs = [ev_size ev]" by (auto simp: fresh_site_def)
  have "length zs - (j * ?N + i) = 1" using arg_cong [OF s(4), of length] by simp
  then have tot: "Suc (j * ?N + i) = length zs" by linarith
  then have "Suc (j * ?N + i) = (?K + 1) * ?N" using assms(6) by simp
  note ji = last_window_index [OF this s(3)]
  have hd: "ev_size ev = zs ! (j * ?N + i)" using s(4) tot by (metis Cons_nth_drop_Suc lessI list.inject)
  have id: "cs_id s = ev_call_site ev" using s(2) last(1) by (simp add: pairing_def Let_def)
  define s1 where "s1 = record_active (ev_size ev) (count_alloc ev s)"
  obtain m where m: "note_alloc kn le ev s cg d = install_routine le (specialise kn (s1\<lparr>stable_windows := m\<rparr>)) cg d"
    and p1: "pairing kn cs fs zs ?K ?N (stack_after [] (evs @ [ev])) s1"
    using pairing_step(3) [OF s(2) hd assms(2) last(3,2,4) s(3) _ assms(6-8,4) ji(2,1), of le cg d] ji(1) assms(2,9)
    by (auto simp: s1_def)
  have "cs_id s1 = cs" using p1 by (simp add: pairing_def Let_def)
  with s(1) id m p1 show thesis using that by blast
qed

lemma stack_order_traffic:
  assumes "dispatch_init a dispatch_static = Inr (a', d)"
    and "nested gs cs fs [] (evs @ [ev])" and "ev_size ev \<noteq> 0" and "cs \<noteq> 0"
    and "0 < g_window_size kn" and "0 < g_stable_windows kn" and "\<not> g_trace_only kn"
    and "strategy_override kn = Generic"
    and "zs = requested (evs @ [ev])" and "length zs = (unat (g_stable_windows kn) + 1) * unat (g_window_size kn)"
    and "length zs < 2 ^ 32" and "same_mixture (unat (g_window_size kn)) (unat (g_stable_windows kn)) zs"
    and "20 * length (stack_after [] (evs @ [ev])) \<le> length zs"
    and "cg_next_index cg < 4096" and "le_page (le (cg_next_index cg)) \<noteq> 0"
  shows "\<exists>an code z. process_events kn le gs (evs @ [ev]) (analysis_start cg d) = Inr an \<and>
    get_phase cs (summaries an) = Compiled \<and> get_candidate_strategy cs (summaries an) = PairedStack \<and>
    dispatch_lookup cs (an_dispatch an) = le_page (le (cg_next_index cg)) \<and>
    most_frequent (window_at (unat (g_window_size kn)) zs (unat (g_stable_windows kn))) z \<and>
    emit_routine (le (cg_next_index cg)) \<lparr>rs_id = cs, rs_strategy = PairedStack, rs_size = z,
      rs_class_sizes = [0, 0, 0, 0], rs_class_count = 0\<rparr> (cg_next_index cg) = Some code \<and>
    cg_pages (an_codegen an) = (le_page (le (cg_next_index cg)), code) # cg_pages cg"
proof -
  let ?N = "unat (g_window_size kn)" and ?K = "unat (g_stable_windows kn)" and ?le = "le (cg_next_index cg)"
  have N: "0 < ?N" and K: "0 < ?K" using assms(5,6) by (simp_all add: word_less_nat_alt)
  have last: "ev_size ev < 4096" using assms(2,3) by (simp add: nested_append)
  obtain s s1 m where s: "process_events kn le gs evs (fresh_site cs cg d) =
      Inr \<lparr>summaries = [s], an_codegen = cg, an_dispatch = d\<rparr>" and id: "cs_id s = ev_call_site ev" and id1: "cs_id s1 = cs"
    and m: "note_alloc kn le ev s cg d = install_routine le (specialise kn (s1\<lparr>stable_windows := m\<rparr>)) cg d"
    and p1: "pairing kn cs fs zs ?K ?N (stack_after [] (evs @ [ev])) s1"
    by (rule last_request [OF assms(2,3) N assms(7,9-12) K])
  let ?s2 = "specialise kn (s1\<lparr>stable_windows := m\<rparr>)"
  have n: "?K * ?N + ?N = length zs" and pos: "0 < length zs" using assms(10) N by simp_all
  have pp: "paired_pattern s1" by (rule mostly_freed_paired [OF p1 n pos assms(11,13)])
  note c = paired_specialises [OF pp assms(8), of m]
  define z where "z = dominant_size (active_hist s1)"
  note z = window_is_counted [OF p1 N assms(10,12), folded z_def]
  have zb: "z \<noteq> 0" "z < 4096" using requested_bounds [OF assms(2), of z] z(2) assms(9) by simp_all
  obtain code cg' where e: "compile ?le (routine_of ?s2) cg = (Some (le_page ?le), cg')"
    "emit_routine ?le \<lparr>rs_id = cs, rs_strategy = PairedStack, rs_size = z, rs_class_sizes = [0, 0, 0, 0], rs_class_count = 0\<rparr>
      (cg_next_index cg) = Some code" "cg_pages cg' = (le_page ?le, code) # cg_pages cg"
    using paired_compiles [OF zb assms(14,15), of cs] unfolding c(2) id1 z_def by blast
  have ok: "analysis_ok kn (analysis_start cg d)" by (rule analysis_start_ok [OF assms(1)])
  then have inv: "dispatch_inv d" by (simp add: analysis_ok_def analysis_start_def)
  obtain d' where d': "dispatch_install cs (le_page ?le) d = Inr d'"
    using install_succeeds [OF ok _ _ assms(4), of "[s1]"] id1 by (auto simp: site_ids_def analysis_start_def)
  have "note_alloc kn le ev s cg d = Inr (?s2\<lparr>code_page := le_page ?le\<rparr>, cg', d')"
    using m e(1) d' id1 by (simp add: install_routine_def)
  then have run: "process_events kn le gs (evs @ [ev]) (fresh_site cs cg d) =
      Inr \<lparr>summaries = [?s2\<lparr>code_page := le_page ?le\<rparr>], an_codegen = cg', an_dispatch = d'\<rparr>"
    using s process_event_lone [OF refl id assms(3) last, of kn le gs cg d] by (simp add: process_events_append)
  have st: "process_events kn le gs (evs @ [ev]) (analysis_start cg d) = process_events kn le gs (evs @ [ev]) (fresh_site cs cg d)"
    using nested_start [of gs cs fs "hd (evs @ [ev])" "tl (evs @ [ev])"] assms(2) by simp
  let ?an = "\<lparr>summaries = [?s2\<lparr>code_page := le_page ?le\<rparr>], an_codegen = cg', an_dispatch = d'\<rparr>"
  have "get_phase cs (summaries ?an) = Compiled" "get_candidate_strategy cs (summaries ?an) = PairedStack"
    using c(1) id1 by (simp_all add: fresh_site_getters)
  then show ?thesis
    unfolding st run using z(1) e(2,3) dispatch_lookup_install [OF inv assms(4,4) d']
    by (intro exI [of _ ?an] exI [of _ code] exI [of _ z]) simp
qed

section \<open>The benchmark programs\<close>

text \<open>
  libc under the recording library: the heap is the list of recorded events of the two call sites,
  and each address may depend on them.
\<close>

definition recorder :: "CallSiteID \<Rightarrow> CallSiteID \<Rightarrow> u32 \<Rightarrow> (AllocEvent list \<Rightarrow> addr) \<Rightarrow> AllocEvent list allocator" where
  "recorder cs fs tid answer =
     \<lparr>am_malloc = (\<lambda>n h. (answer h, h @ [\<lparr>ev_call_site = cs, ev_size = ucast n, ev_timestamp_ns = 0,
        ev_thread_id = tid, ev_ptr = answer h\<rparr>])),
      am_free = (\<lambda>p h. h @ [\<lparr>ev_call_site = fs, ev_size = 0, ev_timestamp_ns = 0, ev_thread_id = tid, ev_ptr = p\<rparr>])\<rparr>"

lemma churn_iter_recorded:
  assumes "answer (wl_heap w) \<noteq> 0"
  shows "\<exists>w'. churn_iter (recorder cs fs tid answer) n w = Inr w' \<and> wl_heap w' = wl_heap w @
    [\<lparr>ev_call_site = cs, ev_size = ucast n, ev_timestamp_ns = 0, ev_thread_id = tid, ev_ptr = answer (wl_heap w)\<rparr>,
     \<lparr>ev_call_site = fs, ev_size = 0, ev_timestamp_ns = 0, ev_thread_id = tid, ev_ptr = answer (wl_heap w)\<rparr>]"
  using assms by (simp add: churn_iter_def fresh_chunk_def obtain_chunk_def recorder_def memset_def add_sink_def
      release_def Let_def)

lemma churn_loop_recorded:
  assumes ans: "\<And>h. answer h \<noteq> 0 \<and> \<not> is_managed (seg_of (answer h)) gs"
    and sz: "\<And>i. f i \<noteq> 0 \<and> f i < 4096" and w: "wl_heap w = []" and n: "0 < n"
  shows "\<exists>w' evs ev fr. for_each (\<lambda>i. plain (churn_iter (recorder cs fs tid answer) (f i))) [0..<n] ((), w) = Inr ((), w') \<and>
    wl_heap w' = evs @ [ev, fr] \<and> nested gs cs fs [] (evs @ [ev]) \<and> ev_size ev \<noteq> 0 \<and>
    requested (evs @ [ev]) = map (\<lambda>i. ucast (f i)) [0..<n] \<and> length (stack_after [] (evs @ [ev])) = 1"
proof -
  let ?al = "recorder cs fs tid answer"
  define Q where "Q i h \<longleftrightarrow> nested gs cs fs [] h \<and> requested h = map (\<lambda>i. ucast (f i)) [0..<i] \<and> stack_after [] h = [] \<and>
    (0 < i \<longrightarrow> (\<exists>evs ev fr. h = evs @ [ev, fr] \<and> ev_size ev \<noteq> 0 \<and> ev_size fr = 0))" for i h
  define P where "P i = (\<lambda>(u :: unit, w' :: AllocEvent list workload). Q i (wl_heap w'))" for i
  have us: "(ucast (f i) :: u32) \<noteq> 0 \<and> (ucast (f i) :: u32) < 4096" for i
  proof -
    have "unat (f i) < 4096" using sz [of i] by (simp add: word_less_nat_alt)
    then have "unat (ucast (f i) :: u32) = unat (f i)" by (simp add: unsigned_ucast_eq take_bit_nat_eq_self)
    moreover have "unat (f i) \<noteq> 0" using sz [of i] by (simp add: unat_eq_0)
    ultimately show ?thesis using \<open>unat (f i) < 4096\<close> by (auto simp: word_less_nat_alt)
  qed
  have "results (\<lambda>_. False) (P n) (for_each (\<lambda>i. plain (churn_iter ?al (f i))) [0..<n] ((), w))"
  proof (rule for_each_count)
    show "P 0 ((), w)" using w by (simp add: P_def Q_def)
    fix i and s :: "unit \<times> AllocEvent list workload"
    assume p: "P i s"
    obtain w1 where s: "s = ((), w1)" by (cases s) simp
    obtain w2 where c: "churn_iter ?al (f i) w1 = Inr w2" "wl_heap w2 = wl_heap w1 @
      [\<lparr>ev_call_site = cs, ev_size = ucast (f i), ev_timestamp_ns = 0, ev_thread_id = tid, ev_ptr = answer (wl_heap w1)\<rparr>,
       \<lparr>ev_call_site = fs, ev_size = 0, ev_timestamp_ns = 0, ev_thread_id = tid, ev_ptr = answer (wl_heap w1)\<rparr>]"
      using churn_iter_recorded [of answer w1] ans by blast
    have q: "Q i (wl_heap w1)" using p by (simp add: P_def s)
    have "Q (Suc i) (wl_heap w2)"
      unfolding c(2) using q us [of i] ans [of "wl_heap w1"] unfolding Q_def
      by (intro conjI impI exI [of _ "wl_heap w1"]) (auto simp: nested_append)
    then have "P (Suc i) ((), w2)" by (simp add: P_def)
    then show "results (\<lambda>_. False) (P (Suc i)) (plain (churn_iter ?al (f i)) s)" by (simp add: plain_def s c(1))
  qed simp
  then obtain w' where r: "for_each (\<lambda>i. plain (churn_iter ?al (f i))) [0..<n] ((), w) = Inr ((), w')" "P n ((), w')"
    by (cases "for_each (\<lambda>i. plain (churn_iter ?al (f i))) [0..<n] ((), w)") auto
  then obtain evs ev fr where e: "wl_heap w' = evs @ [ev, fr]" "ev_size ev \<noteq> 0" "ev_size fr = 0" using n by (auto simp: P_def Q_def)
  have "nested gs cs fs [] ((evs @ [ev]) @ [fr])" "requested ((evs @ [ev]) @ [fr]) = map (\<lambda>i. ucast (f i)) [0..<n]"
    "stack_after [] ((evs @ [ev]) @ [fr]) = []" using r(2) e(1) by (simp_all add: P_def Q_def)
  moreover have "length st = 1" if "butlast st = []" "st \<noteq> []" for st :: "addr list"
    using that by (cases st) (auto split: if_splits)
  ultimately have "nested gs cs fs [] (evs @ [ev]) \<and> requested (evs @ [ev]) = map (\<lambda>i. ucast (f i)) [0..<n] \<and>
      length (stack_after [] (evs @ [ev])) = 1"
    using e(2,3) unfolding nested_append [of _ _ _ _ "evs @ [ev]" "[fr]"] by simp
  then show ?thesis using r(1) e(1,2) by blast
qed

lemma periodic_mixture:
  assumes g: "\<And>i. g (i + N) = g i" and few: "card (range g) \<le> 64"
  shows "window_at N (map g [0..<(K + 1) * N]) j = (if j \<le> K then map g [0..<N] else [])"
    and "same_mixture N K (map g [0..<(K + 1) * N])"
proof -
  have gj: "g (j * N + i) = g i" for i j
  proof (induction j)
    case (Suc j)
    have "g (Suc j * N + i) = g ((j * N + i) + N)" by (simp add: algebra_simps)
    then show ?case using g Suc by simp
  qed simp
  show w: "window_at N (map g [0..<(K + 1) * N]) j = (if j \<le> K then map g [0..<N] else [])" for j
  proof (cases "j \<le> K")
    case True
    have "Suc j * N \<le> (K + 1) * N" using True by (intro mult_le_mono1) simp
    then have "j * N + N \<le> (K + 1) * N" by simp
    then show ?thesis using True gj
      by (intro nth_equalityI) (auto simp: window_at_def simp del: add_mult_distrib mult_Suc)
  next
    case False
    then have "(K + 1) * N \<le> j * N" by (intro mult_le_mono1) simp
    then show ?thesis using False by (simp add: window_at_def)
  qed
  have "card (set (map g [0..<N])) \<le> 64"
  proof (cases "finite (range g)")
    case True
    have "card (set (map g [0..<N])) \<le> card (range g)" using True by (intro card_mono) auto
    then show ?thesis using few by simp
  next
    case False
    have "g i \<in> g ` {..<N}" if "N \<noteq> 0" for i
      using gj [of "i div N" "i mod N"] that by (metis div_mult_mod_eq imageI lessThan_iff mod_less_divisor neq0_conv)
    then have "range g \<subseteq> g ` {..<N}" if "N \<noteq> 0" using that by blast
    then have "finite (range g)" if "N \<noteq> 0" using that finite_subset by blast
    then show ?thesis using False by auto
  qed
  then show "same_mixture N K (map g [0..<(K + 1) * N])" unfolding same_mixture_def w by simp
qed

lemma alternating_counts:
  "count_list (map (\<lambda>i. ucast (bimodal_size i) :: u32) [0..<2 * m]) x = (if x = 32 \<or> x = 96 then m else 0)"
  by (induction m) (auto simp: bimodal_size_def)


text \<open>
  C36: The loop of \<open>bimodal\<close>, which alternates between 32 and 96 bytes at one site and frees each
  chunk at once, is compiled as \<open>PairedStack\<close> for 32 bytes alone and never as \<open>MultiSizeFreeList\<close>:
  the stack order is looked at before the sizes.
\<close>

theorem bimodal_compiles_paired:
  assumes "dispatch_init a dispatch_static = Inr (a', d)" and "cs \<noteq> 0"
    and "even (unat (g_window_size kn))" and "0 < g_window_size kn" and "0 < g_stable_windows kn"
    and "\<not> g_trace_only kn" and "strategy_override kn = Generic"
    and "n = (unat (g_stable_windows kn) + 1) * unat (g_window_size kn)" and "20 \<le> n" and "n < 2 ^ 32"
    and "\<And>h. answer h \<noteq> 0 \<and> \<not> is_managed (seg_of (answer h)) gs" and "wl_heap w = []"
    and "cg_next_index cg < 4096" and "le_page (le (cg_next_index cg)) \<noteq> 0"
  shows "\<exists>w' evs fr an code.
    for_each (\<lambda>i. plain (churn_iter (recorder cs fs tid answer) (bimodal_size i))) [0..<n] ((), w) = Inr ((), w') \<and>
    wl_heap w' = evs @ [fr] \<and> process_events kn le gs evs (analysis_start cg d) = Inr an \<and>
    get_phase cs (summaries an) = Compiled \<and> get_candidate_strategy cs (summaries an) = PairedStack \<and>
    dispatch_lookup cs (an_dispatch an) = le_page (le (cg_next_index cg)) \<and>
    emit_routine (le (cg_next_index cg)) \<lparr>rs_id = cs, rs_strategy = PairedStack, rs_size = 32,
      rs_class_sizes = [0, 0, 0, 0], rs_class_count = 0\<rparr> (cg_next_index cg) = Some code"
proof -
  let ?N = "unat (g_window_size kn)" and ?K = "unat (g_stable_windows kn)"
  let ?g = "\<lambda>i. ucast (bimodal_size i) :: u32"
  have b: "bimodal_size i \<noteq> 0 \<and> bimodal_size i < 4096" for i by (cases "even i") (simp_all add: bimodal_size_def mod2_eq_if)
  have pos: "0 < n" using assms(9) by simp
  from churn_loop_recorded [where f = bimodal_size and answer = answer and cs = cs and fs = fs and tid = tid, OF assms(11) b assms(12) pos]
  obtain w' evs ev fr where r: "for_each (\<lambda>i. plain (churn_iter (recorder cs fs tid answer) (bimodal_size i))) [0..<n] ((), w) = Inr ((), w')"
    "wl_heap w' = evs @ [ev, fr]" "nested gs cs fs [] (evs @ [ev])" "ev_size ev \<noteq> 0"
    "requested (evs @ [ev]) = map ?g [0..<n]" "length (stack_after [] (evs @ [ev])) = 1" by blast
  have per: "?g (i + ?N) = ?g i" for i using assms(3) by (auto simp: bimodal_size_def elim!: evenE)
  have "?g i \<in> {32, 96}" for i by (cases "even i") (simp_all add: bimodal_size_def mod2_eq_if)
  then have "range ?g \<subseteq> {32, 96}" by blast
  then have "card (range ?g) \<le> card {32, 96 :: u32}" by (intro card_mono) simp_all
  then have few: "card (range ?g) \<le> 64" by simp
  note m = periodic_mixture [OF per few, of ?K, folded assms(8)]
  have lz: "length (map ?g [0..<n]) = (?K + 1) * ?N" "length (map ?g [0..<n]) < 2 ^ 32"
    using assms(8,10) by simp_all
  have "20 * length (stack_after [] (evs @ [ev])) \<le> length (map ?g [0..<n])" using r(6) assms(9) by simp
  from stack_order_traffic [where le = le and cg = cg, OF assms(1) r(3,4) assms(2,4-7) r(5) [symmetric] lz m(2) this assms(13,14)]
  obtain an code z where an: "process_events kn le gs (evs @ [ev]) (analysis_start cg d) = Inr an"
    "get_phase cs (summaries an) = Compiled" "get_candidate_strategy cs (summaries an) = PairedStack"
    "dispatch_lookup cs (an_dispatch an) = le_page (le (cg_next_index cg))"
    "most_frequent (window_at ?N (map ?g [0..<n]) ?K) z"
    "emit_routine (le (cg_next_index cg)) \<lparr>rs_id = cs, rs_strategy = PairedStack, rs_size = z,
      rs_class_sizes = [0, 0, 0, 0], rs_class_count = 0\<rparr> (cg_next_index cg) = Some code" by blast
  obtain q where q: "?N = 2 * q" using assms(3) by (elim evenE)
  have "0 < q" using assms(4) q by (simp add: word_less_nat_alt)
  have "window_at ?N (map ?g [0..<n]) ?K = map ?g [0..<2 * q]" using m(1) [of ?K] q by simp
  then have mf: "most_frequent (map ?g [0..<2 * q]) z" using an(5) by simp
  have cnt: "count_list (map ?g [0..<2 * q]) x = (if x = 32 \<or> x = 96 then q else 0)" for x by (rule alternating_counts)
  have mem: "x \<in> set (map ?g [0..<2 * q]) \<longleftrightarrow> x = 32 \<or> x = 96" for x
    using cnt [of x] \<open>0 < q\<close> count_list_0_iff [of "map ?g [0..<2 * q]" x] by (metis less_irrefl)
  have "z = 32" using mf cnt mem [of z] mem [of 32] unfolding most_frequent_def by fastforce
  then show ?thesis using r(1,2) an(1-4,6)
    by (intro exI [of _ w'] exI [of _ "evs @ [ev]"] exI [of _ fr] exI [of _ an] exI [of _ code]) simp
qed

section \<open>Concrete traffic\<close>

definition paired_knobs :: knobs where
  "paired_knobs = demo_knobs\<lparr>g_window_size := 20\<rparr>"




lemma demo_segs_empty: "\<not> is_managed (seg_of 0x5000) demo_segs" "\<not> is_managed (seg_of 0x6000) demo_segs"
proof -
  have "seg_of 0x5000 = 0" "seg_of 0x6000 = 0" by code_simp+
  then show "\<not> is_managed (seg_of 0x5000) demo_segs" "\<not> is_managed (seg_of 0x6000) demo_segs"
    by (simp_all add: is_managed_def Let_def)
qed





theorem bimodal_compiles_paired_witness:
  "\<exists>w evs fr an. for_each (\<lambda>i. plain (churn_iter (recorder 7 9 1 (\<lambda>_. 0x5000)) (bimodal_size i))) [0..<40]
      ((), \<lparr>wl_heap = [], wl_bytes = (\<lambda>_. 0), wl_sink = 0, wl_clock = 0, wl_naps = [], wl_out = []\<rparr>) = Inr ((), w) \<and>
     wl_heap w = evs @ [fr] \<and>
     process_events paired_knobs (\<lambda>_. demo_link) demo_segs evs (analysis_start demo_cg (snd demo_table)) = Inr an \<and>
     get_candidate_strategy 7 (summaries an) = PairedStack"
  using bimodal_compiles_paired [OF demo_init_pair, of 7 paired_knobs 40 "\<lambda>_. 0x5000" demo_segs
      "\<lparr>wl_heap = [], wl_bytes = (\<lambda>_. 0), wl_sink = 0, wl_clock = 0, wl_naps = [], wl_out = []\<rparr>" demo_cg "\<lambda>_. demo_link" 9 1]
  by (auto simp: paired_knobs_def demo_knobs_def demo_cg_def demo_link_def demo_segs_empty simp del: upt.simps)

end
