(* ===== verification/Slot_Family.thy ===== *)
theory Slot_Family
  imports Chunk_Safety
begin

text \<open>
  Several free-list slots of one thread side by side: the classes of a multi-size site, or several
  sites.  An allocation from one of them, or a free into one, touches its own slot, its own
  segments and fresh memory, so every other slot of the thread keeps its invariant: the side
  condition \<open>others_only\<close> under which \<open>Chunk_Safety\<close> lets other slots work.
\<close>

section \<open>Slots that share nothing\<close>

text \<open>A slot is its index, and the class in a multi-size one.\<close>

definition slot_key :: "slot_config \<Rightarrow> u32 \<times> u32 option" where
  "slot_key cfg = (sc_index cfg, sc_class cfg)"

lemma class_byte_inj:
  assumes "k < MULTI_MAX_CLASSES" and "l < MULTI_MAX_CLASSES" and "(ucast k :: u8) = ucast l"
  shows "k = l"
proof -
  have "unat (ucast k :: u8) = unat k" "unat (ucast l :: u8) = unat l"
    using assms(1,2) by (simp_all add: MULTI_MAX_CLASSES_def unsigned_ucast_eq take_bit_nat_eq_self word_less_nat_alt)
  then show ?thesis using assms(3) by (metis word_unat_eq_iff)
qed

lemma own_segment_key:
  assumes "own_segment c h" and "own_segment d h" and "config_ok c" and "config_ok d"
  shows "slot_key c = slot_key d"
  using assms class_byte_inj
  by (auto simp: own_segment_def slot_key_def slot_strategy_def slot_class_def config_ok_def split: option.splits)

lemma slot_view_other:
  assumes "slot_key c \<noteq> slot_key d"
  shows "slot_view d (set_slot c slot st) = slot_view d st"
  using assms
  by (auto simp: slot_view_def set_slot_def slot_key_def Let_def word_unat_eq_iff [symmetric] split: option.split)

text \<open>
  The footprint of a slot's operation: its own slot, and a segment state that keeps every segment
  it does not own, with the header and the words inside.
\<close>

definition apart_step :: "slot_config \<Rightarrow> jit_state \<Rightarrow> jit_state \<Rightarrow> bool" where
  "apart_step c st st' \<longleftrightarrow>
     (\<exists>slot g. (st' = st\<lparr>sg := g\<rparr> \<or> st' = set_slot c slot (st\<lparr>sg := g\<rparr>)) \<and> seg_inv g \<and>
        (\<forall>s. seg_ok s \<longrightarrow> is_managed s (sg st) \<longrightarrow> \<not> own_segment c (headers (sg st) s) \<longrightarrow>
           is_managed s g \<and> headers g s = headers (sg st) s \<and> (\<forall>a. seg_of a = s \<longrightarrow> words g a = words (sg st) a)))"

lemma apart_others_only:
  assumes "apart_step c st st'" and "slot_key c \<noteq> slot_key d" and "config_ok c" and "config_ok d"
  shows "others_only d st st'"
proof -
  obtain slot g where st': "st' = st\<lparr>sg := g\<rparr> \<or> st' = set_slot c slot (st\<lparr>sg := g\<rparr>)" and g: "seg_inv g"
    and keep: "\<And>s. seg_ok s \<Longrightarrow> is_managed s (sg st) \<Longrightarrow> \<not> own_segment c (headers (sg st) s) \<Longrightarrow>
      is_managed s g \<and> headers g s = headers (sg st) s \<and> (\<forall>a. seg_of a = s \<longrightarrow> words g a = words (sg st) a)"
    using assms(1) unfolding apart_step_def by blast
  have sg: "sg st' = g" using st' by auto
  have view: "slot_view d st' = slot_view d st" using st' slot_view_other [OF assms(2)] by auto
  have other: "\<not> own_segment c (headers (sg st) s)" if "own_segment d (headers (sg st) s)" for s
    using own_segment_key [OF _ that assms(3,4)] assms(2) by blast
  have inside: "seg_of a = s" if "seg_ok s" "a \<in> chunks_of (sc_size d) s" for a s
    using chunk_bounds(4) [OF that] size_okD [OF config_okD [OF assms(4)]] by simp
  show ?thesis unfolding others_only_def sg view using g keep other inside by blast
qed

section \<open>Frees\<close>

lemma slot_inv_own:
  assumes "slot_inv c (st, live)" and "config_ok c" and "p \<in> live"
  shows "own_segment c (headers (sg st) (seg_of p)) \<and> p \<noteq> 0"
proof -
  obtain s where s: "seg_ok s" "own_segment c (headers (sg st) s)" "p \<in> chunks_of (sc_size c) s"
    using assms(1,3) by (fastforce simp: slot_inv_def slot_segs_def Let_def)
  moreover have "seg_of p = s" using chunk_bounds(4) [OF s(1,3)] size_okD [OF config_okD [OF assms(2)]] by simp
  ultimately show ?thesis using chunk_bounds(3) [OF s(1,3)] by simp
qed

lemma free_apart:
  assumes "seg_inv (sg st)" and "own_segment c (headers (sg st) (seg_of p))" and "config_ok c"
  shows "apart_step c st (free_managed env (seg_of p) p st)"
proof -
  let ?s = "seg_of p"
  let ?g = "if retired (headers (sg st) ?s) then dec_live ?s (sg st)
    else if owner_tid (headers (sg st) ?s) = os_tid env then set_word p (fs_head (slot_view c st)) (sg st)
    else mpsc_push ?s p (sg st)"
  have "free_managed env ?s p st = st\<lparr>sg := ?g\<rparr> \<or>
      free_managed env ?s p st = set_slot c ((slot_view c st)\<lparr>fs_head := p\<rparr>) (st\<lparr>sg := ?g\<rparr>)"
    using free_own [OF assms(2,3), of env p] by auto
  moreover have "pagemap ?g = pagemap (sg st)" "g_index ?g = g_index (sg st)"
    by (simp_all add: dec_live_def set_word_def mpsc_push_def upd_header_def Let_def)
  then have "seg_inv ?g" "is_managed s ?g = is_managed s (sg st)" for s
    using assms(1) seg_inv_cong is_managed_cong by blast+
  moreover have "headers ?g s = headers (sg st) s" "seg_of a = s \<Longrightarrow> words ?g a = words (sg st) a"
    if "\<not> own_segment c (headers (sg st) s)" for s a
    using that assms(2) by (auto simp: dec_live_def set_word_def mpsc_push_def upd_header_def Let_def)
  ultimately show ?thesis unfolding apart_step_def by blast
qed

section \<open>Allocations\<close>

lemma carve_frame:
  assumes "unat p + n * unat sz \<le> unat e" and "unat e < unat p + n * unat sz + unat sz"
    and "unat e + unat sz < 2 ^ 64" and "carve sz e p head ws = Some (head', ws')" and "a \<notin> set (chunk_list p sz n)"
  shows "ws' a = ws a"
  using assms
proof (induction n arbitrary: p head ws)
  case 0
  have "unat (p + sz) = unat p + unat sz" using 0 by (simp add: unat_word_ariths)
  then have "\<not> p + sz \<le> e" using 0 by (simp add: word_le_nat_alt)
  then show ?case using 0(4) by (subst (asm) carve.simps) simp
next
  case (Suc n)
  have u: "unat (p + sz) = unat p + unat sz"
    using Suc.prems(1,3) by (simp add: unat_word_ariths)
  then have "p + sz \<le> e" using Suc.prems(1) by (simp add: word_le_nat_alt)
  then have c: "carve sz e (p + sz) p (ws(p := head)) = Some (head', ws')"
    using Suc.prems(4) by (subst (asm) carve.simps) simp
  have "a \<noteq> p" "a \<notin> set (chunk_list (p + sz) sz n)" using Suc.prems(5) by (simp_all add: chunk_list_Suc)
  moreover have "unat (p + sz) + n * unat sz \<le> unat e" "unat e < unat (p + sz) + n * unat sz + unat sz"
    using Suc.prems(1,2) u by simp_all
  ultimately show ?case using Suc.IH [OF _ _ Suc.prems(3) c] by simp
qed

lemma carve_segment_frame:
  assumes "seg_ok s" and "size_ok sz" and "carve (ucast sz) (segment_end s) (payload_start s) 0 ws = Some (head, ws')"
    and "seg_of a \<noteq> s"
  shows "ws' a = ws a"
proof -
  let ?n = "0x1FFFC0 div unat sz"
  have q: "0 < unat sz" "unat sz \<le> 0x1FFFC0" using size_okD [OF assms(2)] by simp_all
  have u: "unat (ucast sz :: u64) = unat sz" by (simp add: unat_ucast_up)
  have le: "?n * unat sz \<le> 0x1FFFC0" by (rule div_times_less_eq_dividend)
  have gt: "0x1FFFC0 < ?n * unat sz + unat sz"
    using q dividend_less_div_times [of "unat sz" "0x1FFFC0"] by (simp add: add.commute)
  have b: "unat s < 2 ^ 48" using assms(1) by (simp add: seg_ok_def)
  have "a \<notin> chunks_of sz s" using chunk_bounds(4) [OF assms(1)] q(1) assms(4) by blast
  then show ?thesis
    by (intro carve_frame [OF _ _ _ assms(3), of ?n])
      (use le gt b q in \<open>simp_all add: u unat_payload [OF assms(1)] chunks_of_def\<close>)
qed

lemma alloc_segment_words: "alloc_segment env strat index site sz g = (r, g') \<Longrightarrow> words g' = words g"
  by (auto simp: alloc_segment_def register_segment_def upd_header_def log_call_def Let_def split: prod.splits option.splits)

lemma refill_class_words:
  assumes "refill_class strat cls env index site sz active g = Some (chunk, head, s, g')"
    and "active = 0 \<or> remote_head (headers g active) = 0" and "seg_ok s" and "size_ok sz" and "seg_of a \<noteq> s"
  shows "words g' a = words g a"
proof -
  define g1 where "g1 = (if active \<noteq> 0 then retire_full active (snd (mpsc_harvest active g)) else g)"
  have w1: "words g1 = words g" by (simp add: g1_def retire_full_def mpsc_harvest_def upd_header_def)
  obtain r g2 where al: "alloc_segment env strat index site sz g1 = (r, g2)" by fastforce
  have "fst (mpsc_harvest active g) = 0 \<or> active = 0" using assms(2) by (auto simp: mpsc_harvest_def)
  then obtain ws where r: "r = Some s"
    and c: "carve (ucast sz) (segment_end s) (payload_start s) 0 (words g2) = Some (chunk, ws)" and g': "words g' = ws"
    using assms(1) al
    by (auto simp: refill_class_def g1_def mpsc_harvest_def upd_header_def Let_def split: option.splits if_splits)
  show ?thesis
    using carve_segment_frame [OF assms(3,4) c assms(5)] alloc_segment_words [OF al] w1 g' by simp
qed

lemma refill_class_apart:
  assumes inv: "seg_inv (sg st)" and segs: "slot_segs c st live segs" and ok: "config_ok c"
    and fresh: "mmap_fresh env (sg st)" and a: "a = fs_segs (slot_view c st)"
    and empty: "a = 0 \<or> remote_head (headers (sg st) a) = 0"
    and r: "refill_class (slot_strategy c) (slot_class c) env (sc_index c) site (sc_size c) a (sg st) = Some (p, head, s, g)"
  shows "seg_inv g \<and> (\<forall>t. seg_ok t \<longrightarrow> is_managed t (sg st) \<longrightarrow> \<not> own_segment c (headers (sg st) t) \<longrightarrow>
    is_managed t g \<and> headers g t = headers (sg st) t \<and> (\<forall>b. seg_of b = t \<longrightarrow> words g b = words (sg st) b))"
proof -
  note sz = config_okD [OF ok]
  obtain lo where lo: "os_mmap env = Some lo" "unat lo + 0x400000 \<le> 2 ^ 47" "lo \<noteq> 0"
    and idx: "\<forall>b \<in> set (g_index (sg st)). \<not> (unat lo \<le> unat b \<and> unat b < unat lo + 0x400000)"
    and aout: "a = 0 \<or> \<not> (unat lo \<le> unat a \<and> unat a < unat lo + 0x400000)"
    unfolding a by (rule fresh_range [OF inv segs fresh])
  have s: "seg_ok s" "seg_inv g" "unat lo \<le> unat s" "unat s < unat lo + 0x400000"
    and ho: "\<And>b. b \<noteq> s \<Longrightarrow> b \<noteq> a \<Longrightarrow> headers g b = headers (sg st) b"
    and man: "\<And>b. seg_ok b \<Longrightarrow> b \<noteq> s \<Longrightarrow> is_managed b g = is_managed b (sg st)"
    using refill_class_carves [OF inv lo idx, of "sc_size c" a "slot_strategy c" "slot_class c" "sc_index c" site]
      size_okD [OF sz] r aout empty by auto
  have own: "own_segment c (headers (sg st) a)" if "a \<noteq> 0" using segs a that by (auto simp: slot_segs_def Let_def)
  have new: "t \<noteq> s" if "seg_ok t" "is_managed t (sg st)" for t
  proof -
    have "{unat t ..< unat t + 0x200000} \<inter> {unat lo ..< unat lo + 0x400000} = {}"
      using fresh that lo(1) unfolding mmap_fresh_def by auto
    moreover have "unat s \<in> {unat s ..< unat s + 0x200000} \<inter> {unat lo ..< unat lo + 0x400000}" using s(3,4) by simp
    ultimately show ?thesis by auto
  qed
  have "a \<noteq> t" if "seg_ok t" "\<not> own_segment c (headers (sg st) t)" for t
    using own that by (auto simp: seg_ok_def)
  then show ?thesis using s(2) ho man new refill_class_words [OF r empty s(1) sz] by metis
qed

lemma slot_alloc_apart:
  assumes inv: "slot_inv c (st, live)" and ok: "config_ok c" and sound: "mmap_sound env (sg st)"
    and al: "slot_alloc env c st = Some (p, st')"
  shows "apart_step c st st'"
proof (cases "fs_head (slot_view c st) = 0")
  case False
  have "seg_inv (sg st)" using inv by (auto simp: slot_inv_def)
  moreover have "st' = set_slot c ((slot_view c st)\<lparr>fs_head := words (sg st) p\<rparr>) (st\<lparr>sg := sg st\<rparr>)"
    using al slot_alloc_pop [OF refl False, of env] by auto
  ultimately show ?thesis unfolding apart_step_def by blast
next
  case True
  let ?a = "fs_segs (slot_view c st)"
  obtain segs where i: "seg_inv (sg st)" "slot_segs c st live segs" using inv by (auto simp: slot_inv_def)
  obtain head s g where r: "refill_class (slot_strategy c) (slot_class c) env (sc_index c) (g_slot_to_site st (sc_index c))
      (sc_size c) ?a (sg st) = Some (p, head, s, g)"
    and st': "st' = set_slot c \<lparr>fs_head = head, fs_segs = s\<rparr> (st\<lparr>sg := g\<rparr>)"
    using al slot_alloc_refill [OF ok True] by auto
  show ?thesis
  proof (cases "?a = 0 \<or> remote_head (headers (sg st) ?a) = 0")
    case empty: True
    have "os_mmap env \<noteq> None"
    proof
      assume none: "os_mmap env = None"
      show False using r empty
        by (auto simp: refill_class_def mpsc_harvest_def alloc_segment_refused [OF none] Let_def split: if_splits)
    qed
    with sound have "mmap_fresh env (sg st)" unfolding mmap_sound_def by blast
    from refill_class_apart [OF i ok this refl empty r] show ?thesis
      unfolding apart_step_def st' by blast
  next
    case False
    then have g: "g = upd_header ?a (\<lambda>h. h\<lparr>remote_head := 0\<rparr>) (sg st)"
      using r by (auto simp: refill_class_def mpsc_harvest_def Let_def)
    have own: "own_segment c (headers (sg st) ?a)" using i(2) False by (auto simp: slot_segs_def Let_def)
    have "seg_inv g" "\<And>t. is_managed t g = is_managed t (sg st)"
      using i(1) seg_inv_cong [of g "sg st"] is_managed_cong [of g "sg st"] by (simp_all add: g upd_header_def)
    moreover have "headers g t = headers (sg st) t" "words g b = words (sg st) b"
      if "\<not> own_segment c (headers (sg st) t)" for t b
      using that own by (auto simp: g upd_header_def)
    ultimately show ?thesis unfolding apart_step_def st' by metis
  qed
qed

section \<open>A family of slots\<close>

definition family_ok :: "u32 \<Rightarrow> slot_config list \<Rightarrow> bool" where
  "family_ok tid cfgs \<longleftrightarrow> distinct (map slot_key cfgs) \<and> (\<forall>c \<in> set cfgs. config_ok c \<and> sc_tid c = tid)"

text \<open>Each slot keeps its invariant for its own share of the chunks the program holds.\<close>

definition family_inv :: "slot_config list \<Rightarrow> jit_state \<times> addr set \<Rightarrow> bool" where
  "family_inv cfgs s \<longleftrightarrow> (case s of (st, live) \<Rightarrow>
     seg_inv (sg st) \<and> (\<exists>share. live = (\<Union>c \<in> set cfgs. share c) \<and> (\<forall>c \<in> set cfgs. slot_inv c (st, share c))))"

lemma family_keys:
  "family_ok tid cfgs \<Longrightarrow> c \<in> set cfgs \<Longrightarrow> d \<in> set cfgs \<Longrightarrow> c \<noteq> d \<Longrightarrow> slot_key c \<noteq> slot_key d"
  by (auto simp: family_ok_def distinct_map inj_on_def)

lemma shares_disjoint:
  assumes "family_ok tid cfgs" and "c \<in> set cfgs" and "d \<in> set cfgs" and "c \<noteq> d"
    and "slot_inv c (st, lc)" and "slot_inv d (st, ld)"
  shows "lc \<inter> ld = {}"
proof -
  have "slot_key c = slot_key d" if "p \<in> lc" "p \<in> ld" for p
    using own_segment_key slot_inv_own [OF assms(5) _ that(1)] slot_inv_own [OF assms(6) _ that(2)] assms(1-3)
    unfolding family_ok_def by blast
  then show ?thesis using family_keys [OF assms(1-4)] by blast
qed

text \<open>An operation of one slot on its share carries over to the family.\<close>

lemma family_update:
  assumes ok: "family_ok tid cfgs" and c: "c \<in> set cfgs" and apart: "apart_step c st st'"
    and sh: "\<forall>d \<in> set cfgs. slot_inv d (st, share d)" and new: "slot_inv c (st', lc)"
  shows "family_inv cfgs (st', (\<Union>d \<in> set cfgs - {c}. share d) \<union> lc)"
proof -
  have cfg: "config_ok d" if "d \<in> set cfgs" for d using ok that by (simp add: family_ok_def)
  have "slot_inv d (st', share d)" if d: "d \<in> set cfgs" "d \<noteq> c" for d
  proof (rule slot_inv_elsewhere)
    show "slot_inv d (st, share d)" using sh d by blast
    show "others_only d st st'"
      using apart_others_only [OF apart _ cfg [OF c] cfg [OF d(1)]] family_keys [OF ok c d(1)] d(2) by blast
  qed
  then have all: "\<forall>d \<in> set cfgs. slot_inv d (st', (share(c := lc)) d)" using new by simp
  have "(\<Union>d \<in> set cfgs. (share(c := lc)) d) = (\<Union>d \<in> set cfgs - {c}. share d) \<union> lc" using c by auto
  moreover have "seg_inv (sg st')" using new by (simp add: slot_inv_def)
  ultimately show ?thesis using all unfolding family_inv_def prod.case by metis
qed

lemma family_alloc:
  assumes ok: "family_ok tid cfgs" and inv: "family_inv cfgs (st, live)" and c: "c \<in> set cfgs"
    and sound: "mmap_sound env (sg st)" and tid: "os_tid env = tid" and al: "slot_alloc env c st = Some (p, st')"
  shows "family_inv cfgs (st', insert p live)" and "p \<notin> live" and "p \<noteq> 0"
proof -
  obtain share where sh: "live = (\<Union>d \<in> set cfgs. share d)" "\<forall>d \<in> set cfgs. slot_inv d (st, share d)"
    using inv by (auto simp: family_inv_def)
  have cfg: "config_ok c" "os_tid env = sc_tid c" using ok c tid by (simp_all add: family_ok_def)
  have si: "slot_inv c (st, share c)" using sh(2) c by blast
  have a: "slot_inv c (st', insert p (share c))" "p \<notin> share c"
    using slot_inv_allocate [OF si cfg(1) sound cfg(2) al] by simp_all
  note up = family_update [OF ok c slot_alloc_apart [OF si cfg(1) sound al] sh(2) a(1)]
  have "live = (\<Union>d \<in> set cfgs - {c}. share d) \<union> share c" using sh(1) c by blast
  then show inv': "family_inv cfgs (st', insert p live)" using up by (simp add: Un_insert_right)
  show "p \<noteq> 0" using slot_inv_own [OF a(1) cfg(1)] by blast
  have "p \<notin> share d" if d: "d \<in> set cfgs" "d \<noteq> c" for d
  proof -
    have "config_ok d" using ok d by (simp add: family_ok_def)
    then have "slot_inv d (st', share d)"
      using slot_inv_elsewhere sh(2) d apart_others_only [OF slot_alloc_apart [OF si cfg(1) sound al] _ cfg(1)]
        family_keys [OF ok c d(1)] by metis
    then show ?thesis using shares_disjoint [OF ok d(1) c d(2) _ a(1)] by blast
  qed
  then show "p \<notin> live" using sh(1) a(2) by auto
qed

lemma family_free:
  assumes ok: "family_ok tid cfgs" and inv: "family_inv cfgs (st, live)" and p: "p \<in> live"
  shows "family_inv cfgs (free_managed env (seg_of p) p st, live - {p})"
proof -
  obtain share where sh: "live = (\<Union>d \<in> set cfgs. share d)" "\<forall>d \<in> set cfgs. slot_inv d (st, share d)"
    and si: "seg_inv (sg st)" using inv by (auto simp: family_inv_def)
  obtain c where c: "c \<in> set cfgs" "p \<in> share c" using sh(1) p by blast
  have cfg: "config_ok c" and ic: "slot_inv c (st, share c)" using ok c sh(2) by (auto simp: family_ok_def)
  have apart: "apart_step c st (free_managed env (seg_of p) p st)"
    using free_apart [OF si _ cfg] slot_inv_own [OF ic cfg c(2)] by blast
  have others: "p \<notin> share d" if "d \<in> set cfgs" "d \<noteq> c" for d
    using shares_disjoint [OF ok that(1) c(1) that(2) _ ic] sh(2) that c(2) by blast
  then have "live - {p} = (\<Union>d \<in> set cfgs - {c}. share d) \<union> (share c - {p})"
    using sh(1) c by blast
  then show ?thesis
    using family_update [OF ok c(1) apart sh(2) slot_inv_deallocate [OF ic cfg c(2)]] by simp
qed

lemma family_start:
  "seg_inv (sg st) \<Longrightarrow> \<forall>c \<in> set cfgs. slot_fresh c st \<Longrightarrow> family_inv cfgs (st, {})"
  unfolding family_inv_def prod.case
  by (intro conjI exI [of _ "\<lambda>_. {}"]) (simp_all add: slot_inv_start)

end
