(* ===== verification/Workload_Slot.thy ===== *)
theory Workload_Slot
  imports Slot_Family Workload
begin

text \<open>
  The benchmark programs on chunks the library serves: a thread's free-list slots, one per requested
  size - a \<open>ThreadLocalFreeList\<close> site, the classes of a \<open>MultiSizeFreeList\<close> site, or several of
  them - keep the contract of an allocator, whatever sizes the program asks for.
\<close>

section \<open>Slots as an allocator\<close>

text \<open>An operating system that maps the first range of 4 MiB without a registered segment.\<close>

definition first_fit :: "os_env \<Rightarrow> seg_state \<Rightarrow> os_env" where
  "first_fit env g =
     env\<lparr>os_mmap := find (\<lambda>lo. \<not> is_managed lo g \<and> \<not> is_managed (lo + 0x200000) g)
       (map (\<lambda>k. of_nat (k * 0x400000)) [1..<0x10000])\<rparr>"

text \<open>
  The heap is the library's state with the chunks the program holds.  A request goes to the slot
  compiled for its size, as the emitted code compares the size with its classes; a size no slot was
  compiled for fails the guards and is not served here.  The refill asserts that a segment was
  mapped; that end of the process counts as a refusal.
\<close>

definition site_allocator :: "os_env \<Rightarrow> slot_config list \<Rightarrow> (jit_state \<times> addr set) allocator" where
  "site_allocator env cfgs =
     \<lparr>am_malloc = (\<lambda>n (st, live).
        case find (\<lambda>c. ucast (sc_size c) = n) cfgs of
          None \<Rightarrow> (0, (st, live))
        | Some cfg \<Rightarrow>
            (case slot_alloc (first_fit env (sg st)) cfg st of
               None \<Rightarrow> (0, (st, live))
             | Some (c, st') \<Rightarrow> (c, (st', insert c live)))),
      am_free = (\<lambda>p (st, live). (free_managed env (seg_of p) p st, live - {p}))\<rparr>"

definition served_sizes :: "slot_config list \<Rightarrow> u64 set" where
  "served_sizes cfgs = (\<lambda>c. ucast (sc_size c)) ` set cfgs"

definition site_ok :: "os_env \<Rightarrow> slot_config list \<Rightarrow> jit_state \<times> addr set \<Rightarrow> bool" where
  "site_ok env cfgs s \<longleftrightarrow> family_ok (os_tid env) cfgs \<and> family_inv cfgs s"

lemma segment_starts:
  assumes "seg_ok a" and "unat lo = k * 0x400000" and "unat lo < unat a + 0x200000" and "unat a < unat lo + 0x400000"
  shows "a = lo \<or> unat a = unat lo + 0x200000"
proof -
  obtain j where j: "unat a = j * 0x200000" using assms(1) by (auto simp: seg_ok_def seg_aligned_def)
  then have "j * 0x200000 < (2 * k + 2) * 0x200000" and "2 * k * 0x200000 < Suc j * 0x200000"
    using assms(2-4) by simp_all
  then have "j < 2 * k + 2" and "2 * k < Suc j" by (simp_all only: mult_less_cancel2)
  then have "j = 2 * k \<or> j = Suc (2 * k)" by arith
  then show ?thesis using j assms(2) by (auto simp: word_unat_eq_iff)
qed

lemma find_SomeD: "find P xs = Some x \<Longrightarrow> x \<in> set xs \<and> P x"
  by (induction xs) (auto split: if_splits)

lemma first_fit_sound: "mmap_sound (first_fit env g) g"
proof (cases "os_mmap (first_fit env g)")
  case None
  then show ?thesis by (simp add: mmap_sound_def)
next
  case (Some lo)
  then have "find (\<lambda>lo. \<not> is_managed lo g \<and> \<not> is_managed (lo + 0x200000) g)
      (map (\<lambda>k. of_nat (k * 0x400000)) [1..<0x10000]) = Some lo"
    by (simp add: first_fit_def del: upt.simps)
  from find_SomeD [OF this] have "lo \<in> (\<lambda>k. of_nat (k * 0x400000)) ` {1..<0x10000}"
    and free: "\<not> is_managed lo g" "\<not> is_managed (lo + 0x200000) g" by (simp_all only: set_map set_upt simp_thms)
  then obtain k where k: "1 \<le> k" "k < 0x10000" "lo = of_nat (k * 0x400000)" by (auto simp only: atLeastLessThan_iff)
  have "k * 0x400000 < 2 ^ LENGTH(64)" using k(2) by simp
  then have u: "unat lo = k * 0x400000" unfolding k(3) by (simp only: unat_of_nat mod_less)
  have "{unat a ..< unat a + 0x200000} \<inter> {unat lo ..< unat lo + 0x400000} = {}" if a: "seg_ok a" "is_managed a g" for a
  proof (rule ccontr)
    assume "\<not> ?thesis"
    then have o: "unat lo < unat a + 0x200000" "unat a < unat lo + 0x400000" by auto
    have "a \<noteq> lo" using a free by auto
    then have "unat a = unat lo + 0x200000" using segment_starts [OF a(1) u o] by simp
    also have "\<dots> = unat (lo + 0x200000)" using u k(2) by (subst unat_plus_no_wrap) simp_all
    finally have "a = lo + 0x200000" by (simp add: word_unat_eq_iff)
    then show False using a free by simp
  qed
  then have "mmap_fresh (first_fit env g) g"
    unfolding mmap_fresh_def using Some u k(1,2) by (intro exI [of _ lo]) auto
  then show ?thesis by (rule mmap_fresh_sound)
qed

text \<open>No range of 4 MiB is left without a registered segment.\<close>

definition memory_full :: "seg_state \<Rightarrow> bool" where
  "memory_full g \<longleftrightarrow> (\<forall>k \<in> {1..<0x10000}.
     is_managed (of_nat (k * 0x400000)) g \<or> is_managed (of_nat (k * 0x400000) + 0x200000) g)"

lemma first_fit_full: "os_mmap (first_fit env g) = None \<Longrightarrow> memory_full g"
  by (simp add: first_fit_def memory_full_def find_None_iff del: upt.simps)

lemma family_alloc_refused:
  assumes "family_ok tid cfgs" and "family_inv cfgs (st, live)" and "c \<in> set cfgs"
    and "slot_alloc (first_fit env (sg st)) c st = None"
  shows "memory_full (sg st)"
proof -
  obtain l where "slot_inv c (st, l)" "config_ok c" using assms(1-3) by (auto simp: family_ok_def family_inv_def)
  then have "\<not> mmap_fresh (first_fit env (sg st)) (sg st)" using slot_alloc_succeeds assms(4) by fastforce
  then show ?thesis using first_fit_sound first_fit_full unfolding mmap_sound_def by blast
qed

interpretation site_heap: heap_contract "site_allocator env cfgs" "served_sizes cfgs" "site_ok env cfgs" snd
    "\<lambda>h. memory_full (sg (fst h))" for env cfgs
proof (unfold_locales, goal_cases)
  case (1 h n p h')
  obtain st live where h: "h = (st, live)" by (cases h)
  have ok: "family_ok (os_tid env) cfgs" "family_inv cfgs (st, live)" using 1(1) by (simp_all add: site_ok_def h)
  obtain cfg where f: "find (\<lambda>c. ucast (sc_size c) = n) cfgs = Some cfg"
    using 1(2) by (cases "find (\<lambda>c. ucast (sc_size c) = n) cfgs") (auto simp: served_sizes_def find_None_iff)
  have c: "cfg \<in> set cfgs" using find_SomeD [OF f] by blast
  show ?case
  proof (cases "slot_alloc (first_fit env (sg st)) cfg st")
    case None
    then show ?thesis using 1(1,3) f family_alloc_refused [OF ok c None] by (auto simp: site_allocator_def h)
  next
    case (Some r)
    then obtain q st' where r: "slot_alloc (first_fit env (sg st)) cfg st = Some (q, st')"
      by (cases r) simp
    have "os_tid (first_fit env (sg st)) = os_tid env" by (simp add: first_fit_def)
    note a = family_alloc [OF ok c first_fit_sound this r]
    show ?thesis using 1(3) ok(1) a r f by (auto simp: site_allocator_def site_ok_def h)
  qed
next
  case (2 h p)
  obtain st live where h: "h = (st, live)" by (cases h)
  show ?case using 2 family_free [of "os_tid env" cfgs st live p env]
    by (simp add: site_allocator_def site_ok_def h)
qed

text \<open>The contract carries the programs.\<close>

lemma contract_balances_heap:
  assumes "heap_contract al sizes ok live may_refuse" and "request_sizes prog \<subseteq> sizes"
    and "ok (wl_heap w)" and "live (wl_heap w) = {}" and "length scratch = scratch_length prog"
    and "run_program prog al clock scratch w = (r, w')"
  shows "ok (wl_heap w') \<and>
    (if r = Exit 0
     then live (wl_heap w') = {} \<and> wl_sink w' = wl_sink w + sink_total prog \<and>
       map bl_label (wl_out w') = map bl_label (wl_out w) @ [''warmup:'', ''steady:'']
     else may_refuse (wl_heap w') \<and> r = on_refusal prog)"
proof -
  note c = assms(1)
  have "heap_contract.holds ok live w {} 0 w" using assms(3,4) by (simp add: heap_contract.holds_def [OF c])
  from heap_contract.run_program_completes [OF c this assms(2,5), of clock] show ?thesis
    by (auto simp: assms(6) heap_contract.completes_def [OF c] heap_contract.printed_def [OF c]
        heap_contract.refused_def [OF c] on_refusal_def)
qed

text \<open>
  C35: On the free-list slots of a thread, fresh at the start and compiled for all sizes the program
  asks for - single sizes, classes of a multi-size site, or both - each of the seven benchmark
  programs ends with code 0 after freeing exactly the chunks it was given, its sink grown by the
  pattern bytes it read and its two lines printed, unless no memory for a segment was left, that is,
  every range of the address space has a registered segment: a program stops at that request, with
  code 1 where it tests the pointer, while \<open>lifo\<close> reads through it.  Either way the slots keep their
  invariants.
\<close>

theorem workload_balances_heap:
  assumes "family_ok (os_tid env) cfgs" and "seg_inv (sg st)" and "\<forall>c \<in> set cfgs. slot_fresh c st"
    and "request_sizes prog \<subseteq> served_sizes cfgs" and "wl_heap w = (st, {})" and "length scratch = scratch_length prog"
    and "run_program prog (site_allocator env cfgs) clock scratch w = (r, w')"
  shows "family_inv cfgs (wl_heap w') \<and>
    (if r = Exit 0
     then snd (wl_heap w') = {} \<and> wl_sink w' = wl_sink w + sink_total prog \<and>
       map bl_label (wl_out w') = map bl_label (wl_out w) @ [''warmup:'', ''steady:'']
     else r = on_refusal prog \<and> memory_full (sg (fst (wl_heap w'))))"
proof -
  have "site_ok env cfgs (wl_heap w)"
    using family_start [OF assms(2,3)] assms(1,5) by (simp add: site_ok_def)
  from contract_balances_heap [OF site_heap.heap_contract_axioms assms(4) this _ assms(6,7)] assms(5)
  show ?thesis by (auto simp: site_ok_def)
qed

text \<open>
  A site with one size and a site with four classes, whose sizes are all that the programs ask for;
  and the static states before their first allocation.
\<close>

definition demo_class :: "u32 \<Rightarrow> u32 \<Rightarrow> slot_config" where
  "demo_class k sz = \<lparr>sc_index = 5, sc_size = sz, sc_tid = 1, sc_class = Some k\<rparr>"

definition demo_sites :: "slot_config list" where
  "demo_sites = [demo_slot, demo_class 0 32, demo_class 1 64, demo_class 2 96, demo_class 3 128]"

lemma demo_sites_ok: "family_ok (os_tid demo_env) demo_sites" "\<forall>c \<in> set demo_sites. slot_fresh c demo_jit"
  "served_sizes demo_sites = {48, 32, 64, 96, 128}"
  using demo_jit_inv(1)
  by (simp_all add: demo_sites_def demo_class_def demo_slot_def demo_env_def family_ok_def slot_key_def config_ok_def
      size_ok_def MULTI_MAX_CLASSES_def served_sizes_def slot_fresh_def slot_view_def)
    (simp_all add: demo_jit_def Let_def)

definition demo_workload :: "(jit_state \<times> addr set) workload" where
  "demo_workload =
     \<lparr>wl_heap = (demo_jit, {}), wl_bytes = (\<lambda>_. 0), wl_sink = 0, wl_clock = 0, wl_naps = [], wl_out = []\<rparr>"

theorem workload_balances_heap_witness:
  "\<forall>prog. \<exists>r w. run_program prog (site_allocator demo_env demo_sites) (\<lambda>n. \<lparr>tv_sec = 0, tv_nsec = int n\<rparr>)
      (replicate (scratch_length prog) 7) demo_workload = (r, w) \<and>
     (if r = Exit 0 then snd (wl_heap w) = {} \<and> wl_sink w = sink_total prog else r = on_refusal prog \<and> memory_full (sg (fst (wl_heap w))))"
proof
  fix prog
  obtain r w where e: "run_program prog (site_allocator demo_env demo_sites) (\<lambda>n. \<lparr>tv_sec = 0, tv_nsec = int n\<rparr>)
      (replicate (scratch_length prog) 7) demo_workload = (r, w)" by fastforce
  have "request_sizes prog \<subseteq> served_sizes demo_sites" unfolding demo_sites_ok(3) by (cases prog) simp_all
  from workload_balances_heap [OF demo_sites_ok(1) demo_jit_inv(1) demo_sites_ok(2) this _ _ e]
  show "\<exists>r w. run_program prog (site_allocator demo_env demo_sites) (\<lambda>n. \<lparr>tv_sec = 0, tv_nsec = int n\<rparr>)
      (replicate (scratch_length prog) 7) demo_workload = (r, w) \<and>
     (if r = Exit 0 then snd (wl_heap w) = {} \<and> wl_sink w = sink_total prog else r = on_refusal prog \<and> memory_full (sg (fst (wl_heap w))))"
    using e by (auto simp: demo_workload_def split: if_splits)
qed

end
