(* ===== verification/Spec2Isabelle.thy ===== *)
theory Spec2Isabelle
  imports Background Bench_Main Bench_Profile Bump_Safety Chunk_Safety Codegen Convergence Dispatch Emitter
    Event_Stamp Histogram Internal_Arena Lifetime_Probe Micro_Bench Parking Remote_Free Report Ring_Bench Safe_Point
    Segment Slot_Code Slow_Init System Trace Workload_Pick Workload_Slot
begin

text \<open>
  Verification of tbjit-alloc, a preloaded allocator that watches its own call sites and compiles
  x86-64 routines for the predictable ones at run time.

  \<^bold>\<open>The program.\<close>  The library interposes \<open>malloc\<close>, \<open>free\<close> and \<open>realloc\<close> (\<open>src/src/trace/trampoline.cpp\<close>).
  A call site is a hash of the return address (\<open>common.h\<close>).  \<open>malloc\<close> asks the dispatch table
  (\<open>dispatch/\<close>) for a routine of its site, through an inline cache per thread; without one it calls
  libc and records an event in the thread's ring (\<open>trace/\<close>).  The background thread (\<open>analysis/\<close>) drains
  the rings, keeps a summary per site with windows of size histograms, and compiles a site whose
  windows are stable by a Kolmogorov-Smirnov test: it picks a strategy, \<open>codegen/\<close> emits a page of code
  for a slot of thread-local words, and the page is installed.  The routines serve chunks of 2 MiB
  segments (\<open>seg/\<close>); when a slot is empty they call the slow paths of \<open>codegen/slow_init.cpp\<close>.  A
  routine whose guard fails calls \<open>deopt::handle\<close> (\<open>deopt/\<close>), which reverts the site and queues the
  page; the page is unmapped once every registered thread has passed a safe point.  \<open>free\<close> finds the
  segment of a pointer through the pagemap and gives the chunk back to its slot, directly, by
  a multi-producer queue, or by counting down a retired segment, which the reaper unmaps at zero.
  The tools replay recorded traces, and the programs under \<open>bench\<close> exercise one traffic pattern each.

  \<^bold>\<open>Theories and sources.\<close>
  \<^item> \<open>Prelude\<close>, \<open>Double\<close>: words of fixed width, search loops, alignment; binary64 arithmetic as
    rationals rounded to 53 bits, with a correctly rounded square root.
  \<^item> \<open>Bounded_Queue\<close>, \<open>Open_Addressing\<close>, \<open>Registry\<close>: the interfaces, as locales.  The trace ring and
    the deopt queue are bounded queues, the dispatch table and the shadow table are probed tables
    (the shadow table one that erases), the pagemap is a registry.  Each is interpreted on the
    model's own operations in the theory that defines them.  \<open>X86\<close> has the contract of a called
    function as a further locale, \<open>sysv_callee\<close>.
  \<^item> \<open>Common\<close>: \<open>common.h\<close>.  \<open>Internal_Arena\<close>: \<open>alloc/alloc.cpp\<close>.  \<open>Trace\<close>: \<open>trace/trace.cpp\<close>, the ring as an
    object and, access by access, between one producer and one consumer;
    \<open>Event_Stamp\<close>: the stamps of an event.
  \<^item> \<open>Dispatch\<close>: \<open>dispatch/dispatch.cpp\<close>.  \<open>Segment\<close>: \<open>seg/segment.cpp\<close>; a segment is its base address,
    the headers and the first word of each chunk are stores.  \<open>Remote_Free\<close>: the lock-free queue
    under any interleaving of pushers.
  \<^item> \<open>Slow_Init\<close>: \<open>codegen/tls.cpp\<close> and \<open>codegen/slow_init.cpp\<close>.  \<open>X86\<close>: encodings, a decoder and the effect of the
    instructions that occur.  \<open>Emitter\<close>: the writers of \<open>codegen/emitter.cpp\<close>, byte by byte, and what
    the bytes do.  \<open>Codegen\<close>: \<open>codegen/codegen.cpp\<close>.  \<open>Chunk_Safety\<close>, \<open>Bump_Safety\<close>: a slot over its
    whole life, of a free list or one class of a multi-size list, and of BumpAlloc or PairedStack;
    \<open>Slot_Code\<close>: the machine code at work on a free list.
  \<^item> \<open>Histogram\<close>: \<open>analysis/histogram.h\<close>, \<open>ks_test.h\<close>.  \<open>Analysis\<close>: \<open>analysis/analysis.cpp\<close> up to the queries;
    \<open>Picker\<close>, \<open>Convergence\<close>: its invariants and its way to compiled code.
  \<^item> \<open>Reclaim\<close>: \<open>deopt/deopt.cpp\<close> call by call; \<open>Safe_Point\<close>: the same protocol access by access, with
    threads inside the pages.
  \<^item> \<open>Shadow\<close>: \<open>shadow/shadow.cpp\<close>.  \<open>Trampoline\<close>: \<open>trace/trampoline.cpp\<close> for one thread; a called
    routine is an argument with three outcomes (a chunk, a failed guard, a failed assertion), and
    what its deopt tail does, \<open>deopt::handle\<close> and a call of libc, is part of the model.
    \<open>Trace_File\<close>: \<open>trace/writer.cpp\<close>, \<open>tools/replay.cpp\<close>.  \<open>Background\<close>: \<open>drain_all\<close> and \<open>background_loop\<close>.
    \<open>Parking\<close>: \<open>analysis/futex.h\<close> and how the background thread sleeps, access by access.
    \<open>System\<close>: constructor, destructor, all threads and the background thread together.
  \<^item> \<open>Dump\<close>, \<open>Report\<close>: \<open>analysis/dump.cpp\<close>, figures and text, and the destructor's report.  \<open>Bench_Replay\<close>, \<open>Bench_Main\<close>:
    \<open>tools/bound_bench.cpp\<close>; \<open>Bench_Profile\<close>: its profiled pass and readings; \<open>Scan\<close>: the conversion
    of \<open>fscanf\<close> that the tools use.
  \<^item> \<open>Workload\<close>: seven programs of \<open>bench/\<close> over any allocator that keeps a contract, a locale.
    \<open>Slot_Family\<close> puts several free-list slots of a thread side by side, one per size, be they single
    sizes or classes of a multi-size site; \<open>Workload_Slot\<close> interprets the contract on the allocator
    that looks up the slot of a requested size.  \<open>Workload_Pick\<close> feeds the programs' events to the analysis.
    \<open>Ring_Bench\<close>: \<open>bench/producer_consumer.cpp\<close>, access by access.  \<open>Micro_Bench\<close>:
    \<open>bench/micro_jit_direct.cpp\<close>.  \<open>Lifetime_Probe\<close>: \<open>bench/gate1_lifetime_probe.c\<close>.

  \<^bold>\<open>State.\<close>  A C++ global or member is a field of a record under its own name: \<open>Arena\<close>, \<open>RingBuffer\<close>,
  \<open>trace_state\<close>, \<open>dispatch\<close>, \<open>seg_state\<close>, \<open>jit_state\<close> (the slots of the running thread and the segments),
  \<open>codegen_state\<close>, \<open>analysis\<close>, \<open>deopt_state\<close>, \<open>process\<close> (one thread's view of all of them), \<open>background\<close>
  and \<open>system\<close>; \<open>bg_view\<close> and \<open>bg_store\<close> are the part the background thread shares.  Arrays with a
  used part are lists of that part; integers keep their width; addresses are 64-bit words.  An
  assertion, an abort and an early return are constructors of error types; a loop that may not end
  is a partial function, and its termination is proved where it is claimed.

  \<^bold>\<open>What the lemmas show.\<close>
  \<^item> Containers: the ring and the deopt queue deliver in order what they accept, the tables refine
    maps, the arena's blocks are disjoint, the pagemap answers for exactly the registered segments.
  \<^item> Machine code: every emitted routine, run on the machine, ends within 20 instructions, keeps
    the alignment of the stack, and does what its strategy promises; a compiled page does so for
    the slot of whichever thread runs it.
  \<^item> Chunks: a refill cuts a segment exactly; the remote queue loses no chunk; a retired segment
    is reaped when its last chunk is freed and not before; for a free-list,
    multi-size, BumpAlloc or PairedStack slot, the chunks the program holds never overlap and stay mapped,
    over all allocations, frees by any thread, sweeps, and the work of other slots and other
    threads in segments of their own.
  \<^item> Analysis: histograms are exact, the analysis never fails and keeps its invariants, a steady
    site, and one freed in stack order at most 16 deep, is compiled after a known number of events,
    a blacklisted site never again.
  \<^item> Concurrency: no registered thread executes an unmapped page; a parked background thread
    recovers after at most one timeout.
  \<^item> Program: inline caches agree with the table, \<open>free\<close> returns a pointer to its owner; with up to
    125 threads no call aborts, unless a compiled routine fails its own assertion; shutdown returns and processes every event, the background loop
    ends.
  \<^item> Files and tools: traces read back as written, the JSON report is well-formed and
    unambiguous, the replay benchmark balances the heap and its profiled pass is one more replay.
  \<^item> Benchmarks: each program frees what it was given and reads its pattern, on the library's own
    slots too, whichever sizes it mixes; the producer and the consumer hand over every chunk in order and cannot block each
    other; the direct calls stay in one segment; the probe's live size is that of the
    chunks it holds, by the books of a metered allocator, exactly when its window is full.
  Some theorems state where the code falls short of its intention: site 0 in the dispatch table,
  the served count of a ProducerConsumer segment, a page queued twice, the missed wake-up.

  \<^bold>\<open>Bounds.\<close>  20 steps of the machine cover the longest path of any routine (a proof for each); the
  loops over input lists need no bound; \<open>Safe_Point\<close> counts epochs and generations in \<open>nat\<close>, and
  the properties of the inline cache hold until the 64-bit generation wraps; the system has room
  for 125 rings; traces have fewer than \<open>2 ^ 32\<close> events in the benchmark.  Shared accesses are
  taken in program order.

  \<^bold>\<open>Not modelled.\<close>  What the operating system and libc do inside (\<open>mmap\<close>, \<open>madvise\<close>, \<open>futex\<close>, \<open>dlsym\<close>,
  \<open>malloc\<close>) is an argument or a log; the code pages are taken to be mapped and made executable, so
  the two assertions of \<open>codegen.cpp\<close> on them are no outcomes of \<open>compile\<close>.  The time stamp counter, \<open>gettid\<close>, the clock and the
  kernel's files are arguments.  Memory is zero-filled or modelled only where the code reads it.
  Short writes of a file, the crash handler and the layout of printed lines of the benchmarks are
  left out, and so are the tests and scripts.  In \<open>Workload_Slot\<close> a failed assertion of a refill
  counts as a refused request.  Numbers that the C library's scanning leaves undefined, those outside
  \<open>long\<close>, are kept.
\<close>

end
